(* ===== verification/Prelude.thy ===== *)
theory Prelude
  imports Main "HOL-Library.Word"
begin

text \<open>
  Shared vocabulary of the development: machine integer types, the errors a C function can end
  in, the memory primitives of the C library that the sources use (\<open>malloc\<close>, \<open>realloc\<close>,
  \<open>memcpy\<close>, \<open>memmove\<close> on byte blocks), big and little endian conversions, and the generic
  lemmas on words, lists and results that the component theories rely on.
\<close>

unbundle bit_operations_syntax

section \<open>Types\<close>

type_synonym u8 = "8 word"
type_synonym u16 = "16 word"
type_synonym u32 = "32 word"
type_synonym u64 = "64 word"
type_synonym bytes = "u8 list"

text \<open>
  How a C function can fail to return normally: \<open>abort ()\<close> or a failed \<open>assert\<close>, an access
  through NULL, an access outside an allocated block or to a freed one, a signed overflow (undefined behaviour),
  a mutex locked again by its owner (the thread blocks for ever), an item put into an intrusive list it is
  already on, a variable read that has no value.
\<close>

datatype cerror = Abort | AssertFailed | NullDeref | OutOfBounds | UseAfterFree | SignedOverflow | SelfDeadlock | BrokenList | Uninitialised

type_synonym 'a res = "cerror + 'a"

definition bindE :: "'a res \<Rightarrow> ('a \<Rightarrow> 'b res) \<Rightarrow> 'b res" where
  "bindE r f = (case r of Inl e \<Rightarrow> Inl e | Inr x \<Rightarrow> f x)"

lemma bindE_simps [simp]:
  "bindE (Inl e) f = Inl e"
  "bindE (Inr x) f = f x"
  by (simp_all add: bindE_def)

lemma bindE_Inr_iff:
  "bindE r f = Inr y \<longleftrightarrow> (\<exists>x. r = Inr x \<and> f x = Inr y)"
  by (cases r) auto

lemma option_eqI: "(\<And>v. a = Some v \<longleftrightarrow> b = Some v) \<Longrightarrow> a = b"
  by (cases a; cases b) auto

section \<open>Automation\<close>

named_theorems unat_simps \<open>unsigned values of word expressions\<close>
named_theorems mem_simps \<open>byte blocks: reads, writes and their lengths\<close>

section \<open>Words\<close>

lemma unat_add_small:
  fixes a b :: "'a::len word"
  assumes "unat a + unat b < 2 ^ LENGTH('a)"
  shows "unat (a + b) = unat a + unat b"
  using assms by (simp add: unat_add_lem [THEN iffD1])

lemma unat_diff_le:
  fixes a b :: "'a::len word"
  assumes "unat b \<le> unat a"
  shows "unat (a - b) = unat a - unat b"
  using assms by (simp add: unat_sub word_le_nat_alt)

lemma unat_of_nat_small:
  assumes "n < 2 ^ LENGTH('a::len)"
  shows "unat (of_nat n :: 'a word) = n"
  using assms by (simp add: unat_of_nat)

lemma unat_of_nat64 [unat_simps]:
  "n < 18446744073709551616 \<Longrightarrow> unat (of_nat n :: u64) = n"
  using unat_of_nat_small [where 'a = 64, of n] by simp

lemma unat_of_nat32 [unat_simps]:
  "n < 4294967296 \<Longrightarrow> unat (of_nat n :: u32) = n"
  using unat_of_nat_small [where 'a = 32, of n] by simp

lemma unat_add64:
  "unat (a :: u64) + unat b < 18446744073709551616 \<Longrightarrow> unat (a + b) = unat a + unat b"
  using unat_add_small [of a b] by simp

lemma unat_add32:
  "unat (a :: u32) + unat b < 4294967296 \<Longrightarrow> unat (a + b) = unat a + unat b"
  using unat_add_small [of a b] by simp

lemma unat_lt64: "unat (a :: u64) < 18446744073709551616"
  using unsigned_less [of a, where 'a = nat] by simp

lemma unat_lt32: "unat (a :: u32) < 4294967296"
  using unsigned_less [of a, where 'a = nat] by simp

lemmas word_nat_order = word_le_nat_alt word_less_nat_alt

text \<open>
  The simplifier reads \<open>int (unat w)\<close> as \<open>uint w\<close>; to use linear arithmetic on both
  readings of a word they are related through a natural number first.
\<close>

lemma uint_unat: "uint w = int (unat w)"
  by simp

lemma uint_unatE:
  obtains n where "unat w = n" and "uint w = int n"
  using uint_unat by blast

lemma sint32_nonneg:
  fixes w :: u32
  assumes "unat w < 2147483648"
  shows "sint w = uint w"
proof -
  obtain n where n: "unat w = n" "uint w = int n" by (rule uint_unatE)
  have "uint w < 2 ^ 31" and "- (2 ^ 31) \<le> uint w"
    using assms unfolding n by simp_all
  then have "signed_take_bit 31 (uint w) = uint w"
    by (intro signed_take_bit_int_eq_self)
  then show ?thesis by (simp add: sint_uint)
qed

lemma sint32_neg:
  fixes w :: u32
  assumes "2147483648 \<le> unat w"
  shows "sint w = uint w - 4294967296"
proof -
  obtain n where n: "unat w = n" "uint w = int n" by (rule uint_unatE)
  define k where "k = uint w - 4294967296"
  have k: "- (2 ^ 31) \<le> k" "k < 2 ^ 31"
    using assms unat_lt32 [of w] unfolding k_def n by simp_all
  have "word_of_int k = w" by (simp add: k_def)
  then have "sint w = sint (word_of_int k :: u32)" by simp
  also have "\<dots> = signed_take_bit 31 k" by (simp add: sint_sbintrunc')
  also have "\<dots> = k" using k by (intro signed_take_bit_int_eq_self)
  finally show ?thesis by (simp add: k_def)
qed

text \<open>\<open>int32_t\<close> converted to \<open>size_t\<close>: sign extension, so negative values become huge.\<close>

definition size_of_int32 :: "u32 \<Rightarrow> u64" where
  "size_of_int32 i = word_of_int (sint i)"

lemma unat_size_of_int32 [unat_simps]:
  "unat i < 2147483648 \<Longrightarrow> unat (size_of_int32 i) = unat i"
  by (simp add: size_of_int32_def sint32_nonneg unsigned_ucast_eq take_bit_nat_eq_self)

lemma unat_size_of_int32_neg:
  assumes "2147483648 \<le> unat i"
  shows "unat (size_of_int32 i) = unat i + 18446744069414584320"
proof -
  obtain n where n: "unat i = n" "uint i = int n" by (rule uint_unatE)
  define k where "k = int n - 4294967296"
  have k: "- 18446744073709551616 \<le> k" "k < 0"
    using unat_lt32 [of i] unfolding n k_def by simp_all
  have "uint (word_of_int k :: u64) = (k + 18446744073709551616) mod 18446744073709551616"
    by (simp only: uint_word_of_int mod_add_self2) simp
  also have "\<dots> = k + 18446744073709551616"
    by (rule mod_pos_pos_trivial) (use k in simp_all)
  finally have "uint (size_of_int32 i) = int n + 18446744069414584320"
    using assms by (simp only: size_of_int32_def sint32_neg n k_def)
  then show ?thesis unfolding n uint_unat by linarith
qed

section \<open>Memory blocks\<close>

text \<open>
  A \<open>malloc\<close>ed block is a byte list. Fresh memory has unknown content: every allocating function
  takes a function \<open>fill\<close> giving the byte found at each offset, and no theorem depends on it.
\<close>

definition malloc_block :: "(nat \<Rightarrow> u8) \<Rightarrow> nat \<Rightarrow> bytes" where
  "malloc_block fill n = map fill [0..<n]"

definition realloc_block :: "(nat \<Rightarrow> u8) \<Rightarrow> bytes \<Rightarrow> nat \<Rightarrow> bytes" where
  "realloc_block fill blk n = take n blk @ map fill [length blk..<n]"

text \<open>\<open>memcpy\<close> from a block, and into a block at an offset: both stay inside the block or fail.\<close>

text \<open>The string at the start of a block.\<close>

definition c_str :: "bytes \<Rightarrow> bytes" where
  "c_str m = takeWhile (\<lambda>c. c \<noteq> 0) m"

definition mem_read :: "nat \<Rightarrow> nat \<Rightarrow> bytes \<Rightarrow> bytes res" where
  "mem_read off n blk = (if off + n \<le> length blk then Inr (take n (drop off blk)) else Inl OutOfBounds)"

definition mem_write :: "nat \<Rightarrow> bytes \<Rightarrow> bytes \<Rightarrow> bytes res" where
  "mem_write off bs blk =
     (if off + length bs \<le> length blk
      then Inr (take off blk @ bs @ drop (off + length bs) blk) else Inl OutOfBounds)"

lemma length_malloc_block [mem_simps, simp]: "length (malloc_block fill n) = n"
  by (simp add: malloc_block_def)

lemma length_realloc_block [mem_simps, simp]: "length (realloc_block fill blk n) = n"
  by (simp add: realloc_block_def)

lemma take_realloc_block [mem_simps]:
  "m \<le> n \<Longrightarrow> m \<le> length blk \<Longrightarrow> take m (realloc_block fill blk n) = take m blk"
  by (simp add: realloc_block_def min_def)

lemma mem_read_ok [mem_simps]:
  "off + n \<le> length blk \<Longrightarrow> mem_read off n blk = Inr (take n (drop off blk))"
  by (simp add: mem_read_def)

lemma mem_write_ok [mem_simps]:
  "off + length bs \<le> length blk \<Longrightarrow>
   mem_write off bs blk = Inr (take off blk @ bs @ drop (off + length bs) blk)"
  by (simp add: mem_write_def)

lemma mem_write_length:
  "mem_write off bs blk = Inr blk' \<Longrightarrow> length blk' = length blk"
  by (auto simp: mem_write_def split: if_splits)

section \<open>Byte order\<close>

text \<open>
  \<open>htonl\<close>, \<open>htobe64\<close> and their inverses followed by \<open>memcpy\<close> of the integer: the bytes of the
  value in network (big endian) order. \<open>U8TO64_LE\<close> reads eight bytes in little endian order.
\<close>

fun be_bytes :: "nat \<Rightarrow> 'a::len word \<Rightarrow> bytes" where
  "be_bytes 0 w = []"
| "be_bytes (Suc n) w = be_bytes n (drop_bit 8 w) @ [ucast w]"

fun be_word :: "'a::len word \<Rightarrow> bytes \<Rightarrow> 'a word" where
  "be_word acc [] = acc"
| "be_word acc (b # bs) = be_word (push_bit 8 acc OR ucast b) bs"

fun le_word :: "bytes \<Rightarrow> u64" where
  "le_word [] = 0"
| "le_word (b # bs) = push_bit 8 (le_word bs) OR ucast b"

lemma length_be_bytes [simp]: "length (be_bytes n w) = n"
  by (induction n arbitrary: w) simp_all

lemma be_bytes_numeral [simp]:
  "be_bytes (numeral k) w = be_bytes (pred_numeral k) (drop_bit 8 w) @ [ucast w]"
  "be_bytes 1 w = [ucast w]"
  by (simp_all only: numeral_eq_Suc One_nat_def be_bytes.simps) simp

lemma be_word_append: "be_word acc (xs @ ys) = be_word (be_word acc xs) ys"
  by (induction xs arbitrary: acc) simp_all

lemma be_word_be_bytes_take_bit: "be_word 0 (be_bytes n w) = take_bit (8 * n) w"
proof (induction n arbitrary: w)
  case (Suc n)
  have "be_word 0 (be_bytes (Suc n) w) =
      push_bit 8 (take_bit (8 * n) (drop_bit 8 w)) OR ucast (ucast w :: u8)"
    by (simp add: be_word_append Suc.IH)
  also have "\<dots> = take_bit (8 * Suc n) w"
    by (rule bit_word_eqI) (auto simp: bit_simps)
  finally show ?case .
qed simp

text \<open>Reading back a value written in network order gives the value.\<close>

lemma be_word_be_bytes [simp]:
  fixes w :: "'a::len word"
  assumes "LENGTH('a) \<le> 8 * n"
  shows "be_word 0 (be_bytes n w) = w"
  using assms by (simp add: be_word_be_bytes_take_bit take_bit_word_eq_self)

section \<open>Checked signed arithmetic\<close>

text \<open>\<open>int\<close> addition and subtraction: a result outside the range of \<open>int\<close> is undefined behaviour.\<close>

definition int_range :: "int \<Rightarrow> bool" where
  "int_range i \<longleftrightarrow> - 2147483648 \<le> i \<and> i \<le> 2147483647"

definition c_add32 :: "u32 \<Rightarrow> u32 \<Rightarrow> u32 res" where
  "c_add32 a b = (if int_range (sint a + sint b) then Inr (a + b) else Inl SignedOverflow)"

definition c_sub32 :: "u32 \<Rightarrow> u32 \<Rightarrow> u32 res" where
  "c_sub32 a b = (if int_range (sint a - sint b) then Inr (a - b) else Inl SignedOverflow)"

lemma c_add32_nonneg:
  assumes "unat a + unat b < 2147483648"
  shows "c_add32 a b = Inr (a + b)"
proof -
  obtain m where m: "unat a = m" "uint a = int m" by (rule uint_unatE)
  obtain n where n: "unat b = n" "uint b = int n" by (rule uint_unatE)
  show ?thesis
    using assms sint32_nonneg [of a] sint32_nonneg [of b] unfolding m n
    by (simp add: c_add32_def int_range_def)
qed

lemma c_sub32_nonneg:
  assumes "unat a < 2147483648" and "unat b < 2147483648"
  shows "c_sub32 a b = Inr (a - b)"
proof -
  obtain m where m: "unat a = m" "uint a = int m" by (rule uint_unatE)
  obtain n where n: "unat b = n" "uint b = int n" by (rule uint_unatE)
  show ?thesis
    using assms sint32_nonneg [of a] sint32_nonneg [of b] unfolding m n
    by (simp add: c_sub32_def int_range_def)
qed

lemma bindE_Inl_iff: "bindE r f = Inl e \<longleftrightarrow> r = Inl e \<or> (\<exists>x. r = Inr x \<and> f x = Inl e)"
  by (cases r) auto

section \<open>Computations that may not end\<close>

text \<open>\<open>None\<close>: still running when the fuel or the input is used up; \<open>Inl\<close>: the program stops with an error.\<close>

type_synonym 'a run = "'a res option"

definition bindR :: "'a run \<Rightarrow> ('a \<Rightarrow> 'b run) \<Rightarrow> 'b run" where
  "bindR r f = (case r of None \<Rightarrow> None | Some (Inl e) \<Rightarrow> Some (Inl e) | Some (Inr x) \<Rightarrow> f x)"

lemma bindR_simps [simp]:
  "bindR None f = None" "bindR (Some (Inl e)) f = Some (Inl e)" "bindR (Some (Inr x)) f = f x"
  by (simp_all add: bindR_def)

end
