(* ===== verification/Gp_Buffer.thy ===== *)
theory Gp_Buffer
  imports Prelude
begin

text \<open>
  The growable byte buffer of \<open>base/gp_buffer.c\<close>: a block with a read and a write index, the
  space before the read index being reclaimed when a write does not fit. All indices are
  \<open>size_t\<close>, kept at 64 bits. Every operation of the file is a definition here; the abstraction is
  the byte string between the two indices, and the laws of the interface \<open>byte_queue\<close> say that
  appending and retrieving act on that string as on a queue of bytes.
\<close>

section \<open>State and operations\<close>

record gp_buffer =
  buf_bytes :: bytes
  buf_len :: u64
  reader_index :: u64
  writer_index :: u64

definition k_cheap_prepend :: u64 where
  "k_cheap_prepend = 8"

definition k_initial_size :: u64 where
  "k_initial_size = 8192"

definition init_gp_buffer :: "(nat \<Rightarrow> u8) \<Rightarrow> gp_buffer" where
  "init_gp_buffer fill =
     \<lparr>buf_bytes = malloc_block fill (unat (k_cheap_prepend + k_initial_size)),
      buf_len = k_cheap_prepend + k_initial_size,
      reader_index = k_cheap_prepend,
      writer_index = k_cheap_prepend\<rparr>"

definition readable_bytes :: "gp_buffer \<Rightarrow> u64" where
  "readable_bytes b = writer_index b - reader_index b"

definition writable_bytes :: "gp_buffer \<Rightarrow> u64" where
  "writable_bytes b = buf_len b - writer_index b"

definition prependable_bytes :: "gp_buffer \<Rightarrow> u64" where
  "prependable_bytes b = reader_index b"

text \<open>\<open>peek\<close> returns a pointer into the block: here its offset.\<close>

definition peek :: "gp_buffer \<Rightarrow> nat" where
  "peek b = unat (reader_index b)"

definition retrieve_all :: "gp_buffer \<Rightarrow> gp_buffer" where
  "retrieve_all b = b\<lparr>reader_index := k_cheap_prepend, writer_index := k_cheap_prepend\<rparr>"

definition has_written :: "gp_buffer \<Rightarrow> u64 \<Rightarrow> gp_buffer" where
  "has_written b n = b\<lparr>writer_index := writer_index b + n\<rparr>"

definition retrieve :: "gp_buffer \<Rightarrow> u64 \<Rightarrow> gp_buffer" where
  "retrieve b n =
     (if n < readable_bytes b then b\<lparr>reader_index := reader_index b + n\<rparr> else retrieve_all b)"

definition retrieve_as_string :: "gp_buffer \<Rightarrow> u64 \<Rightarrow> (bytes \<times> gp_buffer) res" where
  "retrieve_as_string b n =
     bindE (mem_read (peek b) (unat n) (buf_bytes b)) (\<lambda>tmp. Inr (tmp, retrieve b n))"

definition retrieve_all_as_string :: "gp_buffer \<Rightarrow> (bytes \<times> gp_buffer) res" where
  "retrieve_all_as_string b = retrieve_as_string b (readable_bytes b)"

text \<open>
  Either the block grows (\<open>realloc\<close>) or the readable bytes are moved to the front (\<open>memmove\<close>
  through a temporary copy, so overlapping ranges are safe).
\<close>

definition make_space :: "(nat \<Rightarrow> u8) \<Rightarrow> gp_buffer \<Rightarrow> u64 \<Rightarrow> gp_buffer res" where
  "make_space fill b n =
     (if writable_bytes b + prependable_bytes b < n + k_cheap_prepend
      then Inr (b\<lparr>buf_bytes := realloc_block fill (buf_bytes b) (unat (writer_index b + n)),
                  buf_len := n + writer_index b\<rparr>)
      else
        (let readable = readable_bytes b in
         bindE (mem_read (peek b) (unat (readable_bytes b)) (buf_bytes b)) (\<lambda>src.
         bindE (mem_write (unat k_cheap_prepend) src (buf_bytes b)) (\<lambda>blk.
           Inr (b\<lparr>buf_bytes := blk,
                  reader_index := k_cheap_prepend,
                  writer_index := k_cheap_prepend + readable\<rparr>)))))"

definition ensure_writable_bytes :: "(nat \<Rightarrow> u8) \<Rightarrow> gp_buffer \<Rightarrow> u64 \<Rightarrow> gp_buffer res" where
  "ensure_writable_bytes fill b n = (if writable_bytes b < n then make_space fill b n else Inr b)"

text \<open>The caller's \<open>(str, len)\<close> is the byte list \<open>str\<close>, \<open>len\<close> its length.\<close>

definition buffer_append :: "(nat \<Rightarrow> u8) \<Rightarrow> gp_buffer \<Rightarrow> bytes \<Rightarrow> gp_buffer res" where
  "buffer_append fill b str =
     (let n = of_nat (length str) in
      bindE (ensure_writable_bytes fill b n) (\<lambda>b1.
      bindE (mem_write (unat (writer_index b1)) str (buf_bytes b1)) (\<lambda>blk.
        Inr (has_written (b1\<lparr>buf_bytes := blk\<rparr>) n))))"

text \<open>
  \<open>readv\<close> is the operating system's: given the lengths of the vectors it is called with, it fails
  with an error number or delivers a byte string, which fills the vectors in order.
  The result is \<open>n\<close> as \<open>size_t\<close> (\<open>-1\<close> becomes the largest value), the saved error number and the
  buffer.
\<close>

definition extrabuf_size :: nat where
  "extrabuf_size = 65536"

definition buffer_read_fd ::
  "(nat \<Rightarrow> u8) \<Rightarrow> (nat list \<Rightarrow> int + bytes) \<Rightarrow> gp_buffer \<Rightarrow> (u64 \<times> int option \<times> gp_buffer) res" where
  "buffer_read_fd fill readv b =
     (let writable = writable_bytes b;
          iov = (if writable < of_nat extrabuf_size
                 then [unat writable, extrabuf_size] else [unat writable])
      in case readv iov of
           Inl errno \<Rightarrow> Inr (- 1, Some errno, b)
         | Inr got \<Rightarrow>
             bindE (mem_write (unat (writer_index b)) (take (unat writable) got) (buf_bytes b)) (\<lambda>blk.
             let b1 = b\<lparr>buf_bytes := blk\<rparr>; n = of_nat (length got) in
             if n \<le> writable
             then Inr (n, None, b1\<lparr>writer_index := writer_index b1 + n\<rparr>)
             else bindE (buffer_append fill (b1\<lparr>writer_index := buf_len b1\<rparr>) (drop (unat writable) got))
                    (\<lambda>b2. Inr (n, None, b2))))"

text \<open>
  The \<open>peek_*\<close> functions abort the process when fewer bytes are readable than asked for. The
  \<open>int32_t\<close> lengths are compared with a \<open>size_t\<close>, hence converted to one.
\<close>

definition peek_word :: "nat \<Rightarrow> gp_buffer \<Rightarrow> 'a::len word res" where
  "peek_word n b =
     (if of_nat n \<le> readable_bytes b
      then bindE (mem_read (peek b) n (buf_bytes b)) (\<lambda>bs. Inr (be_word 0 bs))
      else Inl Abort)"

definition peek_int64 :: "gp_buffer \<Rightarrow> u64 res" where
  "peek_int64 b = peek_word 8 b"

definition peek_int32 :: "gp_buffer \<Rightarrow> u32 res" where
  "peek_int32 b = peek_word 4 b"

definition peek_int16 :: "gp_buffer \<Rightarrow> u16 res" where
  "peek_int16 b = peek_word 2 b"

definition peek_int8 :: "gp_buffer \<Rightarrow> u8 res" where
  "peek_int8 b = peek_word 1 b"

definition peek_str :: "gp_buffer \<Rightarrow> u32 \<Rightarrow> bytes res" where
  "peek_str b n =
     (if size_of_int32 n \<le> readable_bytes b
      then if sint n = 2147483647 then Inl SignedOverflow
      else bindE (mem_read (peek b) (unat (size_of_int32 n)) (buf_bytes b)) (\<lambda>bs. Inr (bs @ [0]))
      else Inl Abort)"

text \<open>\<open>protobuf_c_message_unpack\<close> is the library's: it reads \<open>len\<close> bytes and returns a message or NULL.\<close>

definition peek_pb_msg ::
  "('d \<Rightarrow> bytes \<Rightarrow> 'm option) \<Rightarrow> gp_buffer \<Rightarrow> 'd \<Rightarrow> u32 \<Rightarrow> 'm option res" where
  "peek_pb_msg unpack b desc n =
     (if size_of_int32 n \<le> readable_bytes b
      then bindE (mem_read (peek b) (unat (size_of_int32 n)) (buf_bytes b)) (\<lambda>bs. Inr (unpack desc bs))
      else Inl Abort)"

definition read_int64 :: "gp_buffer \<Rightarrow> (u64 \<times> gp_buffer) res" where
  "read_int64 b = bindE (peek_int64 b) (\<lambda>r. Inr (r, retrieve b 8))"

definition read_int32 :: "gp_buffer \<Rightarrow> (u32 \<times> gp_buffer) res" where
  "read_int32 b = bindE (peek_int32 b) (\<lambda>r. Inr (r, retrieve b 4))"

definition read_int16 :: "gp_buffer \<Rightarrow> (u16 \<times> gp_buffer) res" where
  "read_int16 b = bindE (peek_int16 b) (\<lambda>r. Inr (r, retrieve b 2))"

definition read_int8 :: "gp_buffer \<Rightarrow> (u8 \<times> gp_buffer) res" where
  "read_int8 b = bindE (peek_int8 b) (\<lambda>r. Inr (r, retrieve b 1))"

definition read_str :: "gp_buffer \<Rightarrow> u32 \<Rightarrow> (bytes \<times> gp_buffer) res" where
  "read_str b n = bindE (peek_str b n) (\<lambda>r. Inr (r, retrieve b (size_of_int32 n)))"

definition read_pb_msg ::
  "('d \<Rightarrow> bytes \<Rightarrow> 'm option) \<Rightarrow> gp_buffer \<Rightarrow> 'd \<Rightarrow> u32 \<Rightarrow> ('m option \<times> gp_buffer) res" where
  "read_pb_msg unpack b desc n =
     bindE (peek_pb_msg unpack b desc n) (\<lambda>r. Inr (r, retrieve b (size_of_int32 n)))"

section \<open>Invariant and abstraction\<close>

text \<open>
  The block has the recorded length, the indices are ordered, the first eight bytes stay reserved,
  and the block is smaller than \<open>2 ^ 62\<close> bytes, so that no index computation wraps around.
\<close>

definition buffer_ok :: "gp_buffer \<Rightarrow> bool" where
  "buffer_ok b \<longleftrightarrow>
     unat (buf_len b) = length (buf_bytes b) \<and> 8 \<le> unat (reader_index b) \<and>
     unat (reader_index b) \<le> unat (writer_index b) \<and> unat (writer_index b) \<le> unat (buf_len b) \<and>
     unat (buf_len b) < 4611686018427387904"

definition contents :: "gp_buffer \<Rightarrow> bytes" where
  "contents b = take (unat (writer_index b) - unat (reader_index b))
                     (drop (unat (reader_index b)) (buf_bytes b))"

text \<open>How many bytes can still be appended before the bound on the block is reached.\<close>

definition buf_room :: "gp_buffer \<Rightarrow> nat" where
  "buf_room b = 4611686018427387903 - unat (writer_index b)"

lemmas buffer_defs = readable_bytes_def writable_bytes_def prependable_bytes_def peek_def
  retrieve_all_def has_written_def k_cheap_prepend_def k_initial_size_def

lemma buffer_okD:
  assumes "buffer_ok b"
  shows "unat (buf_len b) = length (buf_bytes b)" "8 \<le> unat (reader_index b)"
    "unat (reader_index b) \<le> unat (writer_index b)" "unat (writer_index b) \<le> unat (buf_len b)"
    "unat (buf_len b) < 4611686018427387904" "unat (writer_index b) < 4611686018427387904"
    "unat (reader_index b) < 4611686018427387904"
  using assms by (auto simp: buffer_ok_def)

lemma length_contents [simp]:
  assumes "buffer_ok b"
  shows "length (contents b) = unat (writer_index b) - unat (reader_index b)"
  using buffer_okD [OF assms] by (simp add: contents_def)

lemma readable_bytes_contents:
  assumes "buffer_ok b"
  shows "unat (readable_bytes b) = length (contents b)"
  using buffer_okD [OF assms] assms by (simp add: readable_bytes_def unat_diff_le)

lemma unat_writable_bytes:
  assumes "buffer_ok b"
  shows "unat (writable_bytes b) = unat (buf_len b) - unat (writer_index b)"
  using buffer_okD [OF assms] by (simp add: writable_bytes_def unat_diff_le)

lemma init_gp_buffer_ok: "buffer_ok (init_gp_buffer fill)"
  by (simp add: buffer_ok_def init_gp_buffer_def buffer_defs)

lemma init_gp_buffer_contents: "contents (init_gp_buffer fill) = []"
  by (simp add: contents_def init_gp_buffer_def buffer_defs)

lemma retrieve_all_ok:
  assumes "buffer_ok b"
  shows "buffer_ok (retrieve_all b)" "contents (retrieve_all b) = []"
  using buffer_okD [OF assms] by (auto simp: buffer_ok_def contents_def buffer_defs)

lemma retrieve_ok:
  assumes "buffer_ok b"
  shows "buffer_ok (retrieve b n)"
proof (cases "n < readable_bytes b")
  case True
  then have n: "unat n < unat (writer_index b) - unat (reader_index b)"
    using assms by (simp add: word_less_nat_alt readable_bytes_contents)
  then have "unat (reader_index b + n) = unat (reader_index b) + unat n"
    using buffer_okD [OF assms] by (intro unat_add64) linarith
  then show ?thesis
    using True n buffer_okD [OF assms] by (simp add: retrieve_def buffer_ok_def)
next
  case False
  then show ?thesis using retrieve_all_ok [OF assms] by (simp add: retrieve_def)
qed

lemma contents_retrieve:
  assumes "buffer_ok b"
  shows "contents (retrieve b n) = drop (unat n) (contents b)"
proof (cases "n < readable_bytes b")
  case True
  then have n: "unat n < unat (writer_index b) - unat (reader_index b)"
    using assms by (simp add: word_less_nat_alt readable_bytes_contents)
  then have "unat (reader_index b + n) = unat (reader_index b) + unat n"
    using buffer_okD [OF assms] by (intro unat_add64) linarith
  then show ?thesis
    using True by (simp add: retrieve_def contents_def drop_take add.commute)
next
  case False
  then have "length (contents b) \<le> unat n"
    using assms by (simp add: word_less_nat_alt readable_bytes_contents)
  then show ?thesis using False retrieve_all_ok [OF assms] by (simp add: retrieve_def)
qed

lemma writer_index_retrieve:
  assumes "buffer_ok b"
  shows "unat (writer_index (retrieve b n)) \<le> unat (writer_index b)"
  using buffer_okD [OF assms] by (simp add: retrieve_def buffer_defs)

section \<open>Writing\<close>

lemma mem_read_contents:
  assumes "buffer_ok b" and "n \<le> length (contents b)"
  shows "mem_read (peek b) n (buf_bytes b) = Inr (take n (contents b))"
  using assms buffer_okD [OF assms(1)]
  by (simp add: mem_simps peek_def contents_def min_absorb1)

lemma make_space_grow:
  assumes "buffer_ok b" and "writable_bytes b < n" and "unat n \<le> buf_room b"
    and "writable_bytes b + prependable_bytes b < n + k_cheap_prepend"
  shows "\<exists>b'. make_space fill b n = Inr b' \<and> buffer_ok b' \<and> contents b' = contents b \<and>
    unat n \<le> unat (writable_bytes b') \<and> unat (writer_index b') \<le> unat (writer_index b)"
proof -
  note D = buffer_okD [OF assms(1)]
  have s: "unat (writer_index b + n) = unat (writer_index b) + unat n"
    using assms(3) D by (intro unat_add64) (simp add: buf_room_def)
  have s': "unat (n + writer_index b) = unat (writer_index b) + unat n"
    using s by (simp add: add.commute)
  let ?b = "b\<lparr>buf_bytes := realloc_block fill (buf_bytes b) (unat (writer_index b + n)),
              buf_len := n + writer_index b\<rparr>"
  have ok: "buffer_ok ?b"
    using D assms(3) s s' by (simp add: buffer_ok_def buf_room_def)
  have "take (unat (writer_index b)) (buf_bytes ?b) = take (unat (writer_index b)) (buf_bytes b)"
    using D s by (simp add: take_realloc_block)
  then have "contents ?b = contents b"
    by (simp add: contents_def take_drop)
       (metis D(3) diff_add drop_take le_add_diff_inverse2)
  then show ?thesis
    using assms(4) ok s' by (simp add: make_space_def unat_writable_bytes)
qed

lemma make_space_shift:
  assumes "buffer_ok b" and "unat n \<le> buf_room b"
    and "\<not> writable_bytes b + prependable_bytes b < n + k_cheap_prepend"
  shows "\<exists>b'. make_space fill b n = Inr b' \<and> buffer_ok b' \<and> contents b' = contents b \<and>
    unat n \<le> unat (writable_bytes b') \<and> unat (writer_index b') \<le> unat (writer_index b)"
proof -
  note D = buffer_okD [OF assms(1)]
  have rd: "unat (readable_bytes b) = length (contents b)"
    using assms(1) by (rule readable_bytes_contents)
  have sum: "unat (writable_bytes b + prependable_bytes b) =
      unat (buf_len b) - unat (writer_index b) + unat (reader_index b)"
    using D by (subst unat_add64) (simp_all add: unat_writable_bytes [OF assms(1)] prependable_bytes_def)
  have n8: "unat (n + k_cheap_prepend) = unat n + 8"
    using assms(2) by (subst unat_add64) (simp_all add: k_cheap_prepend_def buf_room_def)
  have fit: "unat n + 8 \<le> unat (buf_len b) - unat (writer_index b) + unat (reader_index b)"
    using assms(3) sum n8 by (simp add: word_less_nat_alt)
  have w: "unat (k_cheap_prepend + readable_bytes b) = 8 + length (contents b)"
    using D rd by (subst unat_add64) (simp_all add: k_cheap_prepend_def assms(1))
  let ?blk = "take 8 (buf_bytes b) @ contents b @ drop (8 + length (contents b)) (buf_bytes b)"
  let ?b = "b\<lparr>buf_bytes := ?blk, reader_index := k_cheap_prepend,
              writer_index := k_cheap_prepend + readable_bytes b\<rparr>"
  have len: "8 + length (contents b) \<le> length (buf_bytes b)"
    using D assms(1) by simp
  have eq: "make_space fill b n = Inr ?b"
    using assms(3) len rd
    by (simp add: make_space_def Let_def mem_read_contents [OF assms(1)] mem_write_ok k_cheap_prepend_def)
  have ok: "buffer_ok ?b"
    using D len w assms(1) by (simp add: buffer_ok_def k_cheap_prepend_def)
  have "contents ?b = contents b"
    using len by (simp add: contents_def [of ?b] w) (simp add: k_cheap_prepend_def)
  moreover have "unat (writable_bytes ?b) = unat (buf_len b) - (8 + length (contents b))"
    using unat_writable_bytes [OF ok] by (simp add: w del: length_contents)
  then have "unat n \<le> unat (writable_bytes ?b)"
    using fit D assms(1) by simp
  moreover have "unat (writer_index ?b) \<le> unat (writer_index b)"
    using D assms(1) by (simp add: w)
  ultimately show ?thesis using eq ok by blast
qed

lemma ensure_writable_bytes_correct:
  assumes "buffer_ok b" and "unat n \<le> buf_room b"
  shows "\<exists>b'. ensure_writable_bytes fill b n = Inr b' \<and> buffer_ok b' \<and> contents b' = contents b \<and>
    unat n \<le> unat (writable_bytes b') \<and> unat (writer_index b') \<le> unat (writer_index b)"
  using assms make_space_grow [OF assms(1) _ assms(2)] make_space_shift [OF assms]
  by (cases "writable_bytes b < n") (auto simp: ensure_writable_bytes_def word_less_nat_alt)

lemma write_at_writer:
  assumes "buffer_ok b" and "length str \<le> unat (writable_bytes b)"
  shows "\<exists>blk. mem_write (unat (writer_index b)) str (buf_bytes b) = Inr blk \<and>
    buffer_ok (has_written (b\<lparr>buf_bytes := blk\<rparr>) (of_nat (length str))) \<and>
    contents (has_written (b\<lparr>buf_bytes := blk\<rparr>) (of_nat (length str))) = contents b @ str \<and>
    unat (writer_index b + of_nat (length str)) = unat (writer_index b) + length str"
proof -
  note D = buffer_okD [OF assms(1)]
  have fit: "unat (writer_index b) + length str \<le> length (buf_bytes b)"
    using assms D by (simp add: unat_writable_bytes)
  have n: "unat (of_nat (length str) :: u64) = length str"
    using fit D by (simp add: unat_of_nat64)
  have w: "unat (writer_index b + of_nat (length str)) = unat (writer_index b) + length str"
    using n fit D by (subst unat_add64) simp_all
  let ?blk = "take (unat (writer_index b)) (buf_bytes b) @ str @
      drop (unat (writer_index b) + length str) (buf_bytes b)"
  have "buffer_ok (has_written (b\<lparr>buf_bytes := ?blk\<rparr>) (of_nat (length str)))"
    using D fit w by (simp add: buffer_ok_def has_written_def)
  moreover have "contents (has_written (b\<lparr>buf_bytes := ?blk\<rparr>) (of_nat (length str))) = contents b @ str"
    using D fit by (simp add: contents_def has_written_def w drop_take)
  ultimately show ?thesis
    using fit w by (simp add: mem_write_ok)
qed

text \<open>Appending never fails below the size bound and appends exactly the given bytes.\<close>

lemma buffer_append_correct:
  assumes "buffer_ok b" and "length str \<le> buf_room b"
  shows "\<exists>b'. buffer_append fill b str = Inr b' \<and> buffer_ok b' \<and> contents b' = contents b @ str \<and>
    buf_room b \<le> buf_room b' + length str"
proof -
  have n: "unat (of_nat (length str) :: u64) = length str"
    using assms(2) by (simp add: unat_of_nat64 buf_room_def)
  obtain b1 where b1: "ensure_writable_bytes fill b (of_nat (length str)) = Inr b1"
      "buffer_ok b1" "contents b1 = contents b" "length str \<le> unat (writable_bytes b1)"
      "unat (writer_index b1) \<le> unat (writer_index b)"
    using ensure_writable_bytes_correct [OF assms(1), of "of_nat (length str)" fill] n assms(2) by auto
  then show ?thesis
    using write_at_writer [OF b1(2,4)] b1(5) assms(2)
    by (auto simp: buffer_append_def Let_def b1(1-4) buf_room_def has_written_def)
qed

section \<open>Reading\<close>

lemma peek_word_eq:
  assumes "buffer_ok b" and "n < 18446744073709551616"
  shows "peek_word n b =
    (if n \<le> length (contents b) then Inr (be_word 0 (take n (contents b))) else Inl Abort)"
  using assms readable_bytes_contents [OF assms(1)] mem_read_contents [OF assms(1)]
  by (simp add: peek_word_def word_le_nat_alt unat_of_nat64 del: length_contents)

lemmas peek_int_defs = peek_int64_def peek_int32_def peek_int16_def peek_int8_def

lemma peek_str_eq:
  assumes "buffer_ok b" and "unat n < 2147483647"
  shows "peek_str b n =
    (if unat n \<le> length (contents b) then Inr (take (unat n) (contents b) @ [0]) else Inl Abort)"
proof -
  have "sint n = int (unat n)" using assms(2) by (simp add: sint32_nonneg)
  then have "sint n \<noteq> 2147483647" using assms(2) by linarith
  then show ?thesis
    using assms readable_bytes_contents [OF assms(1)] mem_read_contents [OF assms(1)]
    by (simp add: peek_str_def word_le_nat_alt unat_size_of_int32 del: length_contents)
qed

lemma peek_pb_msg_eq:
  assumes "buffer_ok b" and "unat n < 2147483648"
  shows "peek_pb_msg unpack b d n =
    (if unat n \<le> length (contents b) then Inr (unpack d (take (unat n) (contents b))) else Inl Abort)"
  using assms readable_bytes_contents [OF assms(1)] mem_read_contents [OF assms(1)]
  by (simp add: peek_pb_msg_def word_le_nat_alt unat_size_of_int32 del: length_contents)

lemma neg_length_aborts:
  assumes "buffer_ok b" and "2147483648 \<le> unat n"
  shows "peek_str b n = Inl Abort" "peek_pb_msg unpack b d n = Inl Abort"
proof -
  have "unat (readable_bytes b) < 4611686018427387904"
    using buffer_okD [OF assms(1)] by (simp add: readable_bytes_contents [OF assms(1)] assms(1))
  then have "\<not> size_of_int32 n \<le> readable_bytes b"
    using unat_size_of_int32_neg [OF assms(2)] by (simp add: word_le_nat_alt)
  then show "peek_str b n = Inl Abort" "peek_pb_msg unpack b d n = Inl Abort"
    by (simp_all add: peek_str_def peek_pb_msg_def)
qed

lemma writer_plus_writable: "writer_index b + writable_bytes b = buf_len b"
  by (simp add: writable_bytes_def)

text \<open>
  Scattered input: the part of the input that fits goes behind the write index, the rest is taken
  from the extra vector and appended, so the readable bytes are extended by exactly the input.
\<close>

lemma buffer_read_fd_data:
  assumes ok: "buffer_ok b" and room: "unat (buf_len b) + extrabuf_size < 4611686018427387904"
    and len: "length got \<le> unat (writable_bytes b) + extrabuf_size"
    and rv: "readv (if writable_bytes b < of_nat extrabuf_size
                    then [unat (writable_bytes b), extrabuf_size] else [unat (writable_bytes b)]) = Inr got"
  shows "\<exists>b'. buffer_read_fd fill readv b = Inr (of_nat (length got), None, b') \<and> buffer_ok b' \<and>
    contents b' = contents b @ got"
proof -
  note D = buffer_okD [OF ok]
  let ?w = "unat (writable_bytes b)"
  have n: "unat (of_nat (length got) :: u64) = length got"
    using len room unat_writable_bytes [OF ok] by (simp add: unat_of_nat64)
  obtain blk where blk: "mem_write (unat (writer_index b)) (take ?w got) (buf_bytes b) = Inr blk"
    and ok1: "buffer_ok (has_written (b\<lparr>buf_bytes := blk\<rparr>) (of_nat (length (take ?w got))))"
    and c1: "contents (has_written (b\<lparr>buf_bytes := blk\<rparr>) (of_nat (length (take ?w got)))) =
      contents b @ take ?w got"
    using write_at_writer [OF ok, of "take ?w got"] by auto
  show ?thesis
  proof (cases "length got \<le> ?w")
    case True
    then show ?thesis
      using blk ok1 c1 rv n by (simp add: buffer_read_fd_def Let_def word_le_nat_alt has_written_def)
  next
    case False
    let ?b1 = "b\<lparr>buf_bytes := blk, writer_index := buf_len b\<rparr>"
    have b1: "has_written (b\<lparr>buf_bytes := blk\<rparr>) (of_nat (length (take ?w got))) = ?b1"
      using False by (simp add: has_written_def writer_plus_writable min_def)
    have "length (drop ?w got) \<le> buf_room ?b1"
      using len room by (simp add: buf_room_def)
    then obtain b2 where "buffer_append fill ?b1 (drop ?w got) = Inr b2" "buffer_ok b2"
        "contents b2 = (contents b @ take ?w got) @ drop ?w got"
      using buffer_append_correct [of ?b1 "drop ?w got" fill] ok1 c1 unfolding b1 by auto
    then show ?thesis
      using False blk rv n by (simp add: buffer_read_fd_def Let_def word_le_nat_alt)
  qed
qed

section \<open>The interface: a queue of bytes\<close>

datatype queue_op = Put bytes | Discard u64

fun exec_ops :: "('s \<Rightarrow> bytes \<Rightarrow> 's res) \<Rightarrow> ('s \<Rightarrow> u64 \<Rightarrow> 's) \<Rightarrow> 's \<Rightarrow> queue_op list \<Rightarrow> 's res" where
  "exec_ops put dis s [] = Inr s"
| "exec_ops put dis s (Put bs # ops) = bindE (put s bs) (\<lambda>s'. exec_ops put dis s' ops)"
| "exec_ops put dis s (Discard n # ops) = exec_ops put dis (dis s n) ops"

fun spec_ops :: "bytes \<Rightarrow> queue_op list \<Rightarrow> bytes" where
  "spec_ops c [] = c"
| "spec_ops c (Put bs # ops) = spec_ops (c @ bs) ops"
| "spec_ops c (Discard n # ops) = spec_ops (drop (unat n) c) ops"

fun put_total :: "queue_op list \<Rightarrow> nat" where
  "put_total [] = 0"
| "put_total (Put bs # ops) = length bs + put_total ops"
| "put_total (Discard n # ops) = put_total ops"

locale byte_queue =
  fixes content :: "'s \<Rightarrow> bytes"
    and ok :: "'s \<Rightarrow> bool"
    and room :: "'s \<Rightarrow> nat"
    and put :: "'s \<Rightarrow> bytes \<Rightarrow> 's res"
    and dis :: "'s \<Rightarrow> u64 \<Rightarrow> 's"
  assumes put_correct: "ok s \<Longrightarrow> length bs \<le> room s \<Longrightarrow>
      \<exists>s'. put s bs = Inr s' \<and> ok s' \<and> content s' = content s @ bs \<and> room s \<le> room s' + length bs"
    and dis_ok: "ok s \<Longrightarrow> ok (dis s n)"
    and dis_content: "ok s \<Longrightarrow> content (dis s n) = drop (unat n) (content s)"
    and dis_room: "ok s \<Longrightarrow> room s \<le> room (dis s n)"
begin

text \<open>Any sequence of writes and reads behaves as on a byte string, and never fails.\<close>

lemma exec_refines:
  "ok s \<Longrightarrow> put_total ops \<le> room s \<Longrightarrow>
   \<exists>s'. exec_ops put dis s ops = Inr s' \<and> ok s' \<and> content s' = spec_ops (content s) ops"
proof (induction ops arbitrary: s rule: put_total.induct)
  case (2 bs ops)
  then obtain s' where "put s bs = Inr s'" "ok s'" "content s' = content s @ bs"
      "room s \<le> room s' + length bs"
    using put_correct [of s bs] by auto
  moreover from this 2 have "put_total ops \<le> room s'" by simp
  ultimately show ?case using "2.IH" [of s'] by simp
next
  case (3 n ops)
  then show ?case
    using "3.IH" [of "dis s n"] dis_ok [of s n] dis_content [of s n] dis_room [of s n] by simp
qed simp

text \<open>How the writes were cut into pieces does not matter (segmentation of a byte stream).\<close>

lemma chunks_concat:
  "ok s \<Longrightarrow> length (concat css) \<le> room s \<Longrightarrow>
   \<exists>s'. exec_ops put dis s (map Put css) = Inr s' \<and> ok s' \<and> content s' = content s @ concat css"
proof -
  assume *: "ok s" "length (concat css) \<le> room s"
  have "put_total (map Put css) = length (concat css)"
    by (induction css) simp_all
  moreover have "spec_ops c (map Put css) = c @ concat css" for c
    by (induction css arbitrary: c) simp_all
  ultimately show ?thesis using exec_refines [OF *(1), of "map Put css"] * by simp
qed

end

lemma buf_room_retrieve: "buffer_ok b \<Longrightarrow> buf_room b \<le> buf_room (retrieve b n)"
  by (simp add: buf_room_def diff_le_mono2 writer_index_retrieve)

interpretation buf: byte_queue contents buffer_ok buf_room "buffer_append fill" retrieve for fill
  by unfold_locales (simp_all add: buffer_append_correct retrieve_ok contents_retrieve buf_room_retrieve)

lemma init_gp_buffer_room: "buf_room (init_gp_buffer fill) = 4611686018427387895"
  by (simp add: buf_room_def init_gp_buffer_def k_cheap_prepend_def)

section \<open>Properties\<close>

text \<open>
  C3. The buffer refines a byte string. Starting from a fresh buffer, any sequence of
  \<open>buffer_append\<close> and \<open>retrieve\<close> calls that writes fewer than \<open>2 ^ 62 - 9\<close> bytes succeeds (no access
  outside the block), keeps the index invariant, and leaves as readable bytes what the same sequence
  leaves of a string to which writes append and from which reads drop a prefix, whatever the initial
  content of the memory and wherever the block was moved or enlarged.
\<close>

theorem buffer_ops_refine_byte_string:
  assumes "put_total ops < 4611686018427387895"
  shows "\<exists>b. exec_ops (buffer_append fill) retrieve (init_gp_buffer fill) ops = Inr b \<and>
    buffer_ok b \<and> contents b = spec_ops [] ops"
proof -
  have "put_total ops \<le> buf_room (init_gp_buffer fill)"
    using assms by (simp add: init_gp_buffer_room)
  then show ?thesis
    using buf.exec_refines [OF init_gp_buffer_ok] by (simp add: init_gp_buffer_contents)
qed

theorem buffer_ops_refine_byte_string_witness:
  "\<exists>b. exec_ops (buffer_append (\<lambda>_. 0)) retrieve (init_gp_buffer (\<lambda>_. 0))
      [Put [1, 2, 3], Discard 1, Put [4]] = Inr b \<and> buffer_ok b \<and> contents b = [2, 3, 4]"
  using buffer_ops_refine_byte_string [of "[Put [1, 2, 3], Discard 1, Put [4]]" "\<lambda>_. 0"] by simp

text \<open>
  C23. Scattered input. The function asks \<open>readv\<close> to fill the free part of the buffer first and, when
  this is less than 64 KiB, the stack buffer behind it. If the call fails, the result is \<open>-1\<close>, the error
  number is saved and the buffer is unchanged. If it delivers bytes, no more than were asked for, exactly
  these bytes are appended, in order and including the ones that went through the stack buffer, and their
  number is returned.
\<close>

theorem buffer_read_fd_appends_input:
  fixes b :: gp_buffer
  defines "free \<equiv> unat (buf_len b) - unat (writer_index b)"
  assumes "buffer_ok b" and "unat (buf_len b) < 4611686018427322368"
    and "\<And>iov got. readv iov = Inr got \<Longrightarrow> length got \<le> sum_list iov"
  shows "case readv (if free < 65536 then [free, 65536] else [free]) of
      Inl errno \<Rightarrow> buffer_read_fd fill readv b = Inr (- 1, Some errno, b)
    | Inr got \<Rightarrow> \<exists>b'. buffer_read_fd fill readv b = Inr (of_nat (length got), None, b') \<and> buffer_ok b' \<and>
        contents b' = contents b @ got"
proof -
  have free: "unat (writable_bytes b) = free" "writable_bytes b < of_nat extrabuf_size \<longleftrightarrow> free < 65536"
    using unat_writable_bytes [OF assms(2)] by (simp_all add: free_def word_less_nat_alt extrabuf_size_def)
  define iov where "iov = (if free < 65536 then [free, 65536] else [free])"
  have iov: "(if writable_bytes b < of_nat extrabuf_size
    then [unat (writable_bytes b), extrabuf_size] else [unat (writable_bytes b)]) = iov"
    using free by (simp add: iov_def extrabuf_size_def)
  show ?thesis unfolding iov_def [symmetric]
  proof (cases "readv iov")
    case (Inl e)
    then show "case readv iov of Inl e \<Rightarrow> buffer_read_fd fill readv b = Inr (- 1, Some e, b)
      | Inr got \<Rightarrow> \<exists>b'. buffer_read_fd fill readv b = Inr (of_nat (length got), None, b') \<and> buffer_ok b' \<and>
        contents b' = contents b @ got"
      unfolding buffer_read_fd_def Let_def iov by simp
  next
    case (Inr got)
    then have "length got \<le> unat (writable_bytes b) + extrabuf_size"
      using assms(4) [OF Inr] free by (simp add: iov_def extrabuf_size_def split: if_splits)
    moreover have "unat (buf_len b) + extrabuf_size < 4611686018427387904"
      using assms(3) by (simp add: extrabuf_size_def)
    ultimately show "case readv iov of Inl e \<Rightarrow> buffer_read_fd fill readv b = Inr (- 1, Some e, b)
      | Inr got \<Rightarrow> \<exists>b'. buffer_read_fd fill readv b = Inr (of_nat (length got), None, b') \<and> buffer_ok b' \<and>
        contents b' = contents b @ got"
      using buffer_read_fd_data [of b got readv fill] assms(2) Inr unfolding iov by simp
  qed
qed

text \<open>A read of 8200 bytes into a new buffer, which has 8192 bytes free.\<close>

theorem buffer_read_fd_appends_input_witness:
  "\<exists>b'. buffer_read_fd (\<lambda>_. 0) (\<lambda>iov. Inr (take (sum_list iov) (map of_nat [0..<8200]))) (init_gp_buffer (\<lambda>_. 0)) =
      Inr (8200, None, b') \<and> buffer_ok b' \<and> contents b' = map of_nat [0..<8200]"
proof -
  have "contents (init_gp_buffer (\<lambda>_. 0)) = []"
    and "unat (buf_len (init_gp_buffer (\<lambda>_. 0))) = 8200" "unat (writer_index (init_gp_buffer (\<lambda>_. 0))) = 8"
    by (simp_all add: init_gp_buffer_def contents_def buffer_defs)
  then show ?thesis
    using buffer_read_fd_appends_input [of "init_gp_buffer (\<lambda>_. 0)" "\<lambda>iov. Inr (take (sum_list iov) (map of_nat [0..<8200]))" "\<lambda>_. 0",
      OF init_gp_buffer_ok]
    by (simp del: upt_rec_numeral)
qed

lemma read_word_back:
  assumes "buffer_ok b" and "contents b = be_bytes n w @ rest" and "LENGTH('a) \<le> 8 * n"
    and "n < 18446744073709551616"
  shows "peek_word n b = Inr (w :: 'a::len word)"
  using assms by (simp add: peek_word_eq del: length_contents)

text \<open>
  Integers written in network order are read back. If the readable bytes begin with the big
  endian bytes of a 64, 32, 16 or 8 bit value, the corresponding \<open>read_int*\<close> returns that value and
  consumes exactly its bytes.
\<close>

lemma read_ints_roundtrip:
  assumes "buffer_ok b"
  shows "(\<forall>v rest. contents b = be_bytes 8 v @ rest \<longrightarrow>
      (\<exists>b'. read_int64 b = Inr (v, b') \<and> buffer_ok b' \<and> contents b' = rest)) \<and>
    (\<forall>v rest. contents b = be_bytes 4 v @ rest \<longrightarrow>
      (\<exists>b'. read_int32 b = Inr (v, b') \<and> buffer_ok b' \<and> contents b' = rest)) \<and>
    (\<forall>v rest. contents b = be_bytes 2 v @ rest \<longrightarrow>
      (\<exists>b'. read_int16 b = Inr (v, b') \<and> buffer_ok b' \<and> contents b' = rest)) \<and>
    (\<forall>v rest. contents b = be_bytes 1 v @ rest \<longrightarrow>
      (\<exists>b'. read_int8 b = Inr (v, b') \<and> buffer_ok b' \<and> contents b' = rest))"
  using assms
  by (simp add: read_int64_def read_int32_def read_int16_def read_int8_def peek_int_defs
      read_word_back retrieve_ok contents_retrieve)

text \<open>
  Length arguments. \<open>read_str\<close> and \<open>read_pb_msg\<close> take an \<open>int32_t\<close> length that is compared as
  \<open>size_t\<close>. On a well formed buffer they never read outside the readable bytes: a negative length or
  one larger than the number of readable bytes aborts the process, any other length (below
  \<open>INT_MAX\<close>) returns that many leading bytes, NUL terminated in the case of \<open>read_str\<close>, and
  consumes them.
\<close>

lemma read_length_checked:
  assumes "buffer_ok b" and "unat n \<noteq> 2147483647"
  shows "read_str b n =
      (if sint n < 0 \<or> int (length (contents b)) < sint n then Inl Abort
       else Inr (take (nat (sint n)) (contents b) @ [0], retrieve b (size_of_int32 n))) \<and>
    read_pb_msg unpack b d n =
      (if sint n < 0 \<or> int (length (contents b)) < sint n then Inl Abort
       else Inr (unpack d (take (nat (sint n)) (contents b)), retrieve b (size_of_int32 n)))"
proof (cases "unat n < 2147483648")
  case True
  obtain k where k: "unat n = k" "uint n = int k" by (rule uint_unatE)
  have "sint n = int k" using True k by (simp add: sint32_nonneg)
  then show ?thesis
    using True assms k
    by (simp add: read_str_def read_pb_msg_def peek_str_eq peek_pb_msg_eq del: length_contents)
next
  case False
  then have "sint n < 0"
    using unat_lt32 [of n] by (simp add: sint32_neg uint_unat del: of_nat_unat)
  then show ?thesis
    using False assms by (simp add: read_str_def read_pb_msg_def neg_length_aborts)
qed

end
