(* ===== verification/Gp_Hash.thy ===== *)
theory Gp_Hash
  imports Prelude
begin

text \<open>
  \<open>base/gp_hash.c\<close>: SipHash with one compression and two finalisation rounds, on 64 bit words, and
  its case insensitive variant. The input is a byte list whose length is \<open>inlen\<close>; the key is a list
  of 16 bytes.
\<close>

section \<open>Definitions\<close>

text \<open>\<open>siptlw\<close> works on \<open>int\<close>; it is only called on byte values, for which the result is a byte.\<close>

definition siptlw :: "u8 \<Rightarrow> u8" where
  "siptlw c = (if 65 \<le> c \<and> c \<le> 90 then c + (97 - 65) else c)"

definition ROTL :: "u64 \<Rightarrow> nat \<Rightarrow> u64" where
  "ROTL x b = push_bit b x OR drop_bit (64 - b) x"

type_synonym sip_state = "u64 \<times> u64 \<times> u64 \<times> u64"

definition SIPROUND :: "sip_state \<Rightarrow> sip_state" where
  "SIPROUND v =
     (let (v0, v1, v2, v3) = v;
          v0 = v0 + v1;
          v1 = ROTL v1 13;
          v1 = v1 XOR v0;
          v0 = ROTL v0 32;
          v2 = v2 + v3;
          v3 = ROTL v3 16;
          v3 = v3 XOR v2;
          v0 = v0 + v3;
          v3 = ROTL v3 21;
          v3 = v3 XOR v0;
          v2 = v2 + v1;
          v1 = ROTL v1 17;
          v1 = v1 XOR v2;
          v2 = ROTL v2 32
      in (v0, v1, v2, v3))"

definition U8TO64_LE :: "bytes \<Rightarrow> u64" where
  "U8TO64_LE p = le_word (take 8 p)"

definition U8TO64_LE_NOCASE :: "bytes \<Rightarrow> u64" where
  "U8TO64_LE_NOCASE p = le_word (map siptlw (take 8 p))"

text \<open>The loop \<open>for (; in != end; in += 8)\<close>: absorbs whole blocks and returns the rest of the input.\<close>

fun sip_blocks :: "(bytes \<Rightarrow> u64) \<Rightarrow> nat \<Rightarrow> sip_state \<Rightarrow> bytes \<Rightarrow> sip_state \<times> bytes" where
  "sip_blocks load 0 v inp = (v, inp)"
| "sip_blocks load (Suc n) (v0, v1, v2, v3) inp =
     (let m = load inp;
          (v0, v1, v2, v3) = SIPROUND (v0, v1, v2, v3 XOR m)
      in sip_blocks load n (v0 XOR m, v1, v2, v3) (drop 8 inp))"

text \<open>The \<open>switch (left)\<close> whose cases fall through: case \<open>i + 1\<close> ors byte \<open>i\<close> in and continues with case \<open>i\<close>.\<close>

fun sip_tail :: "(u8 \<Rightarrow> u8) \<Rightarrow> nat \<Rightarrow> bytes \<Rightarrow> u64 \<Rightarrow> u64" where
  "sip_tail low 0 inp b = b"
| "sip_tail low (Suc i) inp b = sip_tail low i inp (b OR push_bit (8 * i) (ucast (low (inp ! i))))"

definition sip_final :: "sip_state \<Rightarrow> u64 \<Rightarrow> u64" where
  "sip_final v b =
     (let (v0, v1, v2, v3) = v;
          (v0, v1, v2, v3) = SIPROUND (v0, v1, v2, v3 XOR b);
          (v0, v1, v2, v3) = SIPROUND (SIPROUND (v0 XOR b, v1, v2 XOR 0xff, v3))
      in v0 XOR v1 XOR v2 XOR v3)"

definition siphash :: "bytes \<Rightarrow> bytes \<Rightarrow> u64" where
  "siphash inp k =
     (let k0 = U8TO64_LE k;
          k1 = U8TO64_LE (drop 8 k);
          inlen = length inp;
          b = push_bit 56 (of_nat inlen);
          v = (0x736f6d6570736575 XOR k0, 0x646f72616e646f6d XOR k1,
               0x6c7967656e657261 XOR k0, 0x7465646279746573 XOR k1);
          (v, rest) = sip_blocks U8TO64_LE (inlen div 8) v inp
      in sip_final v (sip_tail (\<lambda>c. c) (inlen mod 8) rest b))"

definition siphash_nocase :: "bytes \<Rightarrow> bytes \<Rightarrow> u64" where
  "siphash_nocase inp k =
     (let k0 = U8TO64_LE k;
          k1 = U8TO64_LE (drop 8 k);
          inlen = length inp;
          b = push_bit 56 (of_nat inlen);
          v = (0x736f6d6570736575 XOR k0, 0x646f72616e646f6d XOR k1,
               0x6c7967656e657261 XOR k0, 0x7465646279746573 XOR k1);
          (v, rest) = sip_blocks U8TO64_LE_NOCASE (inlen div 8) v inp
      in sip_final v (sip_tail siptlw (inlen mod 8) rest b))"

section \<open>Case insensitivity\<close>

lemma U8TO64_LE_NOCASE_eq: "U8TO64_LE_NOCASE p = U8TO64_LE (map siptlw p)"
  by (simp add: U8TO64_LE_def U8TO64_LE_NOCASE_def take_map)

lemma sip_blocks_map:
  assumes "\<And>p. load' p = load (map f p)"
  shows "sip_blocks load' n v inp = (fst (sip_blocks load n v (map f inp)), drop (8 * n) inp)"
proof (induction n arbitrary: v inp)
  case (Suc n)
  obtain v0 v1 v2 v3 where "v = (v0, v1, v2, v3)" by (cases v)
  moreover have "load' inp = load (map f inp)" by (rule assms)
  ultimately show ?case
    by (simp add: Suc.IH drop_map add.commute Let_def case_prod_beta)
qed simp

lemmas sip_blocks_nocase = sip_blocks_map
  [where load' = U8TO64_LE_NOCASE and load = U8TO64_LE and f = siptlw, OF U8TO64_LE_NOCASE_eq]

lemma sip_blocks_rest: "sip_blocks load n v inp = (fst (sip_blocks load n v inp), drop (8 * n) inp)"
  using sip_blocks_map [of load load id n v inp] by simp

lemma sip_tail_nocase:
  "n \<le> length inp \<Longrightarrow> sip_tail siptlw n inp b = sip_tail (\<lambda>c. c) n (map siptlw inp) b"
  by (induction n arbitrary: b) simp_all

text \<open>
  C35. The case insensitive hash is the plain hash of the lower-cased input, so two inputs that differ
  only in the case of ASCII letters have the same hash.
\<close>

theorem siphash_nocase_lower: "siphash_nocase inp k = siphash (map siptlw inp) k"
proof -
  let ?v = "(0x736f6d6570736575 XOR U8TO64_LE k, 0x646f72616e646f6d XOR U8TO64_LE (drop 8 k),
             0x6c7967656e657261 XOR U8TO64_LE k, 0x7465646279746573 XOR U8TO64_LE (drop 8 k))"
  let ?n = "length inp div 8"
  have "length inp mod 8 \<le> length (drop (8 * ?n) inp)"
    by (simp add: minus_mult_div_eq_mod)
  then have "sip_tail siptlw (length inp mod 8) (drop (8 * ?n) inp) b =
      sip_tail (\<lambda>c. c) (length inp mod 8) (drop (8 * ?n) (map siptlw inp)) b" for b
    by (simp add: sip_tail_nocase drop_map)
  then show ?thesis
    unfolding siphash_nocase_def siphash_def Let_def sip_blocks_nocase
    by (subst (2) sip_blocks_rest) (simp add: case_prod_beta)
qed

end
