(* ===== verification/Gp_Dict.thy ===== *)
theory Gp_Dict
  imports Gp_Hash
begin

text \<open>
  The hash table of \<open>base/gp_dict.c\<close>: chained buckets, two tables during incremental rehashing.
  Keys and values are what the pointers refer to; a \<open>dictEntry *\<close> is a reference (table, bucket,
  position in the chain), NULL being \<open>None\<close>. Sizes and counters are \<open>unsigned long\<close> (64 bits),
  \<open>rehashidx\<close> is a \<open>long\<close>. Every access to a bucket array is checked (\<open>NullDeref\<close> when there is no
  array, \<open>OutOfBounds\<close> beyond its end), the \<open>assert\<close> is a failure branch, allocation succeeds, and
  releasing memory has no effect on the model's values. This theory holds the operations; the
  invariant and the correctness proofs are in \<open>Gp_Dict_Correct\<close>.
\<close>

section \<open>Data\<close>

record ('k, 'v) dictType =
  hashFunction :: "'k \<Rightarrow> u64"
  keyDup :: "('k \<Rightarrow> 'k) option"
  valDup :: "('v \<Rightarrow> 'v) option"
  keyCompare :: "('k \<Rightarrow> 'k \<Rightarrow> bool) option"

text \<open>An entry's value is \<open>None\<close> between its insertion and the first assignment of a value.\<close>

record ('k, 'v) dictEntry =
  de_key :: 'k
  de_val :: "'v option"

record ('k, 'v) dictht =
  ht_table :: "('k, 'v) dictEntry list list option"
  ht_size :: u64
  ht_sizemask :: u64
  ht_used :: u64

record ('k, 'v) dict =
  d_type :: "('k, 'v) dictType"
  ht0 :: "('k, 'v) dictht"
  ht1 :: "('k, 'v) dictht"
  rehashidx :: int
  iterators :: u64

type_synonym entry_ref = "nat \<times> nat \<times> nat"

datatype dict_status = DICT_OK | DICT_ERR

definition DICT_HT_INITIAL_SIZE :: u64 where
  "DICT_HT_INITIAL_SIZE = 4"

definition dict_force_resize_ratio :: u64 where
  "dict_force_resize_ratio = 5"

definition ht_sel :: "('k, 'v) dict \<Rightarrow> nat \<Rightarrow> ('k, 'v) dictht" where
  "ht_sel d t = (if t = 0 then ht0 d else ht1 d)"

definition ht_upd :: "nat \<Rightarrow> (('k, 'v) dictht \<Rightarrow> ('k, 'v) dictht) \<Rightarrow> ('k, 'v) dict \<Rightarrow> ('k, 'v) dict" where
  "ht_upd t f d = (if t = 0 then d\<lparr>ht0 := f (ht0 d)\<rparr> else d\<lparr>ht1 := f (ht1 d)\<rparr>)"

definition dictHashKey :: "('k, 'v) dict \<Rightarrow> 'k \<Rightarrow> u64" where
  "dictHashKey d key = hashFunction (d_type d) key"

definition dictCompareKeys :: "('k, 'v) dict \<Rightarrow> 'k \<Rightarrow> 'k \<Rightarrow> bool" where
  "dictCompareKeys d key1 key2 =
     (case keyCompare (d_type d) of Some cmp \<Rightarrow> cmp key1 key2 | None \<Rightarrow> key1 = key2)"

definition dictSetKey :: "('k, 'v) dict \<Rightarrow> 'k \<Rightarrow> 'k" where
  "dictSetKey d key = (case keyDup (d_type d) of Some dup \<Rightarrow> dup key | None \<Rightarrow> key)"

definition dictSetVal :: "('k, 'v) dict \<Rightarrow> 'v \<Rightarrow> 'v" where
  "dictSetVal d v = (case valDup (d_type d) of Some dup \<Rightarrow> dup v | None \<Rightarrow> v)"

definition dictIsRehashing :: "('k, 'v) dict \<Rightarrow> bool" where
  "dictIsRehashing d \<longleftrightarrow> rehashidx d \<noteq> - 1"

definition dictSize :: "('k, 'v) dict \<Rightarrow> u64" where
  "dictSize d = ht_used (ht0 d) + ht_used (ht1 d)"

definition dictSlots :: "('k, 'v) dict \<Rightarrow> u64" where
  "dictSlots d = ht_size (ht0 d) + ht_size (ht1 d)"

section \<open>Bucket arrays\<close>

text \<open>\<open>ht->table[i]\<close> as an expression and as the target of an assignment.\<close>

definition bucket :: "('k, 'v) dictht \<Rightarrow> nat \<Rightarrow> ('k, 'v) dictEntry list res" where
  "bucket ht i =
     (case ht_table ht of
        None \<Rightarrow> Inl NullDeref
      | Some t \<Rightarrow> if i < length t then Inr (t ! i) else Inl OutOfBounds)"

definition set_bucket :: "nat \<Rightarrow> ('k, 'v) dictEntry list \<Rightarrow> ('k, 'v) dictht \<Rightarrow> ('k, 'v) dictht" where
  "set_bucket i es ht = ht\<lparr>ht_table := map_option (\<lambda>t. t[i := es]) (ht_table ht)\<rparr>"

text \<open>
  The search along a chain. The code also accepts a key at the same address as the stored key;
  such keys are equal, and the comparison functions are reflexive.
\<close>

fun chain_find :: "('k, 'v) dict \<Rightarrow> 'k \<Rightarrow> ('k, 'v) dictEntry list \<Rightarrow> nat option" where
  "chain_find d key [] = None"
| "chain_find d key (he # rest) =
     (if dictCompareKeys d key (de_key he) then Some 0 else map_option Suc (chain_find d key rest))"

definition entry_at :: "('k, 'v) dict \<Rightarrow> entry_ref \<Rightarrow> ('k, 'v) dictEntry option" where
  "entry_at d r =
     (case r of (t, i, j) \<Rightarrow>
       (case bucket (ht_sel d t) i of
          Inl _ \<Rightarrow> None
        | Inr es \<Rightarrow> if j < length es then Some (es ! j) else None))"

text \<open>\<open>dictSetVal (d, entry, val)\<close> through an entry pointer.\<close>

definition set_entry_val :: "entry_ref \<Rightarrow> 'v \<Rightarrow> ('k, 'v) dict \<Rightarrow> ('k, 'v) dict" where
  "set_entry_val r v d =
     (case r of (t, i, j) \<Rightarrow>
       (case bucket (ht_sel d t) i of
          Inl _ \<Rightarrow> d
        | Inr es \<Rightarrow> ht_upd t (set_bucket i (es[j := (es ! j)\<lparr>de_val := Some (dictSetVal d v)\<rparr>])) d))"

section \<open>Creation and resizing\<close>

definition dictReset :: "('k, 'v) dictht" where
  "dictReset = \<lparr>ht_table = None, ht_size = 0, ht_sizemask = 0, ht_used = 0\<rparr>"

definition dictInit :: "('k, 'v) dictType \<Rightarrow> ('k, 'v) dict" where
  "dictInit ty = \<lparr>d_type = ty, ht0 = dictReset, ht1 = dictReset, rehashidx = - 1, iterators = 0\<rparr>"

text \<open>
  The doubling loop of \<open>_dictNextPower\<close>, with at most \<open>n\<close> doublings. For sizes below \<open>LONG_MAX\<close>
  sixty-one are enough, so the bound is never what stops it (\<open>dictNextPower_ge\<close>).
\<close>

fun next_power_loop :: "nat \<Rightarrow> u64 \<Rightarrow> u64 \<Rightarrow> u64" where
  "next_power_loop 0 i sz = i"
| "next_power_loop (Suc n) i sz = (if sz \<le> i then i else next_power_loop n (i * 2) sz)"

definition LONG_MAX :: u64 where
  "LONG_MAX = 9223372036854775807"

definition dictNextPower :: "u64 \<Rightarrow> u64" where
  "dictNextPower sz =
     (if LONG_MAX \<le> sz then LONG_MAX + 1 else next_power_loop 61 DICT_HT_INITIAL_SIZE sz)"

definition dictExpand :: "('k, 'v) dict \<Rightarrow> u64 \<Rightarrow> dict_status \<times> ('k, 'v) dict" where
  "dictExpand d sz =
     (if dictIsRehashing d \<or> sz < ht_used (ht0 d) then (DICT_ERR, d)
      else
        let realsize = dictNextPower sz in
        if realsize = ht_size (ht0 d) then (DICT_ERR, d)
        else
          let n = \<lparr>ht_table = Some (replicate (unat realsize) []), ht_size = realsize,
                   ht_sizemask = realsize - 1, ht_used = 0\<rparr> in
          if ht_table (ht0 d) = None then (DICT_OK, d\<lparr>ht0 := n\<rparr>)
          else (DICT_OK, d\<lparr>ht1 := n, rehashidx := 0\<rparr>))"

text \<open>\<open>minimal\<close> is an \<open>int\<close>: the count is truncated to 32 bits and sign extended again.\<close>

definition dictResize :: "bool \<Rightarrow> ('k, 'v) dict \<Rightarrow> dict_status \<times> ('k, 'v) dict" where
  "dictResize dict_can_resize d =
     (if \<not> dict_can_resize \<or> dictIsRehashing d then (DICT_ERR, d)
      else
        let minimal = (ucast (ht_used (ht0 d)) :: u32);
            minimal = (if sint minimal < 4 then 4 else minimal)
        in dictExpand d (size_of_int32 minimal))"

section \<open>Incremental rehashing\<close>

text \<open>Skipping empty buckets: stops at a non-empty one, or when the visit budget is used up.\<close>

datatype skip_result = SkipFound nat int | SkipBudget nat

function rehash_skip :: "'e list list \<Rightarrow> nat \<Rightarrow> int \<Rightarrow> skip_result res" where
  "rehash_skip t i empty_visits =
     (if i < length t then
        if t ! i = [] then
          if empty_visits - 1 = 0 then Inr (SkipBudget (i + 1))
          else rehash_skip t (i + 1) (empty_visits - 1)
        else Inr (SkipFound i empty_visits)
      else Inl OutOfBounds)"
  by pat_completeness auto
termination
  by (relation "measure (\<lambda>(t, i, ev). length t - i)") auto

declare rehash_skip.simps [simp del]

text \<open>Moving the entries of one chain to the front of their chains in the new table.\<close>

fun move_chain :: "('k, 'v) dictEntry list \<Rightarrow> ('k, 'v) dict \<Rightarrow> ('k, 'v) dict res" where
  "move_chain [] d = Inr d"
| "move_chain (de # nextde) d =
     (let h = unat (dictHashKey d (de_key de) AND ht_sizemask (ht1 d)) in
      bindE (bucket (ht1 d) h) (\<lambda>chain.
        move_chain nextde
          (d\<lparr>ht0 := (ht0 d)\<lparr>ht_used := ht_used (ht0 d) - 1\<rparr>,
             ht1 := (set_bucket h (de # chain) (ht1 d))\<lparr>ht_used := ht_used (ht1 d) + 1\<rparr>\<rparr>)))"

definition rehash_finish :: "('k, 'v) dict \<Rightarrow> bool \<times> ('k, 'v) dict" where
  "rehash_finish d =
     (if ht_used (ht0 d) = 0
      then (False, d\<lparr>ht0 := ht1 d, ht1 := dictReset, rehashidx := - 1\<rparr>)
      else (True, d))"

fun rehash_loop :: "nat \<Rightarrow> int \<Rightarrow> ('k, 'v) dict \<Rightarrow> (bool \<times> ('k, 'v) dict) res" where
  "rehash_loop 0 empty_visits d = Inr (rehash_finish d)"
| "rehash_loop (Suc n) empty_visits d =
     (if ht_used (ht0 d) = 0 then Inr (rehash_finish d)
      else if \<not> word_of_int (rehashidx d) < ht_size (ht0 d) then Inl AssertFailed
      else
        case ht_table (ht0 d) of
          None \<Rightarrow> Inl NullDeref
        | Some t \<Rightarrow>
            bindE (rehash_skip t (nat (rehashidx d)) empty_visits) (\<lambda>r.
            case r of
              SkipBudget i \<Rightarrow> Inr (True, d\<lparr>rehashidx := int i\<rparr>)
            | SkipFound i ev \<Rightarrow>
                bindE (move_chain (t ! i) d) (\<lambda>d1.
                  rehash_loop n ev
                    (d1\<lparr>ht0 := set_bucket i [] (ht0 d1), rehashidx := int i + 1\<rparr>))))"

text \<open>Returns whether there is more to move. \<open>n\<close> is the number of steps (1 or 100 in the sources).\<close>

definition dictRehash :: "('k, 'v) dict \<Rightarrow> nat \<Rightarrow> (bool \<times> ('k, 'v) dict) res" where
  "dictRehash d n =
     (if \<not> dictIsRehashing d then Inr (False, d) else rehash_loop n (int n * 10) d)"

text \<open>
  Rehashing in steps of 100 buckets until nothing is left or more than \<open>ms\<close> milliseconds have
  passed; \<open>clock j\<close> is the \<open>j\<close>th reading of \<open>timeInMilliseconds\<close>, the count of steps is an \<open>int\<close>.
  The loop is bounded by fuel (\<open>None\<close>: not finished); one unit per bucket is enough.
\<close>

fun rehash_ms_loop ::
  "nat \<Rightarrow> (nat \<Rightarrow> int) \<Rightarrow> int \<Rightarrow> nat \<Rightarrow> int \<Rightarrow> ('k, 'v) dict \<Rightarrow> (int \<times> ('k, 'v) dict) res option" where
  "rehash_ms_loop 0 clock ms j rehashes d = None"
| "rehash_ms_loop (Suc fuel) clock ms j rehashes d =
     (case dictRehash d 100 of
        Inl e \<Rightarrow> Some (Inl e)
      | Inr (b, d') \<Rightarrow>
          if \<not> b then Some (Inr (rehashes, d'))
          else if 2147483647 < rehashes + 100 then Some (Inl SignedOverflow)
          else if clock (Suc j) - clock 0 > ms then Some (Inr (rehashes + 100, d'))
          else rehash_ms_loop fuel clock ms (Suc j) (rehashes + 100) d')"

definition dictRehashMilliseconds ::
  "nat \<Rightarrow> (nat \<Rightarrow> int) \<Rightarrow> ('k, 'v) dict \<Rightarrow> int \<Rightarrow> (int \<times> ('k, 'v) dict) res option" where
  "dictRehashMilliseconds fuel clock d ms = rehash_ms_loop fuel clock ms 0 0 d"

definition dictRehashStep :: "('k, 'v) dict \<Rightarrow> ('k, 'v) dict res" where
  "dictRehashStep d =
     (if iterators d = 0 then bindE (dictRehash d 1) (\<lambda>(more, d'). Inr d') else Inr d)"

definition rehash_if_needed :: "('k, 'v) dict \<Rightarrow> ('k, 'v) dict res" where
  "rehash_if_needed d = (if dictIsRehashing d then dictRehashStep d else Inr d)"

section \<open>Insertion\<close>

definition dictExpandIfNeeded :: "bool \<Rightarrow> ('k, 'v) dict \<Rightarrow> dict_status \<times> ('k, 'v) dict" where
  "dictExpandIfNeeded dict_can_resize d =
     (if dictIsRehashing d then (DICT_OK, d)
      else if ht_size (ht0 d) = 0 then dictExpand d DICT_HT_INITIAL_SIZE
      else if ht_size (ht0 d) \<le> ht_used (ht0 d) \<and>
              (dict_can_resize \<or> dict_force_resize_ratio < ht_used (ht0 d) div ht_size (ht0 d))
      then dictExpand d (ht_used (ht0 d) * 2)
      else (DICT_OK, d))"

text \<open>
  \<open>_dictKeyIndex\<close>: the bucket for a new entry, or the existing entry, or neither when the table
  could not be expanded (the C function then returns \<open>-1\<close> with \<open>*existing\<close> NULL).
\<close>

datatype key_index = NewIndex nat | Existing entry_ref | NoIndex

definition dictKeyIndex :: "bool \<Rightarrow> ('k, 'v) dict \<Rightarrow> 'k \<Rightarrow> u64 \<Rightarrow> (key_index \<times> ('k, 'v) dict) res" where
  "dictKeyIndex dict_can_resize d key hash =
     (case dictExpandIfNeeded dict_can_resize d of
        (DICT_ERR, d1) \<Rightarrow> Inr (NoIndex, d1)
      | (DICT_OK, d1) \<Rightarrow>
          (let idx0 = unat (hash AND ht_sizemask (ht0 d1)) in
           bindE (bucket (ht0 d1) idx0) (\<lambda>c0.
           case chain_find d1 key c0 of
             Some j \<Rightarrow> Inr (Existing (0, idx0, j), d1)
           | None \<Rightarrow>
               if \<not> dictIsRehashing d1 then Inr (NewIndex idx0, d1)
               else
                 (let idx1 = unat (hash AND ht_sizemask (ht1 d1)) in
                  bindE (bucket (ht1 d1) idx1) (\<lambda>c1.
                  case chain_find d1 key c1 of
                    Some j \<Rightarrow> Inr (Existing (1, idx1, j), d1)
                  | None \<Rightarrow> Inr (NewIndex idx1, d1))))))"

text \<open>
  \<open>dictAddRaw\<close> returns the new entry, the entry that was already there, and the table.
\<close>

definition dictAddRaw ::
  "bool \<Rightarrow> ('k, 'v) dict \<Rightarrow> 'k \<Rightarrow> (entry_ref option \<times> entry_ref option \<times> ('k, 'v) dict) res" where
  "dictAddRaw dict_can_resize d key =
     bindE (rehash_if_needed d) (\<lambda>d1.
     bindE (dictKeyIndex dict_can_resize d1 key (dictHashKey d1 key)) (\<lambda>(ki, d2).
     case ki of
       NoIndex \<Rightarrow> Inr (None, None, d2)
     | Existing r \<Rightarrow> Inr (None, Some r, d2)
     | NewIndex idx \<Rightarrow>
         (let t = (if dictIsRehashing d2 then 1 else 0) in
          bindE (bucket (ht_sel d2 t) idx) (\<lambda>chain.
            Inr (Some (t, idx, 0), None,
                 ht_upd t (\<lambda>ht. (set_bucket idx (\<lparr>de_key = dictSetKey d2 key, de_val = None\<rparr> # chain) ht)
                                 \<lparr>ht_used := ht_used ht + 1\<rparr>) d2)))))"

definition dictAdd :: "bool \<Rightarrow> ('k, 'v) dict \<Rightarrow> 'k \<Rightarrow> 'v \<Rightarrow> (dict_status \<times> ('k, 'v) dict) res" where
  "dictAdd dict_can_resize d key val =
     bindE (dictAddRaw dict_can_resize d key) (\<lambda>(entry, existing, d1).
     case entry of
       None \<Rightarrow> Inr (DICT_ERR, d1)
     | Some r \<Rightarrow> Inr (DICT_OK, set_entry_val r val d1))"

text \<open>True when the key was added, False when an existing value was replaced.\<close>

definition dictReplace :: "bool \<Rightarrow> ('k, 'v) dict \<Rightarrow> 'k \<Rightarrow> 'v \<Rightarrow> (bool \<times> ('k, 'v) dict) res" where
  "dictReplace dict_can_resize d key val =
     bindE (dictAddRaw dict_can_resize d key) (\<lambda>(entry, existing, d1).
     case entry of
       Some r \<Rightarrow> Inr (True, set_entry_val r val d1)
     | None \<Rightarrow>
         (case existing of
            None \<Rightarrow> Inl NullDeref
          | Some r \<Rightarrow> Inr (False, set_entry_val r val d1)))"

definition dictAddOrFind :: "bool \<Rightarrow> ('k, 'v) dict \<Rightarrow> 'k \<Rightarrow> (entry_ref option \<times> ('k, 'v) dict) res" where
  "dictAddOrFind dict_can_resize d key =
     bindE (dictAddRaw dict_can_resize d key) (\<lambda>(entry, existing, d1).
       Inr (case entry of Some r \<Rightarrow> Some r | None \<Rightarrow> existing, d1))"

section \<open>Removal and lookup\<close>

text \<open>
  The two-table search shared by removal and lookup: the loop \<open>for (table = 0; table <= 1; table++)\<close>
  over \<open>table[h & sizemask]\<close>, which stops after the first table unless a rehashing is in progress.
\<close>

definition search_tables :: "('k, 'v) dict \<Rightarrow> 'k \<Rightarrow> u64 \<Rightarrow> entry_ref option res" where
  "search_tables d key h =
     (let idx0 = unat (h AND ht_sizemask (ht0 d)) in
      bindE (bucket (ht0 d) idx0) (\<lambda>c0.
      case chain_find d key c0 of
        Some j \<Rightarrow> Inr (Some (0, idx0, j))
      | None \<Rightarrow>
          if \<not> dictIsRehashing d then Inr None
          else
            (let idx1 = unat (h AND ht_sizemask (ht1 d)) in
             bindE (bucket (ht1 d) idx1) (\<lambda>c1.
               Inr (map_option (\<lambda>j. (1, idx1, j)) (chain_find d key c1))))))"

definition unlink_entry :: "entry_ref \<Rightarrow> ('k, 'v) dict \<Rightarrow> ('k, 'v) dict" where
  "unlink_entry r d =
     (case r of (t, i, j) \<Rightarrow>
       (case bucket (ht_sel d t) i of
          Inl _ \<Rightarrow> d
        | Inr es \<Rightarrow>
            ht_upd t (\<lambda>ht. (set_bucket i (take j es @ drop (Suc j) es) ht)\<lparr>ht_used := ht_used ht - 1\<rparr>) d))"

text \<open>The removed entry is returned by value: the table no longer refers to it.\<close>

definition dictGenericDelete ::
  "('k, 'v) dict \<Rightarrow> 'k \<Rightarrow> (('k, 'v) dictEntry option \<times> ('k, 'v) dict) res" where
  "dictGenericDelete d key =
     (if ht_used (ht0 d) = 0 \<and> ht_used (ht1 d) = 0 then Inr (None, d)
      else
        bindE (rehash_if_needed d) (\<lambda>d1.
        bindE (search_tables d1 key (dictHashKey d1 key)) (\<lambda>r.
        case r of
          None \<Rightarrow> Inr (None, d1)
        | Some he \<Rightarrow> Inr (entry_at d1 he, unlink_entry he d1))))"

definition dictDelete :: "('k, 'v) dict \<Rightarrow> 'k \<Rightarrow> (dict_status \<times> ('k, 'v) dict) res" where
  "dictDelete d key =
     bindE (dictGenericDelete d key) (\<lambda>(he, d1).
       Inr (if he = None then DICT_ERR else DICT_OK, d1))"

definition dictUnlink :: "('k, 'v) dict \<Rightarrow> 'k \<Rightarrow> (('k, 'v) dictEntry option \<times> ('k, 'v) dict) res" where
  "dictUnlink d key = dictGenericDelete d key"

definition dictFind :: "('k, 'v) dict \<Rightarrow> 'k \<Rightarrow> (entry_ref option \<times> ('k, 'v) dict) res" where
  "dictFind d key =
     (if ht_used (ht0 d) + ht_used (ht1 d) = 0 then Inr (None, d)
      else
        bindE (rehash_if_needed d) (\<lambda>d1.
        bindE (search_tables d1 key (dictHashKey d1 key)) (\<lambda>r. Inr (r, d1))))"

definition dictFetchValue :: "('k, 'v) dict \<Rightarrow> 'k \<Rightarrow> ('v option \<times> ('k, 'v) dict) res" where
  "dictFetchValue d key =
     bindE (dictFind d key) (\<lambda>(he, d1).
       Inr (case he of None \<Rightarrow> None | Some r \<Rightarrow> Option.bind (entry_at d1 r) de_val, d1))"

section \<open>Clearing\<close>

text \<open>
  \<open>_dictClear\<close> frees every chain while counting \<open>used\<close> down and then resets the table; the result
  is also the number of entries freed.
\<close>

fun clear_chains :: "'e list list \<Rightarrow> u64 \<Rightarrow> nat" where
  "clear_chains [] used = 0"
| "clear_chains (c # cs) used =
     (if 0 < used then length c + clear_chains cs (used - of_nat (length c)) else 0)"

definition dictClear :: "('k, 'v) dictht \<Rightarrow> nat \<times> ('k, 'v) dictht" where
  "dictClear ht = (clear_chains (case ht_table ht of None \<Rightarrow> [] | Some t \<Rightarrow> t) (ht_used ht), dictReset)"

definition dictEmpty :: "('k, 'v) dict \<Rightarrow> ('k, 'v) dict" where
  "dictEmpty d =
     d\<lparr>ht0 := snd (dictClear (ht0 d)), ht1 := snd (dictClear (ht1 d)), rehashidx := - 1, iterators := 0\<rparr>"

text \<open>The number of entries a \<open>dictRelease\<close> frees before it frees the dictionary itself.\<close>

definition dictRelease :: "('k, 'v) dict \<Rightarrow> nat" where
  "dictRelease d = fst (dictClear (ht0 d)) + fst (dictClear (ht1 d))"

section \<open>Key and value types\<close>

text \<open>
  Keys are the bytes at the key pointer: four for an \<open>int\<close>, a NUL terminated string otherwise. The
  hash seed is the global \<open>dict_hash_function_seed\<close>. Values are pointers of any type; \<open>mem v\<close> is
  what \<open>v\<close> points to and \<open>alloc bs\<close> a pointer to a new block holding \<open>bs\<close>.
\<close>

text \<open>The length is an \<open>int\<close> there; keys are shorter than \<open>2\<^sup>3\<^sup>1\<close> bytes, as \<open>string_key\<close> demands, and it is not truncated here.\<close>

definition dictGenHashFunction :: "bytes \<Rightarrow> bytes \<Rightarrow> u64" where
  "dictGenHashFunction seed key = siphash key seed"

definition dictGenCaseHashFunction :: "bytes \<Rightarrow> bytes \<Rightarrow> u64" where
  "dictGenCaseHashFunction seed buf = siphash_nocase buf seed"

definition hashCallbackString :: "bytes \<Rightarrow> bytes \<Rightarrow> u64" where
  "hashCallbackString seed key = dictGenHashFunction seed (c_str key)"

text \<open>The lengths are \<open>int\<close>s: \<open>strlen\<close> truncated to 32 bits.\<close>

definition compareCallbackString :: "bytes \<Rightarrow> bytes \<Rightarrow> bool" where
  "compareCallbackString key1 key2 =
     (let l1 = (of_nat (length (c_str key1)) :: u32);
          l2 = (of_nat (length (c_str key2)) :: u32)
      in if l1 \<noteq> l2 then False
         else take (unat (size_of_int32 l1)) key1 = take (unat (size_of_int32 l1)) key2)"

definition keyDupString :: "bytes \<Rightarrow> bytes" where
  "keyDupString key = c_str key @ [0]"

definition keyDupInt :: "bytes \<Rightarrow> bytes" where
  "keyDupInt key = take 4 key"

definition valDupString :: "(bytes \<Rightarrow> 'v) \<Rightarrow> ('v \<Rightarrow> bytes) \<Rightarrow> 'v \<Rightarrow> 'v" where
  "valDupString alloc mem v = alloc (c_str (mem v) @ [0])"

definition valDupInt :: "(bytes \<Rightarrow> 'v) \<Rightarrow> ('v \<Rightarrow> bytes) \<Rightarrow> 'v \<Rightarrow> 'v" where
  "valDupInt alloc mem v = alloc (take 4 (mem v))"

definition hashCallbackInt :: "bytes \<Rightarrow> bytes \<Rightarrow> u64" where
  "hashCallbackInt seed key = dictGenHashFunction seed (take 4 key)"

definition compareCallbackInt :: "bytes \<Rightarrow> bytes \<Rightarrow> bool" where
  "compareCallbackInt key1 key2 = (take 4 key1 = take 4 key2)"

definition IntStringDictType :: "bytes \<Rightarrow> (bytes \<Rightarrow> 'v) \<Rightarrow> ('v \<Rightarrow> bytes) \<Rightarrow> (bytes, 'v) dictType" where
  "IntStringDictType seed alloc mem =
     \<lparr>hashFunction = hashCallbackInt seed, keyDup = Some keyDupInt,
      valDup = Some (valDupString alloc mem), keyCompare = Some compareCallbackInt\<rparr>"

definition IntIntDictType :: "bytes \<Rightarrow> (bytes \<Rightarrow> 'v) \<Rightarrow> ('v \<Rightarrow> bytes) \<Rightarrow> (bytes, 'v) dictType" where
  "IntIntDictType seed alloc mem =
     \<lparr>hashFunction = hashCallbackInt seed, keyDup = Some keyDupInt,
      valDup = Some (valDupInt alloc mem), keyCompare = Some compareCallbackInt\<rparr>"

definition StringStringDictType :: "bytes \<Rightarrow> (bytes \<Rightarrow> 'v) \<Rightarrow> ('v \<Rightarrow> bytes) \<Rightarrow> (bytes, 'v) dictType" where
  "StringStringDictType seed alloc mem =
     \<lparr>hashFunction = hashCallbackString seed, keyDup = Some keyDupString,
      valDup = Some (valDupString alloc mem), keyCompare = Some compareCallbackString\<rparr>"

definition StringIntDictType :: "bytes \<Rightarrow> (bytes \<Rightarrow> 'v) \<Rightarrow> ('v \<Rightarrow> bytes) \<Rightarrow> (bytes, 'v) dictType" where
  "StringIntDictType seed alloc mem =
     \<lparr>hashFunction = hashCallbackString seed, keyDup = Some keyDupString,
      valDup = Some (valDupInt alloc mem), keyCompare = Some compareCallbackString\<rparr>"

definition IntDictType :: "bytes \<Rightarrow> (bytes, 'v) dictType" where
  "IntDictType seed =
     \<lparr>hashFunction = hashCallbackInt seed, keyDup = Some keyDupInt, valDup = None,
      keyCompare = Some compareCallbackInt\<rparr>"

definition StringDictType :: "bytes \<Rightarrow> (bytes, 'v) dictType" where
  "StringDictType seed =
     \<lparr>hashFunction = hashCallbackString seed, keyDup = Some keyDupString, valDup = None,
      keyCompare = Some compareCallbackString\<rparr>"

definition INT_DICT :: int where
  "INT_DICT = 1"

definition STRING_DICT :: int where
  "STRING_DICT = 2"

definition dictCreate ::
  "bytes \<Rightarrow> (bytes \<Rightarrow> 'v) \<Rightarrow> ('v \<Rightarrow> bytes) \<Rightarrow> int \<Rightarrow> int \<Rightarrow> (bytes, 'v) dict option" where
  "dictCreate seed alloc mem key_type value_type =
     (if key_type = INT_DICT \<and> value_type = INT_DICT then Some (dictInit (IntIntDictType seed alloc mem))
      else if key_type = INT_DICT \<and> value_type = STRING_DICT
      then Some (dictInit (IntStringDictType seed alloc mem))
      else if key_type = STRING_DICT \<and> value_type = INT_DICT
      then Some (dictInit (StringIntDictType seed alloc mem))
      else if key_type = STRING_DICT \<and> value_type = STRING_DICT
      then Some (dictInit (StringStringDictType seed alloc mem))
      else if key_type = STRING_DICT \<and> value_type = 0 then Some (dictInit (StringDictType seed))
      else if key_type = INT_DICT \<and> value_type = 0 then Some (dictInit (IntDictType seed))
      else None)"

end
