(* ===== verification/Gp_Dict_Iter.thy ===== *)
theory Gp_Dict_Iter
  imports Gp_Dict
begin

text \<open>
  The ways of walking through the hash table of \<open>base/gp_dict.c\<close>: iterators, random entries, samples, and
  the scan with a cursor that works while the table is being resized. The proofs are in
  \<open>Gp_Dict_Iter_Correct\<close>.
\<close>

section \<open>Iterators\<close>

text \<open>
  A pointer to an entry stands for the chain from that entry on, and NULL for the empty chain. The
  addresses of the two bucket arrays, which the fingerprint depends on, are parameters.
\<close>

record ('k, 'v) dictIterator =
  it_index :: int
  it_table :: nat
  it_safe :: bool
  it_entry :: "('k, 'v) dictEntry list"
  it_nextEntry :: "('k, 'v) dictEntry list"
  it_fingerprint :: u64

text \<open>\<open>>>\<close> on a \<open>long long\<close> keeps the sign.\<close>

definition wang_hash :: "u64 \<Rightarrow> u64" where
  "wang_hash h0 =
     (let h1 = NOT h0 + push_bit 21 h0;
          h2 = h1 XOR signed_drop_bit 24 h1;
          h3 = (h2 + push_bit 3 h2) + push_bit 8 h2;
          h4 = h3 XOR signed_drop_bit 14 h3;
          h5 = (h4 + push_bit 2 h4) + push_bit 4 h4;
          h6 = h5 XOR signed_drop_bit 28 h5
      in h6 + push_bit 31 h6)"

definition dictFingerprint :: "(nat \<Rightarrow> u64) \<Rightarrow> ('k, 'v) dict \<Rightarrow> u64" where
  "dictFingerprint addr d =
     fold (\<lambda>x hash. wang_hash (hash + x))
       [addr 0, ht_size (ht0 d), ht_used (ht0 d), addr 1, ht_size (ht1 d), ht_used (ht1 d)] 0"

definition dictGetIterator :: "u64 \<Rightarrow> ('k, 'v) dictIterator" where
  "dictGetIterator uninit =
     \<lparr>it_index = - 1, it_table = 0, it_safe = False, it_entry = [], it_nextEntry = [], it_fingerprint = uninit\<rparr>"

definition dictGetSafeIterator :: "u64 \<Rightarrow> ('k, 'v) dictIterator" where
  "dictGetSafeIterator uninit = (dictGetIterator uninit)\<lparr>it_safe := True\<rparr>"

text \<open>The body of the loop for an iterator that is not on an entry: on to the next bucket, if there is one.\<close>

definition next_bucket ::
  "(nat \<Rightarrow> u64) \<Rightarrow> ('k, 'v) dict \<Rightarrow> ('k, 'v) dictIterator \<Rightarrow> (('k, 'v) dict \<times> ('k, 'v) dictIterator) option res" where
  "next_bucket addr d iter =
     (let (d1, iter1) =
        (if it_index iter = - 1 \<and> it_table iter = 0 then
           if it_safe iter then (d\<lparr>iterators := iterators d + 1\<rparr>, iter)
           else (d, iter\<lparr>it_fingerprint := dictFingerprint addr d\<rparr>)
         else (d, iter));
        iter2 = iter1\<lparr>it_index := it_index iter1 + 1\<rparr>
      in if it_index iter2 \<ge> sint (ht_size (ht_sel d1 (it_table iter2))) then
           if dictIsRehashing d1 \<and> it_table iter2 = 0 then
             bindE (bucket (ht1 d1) 0) (\<lambda>es. Inr (Some (d1, iter2\<lparr>it_table := 1, it_index := 0, it_entry := es\<rparr>)))
           else Inr None
         else bindE (bucket (ht_sel d1 (it_table iter2)) (nat (it_index iter2))) (\<lambda>es.
                Inr (Some (d1, iter2\<lparr>it_entry := es\<rparr>))))"

text \<open>
  \<open>dictNext\<close>. The fuel bounds the turns of its loop (\<open>None\<close>: not finished); at the end of the table the
  counter and the index stay advanced, as the code leaves the loop in the middle.
\<close>

definition end_of_tables ::
  "(nat \<Rightarrow> u64) \<Rightarrow> ('k, 'v) dict \<Rightarrow> ('k, 'v) dictIterator \<Rightarrow> ('k, 'v) dict \<times> ('k, 'v) dictIterator" where
  "end_of_tables addr d iter =
     (if it_index iter = - 1 \<and> it_table iter = 0 then
        if it_safe iter then (d\<lparr>iterators := iterators d + 1\<rparr>, iter\<lparr>it_index := it_index iter + 1\<rparr>)
        else (d, iter\<lparr>it_fingerprint := dictFingerprint addr d, it_index := it_index iter + 1\<rparr>)
      else (d, iter\<lparr>it_index := it_index iter + 1\<rparr>))"

fun dictNext ::
  "nat \<Rightarrow> (nat \<Rightarrow> u64) \<Rightarrow> ('k, 'v) dict \<Rightarrow> ('k, 'v) dictIterator \<Rightarrow>
   (('k, 'v) dictEntry option \<times> ('k, 'v) dict \<times> ('k, 'v) dictIterator) res option" where
  "dictNext 0 addr d iter = None"
| "dictNext (Suc fuel) addr d iter =
     (case (if it_entry iter = [] then next_bucket addr d iter
            else Inr (Some (d, iter\<lparr>it_entry := it_nextEntry iter\<rparr>))) of
        Inl e \<Rightarrow> Some (Inl e)
      | Inr None \<Rightarrow> (case end_of_tables addr d iter of (d1, iter1) \<Rightarrow> Some (Inr (None, d1, iter1)))
      | Inr (Some (d1, iter1)) \<Rightarrow>
          (case it_entry iter1 of
             [] \<Rightarrow> dictNext fuel addr d1 iter1
           | e # es \<Rightarrow> Some (Inr (Some e, d1, iter1\<lparr>it_nextEntry := es\<rparr>))))"

definition dictReleaseIterator ::
  "(nat \<Rightarrow> u64) \<Rightarrow> ('k, 'v) dict \<Rightarrow> ('k, 'v) dictIterator \<Rightarrow> ('k, 'v) dict res" where
  "dictReleaseIterator addr d iter =
     (if \<not> (it_index iter = - 1 \<and> it_table iter = 0) then
        if it_safe iter then Inr (d\<lparr>iterators := iterators d - 1\<rparr>)
        else if it_fingerprint iter = dictFingerprint addr d then Inr d else Inl AssertFailed
      else Inr d)"

section \<open>Random entries\<close>

text \<open>\<open>random j\<close> is the value of the \<open>j\<close>th call of \<open>random\<close>. The search for a non-empty bucket may go on for ever.\<close>

fun random_bucket ::
  "nat \<Rightarrow> (nat \<Rightarrow> u64) \<Rightarrow> nat \<Rightarrow> ('k, 'v) dict \<Rightarrow> (nat \<times> ('k, 'v) dictEntry list) res option" where
  "random_bucket 0 random j d = None"
| "random_bucket (Suc fuel) random j d =
     (case (if dictIsRehashing d then
              let h = word_of_int (rehashidx d) +
                        random j mod (ht_size (ht0 d) + ht_size (ht1 d) - word_of_int (rehashidx d)) in
              if h \<ge> ht_size (ht0 d) then bucket (ht1 d) (unat (h - ht_size (ht0 d)))
              else bucket (ht0 d) (unat h)
            else bucket (ht0 d) (unat (random j AND ht_sizemask (ht0 d)))) of
        Inl e \<Rightarrow> Some (Inl e)
      | Inr [] \<Rightarrow> random_bucket fuel random (Suc j) d
      | Inr (e # es) \<Rightarrow> Some (Inr (Suc j, e # es)))"

definition dictGetRandomKey ::
  "nat \<Rightarrow> (nat \<Rightarrow> u64) \<Rightarrow> ('k, 'v) dict \<Rightarrow> (('k, 'v) dictEntry option \<times> ('k, 'v) dict) res option" where
  "dictGetRandomKey fuel random d =
     (if dictSize d = 0 then Some (Inr (None, d))
      else case rehash_if_needed d of
        Inl e \<Rightarrow> Some (Inl e)
      | Inr d1 \<Rightarrow>
          (case random_bucket fuel random 0 d1 of
             None \<Rightarrow> None
           | Some (Inl e) \<Rightarrow> Some (Inl e)
           | Some (Inr (j, he)) \<Rightarrow> Some (Inr (Some (he ! (unat (random j) mod length he)), d1))))"

text \<open>
  \<open>dictGetSomeKeys\<close>: the rehashing done first, then the walk from a random bucket. \<open>some_state\<close> holds the
  variables of the walk.
\<close>

fun rehash_count :: "nat \<Rightarrow> ('k, 'v) dict \<Rightarrow> ('k, 'v) dict res" where
  "rehash_count 0 d = Inr d"
| "rehash_count (Suc n) d = (if dictIsRehashing d then bindE (dictRehashStep d) (rehash_count n) else Inr d)"

record ('k, 'v) some_state =
  ss_i :: u64
  ss_emptylen :: u64
  ss_random :: nat
  ss_des :: "('k, 'v) dictEntry list"

definition stored :: "('k, 'v) some_state \<Rightarrow> nat" where
  "stored s = length (ss_des s)"

text \<open>One table at the current position; the result says whether \<open>count\<close> entries are stored.\<close>

definition some_keys_table ::
  "(nat \<Rightarrow> u64) \<Rightarrow> u64 \<Rightarrow> nat \<Rightarrow> bool \<Rightarrow> ('k, 'v) dict \<Rightarrow> nat \<Rightarrow> ('k, 'v) some_state \<Rightarrow> ('k, 'v) some_state res" where
  "some_keys_table random maxsizemask count two d j s =
     (let skip = (two \<and> j = 0 \<and> ss_i s < word_of_int (rehashidx d));
          s1 = (if skip \<and> ss_i s \<ge> ht_size (ht1 d) then s\<lparr>ss_i := word_of_int (rehashidx d)\<rparr> else s)
      in if skip \<and> \<not> ss_i s \<ge> ht_size (ht1 d) then Inr s
         else if ss_i s1 \<ge> ht_size (ht_sel d j) then Inr s1
         else bindE (bucket (ht_sel d j) (unat (ss_i s1))) (\<lambda>he.
           if he = [] then
             let e = ss_emptylen s1 + 1 in
             if e \<ge> 5 \<and> e > of_nat count
             then Inr (s1\<lparr>ss_i := random (ss_random s1) AND maxsizemask, ss_emptylen := 0, ss_random := Suc (ss_random s1)\<rparr>)
             else Inr (s1\<lparr>ss_emptylen := e\<rparr>)
           else Inr (s1\<lparr>ss_emptylen := 0, ss_des := ss_des s1 @ take (count - stored s1) he\<rparr>)))"

fun some_keys_loop ::
  "nat \<Rightarrow> (nat \<Rightarrow> u64) \<Rightarrow> u64 \<Rightarrow> nat \<Rightarrow> bool \<Rightarrow> ('k, 'v) dict \<Rightarrow> ('k, 'v) some_state \<Rightarrow> ('k, 'v) some_state res" where
  "some_keys_loop 0 random maxsizemask count two d s = Inr s"
| "some_keys_loop (Suc maxsteps) random maxsizemask count two d s =
     (if stored s < count then
        bindE (some_keys_table random maxsizemask count two d 0 s) (\<lambda>s1.
        if stored s1 = count then Inr s1
        else bindE (if two then some_keys_table random maxsizemask count two d 1 s1 else Inr s1) (\<lambda>s2.
          if stored s2 = count then Inr s2
          else some_keys_loop maxsteps random maxsizemask count two d (s2\<lparr>ss_i := (ss_i s2 + 1) AND maxsizemask\<rparr>)))
      else Inr s)"

definition dictGetSomeKeys ::
  "(nat \<Rightarrow> u64) \<Rightarrow> ('k, 'v) dict \<Rightarrow> u32 \<Rightarrow> (('k, 'v) dictEntry list \<times> ('k, 'v) dict) res" where
  "dictGetSomeKeys random d cnt =
     (let count = (if dictSize d < ucast cnt then ucast (dictSize d) else cnt);
          maxsteps = unat (count * 10)
      in bindE (rehash_count (unat count) d) (\<lambda>d1.
         let two = dictIsRehashing d1;
             m0 = ht_sizemask (ht0 d1);
             maxsizemask = (if two \<and> m0 < ht_sizemask (ht1 d1) then ht_sizemask (ht1 d1) else m0)
         in bindE (some_keys_loop maxsteps random maxsizemask (unat count) two d1
              \<lparr>ss_i = random 0 AND maxsizemask, ss_emptylen = 0, ss_random = 1, ss_des = []\<rparr>) (\<lambda>s.
            Inr (ss_des s, d1))))"

definition GETFAIR_NUM_ENTRIES :: u32 where "GETFAIR_NUM_ENTRIES = 15"

text \<open>\<open>rnd\<close> is the value of \<open>rand\<close>; \<open>random2\<close> the values of \<open>random\<close> in the second attempt.\<close>

definition dictGetFairRandomKey ::
  "nat \<Rightarrow> (nat \<Rightarrow> u64) \<Rightarrow> (nat \<Rightarrow> u64) \<Rightarrow> nat \<Rightarrow> ('k, 'v) dict \<Rightarrow>
   (('k, 'v) dictEntry option \<times> ('k, 'v) dict) res option" where
  "dictGetFairRandomKey fuel random random2 rnd d =
     (case dictGetSomeKeys random d GETFAIR_NUM_ENTRIES of
        Inl e \<Rightarrow> Some (Inl e)
      | Inr ([], d1) \<Rightarrow> dictGetRandomKey fuel random2 d1
      | Inr (es, d1) \<Rightarrow> Some (Inr (Some (es ! (rnd mod length es)), d1)))"

section \<open>Scanning\<close>

text \<open>\<open>rev\<close> reverses the bits of a word by exchanging ever smaller blocks.\<close>

fun rev_loop :: "nat \<Rightarrow> u64 \<Rightarrow> nat \<Rightarrow> u64 \<Rightarrow> u64" where
  "rev_loop 0 msk s v = v"
| "rev_loop (Suc n) msk s v =
     (let s1 = s div 2; mask1 = msk XOR push_bit s1 msk in
      if s1 > 0 then rev_loop n mask1 s1 ((drop_bit s1 v AND mask1) OR (push_bit s1 v AND NOT mask1)) else v)"

definition rev_bits :: "u64 \<Rightarrow> u64" where
  "rev_bits v = rev_loop 7 (NOT 0) 64 v"

definition advance_cursor :: "u64 \<Rightarrow> u64 \<Rightarrow> u64" where
  "advance_cursor m v = rev_bits (rev_bits (v OR NOT m) + 1)"

text \<open>What the callbacks are called with: a bucket (table and index), and the entries.\<close>

datatype ('k, 'v) scan_event = ScanBucket nat nat | ScanEntry "('k, 'v) dictEntry"

definition emit_bucket :: "bool \<Rightarrow> ('k, 'v) dict \<Rightarrow> nat \<Rightarrow> u64 \<Rightarrow> ('k, 'v) scan_event list res" where
  "emit_bucket bucketfn d t v =
     (let i = unat (v AND ht_sizemask (ht_sel d t)) in
      bindE (bucket (ht_sel d t) i) (\<lambda>es. Inr ((if bucketfn then [ScanBucket t i] else []) @ map ScanEntry es)))"

text \<open>The buckets of the larger table; the fuel bounds the turns of the loop.\<close>

fun scan_expansions ::
  "nat \<Rightarrow> bool \<Rightarrow> ('k, 'v) dict \<Rightarrow> nat \<Rightarrow> u64 \<Rightarrow> u64 \<Rightarrow> u64 \<Rightarrow> (('k, 'v) scan_event list \<times> u64) res option" where
  "scan_expansions 0 bucketfn d t m0 m1 v = None"
| "scan_expansions (Suc fuel) bucketfn d t m0 m1 v =
     (case emit_bucket bucketfn d t v of
        Inl e \<Rightarrow> Some (Inl e)
      | Inr evs \<Rightarrow>
          (let v1 = advance_cursor m1 v in
           if v1 AND (m0 XOR m1) \<noteq> 0 then
             map_option (\<lambda>r. bindE r (\<lambda>(evs1, v2). Inr (evs @ evs1, v2))) (scan_expansions fuel bucketfn d t m0 m1 v1)
           else Some (Inr (evs, v1))))"

definition dictScan ::
  "nat \<Rightarrow> ('k, 'v) dict \<Rightarrow> u64 \<Rightarrow> bool \<Rightarrow> (('k, 'v) scan_event list \<times> u64) res option" where
  "dictScan fuel d v bucketfn =
     (if dictSize d = 0 then Some (Inr ([], 0))
      else if \<not> dictIsRehashing d then
        Some (bindE (emit_bucket bucketfn d 0 v) (\<lambda>evs. Inr (evs, advance_cursor (ht_sizemask (ht0 d)) v)))
      else
        (let (t0, t1) = (if ht_size (ht0 d) > ht_size (ht1 d) then (1, 0) else (0, 1));
             m0 = ht_sizemask (ht_sel d t0);
             m1 = ht_sizemask (ht_sel d t1)
         in case emit_bucket bucketfn d t0 v of
              Inl e \<Rightarrow> Some (Inl e)
            | Inr evs \<Rightarrow>
                map_option (\<lambda>r. bindE r (\<lambda>(evs1, v1). Inr (evs @ evs1, v1))) (scan_expansions fuel bucketfn d t1 m0 m1 v)))"

section \<open>Small operations\<close>

text \<open>\<open>dictEnableResize\<close> and \<open>dictDisableResize\<close> set the flag that the operations take as an argument.\<close>

definition dictEnableResize :: bool where "dictEnableResize = True"

definition dictDisableResize :: bool where "dictDisableResize = False"

definition dictGetHash :: "('k, 'v) dict \<Rightarrow> 'k \<Rightarrow> u64" where
  "dictGetHash d key = dictHashKey d key"

text \<open>Keys are compared by address: \<open>same\<close> tells whether a stored key is at the given address.\<close>

definition dictFindEntryRefByPtrAndHash :: "('k, 'v) dict \<Rightarrow> ('k \<Rightarrow> bool) \<Rightarrow> u64 \<Rightarrow> entry_ref option res" where
  "dictFindEntryRefByPtrAndHash d same hash =
     (if dictSize d = 0 then Inr None
      else
        (let i0 = unat (hash AND ht_sizemask (ht0 d)); i1 = unat (hash AND ht_sizemask (ht1 d));
             pos = (\<lambda>es. let js = filter (\<lambda>j. same (de_key (es ! j))) [0..<length es] in
                          if js = [] then None else Some (hd js))
         in bindE (bucket (ht0 d) i0) (\<lambda>c0.
            case pos c0 of
              Some j \<Rightarrow> Inr (Some (0, i0, j))
            | None \<Rightarrow>
                if \<not> dictIsRehashing d then Inr None
                else bindE (bucket (ht1 d) i1) (\<lambda>c1.
                  Inr (map_option (\<lambda>j. (1, i1, j)) (pos c1))))))"

end
