(* ===== verification/Gp_Dict_Correct.thy ===== *)
theory Gp_Dict_Correct
  imports Gp_Dict "HOL-Library.Multiset"
begin

text \<open>
  The invariant of the hash table and the correctness of its operations: each table has a power of
  two of buckets, every entry sits in the bucket its hash selects, the counters count the entries,
  keys occur once over both tables, and during a rehashing the buckets below \<open>rehashidx\<close> are empty.
  The abstraction is a map from keys to values; rehashing does not change it, and insertion,
  replacement, removal and lookup act on it as on a finite map. The interface \<open>dict_keys\<close> states what
  the table needs of the key type, and is interpreted for the integer and string types of the sources.
\<close>

section \<open>Lists of buckets\<close>

lemma concat_split_nth:
  "i < length t \<Longrightarrow> concat t = concat (take i t) @ t ! i @ concat (drop (Suc i) t)"
  by (metis concat.simps(2) concat_append id_take_nth_drop)

lemma concat_update:
  "i < length t \<Longrightarrow> concat (t[i := es]) = concat (take i t) @ es @ concat (drop (Suc i) t)"
  by (simp add: upd_conv_take_nth_drop)

lemma mset_concat_update:
  "i < length t \<Longrightarrow> mset (concat (t[i := es])) + mset (t ! i) = mset (concat t) + mset es"
  by (simp add: concat_update concat_split_nth [of i t])

lemma length_concat_update:
  "i < length t \<Longrightarrow> length (concat (t[i := es])) + length (t ! i) = length (concat t) + length es"
  by (simp add: concat_update concat_split_nth [of i t])

section \<open>Sizes\<close>

lemma next_power_loop_correct:
  assumes "unat i = 2 ^ j" and "j \<le> 63" and "63 \<le> j + n" and "unat sz \<le> 2 ^ 63"
    and "j = 2 \<or> 2 ^ (j - 1) < unat sz" and "2 \<le> j"
  shows "\<exists>k. 2 \<le> k \<and> k \<le> 63 \<and> unat (next_power_loop n i sz) = 2 ^ k \<and> unat sz \<le> 2 ^ k \<and>
    (k = 2 \<or> 2 ^ (k - 1) < unat sz)"
  using assms
proof (induction n arbitrary: i j)
  case 0
  then have "j = 63" by simp
  with 0 show ?case by (intro exI [of _ 63]) simp
next
  case (Suc n)
  show ?case
  proof (cases "sz \<le> i")
    case True
    with Suc.prems show ?thesis by (intro exI [of _ j]) (simp add: word_le_nat_alt)
  next
    case False
    then have lt: "2 ^ j < unat sz" using Suc.prems(1) by (simp add: word_le_nat_alt)
    then have "(2::nat) ^ j < 2 ^ 63" using Suc.prems(4) by linarith
    then have j: "j < 63" by (rule power_less_imp_less_exp [rotated]) simp
    then have "(2::nat) ^ Suc j \<le> 2 ^ 63" by (intro power_increasing) simp_all
    then have "unat (i * 2) = 2 ^ Suc j"
      using Suc.prems(1) by (simp add: unat_word_ariths)
    then have "\<exists>k. 2 \<le> k \<and> k \<le> 63 \<and> unat (next_power_loop n (i * 2) sz) = 2 ^ k \<and> unat sz \<le> 2 ^ k \<and>
        (k = 2 \<or> 2 ^ (k - 1) < unat sz)"
      using j lt Suc.prems by (intro Suc.IH [of _ "Suc j"]) simp_all
    with False show ?thesis by simp
  qed
qed

lemma dictNextPower_ge:
  assumes "unat sz < 9223372036854775807"
  obtains k where "2 \<le> k" "k \<le> 63" "unat (dictNextPower sz) = 2 ^ k" "unat sz \<le> 2 ^ k"
    "k = 2 \<or> 2 ^ (k - 1) < unat sz"
proof -
  have "\<not> LONG_MAX \<le> sz" using assms by (simp add: LONG_MAX_def word_le_nat_alt)
  then have "dictNextPower sz = next_power_loop 61 4 sz"
    by (simp add: dictNextPower_def DICT_HT_INITIAL_SIZE_def)
  then show ?thesis
    using next_power_loop_correct [of 4 2 61 sz] assms that by auto
qed

section \<open>The invariant\<close>

definition ht_entries :: "('k, 'v) dictht \<Rightarrow> ('k, 'v) dictEntry list" where
  "ht_entries ht = (case ht_table ht of None \<Rightarrow> [] | Some t \<Rightarrow> concat t)"

definition entries :: "('k, 'v) dict \<Rightarrow> ('k, 'v) dictEntry list" where
  "entries d = ht_entries (ht0 d) @ ht_entries (ht1 d)"

definition ht_ok :: "('k \<Rightarrow> u64) \<Rightarrow> ('k, 'v) dictht \<Rightarrow> bool" where
  "ht_ok H ht \<longleftrightarrow>
     (case ht_table ht of
        None \<Rightarrow> ht_size ht = 0 \<and> ht_sizemask ht = 0 \<and> ht_used ht = 0
      | Some t \<Rightarrow>
          (\<exists>k. 2 \<le> k \<and> k \<le> 63 \<and> unat (ht_size ht) = 2 ^ k) \<and> length t = unat (ht_size ht) \<and>
          ht_sizemask ht = ht_size ht - 1 \<and> unat (ht_used ht) = length (concat t) \<and>
          (\<forall>i < length t. \<forall>e \<in> set (t ! i). unat (H (de_key e) AND ht_sizemask ht) = i))"

definition dict_ok :: "('k \<Rightarrow> bool) \<Rightarrow> ('k, 'v) dict \<Rightarrow> bool" where
  "dict_ok P d \<longleftrightarrow>
     ht_ok (dictHashKey d) (ht0 d) \<and> ht_ok (dictHashKey d) (ht1 d) \<and>
     distinct (map de_key (entries d)) \<and> (\<forall>e \<in> set (entries d). P (de_key e)) \<and>
     length (entries d) < 4611686018427387904 \<and>
     (if dictIsRehashing d
      then 0 \<le> rehashidx d \<and>
           (\<exists>t0. ht_table (ht0 d) = Some t0 \<and> (\<forall>i < length t0. int i < rehashidx d \<longrightarrow> t0 ! i = [])) \<and>
           ht_table (ht1 d) \<noteq> None
      else ht1 d = dictReset)"

text \<open>The map a table stands for: each key to its value (\<open>None\<close>: the value was not set yet).\<close>

definition dict_map :: "('k, 'v) dict \<Rightarrow> 'k \<rightharpoonup> 'v option" where
  "dict_map d = map_of (map (\<lambda>e. (de_key e, de_val e)) (entries d))"

lemma dict_map_Some_iff:
  assumes "distinct (map de_key (entries d))"
  shows "dict_map d k = Some v \<longleftrightarrow> (\<exists>e \<in> set (entries d). de_key e = k \<and> de_val e = v)"
  using assms by (auto simp: dict_map_def map_of_eq_Some_iff comp_def)

lemma dict_map_None_iff: "dict_map d k = None \<longleftrightarrow> k \<notin> de_key ` set (entries d)"
  by (force simp: dict_map_def map_of_eq_None_iff image_image)

lemma dict_map_mset_cong:
  assumes "mset (entries d) = mset (entries d')" and "distinct (map de_key (entries d))"
  shows "dict_map d = dict_map d'"
proof -
  have "mset (map de_key (entries d)) = mset (map de_key (entries d'))"
    using assms(1) by simp
  then have "distinct (map de_key (entries d'))"
    using assms(2) by (metis mset_eq_imp_distinct_iff)
  moreover have "set (entries d) = set (entries d')"
    using assms(1) by (rule mset_eq_setD)
  ultimately show ?thesis
    using assms(2) by (intro ext option_eqI) (simp add: dict_map_Some_iff)
qed

lemma ht_okE:
  assumes "ht_ok H ht" and "ht_table ht = Some t"
  obtains k where "2 \<le> k" "k \<le> 63" "unat (ht_size ht) = 2 ^ k" "length t = 2 ^ k"
    "unat (ht_sizemask ht) = 2 ^ k - 1" "unat (ht_used ht) = length (concat t)"
    "\<And>i e. i < length t \<Longrightarrow> e \<in> set (t ! i) \<Longrightarrow> unat (H (de_key e) AND ht_sizemask ht) = i"
proof -
  obtain k where k: "2 \<le> k" "k \<le> 63" "unat (ht_size ht) = 2 ^ k"
    using assms by (auto simp: ht_ok_def)
  have "unat (ht_size ht - 1) = unat (ht_size ht) - unat (1 :: u64)"
    using k by (intro unat_diff_le) simp
  then show ?thesis
    using assms k by (intro that [of k]) (auto simp: ht_ok_def)
qed

text \<open>A masked hash is a valid bucket index.\<close>

lemma masked_index_lt:
  assumes "ht_ok H ht" and "ht_table ht = Some t"
  shows "unat (h AND ht_sizemask ht) < length t"
proof -
  obtain k where k: "length t = 2 ^ k" "unat (ht_sizemask ht) = 2 ^ k - 1"
    using assms by (rule ht_okE)
  have "unat (h AND ht_sizemask ht) \<le> unat (ht_sizemask ht)"
    by (simp add: word_and_le1 flip: word_le_nat_alt)
  moreover have "(1::nat) \<le> 2 ^ k" by simp
  ultimately show ?thesis using k by linarith
qed

lemma bucket_masked:
  assumes "ht_ok H ht" and "ht_table ht = Some t"
  shows "bucket ht (unat (h AND ht_sizemask ht)) = Inr (t ! unat (h AND ht_sizemask ht))"
  using masked_index_lt [OF assms] assms(2) by (simp add: bucket_def)

lemma ht_entries_Some [simp]: "ht_table ht = Some t \<Longrightarrow> ht_entries ht = concat t"
  by (simp add: ht_entries_def)

lemma ht_entries_None [simp]: "ht_table ht = None \<Longrightarrow> ht_entries ht = []"
  by (simp add: ht_entries_def)

lemma ht_used_entries: "ht_ok H ht \<Longrightarrow> unat (ht_used ht) = length (ht_entries ht)"
  by (cases "ht_table ht") (auto simp: ht_ok_def)

lemma ht_ok_reset [simp]: "ht_ok H dictReset" "ht_entries dictReset = []"
  by (simp_all add: ht_ok_def ht_entries_def dictReset_def)

lemma set_bucket_simps [simp]:
  "ht_size (set_bucket i es ht) = ht_size ht" "ht_sizemask (set_bucket i es ht) = ht_sizemask ht"
  "ht_used (set_bucket i es ht) = ht_used ht"
  "ht_table (set_bucket i es ht) = map_option (\<lambda>t. t[i := es]) (ht_table ht)"
  by (simp_all add: set_bucket_def)

text \<open>Changing one bucket, with a counter that follows the change, keeps the table well formed.\<close>

lemma ht_ok_update:
  assumes "ht_ok H ht" and "ht_table ht = Some t" and "i < length t"
    and "\<And>e. e \<in> set es \<Longrightarrow> unat (H (de_key e) AND ht_sizemask ht) = i"
    and "unat u = length (concat (t[i := es]))"
  shows "ht_ok H ((set_bucket i es ht)\<lparr>ht_used := u\<rparr>)"
proof -
  have "unat (H (de_key e) AND ht_sizemask ht) = j"
    if "j < length t" "e \<in> set (t[i := es] ! j)" for j e
    using that assms by (cases "i = j") (auto elim!: ht_okE)
  then show ?thesis
    using assms by (auto simp: ht_ok_def)
qed

lemma ht_insert:
  assumes ok: "ht_ok H ht" and t: "ht_table ht = Some t"
    and i: "i = unat (H (de_key e) AND ht_sizemask ht)"
    and bound: "length (ht_entries ht) + 1 < 18446744073709551616"
  shows "ht_ok H ((set_bucket i (e # t ! i) ht)\<lparr>ht_used := ht_used ht + 1\<rparr>)"
    and "mset (ht_entries ((set_bucket i (e # t ! i) ht)\<lparr>ht_used := ht_used ht + 1\<rparr>)) =
      add_mset e (mset (ht_entries ht))"
    and "i < length t"
proof -
  show lt: "i < length t" using masked_index_lt [OF ok t] i by simp
  have "unat (ht_used ht + 1) = length (concat t) + 1"
    using bound ht_used_entries [OF ok] t by (subst unat_add64) simp_all
  then show "ht_ok H ((set_bucket i (e # t ! i) ht)\<lparr>ht_used := ht_used ht + 1\<rparr>)"
    using lt ok t i length_concat_update [OF lt, of "e # t ! i"]
    by (intro ht_ok_update [OF ok t lt]) (auto elim: ht_okE)
  show "mset (ht_entries ((set_bucket i (e # t ! i) ht)\<lparr>ht_used := ht_used ht + 1\<rparr>)) =
      add_mset e (mset (ht_entries ht))"
    using t mset_concat_update [OF lt, of "e # t ! i"] by simp
qed

section \<open>Rehashing\<close>

lemma dictHashKey_simps [simp]:
  "dictHashKey (d\<lparr>ht0 := a\<rparr>) = dictHashKey d" "dictHashKey (d\<lparr>ht1 := b\<rparr>) = dictHashKey d"
  "dictHashKey (d\<lparr>rehashidx := r\<rparr>) = dictHashKey d"
  by (simp_all add: dictHashKey_def fun_eq_iff)

lemma move_chain_ok:
  assumes "ht_ok (dictHashKey d) (ht1 d)" and "ht_table (ht1 d) \<noteq> None"
    and "length (ht_entries (ht1 d)) + length es < 18446744073709551616"
  shows "\<exists>h1. move_chain es d =
      Inr (d\<lparr>ht0 := (ht0 d)\<lparr>ht_used := ht_used (ht0 d) - of_nat (length es)\<rparr>, ht1 := h1\<rparr>) \<and>
    ht_ok (dictHashKey d) h1 \<and> ht_table h1 \<noteq> None \<and>
    mset (ht_entries h1) = mset es + mset (ht_entries (ht1 d))"
  using assms
proof (induction es arbitrary: d)
  case Nil
  then show ?case by (intro exI [of _ "ht1 d"]) simp
next
  case (Cons e es)
  obtain t where t: "ht_table (ht1 d) = Some t" using Cons.prems(2) by blast
  define i where "i = unat (dictHashKey d (de_key e) AND ht_sizemask (ht1 d))"
  define h where "h = (set_bucket i (e # t ! i) (ht1 d))\<lparr>ht_used := ht_used (ht1 d) + 1\<rparr>"
  define d1 where "d1 = d\<lparr>ht0 := (ht0 d)\<lparr>ht_used := ht_used (ht0 d) - 1\<rparr>, ht1 := h\<rparr>"
  have bound: "length (ht_entries (ht1 d)) + 1 < 18446744073709551616"
    using Cons.prems(3) by simp
  note ins = ht_insert [OF Cons.prems(1) t i_def bound, folded h_def]
  have step: "move_chain (e # es) d = move_chain es d1"
    using ins(3) t by (simp add: bucket_def i_def [symmetric] h_def d1_def Let_def)
  have "length (ht_entries h) = Suc (length (ht_entries (ht1 d)))"
    using arg_cong [OF ins(2), of size] by simp
  then have "\<exists>h1. move_chain es d1 =
      Inr (d1\<lparr>ht0 := (ht0 d1)\<lparr>ht_used := ht_used (ht0 d1) - of_nat (length es)\<rparr>, ht1 := h1\<rparr>) \<and>
    ht_ok (dictHashKey d1) h1 \<and> ht_table h1 \<noteq> None \<and>
    mset (ht_entries h1) = mset es + mset (ht_entries (ht1 d1))"
    using ins t Cons.prems(3) by (intro Cons.IH) (simp_all add: d1_def h_def)
  then show ?case
    using ins(2) unfolding step by (auto simp: d1_def algebra_simps)
qed

lemma rehash_skip_ok:
  assumes "\<exists>j. i \<le> j \<and> j < length t \<and> t ! j \<noteq> []" and "\<forall>j < i. t ! j = []"
  shows "case rehash_skip t i ev of
      Inl _ \<Rightarrow> False
    | Inr (SkipFound j ev') \<Rightarrow> j < length t \<and> t ! j \<noteq> [] \<and> (\<forall>k < j. t ! k = [])
    | Inr (SkipBudget j) \<Rightarrow> j < length t \<and> (\<forall>k < j. t ! k = [])"
  using assms
proof (induction t i ev rule: rehash_skip.induct)
  case (1 t i ev)
  obtain j where j: "i \<le> j" "j < length t" "t ! j \<noteq> []" using 1(2) by blast
  show ?case
  proof (cases "t ! i = []")
    case False
    with j 1(3) show ?thesis by (subst rehash_skip.simps) simp
  next
    case True
    then have "i < j" using j by (cases "i = j") auto
    then have suc: "\<exists>j. i + 1 \<le> j \<and> j < length t \<and> t ! j \<noteq> []" using j by (intro exI [of _ j]) simp
    have emp: "\<forall>j < i + 1. t ! j = []" using True 1(3) by (auto simp: less_Suc_eq)
    show ?thesis
    proof (cases "ev - 1 = 0")
      case True
      then show ?thesis using \<open>t ! i = []\<close> \<open>i < j\<close> j emp by (subst rehash_skip.simps) auto
    next
      case False
      then show ?thesis
        using 1(1) [OF _ True False suc emp] \<open>i < j\<close> j True by (subst rehash_skip.simps) simp
    qed
  qed
qed

lemma concat_nonempty_iff: "concat t \<noteq> [] \<longleftrightarrow> (\<exists>j < length t. t ! j \<noteq> [])"
  by (auto simp: in_set_conv_nth) (metis nth_mem)

text \<open>Two tables with the same entries, whatever their buckets, and the same type and iterators.\<close>

definition dict_sim :: "('k, 'v) dict \<Rightarrow> ('k, 'v) dict \<Rightarrow> bool" where
  "dict_sim d d' \<longleftrightarrow>
     mset (entries d') = mset (entries d) \<and> d_type d' = d_type d \<and> iterators d' = iterators d"

lemma dict_sim_refl [simp]: "dict_sim d d"
  by (simp add: dict_sim_def)

lemma dict_sim_trans: "dict_sim d d1 \<Longrightarrow> dict_sim d1 d2 \<Longrightarrow> dict_sim d d2"
  by (simp add: dict_sim_def)

lemma entries_mset_cong:
  assumes "mset (entries d') = mset (entries d)"
  shows "distinct (map de_key (entries d')) \<longleftrightarrow> distinct (map de_key (entries d))"
    and "set (entries d') = set (entries d)" and "length (entries d') = length (entries d)"
proof -
  have "mset (map de_key (entries d')) = mset (map de_key (entries d))" using assms by simp
  then show "distinct (map de_key (entries d')) \<longleftrightarrow> distinct (map de_key (entries d))"
    by (rule mset_eq_imp_distinct_iff)
  show "set (entries d') = set (entries d)" using assms by (rule mset_eq_setD)
  show "length (entries d') = length (entries d)" using assms by (rule mset_eq_length)
qed

lemma dict_okI_sim:
  assumes "dict_ok P d" and "dict_sim d d'"
    and "ht_ok (dictHashKey d) (ht0 d')" and "ht_ok (dictHashKey d) (ht1 d')"
    and "if dictIsRehashing d'
      then 0 \<le> rehashidx d' \<and>
           (\<exists>t0. ht_table (ht0 d') = Some t0 \<and> (\<forall>i < length t0. int i < rehashidx d' \<longrightarrow> t0 ! i = [])) \<and>
           ht_table (ht1 d') \<noteq> None
      else ht1 d' = dictReset"
  shows "dict_ok P d'"
proof -
  have h: "dictHashKey d' = dictHashKey d"
    using assms(2) by (simp add: dict_sim_def dictHashKey_def fun_eq_iff)
  have "mset (entries d') = mset (entries d)" using assms(2) by (simp add: dict_sim_def)
  note c = entries_mset_cong [OF this]
  show ?thesis using assms(1,3,4,5) unfolding dict_ok_def h c by blast
qed

lemma rehash_move_ok:
  assumes ok: "dict_ok P d" and t: "ht_table (ht0 d) = Some t" and r: "dictIsRehashing d"
    and i: "i < length t" and empty: "\<forall>k < i. t ! k = []"
  shows "\<exists>d1. move_chain (t ! i) d = Inr d1 \<and>
    dict_ok P (d1\<lparr>ht0 := set_bucket i [] (ht0 d1), rehashidx := int i + 1\<rparr>) \<and>
    dictIsRehashing (d1\<lparr>ht0 := set_bucket i [] (ht0 d1), rehashidx := int i + 1\<rparr>) \<and>
    dict_sim d (d1\<lparr>ht0 := set_bucket i [] (ht0 d1), rehashidx := int i + 1\<rparr>)"
proof -
  have ok0: "ht_ok (dictHashKey d) (ht0 d)" and ok1: "ht_ok (dictHashKey d) (ht1 d)"
    and t1: "ht_table (ht1 d) \<noteq> None" and few: "length (entries d) < 4611686018427387904"
    using ok r by (simp_all add: dict_ok_def)
  have len: "length (concat (t[i := []])) + length (t ! i) = length (concat t)"
    using length_concat_update [OF i, of "[]"] by simp
  have split: "mset (concat (t[i := []])) + mset (t ! i) = mset (concat t)"
    using mset_concat_update [OF i, of "[]"] by simp
  have tot: "length (ht_entries (ht1 d)) + length (t ! i) < 18446744073709551616"
    using few t len by (simp add: entries_def)
  obtain h1 where m: "move_chain (t ! i) d =
      Inr (d\<lparr>ht0 := (ht0 d)\<lparr>ht_used := ht_used (ht0 d) - of_nat (length (t ! i))\<rparr>, ht1 := h1\<rparr>)"
    and h1: "ht_ok (dictHashKey d) h1" "ht_table h1 \<noteq> None"
      "mset (ht_entries h1) = mset (t ! i) + mset (ht_entries (ht1 d))"
    using move_chain_ok [OF ok1 t1 tot] by blast
  define u where "u = ht_used (ht0 d) - of_nat (length (t ! i))"
  define h0 where "h0 = (set_bucket i [] (ht0 d))\<lparr>ht_used := u\<rparr>"
  define d2 where "d2 = d\<lparr>ht0 := h0, ht1 := h1, rehashidx := int i + 1\<rparr>"
  have "unat (of_nat (length (t ! i)) :: u64) = length (t ! i)"
    using few t len by (intro unat_of_nat64) (simp add: entries_def)
  then have "unat u = length (concat (t[i := []]))"
    using ht_used_entries [OF ok0] t len unfolding u_def by (subst unat_diff_le) simp_all
  then have h0: "ht_ok (dictHashKey d) h0"
    unfolding h0_def by (intro ht_ok_update [OF ok0 t i]) simp_all
  have "ht_table h0 = Some (t[i := []])" using t by (simp add: h0_def)
  then have sim: "dict_sim d d2"
    using h1(3) t split by (simp add: dict_sim_def d2_def entries_def)
  have emp: "\<forall>j < length (t[i := []]). int j < int i + 1 \<longrightarrow> t[i := []] ! j = []"
    using empty i by (auto simp: nth_list_update)
  have "dict_ok P d2"
    by (rule dict_okI_sim [OF ok sim])
      (use h0 h1 emp \<open>ht_table h0 = Some (t[i := []])\<close> in \<open>simp_all add: d2_def dictIsRehashing_def\<close>)
  moreover have "dictIsRehashing d2" by (simp add: dictIsRehashing_def d2_def)
  moreover define dm where "dm = d\<lparr>ht0 := (ht0 d)\<lparr>ht_used := u\<rparr>, ht1 := h1\<rparr>"
  moreover have "dm\<lparr>ht0 := set_bucket i [] (ht0 dm), rehashidx := int i + 1\<rparr> = d2"
    by (cases d) (simp add: dm_def d2_def h0_def set_bucket_def)
  moreover have "move_chain (t ! i) d = Inr dm" using m by (simp add: dm_def u_def)
  ultimately show ?thesis using sim by (intro exI [of _ dm]) simp
qed

lemma rehash_finish_ok:
  assumes ok: "dict_ok P d" and r: "dictIsRehashing d" and f: "rehash_finish d = (b, d')"
  shows "dict_ok P d' \<and> dict_sim d d' \<and> (b \<longleftrightarrow> dictIsRehashing d')"
proof (cases "ht_used (ht0 d) = 0")
  case False
  with f ok r show ?thesis by (simp add: rehash_finish_def)
next
  case True
  have ok0: "ht_ok (dictHashKey d) (ht0 d)" and ok1: "ht_ok (dictHashKey d) (ht1 d)"
    using ok by (simp_all add: dict_ok_def)
  have "ht_entries (ht0 d) = []" using ht_used_entries [OF ok0] True by simp
  then have sim: "dict_sim d d'"
    using f True by (auto simp: rehash_finish_def dict_sim_def entries_def)
  have "dict_ok P d'"
    by (rule dict_okI_sim [OF ok sim])
      (use f True ok1 in \<open>auto simp: rehash_finish_def dictIsRehashing_def\<close>)
  with sim f True show ?thesis by (auto simp: rehash_finish_def dictIsRehashing_def)
qed

lemma rehashidx_in_range:
  assumes ok: "dict_ok P d" and r: "dictIsRehashing d" and u: "ht_used (ht0 d) \<noteq> 0"
    and t: "ht_table (ht0 d) = Some t"
  shows "\<exists>j. nat (rehashidx d) \<le> j \<and> j < length t \<and> t ! j \<noteq> []"
    and "\<forall>j < nat (rehashidx d). j < length t \<longrightarrow> t ! j = []"
    and "word_of_int (rehashidx d) < ht_size (ht0 d)"
proof -
  have ok0: "ht_ok (dictHashKey d) (ht0 d)" and idx: "0 \<le> rehashidx d"
    and emp: "\<forall>i < length t. int i < rehashidx d \<longrightarrow> t ! i = []"
    using ok r t by (simp_all add: dict_ok_def)
  obtain k where k: "k \<le> 63" "unat (ht_size (ht0 d)) = 2 ^ k" "length t = 2 ^ k"
    "unat (ht_used (ht0 d)) = length (concat t)"
    using ok0 t by (rule ht_okE)
  show "\<forall>j < nat (rehashidx d). j < length t \<longrightarrow> t ! j = []" using emp by auto
  have "length (concat t) \<noteq> 0" using u k(4) by (metis unat_eq_zero)
  then have "concat t \<noteq> []" by simp
  then obtain j where j: "j < length t" "t ! j \<noteq> []" unfolding concat_nonempty_iff by blast
  then have ge: "nat (rehashidx d) \<le> j" using emp by (metis leI nat_less_iff zless_nat_eq_int_zless)
  with j show "\<exists>j. nat (rehashidx d) \<le> j \<and> j < length t \<and> t ! j \<noteq> []" by blast
  have lt: "nat (rehashidx d) < 2 ^ k" using ge j k by linarith
  have "(2::nat) ^ k \<le> 2 ^ 63" using k(1) by (intro power_increasing) simp_all
  with lt have "nat (rehashidx d) < 2 ^ 63" by (rule less_le_trans)
  then have "unat (of_nat (nat (rehashidx d)) :: u64) = nat (rehashidx d)"
    by (intro unat_of_nat64) simp
  then have "unat (word_of_int (rehashidx d) :: u64) = nat (rehashidx d)"
    using idx by simp
  then show "word_of_int (rehashidx d) < ht_size (ht0 d)"
    using lt k(2) by (simp add: word_less_nat_alt)
qed

lemma rehash_loop_ok:
  assumes "dict_ok P d" and "dictIsRehashing d"
  shows "\<exists>b d'. rehash_loop n ev d = Inr (b, d') \<and> dict_ok P d' \<and> dict_sim d d' \<and>
    (b \<longleftrightarrow> dictIsRehashing d')"
  using assms
proof (induction n arbitrary: ev d)
  case 0
  obtain b d' where "rehash_finish d = (b, d')" by (cases "rehash_finish d")
  then show ?case using rehash_finish_ok [OF 0] by simp
next
  case (Suc n)
  show ?case
  proof (cases "ht_used (ht0 d) = 0")
    case True
    obtain b d' where "rehash_finish d = (b, d')" by (cases "rehash_finish d")
    then show ?thesis using rehash_finish_ok [OF Suc.prems] True by simp
  next
    case False
    obtain t where t: "ht_table (ht0 d) = Some t" using Suc.prems by (auto simp: dict_ok_def)
    note idx = rehashidx_in_range [OF Suc.prems False t]
    have below: "\<forall>j < nat (rehashidx d). t ! j = []" using idx(1,2) by auto
    note skip = rehash_skip_ok [OF idx(1) below, of ev]
    show ?thesis
    proof (cases "rehash_skip t (nat (rehashidx d)) ev")
      case (Inl e)
      with skip show ?thesis by simp
    next
      case (Inr s)
      show ?thesis
      proof (cases s)
        case (SkipBudget i)
        with skip Inr have i: "i < length t" "\<forall>k < i. t ! k = []" by simp_all
        have sim: "dict_sim d (d\<lparr>rehashidx := int i\<rparr>)" by (simp add: dict_sim_def entries_def)
        have "dict_ok P (d\<lparr>rehashidx := int i\<rparr>)"
          by (rule dict_okI_sim [OF Suc.prems(1) sim])
            (use Suc.prems t i in \<open>auto simp: dict_ok_def dictIsRehashing_def\<close>)
        moreover have "dictIsRehashing (d\<lparr>rehashidx := int i\<rparr>)" by (simp add: dictIsRehashing_def)
        ultimately show ?thesis using False t idx(3) Inr SkipBudget sim
          by (intro exI [of _ True] exI [of _ "d\<lparr>rehashidx := int i\<rparr>"]) simp
      next
        case (SkipFound i ev')
        with skip Inr have i: "i < length t" "\<forall>k < i. t ! k = []" by simp_all
        obtain d1 where d1: "move_chain (t ! i) d = Inr d1"
          "dict_ok P (d1\<lparr>ht0 := set_bucket i [] (ht0 d1), rehashidx := int i + 1\<rparr>)"
          "dictIsRehashing (d1\<lparr>ht0 := set_bucket i [] (ht0 d1), rehashidx := int i + 1\<rparr>)"
          "dict_sim d (d1\<lparr>ht0 := set_bucket i [] (ht0 d1), rehashidx := int i + 1\<rparr>)"
          using rehash_move_ok [OF Suc.prems(1) t Suc.prems(2) i] by blast
        show ?thesis
          using Suc.IH [OF d1(2,3), of ev'] False t idx(3) Inr SkipFound d1(1)
            dict_sim_trans [OF d1(4)] by auto
      qed
    qed
  qed
qed

lemma dictRehash_ok:
  assumes "dict_ok P d"
  obtains b d' where "dictRehash d n = Inr (b, d')" "dict_ok P d'" "dict_sim d d'"
    "b \<longleftrightarrow> dictIsRehashing d'"
proof (cases "dictIsRehashing d")
  case True
  with rehash_loop_ok [OF assms True, of n "int n * 10"] that show ?thesis
    by (auto simp: dictRehash_def)
next
  case False
  with assms show ?thesis by (intro that [of False d]) (simp_all add: dictRehash_def)
qed

lemma dictRehashStep_ok:
  assumes "dict_ok P d"
  obtains d' where "dictRehashStep d = Inr d'" "dict_ok P d'" "dict_sim d d'"
proof (cases "iterators d = 0")
  case True
  obtain b d' where "dictRehash d 1 = Inr (b, d')" "dict_ok P d'" "dict_sim d d'"
    using assms by (rule dictRehash_ok)
  with True show ?thesis by (intro that) (simp_all add: dictRehashStep_def)
next
  case False
  with assms show ?thesis by (intro that [of d]) (simp_all add: dictRehashStep_def)
qed

lemma rehash_if_needed_ok:
  assumes "dict_ok P d"
  obtains d' where "rehash_if_needed d = Inr d'" "dict_ok P d'" "dict_sim d d'"
proof (cases "dictIsRehashing d")
  case True
  obtain d' where "dictRehashStep d = Inr d'" "dict_ok P d'" "dict_sim d d'"
    using assms by (rule dictRehashStep_ok)
  with True show ?thesis by (intro that) (simp_all add: rehash_if_needed_def)
next
  case False
  with assms show ?thesis by (intro that [of d]) (simp_all add: rehash_if_needed_def)
qed

lemma dict_sim_map: "dict_sim d d' \<Longrightarrow> dict_ok P d \<Longrightarrow> dict_map d' = dict_map d"
  using dict_map_mset_cong [of d d'] by (simp add: dict_sim_def dict_ok_def)

section \<open>Resizing\<close>

definition fresh_ht :: "u64 \<Rightarrow> ('k, 'v) dictht" where
  "fresh_ht realsize = \<lparr>ht_table = Some (replicate (unat realsize) []), ht_size = realsize,
     ht_sizemask = realsize - 1, ht_used = 0\<rparr>"

lemma fresh_ht_simps [simp]:
  "ht_entries (fresh_ht n) = []" "ht_size (fresh_ht n) = n"
  "ht_table (fresh_ht n) = Some (replicate (unat n) [])"
  by (simp_all add: fresh_ht_def ht_entries_def)

lemma fresh_ht_ok: "2 \<le> k \<Longrightarrow> k \<le> 63 \<Longrightarrow> unat n = 2 ^ k \<Longrightarrow> ht_ok H (fresh_ht n)"
  by (auto simp: ht_ok_def fresh_ht_def)

lemma dictExpand_fresh:
  "dictExpand d sz =
     (if dictIsRehashing d \<or> sz < ht_used (ht0 d) \<or> dictNextPower sz = ht_size (ht0 d) then (DICT_ERR, d)
      else if ht_table (ht0 d) = None then (DICT_OK, d\<lparr>ht0 := fresh_ht (dictNextPower sz)\<rparr>)
      else (DICT_OK, d\<lparr>ht1 := fresh_ht (dictNextPower sz), rehashidx := 0\<rparr>))"
  by (simp add: dictExpand_def fresh_ht_def Let_def)

text \<open>Expanding keeps the contents; on success the first table has buckets.\<close>

lemma dictExpand_ok:
  assumes ok: "dict_ok P d" and sz: "unat sz < 9223372036854775807"
    and e: "dictExpand d sz = (st, d')"
  shows "dict_ok P d'" and "dict_sim d d'" and "st = DICT_OK \<Longrightarrow> ht_table (ht0 d') \<noteq> None"
    and "st = DICT_ERR \<Longrightarrow> d' = d"
proof -
  obtain k where k: "2 \<le> k" "k \<le> 63" "unat (dictNextPower sz) = 2 ^ k" "unat sz \<le> 2 ^ k"
    using sz by (rule dictNextPower_ge)
  define n where "n = dictNextPower sz"
  have n: "ht_ok (dictHashKey d) (fresh_ht n)" using k(1-3) unfolding n_def by (rule fresh_ht_ok)
  have parts: "ht_ok (dictHashKey d) (ht0 d)" "ht_ok (dictHashKey d) (ht1 d)"
    using ok by (simp_all add: dict_ok_def)
  have idle: "ht1 d = dictReset" if "\<not> dictIsRehashing d" using ok that by (simp add: dict_ok_def)
  consider "d' = d" "st = DICT_ERR"
    | "\<not> dictIsRehashing d" "ht_table (ht0 d) = None" "d' = d\<lparr>ht0 := fresh_ht n\<rparr>"
    | "\<not> dictIsRehashing d" "ht_table (ht0 d) \<noteq> None" "d' = d\<lparr>ht1 := fresh_ht n, rehashidx := 0\<rparr>"
  proof (cases "dictIsRehashing d \<or> sz < ht_used (ht0 d) \<or> dictNextPower sz = ht_size (ht0 d)")
    case True
    with e that(1) show ?thesis by (simp add: dictExpand_fresh)
  next
    case False
    with e that(2,3) show ?thesis
      by (cases "ht_table (ht0 d) = None") (simp_all add: dictExpand_fresh n_def)
  qed
  note cases = this
  show sim: "dict_sim d d'"
    using cases by cases (simp_all add: idle dict_sim_def entries_def)
  show "dict_ok P d'"
    using cases
  proof cases
    case 2
    then show ?thesis
      using n parts idle by (intro dict_okI_sim [OF ok sim]) (simp_all add: dictIsRehashing_def)
  next
    case 3
    then show ?thesis
      using n parts by (intro dict_okI_sim [OF ok sim]) (auto simp: dictIsRehashing_def)
  qed (use ok in simp)
  show "ht_table (ht0 d') \<noteq> None" if "st = DICT_OK"
    using cases by cases (use that in auto)
  show "d' = d" if "st = DICT_ERR"
    using cases
  proof cases
    case 2
    then show ?thesis using e that by (auto simp: dictExpand_fresh split: if_splits)
  next
    case 3
    then show ?thesis using e that by (auto simp: dictExpand_fresh split: if_splits)
  qed simp
qed

lemma dictExpandIfNeeded_ok:
  assumes ok: "dict_ok P d"
  obtains d' where "dictExpandIfNeeded c d = (DICT_OK, d')" "dict_ok P d'" "dict_sim d d'"
    "ht_table (ht0 d') \<noteq> None"
proof -
  have parts: "ht_ok (dictHashKey d) (ht0 d)" using ok by (simp add: dict_ok_def)
  have few: "unat (ht_used (ht0 d)) < 4611686018427387904"
    using ok ht_used_entries [OF parts] by (simp add: dict_ok_def entries_def)
  note goal = that
  have expand: thesis
    if same: "dictExpandIfNeeded c d = dictExpand d sz" and small: "unat sz < 9223372036854775807"
      and enough: "\<not> dictIsRehashing d" "ht_used (ht0 d) \<le> sz" "dictNextPower sz \<noteq> ht_size (ht0 d)" for sz
  proof -
    have "fst (dictExpand d sz) = DICT_OK" using enough by (simp add: dictExpand_fresh not_less [symmetric])
    then obtain d' where e: "dictExpand d sz = (DICT_OK, d')" by (cases "dictExpand d sz") simp
    with dictExpand_ok [OF ok small e] same show ?thesis by (intro goal) simp_all
  qed
  show ?thesis
  proof (cases "dictIsRehashing d")
    case True
    then show ?thesis using ok by (intro that [of d]) (auto simp: dictExpandIfNeeded_def dict_ok_def)
  next
    case idle: False
    show ?thesis
    proof (cases "ht_table (ht0 d)")
      case None
      with parts have "ht_size (ht0 d) = 0" "ht_used (ht0 d) = 0" by (simp_all add: ht_ok_def)
      moreover obtain k where "unat (dictNextPower DICT_HT_INITIAL_SIZE) = 2 ^ k"
        by (rule dictNextPower_ge [of DICT_HT_INITIAL_SIZE]) (simp_all add: DICT_HT_INITIAL_SIZE_def)
      ultimately show ?thesis
        using idle by (intro expand [of DICT_HT_INITIAL_SIZE])
          (auto simp: dictExpandIfNeeded_def DICT_HT_INITIAL_SIZE_def)
    next
      case (Some t)
      obtain k where k: "2 \<le> k" "k \<le> 63" "unat (ht_size (ht0 d)) = 2 ^ k"
        using parts Some by (rule ht_okE)
      have pos: "ht_size (ht0 d) \<noteq> 0" using k(3) by auto
      show ?thesis
      proof (cases "ht_size (ht0 d) \<le> ht_used (ht0 d) \<and>
          (c \<or> dict_force_resize_ratio < ht_used (ht0 d) div ht_size (ht0 d))")
        case False
        then show ?thesis using ok idle pos Some by (intro that [of d]) (auto simp: dictExpandIfNeeded_def)
      next
        case True
        define sz where "sz = ht_used (ht0 d) * 2"
        have sz: "unat sz = 2 * unat (ht_used (ht0 d))"
          using few by (simp add: sz_def unat_word_ariths)
        obtain j where j: "unat (dictNextPower sz) = 2 ^ j" "unat sz \<le> 2 ^ j"
          by (rule dictNextPower_ge [of sz]) (use few sz in simp_all)
        have "unat (ht_size (ht0 d)) \<noteq> unat (dictNextPower sz)"
        proof -
          have "0 < unat (ht_size (ht0 d))" by (simp add: k(3))
          moreover have "unat (ht_size (ht0 d)) \<le> unat (ht_used (ht0 d))"
            using True by (simp add: word_le_nat_alt)
          ultimately show ?thesis using j sz by linarith
        qed
        then show ?thesis
          using True idle pos few sz
          by (intro expand [of sz]) (auto simp: dictExpandIfNeeded_def sz_def [symmetric] word_le_nat_alt)
      qed
    qed
  qed
qed

section \<open>Changing one bucket\<close>

definition emap :: "('k, 'v) dictEntry list \<Rightarrow> 'k \<rightharpoonup> 'v option" where
  "emap es = map_of (map (\<lambda>e. (de_key e, de_val e)) es)"

lemma dict_map_emap: "dict_map d = emap (entries d)"
  by (simp add: dict_map_def emap_def)

lemma emap_cons:
  assumes "mset es = add_mset e (mset es')" and "distinct (map de_key es)"
  shows "distinct (map de_key es')" and "de_key e \<notin> de_key ` set es'"
    and "emap es = (emap es')(de_key e \<mapsto> de_val e)" and "emap es' = (emap es)(de_key e := None)"
    and "set es = insert e (set es')" and "length es = Suc (length es')"
proof -
  have mk: "mset (map de_key es) = mset (map de_key (e # es'))" using assms(1) by simp
  then have d: "distinct (map de_key (e # es'))"
    using assms(2) mset_eq_imp_distinct_iff by blast
  then show "distinct (map de_key es')" and n: "de_key e \<notin> de_key ` set es'" by simp_all
  have "mset es = mset (e # es')" using assms(1) by simp
  then show set: "set es = insert e (set es')" and "length es = Suc (length es')"
    by (metis list.set(2) mset_eq_setD, metis length_Cons mset_eq_length)
  have iff: "emap xs k = Some v \<longleftrightarrow> (\<exists>x \<in> set xs. de_key x = k \<and> de_val x = v)"
    if "distinct (map de_key xs)" for xs :: "('a, 'b) dictEntry list" and k v
    using that by (auto simp: emap_def map_of_eq_Some_iff comp_def)
  show up: "emap es = (emap es')(de_key e \<mapsto> de_val e)"
    using d assms(2) n by (intro ext option_eqI) (auto simp: iff set image_iff)
  have "emap es' (de_key e) = None"
    using n by (force simp: emap_def map_of_eq_None_iff)
  then show "emap es' = (emap es)(de_key e := None)"
    by (simp add: up fun_upd_idem)
qed

lemma emap_change:
  assumes "mset es = add_mset e M" and "mset es' = add_mset e' M" and "de_key e' = de_key e"
    and "distinct (map de_key es)"
  shows "distinct (map de_key es')" and "emap es' = (emap es)(de_key e \<mapsto> de_val e')"
    and "de_key ` set es' = de_key ` set es" and "length es' = length es"
proof -
  obtain ms where ms: "mset ms = M" using ex_mset by blast
  have "mset (map de_key es') = mset (map de_key es)" using assms(1-3) by simp
  then show d': "distinct (map de_key es')" and "de_key ` set es' = de_key ` set es"
    using assms(4) by (metis mset_eq_imp_distinct_iff, metis mset_eq_setD set_map)
  note c = emap_cons [OF assms(1) [folded ms] assms(4)] and c' = emap_cons [OF assms(2) [folded ms] d']
  show "emap es' = (emap es)(de_key e \<mapsto> de_val e')"
    using c(3) c'(3) assms(3) by (simp add: fun_eq_iff)
  show "length es' = length es" using c(6) c'(6) by simp
qed

lemma ht_upd_simps [simp]:
  "d_type (ht_upd t f d) = d_type d" "rehashidx (ht_upd t f d) = rehashidx d"
  "iterators (ht_upd t f d) = iterators d" "dictIsRehashing (ht_upd t f d) = dictIsRehashing d"
  "dictHashKey (ht_upd t f d) = dictHashKey d"
  by (simp_all add: ht_upd_def dictIsRehashing_def)

lemma entries_bucket_update:
  assumes "ht_table (ht_sel d t) = Some tab" and "i < length tab"
  shows "mset (entries (ht_upd t (\<lambda>ht. (set_bucket i es ht)\<lparr>ht_used := u\<rparr>) d)) + mset (tab ! i) =
    mset (entries d) + mset es"
proof (cases "t = 0")
  case True
  then have "mset (entries (ht_upd t (\<lambda>ht. (set_bucket i es ht)\<lparr>ht_used := u\<rparr>) d)) =
      mset (concat (tab[i := es])) + mset (ht_entries (ht1 d))"
    and "mset (entries d) = mset (concat tab) + mset (ht_entries (ht1 d))"
    using assms(1) by (simp_all add: ht_sel_def ht_upd_def entries_def)
  with mset_concat_update [OF assms(2), of es] show ?thesis by (simp add: ac_simps)
next
  case False
  then have "mset (entries (ht_upd t (\<lambda>ht. (set_bucket i es ht)\<lparr>ht_used := u\<rparr>) d)) =
      mset (ht_entries (ht0 d)) + mset (concat (tab[i := es]))"
    and "mset (entries d) = mset (ht_entries (ht0 d)) + mset (concat tab)"
    using assms(1) by (simp_all add: ht_sel_def ht_upd_def entries_def)
  with mset_concat_update [OF assms(2), of es] show ?thesis by (simp add: ac_simps)
qed

lemma dict_ok_bucket_update:
  fixes d :: "('k, 'v) dict"
  defines "d' \<equiv> \<lambda>t i es u. ht_upd t (\<lambda>ht. (set_bucket i es ht)\<lparr>ht_used := u\<rparr>) d"
  assumes ok: "dict_ok P d" and tab: "ht_table (ht_sel d t) = Some tab" and i: "i < length tab"
    and es: "\<And>e. e \<in> set es \<Longrightarrow> unat (dictHashKey d (de_key e) AND ht_sizemask (ht_sel d t)) = i"
    and u: "unat u = length (concat (tab[i := es]))"
    and below: "t = 0 \<Longrightarrow> dictIsRehashing d \<Longrightarrow> tab ! i = [] \<Longrightarrow> es = []"
    and new: "distinct (map de_key (entries (d' t i es u)))"
      "\<forall>e \<in> set (entries (d' t i es u)). P (de_key e)"
      "length (entries (d' t i es u)) < 4611686018427387904"
  shows "dict_ok P (d' t i es u)"
proof -
  have hts: "ht_ok (dictHashKey d) (ht0 d)" "ht_ok (dictHashKey d) (ht1 d)"
    using ok by (simp_all add: dict_ok_def)
  then have "ht_ok (dictHashKey d) (ht_sel d t)" by (simp add: ht_sel_def)
  then have upd: "ht_ok (dictHashKey d) ((set_bucket i es (ht_sel d t))\<lparr>ht_used := u\<rparr>)"
    using tab i es u by (rule ht_ok_update)
  show ?thesis
  proof (cases "t = 0")
    case True
    have "\<forall>j < length (tab[i := es]). int j < rehashidx d \<longrightarrow> tab[i := es] ! j = []" if "dictIsRehashing d"
      using ok that tab True below i by (auto simp: dict_ok_def ht_sel_def nth_list_update)
    then show ?thesis
      using True ok upd tab new hts
      by (simp add: dict_ok_def d'_def ht_upd_def ht_sel_def dictIsRehashing_def)
  next
    case False
    then have "dictIsRehashing d" using ok tab by (auto simp: dict_ok_def ht_sel_def dictReset_def split: if_splits)
    then show ?thesis
      using False ok upd tab new hts
      by (simp add: dict_ok_def d'_def ht_upd_def ht_sel_def dictIsRehashing_def)
  qed
qed

section \<open>Entry references\<close>

definition ref_ok :: "('k, 'v) dict \<Rightarrow> 'k \<Rightarrow> entry_ref \<Rightarrow> bool" where
  "ref_ok d k r \<longleftrightarrow>
     (case r of (t, i, j) \<Rightarrow>
       \<exists>tab. ht_table (ht_sel d t) = Some tab \<and> i < length tab \<and> j < length (tab ! i) \<and>
         de_key (tab ! i ! j) = k)"

lemma ref_okE:
  assumes "ref_ok d k (t, i, j)"
  obtains tab where "ht_table (ht_sel d t) = Some tab" "i < length tab" "j < length (tab ! i)"
    "de_key (tab ! i ! j) = k" "bucket (ht_sel d t) i = Inr (tab ! i)"
  using assms by (auto simp: ref_ok_def bucket_def)

lemma bucket_subset_entries:
  assumes "ht_table (ht_sel d t) = Some tab" and "i < length tab"
  shows "set (tab ! i) \<subseteq> set (entries d)"
proof (cases "t = 0")
  case True
  with assms show ?thesis by (force simp: entries_def ht_sel_def)
next
  case False
  with assms show ?thesis by (force simp: entries_def ht_sel_def)
qed

lemma ref_ok_entry:
  assumes "ref_ok d k r" and "dict_ok P d"
  shows "\<exists>e. entry_at d r = Some e \<and> de_key e = k \<and> e \<in> set (entries d) \<and> dict_map d k = Some (de_val e)"
proof -
  obtain t i j where r: "r = (t, i, j)" by (cases r)
  obtain tab where tab: "ht_table (ht_sel d t) = Some tab" "i < length tab" "j < length (tab ! i)"
    "de_key (tab ! i ! j) = k" "bucket (ht_sel d t) i = Inr (tab ! i)"
    using assms(1) unfolding r by (rule ref_okE)
  have e: "tab ! i ! j \<in> set (entries d)" using bucket_subset_entries [OF tab(1,2)] tab(3) by auto
  moreover have "dict_map d k = Some (de_val (tab ! i ! j))"
    using e tab(4) assms(2) by (auto simp: dict_ok_def dict_map_Some_iff)
  ultimately show ?thesis using tab r by (simp add: entry_at_def)
qed

lemma dict_ok_bucket:
  assumes "dict_ok P d" and "ht_table (ht_sel d t) = Some tab"
  shows "i < length tab \<Longrightarrow> x \<in> set (tab ! i) \<Longrightarrow>
      unat (dictHashKey d (de_key x) AND ht_sizemask (ht_sel d t)) = i"
    and "unat (ht_used (ht_sel d t)) = length (concat tab)"
    and "length (concat tab) < 4611686018427387904"
proof -
  have ok: "ht_ok (dictHashKey d) (ht_sel d t)" using assms(1) by (simp add: dict_ok_def ht_sel_def)
  with assms(2) show "unat (dictHashKey d (de_key x) AND ht_sizemask (ht_sel d t)) = i"
    if "i < length tab" "x \<in> set (tab ! i)"
    using that by (auto elim!: ht_okE)
  show "unat (ht_used (ht_sel d t)) = length (concat tab)" using ht_used_entries [OF ok] assms(2) by simp
  have "ht_entries (ht_sel d t) = concat tab" using assms(2) by simp
  then have "length (concat tab) \<le> length (entries d)"
    by (auto simp: ht_sel_def entries_def split: if_splits)
  then show "length (concat tab) < 4611686018427387904" using assms(1) by (simp add: dict_ok_def)
qed

lemma set_entry_val_ok:
  assumes ok: "dict_ok P d" and "ref_ok d k r"
  shows "dict_ok P (set_entry_val r v d)"
    and "dict_map (set_entry_val r v d) = (dict_map d)(k \<mapsto> Some (dictSetVal d v))"
    and "d_type (set_entry_val r v d) = d_type d"
proof -
  obtain t i j where r: "r = (t, i, j)" by (cases r)
  obtain tab where tab: "ht_table (ht_sel d t) = Some tab" "i < length tab" "j < length (tab ! i)"
    "de_key (tab ! i ! j) = k" "bucket (ht_sel d t) i = Inr (tab ! i)"
    using assms(2) unfolding r by (rule ref_okE)
  define e where "e = tab ! i ! j"
  define e' where "e' = e\<lparr>de_val := Some (dictSetVal d v)\<rparr>"
  define es where "es = (tab ! i)[j := e']"
  define u where "u = ht_used (ht_sel d t)"
  define d' where "d' = ht_upd t (\<lambda>ht. (set_bucket i es ht)\<lparr>ht_used := u\<rparr>) d"
  have d': "set_entry_val r v d = d'"
    using tab(5) by (cases "t = 0")
      (simp_all add: set_entry_val_def r d'_def es_def e'_def e_def u_def ht_upd_def ht_sel_def set_bucket_def)
  have m1: "mset (tab ! i) = add_mset e (mset (tab ! i) - {#e#})"
    using tab(3) by (simp add: e_def)
  have m2: "mset es = add_mset e' (mset (tab ! i) - {#e#})"
    using tab(3) by (simp add: es_def e_def mset_update)
  have "mset (entries d') + mset (tab ! i) = mset (entries d) + mset es"
    unfolding d'_def by (rule entries_bucket_update [OF tab(1,2)])
  then have eq: "add_mset e (mset (entries d')) = add_mset e' (mset (entries d))"
    unfolding m2 by (subst (asm) m1) simp
  have "e \<in> set (entries d)" using bucket_subset_entries [OF tab(1,2)] tab(3) by (auto simp: e_def)
  then obtain M where M: "mset (entries d) = add_mset e M" by (metis mset_add set_mset_mset)
  with eq have M': "mset (entries d') = add_mset e' M" by simp
  have dist: "distinct (map de_key (entries d))" using ok by (simp add: dict_ok_def)
  have key: "de_key e' = de_key e" by (simp add: e'_def)
  note ch = emap_change [OF M M' key dist]
  have allP: "\<forall>x \<in> set (entries d'). P (de_key x)"
    using ch(3) ok unfolding dict_ok_def by (metis (no_types, lifting) image_iff)
  note b = dict_ok_bucket [OF ok tab(1)]
  have "dict_ok P d'"
    unfolding d'_def
  proof (rule dict_ok_bucket_update [OF ok tab(1,2)])
    show "unat (dictHashKey d (de_key x) AND ht_sizemask (ht_sel d t)) = i" if "x \<in> set es" for x
      using that b(1) [OF tab(2), of x] b(1) [OF tab(2), of e] tab(3) key set_update_subset_insert [of "tab ! i" j e']
      by (auto simp: es_def e_def)
    show "unat u = length (concat (tab[i := es]))"
      using b(2) length_concat_update [OF tab(2), of es] by (simp add: u_def es_def)
    show "es = []" if "tab ! i = []" using that by (simp add: es_def)
  qed (use ch allP ok in \<open>auto simp: dict_ok_def d'_def [symmetric]\<close>)
  then show "dict_ok P (set_entry_val r v d)" by (simp add: d')
  show "dict_map (set_entry_val r v d) = (dict_map d)(k \<mapsto> Some (dictSetVal d v))"
    using ch(2) tab(4) by (simp add: d' dict_map_emap e'_def e_def)
  show "d_type (set_entry_val r v d) = d_type d" by (simp add: d' d'_def)
qed

lemma unlink_entry_ok:
  assumes ok: "dict_ok P d" and "ref_ok d k r"
  shows "dict_ok P (unlink_entry r d)" and "dict_map (unlink_entry r d) = (dict_map d)(k := None)"
    and "d_type (unlink_entry r d) = d_type d"
proof -
  obtain t i j where r: "r = (t, i, j)" by (cases r)
  obtain tab where tab: "ht_table (ht_sel d t) = Some tab" "i < length tab" "j < length (tab ! i)"
    "de_key (tab ! i ! j) = k" "bucket (ht_sel d t) i = Inr (tab ! i)"
    using assms(2) unfolding r by (rule ref_okE)
  define es where "es = take j (tab ! i) @ drop (Suc j) (tab ! i)"
  define u where "u = ht_used (ht_sel d t) - 1"
  define d' where "d' = ht_upd t (\<lambda>ht. (set_bucket i es ht)\<lparr>ht_used := u\<rparr>) d"
  have d': "unlink_entry r d = d'"
    using tab(5) by (cases "t = 0") (simp_all add: unlink_entry_def r d'_def es_def u_def ht_upd_def ht_sel_def)
  have split: "tab ! i = take j (tab ! i) @ tab ! i ! j # drop (Suc j) (tab ! i)"
    using tab(3) by (rule id_take_nth_drop)
  have "mset (tab ! i) = add_mset (tab ! i ! j) (mset es)"
    unfolding es_def by (subst split) simp
  moreover have "mset (entries d') + mset (tab ! i) = mset (entries d) + mset es"
    unfolding d'_def by (rule entries_bucket_update [OF tab(1,2)])
  ultimately have eq: "mset (entries d) = add_mset (tab ! i ! j) (mset (entries d'))" by simp
  have dist: "distinct (map de_key (entries d))" using ok by (simp add: dict_ok_def)
  note c = emap_cons [OF eq dist] and b = dict_ok_bucket [OF ok tab(1)]
  have sub: "set es \<subseteq> set (tab ! i)" by (auto simp: es_def dest: in_set_takeD in_set_dropD)
  have len: "length (tab ! i) = Suc (length es)" using tab(3) by (simp add: es_def)
  have "length (concat (tab[i := es])) + 1 = length (concat tab)"
    using length_concat_update [OF tab(2), of es] len by linarith
  moreover then have "unat u = length (concat tab) - 1"
    using b(2) unfolding u_def by (subst unat_diff_le) simp_all
  ultimately have "unat u = length (concat (tab[i := es]))" by simp
  then have "dict_ok P d'"
    unfolding d'_def using ok b(1) [OF tab(2)] sub c(1,5,6) tab(3)
    by (intro dict_ok_bucket_update [OF ok tab(1,2)]) (auto simp: dict_ok_def d'_def [symmetric])
  then show "dict_ok P (unlink_entry r d)" by (simp add: d')
  show "dict_map (unlink_entry r d) = (dict_map d)(k := None)"
    using c(4) tab(4) by (simp add: d' dict_map_emap)
  show "d_type (unlink_entry r d) = d_type d" by (simp add: d' d'_def)
qed

lemma insert_entry_ok:
  assumes ok: "dict_ok P d" and tab: "ht_table (ht_sel d t) = Some tab"
    and i: "i = unat (dictHashKey d k AND ht_sizemask (ht_sel d t))"
    and t: "t = (if dictIsRehashing d then 1 else 0)" and new: "dict_map d k = None" and k: "P k"
    and room: "length (entries d) + 1 < 4611686018427387904"
    and d': "d' = ht_upd t (\<lambda>ht. (set_bucket i (\<lparr>de_key = k, de_val = None\<rparr> # tab ! i) ht)
      \<lparr>ht_used := ht_used ht + 1\<rparr>) d"
  shows "dict_ok P d'" and "dict_map d' = (dict_map d)(k \<mapsto> None)" and "d_type d' = d_type d"
    and "ref_ok d' k (t, i, 0)" and "length (entries d') = Suc (length (entries d))"
proof -
  define e :: "('a, 'b) dictEntry" where "e = \<lparr>de_key = k, de_val = None\<rparr>"
  define u where "u = ht_used (ht_sel d t) + 1"
  have d'_upd: "d' = ht_upd t (\<lambda>ht. (set_bucket i (e # tab ! i) ht)\<lparr>ht_used := u\<rparr>) d"
    by (cases "t = 0") (simp_all add: d' e_def u_def ht_upd_def ht_sel_def)
  have "ht_ok (dictHashKey d) (ht_sel d t)" using ok by (simp add: dict_ok_def ht_sel_def)
  then have lt: "i < length tab" using tab unfolding i by (rule masked_index_lt)
  note b = dict_ok_bucket [OF ok tab]
  have eq: "mset (entries d') = add_mset e (mset (entries d))"
    using entries_bucket_update [OF tab lt, where es = "e # tab ! i" and u = u] by (simp add: d'_upd)
  have "de_key e \<notin> de_key ` set (entries d)" using new by (simp add: dict_map_None_iff e_def)
  moreover have "distinct (map de_key (entries d')) \<longleftrightarrow> distinct (map de_key (e # entries d))"
    by (rule mset_eq_imp_distinct_iff) (simp add: eq)
  ultimately have dist: "distinct (map de_key (entries d'))"
    using ok by (simp add: dict_ok_def)
  note c = emap_cons [OF eq dist]
  have "unat u = length (concat tab) + 1"
    using b(2,3) unfolding u_def by (subst unat_add64) simp_all
  then have u: "unat u = length (concat (tab[i := e # tab ! i]))"
    using length_concat_update [OF lt, of "e # tab ! i"] by simp
  have P: "\<forall>x \<in> set (entries d'). P (de_key x)"
    using c(5) k ok by (auto simp: dict_ok_def e_def)
  have hash: "unat (dictHashKey d (de_key x) AND ht_sizemask (ht_sel d t)) = i" if "x \<in> set (e # tab ! i)" for x
    using that b(1) [OF lt] i by (auto simp: e_def)
  have "dictIsRehashing d \<longleftrightarrow> t \<noteq> 0" using t by simp
  then show "dict_ok P d'"
    unfolding d'_upd using dist P c(6) room
    by (intro dict_ok_bucket_update [OF ok tab lt hash u]) (auto simp: d'_upd [symmetric])
  show "dict_map d' = (dict_map d)(k \<mapsto> None)" using c(3) by (simp add: dict_map_emap e_def)
  show "length (entries d') = Suc (length (entries d))" by (rule c(6))
  show "d_type d' = d_type d" by (simp add: d')
  show "ref_ok d' k (t, i, 0)"
    using tab lt by (cases "t = 0") (simp_all add: ref_ok_def d'_upd ht_upd_def ht_sel_def e_def)
qed

section \<open>The map interface\<close>

text \<open>What the table needs of its key type: on the keys in use, comparison is equality and duplicating a key gives an equal key.\<close>

locale dict_keys =
  fixes T :: "('k, 'v) dictType" and P :: "'k \<Rightarrow> bool"
  assumes compare_keys: "P a \<Longrightarrow> P b \<Longrightarrow> (case keyCompare T of Some cmp \<Rightarrow> cmp a b | None \<Rightarrow> a = b) \<longleftrightarrow> a = b"
    and dup_key: "P a \<Longrightarrow> (case keyDup T of Some dup \<Rightarrow> dup a | None \<Rightarrow> a) = a"
begin

lemma chain_find_ok:
  assumes "d_type d = T" and "P k" and "\<forall>e \<in> set es. P (de_key e)"
  shows "case chain_find d k es of
      None \<Rightarrow> k \<notin> de_key ` set es
    | Some j \<Rightarrow> j < length es \<and> de_key (es ! j) = k"
  using assms(3)
proof (induction es)
  case (Cons e es)
  have "dictCompareKeys d k (de_key e) \<longleftrightarrow> k = de_key e"
    using Cons.prems assms(1,2) by (simp add: dictCompareKeys_def compare_keys)
  with Cons show ?case by (auto split: option.splits)
qed simp

lemma bucket_search:
  assumes ok: "dict_ok P d" and T: "d_type d = T" and k: "P k" and tab: "ht_table (ht_sel d t) = Some tab"
  defines "i \<equiv> unat (dictHashKey d k AND ht_sizemask (ht_sel d t))"
  shows "bucket (ht_sel d t) i = Inr (tab ! i) \<and>
    (case chain_find d k (tab ! i) of
      None \<Rightarrow> k \<notin> de_key ` set (ht_entries (ht_sel d t))
    | Some j \<Rightarrow> ref_ok d k (t, i, j))"
proof -
  have "ht_ok (dictHashKey d) (ht_sel d t)" using ok by (simp add: dict_ok_def ht_sel_def)
  then have lt: "i < length tab" and b: "bucket (ht_sel d t) i = Inr (tab ! i)"
    using tab unfolding i_def by (rule masked_index_lt, rule bucket_masked)
  have Ps: "\<forall>e \<in> set (tab ! i). P (de_key e)"
    using bucket_subset_entries [OF tab lt] ok by (auto simp: dict_ok_def)
  have only: "e \<in> set (tab ! i)" if "e \<in> set (ht_entries (ht_sel d t))" "de_key e = k" for e
  proof -
    have "e \<in> set (concat tab)" using that(1) tab by simp
    then obtain c where "c \<in> set tab" "e \<in> set c" by auto
    then obtain j where j: "j < length tab" "e \<in> set (tab ! j)" by (metis in_set_conv_nth)
    then have "j = i" using dict_ok_bucket(1) [OF ok tab j] that(2) by (simp add: i_def)
    with j show ?thesis by simp
  qed
  show ?thesis
    using chain_find_ok [OF T k Ps] b only tab lt
    by (auto simp: ref_ok_def split: option.splits)
qed

lemma search_tables_ok:
  assumes ok: "dict_ok P d" and T: "d_type d = T" and k: "P k" and some: "ht_table (ht0 d) \<noteq> None"
  shows "\<exists>r. search_tables d k (dictHashKey d k) = Inr r \<and>
    (case r of None \<Rightarrow> dict_map d k = None | Some x \<Rightarrow> ref_ok d k x)"
proof -
  obtain t0 where t0: "ht_table (ht_sel d 0) = Some t0" using some by (auto simp: ht_sel_def)
  note s0 = bucket_search [OF ok T k t0, simplified ht_sel_def, simplified]
  show ?thesis
  proof (cases "chain_find d k (t0 ! unat (dictHashKey d k AND ht_sizemask (ht0 d)))")
    case (Some j)
    with s0 show ?thesis by (simp add: search_tables_def Let_def)
  next
    case None
    show ?thesis
    proof (cases "dictIsRehashing d")
      case False
      then have "ht1 d = dictReset" using ok by (simp add: dict_ok_def)
      then have "dict_map d k = None" using s0 None by (simp add: dict_map_None_iff entries_def)
      with s0 None False show ?thesis by (simp add: search_tables_def Let_def)
    next
      case True
      then obtain t1 where t1: "ht_table (ht_sel d 1) = Some t1" using ok by (auto simp: dict_ok_def ht_sel_def)
      note s1 = bucket_search [OF ok T k t1, simplified ht_sel_def, simplified]
      with s0 None True show ?thesis
        by (auto simp: search_tables_def Let_def dict_map_None_iff entries_def split: option.splits)
    qed
  qed
qed
end

lemma dictKeyIndex_search:
  assumes "dictExpandIfNeeded c d = (DICT_OK, d1)"
  shows "dictKeyIndex c d key h =
    bindE (search_tables d1 key h) (\<lambda>r. Inr (case r of
        Some x \<Rightarrow> Existing x
      | None \<Rightarrow> NewIndex (unat (h AND ht_sizemask (ht_sel d1 (if dictIsRehashing d1 then 1 else 0)))), d1))"
  using assms
  by (cases "bucket (ht0 d1) (unat (h AND ht_sizemask (ht0 d1)))";
      cases "bucket (ht1 d1) (unat (h AND ht_sizemask (ht1 d1)))")
    (auto simp: dictKeyIndex_def search_tables_def Let_def ht_sel_def split: option.splits)

lemma length_entries_card:
  assumes "dict_ok P d"
  shows "length (entries d) = card (dom (dict_map d))"
proof -
  have "dom (dict_map d) = set (map de_key (entries d))"
    by (force simp: dom_def dict_map_None_iff image_iff simp flip: not_None_eq)
  then show ?thesis
    using assms distinct_card [of "map de_key (entries d)"] by (simp add: dict_ok_def)
qed

lemma used_entries_empty:
  assumes "dict_ok P d"
  shows "ht_used (ht0 d) = 0 \<and> ht_used (ht1 d) = 0 \<longleftrightarrow> entries d = []"
    and "ht_used (ht0 d) + ht_used (ht1 d) = 0 \<longleftrightarrow> entries d = []"
    and "unat (ht_used (ht0 d) + ht_used (ht1 d)) = length (entries d)"
proof -
  have eq: "unat (ht_used (ht0 d)) = length (ht_entries (ht0 d))"
    "unat (ht_used (ht1 d)) = length (ht_entries (ht1 d))"
    using assms by (simp_all add: dict_ok_def ht_used_entries [of "dictHashKey d"])
  then show "ht_used (ht0 d) = 0 \<and> ht_used (ht1 d) = 0 \<longleftrightarrow> entries d = []"
    by (metis append_is_Nil_conv entries_def length_0_conv unat_eq_zero)
  show sum: "unat (ht_used (ht0 d) + ht_used (ht1 d)) = length (entries d)"
    using eq assms by (subst unat_add64) (simp_all add: dict_ok_def entries_def)
  then show "ht_used (ht0 d) + ht_used (ht1 d) = 0 \<longleftrightarrow> entries d = []"
    by (metis length_0_conv unat_eq_zero)
qed

lemma entries_table:
  assumes "dict_ok P d" and "entries d \<noteq> []"
  shows "ht_table (ht0 d) \<noteq> None"
  using assms by (cases "dictIsRehashing d") (auto simp: dict_ok_def entries_def)

context dict_keys
begin

lemma dictAddRaw_ok:
  assumes ok: "dict_ok P d" and T: "d_type d = T" and k: "P k"
    and room: "card (dom (dict_map d)) + 1 < 4611686018427387904"
  shows "\<exists>ent ex d'. dictAddRaw c d k = Inr (ent, ex, d') \<and> dict_ok P d' \<and> d_type d' = T \<and>
    (case dict_map d k of
       None \<Rightarrow> (\<exists>r. ent = Some r \<and> ref_ok d' k r) \<and> ex = None \<and> dict_map d' = (dict_map d)(k \<mapsto> None)
     | Some _ \<Rightarrow> ent = None \<and> (\<exists>r. ex = Some r \<and> ref_ok d' k r) \<and> dict_map d' = dict_map d)"
proof -
  obtain d1 where d1: "rehash_if_needed d = Inr d1" "dict_ok P d1" "dict_sim d d1"
    using ok by (rule rehash_if_needed_ok)
  obtain d2 where d2: "dictExpandIfNeeded c d1 = (DICT_OK, d2)" "dict_ok P d2" "dict_sim d1 d2"
    "ht_table (ht0 d2) \<noteq> None"
    using d1(2) by (rule dictExpandIfNeeded_ok)
  have sim: "dict_sim d d2" using d1(3) d2(3) by (rule dict_sim_trans)
  then have T2: "d_type d2 = T" and m2: "dict_map d2 = dict_map d"
    using T ok by (simp_all add: dict_sim_def dict_sim_map)
  have h: "dictHashKey d1 k = dictHashKey d2 k"
    using d2(3) by (simp add: dict_sim_def dictHashKey_def)
  obtain r where r: "search_tables d2 k (dictHashKey d2 k) = Inr r"
    "case r of None \<Rightarrow> dict_map d2 k = None | Some x \<Rightarrow> ref_ok d2 k x"
    using search_tables_ok [OF d2(2) T2 k d2(4)] by blast
  show ?thesis
  proof (cases r)
    case (Some x)
    then have "ref_ok d2 k x" using r(2) by simp
    with ref_ok_entry [OF this d2(2)] show ?thesis
      using d1(1) r(1) Some d2(2) T2 m2 by (auto simp: dictAddRaw_def dictKeyIndex_search [OF d2(1)] h)
  next
    case None
    then have new: "dict_map d2 k = None" using r(2) by simp
    define t :: nat where "t = (if dictIsRehashing d2 then 1 else 0)"
    obtain tab where tab: "ht_table (ht_sel d2 t) = Some tab"
      using d2(2,4) by (cases "dictIsRehashing d2") (auto simp: t_def ht_sel_def dict_ok_def)
    define i where "i = unat (dictHashKey d2 k AND ht_sizemask (ht_sel d2 t))"
    define d3 where "d3 = ht_upd t (\<lambda>ht. (set_bucket i (\<lparr>de_key = k, de_val = None\<rparr> # tab ! i) ht)
      \<lparr>ht_used := ht_used ht + 1\<rparr>) d2"
    have room2: "length (entries d2) + 1 < 4611686018427387904"
      using room length_entries_card [OF d2(2)] m2 by simp
    note ins = insert_entry_ok [OF d2(2) tab i_def t_def new k room2 d3_def]
    have "bucket (ht_sel d2 t) i = Inr (tab ! i)"
      using bucket_search [OF d2(2) T2 k tab] by (simp add: i_def)
    moreover have "dictSetKey d2 k = k" using dup_key [OF k] T2 by (simp add: dictSetKey_def)
    ultimately have "dictAddRaw c d k = Inr (Some (t, i, 0), None, d3)"
      using d1(1) r(1) None
      by (simp add: dictAddRaw_def dictKeyIndex_search [OF d2(1)] h Let_def d3_def
          t_def [symmetric] i_def [symmetric])
    then show ?thesis using ins new m2 T2 by auto
  qed
qed
end

text \<open>Requests on a table, what the code answers, and what a map from keys to stored values answers.\<close>

datatype ('k, 'v) dict_op =
    Add 'k 'v | Replace 'k 'v | Delete 'k | Fetch 'k | Rehash nat | Resize

datatype 'v dict_ans = AStatus dict_status | AFlag bool | AValue "'v option" | ANone

definition exec_dict_op ::
  "bool \<Rightarrow> ('k, 'v) dict_op \<Rightarrow> ('k, 'v) dict \<Rightarrow> ('v dict_ans \<times> ('k, 'v) dict) res" where
  "exec_dict_op c op d =
     (case op of
        Add k v \<Rightarrow> bindE (dictAdd c d k v) (\<lambda>(st, d'). Inr (AStatus st, d'))
      | Replace k v \<Rightarrow> bindE (dictReplace c d k v) (\<lambda>(b, d'). Inr (AFlag b, d'))
      | Delete k \<Rightarrow> bindE (dictDelete d k) (\<lambda>(st, d'). Inr (AStatus st, d'))
      | Fetch k \<Rightarrow> bindE (dictFetchValue d k) (\<lambda>(v, d'). Inr (AValue v, d'))
      | Rehash n \<Rightarrow> bindE (dictRehash d n) (\<lambda>(b, d'). Inr (ANone, d'))
      | Resize \<Rightarrow> Inr (ANone, snd (dictResize c d)))"

definition spec_dict_op ::
  "('v \<Rightarrow> 'v) \<Rightarrow> ('k, 'v) dict_op \<Rightarrow> ('k \<rightharpoonup> 'v option) \<Rightarrow> 'v dict_ans \<times> ('k \<rightharpoonup> 'v option)" where
  "spec_dict_op vdup op m =
     (case op of
        Add k v \<Rightarrow> if m k = None then (AStatus DICT_OK, m(k \<mapsto> Some (vdup v))) else (AStatus DICT_ERR, m)
      | Replace k v \<Rightarrow> (AFlag (m k = None), m(k \<mapsto> Some (vdup v)))
      | Delete k \<Rightarrow> (AStatus (if m k = None then DICT_ERR else DICT_OK), m(k := None))
      | Fetch k \<Rightarrow> (AValue (Option.bind (m k) id), m)
      | Rehash n \<Rightarrow> (ANone, m)
      | Resize \<Rightarrow> (ANone, m))"

fun exec_dict_ops ::
  "bool \<Rightarrow> ('k, 'v) dict_op list \<Rightarrow> ('k, 'v) dict \<Rightarrow> ('v dict_ans list \<times> ('k, 'v) dict) res" where
  "exec_dict_ops c [] d = Inr ([], d)"
| "exec_dict_ops c (op # ops) d =
     bindE (exec_dict_op c op d) (\<lambda>(a, d1).
     bindE (exec_dict_ops c ops d1) (\<lambda>(as, d2). Inr (a # as, d2)))"

fun spec_dict_ops ::
  "('v \<Rightarrow> 'v) \<Rightarrow> ('k, 'v) dict_op list \<Rightarrow> ('k \<rightharpoonup> 'v option) \<Rightarrow> 'v dict_ans list \<times> ('k \<rightharpoonup> 'v option)" where
  "spec_dict_ops vdup [] m = ([], m)"
| "spec_dict_ops vdup (op # ops) m =
     (case spec_dict_op vdup op m of (a, m1) \<Rightarrow>
       (case spec_dict_ops vdup ops m1 of (as, m2) \<Rightarrow> (a # as, m2)))"

fun op_keys :: "('k, 'v) dict_op \<Rightarrow> 'k set" where
  "op_keys (Add k v) = {k}"
| "op_keys (Replace k v) = {k}"
| "op_keys (Delete k) = {k}"
| "op_keys (Fetch k) = {k}"
| "op_keys (Rehash n) = {}"
| "op_keys Resize = {}"

lemma dictResize_ok:
  assumes "dict_ok P d"
  shows "dict_ok P (snd (dictResize c d))" and "dict_sim d (snd (dictResize c d))"
proof -
  define m :: u32 where "m = ucast (ht_used (ht0 d))"
  define m' where "m' = (if sint m < 4 then 4 else m)"
  have "unat m' < 2147483648"
  proof (cases "sint m < 4")
    case False
    then have "unat m < 2147483648"
    proof (rule contrapos_np)
      assume "\<not> unat m < 2147483648"
      obtain n where n: "unat m = n" "uint m = int n" by (rule uint_unatE)
      show "sint m < 4"
        using sint32_neg [of m] unat_lt32 [of m] \<open>\<not> unat m < 2147483648\<close> unfolding n by linarith
    qed
    with False show ?thesis by (simp add: m'_def)
  qed (simp add: m'_def)
  then have small: "unat (size_of_int32 m') < 9223372036854775807" by (simp add: unat_size_of_int32)
  obtain st d' where e: "dictExpand d (size_of_int32 m') = (st, d')" by (cases "dictExpand d (size_of_int32 m')")
  have "dictResize c d = (if \<not> c \<or> dictIsRehashing d then (DICT_ERR, d) else (st, d'))"
    by (simp add: dictResize_def Let_def m_def [symmetric] m'_def [symmetric] e)
  with dictExpand_ok [OF assms small e] assms
  show "dict_ok P (snd (dictResize c d))" and "dict_sim d (snd (dictResize c d))" by simp_all
qed

lemma spec_dict_op_card:
  assumes "spec_dict_op vdup op m = (a, m')" and "finite (dom m)"
  shows "card (dom m') \<le> Suc (card (dom m))"
proof -
  have "\<exists>k. dom m' \<subseteq> insert k (dom m)"
    using assms(1) by (cases op) (auto simp: spec_dict_op_def split: if_splits)
  then obtain k where "dom m' \<subseteq> insert k (dom m)" by blast
  then have "card (dom m') \<le> card (insert k (dom m))" using assms(2) by (intro card_mono) simp_all
  also have "\<dots> \<le> Suc (card (dom m))" using assms(2) by (simp add: card_insert_if)
  finally show ?thesis .
qed

text \<open>The value stored for an argument: its duplicate where the type has a duplication function.\<close>

definition value_dup :: "('k, 'v) dictType \<Rightarrow> 'v \<Rightarrow> 'v" where
  "value_dup T v = (case valDup T of Some dup \<Rightarrow> dup v | None \<Rightarrow> v)"

lemma dictSetVal_dup: "dictSetVal d = value_dup (d_type d)"
  by (simp add: dictSetVal_def value_dup_def fun_eq_iff)

context dict_keys
begin

lemma rehash_search:
  assumes ok: "dict_ok P d" and T: "d_type d = T" and k: "P k" and some: "entries d \<noteq> []"
  obtains d1 r where "rehash_if_needed d = Inr d1" "dict_ok P d1" "d_type d1 = T" "dict_map d1 = dict_map d"
    "search_tables d1 k (dictHashKey d1 k) = Inr r"
    "case r of None \<Rightarrow> dict_map d1 k = None | Some x \<Rightarrow> ref_ok d1 k x"
proof -
  obtain d1 where d1: "rehash_if_needed d = Inr d1" "dict_ok P d1" "dict_sim d d1"
    using ok by (rule rehash_if_needed_ok)
  have T1: "d_type d1 = T" and m1: "dict_map d1 = dict_map d" and "entries d1 \<noteq> []"
    using d1(3) T ok some by (auto simp: dict_sim_def dict_sim_map)
  then have "ht_table (ht0 d1) \<noteq> None" using d1(2) by (intro entries_table)
  with search_tables_ok [OF d1(2) T1 k] d1 T1 m1 that show ?thesis by blast
qed

lemma dictGenericDelete_ok:
  assumes ok: "dict_ok P d" and T: "d_type d = T" and k: "P k"
  shows "\<exists>he d'. dictGenericDelete d k = Inr (he, d') \<and> dict_ok P d' \<and> d_type d' = T \<and>
    dict_map d' = (dict_map d)(k := None) \<and> map_option de_val he = dict_map d k \<and>
    (\<forall>e. he = Some e \<longrightarrow> de_key e = k)"
proof (cases "entries d = []")
  case True
  then have "dict_map d = (\<lambda>_. None)" by (simp add: dict_map_def fun_eq_iff)
  with True ok T show ?thesis
    using used_entries_empty(1) [OF ok] by (auto simp: dictGenericDelete_def)
next
  case False
  obtain d1 r where d1: "rehash_if_needed d = Inr d1" "dict_ok P d1" "d_type d1 = T" "dict_map d1 = dict_map d"
    "search_tables d1 k (dictHashKey d1 k) = Inr r"
    and r: "case r of None \<Rightarrow> dict_map d1 k = None | Some x \<Rightarrow> ref_ok d1 k x"
    using ok T k False by (rule rehash_search)
  have run: "dictGenericDelete d k =
      (case r of None \<Rightarrow> Inr (None, d1) | Some he \<Rightarrow> Inr (entry_at d1 he, unlink_entry he d1))"
    using False used_entries_empty(1) [OF ok] d1(1,5) by (auto simp: dictGenericDelete_def)
  show ?thesis
  proof (cases r)
    case None
    with r d1 have "dict_map d k = None" by simp
    then show ?thesis using run None d1 by (auto simp: fun_upd_idem)
  next
    case (Some x)
    with r have "ref_ok d1 k x" by simp
    with ref_ok_entry [OF this d1(2)] unlink_entry_ok [OF d1(2) this] run Some d1
    show ?thesis by auto
  qed
qed

lemma dictFind_ok:
  assumes ok: "dict_ok P d" and T: "d_type d = T" and k: "P k"
  shows "\<exists>r d'. dictFind d k = Inr (r, d') \<and> dict_ok P d' \<and> d_type d' = T \<and> dict_map d' = dict_map d \<and>
    (case r of None \<Rightarrow> dict_map d k = None | Some x \<Rightarrow> ref_ok d' k x)"
proof (cases "entries d = []")
  case True
  then have "dict_map d = (\<lambda>_. None)" by (simp add: dict_map_def fun_eq_iff)
  with True ok T show ?thesis
    using used_entries_empty(2) [OF ok] by (auto simp: dictFind_def)
next
  case False
  obtain d1 r where "rehash_if_needed d = Inr d1" "dict_ok P d1" "d_type d1 = T" "dict_map d1 = dict_map d"
    "search_tables d1 k (dictHashKey d1 k) = Inr r"
    "case r of None \<Rightarrow> dict_map d1 k = None | Some x \<Rightarrow> ref_ok d1 k x"
    using ok T k False by (rule rehash_search)
  with False used_entries_empty(2) [OF ok] show ?thesis
    by (intro exI [of _ r] exI [of _ d1]) (auto simp: dictFind_def split: option.splits)
qed

lemma dictFetchValue_ok:
  assumes ok: "dict_ok P d" and T: "d_type d = T" and k: "P k"
  shows "\<exists>d'. dictFetchValue d k = Inr (Option.bind (dict_map d k) id, d') \<and> dict_ok P d' \<and> d_type d' = T \<and>
    dict_map d' = dict_map d"
proof -
  obtain r d' where f: "dictFind d k = Inr (r, d')" "dict_ok P d'" "d_type d' = T" "dict_map d' = dict_map d"
    "case r of None \<Rightarrow> dict_map d k = None | Some x \<Rightarrow> ref_ok d' k x"
    using dictFind_ok [OF assms] by blast
  show ?thesis
  proof (cases r)
    case (Some x)
    then show ?thesis using f ref_ok_entry [OF _ f(2), of k x] by (auto simp: dictFetchValue_def)
  qed (use f in \<open>simp add: dictFetchValue_def\<close>)
qed

lemma dictAdd_ok:
  assumes ok: "dict_ok P d" and T: "d_type d = T" and k: "P k"
    and room: "card (dom (dict_map d)) + 1 < 4611686018427387904"
  shows "\<exists>d'. dictAdd c d k v = Inr (if dict_map d k = None then DICT_OK else DICT_ERR, d') \<and>
    dict_ok P d' \<and> d_type d' = T \<and>
    dict_map d' = (if dict_map d k = None then (dict_map d)(k \<mapsto> Some (value_dup T v)) else dict_map d)"
proof (cases "dict_map d k")
  case None
  then obtain r d1 where "dictAddRaw c d k = Inr (Some r, None, d1)" "dict_ok P d1" "d_type d1 = T"
    "ref_ok d1 k r" "dict_map d1 = (dict_map d)(k \<mapsto> None)"
    using dictAddRaw_ok [OF assms, of c] by auto
  with None set_entry_val_ok [OF this(2,4), of v] show ?thesis
    by (simp add: dictAdd_def dictSetVal_dup)
next
  case (Some w)
  then show ?thesis using dictAddRaw_ok [OF assms, of c] by (auto simp: dictAdd_def)
qed

lemma dictReplace_ok:
  assumes ok: "dict_ok P d" and T: "d_type d = T" and k: "P k"
    and room: "card (dom (dict_map d)) + 1 < 4611686018427387904"
  shows "\<exists>d'. dictReplace c d k v = Inr (dict_map d k = None, d') \<and>
    dict_ok P d' \<and> d_type d' = T \<and> dict_map d' = (dict_map d)(k \<mapsto> Some (value_dup T v))"
proof (cases "dict_map d k")
  case None
  then obtain r d1 where "dictAddRaw c d k = Inr (Some r, None, d1)" "dict_ok P d1" "d_type d1 = T"
    "ref_ok d1 k r" "dict_map d1 = (dict_map d)(k \<mapsto> None)"
    using dictAddRaw_ok [OF assms, of c] by auto
  with None set_entry_val_ok [OF this(2,4), of v] show ?thesis
    by (simp add: dictReplace_def dictSetVal_dup)
next
  case (Some w)
  then obtain r d1 where "dictAddRaw c d k = Inr (None, Some r, d1)" "dict_ok P d1" "d_type d1 = T"
    "ref_ok d1 k r" "dict_map d1 = dict_map d"
    using dictAddRaw_ok [OF assms, of c] by auto
  with Some set_entry_val_ok [OF this(2,4), of v] show ?thesis
    by (simp add: dictReplace_def dictSetVal_dup)
qed

lemma exec_dict_op_refines:
  assumes ok: "dict_ok P d" and T: "d_type d = T" and k: "op_keys op \<subseteq> Collect P"
    and room: "card (dom (dict_map d)) + 1 < 4611686018427387904"
    and s: "spec_dict_op (value_dup T) op (dict_map d) = (a, m')"
  shows "\<exists>d'. exec_dict_op c op d = Inr (a, d') \<and> dict_ok P d' \<and> d_type d' = T \<and> dict_map d' = m'"
proof (cases op)
  case (Add k' v)
  then show ?thesis
    using dictAdd_ok [OF ok T _ room, of k' c v] k s
    by (auto simp: exec_dict_op_def spec_dict_op_def split: if_splits)
next
  case (Replace k' v)
  then show ?thesis
    using dictReplace_ok [OF ok T _ room, of k' c v] k s
    by (auto simp: exec_dict_op_def spec_dict_op_def)
next
  case (Delete k')
  then obtain he d' where del: "dictGenericDelete d k' = Inr (he, d')" "dict_ok P d'" "d_type d' = T"
    "dict_map d' = (dict_map d)(k' := None)" "map_option de_val he = dict_map d k'"
    using dictGenericDelete_ok [OF ok T, of k'] k by auto
  from del(5) have "he = None \<longleftrightarrow> dict_map d k' = None" by (metis option.map_disc_iff)
  with del Delete s show ?thesis
    by (simp add: exec_dict_op_def spec_dict_op_def dictDelete_def)
next
  case (Fetch k')
  then show ?thesis
    using dictFetchValue_ok [OF ok T, of k'] k s
    by (auto simp: exec_dict_op_def spec_dict_op_def)
next
  case (Rehash n)
  obtain b d' where "dictRehash d n = Inr (b, d')" "dict_ok P d'" "dict_sim d d'"
    using ok by (rule dictRehash_ok)
  then show ?thesis
    using Rehash s T dict_sim_map [OF _ ok, of d']
    by (simp add: exec_dict_op_def spec_dict_op_def dict_sim_def)
next
  case Resize
  then show ?thesis
    using dictResize_ok [OF ok, of c] s T dict_sim_map [OF _ ok, of "snd (dictResize c d)"]
    by (simp add: exec_dict_op_def spec_dict_op_def dict_sim_def)
qed

lemma exec_dict_ops_refine:
  assumes "dict_ok P d" and "d_type d = T" and "(\<Union>op \<in> set ops. op_keys op) \<subseteq> Collect P"
    and "card (dom (dict_map d)) + length ops < 4611686018427387904"
    and "spec_dict_ops (value_dup T) ops (dict_map d) = (as, m')"
  shows "\<exists>d'. exec_dict_ops c ops d = Inr (as, d') \<and> dict_ok P d' \<and> d_type d' = T \<and> dict_map d' = m'"
  using assms
proof (induction ops arbitrary: d as)
  case (Cons op ops)
  obtain a m1 where s: "spec_dict_op (value_dup T) op (dict_map d) = (a, m1)"
    by (cases "spec_dict_op (value_dup T) op (dict_map d)")
  obtain as' where as: "as = a # as'" "spec_dict_ops (value_dup T) ops m1 = (as', m')"
    using Cons.prems(5) s by (auto split: prod.splits)
  obtain d1 where d1: "exec_dict_op c op d = Inr (a, d1)" "dict_ok P d1" "d_type d1 = T" "dict_map d1 = m1"
    using exec_dict_op_refines [OF Cons.prems(1,2) _ _ s, of c] Cons.prems(3,4) by auto
  have "card (dom m1) \<le> Suc (card (dom (dict_map d)))"
    by (rule spec_dict_op_card [OF s]) (simp add: dict_map_def finite_dom_map_of)
  then show ?case
    using Cons.IH [OF d1(2,3), of as'] Cons.prems(3,4) as d1 by auto
qed auto
end

section \<open>The key types of the sources\<close>

definition int_key :: "bytes \<Rightarrow> bool" where
  "int_key k \<longleftrightarrow> length k = 4"

definition string_key :: "bytes \<Rightarrow> bool" where
  "string_key k \<longleftrightarrow> (\<exists>s. k = s @ [0] \<and> 0 \<notin> set s \<and> length s < 2147483648)"

lemma c_str_string: "0 \<notin> set s \<Longrightarrow> c_str (s @ [0]) = s"
  by (induction s) (auto simp: c_str_def)

lemma compareCallbackString_eq:
  assumes "string_key a" and "string_key b"
  shows "compareCallbackString a b \<longleftrightarrow> a = b"
proof -
  obtain s where s: "a = s @ [0]" "0 \<notin> set s" "length s < 2147483648"
    using assms(1) by (auto simp: string_key_def)
  obtain t where t: "b = t @ [0]" "0 \<notin> set t" "length t < 2147483648"
    using assms(2) by (auto simp: string_key_def)
  have len: "unat (of_nat (length s) :: u32) = length s" "unat (of_nat (length t) :: u32) = length t"
    using s(3) t(3) by (simp_all add: unat_of_nat32)
  then have "(of_nat (length s) :: u32) = of_nat (length t) \<longleftrightarrow> length s = length t" by metis
  moreover have "unat (size_of_int32 (of_nat (length s))) = length s"
    using len(1) s(3) by (simp add: unat_size_of_int32)
  ultimately show ?thesis
    using s t by (auto simp: compareCallbackString_def Let_def c_str_string)
qed

interpretation int_string: dict_keys "IntStringDictType seed alloc mem" int_key for seed alloc mem
  by unfold_locales (auto simp: IntStringDictType_def int_key_def compareCallbackInt_def keyDupInt_def)

interpretation int_int: dict_keys "IntIntDictType seed alloc mem" int_key for seed alloc mem
  by unfold_locales (auto simp: IntIntDictType_def int_key_def compareCallbackInt_def keyDupInt_def)

interpretation int_ptr: dict_keys "IntDictType seed" int_key for seed
  by unfold_locales (auto simp: IntDictType_def int_key_def compareCallbackInt_def keyDupInt_def)

lemma keyDupString_string: "string_key a \<Longrightarrow> keyDupString a = a"
  by (auto simp: string_key_def keyDupString_def c_str_string)

interpretation string_string: dict_keys "StringStringDictType seed alloc mem" string_key for seed alloc mem
  by unfold_locales (simp_all add: StringStringDictType_def compareCallbackString_eq keyDupString_string)

interpretation string_int: dict_keys "StringIntDictType seed alloc mem" string_key for seed alloc mem
  by unfold_locales (simp_all add: StringIntDictType_def compareCallbackString_eq keyDupString_string)

interpretation string_ptr: dict_keys "StringDictType seed" string_key for seed
  by unfold_locales (simp_all add: StringDictType_def compareCallbackString_eq keyDupString_string)

definition key_ok :: "int \<Rightarrow> bytes \<Rightarrow> bool" where
  "key_ok key_type = (if key_type = INT_DICT then int_key else string_key)"

lemma dictInit_ok: "dict_ok P (dictInit T)" "d_type (dictInit T) = T" "dict_map (dictInit T) = (\<lambda>_. None)"
  by (simp_all add: dict_ok_def dictInit_def entries_def dict_map_def dictIsRehashing_def fun_eq_iff)

lemma dictCreate_cases:
  assumes "dictCreate seed alloc mem key_type value_type = Some d"
  obtains T where "d = dictInit T" "dict_keys T (key_ok key_type)"
proof -
  note ax = int_string.dict_keys_axioms int_int.dict_keys_axioms int_ptr.dict_keys_axioms
    string_string.dict_keys_axioms string_int.dict_keys_axioms string_ptr.dict_keys_axioms
  have "\<exists>T. d = dictInit T \<and> dict_keys T (key_ok key_type)"
    using assms unfolding dictCreate_def key_ok_def
    by (auto simp: INT_DICT_def STRING_DICT_def split: if_splits intro: ax)
  with that show ?thesis by blast
qed

section \<open>Properties\<close>

text \<open>
  C2. For every kind of dictionary \<open>dictCreate\<close> makes, any sequence of \<open>dictAdd\<close>, \<open>dictReplace\<close>,
  \<open>dictDelete\<close>, \<open>dictFetchValue\<close>, \<open>dictRehash\<close> and \<open>dictResize\<close> calls on keys of its kind runs to
  the end without a failed assertion or an access outside a bucket array, and answers exactly what
  a finite map from keys to (duplicated) values answers, whatever the hash function's values and
  however far the incremental rehashing has come. The table that is left satisfies the invariant of
  the component, \<open>dict_ok\<close>, and has the kind it was made with.
\<close>

theorem dict_ops_refine_map:
  assumes "dictCreate seed alloc mem key_type value_type = Some d"
    and "\<forall>op \<in> set ops. \<forall>k \<in> op_keys op. key_ok key_type k"
    and "length ops < 4611686018427387904"
    and "spec_dict_ops (value_dup (d_type d)) ops (\<lambda>_. None) = (answers, m)"
  shows "\<exists>d'. exec_dict_ops can_resize ops d = Inr (answers, d') \<and> dict_map d' = m \<and>
    dict_ok (key_ok key_type) d' \<and> d_type d' = d_type d"
proof -
  obtain T where T: "d = dictInit T" "dict_keys T (key_ok key_type)"
    using assms(1) by (rule dictCreate_cases)
  from dict_keys.exec_dict_ops_refine [OF this(2), of d ops answers m can_resize] show ?thesis
    using assms(2-4) by (auto simp: T(1) dictInit_ok)
qed

theorem dict_ops_refine_map_witness:
  "\<exists>d'. exec_dict_ops True
      [Add [1, 0, 0, 0] (7::nat), Add [1, 0, 0, 0] 8, Replace [2, 0, 0, 0] 9, Rehash 1, Fetch [1, 0, 0, 0],
       Delete [1, 0, 0, 0], Resize, Fetch [1, 0, 0, 0], Fetch [2, 0, 0, 0]]
      (dictInit (IntDictType (replicate 16 0))) =
    Inr ([AStatus DICT_OK, AStatus DICT_ERR, AFlag True, ANone, AValue (Some 7), AStatus DICT_OK, ANone,
          AValue None, AValue (Some 9)], d') \<and>
    dict_map d' = [[2, 0, 0, 0] \<mapsto> Some 9] \<and> dict_ok (key_ok 1) d' \<and>
    d_type d' = d_type (dictInit (IntDictType (replicate 16 0)))"
  by (rule dict_ops_refine_map [where seed = "replicate 16 0" and alloc = "\<lambda>_. 0" and mem = "\<lambda>_. []"
        and key_type = 1 and value_type = 0])
    (auto simp: dictCreate_def INT_DICT_def STRING_DICT_def key_ok_def int_key_def spec_dict_op_def
      value_dup_def IntDictType_def dictInit_def)

section \<open>Progress of rehashing\<close>

lemma rehash_skip_advance:
  assumes "0 < ev" and "rehash_skip t i ev = Inr r"
  shows "case r of
      SkipFound j ev' \<Rightarrow> i \<le> j \<and> 0 < ev' \<and> ev' = ev - int (j - i)
    | SkipBudget j \<Rightarrow> int j = int i + ev"
  using assms
proof (induction t i ev rule: rehash_skip.induct)
  case (1 t i ev)
  show ?case
  proof (cases "i < length t \<and> t ! i = [] \<and> ev - 1 \<noteq> 0")
    case True
    then have "rehash_skip t (i + 1) (ev - 1) = Inr r"
      using 1(3) by (subst (asm) rehash_skip.simps) simp
    then show ?thesis
      using 1(1) True 1(2) by (fastforce split: skip_result.splits)
  next
    case False
    then show ?thesis
      using 1(2,3) by (subst (asm) rehash_skip.simps) (auto split: if_splits)
  qed
qed

lemma move_chain_size: "move_chain es d = Inr d' \<Longrightarrow> ht_size (ht0 d') = ht_size (ht0 d)"
proof (induction es arbitrary: d)
  case (Cons e es)
  then show ?case by (auto simp: Let_def bindE_Inr_iff dest!: Cons.IH)
qed simp

lemma rehash_loop_advance:
  assumes "dict_ok P d" and "dictIsRehashing d" and "0 < ev" and "rehash_loop n ev d = Inr (True, d')"
  shows "ht_size (ht0 d') = ht_size (ht0 d) \<and> ht_used (ht0 d') \<noteq> 0 \<and>
    rehashidx d + min (int n) ev \<le> rehashidx d'"
  using assms
proof (induction n arbitrary: ev d)
  case 0
  then show ?case by (auto simp: rehash_finish_def split: if_splits)
next
  case (Suc n)
  show ?case
  proof (cases "ht_used (ht0 d) = 0")
    case True
    with Suc.prems show ?thesis by (simp add: rehash_finish_def)
  next
    case False
    obtain t where t: "ht_table (ht0 d) = Some t" using Suc.prems by (auto simp: dict_ok_def)
    note idx = rehashidx_in_range [OF Suc.prems(1,2) False t]
    have pos: "0 \<le> rehashidx d" using Suc.prems(1,2) by (simp add: dict_ok_def)
    have below: "\<forall>j < nat (rehashidx d). t ! j = []" using idx(1,2) by auto
    note skip = rehash_skip_ok [OF idx(1) below, of ev]
    obtain s where s: "rehash_skip t (nat (rehashidx d)) ev = Inr s"
      using skip by (cases "rehash_skip t (nat (rehashidx d)) ev") auto
    note adv = rehash_skip_advance [OF Suc.prems(3) s]
    show ?thesis
    proof (cases s)
      case (SkipBudget i)
      then show ?thesis using Suc.prems(4) False t idx(3) s adv pos by auto
    next
      case (SkipFound i ev')
      with skip s have i: "i < length t" "\<forall>k < i. t ! k = []" by simp_all
      obtain d1 where d1: "move_chain (t ! i) d = Inr d1"
        "dict_ok P (d1\<lparr>ht0 := set_bucket i [] (ht0 d1), rehashidx := int i + 1\<rparr>)"
        "dictIsRehashing (d1\<lparr>ht0 := set_bucket i [] (ht0 d1), rehashidx := int i + 1\<rparr>)"
        using rehash_move_ok [OF Suc.prems(1) t Suc.prems(2) i] by blast
      have "ht_size (ht0 d1) = ht_size (ht0 d)" by (rule move_chain_size [OF d1(1)])
      then show ?thesis
        using Suc.IH [OF d1(2,3), of ev'] Suc.prems(4) False t idx(3) s SkipFound d1(1) adv pos
        by (auto simp: min_def split: if_splits)
    qed
  qed
qed

lemma dictRehash_advance:
  assumes ok: "dict_ok P d" and run: "dictRehash d n = Inr (True, d')" and n: "0 < n"
  shows "ht_size (ht0 d') = ht_size (ht0 d)" and "rehashidx d + int n \<le> rehashidx d'"
    and "rehashidx d' < int (unat (ht_size (ht0 d)))" and "0 \<le> rehashidx d"
proof -
  have r: "dictIsRehashing d" using run by (auto simp: dictRehash_def split: if_splits)
  then show "0 \<le> rehashidx d" using ok by (simp add: dict_ok_def)
  have loop: "rehash_loop n (int n * 10) d = Inr (True, d')" using run r by (simp add: dictRehash_def)
  have ev: "0 < int n * 10" using n by simp
  note adv = rehash_loop_advance [OF ok r ev loop]
  then show same: "ht_size (ht0 d') = ht_size (ht0 d)" and "rehashidx d + int n \<le> rehashidx d'"
    using n by (simp_all add: min_def)
  obtain d2 where d2: "Inr (True, d') = (Inr (True, d2) :: (bool \<times> _) res)" "dict_ok P d2" "dictIsRehashing d2"
    using rehash_loop_ok [OF ok r, of n "int n * 10"] loop by auto
  then have ok': "dict_ok P d'" "dictIsRehashing d'" by simp_all
  obtain t where t: "ht_table (ht0 d') = Some t" using ok' by (auto simp: dict_ok_def)
  have "length t = unat (ht_size (ht0 d'))" using ok' t by (auto simp: dict_ok_def ht_ok_def)
  moreover have "\<exists>j. nat (rehashidx d') \<le> j \<and> j < length t"
    using rehashidx_in_range(1) [OF ok' _ t] adv by blast
  ultimately show "rehashidx d' < int (unat (ht_size (ht0 d)))"
    unfolding same by linarith
qed

lemma rehash_ms_loop_ok:
  assumes "dict_ok P d" and "0 \<le> rehashes" and "unat (ht_size (ht0 d)) \<le> 2147483600"
    and "dictIsRehashing d \<Longrightarrow> rehashes \<le> rehashidx d"
    and "dictIsRehashing d \<Longrightarrow> int (unat (ht_size (ht0 d))) < rehashidx d + int fuel" and "0 < fuel"
  shows "\<exists>r d'. rehash_ms_loop fuel clock ms j rehashes d = Some (Inr (r, d')) \<and> dict_ok P d' \<and>
    dict_sim d d' \<and> ((\<forall>i. clock i - clock 0 \<le> ms) \<longrightarrow> \<not> dictIsRehashing d')"
  using assms
proof (induction fuel arbitrary: d rehashes j)
  case (Suc fuel)
  obtain b d1 where d1: "dictRehash d 100 = Inr (b, d1)" "dict_ok P d1" "dict_sim d d1"
    "b \<longleftrightarrow> dictIsRehashing d1"
    using Suc.prems(1) by (rule dictRehash_ok)
  show ?case
  proof (cases b)
    case False
    with d1 show ?thesis by (intro exI [of _ rehashes] exI [of _ d1]) simp
  next
    case True
    then have run: "dictRehash d 100 = Inr (True, d1)" and r: "dictIsRehashing d" "dictIsRehashing d1"
      using d1(1,4) by (auto simp: dictRehash_def split: if_splits)
    have adv: "ht_size (ht0 d1) = ht_size (ht0 d)" "rehashidx d + 100 \<le> rehashidx d1"
      "rehashidx d1 < int (unat (ht_size (ht0 d)))"
      using dictRehash_advance [OF Suc.prems(1) run] by simp_all
    have small: "rehashes + 100 \<le> 2147483600" "rehashes + 100 \<le> rehashidx d1"
      using adv(2,3) Suc.prems(3,4) r(1) by linarith+
    show ?thesis
    proof (cases "clock (Suc j) - clock 0 > ms")
      case True
      with run small d1 show ?thesis
        by (intro exI [of _ "rehashes + 100"] exI [of _ d1]) (auto simp: not_le intro!: exI [of _ "Suc j"])
    next
      case False
      have fuel: "int (unat (ht_size (ht0 d1))) < rehashidx d1 + int fuel" "0 < fuel"
        using adv Suc.prems(5) r(1) unfolding adv(1) by linarith+
      have "\<exists>r d'. rehash_ms_loop fuel clock ms (Suc j) (rehashes + 100) d1 = Some (Inr (r, d')) \<and>
          dict_ok P d' \<and> dict_sim d1 d' \<and> ((\<forall>i. clock i - clock 0 \<le> ms) \<longrightarrow> \<not> dictIsRehashing d')"
        using Suc.prems(2,3) adv(1) small fuel d1(2) by (intro Suc.IH) simp_all
      with run small False dict_sim_trans [OF d1(3)] show ?thesis by (auto simp: not_less)
    qed
  qed
qed simp

text \<open>
  C22. \<open>dictRehashMilliseconds\<close> ends after at most one round per bucket, with no failed assertion and
  no overflow of its counter, whatever the clock shows; the contents are unchanged, and if the time
  limit is not hit the rehashing is complete: all entries are in the new table.
\<close>

theorem dictRehashMilliseconds_completes:
  assumes "dict_ok P d" and "unat (ht_size (ht0 d)) \<le> 2147483600" and "unat (ht_size (ht0 d)) < fuel"
  shows "\<exists>r d'. dictRehashMilliseconds fuel clock d ms = Some (Inr (r, d')) \<and> dict_ok P d' \<and>
    dict_map d' = dict_map d \<and> ((\<forall>i. clock i - clock 0 \<le> ms) \<longrightarrow> \<not> dictIsRehashing d')"
proof -
  have "\<exists>r d'. rehash_ms_loop fuel clock ms 0 0 d = Some (Inr (r, d')) \<and> dict_ok P d' \<and>
    dict_sim d d' \<and> ((\<forall>i. clock i - clock 0 \<le> ms) \<longrightarrow> \<not> dictIsRehashing d')"
  proof (rule rehash_ms_loop_ok [OF assms(1)])
    show "int (unat (ht_size (ht0 d))) < rehashidx d + int fuel" if "dictIsRehashing d"
    proof -
      have "0 \<le> rehashidx d" using assms(1) that by (simp add: dict_ok_def)
      then show ?thesis using assms(3) by linarith
    qed
  qed (use assms in \<open>simp_all add: dict_ok_def\<close>)
  then show ?thesis
    using dict_sim_map [OF _ assms(1)] unfolding dictRehashMilliseconds_def by blast
qed

lemma rehash_example_ok:
  "dict_ok int_key ((dictInit (IntDictType []) :: (bytes, nat) dict)\<lparr>ht0 := fresh_ht 4, ht1 := fresh_ht 8, rehashidx := 0\<rparr>)"
  by (simp add: dict_ok_def entries_def dictIsRehashing_def fresh_ht_ok [of 2] fresh_ht_ok [of 3])

theorem dictRehashMilliseconds_completes_witness:
  "\<exists>r d'. dictRehashMilliseconds 5 (\<lambda>_. 0)
      ((dictInit (IntDictType []) :: (bytes, nat) dict)\<lparr>ht0 := fresh_ht 4, ht1 := fresh_ht 8, rehashidx := 0\<rparr>) 1 =
      Some (Inr (r, d')) \<and> \<not> dictIsRehashing d'"
  using dictRehashMilliseconds_completes [OF rehash_example_ok, where fuel = 5 and clock = "\<lambda>_. 0" and ms = 1]
  by auto

text \<open>
  \<open>_dictNextPower\<close> gives the least power of two that is at least 4 and at least the size asked
  for, for every size below \<open>LONG_MAX\<close>.
\<close>

lemma dictNextPower_least:
  assumes "unat sz < 9223372036854775807"
  shows "\<exists>k. unat (dictNextPower sz) = 2 ^ k \<and> 2 \<le> k \<and> unat sz \<le> 2 ^ k \<and>
    (\<forall>j. 2 \<le> j \<longrightarrow> unat sz \<le> 2 ^ j \<longrightarrow> k \<le> j)"
proof -
  obtain k where k: "2 \<le> k" "unat (dictNextPower sz) = 2 ^ k" "unat sz \<le> 2 ^ k"
    "k = 2 \<or> 2 ^ (k - 1) < unat sz"
    using assms by (rule dictNextPower_ge)
  have "k \<le> j" if "2 \<le> j" "unat sz \<le> 2 ^ j" for j
  proof (cases "k = 2")
    case False
    then have "(2::nat) ^ (k - 1) < 2 ^ j" using k(4) that(2) by linarith
    then have "k - 1 < j" by (rule power_less_imp_less_exp [rotated]) simp
    then show ?thesis by linarith
  qed (use that in simp)
  with k show ?thesis by blast
qed

lemma clear_chains_all:
  "unat u = length (concat t) \<Longrightarrow> length (concat t) < 18446744073709551616 \<Longrightarrow>
   clear_chains t u = length (concat t)"
proof (induction t arbitrary: u)
  case (Cons c t)
  have len: "unat (of_nat (length c) :: u64) = length c" using Cons.prems(2) by (intro unat_of_nat64) simp
  show ?case
  proof (cases "0 < u")
    case True
    have "unat (u - of_nat (length c)) = length (concat t)"
      using Cons.prems(1) len by (subst unat_diff_le) simp_all
    with True Cons show ?thesis by simp
  next
    case False
    then have "u = 0" using word_neq_0_conv by blast
    with Cons.prems show ?thesis by simp
  qed
qed simp

lemma dictClear_all: "ht_ok H ht \<Longrightarrow> fst (dictClear ht) = length (ht_entries ht)"
proof (cases "ht_table ht")
  case (Some t)
  moreover assume "ht_ok H ht"
  ultimately show ?thesis
    using ht_used_entries [of H ht] unat_lt64 [of "ht_used ht"]
    by (simp add: dictClear_def clear_chains_all)
qed (simp add: dictClear_def)

text \<open>
  Although \<open>_dictClear\<close> stops as soon as its counter reaches 0, \<open>dictRelease\<close> and \<open>dictEmpty\<close>
  free every entry of both tables exactly once, and \<open>dictEmpty\<close> leaves an empty dictionary that
  satisfies the invariant again.
\<close>

lemma dictRelease_frees_all:
  assumes "dict_ok P d"
  shows "dictRelease d = card (dom (dict_map d)) \<and> unat (dictSize d) = card (dom (dict_map d)) \<and>
    dict_ok P (dictEmpty d) \<and> dict_map (dictEmpty d) = (\<lambda>_. None)"
proof -
  have "dictRelease d = length (entries d)"
    using assms by (simp add: dictRelease_def dict_ok_def entries_def dictClear_all [of "dictHashKey d"])
  moreover have "dict_ok P (dictEmpty d) \<and> dict_map (dictEmpty d) = (\<lambda>_. None)"
    by (simp add: dict_ok_def dictEmpty_def dictClear_def entries_def dictIsRehashing_def dict_map_def fun_eq_iff)
  ultimately show ?thesis
    using length_entries_card [OF assms] used_entries_empty(3) [OF assms] by (simp add: dictSize_def)
qed

end
