(* ===== verification/Gp_Dict_Iter_Correct.thy ===== *)
theory Gp_Dict_Iter_Correct
  imports Gp_Dict_Iter Gp_Dict_Correct
begin

text \<open>
  Walking through the hash table: an iterator returns every entry once; the scan, whose cursor counts
  with its bits reversed, returns every key that stays in the table from its start to its end, however
  the table is resized and rehashed between the calls.
\<close>

section \<open>Reversing the bits of a word\<close>

lemma rev_loop_step:
  "s div 2 = s1 \<Longrightarrow> 0 < s1 \<Longrightarrow> m XOR push_bit s1 m = m1 \<Longrightarrow>
   rev_loop (Suc n) m s v = rev_loop n m1 s1 ((drop_bit s1 v AND m1) OR (push_bit s1 v AND NOT m1))"
  by (simp add: Let_def)

lemma rev_masks:
  "NOT 0 XOR push_bit 32 (NOT 0) = (0xFFFFFFFF :: u64)"
  "0xFFFFFFFF XOR push_bit 16 0xFFFFFFFF = (0xFFFF0000FFFF :: u64)"
  "0xFFFF0000FFFF XOR push_bit 8 0xFFFF0000FFFF = (0xFF00FF00FF00FF :: u64)"
  "0xFF00FF00FF00FF XOR push_bit 4 0xFF00FF00FF00FF = (0xF0F0F0F0F0F0F0F :: u64)"
  "0xF0F0F0F0F0F0F0F XOR push_bit 2 0xF0F0F0F0F0F0F0F = (0x3333333333333333 :: u64)"
  "0x3333333333333333 XOR push_bit 1 0x3333333333333333 = (0x5555555555555555 :: u64)"
  by code_simp+

text \<open>One step exchanges the bits at positions that differ in one binary digit.\<close>

definition partner :: "nat \<Rightarrow> nat \<Rightarrow> nat" where
  "partner s i = (if even (i div s) then i + s else i - s)"

definition swap_blocks :: "nat \<Rightarrow> u64 \<Rightarrow> u64 \<Rightarrow> u64" where
  "swap_blocks s m v = (drop_bit s v AND m) OR (push_bit s v AND NOT m)"

definition block_mask :: "nat \<Rightarrow> u64 \<Rightarrow> bool" where
  "block_mask s m \<longleftrightarrow> list_all (\<lambda>i. (bit m i \<longleftrightarrow> even (i div s)) \<and> partner s i < 64) [0..<64]"

lemma bit_swap_blocks:
  assumes "block_mask s m" and "i < 64"
  shows "bit (swap_blocks s m v) i \<longleftrightarrow> bit v (partner s i)" and "partner s i < 64"
proof -
  have m: "bit m i \<longleftrightarrow> even (i div s)" "partner s i < 64" using assms by (auto simp: block_mask_def list_all_iff)
  have "s \<le> i" if "odd (i div s)" using that by (cases "i < s") auto
  then show "bit (swap_blocks s m v) i \<longleftrightarrow> bit v (partner s i)"
    using m assms(2) by (auto simp: swap_blocks_def partner_def bit_simps add.commute)
  show "partner s i < 64" by (rule m(2))
qed

lemma block_masks:
  "block_mask 32 0xFFFFFFFF" "block_mask 16 0xFFFF0000FFFF" "block_mask 8 0xFF00FF00FF00FF"
  "block_mask 4 0xF0F0F0F0F0F0F0F" "block_mask 2 0x3333333333333333" "block_mask 1 0x5555555555555555"
  by code_simp+

lemma partners:
  assumes "i < 64"
  shows "partner 32 (partner 16 (partner 8 (partner 4 (partner 2 (partner 1 i))))) = 63 - i"
proof -
  have "list_all (\<lambda>i. partner 32 (partner 16 (partner 8 (partner 4 (partner 2 (partner 1 i))))) = 63 - i) [0..<64]"
    by (simp add: upt_rec) (simp add: partner_def)
  then show ?thesis using assms by (simp add: list_all_iff)
qed

lemma rev_bits_swaps:
  "rev_bits v = swap_blocks 1 0x5555555555555555 (swap_blocks 2 0x3333333333333333 (swap_blocks 4 0xF0F0F0F0F0F0F0F
     (swap_blocks 8 0xFF00FF00FF00FF (swap_blocks 16 0xFFFF0000FFFF (swap_blocks 32 0xFFFFFFFF v)))))"
proof -
  have seven: "(7 :: nat) = Suc (Suc (Suc (Suc (Suc (Suc (Suc 0))))))" by simp
  show ?thesis unfolding rev_bits_def seven
    by (subst rev_loop_step [of _ 32 _ "0xFFFFFFFF"], simp, simp, rule rev_masks,
        subst rev_loop_step [of _ 16 _ "0xFFFF0000FFFF"], simp, simp, rule rev_masks,
        subst rev_loop_step [of _ 8 _ "0xFF00FF00FF00FF"], simp, simp, rule rev_masks,
        subst rev_loop_step [of _ 4 _ "0xF0F0F0F0F0F0F0F"], simp, simp, rule rev_masks,
        subst rev_loop_step [of _ 2 _ "0x3333333333333333"], simp, simp, rule rev_masks,
        subst rev_loop_step [of _ 1 _ "0x5555555555555555"], simp, simp, rule rev_masks)
      (simp add: swap_blocks_def)
qed

text \<open>\<open>rev\<close> is the reversal of the 64 bits.\<close>

lemma bit_rev_bits: "bit (rev_bits v) i \<longleftrightarrow> i < 64 \<and> bit v (63 - i)"
proof (cases "i < 64")
  case True
  note b = bit_swap_blocks
  have "bit (rev_bits v) i = bit v (partner 32 (partner 16 (partner 8 (partner 4 (partner 2 (partner 1 i))))))"
    unfolding rev_bits_swaps using True by (simp only: b [OF block_masks(1)] b [OF block_masks(2)]
        b [OF block_masks(3)] b [OF block_masks(4)] b [OF block_masks(5)] b [OF block_masks(6)])
  then show ?thesis using True partners [OF True] by simp
next
  case False
  then show ?thesis using bit_imp_le_length [of "rev_bits v" i] by auto
qed

lemma rev_bits_rev_bits [simp]: "rev_bits (rev_bits v) = v"
  by (rule bit_word_eqI) (auto simp: bit_rev_bits)

lemma rev_bits_or: "rev_bits (v OR w) = rev_bits v OR rev_bits w"
  by (rule bit_word_eqI) (auto simp: bit_rev_bits bit_simps)

lemma rev_bits_not_mask: "k \<le> 64 \<Longrightarrow> rev_bits (NOT (mask k)) = mask (64 - k)"
  by (rule bit_word_eqI) (auto simp: bit_rev_bits bit_simps)

lemma rev_bits_0 [simp]: "rev_bits 0 = 0"
  by (rule bit_word_eqI) (simp add: bit_rev_bits)

section \<open>The order of the cursor\<close>

text \<open>The place of a hash or a cursor in the order in which the scan goes through the buckets.\<close>

definition place :: "u64 \<Rightarrow> nat" where
  "place v = unat (rev_bits v)"

text \<open>The place a cursor has reached; cursor 0 as a result means the end.\<close>

definition reached :: "u64 \<Rightarrow> nat" where
  "reached v = (if v = 0 then 2 ^ 64 else place v)"

lemma place_less: "place v < 2 ^ 64"
  using unat_lt64 [of "rev_bits v"] by (simp add: place_def)

lemma place_0 [simp]: "place 0 = 0"
  by (simp add: place_def)

lemma rev_bits_eq_0: "rev_bits w = 0 \<longleftrightarrow> w = 0"
  by (metis rev_bits_0 rev_bits_rev_bits)

lemma same_bucket_iff:
  assumes "k \<le> 64"
  shows "h AND mask k = v AND mask k \<longleftrightarrow> place h div 2 ^ (64 - k) = place v div 2 ^ (64 - k)"
proof -
  have d: "place w div 2 ^ (64 - k) = unat (drop_bit (64 - k) (rev_bits w))" for w
    by (simp add: place_def unat_drop_bit_eq flip: drop_bit_eq_div)
  have "drop_bit (64 - k) (rev_bits h) = drop_bit (64 - k) (rev_bits v) \<longleftrightarrow> (\<forall>i < k. bit h i = bit v i)"
  proof
    assume eq: "drop_bit (64 - k) (rev_bits h) = drop_bit (64 - k) (rev_bits v)"
    show "\<forall>i < k. bit h i = bit v i"
    proof (intro allI impI)
      fix i assume i: "i < k"
      have "bit (drop_bit (64 - k) (rev_bits w)) (k - 1 - i) = bit w i" for w
        using i assms by (auto simp: bit_simps bit_rev_bits)
      then show "bit h i = bit v i" using eq by metis
    qed
  next
    assume eq: "\<forall>i < k. bit h i = bit v i"
    show "drop_bit (64 - k) (rev_bits h) = drop_bit (64 - k) (rev_bits v)"
      by (rule bit_word_eqI) (use eq assms in \<open>auto simp: bit_simps bit_rev_bits\<close>)
  qed
  moreover have "h AND mask k = v AND mask k \<longleftrightarrow> (\<forall>i < k. bit h i = bit v i)"
  proof
    assume eq: "h AND mask k = v AND mask k"
    show "\<forall>i < k. bit h i = bit v i"
    proof (intro allI impI)
      fix i assume i: "i < k"
      have "bit (w AND mask k) i = bit w i" for w :: u64 using i assms by (simp add: bit_simps)
      from this [of h] this [of v] eq show "bit h i = bit v i" by simp
    qed
  qed (use assms in \<open>auto intro!: bit_word_eqI simp: bit_simps\<close>)
  ultimately show ?thesis unfolding d by (simp add: word_unat_eq_iff)
qed

lemma or_mask_nat: "(n :: nat) OR mask j = n div 2 ^ j * 2 ^ j + (2 ^ j - 1)"
proof -
  have "n OR mask j = push_bit j (drop_bit j n) OR mask j" by (auto simp: bit_eq_iff bit_simps)
  also have "\<dots> = push_bit j (drop_bit j n) + mask j"
    by (subst disjunctive_add_eq_or) (auto simp: bit_eq_iff bit_simps)
  finally show ?thesis by (simp add: push_bit_eq_mult drop_bit_eq_div mask_eq_exp_minus_1)
qed

lemma unat_or_mask:
  fixes w :: u64
  assumes "j \<le> 64"
  shows "unat (w OR mask j) = unat w div 2 ^ j * 2 ^ j + (2 ^ j - 1)"
proof -
  have "unat (mask j :: u64) = mask j" 
    by (rule bit_eqI) (use assms in \<open>auto simp: bit_simps\<close>)
  then show ?thesis by (simp add: unsigned_or_eq or_mask_nat)
qed

text \<open>Advancing the cursor takes it to the first place of the next bucket.\<close>

lemma reached_advance_cursor:
  assumes "0 < k" and "k \<le> 64"
  shows "reached (advance_cursor (mask k) v) = (place v div 2 ^ (64 - k) + 1) * 2 ^ (64 - k)"
proof -
  let ?j = "64 - k"
  let ?w = "rev_bits (v OR NOT (mask k))"
  have w: "unat ?w = place v div 2 ^ ?j * 2 ^ ?j + (2 ^ ?j - 1)"
    using unat_or_mask [of ?j "rev_bits v"] assms by (simp add: rev_bits_or rev_bits_not_mask place_def)
  have N: "(place v div 2 ^ ?j + 1) * 2 ^ ?j = unat ?w + 1"
    unfolding w by (simp add: algebra_simps)
  have adv: "rev_bits (advance_cursor (mask k) v) = ?w + 1" by (simp add: advance_cursor_def)
  show ?thesis
  proof (cases "unat ?w + 1 < 2 ^ 64")
    case True
    then have u: "unat (?w + 1) = unat ?w + 1" by (subst unat_add64) simp_all
    then have "advance_cursor (mask k) v \<noteq> 0" using adv by (metis rev_bits_0 add_is_0 one_neq_zero unat_0)
    then show ?thesis using u N adv by (simp add: reached_def place_def)
  next
    case False
    then have u: "unat ?w + 1 = 2 ^ 64" using unat_lt64 [of ?w] by simp
    then have "?w + 1 = 0" by (simp add: unat_eq_zero [symmetric] unat_word_ariths)
    then have "advance_cursor (mask k) v = 0" by (simp add: advance_cursor_def)
    then show ?thesis using u N by (simp add: reached_def)
  qed
qed

section \<open>One call of the scan\<close>

lemma sizemask_mask:
  assumes "ht_ok H ht" and "ht_table ht = Some t"
  obtains k where "2 \<le> k" "k \<le> 63" "length t = 2 ^ k" "ht_sizemask ht = mask k" "unat (ht_size ht) = 2 ^ k"
proof -
  obtain k where k: "2 \<le> k" "k \<le> 63" "unat (ht_size ht) = 2 ^ k" "length t = 2 ^ k"
    using assms by (rule ht_okE)
  have "ht_size ht = 2 ^ k" 
  proof -
    have "(2 :: nat) ^ k < 2 ^ LENGTH(64)" using k(2) by (intro power_strict_increasing) simp_all
    from unat_of_nat_small [OF this] have "unat (2 ^ k :: u64) = 2 ^ k" by simp
    then show ?thesis using k(3) by (simp add: word_unat_eq_iff)
  qed
  then have "ht_sizemask ht = mask k" using assms by (auto simp: ht_ok_def mask_eq_exp_minus_1)
  then show ?thesis using that k by blast
qed

lemma emit_bucket_ok:
  assumes "ht_ok (dictHashKey d) (ht_sel d t)" and "ht_table (ht_sel d t) = Some tb" and "ht_sizemask (ht_sel d t) = mask k"
    and "k \<le> 64"
  shows "\<exists>evs. emit_bucket bfn d t v = Inr evs \<and>
    (\<forall>e \<in> set (concat tb). place (dictHashKey d (de_key e)) div 2 ^ (64 - k) = place v div 2 ^ (64 - k) \<longrightarrow>
       ScanEntry e \<in> set evs)"
proof -
  let ?i = "unat (v AND mask k)"
  have b: "bucket (ht_sel d t) ?i = Inr (tb ! ?i)"
    using bucket_masked [OF assms(1,2), of v] assms(3) by simp
  have "e \<in> set (tb ! ?i)"
    if e: "e \<in> set (concat tb)" "place (dictHashKey d (de_key e)) div 2 ^ (64 - k) = place v div 2 ^ (64 - k)" for e
  proof -
    obtain es where "es \<in> set tb" "e \<in> set es" using e(1) by auto
    then obtain i where i: "i < length tb" "e \<in> set (tb ! i)" by (metis in_set_conv_nth)
    have "unat (dictHashKey d (de_key e) AND mask k) = i"
      using ht_okE [OF assms(1,2)] i assms(3) by metis
    then show ?thesis using i(2) e(2) same_bucket_iff [OF assms(4), of "dictHashKey d (de_key e)" v] by simp
  qed
  then show ?thesis using b assms(3) by (auto simp: emit_bucket_def Let_def)
qed

text \<open>A block of places from \<open>place v\<close> on is covered by the call, up to the place the new cursor has reached.\<close>

lemma block_cover:
  assumes "place v \<le> x" and "x < (place v div 2 ^ j + 1) * 2 ^ j"
  shows "x div 2 ^ j = place v div 2 ^ j"
proof -
  have "place v div 2 ^ j \<le> x div 2 ^ j" using assms(1) by (rule div_le_mono)
  moreover have "x div 2 ^ j < place v div 2 ^ j + 1" using assms(2) by (simp add: div_less_iff_less_mult)
  ultimately show ?thesis by simp
qed

lemma dvd_place_iff: "2 ^ j dvd place v \<longleftrightarrow> (\<forall>i < j. \<not> bit (rev_bits v) i)"
proof -
  have "2 ^ j dvd place v \<longleftrightarrow> take_bit j (place v) = 0" by (simp add: take_bit_eq_0_iff)
  also have "\<dots> \<longleftrightarrow> (\<forall>i < j. \<not> bit (rev_bits v) i)"
    by (auto simp: bit_eq_iff bit_simps place_def)
  finally show ?thesis .
qed

text \<open>The loop over the larger table ends when the cursor reaches the next bucket of the smaller one.\<close>

lemma zero_bits_iff:
  assumes "k0 \<le> k1" and "k1 \<le> 64" and "2 ^ (64 - k1) dvd reached v"
  shows "v AND (mask k0 XOR mask k1) = 0 \<longleftrightarrow> 2 ^ (64 - k0) dvd reached v"
proof (cases "v = 0")
  case True
  have "(2 :: nat) ^ (64 - k0) dvd 2 ^ 64" by (rule le_imp_power_dvd) simp
  with True show ?thesis by (simp add: reached_def)
next
  case False
  then have low: "\<not> bit (rev_bits v) i" if "i < 64 - k1" for i
    using assms(3) that by (simp add: reached_def dvd_place_iff)
  have "v AND (mask k0 XOR mask k1) = 0 \<longleftrightarrow> (\<forall>i < k1. k0 \<le> i \<longrightarrow> \<not> bit v i)"
    using assms(1,2) by (auto simp: bit_eq_iff bit_simps) (metis leD order_less_le_trans)
  also have "\<dots> \<longleftrightarrow> (\<forall>i < 64 - k0. 64 - k1 \<le> i \<longrightarrow> \<not> bit (rev_bits v) i)"
  proof
    assume a: "\<forall>i < k1. k0 \<le> i \<longrightarrow> \<not> bit v i"
    show "\<forall>i < 64 - k0. 64 - k1 \<le> i \<longrightarrow> \<not> bit (rev_bits v) i"
    proof (intro allI impI)
      fix i assume "i < 64 - k0" "64 - k1 \<le> i"
      then show "\<not> bit (rev_bits v) i" using a [rule_format, of "63 - i"] assms(2) by (auto simp: bit_rev_bits)
    qed
  next
    assume a: "\<forall>i < 64 - k0. 64 - k1 \<le> i \<longrightarrow> \<not> bit (rev_bits v) i"
    show "\<forall>i < k1. k0 \<le> i \<longrightarrow> \<not> bit v i"
    proof (intro allI impI)
      fix i assume "i < k1" "k0 \<le> i"
      then show "\<not> bit v i" using a [rule_format, of "63 - i"] assms(2) by (auto simp: bit_rev_bits)
    qed
  qed
  also have "\<dots> \<longleftrightarrow> 2 ^ (64 - k0) dvd reached v"
    using low False by (auto simp: reached_def dvd_place_iff not_le)
  finally show ?thesis .
qed

lemma next_multiple_le:
  fixes x q m :: nat
  assumes "x < m" and "q dvd m" and "0 < q"
  shows "(x div q + 1) * q \<le> m"
proof -
  obtain c where c: "m = q * c" using assms(2) by blast
  then have "x div q < c" using assms(1,3) by (simp add: div_less_iff_less_mult mult.commute)
  then show ?thesis using c by (metis Suc_eq_plus1 Suc_leI mult.commute mult_le_mono1)
qed

lemma next_multiple_gt: "0 < q \<Longrightarrow> (x :: nat) < (x div q + 1) * q"
  by (metis Suc_eq_plus1 dividend_less_div_times mult.commute mult_Suc_right)

text \<open>The entries at the places from \<open>lo\<close> up to \<open>hi\<close> are among the events.\<close>

definition scan_covers ::
  "('k, 'v) dict \<Rightarrow> ('k, 'v) dictEntry list \<Rightarrow> nat \<Rightarrow> nat \<Rightarrow> ('k, 'v) scan_event list \<Rightarrow> bool" where
  "scan_covers d es lo hi evs \<longleftrightarrow>
     (\<forall>e \<in> set es. lo \<le> place (dictHashKey d (de_key e)) \<and> place (dictHashKey d (de_key e)) < hi \<longrightarrow> ScanEntry e \<in> set evs)"

lemma scan_covers_trans:
  "scan_covers d es lo mid evs \<Longrightarrow> scan_covers d es mid hi evs' \<Longrightarrow> scan_covers d es lo hi (evs @ evs')"
  unfolding scan_covers_def set_append by (meson UnI1 UnI2 not_le)

lemma scan_covers_append: "scan_covers d (es @ es') lo hi evs \<longleftrightarrow> scan_covers d es lo hi evs \<and> scan_covers d es' lo hi evs"
  by (auto simp: scan_covers_def)

lemma scan_covers_mono: "scan_covers d es lo hi evs \<Longrightarrow> set evs \<subseteq> set evs' \<Longrightarrow> scan_covers d es lo hi evs'"
  by (auto simp: scan_covers_def)

lemma emit_bucket_covers:
  assumes "ht_ok (dictHashKey d) (ht_sel d t)" and "ht_table (ht_sel d t) = Some tb" and "ht_sizemask (ht_sel d t) = mask k"
    and "k \<le> 64"
  shows "\<exists>evs. emit_bucket bfn d t v = Inr evs \<and>
    scan_covers d (concat tb) (place v) ((place v div 2 ^ (64 - k) + 1) * 2 ^ (64 - k)) evs"
proof -
  obtain evs where evs: "emit_bucket bfn d t v = Inr evs"
    "\<And>e. e \<in> set (concat tb) \<Longrightarrow> place (dictHashKey d (de_key e)) div 2 ^ (64 - k) = place v div 2 ^ (64 - k) \<Longrightarrow> ScanEntry e \<in> set evs"
    using emit_bucket_ok [OF assms, of bfn v] by blast
  then show ?thesis using block_cover by (auto simp: scan_covers_def)
qed

lemma pow_dvd_64: "(2 :: nat) ^ (64 - k) dvd 18446744073709551616"
  using le_imp_power_dvd [of "64 - k" 64 "2 :: nat"] by simp

lemma scan_expansions_ok:
  assumes ok: "ht_ok (dictHashKey d) (ht_sel d t)" "ht_table (ht_sel d t) = Some tb" "ht_sizemask (ht_sel d t) = mask k1"
    and k: "0 < k0" "k0 \<le> k1" "k1 \<le> 64"
    and "(place v div 2 ^ (64 - k0) + 1) * 2 ^ (64 - k0) div 2 ^ (64 - k1) \<le> place v div 2 ^ (64 - k1) + fuel"
  shows "\<exists>evs v'. scan_expansions fuel bfn d t (mask k0) (mask k1) v = Some (Inr (evs, v')) \<and>
    reached v' = (place v div 2 ^ (64 - k0) + 1) * 2 ^ (64 - k0) \<and> scan_covers d (concat tb) (place v) (reached v') evs"
  using assms(7)
proof (induction fuel arbitrary: v)
  case 0
  let ?B = "(place v div 2 ^ (64 - k0) + 1) * 2 ^ (64 - k0)"
  have "place v < ?B" by (rule next_multiple_gt) simp
  moreover have d: "(2 :: nat) ^ (64 - k1) dvd ?B" using k by (simp add: le_imp_power_dvd)
  ultimately have "(place v div 2 ^ (64 - k1) + 1) * 2 ^ (64 - k1) \<le> ?B" by (intro next_multiple_le) simp_all
  then have "place v div 2 ^ (64 - k1) + 1 \<le> ?B div 2 ^ (64 - k1)" by (simp add: less_eq_div_iff_mult_less_eq)
  then show ?case using 0 by simp
next
  case (Suc fuel)
  define q0 q1 where "q0 = (2 :: nat) ^ (64 - k0)" and "q1 = (2 :: nat) ^ (64 - k1)"
  have q: "0 < q0" "0 < q1" "q1 dvd q0" using k by (simp_all add: q0_def q1_def le_imp_power_dvd)
  define B where "B = (place v div q0 + 1) * q0"
  have B: "place v < B" "q1 dvd B" "q0 dvd B" using next_multiple_gt [OF q(1)] q(3) by (simp_all add: B_def)
  define v1 where "v1 = advance_cursor (mask k1) v"
  have r1: "reached v1 = (place v div q1 + 1) * q1"
    using reached_advance_cursor [of k1 v] k by (simp add: v1_def q1_def)
  obtain evs where evs: "emit_bucket bfn d t v = Inr evs" "scan_covers d (concat tb) (place v) (reached v1) evs"
    using emit_bucket_covers [OF ok k(3)] unfolding r1 q1_def by blast
  have le: "reached v1 \<le> B" unfolding r1 using B q by (intro next_multiple_le) simp_all
  have gt: "place v < reached v1" unfolding r1 by (rule next_multiple_gt [OF q(2)])
  have z: "v1 AND (mask k0 XOR mask k1) = 0 \<longleftrightarrow> q0 dvd reached v1"
    using zero_bits_iff [OF k(2,3), of v1] by (simp add: r1 q0_def q1_def)
  show ?case
  proof (cases "q0 dvd reached v1")
    case True
    then have "B \<le> reached v1" unfolding B_def using gt q by (intro next_multiple_le) simp_all
    then have "reached v1 = B" using le by simp
    moreover have "scan_expansions (Suc fuel) bfn d t (mask k0) (mask k1) v = Some (Inr (evs, v1))"
      using z True evs(1) by (simp add: v1_def [symmetric])
    ultimately show ?thesis using evs(2) unfolding B_def q0_def by blast
  next
    case False
    then have v1: "reached v1 = place v1" by (cases "v1 = 0") (auto simp: reached_def q0_def pow_dvd_64)
    have "reached v1 \<noteq> B" using False B(3) by auto
    with le have lt: "place v1 < B" using v1 by simp
    have same: "place v1 div q0 = place v div q0"
      using block_cover [of v "place v1" "64 - k0"] gt lt v1 by (simp add: B_def q0_def)
    have one: "place v1 div q1 = place v div q1 + 1" using r1 v1 q(2) by (metis nonzero_mult_div_cancel_right not_gr0)
    have "B div q1 \<le> place v1 div q1 + fuel" using Suc.prems one by (simp add: B_def q0_def q1_def)
    then obtain evs1 v2 where IH: "scan_expansions fuel bfn d t (mask k0) (mask k1) v1 = Some (Inr (evs1, v2))"
      "reached v2 = B" "scan_covers d (concat tb) (place v1) (reached v2) evs1"
      using Suc.IH [of v1] same unfolding q0_def q1_def B_def by metis
    have "scan_expansions (Suc fuel) bfn d t (mask k0) (mask k1) v = Some (Inr (evs @ evs1, v2))"
      using evs(1) z False IH(1) by (simp add: v1_def [symmetric])
    then show ?thesis using IH(2) scan_covers_trans [OF evs(2) [unfolded v1] IH(3)] unfolding B_def q0_def by blast
  qed
qed

lemma dictScan_ok:
  assumes ok: "dict_ok P d" and ne: "entries d \<noteq> []"
    and fuel: "length (the (ht_table (ht0 d))) \<le> fuel" "dictIsRehashing d \<longrightarrow> length (the (ht_table (ht1 d))) \<le> fuel"
  shows "\<exists>evs v' k. dictScan fuel d v bfn = Some (Inr (evs, v')) \<and> scan_covers d (entries d) (place v) (reached v') evs \<and>
    k \<le> 63 \<and> 2 ^ k \<le> fuel \<and> reached v' = (place v div 2 ^ (64 - k) + 1) * 2 ^ (64 - k)"
proof -
  have sz: "dictSize d \<noteq> 0" using used_entries_empty(2) [OF ok] ne by (simp add: dictSize_def)
  have oks: "ht_ok (dictHashKey d) (ht_sel d t)" for t using ok by (simp add: dict_ok_def ht_sel_def)
  show ?thesis
  proof (cases "dictIsRehashing d")
    case False
    then have "ht1 d = dictReset" using ok by (simp add: dict_ok_def)
    then have en: "entries d = ht_entries (ht0 d)" by (simp add: entries_def)
    then obtain t where t: "ht_table (ht_sel d 0) = Some t" using ne by (cases "ht_table (ht0 d)") (simp_all add: ht_sel_def)
    obtain k where k: "2 \<le> k" "k \<le> 63" "ht_sizemask (ht_sel d 0) = mask k" "length t = 2 ^ k" using sizemask_mask [OF oks t] by blast
    have f: "2 ^ k \<le> fuel" using fuel(1) t k(4) by (simp add: ht_sel_def)
    let ?v = "advance_cursor (mask k) v"
    have r: "reached ?v = (place v div 2 ^ (64 - k) + 1) * 2 ^ (64 - k)"
      using reached_advance_cursor [of k v] k by simp
    obtain evs where evs: "emit_bucket bfn d 0 v = Inr evs" "scan_covers d (concat t) (place v) (reached ?v) evs"
      using emit_bucket_covers [OF oks t k(3), of bfn v] k(2) r by auto
    have "dictScan fuel d v bfn = Some (Inr (evs, ?v))"
      using sz False evs(1) k(3) by (simp add: dictScan_def ht_sel_def)
    then show ?thesis using evs(2) en t r k(2) f unfolding ht_sel_def by fastforce
  next
    case True
    define s where "s = (if ht_size (ht0 d) > ht_size (ht1 d) then 1 else (0 :: nat))"
    define b where "b = (if ht_size (ht0 d) > ht_size (ht1 d) then 0 else (1 :: nat))"
    have tabs: "ht_table (ht_sel d t) \<noteq> None" for t using ok True by (auto simp: dict_ok_def ht_sel_def)
    then obtain ts tb where t: "ht_table (ht_sel d s) = Some ts" "ht_table (ht_sel d b) = Some tb" by blast
    obtain k0 where k0: "2 \<le> k0" "k0 \<le> 63" "ht_sizemask (ht_sel d s) = mask k0" "unat (ht_size (ht_sel d s)) = 2 ^ k0"
      using sizemask_mask [OF oks t(1)] by blast
    obtain k1 where k1: "2 \<le> k1" "k1 \<le> 63" "ht_sizemask (ht_sel d b) = mask k1" "unat (ht_size (ht_sel d b)) = 2 ^ k1"
      "length tb = 2 ^ k1"
      using sizemask_mask [OF oks t(2)] by blast
    have "(2 :: nat) ^ k0 \<le> 2 ^ k1"
      unfolding k0(4) [symmetric] k1(4) [symmetric] by (auto simp: s_def b_def ht_sel_def word_less_nat_alt)
    then have le: "k0 \<le> k1" by simp
    have f: "2 ^ k1 \<le> fuel" using fuel True k1(5) t(2) by (auto simp: b_def ht_sel_def split: if_splits)
    have f0: "2 ^ k0 \<le> fuel" by (rule le_trans [OF power_increasing [OF le] f]) simp
    define B where "B = (place v div 2 ^ (64 - k0) + 1) * 2 ^ (64 - k0)"
    obtain evs where evs: "emit_bucket bfn d s v = Inr evs" "scan_covers d (concat ts) (place v) B evs"
      using emit_bucket_covers [OF oks t(1) k0(3), of bfn v] k0(2) unfolding B_def by auto
    have "B \<le> 2 ^ 64" unfolding B_def using place_less [of v] by (intro next_multiple_le) (simp_all add: pow_dvd_64)
    then have "B div 2 ^ (64 - k1) \<le> 2 ^ 64 div 2 ^ (64 - k1)" by (rule div_le_mono)
    also have "\<dots> = 2 ^ k1" using k1(2) by (subst power_diff [symmetric]) simp_all
    also have "\<dots> \<le> fuel" by (rule f)
    finally have "B div 2 ^ (64 - k1) \<le> place v div 2 ^ (64 - k1) + fuel" by simp
    then obtain evs1 v' where x: "scan_expansions fuel bfn d b (mask k0) (mask k1) v = Some (Inr (evs1, v'))" "reached v' = B"
      "scan_covers d (concat tb) (place v) (reached v') evs1"
      using scan_expansions_ok [OF oks t(2) k1(3) _ le, of v fuel bfn] k0(1) k1(2) unfolding B_def by auto
    have "dictScan fuel d v bfn = Some (Inr (evs @ evs1, v'))"
      using sz True evs(1) x(1) k0(3) k1(3) by (auto simp: dictScan_def s_def b_def ht_sel_def Let_def split: if_splits)
    moreover have "scan_covers d (concat ts) (place v) (reached v') (evs @ evs1)" "scan_covers d (concat tb) (place v) (reached v') (evs @ evs1)"
      using evs(2) x(2,3) by (auto elim: scan_covers_mono)
    moreover have "entries d = concat ts @ concat tb \<or> entries d = concat tb @ concat ts"
      using t by (auto simp: entries_def s_def b_def ht_sel_def split: if_splits)
    ultimately show ?thesis using x(2) k0(2) f0 unfolding B_def by (metis scan_covers_append)
  qed
qed

section \<open>A whole scan\<close>

text \<open>The calls of a scan, each on the table as it is at that time.\<close>

fun scan_calls :: "nat \<Rightarrow> bool \<Rightarrow> ('k, 'v) dict list \<Rightarrow> u64 \<Rightarrow> (('k, 'v) scan_event list \<times> u64) res option" where
  "scan_calls fuel bucketfn [] v = Some (Inr ([], v))"
| "scan_calls fuel bucketfn (d # ds) v =
     (case dictScan fuel d v bucketfn of
        None \<Rightarrow> None
      | Some (Inl e) \<Rightarrow> Some (Inl e)
      | Some (Inr (evs, v1)) \<Rightarrow>
          map_option (\<lambda>r. bindE r (\<lambda>(evs1, v2). Inr (evs @ evs1, v2))) (scan_calls fuel bucketfn ds v1))"

definition scannable :: "('k \<Rightarrow> bool) \<Rightarrow> nat \<Rightarrow> ('k, 'v) dict \<Rightarrow> bool" where
  "scannable P fuel d \<longleftrightarrow> dict_ok P d \<and> length (the (ht_table (ht0 d))) \<le> fuel \<and>
     (dictIsRehashing d \<longrightarrow> length (the (ht_table (ht1 d))) \<le> fuel)"

lemma key_entry: "key \<in> dom (dict_map d) \<Longrightarrow> \<exists>e \<in> set (entries d). de_key e = key"
  using dict_map_None_iff [of d key] by (auto simp: domIff)

lemma scannable_scan:
  assumes "scannable P fuel d" and "key \<in> dom (dict_map d)"
  obtains evs v' k where "dictScan fuel d v bfn = Some (Inr (evs, v'))"
    "place v \<le> place (dictHashKey d key) \<Longrightarrow> place (dictHashKey d key) < reached v' \<Longrightarrow>
      \<exists>e. ScanEntry e \<in> set evs \<and> de_key e = key"
    "k \<le> 63" "2 ^ k \<le> fuel" "reached v' = (place v div 2 ^ (64 - k) + 1) * 2 ^ (64 - k)"
proof -
  obtain e where e: "e \<in> set (entries d)" "de_key e = key" using key_entry [OF assms(2)] by blast
  then have ne: "entries d \<noteq> []" by auto
  have s: "dict_ok P d" "length (the (ht_table (ht0 d))) \<le> fuel" "dictIsRehashing d \<longrightarrow> length (the (ht_table (ht1 d))) \<le> fuel"
    using assms(1) by (simp_all add: scannable_def)
  obtain evs v' k where r: "dictScan fuel d v bfn = Some (Inr (evs, v'))" "scan_covers d (entries d) (place v) (reached v') evs"
    "k \<le> 63" "2 ^ k \<le> fuel" "reached v' = (place v div 2 ^ (64 - k) + 1) * 2 ^ (64 - k)"
    using dictScan_ok [OF s(1) ne s(2,3), of v bfn] by blast
  from that [OF r(1) _ r(3-5)] r(2) e show ?thesis unfolding scan_covers_def by blast
qed

lemma scan_calls_returns:
  assumes "\<forall>d \<in> set ds. scannable P fuel d \<and> key \<in> dom (dict_map d)"
  shows "\<exists>evs v'. scan_calls fuel bfn ds v = Some (Inr (evs, v'))"
  using assms
proof (induction ds arbitrary: v)
  case (Cons d ds)
  have "scannable P fuel d" "key \<in> dom (dict_map d)" using Cons.prems by simp_all
  then obtain evs v1 where "dictScan fuel d v bfn = Some (Inr (evs, v1))"
    by (rule scannable_scan [of P fuel d key v bfn])
  then show ?case using Cons.IH [of v1] Cons.prems by auto
qed simp

lemma scan_calls_cover:
  assumes "\<forall>d \<in> set ds. scannable P fuel d \<and> key \<in> dom (dict_map d) \<and> dictHashKey d key = h"
    and "scan_calls fuel bfn ds v = Some (Inr (evs, v'))" and "place v \<le> place h" and "place h < reached v'" and "ds \<noteq> []"
  shows "\<exists>e. ScanEntry e \<in> set evs \<and> de_key e = key"
  using assms
proof (induction ds arbitrary: v evs)
  case (Cons d ds)
  have d: "scannable P fuel d" "key \<in> dom (dict_map d)" "dictHashKey d key = h" using Cons.prems(1) by simp_all
  obtain evs1 v1 where s: "dictScan fuel d v bfn = Some (Inr (evs1, v1))"
    "place h < reached v1 \<Longrightarrow> \<exists>e. ScanEntry e \<in> set evs1 \<and> de_key e = key"
    using scannable_scan [OF d(1,2), of v bfn] Cons.prems(3) d(3) by metis
  then obtain evs2 where r: "scan_calls fuel bfn ds v1 = Some (Inr (evs2, v'))" "evs = evs1 @ evs2"
    using Cons.prems(2) by (auto simp: bindE_Inr_iff)
  show ?case
  proof (cases "place h < reached v1")
    case True
    then show ?thesis using s(2) r(2) by auto
  next
    case False
    then have v1: "place v1 \<le> place h" using place_less [of h] by (auto simp: reached_def split: if_splits)
    have "ds \<noteq> []" using r(1) False Cons.prems(4) by auto
    from Cons.IH [OF _ r(1) v1 Cons.prems(4) this] Cons.prems(1) r(2) show ?thesis by auto
  qed
qed simp

lemma next_multiple_ge:
  fixes q Q x :: nat
  assumes "q dvd x" and "q dvd Q" and "0 < Q"
  shows "x + q \<le> (x div Q + 1) * Q" and "q dvd (x div Q + 1) * Q"
proof -
  show d: "q dvd (x div Q + 1) * Q" using assms(2) by simp
  have lt: "x < (x div Q + 1) * Q" by (rule next_multiple_gt [OF assms(3)])
  have "q dvd (x div Q + 1) * Q - x" using d assms(1) by (rule dvd_diff_nat)
  with lt have "q \<le> (x div Q + 1) * Q - x" by (intro dvd_imp_le) simp_all
  then show "x + q \<le> (x div Q + 1) * Q" using lt by linarith
qed

text \<open>Each call takes the cursor on by at least one bucket of the largest table, so the scan ends.\<close>

lemma scan_calls_end:
  assumes "\<forall>d \<in> set ds. scannable P (2 ^ K) d \<and> key \<in> dom (dict_map d)" and "K \<le> 64" and "2 ^ (64 - K) dvd place v"
    and "2 ^ 64 \<le> place v + length ds * 2 ^ (64 - K)"
  shows "\<exists>m evs. 0 < m \<and> m \<le> length ds \<and> scan_calls (2 ^ K) bfn (take m ds) v = Some (Inr (evs, 0))"
  using assms
proof (induction ds arbitrary: v)
  case Nil
  then show ?case using place_less [of v] by simp
next
  case (Cons d ds)
  have "scannable P (2 ^ K) d" "key \<in> dom (dict_map d)" using Cons.prems(1) by simp_all
  then obtain evs v1 k where s: "dictScan (2 ^ K) d v bfn = Some (Inr (evs, v1))" "2 ^ k \<le> (2 :: nat) ^ K"
    "reached v1 = (place v div 2 ^ (64 - k) + 1) * 2 ^ (64 - k)"
    by (rule scannable_scan [of P "2 ^ K" d key v bfn])
  have "(2 :: nat) ^ (64 - K) dvd 2 ^ (64 - k)" using s(2) by (simp add: le_imp_power_dvd)
  then have n: "place v + 2 ^ (64 - K) \<le> reached v1" "2 ^ (64 - K) dvd reached v1"
    unfolding s(3) using next_multiple_ge [OF Cons.prems(3)] by auto
  show ?case
  proof (cases "v1 = 0")
    case True
    then show ?thesis using s(1) by (intro exI [of _ 1] exI [of _ evs]) simp
  next
    case False
    then have r: "reached v1 = place v1" by (simp add: reached_def)
    have "2 ^ 64 \<le> place v1 + length ds * 2 ^ (64 - K)" using Cons.prems(4) n(1) r by simp
    then obtain m evs1 where "0 < m" "m \<le> length ds" "scan_calls (2 ^ K) bfn (take m ds) v1 = Some (Inr (evs1, 0))"
      using Cons.IH [of v1] Cons.prems(1,2) n(2) r by auto
    then show ?thesis using s(1) by (intro exI [of _ "Suc m"] exI [of _ "evs @ evs1"]) simp
  qed
qed

text \<open>
  C19. A scan misses no key that stays in the table, and it ends: while no table has more than \<open>2 ^ K\<close> buckets,
  at most \<open>2 ^ K\<close> calls bring the cursor back to 0, whatever is inserted, deleted, resized or rehashed between
  the calls; and however many calls were made, when the cursor is 0 a key that was in the table at each
  of them has been passed to the callback.
\<close>

theorem dictScan_returns_every_key:
  assumes "\<forall>d \<in> set ds. scannable P (2 ^ K) d \<and> key \<in> dom (dict_map d) \<and> dictHashKey d key = h"
    and "K \<le> 64" and "length ds = 2 ^ K"
  shows "(\<exists>m evs. 0 < m \<and> m \<le> 2 ^ K \<and> scan_calls (2 ^ K) bfn (take m ds) 0 = Some (Inr (evs, 0))) \<and>
    (\<forall>n > 0. \<exists>evs v'. scan_calls (2 ^ K) bfn (take n ds) 0 = Some (Inr (evs, v')) \<and>
      (v' = 0 \<longrightarrow> (\<exists>e. ScanEntry e \<in> set evs \<and> de_key e = key)))"
proof (intro conjI allI impI)
  have "2 ^ 64 \<le> place 0 + length ds * 2 ^ (64 - K)"
    unfolding assms(3) power_add [symmetric] using assms(2) by simp
  then show "\<exists>m evs. 0 < m \<and> m \<le> 2 ^ K \<and> scan_calls (2 ^ K) bfn (take m ds) 0 = Some (Inr (evs, 0))"
    using scan_calls_end [of ds P K key 0 bfn] assms by auto
next
  fix n :: nat
  assume n: "0 < n"
  have ds: "\<forall>d \<in> set (take n ds). scannable P (2 ^ K) d \<and> key \<in> dom (dict_map d) \<and> dictHashKey d key = h"
    using assms(1) by (auto dest: in_set_takeD)
  have ne: "take n ds \<noteq> []" using n assms(3) by auto
  obtain evs v' where r: "scan_calls (2 ^ K) bfn (take n ds) 0 = Some (Inr (evs, v'))"
    using scan_calls_returns [of "take n ds" P "2 ^ K" key bfn 0] ds by blast
  then show "\<exists>evs v'. scan_calls (2 ^ K) bfn (take n ds) 0 = Some (Inr (evs, v')) \<and>
      (v' = 0 \<longrightarrow> (\<exists>e. ScanEntry e \<in> set evs \<and> de_key e = key))"
    using scan_calls_cover [OF ds r _ _ ne] place_less [of h] by (auto simp: reached_def)
qed

definition demo_dict :: "(nat, nat) dict" where
  "demo_dict = \<lparr>d_type = \<lparr>hashFunction = of_nat, keyDup = None, valDup = None, keyCompare = None\<rparr>,
     ht0 = \<lparr>ht_table = Some [[], [\<lparr>de_key = 1, de_val = Some 7\<rparr>], [], []], ht_size = 4, ht_sizemask = 3, ht_used = 1\<rparr>,
     ht1 = dictReset, rehashidx = - 1, iterators = 0\<rparr>"

lemma demo_dict_ok: "dict_ok (\<lambda>_. True) demo_dict" "scannable (\<lambda>_. True) 4 demo_dict"
proof -
  have pow: "\<exists>k\<ge>2. k \<le> 63 \<and> (4 :: nat) = 2 ^ k" by (rule exI [of _ 2]) simp
  have less: "i < Suc (Suc (Suc (Suc 0))) \<Longrightarrow> i = 0 \<or> i = 1 \<or> i = 2 \<or> i = 3" for i :: nat by auto
  have "ht_ok (dictHashKey demo_dict) (ht0 demo_dict)"
    using pow by (auto simp: ht_ok_def demo_dict_def dictHashKey_def dest!: less)
  then show ok: "dict_ok (\<lambda>_. True) demo_dict"
    by (simp add: dict_ok_def entries_def demo_dict_def dictIsRehashing_def)
  show "scannable (\<lambda>_. True) 4 demo_dict"
    using ok by (simp add: scannable_def demo_dict_def dictIsRehashing_def)
qed

theorem dictScan_returns_every_key_witness:
  "\<exists>m evs. 0 < m \<and> m \<le> 2 ^ 2 \<and> scan_calls (2 ^ 2) True (take m (replicate 4 demo_dict)) 0 = Some (Inr (evs, 0)) \<and>
    (\<exists>e. ScanEntry e \<in> set evs \<and> de_key e = 1)"
proof -
  let ?ds = "replicate 4 demo_dict"
  have "1 \<in> dom (dict_map demo_dict)" by (simp add: dict_map_def entries_def demo_dict_def)
  then have a: "\<forall>d \<in> set ?ds. scannable (\<lambda>_. True) (2 ^ 2) d \<and> 1 \<in> dom (dict_map d) \<and> dictHashKey d 1 = 1"
    using demo_dict_ok(2) by (simp add: dictHashKey_def demo_dict_def)
  have l: "length ?ds = 2 ^ 2" and K: "(2 :: nat) \<le> 64" by simp_all
  note every = dictScan_returns_every_key [OF a K l, of True]
  from every [THEN conjunct1] obtain m evs where
    m: "0 < m" "m \<le> 2 ^ 2" "scan_calls (2 ^ 2) True (take m ?ds) 0 = Some (Inr (evs, 0))" by (elim exE conjE)
  from every [THEN conjunct2, rule_format, OF m(1)] have "\<exists>e. ScanEntry e \<in> set evs \<and> de_key e = 1"
    unfolding m(3) by simp
  with m show ?thesis by (intro exI [of _ m] exI [of _ evs] conjI)
qed

section \<open>Iterators\<close>

definition tab :: "('k, 'v) dict \<Rightarrow> nat \<Rightarrow> ('k, 'v) dictEntry list list" where
  "tab d t = (case ht_table (ht_sel d t) of None \<Rightarrow> [] | Some x \<Rightarrow> x)"

text \<open>The buckets an iterator has not reached yet.\<close>

definition ahead_of :: "('k, 'v) dict \<Rightarrow> ('k, 'v) dictIterator \<Rightarrow> ('k, 'v) dictEntry list list" where
  "ahead_of d iter = drop (nat (it_index iter + 1)) (tab d (it_table iter)) @
     (if it_table iter = 0 \<and> dictIsRehashing d then tab d 1 else [])"

definition remaining :: "('k, 'v) dict \<Rightarrow> ('k, 'v) dictIterator \<Rightarrow> ('k, 'v) dictEntry list" where
  "remaining d iter = (if it_entry iter = [] then [] else it_nextEntry iter) @ concat (ahead_of d iter)"

definition fresh_iter :: "('k, 'v) dictIterator \<Rightarrow> bool" where
  "fresh_iter iter \<longleftrightarrow> it_index iter = - 1 \<and> it_table iter = 0"

text \<open>
  The table and an iterator on it between two calls, seen from the table \<open>d0\<close> before the first: a safe
  iterator that has started is counted, an unsafe one holds the fingerprint.
\<close>

definition iterating :: "(nat \<Rightarrow> u64) \<Rightarrow> ('k, 'v) dict \<Rightarrow> ('k, 'v) dict \<Rightarrow> ('k, 'v) dictIterator \<Rightarrow> bool" where
  "iterating addr d0 d iter \<longleftrightarrow>
     - 1 \<le> it_index iter \<and> (it_table iter = 0 \<or> it_table iter = 1 \<and> dictIsRehashing d0 \<and> 0 \<le> it_index iter) \<and>
     (if fresh_iter iter then d = d0 \<and> it_entry iter = []
      else if it_safe iter then d = d0\<lparr>iterators := iterators d0 + 1\<rparr>
      else d = d0 \<and> it_fingerprint iter = dictFingerprint addr d0)"

definition tables_fit :: "('k, 'v) dict \<Rightarrow> bool" where
  "tables_fit d \<longleftrightarrow> (\<forall>t. sint (ht_size (ht_sel d t)) = int (length (tab d t))) \<and>
     (dictIsRehashing d \<longrightarrow> tab d 1 \<noteq> [])"

lemma iterators_upd_simps [simp]:
  "ht_sel (d\<lparr>iterators := x\<rparr>) t = ht_sel d t" "tab (d\<lparr>iterators := x\<rparr>) t = tab d t"
  "dictIsRehashing (d\<lparr>iterators := x\<rparr>) = dictIsRehashing d"
  "dictFingerprint addr (d\<lparr>iterators := x\<rparr>) = dictFingerprint addr d"
  by (simp_all add: ht_sel_def tab_def dictIsRehashing_def dictFingerprint_def)

lemma iterating_tables:
  assumes "iterating addr d0 d iter"
  shows "ht_sel d t = ht_sel d0 t" "tab d t = tab d0 t" "dictIsRehashing d = dictIsRehashing d0"
  using assms by (auto simp: iterating_def split: if_splits)

lemma bucket_tab: "i < length (tab d t) \<Longrightarrow> bucket (ht_sel d t) i = Inr (tab d t ! i)"
  by (auto simp: bucket_def tab_def split: option.splits)

lemma next_bucket_ok:
  assumes it: "iterating addr d0 d iter" and fit: "tables_fit d0"
  shows "case ahead_of d0 iter of
      [] \<Rightarrow> next_bucket addr d iter = Inr None \<and>
        (case end_of_tables addr d iter of (d1, iter1) \<Rightarrow> iterating addr d0 d1 iter1 \<and> \<not> fresh_iter iter1)
    | es # rest \<Rightarrow> \<exists>d1 iter1. next_bucket addr d iter = Inr (Some (d1, iter1)) \<and> it_entry iter1 = es \<and>
        ahead_of d0 iter1 = rest \<and> iterating addr d0 d1 iter1 \<and> \<not> fresh_iter iter1"
proof -
  define d1 where "d1 = (if fresh_iter iter \<and> it_safe iter then d0\<lparr>iterators := iterators d0 + 1\<rparr> else d)"
  define iter1 where "iter1 = (if fresh_iter iter \<and> \<not> it_safe iter then iter\<lparr>it_fingerprint := dictFingerprint addr d0\<rparr> else iter)"
  let ?t = "it_table iter" and ?i = "it_index iter + 1"
  have start: "(if it_index iter = - 1 \<and> it_table iter = 0 then
       if it_safe iter then (d\<lparr>iterators := iterators d + 1\<rparr>, iter) else (d, iter\<lparr>it_fingerprint := dictFingerprint addr d\<rparr>)
     else (d, iter)) = (d1, iter1)"
    using it by (auto simp: d1_def iter1_def fresh_iter_def iterating_def)
  have eq: "it_table iter1 = ?t" "it_index iter1 = it_index iter" "it_safe iter1 = it_safe iter" by (simp_all add: iter1_def)
  have tabs: "ht_sel d1 t = ht_sel d0 t" "tab d1 t = tab d0 t" "dictIsRehashing d1 = dictIsRehashing d0" for t
    using iterating_tables [OF it] by (auto simp: d1_def)
  have lo: "- 1 \<le> it_index iter" and tt: "?t = 0 \<or> ?t = 1 \<and> dictIsRehashing d0"
    using it by (auto simp: iterating_def)
  have later: "iterating addr d0 d1 (iter1\<lparr>it_index := j, it_table := u, it_entry := es\<rparr>)"
    if "0 \<le> j" "u = 0 \<or> u = 1 \<and> dictIsRehashing d0" for j u es
    using it that by (auto simp: iterating_def d1_def iter1_def fresh_iter_def split: if_splits)
  have sz: "sint (ht_size (ht_sel d1 t)) = int (length (tab d0 t))" for t using fit tabs by (simp add: tables_fit_def)
  show ?thesis
  proof (cases "?i < int (length (tab d0 ?t))")
    case True
    then have "nat ?i < length (tab d0 ?t)" using lo by simp
    then have "ahead_of d0 iter = tab d0 ?t ! nat ?i # drop (Suc (nat ?i)) (tab d0 ?t) @ (if ?t = 0 \<and> dictIsRehashing d0 then tab d0 1 else [])"
      by (simp add: ahead_of_def Cons_nth_drop_Suc)
    moreover have "next_bucket addr d iter = Inr (Some (d1, iter1\<lparr>it_index := ?i, it_table := ?t, it_entry := tab d0 ?t ! nat ?i\<rparr>))"
      using True start eq sz [of ?t] tabs bucket_tab [of "nat ?i" d0 ?t] lo by (simp add: next_bucket_def)
    moreover have "ahead_of d0 (iter1\<lparr>it_index := ?i, it_table := ?t, it_entry := es\<rparr>) =
        drop (Suc (nat ?i)) (tab d0 ?t) @ (if ?t = 0 \<and> dictIsRehashing d0 then tab d0 1 else [])" for es
      using lo by (simp add: ahead_of_def Suc_nat_eq_nat_zadd1 add.commute)
    ultimately show ?thesis using later [of ?i ?t] lo tt by (simp add: fresh_iter_def)
  next
    case False
    show ?thesis
    proof (cases "dictIsRehashing d0 \<and> ?t = 0")
      case True
      then obtain es rest where ts: "tab d0 1 = es # rest" using fit by (cases "tab d0 1") (auto simp: tables_fit_def)
      have b: "bucket (ht1 d1) 0 = Inr es" using bucket_tab [of 0 d1 1] tabs ts by (simp add: ht_sel_def)
      have "next_bucket addr d iter = Inr (Some (d1, iter1\<lparr>it_index := 0, it_table := 1, it_entry := es\<rparr>))"
        using False True start eq sz [of ?t] tabs(3) b by (cases iter1) (simp add: next_bucket_def)
      moreover have "ahead_of d0 iter = es # rest" using False True ts by (simp add: ahead_of_def nat_le_iff)
      moreover have "ahead_of d0 (iter1\<lparr>it_index := 0, it_table := 1, it_entry := es\<rparr>) = rest"
        using ts by (simp add: ahead_of_def)
      ultimately show ?thesis using later [of 0 1 es] True by (simp add: fresh_iter_def)
    next
      case stop: False
      have "next_bucket addr d iter = Inr None"
        using False stop start eq sz [of ?t] tabs(3) by (auto simp: next_bucket_def)
      moreover have "ahead_of d0 iter = []" using False stop by (auto simp: ahead_of_def nat_le_iff)
      moreover have "end_of_tables addr d iter = (d1, iter1\<lparr>it_index := ?i, it_table := ?t, it_entry := it_entry iter\<rparr>)"
        using it by (cases iter) (auto simp: end_of_tables_def d1_def iter1_def fresh_iter_def iterating_def)
      ultimately show ?thesis using later [of ?i ?t "it_entry iter"] lo tt by (simp add: fresh_iter_def)
    qed
  qed
qed

lemma dictNext_ok:
  assumes "iterating addr d0 d iter" and "tables_fit d0"
    and "length (ahead_of d0 iter) + (if it_entry iter = [] then 1 else 2) \<le> fuel"
  shows "case remaining d0 iter of
      [] \<Rightarrow> \<exists>d1 iter1. dictNext fuel addr d iter = Some (Inr (None, d1, iter1)) \<and> iterating addr d0 d1 iter1 \<and> \<not> fresh_iter iter1
    | e # es \<Rightarrow> \<exists>d1 iter1. dictNext fuel addr d iter = Some (Inr (Some e, d1, iter1)) \<and> iterating addr d0 d1 iter1 \<and>
        remaining d0 iter1 = es \<and> length (ahead_of d0 iter1) \<le> length (ahead_of d0 iter)"
  using assms
proof (induction fuel arbitrary: d iter)
  case 0
  then show ?case by (simp split: if_splits)
next
  case (Suc fuel)
  show ?case
  proof (cases "it_entry iter = []")
    case True
    note nb = next_bucket_ok [OF Suc.prems(1,2)]
    show ?thesis
    proof (cases "ahead_of d0 iter")
      case Nil
      then show ?thesis using nb True by (auto simp: remaining_def split: prod.splits)
    next
      case (Cons es rest)
      with nb obtain d1 iter1 where n: "next_bucket addr d iter = Inr (Some (d1, iter1))" "it_entry iter1 = es"
        "ahead_of d0 iter1 = rest" "iterating addr d0 d1 iter1" by auto
      show ?thesis
      proof (cases es)
        case Nil
        have "remaining d0 iter = remaining d0 iter1" using True Cons Nil n by (simp add: remaining_def)
        then show ?thesis using Suc.IH [OF n(4) Suc.prems(2)] Suc.prems(3) True Cons Nil n by (auto split: list.splits)
      next
        case ne: (Cons e es')
        let ?it = "iter1\<lparr>it_nextEntry := es'\<rparr>"
        have "iterating addr d0 d1 ?it" "ahead_of d0 ?it = rest"
          using n(3,4) by (auto simp: iterating_def fresh_iter_def ahead_of_def split: if_splits)
        moreover have "remaining d0 iter = e # es' @ concat rest" "remaining d0 ?it = es' @ concat rest"
          using True Cons ne n calculation(2) by (simp_all add: remaining_def)
        ultimately show ?thesis using True n ne Cons by simp
      qed
    qed
  next
    case False
    let ?it = "iter\<lparr>it_entry := it_nextEntry iter\<rparr>"
    have it: "iterating addr d0 d ?it" "ahead_of d0 ?it = ahead_of d0 iter"
      using Suc.prems(1) False by (auto simp: iterating_def fresh_iter_def ahead_of_def split: if_splits)
    show ?thesis
    proof (cases "it_nextEntry iter")
      case Nil
      have "remaining d0 iter = remaining d0 ?it" using False Nil it by (simp add: remaining_def)
      then show ?thesis using Suc.IH [OF it(1) Suc.prems(2)] Suc.prems(3) False Nil it by (auto split: list.splits)
    next
      case (Cons e es)
      let ?it2 = "?it\<lparr>it_nextEntry := es\<rparr>"
      have "iterating addr d0 d ?it2" "ahead_of d0 ?it2 = ahead_of d0 iter"
        using it by (auto simp: iterating_def fresh_iter_def ahead_of_def split: if_splits)
      moreover have "remaining d0 iter = e # es @ concat (ahead_of d0 iter)" "remaining d0 ?it2 = es @ concat (ahead_of d0 iter)"
        using False Cons calculation(2) by (simp_all add: remaining_def)
      ultimately show ?thesis using False Cons by simp
    qed
  qed
qed

text \<open>Calling \<open>dictNext\<close> until it returns NULL.\<close>

fun iterate_all ::
  "nat \<Rightarrow> nat \<Rightarrow> (nat \<Rightarrow> u64) \<Rightarrow> ('k, 'v) dict \<Rightarrow> ('k, 'v) dictIterator \<Rightarrow>
   (('k, 'v) dictEntry list \<times> ('k, 'v) dict \<times> ('k, 'v) dictIterator) res option" where
  "iterate_all 0 fuel addr d iter = None"
| "iterate_all (Suc n) fuel addr d iter =
     (case dictNext fuel addr d iter of
        None \<Rightarrow> None
      | Some (Inl e) \<Rightarrow> Some (Inl e)
      | Some (Inr (None, d1, iter1)) \<Rightarrow> Some (Inr ([], d1, iter1))
      | Some (Inr (Some e, d1, iter1)) \<Rightarrow>
          map_option (\<lambda>r. bindE r (\<lambda>(es, x). Inr (e # es, x))) (iterate_all n fuel addr d1 iter1))"

lemma sint64_nonneg_nat:
  fixes w :: u64
  assumes "unat w < 9223372036854775808"
  shows "sint w = int (unat w)"
proof -
  obtain n where n: "unat w = n" "uint w = int n" by (rule uint_unatE)
  have "uint w < 2 ^ 63" and "- (2 ^ 63) \<le> uint w" using assms unfolding n by simp_all
  then have "signed_take_bit 63 (uint w) = uint w" by (simp add: signed_take_bit_int_eq_self)
  then show ?thesis using n by (simp add: sint_uint)
qed

lemma ahead_of_fresh:
  assumes "dict_ok P d" and "it_table iter = 0" and "it_index iter = - 1"
  shows "concat (ahead_of d iter) = entries d"
proof -
  have "ht_entries (ht_sel d t) = concat (tab d t)" for t by (auto simp: ht_entries_def tab_def split: option.splits)
  from this [of 0] this [of 1] have "entries d = concat (tab d 0) @ concat (tab d 1)" by (simp add: entries_def ht_sel_def)
  moreover have "tab d 1 = []" if "\<not> dictIsRehashing d" using assms(1) that by (simp add: dict_ok_def tab_def ht_sel_def dictReset_def)
  ultimately show ?thesis using assms(2,3) by (simp add: ahead_of_def)
qed

lemma length_ahead_of_fresh:
  "it_table iter = 0 \<Longrightarrow> it_index iter = - 1 \<Longrightarrow> length (ahead_of d iter) \<le> length (tab d 0) + length (tab d 1)"
  by (simp add: ahead_of_def)

lemma iterate_all_ok:
  assumes "iterating addr d0 d iter" and "tables_fit d0" and "length (ahead_of d0 iter) + 2 \<le> fuel"
    and "length (remaining d0 iter) < n"
  shows "\<exists>d1 iter1. iterate_all n fuel addr d iter = Some (Inr (remaining d0 iter, d1, iter1)) \<and>
    iterating addr d0 d1 iter1 \<and> \<not> fresh_iter iter1"
  using assms
proof (induction n arbitrary: d iter)
  case (Suc n)
  have f: "length (ahead_of d0 iter) + (if it_entry iter = [] then 1 else 2) \<le> fuel" using Suc.prems(3) by simp
  note ok = dictNext_ok [OF Suc.prems(1,2) f]
  show ?case
  proof (cases "remaining d0 iter")
    case Nil
    then show ?thesis using ok by auto
  next
    case (Cons e es)
    with ok obtain d1 iter1 where n: "dictNext fuel addr d iter = Some (Inr (Some e, d1, iter1))" "iterating addr d0 d1 iter1"
      "remaining d0 iter1 = es" "length (ahead_of d0 iter1) \<le> length (ahead_of d0 iter)" by auto
    then show ?thesis using Suc.IH [OF n(2) Suc.prems(2)] Suc.prems(3,4) Cons by auto
  qed
qed simp

text \<open>
  C20. An iterator, safe or not, visits exactly the entries of the dictionary, each once and also in
  the middle of a rehashing; then \<open>dictNext\<close> returns NULL, and releasing the iterator passes the check of
  the fingerprint and leaves the dictionary as it was, with the count of iterators restored.
\<close>

theorem iterator_visits_all:
  assumes "dict_ok P d" and "length (tab d 0) < 9223372036854775808" and "length (tab d 1) < 9223372036854775808"
    and "length (tab d 0) + length (tab d 1) + 2 \<le> fuel" and "length (entries d) < n"
  shows "\<exists>d1 iter1. iterate_all n fuel addr d (if safe then dictGetSafeIterator u else dictGetIterator u) =
      Some (Inr (entries d, d1, iter1)) \<and> dictReleaseIterator addr d1 iter1 = Inr d"
proof -
  let ?it = "if safe then dictGetSafeIterator u else dictGetIterator u"
  have it: "iterating addr d d ?it" "it_entry ?it = []" "it_table ?it = 0" "it_index ?it = - 1"
    by (simp_all add: iterating_def dictGetSafeIterator_def dictGetIterator_def fresh_iter_def)
  have oks: "ht_ok (dictHashKey d) (ht_sel d t)" for t using assms(1) by (simp add: dict_ok_def ht_sel_def)
  have sz: "sint (ht_size (ht_sel d t)) = int (length (tab d t))" for t
  proof -
    have "unat (ht_size (ht_sel d t)) = length (tab d t)" using oks [of t] by (auto simp: ht_ok_def tab_def split: option.splits)
    moreover have "length (tab d t) < 9223372036854775808" using assms(2,3) by (cases "t = 0") (simp_all add: tab_def ht_sel_def)
    ultimately show ?thesis by (metis sint64_nonneg_nat)
  qed
  have en: "entries d = concat (ahead_of d ?it)" by (rule ahead_of_fresh [OF assms(1) it(3,4), symmetric])
  have "tab d 1 \<noteq> []" if "dictIsRehashing d"
  proof -
    have "ht_table (ht_sel d 1) \<noteq> None" using assms(1) that by (simp add: dict_ok_def ht_sel_def)
    then obtain t where t: "ht_table (ht_sel d 1) = Some t" by blast
    obtain k where "length t = 2 ^ k" using sizemask_mask [OF oks t] by blast
    then have "length t \<noteq> 0" by simp
    then show ?thesis using t by (simp add: tab_def)
  qed
  then have fit: "tables_fit d" using sz by (simp add: tables_fit_def)
  have "length (ahead_of d ?it) + 2 \<le> fuel" using assms(4) length_ahead_of_fresh [OF it(3,4), of d] by linarith
  moreover have "remaining d ?it = entries d" unfolding remaining_def en it(2) by simp
  ultimately obtain d1 iter1 where "iterate_all n fuel addr d ?it = Some (Inr (entries d, d1, iter1))"
    "iterating addr d d1 iter1" "\<not> fresh_iter iter1"
    using iterate_all_ok [OF it(1) fit, of fuel n] assms(5) by auto
  moreover have "dictReleaseIterator addr d1 iter1 = Inr d"
    using calculation(2,3) by (cases d) (auto simp: dictReleaseIterator_def iterating_def fresh_iter_def)
  ultimately show ?thesis by blast
qed

theorem iterator_visits_all_witness:
  "\<exists>d1 iter1. iterate_all 5 9 (\<lambda>_. 0) demo_dict (if True then dictGetSafeIterator 0 else dictGetIterator 0) =
     Some (Inr (entries demo_dict, d1, iter1)) \<and> dictReleaseIterator (\<lambda>_. 0) d1 iter1 = Inr demo_dict"
  by (rule iterator_visits_all [OF demo_dict_ok(1)])
    (simp_all add: demo_dict_def tab_def ht_sel_def dictReset_def entries_def ht_entries_def)

section \<open>Samples\<close>

lemma rehash_count_ok:
  assumes "dict_ok P d"
  shows "\<exists>d'. rehash_count n d = Inr d' \<and> dict_ok P d' \<and> mset (entries d') = mset (entries d)"
  using assms
proof (induction n arbitrary: d)
  case (Suc n)
  obtain d1 where d1: "dictRehashStep d = Inr d1" "dict_ok P d1" "dict_sim d d1"
    using Suc.prems by (rule dictRehashStep_ok)
  then show ?case using Suc.IH [OF d1(2)] Suc.prems by (auto simp: dict_sim_def)
qed auto

definition sampling :: "('k, 'v) dict \<Rightarrow> nat \<Rightarrow> ('k, 'v) some_state \<Rightarrow> bool" where
  "sampling d cnt s \<longleftrightarrow> set (ss_des s) \<subseteq> set (entries d) \<and> stored s \<le> cnt"

lemma bucket_entries:
  assumes "ht_ok H (ht_sel d j)" and "i < ht_size (ht_sel d j)"
  shows "\<exists>he. bucket (ht_sel d j) (unat i) = Inr he \<and> set he \<subseteq> set (entries d)"
proof -
  obtain t where t: "ht_table (ht_sel d j) = Some t" using assms by (cases "ht_table (ht_sel d j)") (auto simp: ht_ok_def)
  have "length t = unat (ht_size (ht_sel d j))" using assms(1) t by (auto simp: ht_ok_def)
  then have i: "unat i < length t" using assms(2) by (simp add: word_less_nat_alt)
  then have "set (t ! unat i) \<subseteq> set (concat t)" using nth_mem [OF i] by (auto simp del: nth_mem)
  moreover have "set (concat t) \<subseteq> set (entries d)"
    using t by (cases "j = 0") (auto simp: entries_def ht_sel_def)
  ultimately show ?thesis using t i by (auto simp: bucket_def)
qed

lemma some_keys_table_ok:
  assumes ok: "dict_ok P d" and s: "sampling d cnt s"
  shows "\<exists>s'. some_keys_table random m cnt two d j s = Inr s' \<and> sampling d cnt s'"
proof -
  define skip where "skip = (two \<and> j = 0 \<and> ss_i s < word_of_int (rehashidx d))"
  define s1 where "s1 = (if skip \<and> ss_i s \<ge> ht_size (ht1 d) then s\<lparr>ss_i := word_of_int (rehashidx d)\<rparr> else s)"
  note unfold = some_keys_table_def [of random m cnt two d j s, folded skip_def s1_def, unfolded Let_def, folded s1_def]
  have s1: "sampling d cnt s1" using s by (simp add: sampling_def stored_def s1_def)
  have upd: "sampling d cnt (s1\<lparr>ss_i := a, ss_emptylen := b, ss_random := c\<rparr>)" "sampling d cnt (s1\<lparr>ss_emptylen := b\<rparr>)" for a b c
    using s1 by (simp_all add: sampling_def stored_def)
  show ?thesis
  proof (cases "skip \<and> \<not> ss_i s \<ge> ht_size (ht1 d) \<or> ss_i s1 \<ge> ht_size (ht_sel d j)")
    case True
    then show ?thesis using s s1 unfolding unfold by auto
  next
    case False
    have "ht_ok (dictHashKey d) (ht_sel d j)" using ok by (simp add: dict_ok_def ht_sel_def)
    moreover have "ss_i s1 < ht_size (ht_sel d j)" using False by (simp add: not_le)
    ultimately obtain he where he: "bucket (ht_sel d j) (unat (ss_i s1)) = Inr he" "set he \<subseteq> set (entries d)"
      using bucket_entries by blast
    have "set (take n he) \<subseteq> set (entries d)" for n using he(2) set_take_subset by fast
    then have "sampling d cnt (s1\<lparr>ss_emptylen := 0, ss_des := ss_des s1 @ take (cnt - stored s1) he\<rparr>)"
      using s1 by (auto simp: sampling_def stored_def)
    then show ?thesis using False he(1) upd unfolding unfold by auto
  qed
qed

lemma some_keys_loop_ok:
  assumes "dict_ok P d" and "sampling d cnt s"
  shows "\<exists>s'. some_keys_loop n random m cnt two d s = Inr s' \<and> sampling d cnt s'"
  using assms(2)
proof (induction n arbitrary: s)
  case (Suc n)
  obtain s1 where s1: "some_keys_table random m cnt two d 0 s = Inr s1" "sampling d cnt s1"
    using some_keys_table_ok [OF assms(1) Suc.prems] by blast
  obtain s2 where s2: "some_keys_table random m cnt two d 1 s1 = Inr s2" "sampling d cnt s2"
    using some_keys_table_ok [OF assms(1) s1(2)] by blast
  have "sampling d cnt (x\<lparr>ss_i := i\<rparr>) \<longleftrightarrow> sampling d cnt x" for x i by (simp add: sampling_def stored_def)
  then show ?case
    using Suc s1 s2 by (cases two) auto
qed simp

text \<open>
  C21. \<open>dictGetSomeKeys\<close> never runs outside the tables, whatever the random numbers are: it returns at most
  as many entries as asked for and as there are, all of them entries of the dictionary, and the
  rehashing steps it makes on the way keep the contents.
\<close>

theorem dictGetSomeKeys_sound:
  assumes "dict_ok P d"
  shows "\<exists>es d'. dictGetSomeKeys random d cnt = Inr (es, d') \<and> dict_ok P d' \<and> mset (entries d') = mset (entries d) \<and>
    set es \<subseteq> set (entries d) \<and> length es \<le> unat cnt \<and> length es \<le> length (entries d)"
proof -
  define c where "c = (if dictSize d < ucast cnt then ucast (dictSize d) else cnt)"
  have sz: "unat (dictSize d) = length (entries d)" using used_entries_empty(3) [OF assms] by (simp add: dictSize_def)
  have u: "unat (ucast cnt :: u64) = unat cnt"
    using unat_lt32 [of cnt] by (simp add: unsigned_ucast_eq take_bit_nat_eq_self)
  have c: "unat c \<le> unat cnt" "unat c \<le> length (entries d)"
  proof -
    have "unat c = min (unat cnt) (length (entries d))"
    proof (cases "dictSize d < ucast cnt")
      case True
      then have lt: "unat (dictSize d) < unat cnt" by (simp add: word_less_nat_alt u)
      then have "unat (ucast (dictSize d) :: u32) = unat (dictSize d)"
        using unat_lt32 [of cnt] by (simp add: unsigned_ucast_eq take_bit_nat_eq_self)
      then show ?thesis using True lt sz by (simp add: c_def)
    next
      case False
      then show ?thesis using sz by (simp add: c_def word_less_nat_alt u)
    qed
    then show "unat c \<le> unat cnt" "unat c \<le> length (entries d)" by simp_all
  qed
  obtain d1 where d1: "rehash_count (unat c) d = Inr d1" "dict_ok P d1" "mset (entries d1) = mset (entries d)"
    using rehash_count_ok [OF assms] by blast
  have "sampling d1 (unat c) \<lparr>ss_i = i, ss_emptylen = 0, ss_random = 1, ss_des = []\<rparr>" for i by (simp add: sampling_def stored_def)
  from some_keys_loop_ok [OF d1(2) this] obtain s where
    "\<And>n m two i. \<exists>s. some_keys_loop n random m (unat c) two d1 \<lparr>ss_i = i, ss_emptylen = 0, ss_random = 1, ss_des = []\<rparr> = Inr s \<and>
      sampling d1 (unat c) s" by blast
  then obtain s where "dictGetSomeKeys random d cnt = Inr (ss_des s, d1)" "sampling d1 (unat c) s"
    using d1(1) unfolding dictGetSomeKeys_def c_def [symmetric] Let_def by (metis (no_types, lifting) bindE_simps(2))
  then show ?thesis using d1(2,3) c mset_eq_setD [OF d1(3)] by (auto simp: sampling_def stored_def)
qed

lemma demo_dict_entries: "length (entries demo_dict) = 1"
  by (simp add: demo_dict_def entries_def ht_entries_def dictReset_def)

theorem dictGetSomeKeys_sound_witness:
  "\<exists>es d'. dictGetSomeKeys (\<lambda>_. 3) demo_dict 5 = Inr (es, d') \<and> set es \<subseteq> set (entries demo_dict) \<and> length es \<le> 1"
  using dictGetSomeKeys_sound [OF demo_dict_ok(1), of "\<lambda>_. 3" 5]
    demo_dict_entries by fastforce

end
