(* ===== verification/Gp_Codec.thy ===== *)
theory Gp_Codec
  imports Gp_Buffer Gp_Dict_Correct
begin

text \<open>
  The wire format of \<open>base/gp_codec.c\<close>: a magic number, the length of the rest, the length of the
  message's name, the name with its NUL, and the packed protobuf message, all integers in network
  order. The protobuf library is a parameter (\<open>packed_size\<close>, \<open>pack\<close>, \<open>unpack\<close>); the registry of
  message descriptors is a dictionary with string keys.
\<close>

section \<open>Operations\<close>

definition k_magic :: u32 where
  "k_magic = 0x1343EA4"

definition k_header :: u32 where
  "k_header = 4"

text \<open>The registry is created on first use: \<open>None\<close> is the NULL pointer the global starts with.\<close>

definition get_pb_map :: "bytes \<Rightarrow> (bytes, 'd) dict option \<Rightarrow> (bytes, 'd) dict" where
  "get_pb_map seed pb_map =
     (case pb_map of None \<Rightarrow> dictInit (StringDictType seed) | Some d \<Rightarrow> d)"

definition register_name_pb_map ::
  "bytes \<Rightarrow> bool \<Rightarrow> bytes \<Rightarrow> 'd \<Rightarrow> (bytes, 'd) dict option \<Rightarrow> (bytes, 'd) dict option res" where
  "register_name_pb_map seed can_resize name desc pb_map =
     bindE (dictAdd can_resize (get_pb_map seed pb_map) name desc) (\<lambda>(st, d). Inr (Some d))"

definition encode_errcode :: "(nat \<Rightarrow> u8) \<Rightarrow> u32 \<Rightarrow> (bytes \<times> u32) res" where
  "encode_errcode fill errcode =
     (let tmp = k_header + k_header; str = malloc_block fill (unat (size_of_int32 tmp)) in
      bindE (mem_write 0 (be_bytes 4 k_magic) str) (\<lambda>str1.
      bindE (mem_write (unat k_header) (be_bytes 4 errcode) str1) (\<lambda>str2.
        Inr (str2, tmp))))"

text \<open>
  \<open>name_of msg\<close> is the memory from \<open>msg->descriptor->name\<close> on. The lengths are \<open>int\<close>s; the copy of
  the name takes \<open>name_len + 1\<close> bytes, one more than the name and its NUL.
\<close>

definition encode ::
  "(nat \<Rightarrow> u8) \<Rightarrow> ('m \<Rightarrow> bytes) \<Rightarrow> ('m \<Rightarrow> u64) \<Rightarrow> ('m \<Rightarrow> bytes) \<Rightarrow> 'm \<Rightarrow> (bytes \<times> u32) res" where
  "encode fill name_of packed_size pack msg =
     (let name = name_of msg;
          t = (ucast (packed_size msg) :: u32);
          name_len = (of_nat (length (c_str name) + 1) :: u32)
      in
      bindE (c_add32 (k_header + k_header + k_header) name_len) (\<lambda>s.
      bindE (c_add32 s t) (\<lambda>tmp_len.
      bindE (mem_write 0 (be_bytes 4 k_magic) (malloc_block fill (unat (size_of_int32 tmp_len)))) (\<lambda>str1.
      bindE (mem_write 4 (be_bytes 4 (tmp_len - k_header - k_header)) str1) (\<lambda>str2.
      bindE (mem_write 8 (be_bytes 4 name_len) str2) (\<lambda>str3.
      bindE (c_add32 name_len 1) (\<lambda>n1.
      bindE (mem_read 0 (unat (size_of_int32 n1)) name) (\<lambda>src.
      bindE (mem_write 12 src str3) (\<lambda>str4.
      bindE (mem_write (12 + unat (size_of_int32 name_len)) (pack msg) str4) (\<lambda>str5.
        Inr (str5, tmp_len)))))))))))"

text \<open>
  The result is the message (NULL: \<open>None\<close>), the registry and the buffer. The length word is read
  at \<open>peek (buffer) + 4\<close> whether or not eight bytes are readable.
\<close>

definition decode ::
  "bytes \<Rightarrow> ('d \<Rightarrow> bytes \<Rightarrow> 'm option) \<Rightarrow> (bytes, 'd) dict option \<Rightarrow> gp_buffer \<Rightarrow>
   ('m option \<times> (bytes, 'd) dict option \<times> gp_buffer) res" where
  "decode seed unpack pb_map b =
     bindE (peek_int32 b) (\<lambda>magic.
     if magic \<noteq> k_magic then Inr (None, pb_map, retrieve_all b)
     else
       bindE (mem_read (peek b + 4) 4 (buf_bytes b)) (\<lambda>be32.
       let len = (be_word 0 be32 :: u32) in
       if sint len > 65536 \<or> sint len < 0 then Inr (None, pb_map, retrieve_all b)
       else if size_of_int32 (len + 8) \<le> readable_bytes b then
         bindE (read_int32 (retrieve b 8)) (\<lambda>(name_len, b1).
         bindE (read_str b1 name_len) (\<lambda>(name, b2).
         bindE (dictFetchValue (get_pb_map seed pb_map) name) (\<lambda>(desc, map1).
         case desc of
           None \<Rightarrow> Inr (None, Some map1, retrieve_all b2)
         | Some ds \<Rightarrow>
             bindE (c_sub32 (len - 4) name_len) (\<lambda>n.
             bindE (read_pb_msg unpack b2 ds n) (\<lambda>(msg, b3).
               Inr (msg, Some map1, b3))))))
       else Inr (None, pb_map, b)))"

section \<open>Keys read from memory\<close>

text \<open>A dictionary with string keys looks only at the key's bytes up to the first NUL.\<close>

lemma compareCallbackString_norm:
  assumes "length (c_str k) < 2147483648"
  shows "compareCallbackString k = compareCallbackString (c_str k @ [0])"
proof -
  have 0: "0 \<notin> set (c_str k)" by (auto simp: c_str_def dest: set_takeWhileD)
  have len: "unat (size_of_int32 (of_nat (length (c_str k)))) = length (c_str k)"
    using assms by (simp add: unat_size_of_int32 unat_of_nat32)
  have "take (length (c_str k)) k = c_str k"
    by (simp add: c_str_def takeWhile_eq_take [symmetric])
  then show ?thesis
    by (intro ext) (simp only: compareCallbackString_def Let_def c_str_string [OF 0] len, simp)
qed

lemma chain_find_cong:
  "dictCompareKeys d k = dictCompareKeys d k' \<Longrightarrow> chain_find d k es = chain_find d k' es"
  by (induction es) simp_all

lemma dictFetchValue_string_norm:
  assumes ok: "dict_ok string_key d" and T: "d_type d = StringDictType seed"
    and k: "length (c_str k) < 2147483648"
  shows "dictFetchValue d k = dictFetchValue d (c_str k @ [0])"
proof -
  obtain d1 where d1: "rehash_if_needed d = Inr d1" "d_type d1 = StringDictType seed"
    using rehash_if_needed_ok [OF ok] T by (metis dict_sim_def)
  have 0: "0 \<notin> set (c_str k)" by (auto simp: c_str_def dest: set_takeWhileD)
  have cmp: "dictCompareKeys d1 k = dictCompareKeys d1 (c_str k @ [0])"
    using compareCallbackString_norm [OF k] by (simp add: fun_eq_iff dictCompareKeys_def d1(2) StringDictType_def)
  have hash: "dictHashKey d1 k = dictHashKey d1 (c_str k @ [0])"
    using 0 by (simp add: dictHashKey_def d1(2) StringDictType_def hashCallbackString_def c_str_string)
  have "search_tables d1 k h = search_tables d1 (c_str k @ [0]) h" for h
    unfolding search_tables_def chain_find_cong [OF cmp] ..
  then show ?thesis
    by (simp add: dictFetchValue_def dictFind_def d1(1) hash)
qed

definition registry_ok :: "bytes \<Rightarrow> (bytes, 'd) dict option \<Rightarrow> bool" where
  "registry_ok seed pb_map \<longleftrightarrow>
     (\<forall>d. pb_map = Some d \<longrightarrow> dict_ok string_key d \<and> d_type d = StringDictType seed)"

definition registered :: "(bytes, 'd) dict option \<Rightarrow> bytes \<Rightarrow> 'd option" where
  "registered pb_map name =
     Option.bind pb_map (\<lambda>d. Option.bind (dict_map d (name @ [0])) id)"

lemma registry_get:
  assumes "registry_ok seed pb_map"
  shows "dict_ok string_key (get_pb_map seed pb_map)" and "d_type (get_pb_map seed pb_map) = StringDictType seed"
    and "registered (Some (get_pb_map seed pb_map)) = registered pb_map"
  using assms by (auto simp: registry_ok_def get_pb_map_def dictInit_ok registered_def fun_eq_iff split: option.splits)

text \<open>What looking up a name does, the key being any memory that starts with the name and a NUL.\<close>

lemma registry_fetch:
  assumes ok: "registry_ok seed pb_map" and n: "length (c_str k) < 2147483648"
  shows "\<exists>d'. dictFetchValue (get_pb_map seed pb_map) k = Inr (registered pb_map (c_str k), d') \<and>
    registry_ok seed (Some d') \<and> registered (Some d') = registered pb_map"
proof -
  let ?d = "get_pb_map seed pb_map"
  note get = registry_get [OF ok]
  have "0 \<notin> set (c_str k)" by (auto simp: c_str_def dest: set_takeWhileD)
  then have key: "string_key (c_str k @ [0])" using n by (auto simp: string_key_def)
  obtain d' where d': "dictFetchValue ?d (c_str k @ [0]) = Inr (Option.bind (dict_map ?d (c_str k @ [0])) id, d')"
    "dict_ok string_key d'" "d_type d' = StringDictType seed" "dict_map d' = dict_map ?d"
    using string_ptr.dictFetchValue_ok [OF get(1,2) key] by blast
  have "registered (Some d') = registered (Some ?d)" using d'(4) by (simp add: registered_def fun_eq_iff)
  moreover have "Option.bind (dict_map ?d (c_str k @ [0])) id = registered pb_map (c_str k)"
    unfolding get(3) [symmetric] by (simp add: registered_def)
  ultimately show ?thesis
    using d' get(3) dictFetchValue_string_norm [OF get(1,2) n] by (simp add: registry_ok_def)
qed

lemma register_name_pb_map_ok:
  assumes ok: "registry_ok seed pb_map" and n: "0 \<notin> set name" "length name < 2147483648"
    and room: "card (dom (dict_map (get_pb_map seed pb_map))) + 1 < 4611686018427387904"
    and new: "dict_map (get_pb_map seed pb_map) (name @ [0]) = None"
  shows "\<exists>m. register_name_pb_map seed c (name @ [0]) desc pb_map = Inr m \<and> registry_ok seed m \<and>
    registered m = (registered pb_map)(name \<mapsto> desc)"
proof -
  let ?d = "get_pb_map seed pb_map"
  note get = registry_get [OF ok]
  have key: "string_key (name @ [0])" using n by (auto simp: string_key_def)
  obtain d' where d': "dictAdd c ?d (name @ [0]) desc = Inr (DICT_OK, d')" "dict_ok string_key d'"
    "d_type d' = StringDictType seed"
    "dict_map d' = (dict_map ?d)(name @ [0] \<mapsto> Some (value_dup (StringDictType seed) desc))"
    using string_ptr.dictAdd_ok [OF get(1,2) key room, of c desc] new by auto
  moreover have "registered (Some d') = (registered (Some ?d))(name \<mapsto> desc)"
    using d'(4) by (auto simp: registered_def fun_eq_iff value_dup_def StringDictType_def)
  ultimately show ?thesis
    using get(3) by (simp add: register_name_pb_map_def registry_ok_def)
qed

section \<open>Frames\<close>

definition frame :: "bytes \<Rightarrow> bytes \<Rightarrow> bytes" where
  "frame name payload =
     be_bytes 4 k_magic @ be_bytes 4 (of_nat (4 + (length name + 1) + length payload) :: u32) @
     be_bytes 4 (of_nat (length name + 1) :: u32) @ name @ [0] @ payload"

lemma length_frame: "length (frame name payload) = length name + length payload + 13"
  by (simp add: frame_def del: be_bytes_numeral)

lemma mem_write_tail:
  "length pre = off \<Longrightarrow> length bs \<le> length tail \<Longrightarrow>
   mem_write off bs (pre @ tail) = Inr (pre @ bs @ drop (length bs) tail)"
  by (simp add: mem_write_def)

lemma encode_lengths:
  assumes n: "length s + length payload + 13 < 2147483648"
  defines "name_len \<equiv> of_nat (length s + 1) :: u32"
  defines "tmp \<equiv> of_nat (length s + length payload + 13) :: u32"
  shows "unat name_len = length s + 1" and "unat tmp = length s + length payload + 13"
    and "bindE (c_add32 (k_header + k_header + k_header) name_len) (\<lambda>x. c_add32 x (of_nat (length payload))) = Inr tmp"
    and "tmp - k_header - k_header = of_nat (4 + (length s + 1) + length payload)"
    and "c_add32 name_len 1 = Inr (of_nat (length s + 2))"
    and "unat (size_of_int32 tmp) = length s + length payload + 13"
    and "unat (size_of_int32 name_len) = length s + 1"
    and "unat (size_of_int32 (of_nat (length s + 2) :: u32)) = length s + 2"
proof -
  show nl: "unat name_len = length s + 1" unfolding name_len_def using n by (intro unat_of_nat32) simp
  show tm: "unat tmp = length s + length payload + 13" unfolding tmp_def using n by (intro unat_of_nat32) simp
  have t: "unat (of_nat (length payload) :: u32) = length payload" using n by (intro unat_of_nat32) simp
  have k: "k_header + k_header + k_header = (12 :: u32)" by (simp add: k_header_def)
  have s1: "unat (12 + name_len) = length s + 13" using nl n by (subst unat_add32) simp_all
  have "c_add32 12 name_len = Inr (12 + name_len)" using nl n by (intro c_add32_nonneg) simp
  moreover have "c_add32 (12 + name_len) (of_nat (length payload)) = Inr (12 + name_len + of_nat (length payload))"
    using s1 t n by (intro c_add32_nonneg) simp
  ultimately show "bindE (c_add32 (k_header + k_header + k_header) name_len)
      (\<lambda>x. c_add32 x (of_nat (length payload))) = Inr tmp"
    unfolding k by (simp add: name_len_def tmp_def algebra_simps)
  show "tmp - k_header - k_header = of_nat (4 + (length s + 1) + length payload)"
    by (simp add: tmp_def k_header_def algebra_simps)
  have "c_add32 name_len 1 = Inr (name_len + 1)" using nl n by (intro c_add32_nonneg) simp
  then show "c_add32 name_len 1 = Inr (of_nat (length s + 2))" by (simp add: name_len_def algebra_simps)
  show "unat (size_of_int32 tmp) = length s + length payload + 13" using tm n by (simp add: unat_size_of_int32)
  show "unat (size_of_int32 name_len) = length s + 1" using nl n by (simp add: unat_size_of_int32)
  have "unat (of_nat (length s + 2) :: u32) = length s + 2" using n by (intro unat_of_nat32) simp
  then show "unat (size_of_int32 (of_nat (length s + 2) :: u32)) = length s + 2"
    using n by (simp add: unat_size_of_int32 del: of_nat_add)
qed

lemma c_str_name: "0 \<notin> set s \<Longrightarrow> c_str (s @ 0 # rest) = s"
  by (induction s) (auto simp: c_str_def)

lemma encode_steps:
  fixes pack :: "'m \<Rightarrow> bytes" and fill :: "nat \<Rightarrow> u8"
  assumes name: "name_of msg = s @ 0 # rest" "0 \<notin> set s"
    and n: "length s + length (pack msg) + 13 < 2147483648"
    and sz: "packed_size msg = of_nat (length (pack msg))"
  defines "blk \<equiv> malloc_block fill (length s + length (pack msg) + 13)"
  shows "encode fill name_of packed_size pack msg =
    bindE (mem_read 0 (length s + 2) (s @ 0 # rest)) (\<lambda>src.
    bindE (mem_write 12 src
      (be_bytes 4 k_magic @ be_bytes 4 (of_nat (4 + (length s + 1) + length (pack msg)) :: u32) @
       be_bytes 4 (of_nat (length s + 1) :: u32) @ drop 12 blk)) (\<lambda>str4.
    bindE (mem_write (12 + (length s + 1)) (pack msg) str4) (\<lambda>str5.
      Inr (str5, of_nat (length s + length (pack msg) + 13)))))"
proof -
  have t: "(ucast (packed_size msg) :: u32) = of_nat (length (pack msg))"
    using n by (simp add: sz unsigned_of_nat take_bit_nat_eq_self)
  note L = encode_lengths [OF n]
  obtain y where y: "c_add32 (k_header + k_header + k_header) (of_nat (length s + 1)) = Inr y"
    "c_add32 y (of_nat (length (pack msg))) = Inr (of_nat (length s + length (pack msg) + 13))"
    using L(3) by (auto simp: bindE_Inr_iff)
  define M where "M = be_bytes 4 k_magic"
  define B where "B = be_bytes 4 (of_nat (4 + (length s + 1) + length (pack msg)) :: u32)"
  define N where "N = be_bytes 4 (of_nat (length s + 1) :: u32)"
  have len: "length M = 4" "length B = 4" "length N = 4" by (simp_all only: M_def B_def N_def length_be_bytes)
  have blk: "length blk = length s + length (pack msg) + 13" by (simp add: blk_def)
  have w1: "mem_write 0 M blk = Inr (M @ drop 4 blk)"
    using mem_write_tail [of "[]" 0 M blk] len blk by simp
  have w2: "mem_write 4 B (M @ drop 4 blk) = Inr (M @ B @ drop 8 blk)"
    using mem_write_tail [of M 4 B "drop 4 blk"] len blk by simp
  have w3: "mem_write 8 N (M @ B @ drop 8 blk) = Inr (M @ B @ N @ drop 12 blk)"
    using mem_write_tail [of "M @ B" 8 N "drop 8 blk"] len blk by simp
  show ?thesis
    unfolding encode_def Let_def name c_str_name [OF name(2)] t
    by (simp only: y bindE_simps L(4-8) M_def [symmetric] B_def [symmetric] N_def [symmetric]
        blk_def [symmetric] w1 w2 w3)
qed

lemma encode_frame:
  assumes "name_of msg = s @ 0 # x # rest" "0 \<notin> set s"
    and "length s + length (pack msg) + 13 < 2147483648"
    and "packed_size msg = of_nat (length (pack msg))" and "pack msg \<noteq> []"
  shows "encode fill name_of packed_size pack msg = Inr (frame s (pack msg), of_nat (length (frame s (pack msg))))"
proof -
  define H where "H = be_bytes 4 k_magic @ be_bytes 4 (of_nat (4 + (length s + 1) + length (pack msg)) :: u32) @
       be_bytes 4 (of_nat (length s + 1) :: u32)"
  have H: "length H = 12" by (simp only: H_def length_append length_be_bytes)
  define tail where "tail = drop 12 (malloc_block fill (length s + length (pack msg) + 13))"
  have tail: "length tail = length s + length (pack msg) + 1" by (simp add: tail_def)
  have w1: "mem_write 12 (s @ [0, x]) (H @ tail) = Inr ((H @ s @ [0]) @ x # drop (length s + 2) tail)"
    using mem_write_tail [of H 12 "s @ [0, x]" tail] H tail assms(5) by (simp add: Suc_le_eq)
  have w2: "mem_write (12 + (length s + 1)) (pack msg) ((H @ s @ [0]) @ x # drop (length s + 2) tail) =
      Inr ((H @ s @ [0]) @ pack msg)"
    using mem_write_tail [of "H @ s @ [0]" "12 + (length s + 1)" "pack msg" "x # drop (length s + 2) tail"]
      H tail assms(5) by (cases "pack msg") simp_all
  have r: "mem_read 0 (length s + 2) (s @ 0 # x # rest) = Inr (s @ [0, x])"
    by (simp add: mem_read_def)
  show ?thesis
    using encode_steps [of name_of msg s "x # rest" pack packed_size fill] assms(1-4) r w1 w2 length_frame [of s "pack msg"]
    by (simp add: H_def tail_def [symmetric] frame_def del: be_bytes_numeral)
qed

text \<open>
  The copy of the name takes one byte more than the string with its NUL has. It is read outside the
  array when nothing follows the NUL, and written outside the block when the message packs to nothing.
\<close>

lemma encode_out_of_bounds:
  assumes "name_of msg = s @ 0 # rest" "0 \<notin> set s" and "length s + length (pack msg) + 13 < 2147483648"
    and "packed_size msg = of_nat (length (pack msg))" and "rest = [] \<or> pack msg = []"
  shows "encode fill name_of packed_size pack msg = Inl OutOfBounds"
  using encode_steps [of name_of msg s rest pack packed_size fill] assms
  by (cases rest) (auto simp: mem_read_def mem_write_def simp del: be_bytes_numeral)

section \<open>Decoding\<close>

lemma mem_read_offset:
  assumes "buffer_ok b" and "off + n \<le> length (contents b)"
  shows "mem_read (peek b + off) n (buf_bytes b) = Inr (take n (drop off (contents b)))"
  using assms buffer_okD [OF assms(1)]
  by (simp add: mem_simps peek_def contents_def min_absorb1 drop_take add.commute)

lemma len_check:
  fixes len :: u32
  shows "(sint len > 65536 \<or> sint len < 0) \<longleftrightarrow> 65536 < unat len"
proof -
  obtain n where n: "unat len = n" "uint len = int n" by (rule uint_unatE)
  show ?thesis
    using sint32_nonneg [of len] sint32_neg [of len] unat_lt32 [of len] unfolding n
    by (cases "n < 2147483648") auto
qed

text \<open>What \<open>decode\<close> does once the eight bytes of the header are there.\<close>

definition decode_body ::
  "bytes \<Rightarrow> ('d \<Rightarrow> bytes \<Rightarrow> 'm option) \<Rightarrow> (bytes, 'd) dict option \<Rightarrow> u32 \<Rightarrow> gp_buffer \<Rightarrow>
   ('m option \<times> (bytes, 'd) dict option \<times> gp_buffer) res" where
  "decode_body seed unpack pb_map len b =
     bindE (read_int32 b) (\<lambda>(name_len, b1).
     bindE (read_str b1 name_len) (\<lambda>(name, b2).
     bindE (dictFetchValue (get_pb_map seed pb_map) name) (\<lambda>(desc, map1).
     case desc of
       None \<Rightarrow> Inr (None, Some map1, retrieve_all b2)
     | Some ds \<Rightarrow>
         bindE (c_sub32 (len - 4) name_len) (\<lambda>n.
         bindE (read_pb_msg unpack b2 ds n) (\<lambda>(msg, b3). Inr (msg, Some map1, b3))))))"

lemma decode_header:
  assumes ok: "buffer_ok b" and c: "contents b = be_bytes 4 magic @ be_bytes 4 (len :: u32) @ body"
  shows "decode seed unpack pb_map b =
    (if magic \<noteq> k_magic \<or> 65536 < unat len then Inr (None, pb_map, retrieve_all b)
     else if unat len \<le> length body then decode_body seed unpack pb_map len (retrieve b 8)
     else Inr (None, pb_map, b))"
proof -
  have n: "length (contents b) = 8 + length body" unfolding c by (simp only: length_append length_be_bytes)
  have "take 4 (contents b) = be_bytes 4 magic" unfolding c by (simp del: be_bytes_numeral)
  then have m: "peek_int32 b = Inr magic"
    using n by (simp add: peek_int32_def peek_word_eq [OF ok] del: length_contents be_bytes_numeral)
  have "take 4 (drop 4 (contents b)) = be_bytes 4 len" unfolding c by (simp del: be_bytes_numeral)
  then have l: "mem_read (peek b + 4) 4 (buf_bytes b) = Inr (be_bytes 4 len)"
    using n by (subst mem_read_offset [OF ok]) simp_all
  have rd: "size_of_int32 (len + 8) \<le> readable_bytes b \<longleftrightarrow> unat len \<le> length body" if "\<not> 65536 < unat len"
  proof -
    have "unat (len + 8) = unat len + 8" using that by (subst unat_add32) simp_all
    then show ?thesis
      using that n by (simp add: word_le_nat_alt unat_size_of_int32 readable_bytes_contents [OF ok] del: length_contents)
  qed
  have w: "be_word 0 (be_bytes 4 len) = len" by (rule be_word_be_bytes) simp
  show ?thesis
    unfolding decode_def m l bindE_simps Let_def w len_check
    by (simp add: rd decode_body_def del: be_bytes_numeral)
qed

lemma decode_body_name:
  assumes ok: "buffer_ok b" and c: "contents b = be_bytes 4 (name_len :: u32) @ rest"
    and reg: "registry_ok seed pb_map" and n: "unat name_len < 2147483647" "unat name_len \<le> length rest"
  shows "\<exists>b2 m1. buffer_ok b2 \<and> contents b2 = drop (unat name_len) rest \<and> registry_ok seed (Some m1) \<and>
    registered (Some m1) = registered pb_map \<and>
    decode_body seed unpack pb_map len b =
      (case registered pb_map (c_str (take (unat name_len) rest @ [0])) of
         None \<Rightarrow> Inr (None, Some m1, retrieve_all b2)
       | Some ds \<Rightarrow>
         bindE (c_sub32 (len - 4) name_len) (\<lambda>n.
         bindE (read_pb_msg unpack b2 ds n) (\<lambda>(msg, b3). Inr (msg, Some m1, b3))))"
proof -
  define b1 where "b1 = retrieve b 4"
  have b1: "buffer_ok b1" "contents b1 = rest"
    using retrieve_ok [OF ok] contents_retrieve [OF ok, of 4] c by (simp_all add: b1_def del: be_bytes_numeral)
  have "take 4 (contents b) = be_bytes 4 name_len" unfolding c by (simp del: be_bytes_numeral)
  moreover have "4 \<le> length (contents b)" unfolding c by (simp only: length_append length_be_bytes)
  ultimately have r1: "read_int32 b = Inr (name_len, b1)"
    by (simp add: read_int32_def peek_int32_def peek_word_eq [OF ok] b1_def del: length_contents be_bytes_numeral)
  define b2 where "b2 = retrieve b1 (size_of_int32 name_len)"
  have b2: "buffer_ok b2" "contents b2 = drop (unat name_len) rest"
    using retrieve_ok [OF b1(1)] contents_retrieve [OF b1(1), of "size_of_int32 name_len"] n(1)
    by (simp_all add: b2_def b1(2) unat_size_of_int32)
  define k where "k = take (unat name_len) rest @ [0]"
  have r2: "read_str b1 name_len = Inr (k, b2)"
    using n peek_str_eq [OF b1(1) n(1)] by (simp add: read_str_def b2_def k_def b1(2) del: length_contents)
  have "length (c_str k) \<le> length (take (unat name_len) rest)"
    using length_takeWhile_le [of "\<lambda>c. c \<noteq> 0" "take (unat name_len) rest"]
    by (auto simp: k_def c_str_def takeWhile_append)
  then have "length (c_str k) < 2147483648" using n by simp
  then obtain m1 where m1: "dictFetchValue (get_pb_map seed pb_map) k = Inr (registered pb_map (c_str k), m1)"
    "registry_ok seed (Some m1)" "registered (Some m1) = registered pb_map"
    using registry_fetch [OF reg] by blast
  show ?thesis
    using b2 m1 r1 r2 by (intro exI [of _ b2] exI [of _ m1]) (simp add: decode_body_def k_def [symmetric])
qed

lemma decode_frame:
  assumes ok: "buffer_ok b" and c: "contents b = frame s payload @ rest" and s: "0 \<notin> set s"
    and reg: "registry_ok seed pb_map" "registered pb_map s = Some desc"
    and n: "length s + length payload + 5 \<le> 65536"
  shows "\<exists>m1 b'. decode seed unpack pb_map b = Inr (unpack desc payload, Some m1, b') \<and>
    buffer_ok b' \<and> contents b' = rest \<and> registry_ok seed (Some m1) \<and> registered (Some m1) = registered pb_map"
proof -
  define len :: u32 where "len = of_nat (4 + (length s + 1) + length payload)"
  define nl :: u32 where "nl = of_nat (length s + 1)"
  have len: "unat len = length s + length payload + 5"
    unfolding len_def using n by (subst unat_of_nat32) simp_all
  have nl: "unat nl = length s + 1" unfolding nl_def using n by (subst unat_of_nat32) simp_all
  define body where "body = be_bytes 4 nl @ s @ [0] @ payload @ rest"
  have hdr: "contents b = be_bytes 4 k_magic @ be_bytes 4 len @ body"
    unfolding c frame_def len_def nl_def body_def by (simp only: append_assoc)
  have "length body = length s + length payload + length rest + 5"
    unfolding body_def by (simp only: length_append length_be_bytes) simp
  then have dec: "decode seed unpack pb_map b = decode_body seed unpack pb_map len (retrieve b 8)"
    using len n by (subst decode_header [OF ok hdr]) simp
  have ok8: "buffer_ok (retrieve b 8)" by (rule retrieve_ok [OF ok])
  have "contents (retrieve b 8) = drop 8 (contents b)" using contents_retrieve [OF ok, of 8] by simp
  then have c8: "contents (retrieve b 8) = be_bytes 4 nl @ (s @ [0] @ payload @ rest)"
    unfolding hdr by (simp add: body_def del: be_bytes_numeral)
  have name: "c_str (take (unat nl) (s @ [0] @ payload @ rest) @ [0]) = s"
    using c_str_name [OF s] by (simp add: nl)
  obtain b2 m1 where b2: "buffer_ok b2" "contents b2 = payload @ rest" "registry_ok seed (Some m1)"
    "registered (Some m1) = registered pb_map"
    "decode_body seed unpack pb_map len (retrieve b 8) =
      bindE (c_sub32 (len - 4) nl) (\<lambda>n. bindE (read_pb_msg unpack b2 desc n) (\<lambda>(msg, b3). Inr (msg, Some m1, b3)))"
    using decode_body_name [OF ok8 c8 reg(1), of unpack len] nl n name reg(2) by auto
  have l4: "unat (len - 4) = length s + length payload + 1" using len by (subst unat_diff_le) simp_all
  have "c_sub32 (len - 4) nl = Inr (len - 4 - nl)" using l4 nl n by (intro c_sub32_nonneg) simp_all
  moreover have pl: "unat (len - 4 - nl) = length payload" using l4 nl by (subst unat_diff_le) simp_all
  moreover have "read_pb_msg unpack b2 desc (len - 4 - nl) =
      Inr (unpack desc payload, retrieve b2 (size_of_int32 (len - 4 - nl)))"
    using pl n b2 peek_pb_msg_eq [OF b2(1), of "len - 4 - nl" unpack desc]
    by (simp add: read_pb_msg_def del: length_contents)
  moreover have "contents (retrieve b2 (size_of_int32 (len - 4 - nl))) = rest"
    using contents_retrieve [OF b2(1)] pl n b2(2) by (simp add: unat_size_of_int32)
  ultimately show ?thesis
    using dec b2 retrieve_ok [OF b2(1)] by auto
qed

text \<open>
  C4. The codec on a registered type whose frame respects the 65536 byte limit, for every name and
  message. \<open>encode\<close> copies one byte more than the NUL-terminated name has: when the array of the
  name ends with its NUL, as a string literal does, this byte is read outside the array, and when the
  message packs to no bytes it is written outside the block. In every other case \<open>encode\<close> gives a
  frame, and \<open>decode\<close> reads it back: from a buffer that starts with the frame it returns the message
  and leaves exactly the bytes that follow. Of the protobuf library only its documented contract is
  used: packing writes as many bytes as announced and unpacking a packed message gives the message back.
\<close>

theorem encode_decode_roundtrip:
  assumes "name_of msg = s @ 0 # behind" and "0 \<notin> set s" and "length s + length (pack msg) + 5 \<le> 65536"
    and "packed_size msg = of_nat (length (pack msg))" and "unpack desc (pack msg) = Some msg"
    and "registry_ok seed pb_map" and "registered pb_map s = Some desc"
  shows "if behind = [] \<or> pack msg = [] then encode fill name_of packed_size pack msg = Inl OutOfBounds
    else \<exists>fr. encode fill name_of packed_size pack msg = Inr (fr, of_nat (length fr)) \<and>
      (\<forall>b rest. buffer_ok b \<and> contents b = fr @ rest \<longrightarrow>
        (\<exists>pb_map' b'. decode seed unpack pb_map b = Inr (Some msg, pb_map', b') \<and>
          buffer_ok b' \<and> contents b' = rest \<and> registered pb_map' = registered pb_map))"
proof (cases "behind = [] \<or> pack msg = []")
  case True
  then show ?thesis using assms(1-4) by (simp add: encode_out_of_bounds)
next
  case False
  then obtain x ys where behind: "behind = x # ys" by (cases behind) auto
  have "encode fill name_of packed_size pack msg =
      Inr (frame s (pack msg), of_nat (length (frame s (pack msg))))"
    using assms(1-4) False behind by (intro encode_frame) simp_all
  moreover have "\<exists>m1 b'. decode seed unpack pb_map b = Inr (Some msg, Some m1, b') \<and>
        buffer_ok b' \<and> contents b' = rest \<and> registered (Some m1) = registered pb_map"
    if "buffer_ok b" "contents b = frame s (pack msg) @ rest" for b rest
    using decode_frame [OF that assms(2,6,7,3), of unpack] assms(5) by auto
  ultimately show ?thesis using False by (simp only: if_False) blast
qed

theorem encode_decode_roundtrip_witness:
  "\<exists>pb_map fr. register_name_pb_map [] True ([77] @ [0]) (5::nat) None = Inr pb_map \<and>
     encode (\<lambda>_. 0) (\<lambda>_. [77, 0, 0]) (\<lambda>m. of_nat (length m)) id [1, 2, 3] = Inr (fr, of_nat (length fr)) \<and>
     (\<forall>b rest. buffer_ok b \<and> contents b = fr @ rest \<longrightarrow>
       (\<exists>pb_map' b'. decode [] (\<lambda>d bs. if d = 5 then Some bs else None) pb_map b = Inr (Some [1, 2, 3], pb_map', b') \<and>
         buffer_ok b' \<and> contents b' = rest \<and> registered pb_map' = registered pb_map))"
proof -
  obtain m where m: "register_name_pb_map [] True ([77] @ [0]) (5::nat) None = Inr m" "registry_ok [] m"
    "registered m [77] = Some 5"
    using register_name_pb_map_ok [of "[]" None "[77]" True "5::nat"]
    by (auto simp: registry_ok_def get_pb_map_def dictInit_ok)
  with encode_decode_roundtrip [of "\<lambda>_. [77, 0, 0]" "[1, 2, 3]" "[77]" "[0]" id "\<lambda>m. of_nat (length m)"
      "\<lambda>d bs. if d = 5 then Some bs else None" 5 "[]" m "\<lambda>_. 0"]
  show ?thesis by auto
qed

text \<open>
  C17. A frame that has not arrived completely is left alone: if at least its header is there,
  \<open>decode\<close> returns NULL and changes neither the buffer nor the registry, so that the bytes received
  later complete it.
\<close>

theorem decode_waits_for_rest:
  assumes "buffer_ok b" and "frame s payload = contents b @ missing" and "missing \<noteq> []"
    and "8 \<le> length (contents b)" and "length s + length payload + 5 \<le> 65536"
  shows "decode seed unpack pb_map b = Inr (None, pb_map, b)"
proof -
  define len :: u32 where "len = of_nat (4 + (length s + 1) + length payload)"
  have len: "unat len = length s + length payload + 5"
    unfolding len_def using assms(5) by (subst unat_of_nat32) simp_all
  have "take 8 (contents b) = take 8 (frame s payload)" using assms(2,4) by simp
  also have "\<dots> = be_bytes 4 k_magic @ be_bytes 4 len"
    unfolding frame_def len_def [symmetric] by (simp del: be_bytes_numeral)
  finally have hdr: "contents b = be_bytes 4 k_magic @ be_bytes 4 len @ drop 8 (contents b)"
    by (metis append.assoc append_take_drop_id)
  have "length (contents b) < length s + length payload + 13"
    using arg_cong [OF assms(2), of length] assms(3) length_frame [of s payload] by simp
  then have "\<not> unat len \<le> length (drop 8 (contents b))"
    unfolding length_drop using len assms(4) by linarith
  then show ?thesis
    using len assms(5) by (subst decode_header [OF assms(1) hdr]) (simp del: length_contents)
qed

theorem decode_waits_for_rest_witness:
  "decode [] (\<lambda>(d::nat) bs. Some bs) None
     (init_gp_buffer (\<lambda>_. 0)\<lparr>buf_bytes := replicate 8 0 @ take 10 (frame [77] [1]) @ replicate 100 0,
       buf_len := 118, writer_index := 18\<rparr>) =
   Inr (None, None, init_gp_buffer (\<lambda>_. 0)\<lparr>buf_bytes := replicate 8 0 @ take 10 (frame [77] [1]) @ replicate 100 0,
       buf_len := 118, writer_index := 18\<rparr>)"
  using decode_waits_for_rest [of "init_gp_buffer (\<lambda>_. 0)\<lparr>buf_bytes := replicate 8 0 @ take 10 (frame [77] [1]) @ replicate 100 0,
       buf_len := 118, writer_index := 18\<rparr>" "[77]" "[1]" "drop 10 (frame [77] [1])"]
  by (simp add: buffer_ok_def contents_def init_gp_buffer_def k_cheap_prepend_def k_initial_size_def length_frame
      del: be_bytes_numeral)

text \<open>
  A peer can stop the process: a frame with a valid header whose name length is larger than what
  is left in the buffer, or negative, makes \<open>decode\<close> call \<open>abort ()\<close>, and so does a complete frame
  of length 0, which has no name length at all.
\<close>

lemma decode_aborts_on_bad_name_length:
  assumes "buffer_ok b" and "unat len \<le> 65536"
    and "contents b = be_bytes 4 k_magic @ be_bytes 4 (len :: u32) @ body"
    and "body = [] \<and> len = 0 \<or>
      (\<exists>name_len :: u32. \<exists>rest. body = be_bytes 4 name_len @ rest \<and> unat len \<le> 4 + length rest \<and>
        length rest < unat name_len \<and> unat name_len \<noteq> 2147483647)"
  shows "decode seed unpack pb_map b = Inl Abort"
proof -
  let ?b = "retrieve b 8"
  have ok: "buffer_ok ?b" by (rule retrieve_ok [OF assms(1)])
  have "contents ?b = drop 8 (contents b)" using contents_retrieve [OF assms(1), of 8] by simp
  then have c: "contents ?b = body" unfolding assms(3) by (simp del: be_bytes_numeral)
  have "unat len \<le> length body"
    using assms(4) by (elim disjE exE conjE) (simp_all del: be_bytes_numeral)
  then have dec: "decode seed unpack pb_map b = decode_body seed unpack pb_map len ?b"
    using assms(2) by (subst decode_header [OF assms(1,3)]) simp
  show ?thesis
  proof (cases "body = []")
    case True
    then have "read_int32 ?b = Inl Abort"
      using c by (simp add: read_int32_def peek_int32_def peek_word_eq [OF ok] del: length_contents)
    then show ?thesis by (simp add: dec decode_body_def)
  next
    case False
    then obtain nl :: u32 and rest where nl: "body = be_bytes 4 nl @ rest" "length rest < unat nl" "unat nl \<noteq> 2147483647"
      using assms(4) by blast
    have "4 \<le> length (contents ?b)" "take 4 (contents ?b) = be_bytes 4 nl"
      unfolding c nl by (simp_all del: be_bytes_numeral)
    then have r: "read_int32 ?b = Inr (nl, retrieve ?b 4)"
      by (simp add: read_int32_def peek_int32_def peek_word_eq [OF ok] del: length_contents be_bytes_numeral)
    have ok4: "buffer_ok (retrieve ?b 4)" and c4: "contents (retrieve ?b 4) = rest"
      using retrieve_ok [OF ok] contents_retrieve [OF ok, of 4] c nl by (simp_all del: be_bytes_numeral)
    have "peek_str (retrieve ?b 4) nl = Inl Abort"
    proof (cases "unat nl < 2147483647")
      case True
      then show ?thesis using nl c4 by (simp add: peek_str_eq [OF ok4] del: length_contents)
    next
      case False
      then show ?thesis using nl(3) by (intro neg_length_aborts [OF ok4]) simp
    qed
    then show ?thesis by (simp add: dec decode_body_def r read_str_def)
  qed
qed

end
