(* ===== verification/Gp_Ipc.thy ===== *)
theory Gp_Ipc
  imports Gp_Codec
begin

text \<open>
  The message dispatcher (\<open>base/gp_msg_dispatcher.c\<close>) and the message callback of the protobuf server
  (\<open>base/gp_ipc_server.c\<close>): received bytes are decoded to a message, whose name selects the callback to
  run. The callback map is a dictionary with string keys, created on first use.
\<close>

section \<open>Operations\<close>

definition get_callback_map :: "bytes \<Rightarrow> (bytes, 'cb) dict option \<Rightarrow> (bytes, 'cb) dict" where
  "get_callback_map seed callback_map =
     (case callback_map of None \<Rightarrow> dictInit (StringDictType seed) | Some d \<Rightarrow> d)"

definition register_msg_callback ::
  "bytes \<Rightarrow> bool \<Rightarrow> bytes \<Rightarrow> 'cb \<Rightarrow> (bytes, 'cb) dict option \<Rightarrow> (bytes, 'cb) dict option res" where
  "register_msg_callback seed can_resize name callback callback_map =
     bindE (dictAdd can_resize (get_callback_map seed callback_map) name callback) (\<lambda>(st, d). Inr (Some d))"

definition get_msg_callback ::
  "bytes \<Rightarrow> bytes \<Rightarrow> (bytes, 'cb) dict option \<Rightarrow> ('cb option \<times> (bytes, 'cb) dict option) res" where
  "get_msg_callback seed name callback_map =
     bindE (dictFetchValue (get_callback_map seed callback_map) name) (\<lambda>(cb, d). Inr (cb, Some d))"

text \<open>
  What a call of \<open>on_message\<close> runs: the callback registered for the message, the default callback, or
  nothing. \<open>name_of\<close> gives the memory at \<open>msg->descriptor->name\<close>. The connection's reference count is
  raised before the callback and lowered after it; it is modelled with the connection.
\<close>

datatype ('cb, 'm) msg_event = RunCallback 'cb 'm | RunDefault 'm

record ('d, 'cb) ipc_state =
  ipc_pb_map :: "(bytes, 'd) dict option"
  ipc_callback_map :: "(bytes, 'cb) dict option"
  ipc_buffer :: gp_buffer

definition on_message ::
  "bytes \<Rightarrow> ('d \<Rightarrow> bytes \<Rightarrow> 'm option) \<Rightarrow> ('m \<Rightarrow> bytes) \<Rightarrow> ('d, 'cb) ipc_state \<Rightarrow>
   (('cb, 'm) msg_event option \<times> ('d, 'cb) ipc_state) res" where
  "on_message seed unpack name_of st =
     (if 8 \<le> readable_bytes (ipc_buffer st) then
        bindE (decode seed unpack (ipc_pb_map st) (ipc_buffer st)) (\<lambda>(msg, pm, b).
        let st1 = st\<lparr>ipc_pb_map := pm, ipc_buffer := b\<rparr> in
        case msg of
          None \<Rightarrow> Inr (None, st1)
        | Some m \<Rightarrow>
            bindE (get_msg_callback seed (name_of m) (ipc_callback_map st1)) (\<lambda>(cb, cm).
              let st2 = st1\<lparr>ipc_callback_map := cm\<rparr> in
              case cb of
                Some f \<Rightarrow> Inr (Some (RunCallback f m), st2)
              | None \<Rightarrow> Inr (Some (RunDefault m), st2)))
      else Inr (None, st))"

text \<open>The event loop calls \<open>on_message\<close> once for each readiness event on the connection.\<close>

fun on_messages ::
  "bytes \<Rightarrow> ('d \<Rightarrow> bytes \<Rightarrow> 'm option) \<Rightarrow> ('m \<Rightarrow> bytes) \<Rightarrow> nat \<Rightarrow> ('d, 'cb) ipc_state \<Rightarrow>
   (('cb, 'm) msg_event option list \<times> ('d, 'cb) ipc_state) res" where
  "on_messages seed unpack name_of 0 st = Inr ([], st)"
| "on_messages seed unpack name_of (Suc n) st =
     bindE (on_message seed unpack name_of st) (\<lambda>(e, st1).
     bindE (on_messages seed unpack name_of n st1) (\<lambda>(es, st2). Inr (e # es, st2)))"

section \<open>Dispatch\<close>

lemma get_msg_callback_ok:
  assumes ok: "registry_ok seed cm" and n: "length (c_str k) < 2147483648"
  shows "\<exists>cm'. get_msg_callback seed k cm = Inr (registered cm (c_str k), cm') \<and>
    registry_ok seed cm' \<and> registered cm' = registered cm"
proof -
  have "get_callback_map seed cm = get_pb_map seed cm"
    by (simp add: get_callback_map_def get_pb_map_def)
  then show ?thesis
    using registry_fetch [OF assms] by (auto simp: get_msg_callback_def)
qed

text \<open>A message ready to be sent: its name, its packed form, its descriptor, and that they fit the format.\<close>

definition sendable ::
  "('d \<Rightarrow> bytes \<Rightarrow> 'm option) \<Rightarrow> ('m \<Rightarrow> bytes) \<Rightarrow> (bytes \<Rightarrow> 'd option) \<Rightarrow> 'm \<Rightarrow> bytes \<times> bytes \<Rightarrow> bool" where
  "sendable unpack name_of reg m np \<longleftrightarrow>
     (case np of (s, payload) \<Rightarrow>
       0 \<notin> set s \<and> length s + length payload + 5 \<le> 65536 \<and> c_str (name_of m) = s \<and>
       (\<exists>desc. reg s = Some desc \<and> unpack desc payload = Some m))"

definition dispatch :: "(bytes \<Rightarrow> 'cb option) \<Rightarrow> ('m \<Rightarrow> bytes) \<Rightarrow> 'm \<Rightarrow> ('cb, 'm) msg_event" where
  "dispatch cbs name_of m = (case cbs (c_str (name_of m)) of Some f \<Rightarrow> RunCallback f m | None \<Rightarrow> RunDefault m)"

lemma on_message_frame:
  assumes reg: "registry_ok seed (ipc_pb_map st)" "registry_ok seed (ipc_callback_map st)"
    and ok: "buffer_ok (ipc_buffer st)"
    and c: "contents (ipc_buffer st) = frame s payload @ rest"
    and snd: "sendable unpack name_of (registered (ipc_pb_map st)) m (s, payload)"
  shows "\<exists>st'. on_message seed unpack name_of st =
      Inr (Some (dispatch (registered (ipc_callback_map st)) name_of m), st') \<and>
    registry_ok seed (ipc_pb_map st') \<and> registry_ok seed (ipc_callback_map st') \<and>
    registered (ipc_pb_map st') = registered (ipc_pb_map st) \<and>
    registered (ipc_callback_map st') = registered (ipc_callback_map st) \<and>
    buffer_ok (ipc_buffer st') \<and> contents (ipc_buffer st') = rest"
proof -
  obtain desc where s: "0 \<notin> set s" "length s + length payload + 5 \<le> 65536" "c_str (name_of m) = s"
    "registered (ipc_pb_map st) s = Some desc" "unpack desc payload = Some m"
    using snd by (auto simp: sendable_def)
  obtain m1 b' where d: "decode seed unpack (ipc_pb_map st) (ipc_buffer st) = Inr (Some m, Some m1, b')"
    "buffer_ok b'" "contents b' = rest" "registry_ok seed (Some m1)"
    "registered (Some m1) = registered (ipc_pb_map st)"
    using decode_frame [OF ok c s(1) reg(1) s(4,2), of unpack] s(5) by auto
  have "length (c_str (name_of m)) < 2147483648" using s by simp
  then obtain cm where cm: "get_msg_callback seed (name_of m) (ipc_callback_map st) =
      Inr (registered (ipc_callback_map st) s, cm)" "registry_ok seed cm"
    "registered cm = registered (ipc_callback_map st)"
    using get_msg_callback_ok [OF reg(2), of "name_of m"] s(3) by auto
  have "8 \<le> length (contents (ipc_buffer st))" unfolding c by (simp add: length_frame)
  then have "8 \<le> readable_bytes (ipc_buffer st)"
    by (simp add: word_le_nat_alt readable_bytes_contents [OF ok] del: length_contents)
  then show ?thesis
    using d cm s(3) by (auto simp: on_message_def dispatch_def Let_def split: option.splits)
qed

text \<open>
  C18. When the buffer holds the frames of several messages, every call of \<open>on_message\<close> handles exactly
  one of them, in the order sent: \<open>n\<close> calls run the callbacks of the first \<open>n\<close> messages and leave the
  remaining frames untouched in the buffer. In particular frames that arrived together need as many
  readiness events as there are frames.
\<close>

theorem on_message_one_frame_per_call:
  assumes "registry_ok seed (ipc_pb_map st)" and "registry_ok seed (ipc_callback_map st)"
    and "buffer_ok (ipc_buffer st)"
    and "list_all2 (sendable unpack name_of (registered (ipc_pb_map st))) msgs frames"
    and "contents (ipc_buffer st) = concat (map (\<lambda>(s, payload). frame s payload) frames) @ rest"
  shows "\<exists>st'. on_messages seed unpack name_of (length msgs) st =
      Inr (map (\<lambda>m. Some (dispatch (registered (ipc_callback_map st)) name_of m)) msgs, st') \<and>
    buffer_ok (ipc_buffer st') \<and> contents (ipc_buffer st') = rest"
  using assms
proof (induction msgs arbitrary: frames st)
  case (Cons m msgs)
  obtain s payload fs where fs: "frames = (s, payload) # fs"
    "sendable unpack name_of (registered (ipc_pb_map st)) m (s, payload)"
    "list_all2 (sendable unpack name_of (registered (ipc_pb_map st))) msgs fs"
    using Cons.prems(4) by (auto simp: list_all2_Cons1)
  have c: "contents (ipc_buffer st) = frame s payload @ (concat (map (\<lambda>(s, payload). frame s payload) fs) @ rest)"
    using Cons.prems(5) fs(1) by simp
  obtain st1 where st1: "on_message seed unpack name_of st =
      Inr (Some (dispatch (registered (ipc_callback_map st)) name_of m), st1)"
    "registry_ok seed (ipc_pb_map st1)" "registry_ok seed (ipc_callback_map st1)"
    "registered (ipc_pb_map st1) = registered (ipc_pb_map st)"
    "registered (ipc_callback_map st1) = registered (ipc_callback_map st)" "buffer_ok (ipc_buffer st1)"
    "contents (ipc_buffer st1) = concat (map (\<lambda>(s, payload). frame s payload) fs) @ rest"
    using on_message_frame [OF Cons.prems(1-3) c fs(2)] by auto
  show ?case
    using Cons.IH [OF st1(2,3,6), of fs] st1(1,4,5,7) fs(3) by auto
qed simp

theorem on_message_one_frame_per_call_witness:
  "\<exists>pm b st'. register_name_pb_map [] True ([77] @ [0]) (5::nat) None = Inr pm \<and>
     contents b = frame [77] [1] @ frame [77] [2] \<and>
     on_messages [] (\<lambda>d bs. Some bs) (\<lambda>m. [77, 0]) (length [[1]]) \<lparr>ipc_pb_map = pm, ipc_callback_map = None, ipc_buffer = b\<rparr> =
       Inr ([Some (RunDefault [1]) :: (nat, bytes) msg_event option], st') \<and>
     contents (ipc_buffer st') = frame [77] [2]"
proof -
  obtain pm where pm: "register_name_pb_map [] True ([77] @ [0]) (5::nat) None = Inr pm" "registry_ok [] pm"
    "registered pm [77] = Some 5"
    using register_name_pb_map_ok [of "[]" None "[77]" True "5::nat"]
    by (auto simp: registry_ok_def get_pb_map_def dictInit_ok)
  obtain b where b: "buffer_ok b" "contents b = frame [77] [1] @ frame [77] [2]"
    using buffer_append_correct [OF init_gp_buffer_ok [of "\<lambda>_. 0"], of "frame [77] [1] @ frame [77] [2]" "\<lambda>_. 0"]
    by (auto simp: init_gp_buffer_contents init_gp_buffer_room length_frame simp del: length_contents)
  let ?st = "\<lparr>ipc_pb_map = pm, ipc_callback_map = None, ipc_buffer = b\<rparr> :: (nat, nat) ipc_state"
  have "list_all2 (sendable (\<lambda>d bs. Some bs) (\<lambda>m. [77, 0]) (registered (ipc_pb_map ?st))) [[1]] [([77], [1])]"
    using pm by (auto simp: sendable_def c_str_def)
  from on_message_one_frame_per_call [OF _ _ _ this, of "[]" "frame [77] [2]"] pm b
  show ?thesis
    by (intro exI [of _ pm] exI [of _ b]) (auto simp: registry_ok_def dispatch_def registered_def)
qed

end
