(* ===== verification/Gp_Ring.thy ===== *)
theory Gp_Ring
  imports Prelude
begin

text \<open>
  The ring buffer of \<open>base/gp_ringbuffer.c\<close>. Producers reserve slots by advancing \<open>head.first\<close> with a
  compare-and-swap, copy their objects, and publish by advancing \<open>head.second\<close> once all earlier
  reservations are published; consumers do the same with \<open>tail\<close>. The counters are 32 bit words that
  wrap around. A push or pop is composed of these three steps; here they run without interference
  (the compare-and-swap succeeds and no other reservation is pending; a call that would wait for
  another one is \<open>None\<close>).
\<close>

section \<open>Operations\<close>

text \<open>\<open>msgs\<close> are the slots allocated behind the structure: \<open>count\<close> of them, zeroed by \<open>calloc\<close>.\<close>

record 'a gp_ring =
  ring_size :: u32
  ring_mask :: u32
  ring_capacity :: u32
  head_first :: u32
  head_second :: u32
  tail_first :: u32
  tail_second :: u32
  msgs :: "'a list"

definition gp_align32pow2 :: "u32 \<Rightarrow> u32" where
  "gp_align32pow2 x0 =
     (let x = x0 - 1;
          x = x OR drop_bit 1 x;
          x = x OR drop_bit 2 x;
          x = x OR drop_bit 4 x;
          x = x OR drop_bit 8 x;
          x = x OR drop_bit 16 x
      in x)"

definition init_gp_ring :: "'a gp_ring \<Rightarrow> u32 \<Rightarrow> 'a gp_ring" where
  "init_gp_ring q count =
     (let sz = gp_align32pow2 (count + 1) in
      q\<lparr>ring_size := sz, ring_mask := sz - 1, ring_capacity := count\<rparr>)"

definition create_gp_ring :: "'a \<Rightarrow> u32 \<Rightarrow> 'a gp_ring" where
  "create_gp_ring null count =
     init_gp_ring \<lparr>ring_size = 0, ring_mask = 0, ring_capacity = 0, head_first = 0, head_second = 0,
       tail_first = 0, tail_second = 0, msgs = replicate (unat count) null\<rparr> count"

text \<open>One assignment \<open>dst[di] = src[si]\<close>, and the two ways the code copies a run of slots.\<close>

definition slot_copy :: "'a list \<Rightarrow> nat \<Rightarrow> 'a list \<Rightarrow> nat \<Rightarrow> 'a list res" where
  "slot_copy dst di src si =
     (if di < length dst \<and> si < length src then Inr (dst[di := src ! si]) else Inl OutOfBounds)"

fun copy_loop :: "nat \<Rightarrow> 'a list \<Rightarrow> nat \<Rightarrow> 'a list \<Rightarrow> nat \<Rightarrow> 'a list res" where
  "copy_loop 0 dst di src si = Inr dst"
| "copy_loop (Suc n) dst di src si =
     bindE (slot_copy dst di src si) (\<lambda>d. copy_loop n d (di + 1) src (si + 1))"

fun copy_quads :: "nat \<Rightarrow> 'a list \<Rightarrow> nat \<Rightarrow> 'a list \<Rightarrow> nat \<Rightarrow> 'a list res" where
  "copy_quads 0 dst di src si = Inr dst"
| "copy_quads (Suc k) dst di src si =
     bindE (slot_copy dst di src si) (\<lambda>d1.
     bindE (slot_copy d1 (di + 1) src (si + 1)) (\<lambda>d2.
     bindE (slot_copy d2 (di + 2) src (si + 2)) (\<lambda>d3.
     bindE (slot_copy d3 (di + 3) src (si + 3)) (\<lambda>d4.
       copy_quads k d4 (di + 4) src (si + 4)))))"

text \<open>The unrolled copy: groups of four, then the remaining \<open>n & 3\<close> by a falling-through switch.\<close>

definition copy_unrolled :: "nat \<Rightarrow> 'a list \<Rightarrow> nat \<Rightarrow> 'a list \<Rightarrow> nat \<Rightarrow> 'a list res" where
  "copy_unrolled n dst di src si =
     bindE (copy_quads (n div 4) dst di src si) (\<lambda>d.
       copy_loop (n mod 4) d (di + 4 * (n div 4)) src (si + 4 * (n div 4)))"

definition ring_write :: "'a gp_ring \<Rightarrow> u32 \<Rightarrow> u32 \<Rightarrow> 'a list \<Rightarrow> 'a list res" where
  "ring_write q head n obj =
     (let idx = head AND ring_mask q in
      if idx + n < ring_size q then copy_unrolled (unat n) (msgs q) (unat idx) obj 0
      else
        let k = unat (ring_size q) - unat idx in
        bindE (copy_loop k (msgs q) (unat idx) obj 0) (\<lambda>r. copy_loop (unat n - k) r 0 obj k))"

definition ring_read :: "'a gp_ring \<Rightarrow> u32 \<Rightarrow> u32 \<Rightarrow> 'a list \<Rightarrow> 'a list res" where
  "ring_read q tail n obj =
     (let idx = tail AND ring_mask q in
      if idx + n < ring_size q then copy_unrolled (unat n) obj 0 (msgs q) (unat idx)
      else
        let k = unat (ring_size q) - unat idx in
        bindE (copy_loop k obj 0 (msgs q) (unat idx)) (\<lambda>r. copy_loop (unat n - k) r k (msgs q) 0))"

text \<open>The number of objects a call handles; \<open>n\<close> is an \<open>int\<close> compared with an unsigned number.\<close>

definition push_count :: "'a gp_ring \<Rightarrow> u32 \<Rightarrow> u32" where
  "push_count q n =
     (let free_entries = ring_capacity q + tail_second q - head_first q in
      if n > free_entries then free_entries else n)"

definition pop_count :: "'a gp_ring \<Rightarrow> u32 \<Rightarrow> u32" where
  "pop_count q n =
     (let entries = head_second q - tail_first q in if n > entries then entries else n)"

definition gp_ring_push :: "'a gp_ring \<Rightarrow> u32 \<Rightarrow> 'a list \<Rightarrow> (u32 \<times> 'a gp_ring) res option" where
  "gp_ring_push q n0 obj =
     (let head = head_first q; n = push_count q n0; nxt = head + n in
      if n = 0 then Some (Inr (0, q))
      else
        let q1 = q\<lparr>head_first := nxt\<rparr> in
        case ring_write q1 head n obj of
          Inl e \<Rightarrow> Some (Inl e)
        | Inr r \<Rightarrow>
            if head_second q1 \<noteq> head then None
            else Some (Inr (n, q1\<lparr>msgs := r, head_second := nxt\<rparr>)))"

definition gp_ring_pop :: "'a gp_ring \<Rightarrow> u32 \<Rightarrow> 'a list \<Rightarrow> (u32 \<times> 'a list \<times> 'a gp_ring) res option" where
  "gp_ring_pop q n0 obj =
     (let tail = tail_first q; n = pop_count q n0; nxt = tail + n in
      if n = 0 then Some (Inr (0, obj, q))
      else
        let q1 = q\<lparr>tail_first := nxt\<rparr> in
        case ring_read q1 tail n obj of
          Inl e \<Rightarrow> Some (Inl e)
        | Inr out \<Rightarrow>
            if tail_second q1 \<noteq> tail then None
            else Some (Inr (n, out, q1\<lparr>tail_second := nxt\<rparr>)))"

section \<open>Copying\<close>

text \<open>The unrolled copy and the plain loop are the same function.\<close>

lemma copy_loop_add:
  "copy_loop (m + n) dst di src si =
   bindE (copy_loop m dst di src si) (\<lambda>d. copy_loop n d (di + m) src (si + m))"
proof (induction m arbitrary: dst di si)
  case (Suc m)
  then show ?case by (cases "slot_copy dst di src si") simp_all
qed simp

lemma copy_quads_loop: "copy_quads k dst di src si = copy_loop (4 * k) dst di src si"
proof (induction k arbitrary: dst di si)
  case (Suc k)
  have "copy_loop (4 * Suc k) dst di src si =
      bindE (copy_loop 4 dst di src si) (\<lambda>d. copy_loop (4 * k) d (di + 4) src (si + 4))"
    using copy_loop_add [of 4 "4 * k" dst di src si] by simp
  also have "\<dots> = copy_quads (Suc k) dst di src si"
    by (simp add: Suc.IH numeral_eq_Suc bindE_def split: sum.splits)
  finally show ?case by simp
qed simp

lemma copy_unrolled_loop: "copy_unrolled n dst di src si = copy_loop n dst di src si"
  using copy_loop_add [of "4 * (n div 4)" "n mod 4" dst di src si]
  by (simp add: copy_unrolled_def copy_quads_loop mult_div_mod_eq)

lemma copy_loop_ok:
  assumes "di + n \<le> length dst" and "si + n \<le> length src"
  shows "copy_loop n dst di src si = Inr (take di dst @ take n (drop si src) @ drop (di + n) dst)"
  using assms
proof (induction n arbitrary: dst di si)
  case (Suc n)
  have "take (di + 1) (dst[di := src ! si]) = take di dst @ [src ! si]"
    using Suc.prems(1) by (simp add: take_Suc_conv_app_nth)
  moreover have "drop (di + 1 + n) (dst[di := src ! si]) = drop (di + Suc n) dst"
    by simp
  moreover have "take (Suc n) (drop si src) = src ! si # take n (drop (si + 1) src)"
    using Suc.prems(2) by (simp add: Cons_nth_drop_Suc [symmetric])
  ultimately show ?case
    using Suc.IH [of "di + 1" "dst[di := src ! si]" "si + 1"] Suc.prems by (simp add: slot_copy_def)
qed simp

section \<open>Well-formed rings and their contents\<close>

definition ring_wf :: "'a gp_ring \<Rightarrow> bool" where
  "ring_wf q \<longleftrightarrow>
     (\<exists>k \<le> 31. ring_size q = 2 ^ k) \<and> ring_mask q = ring_size q - 1 \<and>
     unat (ring_capacity q) \<le> unat (ring_size q) \<and> unat (ring_size q) \<le> length (msgs q) \<and>
     head_first q = head_second q \<and> tail_first q = tail_second q \<and>
     unat (head_second q - tail_second q) \<le> unat (ring_capacity q)"

definition slot :: "'a gp_ring \<Rightarrow> u32 \<Rightarrow> nat \<Rightarrow> nat" where
  "slot q start j = (unat start + j) mod unat (ring_size q)"

definition ring_list :: "'a gp_ring \<Rightarrow> 'a list" where
  "ring_list q = map (\<lambda>j. msgs q ! slot q (tail_second q) j) [0..<unat (head_second q - tail_second q)]"

lemma length_ring_list: "length (ring_list q) = unat (head_second q - tail_second q)"
  by (simp add: ring_list_def)

lemma ring_sizeE:
  assumes "ring_wf q"
  obtains k where "k \<le> 31" "unat (ring_size q) = 2 ^ k" "ring_size q = 2 ^ k"
    "\<And>w. unat (w AND ring_mask q) = unat w mod unat (ring_size q)" "unat (ring_size q) \<le> 2147483648"
proof -
  obtain k where k: "k \<le> 31" "ring_size q = 2 ^ k" using assms by (auto simp: ring_wf_def)
  have small: "(2::nat) ^ k \<le> 2 ^ 31" using k(1) by (intro power_increasing) simp_all
  then have "unat (of_nat (2 ^ k) :: u32) = 2 ^ k" by (intro unat_of_nat32) simp
  then have p: "unat (2 ^ k :: u32) = 2 ^ k" by simp
  have "ring_mask q = mask k" using assms k by (simp add: ring_wf_def mask_eq_exp_minus_1)
  then have "unat (w AND ring_mask q) = unat w mod unat (ring_size q)" for w
    by (simp only: k p take_bit_eq_mask [symmetric] unsigned_take_bit_eq take_bit_eq_mod [of k "unat w"])
  then show ?thesis using k p small by (intro that [of k]) simp_all
qed

lemma slot_split:
  fixes start :: u32
  assumes "j < unat (ring_size q)"
  defines "idx \<equiv> unat start mod unat (ring_size q)"
  shows "slot q start j = (if idx + j < unat (ring_size q) then idx + j else idx + j - unat (ring_size q))"
proof -
  let ?S = "unat (ring_size q)"
  have "idx < ?S" using assms(1) by (simp add: idx_def)
  moreover have "slot q start j = (idx + j) mod ?S" by (simp add: slot_def idx_def mod_simps)
  ultimately show ?thesis
    using assms(1) by (auto simp: mod_if le_mod_geq)
qed

lemma slot_lt: "0 < unat (ring_size q) \<Longrightarrow> slot q start j < unat (ring_size q)"
  by (simp add: slot_def)

text \<open>Slots do not repeat within one turn of the ring, and positions are counted across calls.\<close>

lemma slot_inj:
  assumes "i < unat (ring_size q)" and "j < unat (ring_size q)" and "slot q start i = slot q start j"
  shows "i = j"
  using assms by (auto simp: slot_split split: if_splits)

lemma slot_add:
  assumes "ring_wf q"
  shows "slot q (start + n) j = slot q start (unat n + j)"
proof -
  obtain k where k: "k \<le> 31" "unat (ring_size q) = 2 ^ k" using assms by (rule ring_sizeE)
  have dvd: "(2::nat) ^ k dvd 2 ^ 32" using k(1) by (intro le_imp_power_dvd) simp
  have "unat (start + n) = (unat start + unat n) mod 2 ^ 32" by (simp add: unat_word_ariths)
  then have "unat (start + n) mod 2 ^ k = (unat start + unat n) mod 2 ^ k"
    by (simp add: mod_mod_cancel [OF dvd, simplified])
  then have "(unat (start + n) + j) mod 2 ^ k = (unat start + unat n + j) mod 2 ^ k"
    by (metis mod_add_left_eq)
  then show ?thesis by (simp add: slot_def k add.assoc)
qed

lemma ring_write_ok:
  assumes wf: "ring_wf q" and n: "unat n \<le> unat (ring_size q)" "unat n \<le> length obj"
  shows "\<exists>r. ring_write q head n obj = Inr r \<and> length r = length (msgs q) \<and>
    (\<forall>j < unat n. r ! slot q head j = obj ! j) \<and>
    (\<forall>p. (\<forall>j < unat n. slot q head j \<noteq> p) \<longrightarrow> r ! p = msgs q ! p)"
proof -
  let ?S = "unat (ring_size q)"
  define i where "i = unat head mod ?S"
  obtain k where k: "k \<le> 31" "?S = 2 ^ k" "unat (head AND ring_mask q) = i" "?S \<le> 2147483648"
    using wf unfolding i_def by (rule ring_sizeE) blast
  have lt: "i < ?S" by (simp add: i_def k)
  have room: "?S \<le> length (msgs q)" using wf by (simp add: ring_wf_def)
  have cond: "(head AND ring_mask q) + n < ring_size q \<longleftrightarrow> i + unat n < ?S"
    using lt n(1) k by (subst word_less_nat_alt, subst unat_add32) simp_all
  have slots: "slot q head j = (if i + j < ?S then i + j else i + j - ?S)" if "j < unat n" for j
    using that n(1) unfolding i_def by (intro slot_split) simp
  show ?thesis
  proof (cases "i + unat n < ?S")
    case True
    let ?r = "take i (msgs q) @ take (unat n) obj @ drop (i + unat n) (msgs q)"
    have "ring_write q head n obj = Inr ?r"
      using True cond room n(2) k(3) by (simp add: ring_write_def Let_def copy_unrolled_loop copy_loop_ok)
    moreover have "\<forall>p. (\<forall>j < unat n. slot q head j \<noteq> p) \<longrightarrow> ?r ! p = msgs q ! p"
    proof (intro allI impI)
      fix p assume p: "\<forall>j < unat n. slot q head j \<noteq> p"
      then have "\<not> (i \<le> p \<and> p < i + unat n)" using slots [of "p - i"] True by (cases "p - i < unat n") auto
      then show "?r ! p = msgs q ! p" using room True n(2) by (auto simp: nth_append)
    qed
    moreover have "\<forall>j < unat n. ?r ! slot q head j = obj ! j"
      using slots True room n(2) by (simp add: nth_append)
    ultimately show ?thesis using room True n(2) by (intro exI [of _ ?r]) simp
  next
    case False
    define m where "m = ?S - i"
    have m: "m \<le> unat n" "i + m = ?S" "unat n - m \<le> i" using False lt n(1) by (auto simp: m_def)
    let ?r1 = "take i (msgs q) @ take m obj @ drop ?S (msgs q)"
    have r1: "copy_loop m (msgs q) i obj 0 = Inr ?r1" using m room n(2) by (subst copy_loop_ok) simp_all
    let ?r = "take (unat n - m) (drop m obj) @ drop (unat n - m) ?r1"
    have "copy_loop (unat n - m) ?r1 0 obj m = Inr ?r" using m room n(2) by (subst copy_loop_ok) simp_all
    then have "ring_write q head n obj = Inr ?r"
      using False cond r1 k(3) by (simp add: ring_write_def Let_def m_def [symmetric])
    moreover have "\<forall>p. (\<forall>j < unat n. slot q head j \<noteq> p) \<longrightarrow> ?r ! p = msgs q ! p"
    proof (intro allI impI)
      fix p assume p: "\<forall>j < unat n. slot q head j \<noteq> p"
      then have "\<not> (i \<le> p \<and> p < ?S)" using slots [of "p - i"] m by (cases "p - i < unat n") auto
      moreover have "\<not> p < unat n - m" using p slots [of "p + m"] m by (cases "p + m < unat n") auto
      ultimately show "?r ! p = msgs q ! p" using room m n(2) by (auto simp: nth_append)
    qed
    moreover have "\<forall>j < unat n. ?r ! slot q head j = obj ! j"
    proof (intro allI impI)
      fix j assume j: "j < unat n"
      have "slot q head j = (if j < m then i + j else j - m)" using slots [OF j] m(2) [symmetric] by simp
      then show "?r ! slot q head j = obj ! j"
        using j m(1,3) room n(2) by (auto simp: nth_append m(2) [symmetric])
    qed
    ultimately show ?thesis using room m n(2) by (intro exI [of _ ?r]) simp
  qed
qed

lemma ring_read_ok:
  assumes wf: "ring_wf q" and n: "unat n \<le> unat (ring_size q)" "unat n \<le> length obj"
  shows "ring_read q tail n obj = Inr (map (\<lambda>j. msgs q ! slot q tail j) [0..<unat n] @ drop (unat n) obj)"
proof -
  let ?S = "unat (ring_size q)"
  define i where "i = unat tail mod ?S"
  obtain k where k: "k \<le> 31" "?S = 2 ^ k" "unat (tail AND ring_mask q) = i" "?S \<le> 2147483648"
    using wf unfolding i_def by (rule ring_sizeE) blast
  have lt: "i < ?S" by (simp add: i_def k)
  have room: "?S \<le> length (msgs q)" using wf by (simp add: ring_wf_def)
  have cond: "(tail AND ring_mask q) + n < ring_size q \<longleftrightarrow> i + unat n < ?S"
    using lt n(1) k by (subst word_less_nat_alt, subst unat_add32) simp_all
  have slots: "slot q tail j = (if i + j < ?S then i + j else i + j - ?S)" if "j < unat n" for j
    using that n(1) unfolding i_def by (intro slot_split) simp
  show ?thesis
  proof (cases "i + unat n < ?S")
    case True
    have "map (\<lambda>j. msgs q ! slot q tail j) [0..<unat n] = take (unat n) (drop i (msgs q))"
      using slots True room by (intro nth_equalityI) simp_all
    then show ?thesis
      using True cond room n(2) k(3) by (simp add: ring_read_def Let_def copy_unrolled_loop copy_loop_ok)
  next
    case False
    define m where "m = ?S - i"
    have m: "m \<le> unat n" "i + m = ?S" "unat n - m \<le> i" using False lt n(1) by (auto simp: m_def)
    let ?r1 = "take m (drop i (msgs q)) @ drop m obj"
    have r1: "copy_loop m obj 0 (msgs q) i = Inr ?r1" using m room n(2) by (subst copy_loop_ok) simp_all
    have "copy_loop (unat n - m) ?r1 m (msgs q) 0 =
        Inr (take m (drop i (msgs q)) @ take (unat n - m) (msgs q) @ drop (unat n) obj)"
      using m room n(2) by (subst copy_loop_ok) (simp_all add: min_absorb1)
    then have "ring_read q tail n obj =
        Inr (take m (drop i (msgs q)) @ take (unat n - m) (msgs q) @ drop (unat n) obj)"
      using False cond r1 k(3) by (simp add: ring_read_def Let_def m_def [symmetric])
    moreover have "map (\<lambda>j. msgs q ! slot q tail j) [0..<unat n] =
        take m (drop i (msgs q)) @ take (unat n - m) (msgs q)"
    proof (rule nth_equalityI)
      fix j assume "j < length (map (\<lambda>j. msgs q ! slot q tail j) [0..<unat n])"
      then have j: "j < unat n" by simp
      have "slot q tail j = (if j < m then i + j else j - m)" using slots [OF j] m(2) [symmetric] by simp
      then show "map (\<lambda>j. msgs q ! slot q tail j) [0..<unat n] ! j =
          (take m (drop i (msgs q)) @ take (unat n - m) (msgs q)) ! j"
        using j m(1,3) room by (auto simp: nth_append m(2) [symmetric])
    qed (use m room n(2) in simp)
    ultimately show ?thesis by simp
  qed
qed

lemma ring_counts:
  assumes "ring_wf q"
  shows "unat (push_count q n) = min (unat n) (unat (ring_capacity q) - length (ring_list q))"
    and "unat (pop_count q n) = min (unat n) (length (ring_list q))"
    and "length (ring_list q) \<le> unat (ring_capacity q)"
proof -
  have q: "head_first q = head_second q" "tail_first q = tail_second q"
    "unat (head_second q - tail_second q) \<le> unat (ring_capacity q)"
    using assms by (simp_all add: ring_wf_def)
  have "unat (ring_capacity q - (head_second q - tail_second q)) =
      unat (ring_capacity q) - unat (head_second q - tail_second q)"
    using q(3) by (rule unat_diff_le)
  then have free: "unat (ring_capacity q + tail_second q - head_first q) =
      unat (ring_capacity q) - unat (head_second q - tail_second q)"
    using q(1) by (simp add: algebra_simps)
  show "unat (push_count q n) = min (unat n) (unat (ring_capacity q) - length (ring_list q))"
    unfolding push_count_def Let_def length_ring_list by (auto simp: word_less_nat_alt min_def free)
  show "unat (pop_count q n) = min (unat n) (length (ring_list q))"
    unfolding pop_count_def Let_def length_ring_list q by (auto simp: word_less_nat_alt min_def)
  show "length (ring_list q) \<le> unat (ring_capacity q)" using q(3) by (simp add: length_ring_list)
qed

text \<open>Objects stored behind the last one and a head moved by their number: the contents grow by them.\<close>

lemma ring_list_append:
  assumes wf: "ring_wf q" and m: "length (ring_list q) + m \<le> unat (ring_size q)" "m \<le> length obj"
    and r: "\<forall>j < m. r ! slot q (head_second q) j = obj ! j"
      "\<forall>p. (\<forall>j < m. slot q (head_second q) j \<noteq> p) \<longrightarrow> r ! p = msgs q ! p"
    and q2: "msgs q2 = r" "tail_second q2 = tail_second q" "ring_size q2 = ring_size q"
      "unat (head_second q2 - tail_second q2) = length (ring_list q) + m"
  shows "ring_list q2 = ring_list q @ take m obj"
proof (rule nth_equalityI)
  show "length (ring_list q2) = length (ring_list q @ take m obj)"
    using q2(4) m(2) by (simp add: length_ring_list)
  fix j assume "j < length (ring_list q2)"
  then have j: "j < length (ring_list q) + m" using q2(4) by (simp add: length_ring_list)
  have lhs: "ring_list q2 ! j = r ! slot q (tail_second q) j"
    using j q2 by (simp add: ring_list_def slot_def)
  have hd: "slot q (head_second q) i = slot q (tail_second q) (length (ring_list q) + i)" for i
    using slot_add [OF wf, of "tail_second q" "head_second q - tail_second q" i]
    by (simp add: length_ring_list)
  show "ring_list q2 ! j = (ring_list q @ take m obj) ! j"
  proof (cases "j < length (ring_list q)")
    case True
    have "slot q (head_second q) i \<noteq> slot q (tail_second q) j" if "i < m" for i
      using slot_inj [of "length (ring_list q) + i" q j "tail_second q"] True that m unfolding hd by auto
    then have "r ! slot q (tail_second q) j = msgs q ! slot q (tail_second q) j" using r(2) by blast
    then show ?thesis using True lhs by (simp add: nth_append) (simp add: ring_list_def)
  next
    case False
    then obtain i where i: "j = length (ring_list q) + i" "i < m"
      using j by (metis add_less_cancel_left le_Suc_ex not_less)
    then show ?thesis using lhs r(1) hd by (simp add: nth_append)
  qed
qed

lemma gp_ring_push_ok:
  assumes wf: "ring_wf q" and obj: "unat n \<le> length obj"
  defines "m \<equiv> min (unat n) (unat (ring_capacity q) - length (ring_list q))"
  shows "\<exists>q'. gp_ring_push q n obj = Some (Inr (of_nat m, q')) \<and> ring_wf q' \<and>
    ring_capacity q' = ring_capacity q \<and> ring_list q' = ring_list q @ take m obj"
proof -
  note c = ring_counts [OF wf]
  define nn where "nn = push_count q n"
  have nn: "unat nn = m" using c(1) [of n] by (simp add: nn_def m_def)
  then have of: "of_nat m = nn" by (simp flip: nn)
  show ?thesis
  proof (cases "nn = 0")
    case True
    then show ?thesis using wf of nn by (intro exI [of _ q]) (simp add: gp_ring_push_def Let_def nn_def [symmetric])
  next
    case False
    have sz: "unat (ring_capacity q) \<le> unat (ring_size q)" using wf by (simp add: ring_wf_def)
    have mle: "m \<le> unat (ring_capacity q) - length (ring_list q)" by (simp add: m_def)
    define q1 where "q1 = q\<lparr>head_first := head_first q + nn\<rparr>"
    have same: "ring_write q1 (head_first q) nn obj = ring_write q (head_first q) nn obj"
      by (simp add: ring_write_def q1_def Let_def)
    have "unat nn \<le> unat (ring_size q)" "unat nn \<le> length obj"
      using nn mle sz obj by (auto simp: m_def)
    then obtain r where r: "ring_write q (head_first q) nn obj = Inr r" "length r = length (msgs q)"
      "\<forall>j < m. r ! slot q (head_first q) j = obj ! j"
      "\<forall>p. (\<forall>j < m. slot q (head_first q) j \<noteq> p) \<longrightarrow> r ! p = msgs q ! p"
      using ring_write_ok [OF wf, of nn obj "head_first q"] nn by auto
    define q2 where "q2 = q1\<lparr>msgs := r, head_second := head_first q + nn\<rparr>"
    have eqs: "head_first q = head_second q" "tail_first q = tail_second q" using wf by (simp_all add: ring_wf_def)
    have run: "gp_ring_push q n obj = Some (Inr (nn, q2))"
      using False r(1) same eqs by (simp add: gp_ring_push_def Let_def nn_def [symmetric] q1_def [symmetric] q2_def)
        (simp add: q1_def)
    have len: "unat (head_second q2 - tail_second q2) = length (ring_list q) + m"
    proof -
      have "head_second q2 - tail_second q2 = (head_second q - tail_second q) + nn"
        by (simp add: q2_def q1_def eqs)
      then show ?thesis
        using nn mle c(3) unat_lt32 [of "ring_capacity q"] by (simp add: unat_add32 length_ring_list)
    qed
    have wf2: "ring_wf q2"
      using wf len mle c(3) r(2) by (simp add: ring_wf_def q2_def q1_def)
    have "ring_list q2 = ring_list q @ take m obj"
      using r(3,4) mle c(3) sz obj len eqs
      by (intro ring_list_append [OF wf, of m obj r]) (auto simp: q2_def q1_def m_def)
    then show ?thesis using run wf2 of by (intro exI [of _ q2]) (simp add: q2_def q1_def)
  qed
qed

lemma gp_ring_pop_ok:
  assumes wf: "ring_wf q" and obj: "unat n \<le> length obj"
  defines "m \<equiv> min (unat n) (length (ring_list q))"
  shows "\<exists>q'. gp_ring_pop q n obj = Some (Inr (of_nat m, take m (ring_list q) @ drop m obj, q')) \<and>
    ring_wf q' \<and> ring_capacity q' = ring_capacity q \<and> ring_list q' = drop m (ring_list q)"
proof -
  note c = ring_counts [OF wf]
  define nn where "nn = pop_count q n"
  have nn: "unat nn = m" using c(2) [of n] by (simp add: nn_def m_def)
  then have of: "of_nat m = nn" by (simp flip: nn)
  show ?thesis
  proof (cases "nn = 0")
    case True
    then show ?thesis using wf of nn by (intro exI [of _ q]) (simp add: gp_ring_pop_def Let_def nn_def [symmetric])
  next
    case False
    have eqs: "head_first q = head_second q" "tail_first q = tail_second q"
      and sz: "unat (ring_capacity q) \<le> unat (ring_size q)" using wf by (simp_all add: ring_wf_def)
    have mle: "m \<le> length (ring_list q)" by (simp add: m_def)
    define q1 where "q1 = q\<lparr>tail_first := tail_first q + nn\<rparr>"
    have same: "ring_read q1 (tail_first q) nn obj = ring_read q (tail_first q) nn obj"
      by (simp add: ring_read_def q1_def Let_def)
    have le: "unat nn \<le> unat (ring_size q)" "unat nn \<le> length obj"
      using nn mle c(3) sz obj by (auto simp: m_def)
    have "map (\<lambda>j. msgs q ! slot q (tail_first q) j) [0..<m] = take m (ring_list q)"
      using mle eqs by (simp add: ring_list_def length_ring_list take_map)
    then have r: "ring_read q (tail_first q) nn obj = Inr (take m (ring_list q) @ drop m obj)"
      using ring_read_ok [OF wf le, of "tail_first q"] nn by simp
    define q2 where "q2 = q1\<lparr>tail_second := tail_first q + nn\<rparr>"
    have run: "gp_ring_pop q n obj = Some (Inr (nn, take m (ring_list q) @ drop m obj, q2))"
      using False r same eqs
      by (simp add: gp_ring_pop_def Let_def nn_def [symmetric] q1_def [symmetric] q2_def) (simp add: q1_def)
    have len: "unat (head_second q2 - tail_second q2) = length (ring_list q) - m"
    proof -
      have "head_second q2 - tail_second q2 = (head_second q - tail_second q) - nn"
        by (simp add: q2_def q1_def eqs)
      then show ?thesis using nn mle by (simp add: unat_diff_le length_ring_list)
    qed
    have "ring_wf q2" using wf len c(3) by (simp add: ring_wf_def q2_def q1_def eqs)
    moreover have "ring_list q2 = drop m (ring_list q)"
    proof (rule nth_equalityI)
      show "length (ring_list q2) = length (drop m (ring_list q))" using len by (simp add: length_ring_list)
      fix j assume "j < length (ring_list q2)"
      then have j: "j < length (ring_list q) - m" using len by (simp add: length_ring_list)
      have "slot q2 (tail_second q2) j = slot q (tail_second q) (m + j)"
        using slot_add [OF wf, of "tail_second q" nn j] nn eqs by (simp add: q2_def q1_def slot_def)
      moreover have "m + j < unat (head_second q - tail_second q)" using j by (simp add: length_ring_list)
      ultimately show "ring_list q2 ! j = drop m (ring_list q) ! j"
        using j len by (simp add: ring_list_def length_ring_list q2_def q1_def)
    qed
    ultimately show ?thesis using run of by (intro exI [of _ q2]) (simp add: q2_def q1_def)
  qed
qed

section \<open>The bounded queue interface\<close>

datatype 'a queue_op = Push "'a list" | Pop nat

text \<open>A call answers how many objects it took, or the objects it gave back. A run collects the answers.\<close>

datatype 'a queue_answer = Pushed nat | Popped "'a list"

fun run_queue ::
  "('s \<Rightarrow> 'a list \<Rightarrow> (nat \<times> 's) option) \<Rightarrow> ('s \<Rightarrow> nat \<Rightarrow> ('a list \<times> 's) option) \<Rightarrow> 'a queue_op list \<Rightarrow> 's \<Rightarrow> ('a queue_answer list \<times> 's) option" where
  "run_queue push pop [] s = Some ([], s)"
| "run_queue push pop (Push xs # ops) s =
     (case push s xs of
        None \<Rightarrow> None
      | Some (n, s1) \<Rightarrow> map_option (\<lambda>(as, s2). (Pushed n # as, s2)) (run_queue push pop ops s1))"
| "run_queue push pop (Pop n # ops) s =
     (case pop s n of
        None \<Rightarrow> None
      | Some (ys, s1) \<Rightarrow> map_option (\<lambda>(as, s2). (Popped ys # as, s2)) (run_queue push pop ops s1))"

text \<open>
  The specification, on a list of at most \<open>c\<close> objects: a push appends as many of its objects as there is
  room for and says how many, a pop takes as many as it asks for, or all there are, from the front.
\<close>

fun spec_queue :: "nat \<Rightarrow> 'a queue_op list \<Rightarrow> 'a list \<Rightarrow> 'a queue_answer list \<times> 'a list" where
  "spec_queue c [] q = ([], q)"
| "spec_queue c (Push xs # ops) q =
     (let n = min (length xs) (c - length q); (as, q') = spec_queue c ops (q @ take n xs) in (Pushed n # as, q'))"
| "spec_queue c (Pop n # ops) q =
     (let (as, q') = spec_queue c ops (drop n q) in (Popped (take n q) # as, q'))"

fun op_size :: "'a queue_op \<Rightarrow> nat" where
  "op_size (Push xs) = length xs"
| "op_size (Pop n) = n"

locale bounded_queue =
  fixes inv :: "'s \<Rightarrow> bool" and items :: "'s \<Rightarrow> 'a list" and cap :: "'s \<Rightarrow> nat" and lim :: nat
    and push :: "'s \<Rightarrow> 'a list \<Rightarrow> (nat \<times> 's) option" and pop :: "'s \<Rightarrow> nat \<Rightarrow> ('a list \<times> 's) option"
  assumes items_bound: "inv s \<Longrightarrow> length (items s) \<le> cap s"
    and push_law: "inv s \<Longrightarrow> length xs \<le> lim \<Longrightarrow>
      \<exists>s'. push s xs = Some (min (length xs) (cap s - length (items s)), s') \<and> inv s' \<and> cap s' = cap s \<and>
        items s' = items s @ take (min (length xs) (cap s - length (items s))) xs"
    and pop_law: "inv s \<Longrightarrow> n \<le> lim \<Longrightarrow>
      \<exists>s'. pop s n = Some (take n (items s), s') \<and> inv s' \<and> cap s' = cap s \<and> items s' = drop n (items s)"
begin

lemma run_queue_refines:
  assumes "inv s" and "\<forall>op \<in> set ops. op_size op \<le> lim"
  shows "\<exists>s'. run_queue push pop ops s = Some (fst (spec_queue (cap s) ops (items s)), s') \<and> inv s' \<and>
    cap s' = cap s \<and> items s' = snd (spec_queue (cap s) ops (items s)) \<and> length (items s') \<le> cap s"
  using assms
proof (induction ops arbitrary: s)
  case Nil
  then show ?case using items_bound by simp
next
  case (Cons op ops)
  show ?case
  proof (cases op)
    case (Push xs)
    then obtain s1 where s1: "push s xs = Some (min (length xs) (cap s - length (items s)), s1)" "inv s1"
      "cap s1 = cap s" "items s1 = items s @ take (min (length xs) (cap s - length (items s))) xs"
      using push_law [OF Cons.prems(1), of xs] Cons.prems(2) by auto
    with Push Cons.IH [OF s1(2)] Cons.prems(2) show ?thesis by (auto simp: Let_def split: prod.splits)
  next
    case (Pop n)
    then obtain s1 where s1: "pop s n = Some (take n (items s), s1)" "inv s1" "cap s1 = cap s"
      "items s1 = drop n (items s)"
      using pop_law [OF Cons.prems(1), of n] Cons.prems(2) by auto
    with Pop Cons.IH [OF s1(2)] Cons.prems(2) show ?thesis by (auto simp: Let_def split: prod.splits)
  qed
qed
end

text \<open>The ring as such a queue: a failed or blocked call is \<open>None\<close>.\<close>

definition ring_push :: "'a gp_ring \<Rightarrow> 'a list \<Rightarrow> (nat \<times> 'a gp_ring) option" where
  "ring_push q xs =
     (case gp_ring_push q (of_nat (length xs)) xs of Some (Inr (n, q')) \<Rightarrow> Some (unat n, q') | _ \<Rightarrow> None)"

definition ring_pop :: "'a \<Rightarrow> 'a gp_ring \<Rightarrow> nat \<Rightarrow> ('a list \<times> 'a gp_ring) option" where
  "ring_pop null q n =
     (case gp_ring_pop q (of_nat n) (replicate n null) of
        Some (Inr (k, out, q')) \<Rightarrow> Some (take (unat k) out, q') | _ \<Rightarrow> None)"

interpretation ring: bounded_queue ring_wf ring_list "\<lambda>q. unat (ring_capacity q)" 2147483647 ring_push "ring_pop null"
  for null
proof (unfold_locales, goal_cases)
  case (1 q)
  then show ?case by (rule ring_counts(3))
next
  case (2 q xs)
  define m where "m = min (length xs) (unat (ring_capacity q) - length (ring_list q))"
  have n: "unat (of_nat (length xs) :: u32) = length xs" using 2 by (intro unat_of_nat32) simp
  have "unat (of_nat m :: u32) = m" using 2 by (intro unat_of_nat32) (simp add: m_def)
  with gp_ring_push_ok [OF 2(1), of "of_nat (length xs)" xs] show ?case
    unfolding n m_def [symmetric] by (auto simp: ring_push_def)
next
  case (3 q n)
  define m where "m = min n (length (ring_list q))"
  have n: "unat (of_nat n :: u32) = n" using 3 by (intro unat_of_nat32) simp
  have "unat (of_nat m :: u32) = m" using 3 by (intro unat_of_nat32) (simp add: m_def)
  moreover have "take m (take m (ring_list q) @ drop m (replicate n null)) = take n (ring_list q)"
    "drop m (ring_list q) = drop n (ring_list q)"
    by (auto simp: m_def min_def)
  ultimately show ?case
    using gp_ring_pop_ok [OF 3(1), of "of_nat n" "replicate n null"]
    unfolding n m_def [symmetric] by (auto simp: ring_pop_def)
qed

section \<open>The rings that are created\<close>

text \<open>Each step of \<open>gp_align32pow2\<close> doubles the distance over which a set bit spreads downwards.\<close>

lemma smear_step:
  fixes x y :: u32
  assumes "\<And>n. bit y n \<longleftrightarrow> (\<exists>j < m. bit x (n + j))"
  shows "bit (y OR drop_bit m y) n \<longleftrightarrow> (\<exists>j < 2 * m. bit x (n + j))"
proof -
  have "bit (y OR drop_bit m y) n \<longleftrightarrow> (\<exists>j < m. bit x (n + j)) \<or> (\<exists>j < m. bit x (m + n + j))"
    by (simp add: bit_simps assms)
  also have "\<dots> \<longleftrightarrow> (\<exists>j < 2 * m. bit x (n + j))" (is "?l \<longleftrightarrow> ?r")
  proof
    assume ?l
    then show ?r
    proof
      assume "\<exists>j < m. bit x (m + n + j)"
      then obtain j where "j < m" "bit x (n + (m + j))" by (auto simp: ac_simps)
      then show ?r by (intro exI [of _ "m + j"]) simp
    qed force
  next
    assume ?r
    then obtain j where j: "j < 2 * m" "bit x (n + j)" by blast
    show ?l
    proof (cases "j < m")
      case False
      then have "j - m < m" "bit x (m + n + (j - m))" using j by (simp_all add: ac_simps)
      then show ?thesis by blast
    qed (use j in blast)
  qed
  finally show ?thesis .
qed

lemma smear_bits: "bit (gp_align32pow2 (x + 1)) n \<longleftrightarrow> (\<exists>j < 32. bit x (n + j))"
proof -
  define x1 where "x1 = x OR drop_bit 1 x"
  define x2 where "x2 = x1 OR drop_bit 2 x1"
  define x3 where "x3 = x2 OR drop_bit 4 x2"
  define x4 where "x4 = x3 OR drop_bit 8 x3"
  define x5 where "x5 = x4 OR drop_bit 16 x4"
  have s1: "bit x1 n \<longleftrightarrow> (\<exists>j < 2. bit x (n + j))" for n
    unfolding x1_def using smear_step [of x 1 x n] by simp
  have s2: "bit x2 n \<longleftrightarrow> (\<exists>j < 4. bit x (n + j))" for n
    unfolding x2_def using smear_step [of x1 2 x n] s1 by simp
  have s3: "bit x3 n \<longleftrightarrow> (\<exists>j < 8. bit x (n + j))" for n
    unfolding x3_def using smear_step [of x2 4 x n] s2 by simp
  have s4: "bit x4 n \<longleftrightarrow> (\<exists>j < 16. bit x (n + j))" for n
    unfolding x4_def using smear_step [of x3 8 x n] s3 by simp
  have "bit x5 n \<longleftrightarrow> (\<exists>j < 32. bit x (n + j))"
    unfolding x5_def using smear_step [of x4 16 x n] s4 by simp
  moreover have "gp_align32pow2 (x + 1) = x5"
    by (simp add: gp_align32pow2_def x5_def x4_def x3_def x2_def x1_def Let_def)
  ultimately show ?thesis by simp
qed

lemma smear_odd:
  assumes "x \<noteq> 0"
  shows "bit (gp_align32pow2 (x + 1)) 0"
proof (rule ccontr)
  assume "\<not> ?thesis"
  then have "\<not> bit x j" if "j < 32" for j using that smear_bits [of x 0] by auto
  then have "x = 0" by (intro bit_word_eqI) simp
  with assms show False by simp
qed

lemma odd_unat: "odd (unat (z :: u32)) \<longleftrightarrow> odd z"
  using bit_unsigned_iff [of z 0, where 'a = nat] by (simp add: bit_0)

lemma word_nonzero_bit:
  fixes x :: u32
  assumes "x \<noteq> 0"
  shows "\<exists>i < 32. bit x i"
proof (rule ccontr)
  assume "\<not> ?thesis"
  then have "x = 0" by (intro bit_word_eqI) simp
  with assms show False by simp
qed

lemma align_size:
  assumes "2 \<le> unat count"
  shows "odd (gp_align32pow2 (count + 1))" and "3 \<le> unat (gp_align32pow2 (count + 1))"
    and "gp_align32pow2 (count + 1) \<noteq> 1"
proof -
  define z where "z = gp_align32pow2 (count + 1)"
  have "count \<noteq> 0" using assms by auto
  then have b0: "bit z 0" unfolding z_def by (rule smear_odd)
  then show odd: "odd (gp_align32pow2 (count + 1))" by (simp add: z_def bit_0)
  have big: "x div 2 \<noteq> 0 \<longleftrightarrow> 2 \<le> unat x" for x :: u32
  proof -
    have "unat (x div 2) = unat x div 2" by (simp add: unat_div)
    then show ?thesis by (metis unat_eq_zero div_eq_0_iff not_less zero_neq_numeral)
  qed
  have "drop_bit 1 count \<noteq> 0" using big [of count] assms by (simp add: drop_bit_eq_div)
  then obtain i where "bit (drop_bit 1 count) i" "i < 32"
    using word_nonzero_bit by blast
  then have "bit z 1" unfolding z_def smear_bits by (auto simp: bit_simps)
  then have "bit (drop_bit 1 z) 0" by (simp add: bit_simps)
  then have "drop_bit 1 z \<noteq> 0" by auto
  then have "2 \<le> unat z" using big [of z] by (simp add: drop_bit_eq_div)
  moreover have "odd (unat z)" using odd by (simp add: z_def odd_unat)
  ultimately have "3 \<le> unat z" by presburger
  then show "3 \<le> unat (gp_align32pow2 (count + 1))" and "gp_align32pow2 (count + 1) \<noteq> 1"
    by (auto simp: z_def)
qed

text \<open>
  \<open>gp_align32pow2\<close> omits the final increment: it gives a power of two minus one, and the mask
  computed from it is unusable. Of all the rings \<open>create_gp_ring\<close> can make only the one with a
  single slot is well-formed.
\<close>

lemma create_gp_ring_wf_iff: "ring_wf (create_gp_ring null count) \<longleftrightarrow> count = 1"
proof (cases "2 \<le> unat count")
  case True
  note a = align_size [OF True]
  have "\<not> (\<exists>k \<le> 31. gp_align32pow2 (count + 1) = 2 ^ k)"
  proof
    assume "\<exists>k \<le> 31. gp_align32pow2 (count + 1) = 2 ^ k"
    then obtain k where k: "k \<le> 31" "gp_align32pow2 (count + 1) = 2 ^ k" by blast
    then show False using a by (cases "k = 0") simp_all
  qed
  moreover have "count \<noteq> 1" using True by auto
  ultimately show ?thesis by (simp add: ring_wf_def create_gp_ring_def init_gp_ring_def Let_def)
next
  case False
  then have "unat count = 0 \<or> unat count = 1" by linarith
  then have "count = 0 \<or> count = 1" by (metis unat_0 unat_1 word_unat_eq_iff)
  then show ?thesis
  proof
    assume "count = 0"
    then show ?thesis
      by (auto simp: ring_wf_def create_gp_ring_def init_gp_ring_def gp_align32pow2_def Let_def)
  next
    assume "count = 1"
    then show ?thesis
      by (auto simp: ring_wf_def create_gp_ring_def init_gp_ring_def gp_align32pow2_def Let_def intro: exI [of _ 0])
  qed
qed

lemma odd_mask:
  fixes z :: u32
  assumes "odd z"
  shows "1 AND (z - 1) = 0"
proof -
  have o: "odd (unat z)" using assms by (simp add: odd_unat)
  then have "0 < unat z" by (rule odd_pos)
  then have "unat (z - 1) = unat z - 1" by (subst unat_diff_le) simp_all
  then have "unat ((z - 1) mod 2) = 0" using o by (simp add: unat_mod)
  then have "(z - 1) mod 2 = 0" using unat_eq_zero by blast
  then show ?thesis by (simp add: one_and_eq)
qed

text \<open>A ring whose mask sends both positions 0 and 1 to slot 0.\<close>

definition bad_ring :: "u32 \<Rightarrow> u32 \<Rightarrow> u32 \<Rightarrow> u32 \<Rightarrow> 'a list \<Rightarrow> 'a gp_ring" where
  "bad_ring z count h t ms =
     \<lparr>ring_size = z, ring_mask = z - 1, ring_capacity = count, head_first = h, head_second = h,
      tail_first = t, tail_second = t, msgs = ms\<rparr>"

lemma bad_ring_push:
  assumes "h AND (z - 1) = 0" and "1 < z" and "1 \<le> count - h" and "ms \<noteq> []"
  shows "ring_push (bad_ring z count h 0 ms) [x] = Some (1, bad_ring z count (h + 1) 0 (ms[0 := x]))"
proof -
  have "count \<noteq> h" using assms(3) by auto
  with assms show ?thesis
    by (simp add: ring_push_def gp_ring_push_def bad_ring_def push_count_def ring_write_def Let_def
      copy_unrolled_loop slot_copy_def numeral_eq_Suc linorder_not_less)
qed

lemma bad_ring_pop:
  assumes "t AND (z - 1) = 0" and "1 < z" and "1 \<le> h - t" and "ms \<noteq> []"
  shows "ring_pop null (bad_ring z count h t ms) 1 = Some ([ms ! 0], bad_ring z count h (t + 1) ms)"
proof -
  have "h \<noteq> t" using assms(3) by auto
  with assms show ?thesis
    by (simp add: ring_pop_def gp_ring_pop_def bad_ring_def pop_count_def ring_read_def Let_def
      copy_unrolled_loop slot_copy_def numeral_eq_Suc linorder_not_less)
qed

text \<open>
  Consequently any ring with two or more slots loses objects: of two objects pushed one after the
  other into a new ring the first is overwritten, and two pops both return the second.
\<close>

lemma ring_loses_first_object:
  assumes "2 \<le> unat count"
  shows "\<exists>q'. run_queue ring_push (ring_pop null) [Push [a], Push [b], Pop 1, Pop 1] (create_gp_ring null count) =
    Some ([Pushed 1, Pushed 1, Popped [b], Popped [b]], q')"
proof -
  define z where "z = gp_align32pow2 (count + 1)"
  have z: "odd z" "3 \<le> unat z" using align_size [OF assms] by (simp_all add: z_def)
  have mask: "1 AND (z - 1) = 0" using z(1) by (rule odd_mask)
  have lt: "1 < z" using z(2) by (simp add: word_less_nat_alt)
  define ms where "ms = replicate (unat count) null"
  have ms: "ms \<noteq> []" using assms by (auto simp: ms_def)
  have "unat (count - 1) = unat count - 1" using assms by (subst unat_diff_le) simp_all
  then have cap: "1 \<le> count" "1 \<le> count - 1" using assms by (simp_all add: word_le_nat_alt)
  have start: "create_gp_ring null count = bad_ring z count 0 0 ms"
    by (simp add: create_gp_ring_def init_gp_ring_def Let_def bad_ring_def z_def ms_def)
  have p1: "ring_push (create_gp_ring null count) [a] = Some (1, bad_ring z count 1 0 (ms[0 := a]))"
    using bad_ring_push [of 0 z count ms a] lt cap ms by (simp add: start)
  have p2: "ring_push (bad_ring z count 1 0 (ms[0 := a])) [b] = Some (1, bad_ring z count 2 0 (ms[0 := b]))"
    using bad_ring_push [of 1 z count "ms[0 := a]" b] mask lt cap ms by simp
  have p3: "ring_pop null (bad_ring z count 2 0 (ms[0 := b])) 1 = Some ([b], bad_ring z count 2 1 (ms[0 := b]))"
    using bad_ring_pop [of 0 z 2 "ms[0 := b]" null count] lt ms by simp
  have p4: "ring_pop null (bad_ring z count 2 1 (ms[0 := b])) 1 = Some ([b], bad_ring z count 2 2 (ms[0 := b]))"
    using bad_ring_pop [of 1 z 2 "ms[0 := b]" null count] mask lt ms by simp
  show ?thesis by (simp add: p1 p2 p3 p4 del: One_nat_def)
qed

text \<open>
  The size computed also exceeds the number of slots allocated: a ring for four objects that has
  been filled and emptied once writes the next object behind its last slot.
\<close>

lemma ring_writes_out_of_bounds:
  "case gp_ring_push (create_gp_ring 0 4) 4 [1, 2, 3, 4 :: nat] of
     Some (Inr (n, q1)) \<Rightarrow>
       (case gp_ring_pop q1 4 [0, 0, 0, 0] of
          Some (Inr (k, out, q2)) \<Rightarrow> n = 4 \<and> k = 4 \<and> out = [1, 2, 3, 4] \<and> gp_ring_push q2 1 [5] = Some (Inl OutOfBounds)
        | _ \<Rightarrow> False)
   | _ \<Rightarrow> False"
  by code_simp

text \<open>A ring for no objects takes none and gives none.\<close>

lemma empty_ring_calls:
  "ring_push (create_gp_ring null 0) xs = Some (0, create_gp_ring null 0)"
  "ring_pop null (create_gp_ring null 0) n = Some ([], create_gp_ring null 0)"
proof -
  let ?q = "create_gp_ring null 0"
  have "push_count ?q k = 0" "pop_count ?q k = 0" for k
    by (auto simp: push_count_def pop_count_def create_gp_ring_def init_gp_ring_def Let_def word_gt_0)
  then show "ring_push ?q xs = Some (0, ?q)" "ring_pop null ?q n = Some ([], ?q)"
    by (simp_all add: ring_push_def gp_ring_push_def ring_pop_def gp_ring_pop_def Let_def)
qed

lemma empty_ring:
  "run_queue ring_push (ring_pop null) ops (create_gp_ring null 0) =
    Some (fst (spec_queue 0 ops []), create_gp_ring null 0) \<and> snd (spec_queue 0 ops []) = []"
proof (induction ops)
  case (Cons op ops)
  then show ?case by (cases op) (simp_all add: empty_ring_calls Let_def case_prod_beta)
qed simp

lemma created_ring_contents: "ring_list (create_gp_ring null count) = []"
  "ring_capacity (create_gp_ring null count) = count"
  by (simp_all add: ring_list_def create_gp_ring_def init_gp_ring_def Let_def)

section \<open>Properties\<close>

text \<open>
  C14. On a well-formed ring (a power of two of slots and the matching mask) any sequence of pushes and
  pops, single or in batches, refines a bounded first-in-first-out queue: no call blocks, fails or
  accesses a slot outside the allocated ones, every push takes exactly as many objects as there is room
  for, every pop returns exactly the oldest objects that are stored, and the contents at the end are
  those of the queue, also after the 32 bit counters have wrapped around. Of the rings that
  \<open>create_gp_ring\<close> itself makes exactly those for at most one object refine the queue: the size is
  computed as a power of two minus one, and a ring for two or more objects loses some.
\<close>

theorem ring_fifo:
  fixes null :: nat
  shows "(\<forall>q ops. ring_wf q \<and> (\<forall>op \<in> set ops. op_size op \<le> 2147483647) \<longrightarrow>
      (\<exists>q'. run_queue ring_push (ring_pop null) ops q = Some (fst (spec_queue (unat (ring_capacity q)) ops (ring_list q)), q') \<and>
        ring_wf q' \<and> ring_list q' = snd (spec_queue (unat (ring_capacity q)) ops (ring_list q)))) \<and>
    ((\<forall>ops. (\<forall>op \<in> set ops. op_size op \<le> 2147483647) \<longrightarrow>
      (\<exists>q'. run_queue ring_push (ring_pop null) ops (create_gp_ring null count) = Some (fst (spec_queue (unat count) ops []), q') \<and>
        ring_list q' = snd (spec_queue (unat count) ops []))) \<longleftrightarrow> unat count \<le> 1)"
    (is "?wf \<and> ((\<forall>ops. ?small ops \<longrightarrow> ?refines ops) \<longleftrightarrow> _)")
proof
  show wf: ?wf
  proof (intro allI impI, elim conjE)
    fix q :: "nat gp_ring" and ops
    assume "ring_wf q" "?small ops"
    from ring.run_queue_refines [OF this, of null]
    show "\<exists>q'. run_queue ring_push (ring_pop null) ops q = Some (fst (spec_queue (unat (ring_capacity q)) ops (ring_list q)), q') \<and>
        ring_wf q' \<and> ring_list q' = snd (spec_queue (unat (ring_capacity q)) ops (ring_list q))" by blast
  qed
  show "(\<forall>ops. ?small ops \<longrightarrow> ?refines ops) \<longleftrightarrow> unat count \<le> 1"
  proof
    assume all: "\<forall>ops. ?small ops \<longrightarrow> ?refines ops"
    have "?small [Push [1], Push [2], Pop 1, Pop 1]" by simp
    with all have "?refines [Push [1], Push [2], Pop 1, Pop 1]" by blast
    moreover have "fst (spec_queue (unat count) [Push [1], Push [2], Pop 1, Pop 1] []) \<noteq> [Pushed 1, Pushed 1, Popped [2 :: nat], Popped [2]]"
      by (cases "unat count") (simp_all add: Let_def min_def)
    ultimately show "unat count \<le> 1"
      using ring_loses_first_object [of count null 1 2] by (metis Pair_inject not_less_eq_eq numeral_2_eq_2 One_nat_def option.inject)
  next
    assume "unat count \<le> 1"
    then have "count = 0 \<or> count = 1" by (metis le_Suc_eq le_zero_eq One_nat_def unat_0 unat_1 word_unat_eq_iff)
    then show "\<forall>ops. ?small ops \<longrightarrow> ?refines ops"
    proof
      assume "count = 0"
      then show ?thesis using empty_ring [of null] by (simp add: created_ring_contents)
    next
      assume c: "count = 1"
      then have "ring_wf (create_gp_ring null count)" by (simp add: create_gp_ring_wf_iff)
      with wf have "ring_wf (create_gp_ring null count) \<and> ?small ops \<longrightarrow> ?refines ops" for ops
        by (metis created_ring_contents)
      then show ?thesis using \<open>ring_wf _\<close> by blast
    qed
  qed
qed

theorem ring_fifo_witness:
  "\<exists>q'. run_queue ring_push (ring_pop 0) [Push [7], Push [8], Pop 1, Push [9, 10], Pop 2] (create_gp_ring (0 :: nat) 1) =
     Some ([Pushed 1, Pushed 0, Popped [7], Pushed 1, Popped [9]], q') \<and> ring_wf q' \<and> ring_list q' = []"
proof -
  have "ring_wf (create_gp_ring (0 :: nat) 1)" by (simp add: create_gp_ring_wf_iff)
  then show ?thesis
    using conjunct1 [OF ring_fifo [of 0], rule_format, of "create_gp_ring 0 1" "[Push [7], Push [8], Pop 1, Push [9, 10], Pop 2]"]
    by (simp add: created_ring_contents Let_def)
qed

end
