(* ===== verification/Gp_List.thy ===== *)
theory Gp_List
  imports Prelude
begin

text \<open>
  The intrusive doubly linked list of \<open>base/gp_list.c\<close>, over an explicit heap: a \<open>gp_list\<close> is a head
  node in a circular chain, an item carries its node at the list's offset. An address is a number,
  NULL is 0, and every access through NULL is an error. The representation predicate \<open>dlist\<close> relates
  the pointers to the sequence of nodes; each operation is proved to act on that sequence and to leave
  every other list alone.
\<close>

section \<open>Heap and operations\<close>

type_synonym addr = nat

text \<open>\<open>ll_head\<close> is the first member of \<open>gp_list\<close>: the address of a list is that of its head node.\<close>

record list_heap =
  ln_next :: "addr \<Rightarrow> addr"
  ln_prev :: "addr \<Rightarrow> addr"
  ll_offset :: "addr \<Rightarrow> nat"

definition rd_next :: "list_heap \<Rightarrow> addr \<Rightarrow> addr res" where
  "rd_next h p = (if p = 0 then Inl NullDeref else Inr (ln_next h p))"

definition rd_prev :: "list_heap \<Rightarrow> addr \<Rightarrow> addr res" where
  "rd_prev h p = (if p = 0 then Inl NullDeref else Inr (ln_prev h p))"

definition wr_next :: "list_heap \<Rightarrow> addr \<Rightarrow> addr \<Rightarrow> list_heap res" where
  "wr_next h p v = (if p = 0 then Inl NullDeref else Inr (h\<lparr>ln_next := (ln_next h)(p := v)\<rparr>))"

definition wr_prev :: "list_heap \<Rightarrow> addr \<Rightarrow> addr \<Rightarrow> list_heap res" where
  "wr_prev h p v = (if p = 0 then Inl NullDeref else Inr (h\<lparr>ln_prev := (ln_prev h)(p := v)\<rparr>))"

definition NODE :: "list_heap \<Rightarrow> addr \<Rightarrow> addr \<Rightarrow> addr" where
  "NODE h l item = item + ll_offset h l"

definition ITEM :: "list_heap \<Rightarrow> addr \<Rightarrow> addr \<Rightarrow> addr" where
  "ITEM h l node = node - ll_offset h l"

definition gp_list_init_offset :: "list_heap \<Rightarrow> addr \<Rightarrow> nat \<Rightarrow> list_heap res" where
  "gp_list_init_offset h l offset =
     bindE (wr_next (h\<lparr>ll_offset := (ll_offset h)(l := offset)\<rparr>) l l) (\<lambda>h1. wr_prev h1 l l)"

definition gp_list_first :: "list_heap \<Rightarrow> addr \<Rightarrow> addr res" where
  "gp_list_first h l = bindE (rd_next h l) (\<lambda>node. Inr (if node = l then 0 else ITEM h l node))"

definition gp_list_last :: "list_heap \<Rightarrow> addr \<Rightarrow> addr res" where
  "gp_list_last h l = bindE (rd_prev h l) (\<lambda>node. Inr (if node = l then 0 else ITEM h l node))"

text \<open>
  The last two assignments shared by the four insertions:
  \<open>node->ln_next->ln_prev = node; node->ln_prev->ln_next = node\<close>. A node that is already on a list is only
  reported on standard output.
\<close>

definition link_neighbours :: "list_heap \<Rightarrow> addr \<Rightarrow> list_heap res" where
  "link_neighbours h node =
     bindE (rd_next h node) (\<lambda>nx.
     bindE (wr_prev h nx node) (\<lambda>h1.
     bindE (rd_prev h1 node) (\<lambda>pv.
       wr_next h1 pv node)))"

definition gp_list_append :: "list_heap \<Rightarrow> addr \<Rightarrow> addr \<Rightarrow> list_heap res" where
  "gp_list_append h l item =
     (let node = NODE h l item in
      bindE (rd_prev h l) (\<lambda>pv.
      bindE (wr_prev h node pv) (\<lambda>h1.
      bindE (wr_next h1 node l) (\<lambda>h2.
        link_neighbours h2 node))))"

definition gp_list_prepend :: "list_heap \<Rightarrow> addr \<Rightarrow> addr \<Rightarrow> list_heap res" where
  "gp_list_prepend h l item =
     (let node = NODE h l item in
      bindE (rd_next h l) (\<lambda>nx.
      bindE (wr_next h node nx) (\<lambda>h1.
      bindE (wr_prev h1 node l) (\<lambda>h2.
        link_neighbours h2 node))))"

definition gp_list_insert_before :: "list_heap \<Rightarrow> addr \<Rightarrow> addr \<Rightarrow> addr \<Rightarrow> list_heap res" where
  "gp_list_insert_before h l item before =
     (let node = NODE h l item; pos = NODE h l before in
      bindE (wr_next h node pos) (\<lambda>h1.
      bindE (rd_prev h1 pos) (\<lambda>pv.
      bindE (wr_prev h1 node pv) (\<lambda>h2.
        link_neighbours h2 node))))"

definition gp_list_insert_after :: "list_heap \<Rightarrow> addr \<Rightarrow> addr \<Rightarrow> addr \<Rightarrow> list_heap res" where
  "gp_list_insert_after h l item after =
     (let node = NODE h l item; pos = NODE h l after in
      bindE (wr_prev h node pos) (\<lambda>h1.
      bindE (rd_next h1 pos) (\<lambda>nx.
      bindE (wr_next h1 node nx) (\<lambda>h2.
        link_neighbours h2 node))))"

definition gp_list_next :: "list_heap \<Rightarrow> addr \<Rightarrow> addr \<Rightarrow> addr res" where
  "gp_list_next h l item =
     (if item = 0 then Inr 0
      else
        bindE (rd_next h (NODE h l item)) (\<lambda>node.
          if node = 0 then Inr 0 else if node = l then Inr 0 else Inr (ITEM h l node)))"

definition gp_list_prev :: "list_heap \<Rightarrow> addr \<Rightarrow> addr \<Rightarrow> addr res" where
  "gp_list_prev h l item =
     bindE (rd_prev h (NODE h l item)) (\<lambda>node. Inr (if node = l then 0 else ITEM h l node))"

text \<open>The four assignments of \<open>gp_list_remove\<close> and \<open>gp_list_node_remove\<close>.\<close>

definition unlink_node :: "list_heap \<Rightarrow> addr \<Rightarrow> list_heap res" where
  "unlink_node h node =
     bindE (rd_prev h node) (\<lambda>pv.
     bindE (rd_next h node) (\<lambda>nx.
     bindE (wr_next h pv nx) (\<lambda>h1.
     bindE (rd_next h1 node) (\<lambda>nx1.
     bindE (rd_prev h1 node) (\<lambda>pv1.
     bindE (wr_prev h1 nx1 pv1) (\<lambda>h2.
     bindE (wr_next h2 node 0) (\<lambda>h3.
       wr_prev h3 node 0)))))))"

definition gp_list_remove :: "list_heap \<Rightarrow> addr \<Rightarrow> addr \<Rightarrow> list_heap res" where
  "gp_list_remove h l item = unlink_node h (NODE h l item)"

definition gp_list_replace :: "list_heap \<Rightarrow> addr \<Rightarrow> addr \<Rightarrow> list_heap res" where
  "gp_list_replace h old new =
     bindE (rd_next h old) (\<lambda>nx.
     bindE (wr_next h new nx) (\<lambda>h1.
     bindE (rd_next h1 new) (\<lambda>nx1.
     bindE (wr_prev h1 nx1 new) (\<lambda>h2.
     bindE (rd_prev h2 old) (\<lambda>pv.
     bindE (wr_prev h2 new pv) (\<lambda>h3.
     bindE (rd_prev h3 new) (\<lambda>pv1.
     bindE (wr_next h3 pv1 new) (\<lambda>h4.
       Inr (h4\<lparr>ll_offset := (ll_offset h4)(new := ll_offset h4 old)\<rparr>)))))))))"

definition gp_list_active :: "list_heap \<Rightarrow> addr \<Rightarrow> addr \<Rightarrow> bool res" where
  "gp_list_active h l item = bindE (rd_next h (NODE h l item)) (\<lambda>nx. Inr (nx \<noteq> 0))"

definition gp_list_empty :: "list_heap \<Rightarrow> addr \<Rightarrow> bool res" where
  "gp_list_empty h l = bindE (rd_next h l) (\<lambda>nx. Inr (nx = 0 \<or> nx = l))"

definition gp_list_node_active :: "list_heap \<Rightarrow> addr \<Rightarrow> bool res" where
  "gp_list_node_active h node = bindE (rd_next h node) (\<lambda>nx. Inr (nx \<noteq> 0))"

definition gp_list_node_remove :: "list_heap \<Rightarrow> addr \<Rightarrow> list_heap res" where
  "gp_list_node_remove h node =
     bindE (rd_next h node) (\<lambda>nx. if nx \<noteq> 0 then unlink_node h node else Inr h)"

text \<open>\<open>GP_LIST_FOREACH\<close>: the items from a given one on; the fuel bounds the number of items.\<close>

fun foreach_from :: "nat \<Rightarrow> list_heap \<Rightarrow> addr \<Rightarrow> addr \<Rightarrow> addr list res option" where
  "foreach_from 0 h l it = (if it = 0 then Some (Inr []) else None)"
| "foreach_from (Suc fuel) h l it =
     (if it = 0 then Some (Inr [])
      else case gp_list_next h l it of
             Inl e \<Rightarrow> Some (Inl e)
           | Inr it' \<Rightarrow> map_option (\<lambda>r. bindE r (\<lambda>its. Inr (it # its))) (foreach_from fuel h l it'))"

definition list_foreach :: "nat \<Rightarrow> list_heap \<Rightarrow> addr \<Rightarrow> addr list res option" where
  "list_foreach fuel h l =
     (case gp_list_first h l of Inl e \<Rightarrow> Some (Inl e) | Inr it \<Rightarrow> foreach_from fuel h l it)"

section \<open>Chains\<close>

fun links :: "list_heap \<Rightarrow> addr list \<Rightarrow> bool" where
  "links h (x # y # r) \<longleftrightarrow> ln_next h x = y \<and> ln_prev h y = x \<and> links h (y # r)"
| "links h _ \<longleftrightarrow> True"

definition dlist :: "list_heap \<Rightarrow> addr \<Rightarrow> addr list \<Rightarrow> bool" where
  "dlist h l ns \<longleftrightarrow> 0 \<notin> set (l # ns) \<and> distinct (l # ns) \<and> links h (l # ns @ [l])"

text \<open>A node that is on no list: both pointers are NULL.\<close>

definition detached :: "list_heap \<Rightarrow> addr \<Rightarrow> bool" where
  "detached h n \<longleftrightarrow> ln_next h n = 0 \<and> ln_prev h n = 0"

lemma links_append: "links h (xs @ y # zs) \<longleftrightarrow> links h (xs @ [y]) \<and> links h (y # zs)"
  by (induction xs rule: induct_list012) auto

lemma links_cong:
  "(\<And>a. a \<in> set (butlast xs) \<Longrightarrow> ln_next h' a = ln_next h a) \<Longrightarrow>
   (\<And>a. a \<in> set (tl xs) \<Longrightarrow> ln_prev h' a = ln_prev h a) \<Longrightarrow> links h' xs = links h xs"
proof (induction h xs rule: links.induct)
  case (1 h x y r)
  have "links h' (y # r) = links h (y # r)"
    by (rule "1.IH") (use "1.prems" in auto)
  then show ?case using "1.prems" by simp
qed simp_all

lemma in_set_tlD: "x \<in> set (tl xs) \<Longrightarrow> x \<in> set xs"
  by (cases xs) auto

definition splice :: "list_heap \<Rightarrow> addr \<Rightarrow> addr \<Rightarrow> addr \<Rightarrow> list_heap" where
  "splice h a n b =
     h\<lparr>ln_next := (ln_next h)(n := b, a := n), ln_prev := (ln_prev h)(n := a, b := n)\<rparr>"

definition unsplice :: "list_heap \<Rightarrow> addr \<Rightarrow> addr \<Rightarrow> addr \<Rightarrow> list_heap" where
  "unsplice h a n b =
     h\<lparr>ln_next := (ln_next h)(a := b, n := 0), ln_prev := (ln_prev h)(b := a, n := 0)\<rparr>"

text \<open>
  Linking a node between two neighbours of the cycle, and taking it out again. The cycle is written
  \<open>xs @ a # b # ys\<close>, starting and ending with the head.
\<close>

lemma splice_links:
  assumes "links h (xs @ a # b # ys)" and "distinct (xs @ [a])" and "distinct (b # ys)"
    and "n \<notin> set (xs @ a # b # ys)" and "b \<notin> set (tl (xs @ [a]))" and "a \<notin> set (butlast (b # ys))"
  shows "links (splice h a n b) (xs @ a # n # b # ys)"
proof -
  have l: "links h (xs @ [a])" "links h (b # ys)"
    using assms(1) links_append [of h xs a "b # ys"] by auto
  have "links (splice h a n b) (xs @ [a])"
    using l(1) by (subst links_cong [of _ _ h])
      (use assms(2,4,5) in \<open>auto simp: splice_def butlast_append dest: in_set_butlastD in_set_tlD split: if_splits\<close>)
  moreover have "links (splice h a n b) (b # ys)"
    using l(2) by (subst links_cong [of _ _ h])
      (use assms(3,4,6) in \<open>auto simp: splice_def dest: in_set_butlastD split: if_splits\<close>)
  moreover have "n \<noteq> a" "n \<noteq> b" using assms(4) by auto
  ultimately show ?thesis
    using links_append [of "splice h a n b" xs a "n # b # ys"] by (simp add: splice_def)
qed

lemma unsplice_links:
  assumes "links h (xs @ a # n # b # ys)" and "distinct (xs @ [a])" and "distinct (b # ys)"
    and "n \<notin> set (xs @ a # b # ys)" and "b \<notin> set (tl (xs @ [a]))" and "a \<notin> set (butlast (b # ys))"
  shows "links (unsplice h a n b) (xs @ a # b # ys)"
proof -
  have l: "links h (xs @ [a])" "links h (b # ys)"
    using assms(1) links_append [of h xs a "n # b # ys"] by auto
  have "links (unsplice h a n b) (xs @ [a])"
    using l(1) by (subst links_cong [of _ _ h])
      (use assms(2,4,5) in \<open>auto simp: unsplice_def butlast_append dest: in_set_butlastD in_set_tlD split: if_splits\<close>)
  moreover have "links (unsplice h a n b) (b # ys)"
    using l(2) by (subst links_cong [of _ _ h])
      (use assms(3,4,6) in \<open>auto simp: unsplice_def dest: in_set_butlastD split: if_splits\<close>)
  moreover have "n \<noteq> a" "n \<noteq> b" using assms(4) by auto
  ultimately show ?thesis
    using links_append [of "unsplice h a n b" xs a "b # ys"] by (simp add: unsplice_def)
qed

section \<open>The operations on the sequence of nodes\<close>

lemma links_adjacent: "links h (xs @ a # b # ys) \<Longrightarrow> ln_next h a = b \<and> ln_prev h b = a"
  using links_append [of h xs a "b # ys"] by simp

text \<open>The cycle around a position: the predecessor and the successor of the gap between \<open>xs\<close> and \<open>ys\<close>.\<close>

lemma cycle_split:
  obtains us vs where "l # xs = us @ [last (l # xs)]" "ys @ [l] = hd (ys @ [l]) # vs"
    "l # xs @ ys @ [l] = us @ last (l # xs) # hd (ys @ [l]) # vs"
proof -
  have 1: "l # xs = butlast (l # xs) @ [last (l # xs)]" by simp
  have 2: "ys @ [l] = hd (ys @ [l]) # tl (ys @ [l])" by simp
  have "l # xs @ ys @ [l] = (l # xs) @ (ys @ [l])" by simp
  also have "\<dots> = butlast (l # xs) @ last (l # xs) # hd (ys @ [l]) # tl (ys @ [l])"
    using 1 2 by (metis append.assoc append_Cons append_Nil)
  finally show ?thesis using 1 2 that by blast
qed

lemma dlist_gap:
  assumes "dlist h l (xs @ ys)"
  shows "ln_next h (last (l # xs)) = hd (ys @ [l])" and "ln_prev h (hd (ys @ [l])) = last (l # xs)"
proof -
  obtain us vs where "l # xs @ ys @ [l] = us @ last (l # xs) # hd (ys @ [l]) # vs" by (rule cycle_split)
  moreover have "links h (l # xs @ ys @ [l])" using assms by (simp add: dlist_def)
  ultimately have "links h (us @ last (l # xs) # hd (ys @ [l]) # vs)" by simp
  then show "ln_next h (last (l # xs)) = hd (ys @ [l])" and "ln_prev h (hd (ys @ [l])) = last (l # xs)"
    using links_adjacent by blast+
qed

lemma dlist_gap_mem: "last (l # xs) \<in> set (l # xs)" "hd (ys @ [l]) \<in> set (l # ys)"
proof -
  show "last (l # xs) \<in> set (l # xs)" by (rule last_in_set) simp
  show "hd (ys @ [l]) \<in> set (l # ys)" by (cases ys) simp_all
qed

lemma dlist_splice:
  assumes "dlist h l (xs @ ys)" and "n \<notin> set (l # xs @ ys)" and "n \<noteq> 0"
  shows "dlist (splice h (last (l # xs)) n (hd (ys @ [l]))) l (xs @ n # ys)"
proof -
  define a b where "a = last (l # xs)" and "b = hd (ys @ [l])"
  obtain us vs where c: "l # xs = us @ [a]" "ys @ [l] = b # vs" "l # xs @ ys @ [l] = us @ a # b # vs"
    unfolding a_def b_def by (rule cycle_split)
  have d: "distinct (l # xs @ ys)" and l: "links h (us @ a # b # vs)"
    using assms(1) c(3) by (simp_all add: dlist_def)
  have "links (splice h a n b) (us @ a # n # b # vs)"
  proof (rule splice_links [OF l])
    show "distinct (us @ [a])" using d unfolding c(1) [symmetric] by simp
    show "distinct (b # vs)" using d unfolding c(2) [symmetric] by simp
    show "n \<notin> set (us @ a # b # vs)" using assms(2) unfolding c(3) [symmetric] by simp
    show "b \<notin> set (tl (us @ [a]))"
      using d c(2) unfolding c(1) [symmetric] by (cases ys) auto
    have "butlast (b # vs) = ys" using c(2) by (metis butlast_snoc)
    moreover have "a \<in> set (l # xs)" unfolding c(1) by simp
    ultimately show "a \<notin> set (butlast (b # vs))" using d by auto
  qed
  moreover have "us @ a # n # b # vs = l # xs @ n # ys @ [l]"
    using c(1,2) by (metis append.assoc append_Cons append_Nil)
  ultimately show ?thesis
    using assms d by (auto simp: dlist_def a_def b_def)
qed

lemma dlist_unsplice:
  assumes "dlist h l (xs @ n # ys)"
  shows "dlist (unsplice h (last (l # xs)) n (hd (ys @ [l]))) l (xs @ ys)"
proof -
  define a b where "a = last (l # xs)" and "b = hd (ys @ [l])"
  obtain us vs where c: "l # xs = us @ [a]" "ys @ [l] = b # vs" "l # xs @ ys @ [l] = us @ a # b # vs"
    unfolding a_def b_def by (rule cycle_split)
  have cyc: "l # xs @ n # ys @ [l] = us @ a # n # b # vs"
    using c(1,2) by (metis append.assoc append_Cons append_Nil)
  have d: "distinct (l # xs @ n # ys)" and l: "links h (us @ a # n # b # vs)"
    using assms cyc by (simp_all add: dlist_def)
  have "links (unsplice h a n b) (us @ a # b # vs)"
  proof (rule unsplice_links [OF l])
    show "distinct (us @ [a])" using d unfolding c(1) [symmetric] by simp
    show "distinct (b # vs)" using d unfolding c(2) [symmetric] by simp
    show "n \<notin> set (us @ a # b # vs)" using d unfolding c(3) [symmetric] by simp
    show "b \<notin> set (tl (us @ [a]))"
      using d c(2) unfolding c(1) [symmetric] by (cases ys) auto
    have "butlast (b # vs) = ys" using c(2) by (metis butlast_snoc)
    moreover have "a \<in> set (l # xs)" unfolding c(1) by simp
    ultimately show "a \<notin> set (butlast (b # vs))" using d by auto
  qed
  then show ?thesis
    using assms d c(3) by (auto simp: dlist_def a_def b_def)
qed

text \<open>Lists that do not contain the changed nodes are not affected.\<close>

lemma dlist_frame:
  assumes "dlist h l ns" and "\<forall>a \<in> set (l # ns). ln_next h' a = ln_next h a \<and> ln_prev h' a = ln_prev h a"
  shows "dlist h' l ns"
proof -
  have "links h' (l # ns @ [l]) = links h (l # ns @ [l])"
    by (rule links_cong) (use assms(2) in \<open>auto dest: in_set_butlastD\<close>)
  then show ?thesis using assms(1) by (simp add: dlist_def)
qed

lemma splice_frame:
  "dlist h l2 ns2 \<Longrightarrow> {a, n, b} \<inter> set (l2 # ns2) = {} \<Longrightarrow> dlist (splice h a n b) l2 ns2"
  by (erule dlist_frame) (auto simp: splice_def)

lemma unsplice_frame:
  "dlist h l2 ns2 \<Longrightarrow> {a, n, b} \<inter> set (l2 # ns2) = {} \<Longrightarrow> dlist (unsplice h a n b) l2 ns2"
  by (erule dlist_frame) (auto simp: unsplice_def)

lemmas heap_access = rd_next_def rd_prev_def wr_next_def wr_prev_def

lemma link_neighbours_eq:
  assumes "n \<noteq> 0" and "ln_next h n \<noteq> 0" and "ln_prev h n \<noteq> 0" and "ln_next h n \<noteq> n"
  shows "link_neighbours h n =
    Inr (h\<lparr>ln_next := (ln_next h)(ln_prev h n := n), ln_prev := (ln_prev h)(ln_next h n := n)\<rparr>)"
  using assms by (simp add: link_neighbours_def heap_access)

lemma dlist_nonnull: "dlist h l ns \<Longrightarrow> a \<in> set (l # ns) \<Longrightarrow> a \<noteq> 0"
  unfolding dlist_def by metis

lemma gp_list_append_splice:
  assumes "dlist h l ns" and "NODE h l item \<noteq> 0" and "NODE h l item \<notin> set (l # ns)"
  shows "gp_list_append h l item = Inr (splice h (last (l # ns)) (NODE h l item) l)"
proof -
  have p: "ln_prev h l = last (l # ns)" using dlist_gap(2) [of h l ns "[]"] assms(1) by simp
  have "last (l # ns) \<noteq> 0" using dlist_nonnull [OF assms(1) dlist_gap_mem(1) [of l ns]] .
  moreover have "last (l # ns) \<noteq> NODE h l item" using assms(3) dlist_gap_mem(1) [of l ns] by metis
  ultimately show ?thesis
    using assms dlist_nonnull [OF assms(1), of l] p
    by (simp add: gp_list_append_def Let_def heap_access link_neighbours_eq splice_def del: last.simps)
qed

lemma gp_list_prepend_splice:
  assumes "dlist h l ns" and "NODE h l item \<noteq> 0" and "NODE h l item \<notin> set (l # ns)"
  shows "gp_list_prepend h l item = Inr (splice h l (NODE h l item) (hd (ns @ [l])))"
proof -
  have p: "ln_next h l = hd (ns @ [l])" using dlist_gap(1) [of h l "[]" ns] assms(1) by simp
  have "hd (ns @ [l]) \<noteq> 0" using dlist_nonnull [OF assms(1) dlist_gap_mem(2) [of ns l]] .
  moreover have "hd (ns @ [l]) \<noteq> NODE h l item" using assms(3) dlist_gap_mem(2) [of ns l] by metis
  ultimately show ?thesis
    using assms dlist_nonnull [OF assms(1), of l] p
    by (simp add: gp_list_prepend_def Let_def heap_access link_neighbours_eq splice_def)
qed

lemma gp_list_insert_before_splice:
  assumes d: "dlist h l (xs @ m # ys)" and n: "NODE h l item \<noteq> 0" "NODE h l item \<notin> set (l # xs @ m # ys)"
    and m: "NODE h l before = m"
  shows "gp_list_insert_before h l item before = Inr (splice h (last (l # xs)) (NODE h l item) m)"
proof -
  have p: "ln_prev h m = last (l # xs)" using dlist_gap(2) [OF d] by simp
  have "last (l # xs) \<in> set (l # xs @ m # ys)" using dlist_gap_mem(1) [of l xs] by auto
  then have "last (l # xs) \<noteq> 0" "last (l # xs) \<noteq> NODE h l item"
    using dlist_nonnull [OF d] n(2) by auto
  moreover have "m \<noteq> 0" "m \<noteq> NODE h l item" using dlist_nonnull [OF d, of m] n(2) by auto
  ultimately show ?thesis
    using n p m
    by (simp add: gp_list_insert_before_def Let_def heap_access link_neighbours_eq splice_def del: last.simps)
qed

lemma gp_list_insert_after_splice:
  assumes d: "dlist h l (xs @ m # ys)" and n: "NODE h l item \<noteq> 0" "NODE h l item \<notin> set (l # xs @ m # ys)"
    and m: "NODE h l after = m"
  shows "gp_list_insert_after h l item after = Inr (splice h m (NODE h l item) (hd (ys @ [l])))"
proof -
  have p: "ln_next h m = hd (ys @ [l])" using dlist_gap(1) [of h l "xs @ [m]" ys] d by simp
  have "hd (ys @ [l]) \<in> set (l # xs @ m # ys)" using dlist_gap_mem(2) [of ys l] by auto
  then have "hd (ys @ [l]) \<noteq> 0" "hd (ys @ [l]) \<noteq> NODE h l item"
    using dlist_nonnull [OF d] n(2) by auto
  moreover have "m \<noteq> 0" "m \<noteq> NODE h l item" using dlist_nonnull [OF d, of m] n(2) by auto
  ultimately show ?thesis
    using n p m
    by (simp add: gp_list_insert_after_def Let_def heap_access link_neighbours_eq splice_def)
qed

lemma unlink_node_unsplice:
  assumes d: "dlist h l (xs @ n # ys)"
  shows "unlink_node h n = Inr (unsplice h (last (l # xs)) n (hd (ys @ [l])))"
proof -
  have p: "ln_prev h n = last (l # xs)" using dlist_gap(2) [OF d] by simp
  have q: "ln_next h n = hd (ys @ [l])" using dlist_gap(1) [of h l "xs @ [n]" ys] d by simp
  have mem: "last (l # xs) \<in> set (l # xs)" "hd (ys @ [l]) \<in> set (l # ys)" by (rule dlist_gap_mem)+
  then have "last (l # xs) \<noteq> 0" "hd (ys @ [l]) \<noteq> 0" using d unfolding dlist_def by auto
  moreover have "last (l # xs) \<noteq> n" "hd (ys @ [l]) \<noteq> n" using d mem unfolding dlist_def by auto
  moreover have "n \<noteq> 0" using d by (auto simp: dlist_def)
  ultimately show ?thesis
    using p q by (simp add: unlink_node_def heap_access unsplice_def del: last.simps)
qed

lemma unsplice_detached: "detached (unsplice h a n b) n"
  by (simp add: detached_def unsplice_def)

section \<open>Items\<close>

text \<open>A list of items: its nodes are the items' addresses plus the offset of the list.\<close>

definition items_at :: "list_heap \<Rightarrow> addr \<Rightarrow> addr list \<Rightarrow> bool" where
  "items_at h l its \<longleftrightarrow> dlist h l (map (NODE h l) its)"

lemma NODE_eq_iff [simp]: "NODE h l i = NODE h l j \<longleftrightarrow> i = j"
  by (simp add: NODE_def)

lemma NODE_mem [simp]: "NODE h l i \<in> NODE h l ` S \<longleftrightarrow> i \<in> S"
  by auto

lemma ITEM_NODE [simp]: "ITEM h l (NODE h l i) = i"
  by (simp add: ITEM_def NODE_def)

lemma NODE_heap [simp]:
  "NODE (splice h a n b) l = NODE h l" "NODE (unsplice h a n b) l = NODE h l"
  by (simp_all add: NODE_def fun_eq_iff splice_def unsplice_def)

definition node_ok :: "list_heap \<Rightarrow> addr \<Rightarrow> addr \<Rightarrow> bool" where
  "node_ok h l i \<longleftrightarrow> NODE h l i \<noteq> 0 \<and> NODE h l i \<noteq> l"

lemma node_ok_heap [simp]:
  "node_ok (splice h a n b) l = node_ok h l" "node_ok (unsplice h a n b) l = node_ok h l"
  by (simp_all add: node_ok_def fun_eq_iff)

text \<open>The changed nodes of an update: all of them belong to the list or are the node put in.\<close>

definition keeps_others :: "list_heap \<Rightarrow> list_heap \<Rightarrow> addr set \<Rightarrow> bool" where
  "keeps_others h h' A \<longleftrightarrow> (\<forall>x. x \<notin> A \<longrightarrow> ln_next h' x = ln_next h x \<and> ln_prev h' x = ln_prev h x)"

lemma keeps_others_splice: "{a, n, b} \<subseteq> A \<Longrightarrow> keeps_others h (splice h a n b) A"
  by (auto simp: keeps_others_def splice_def)

lemma keeps_others_unsplice: "{a, n, b} \<subseteq> A \<Longrightarrow> keeps_others h (unsplice h a n b) A"
  by (auto simp: keeps_others_def unsplice_def)

lemma keeps_others_trans:
  "keeps_others h h1 A \<Longrightarrow> keeps_others h1 h2 B \<Longrightarrow> A \<subseteq> C \<Longrightarrow> B \<subseteq> C \<Longrightarrow> keeps_others h h2 C"
  unfolding keeps_others_def by (metis subsetD)

lemma keeps_others_dlist:
  "keeps_others h h' A \<Longrightarrow> dlist h l ns \<Longrightarrow> A \<inter> set (l # ns) = {} \<Longrightarrow> dlist h' l ns"
  by (rule dlist_frame) (auto simp: keeps_others_def)

definition area :: "list_heap \<Rightarrow> addr \<Rightarrow> addr list \<Rightarrow> addr set" where
  "area h l its = insert l (NODE h l ` set its)"

lemma gap_in_area:
  "last (l # map (NODE h l) xs) \<in> area h l (xs @ ys)" "hd (map (NODE h l) ys @ [l]) \<in> area h l (xs @ ys)"
  using dlist_gap_mem(1) [of l "map (NODE h l) xs"] dlist_gap_mem(2) [of "map (NODE h l) ys" l]
  by (auto simp: area_def simp del: last.simps)

text \<open>Inserting an item at a gap and removing one, as the four insertions and the removals do.\<close>

lemma insert_at_gap:
  assumes "items_at h l (xs @ ys)" and "i \<notin> set (xs @ ys)" and "node_ok h l i"
  defines "h' \<equiv> splice h (last (l # map (NODE h l) xs)) (NODE h l i) (hd (map (NODE h l) ys @ [l]))"
  shows "items_at h' l (xs @ i # ys)" and "keeps_others h h' (insert (NODE h l i) (area h l (xs @ ys)))"
    and "ll_offset h' = ll_offset h"
proof -
  have "dlist h' l (map (NODE h l) xs @ NODE h l i # map (NODE h l) ys)"
    unfolding h'_def using assms(1-3) by (intro dlist_splice) (auto simp: items_at_def node_ok_def)
  then show "items_at h' l (xs @ i # ys)" by (simp add: items_at_def h'_def)
  show "keeps_others h h' (insert (NODE h l i) (area h l (xs @ ys)))"
    unfolding h'_def using gap_in_area(1) [of l h xs ys] gap_in_area(2) [of h l ys xs]
    by (intro keeps_others_splice) (simp del: last.simps)
  show "ll_offset h' = ll_offset h" by (simp add: h'_def splice_def)
qed

lemma remove_at_gap:
  assumes "items_at h l (xs @ i # ys)"
  defines "h' \<equiv> unsplice h (last (l # map (NODE h l) xs)) (NODE h l i) (hd (map (NODE h l) ys @ [l]))"
  shows "unlink_node h (NODE h l i) = Inr h'" and "items_at h' l (xs @ ys)" and "detached h' (NODE h l i)"
    and "keeps_others h h' (area h l (xs @ i # ys))" and "ll_offset h' = ll_offset h"
proof -
  have d: "dlist h l (map (NODE h l) xs @ NODE h l i # map (NODE h l) ys)"
    using assms(1) by (simp add: items_at_def)
  show "unlink_node h (NODE h l i) = Inr h'" unfolding h'_def by (rule unlink_node_unsplice [OF d])
  show "items_at h' l (xs @ ys)"
    using dlist_unsplice [OF d] by (simp add: items_at_def h'_def)
  show "detached h' (NODE h l i)" unfolding h'_def by (rule unsplice_detached)
  show "keeps_others h h' (area h l (xs @ i # ys))"
    unfolding h'_def using gap_in_area(1) [of l h xs "i # ys"] gap_in_area(2) [of h l ys "xs @ [i]"]
    by (intro keeps_others_unsplice) (simp add: area_def del: last.simps)
  show "ll_offset h' = ll_offset h" by (simp add: h'_def unsplice_def)
qed

section \<open>Sequences of operations\<close>

datatype list_op =
    Append addr | Prepend addr | InsertBefore addr addr | InsertAfter addr addr | Remove addr

definition exec_list_op :: "addr \<Rightarrow> list_op \<Rightarrow> list_heap \<Rightarrow> list_heap res" where
  "exec_list_op l op h =
     (case op of
        Append i \<Rightarrow> gp_list_append h l i
      | Prepend i \<Rightarrow> gp_list_prepend h l i
      | InsertBefore i b \<Rightarrow> gp_list_insert_before h l i b
      | InsertAfter i a \<Rightarrow> gp_list_insert_after h l i a
      | Remove i \<Rightarrow> gp_list_remove h l i)"

fun exec_list_ops :: "addr \<Rightarrow> list_op list \<Rightarrow> list_heap \<Rightarrow> list_heap res" where
  "exec_list_ops l [] h = Inr h"
| "exec_list_ops l (op # ops) h = bindE (exec_list_op l op h) (exec_list_ops l ops)"

text \<open>The same on a sequence of items; \<open>None\<close> when the caller breaks the rules of the interface.\<close>

definition spec_list_op :: "list_op \<Rightarrow> addr list \<Rightarrow> addr list option" where
  "spec_list_op op its =
     (case op of
        Append i \<Rightarrow> if i \<in> set its then None else Some (its @ [i])
      | Prepend i \<Rightarrow> if i \<in> set its then None else Some (i # its)
      | InsertBefore i b \<Rightarrow>
          if i \<in> set its \<or> b \<notin> set its then None
          else Some (takeWhile (\<lambda>x. x \<noteq> b) its @ i # dropWhile (\<lambda>x. x \<noteq> b) its)
      | InsertAfter i a \<Rightarrow>
          if i \<in> set its \<or> a \<notin> set its then None
          else Some (takeWhile (\<lambda>x. x \<noteq> a) its @ a # i # tl (dropWhile (\<lambda>x. x \<noteq> a) its))
      | Remove i \<Rightarrow> if i \<in> set its then Some (remove1 i its) else None)"

fun spec_list_ops :: "list_op list \<Rightarrow> addr list \<Rightarrow> addr list option" where
  "spec_list_ops [] its = Some its"
| "spec_list_ops (op # ops) its = Option.bind (spec_list_op op its) (spec_list_ops ops)"

fun op_item :: "list_op \<Rightarrow> addr" where
  "op_item (Append i) = i"
| "op_item (Prepend i) = i"
| "op_item (InsertBefore i b) = i"
| "op_item (InsertAfter i a) = i"
| "op_item (Remove i) = i"

lemma takeWhile_split: "b \<notin> set xs \<Longrightarrow> takeWhile (\<lambda>x. x \<noteq> b) (xs @ b # ys) = xs"
  by (induction xs) auto

lemma dropWhile_split: "b \<notin> set xs \<Longrightarrow> dropWhile (\<lambda>x. x \<noteq> b) (xs @ b # ys) = b # ys"
  by (induction xs) auto

lemma exec_list_op_refines:
  assumes at: "items_at h l its" and ok: "node_ok h l (op_item op)" and s: "spec_list_op op its = Some its'"
  shows "\<exists>h'. exec_list_op l op h = Inr h' \<and> items_at h' l its' \<and> ll_offset h' = ll_offset h \<and>
    keeps_others h h' (insert (NODE h l (op_item op)) (area h l its))"
proof -
  have ins: ?thesis
    if "its = xs @ ys" "its' = xs @ op_item op # ys" "op_item op \<notin> set its"
      "exec_list_op l op h =
        Inr (splice h (last (l # map (NODE h l) xs)) (NODE h l (op_item op)) (hd (map (NODE h l) ys @ [l])))"
    for xs ys
    using insert_at_gap [of h l xs ys "op_item op"] that at ok by auto
  have d: "dlist h l (map (NODE h l) its)" using at by (simp add: items_at_def)
  show ?thesis
  proof (cases op)
    case (Append i)
    with s have "i \<notin> set its" "its' = its @ [i]" by (auto simp: spec_list_op_def split: if_splits)
    then show ?thesis
      using gp_list_append_splice [OF d, of i] ok Append
      by (intro ins [of its "[]"]) (auto simp: exec_list_op_def node_ok_def)
  next
    case (Prepend i)
    with s have "i \<notin> set its" "its' = i # its" by (auto simp: spec_list_op_def split: if_splits)
    then show ?thesis
      using gp_list_prepend_splice [OF d, of i] ok Prepend
      by (intro ins [of "[]" its]) (auto simp: exec_list_op_def node_ok_def)
  next
    case (InsertBefore i b)
    with s have "i \<notin> set its" "b \<in> set its"
      and its': "its' = takeWhile (\<lambda>x. x \<noteq> b) its @ i # dropWhile (\<lambda>x. x \<noteq> b) its"
      by (auto simp: spec_list_op_def split: if_splits)
    moreover obtain xs ys where its: "its = xs @ b # ys" "b \<notin> set xs"
      using split_list_first [OF \<open>b \<in> set its\<close>] by blast
    moreover have "its' = xs @ i # b # ys" using its its' by (simp add: takeWhile_split dropWhile_split)
    ultimately show ?thesis
      using gp_list_insert_before_splice [of h l "map (NODE h l) xs" "NODE h l b" "map (NODE h l) ys" i b]
        d ok InsertBefore
      by (intro ins [of xs "b # ys"]) (auto simp: exec_list_op_def node_ok_def)
  next
    case (InsertAfter i a)
    with s have "i \<notin> set its" "a \<in> set its"
      and its': "its' = takeWhile (\<lambda>x. x \<noteq> a) its @ a # i # tl (dropWhile (\<lambda>x. x \<noteq> a) its)"
      by (auto simp: spec_list_op_def split: if_splits)
    moreover obtain xs ys where its: "its = xs @ a # ys" "a \<notin> set xs"
      using split_list_first [OF \<open>a \<in> set its\<close>] by blast
    moreover have "its' = (xs @ [a]) @ i # ys" using its its' by (simp add: takeWhile_split dropWhile_split)
    ultimately show ?thesis
      using gp_list_insert_after_splice [of h l "map (NODE h l) xs" "NODE h l a" "map (NODE h l) ys" i a]
        d ok InsertAfter
      by (intro ins [of "xs @ [a]" ys]) (auto simp: exec_list_op_def node_ok_def)
  next
    case (Remove i)
    with s have "i \<in> set its" and its': "its' = remove1 i its" by (auto simp: spec_list_op_def split: if_splits)
    then obtain xs ys where its: "its = xs @ i # ys" "i \<notin> set xs" using split_list_first by metis
    then have "its' = xs @ ys" using its' by (simp add: remove1_append)
    moreover have "insert (NODE h l i) (area h l its) = area h l its" by (auto simp: area_def its)
    ultimately show ?thesis
      using remove_at_gap [of h l xs i ys] at its Remove
      by (auto simp: exec_list_op_def gp_list_remove_def simp del: last.simps)
  qed
qed

lemma spec_list_op_subset:
  assumes "spec_list_op op its = Some its'"
  shows "set its' \<subseteq> insert (op_item op) (set its)"
proof -
  have "set (takeWhile P its) \<subseteq> set its" "set (dropWhile P its) \<subseteq> set its" "set (tl (dropWhile P its)) \<subseteq> set its" for P
    by (metis set_takeWhileD subsetI, metis set_dropWhileD subsetI, metis in_set_tlD set_dropWhileD subsetI)
  with assms set_remove1_subset show ?thesis
    by (cases op) (fastforce simp: spec_list_op_def split: if_splits)+
qed

text \<open>
  C6. Any sequence of list operations that respects the interface (an item is inserted while it is on
  no list, removed and used as a position while it is on this list) runs without touching a NULL
  pointer and does to the items what the same operations do to a sequence; links of nodes outside
  the list and of the items inserted are never changed, so every other list stays intact.
\<close>

theorem list_ops_refine_sequence:
  assumes "items_at h l its" and "spec_list_ops ops its = Some its'"
    and "\<forall>op \<in> set ops. node_ok h l (op_item op)"
  shows "\<exists>h'. exec_list_ops l ops h = Inr h' \<and> items_at h' l its' \<and>
    (\<forall>l2 ns2. dlist h l2 ns2 \<longrightarrow> set (l2 # ns2) \<inter> (area h l its \<union> NODE h l ` op_item ` set ops) = {} \<longrightarrow>
       dlist h' l2 ns2)"
proof -
  have "\<exists>h'. exec_list_ops l ops h = Inr h' \<and> items_at h' l its' \<and>
      keeps_others h h' (area h l its \<union> NODE h l ` op_item ` set ops)"
    using assms
  proof (induction ops arbitrary: h its)
    case (Cons op ops)
    obtain its1 where s: "spec_list_op op its = Some its1" "spec_list_ops ops its1 = Some its'"
      using Cons.prems(2) by (auto simp: Option.bind_eq_Some_conv)
    obtain h1 where h1: "exec_list_op l op h = Inr h1" "items_at h1 l its1" "ll_offset h1 = ll_offset h"
      "keeps_others h h1 (insert (NODE h l (op_item op)) (area h l its))"
      using exec_list_op_refines [OF Cons.prems(1) _ s(1)] Cons.prems(3) by auto
    have N: "NODE h1 l = NODE h l" "node_ok h1 l = node_ok h l"
      using h1(3) by (simp_all add: fun_eq_iff NODE_def node_ok_def)
    obtain h2 where h2: "exec_list_ops l ops h1 = Inr h2" "items_at h2 l its'"
      "keeps_others h1 h2 (area h1 l its1 \<union> NODE h1 l ` op_item ` set ops)"
      using Cons.IH [OF h1(2) s(2)] Cons.prems(3) N by auto
    have "area h1 l its1 \<subseteq> insert (NODE h l (op_item op)) (area h l its)"
      using spec_list_op_subset [OF s(1)] N by (auto simp: area_def)
    then have "keeps_others h h2 (area h l its \<union> NODE h l ` op_item ` set (op # ops))"
      using h1(4) h2(3) N by (intro keeps_others_trans [OF h1(4) h2(3)]) auto
    then show ?case using h1(1) h2(1,2) by auto
  qed (simp add: keeps_others_def)
  then show ?thesis by (metis keeps_others_dlist inf_commute)
qed

definition demo_heap :: list_heap where
  "demo_heap = \<lparr>ln_next = (\<lambda>_. 0)(8 := 8), ln_prev = (\<lambda>_. 0)(8 := 8), ll_offset = (\<lambda>_. 0)(8 := 4)\<rparr>"

lemma demo_heap_empty: "items_at demo_heap 8 []"
  by (simp add: items_at_def dlist_def demo_heap_def)

theorem list_ops_refine_sequence_witness:
  "\<exists>h'. exec_list_ops 8 [Append 100, Prepend 200, InsertAfter 300 200, Remove 100] demo_heap = Inr h' \<and>
    items_at h' 8 [200, 300]"
  using list_ops_refine_sequence [OF demo_heap_empty,
      of "[Append 100, Prepend 200, InsertAfter 300 200, Remove 100]" "[200, 300]"]
  by (auto simp: spec_list_op_def node_ok_def NODE_def demo_heap_def)

section \<open>Reading and traversing\<close>

lemma gp_list_first_ok:
  assumes "items_at h l its"
  shows "gp_list_first h l = Inr (if its = [] then 0 else hd its)"
proof -
  have "ln_next h l = hd (map (NODE h l) its @ [l])" "l \<noteq> 0"
    using assms dlist_gap(1) [of h l "[]" "map (NODE h l) its"] by (auto simp: items_at_def dlist_def)
  moreover have "NODE h l (hd its) \<noteq> l" if "its \<noteq> []"
    using assms that by (cases its) (auto simp: items_at_def dlist_def)
  ultimately show ?thesis by (cases its) (simp_all add: gp_list_first_def heap_access)
qed

lemma gp_list_last_ok:
  assumes "items_at h l its"
  shows "gp_list_last h l = Inr (if its = [] then 0 else last its)"
proof -
  have "ln_prev h l = last (l # map (NODE h l) its)" "l \<noteq> 0"
    using assms dlist_gap(2) [of h l "map (NODE h l) its" "[]"] by (auto simp: items_at_def dlist_def)
  moreover have "NODE h l (last its) \<noteq> l" if "its \<noteq> []"
  proof -
    have "l \<notin> NODE h l ` set its" using assms by (simp add: items_at_def dlist_def)
    then show ?thesis using last_in_set [OF that] by (metis imageI)
  qed
  ultimately show ?thesis by (simp add: gp_list_last_def heap_access last_map)
qed

lemma gp_list_next_ok:
  assumes "items_at h l (xs @ i # ys)" and "i \<noteq> 0"
  shows "gp_list_next h l i = Inr (if ys = [] then 0 else hd ys)"
proof -
  have d: "dlist h l ((map (NODE h l) xs @ [NODE h l i]) @ map (NODE h l) ys)"
    using assms(1) by (simp add: items_at_def)
  have "ln_next h (NODE h l i) = hd (map (NODE h l) ys @ [l])" using dlist_gap(1) [OF d] by simp
  moreover have "hd (map (NODE h l) ys @ [l]) \<noteq> 0" "NODE h l i \<noteq> 0"
    "ys \<noteq> [] \<Longrightarrow> NODE h l (hd ys) \<noteq> l"
    using d by (cases ys; auto simp: dlist_def)+
  ultimately show ?thesis using assms(2) by (cases ys) (simp_all add: gp_list_next_def heap_access)
qed

lemma gp_list_prev_ok:
  assumes "items_at h l (xs @ i # ys)"
  shows "gp_list_prev h l i = Inr (if xs = [] then 0 else last xs)"
proof -
  have d: "dlist h l (map (NODE h l) xs @ NODE h l i # map (NODE h l) ys)"
    using assms(1) by (simp add: items_at_def)
  have "ln_prev h (NODE h l i) = last (l # map (NODE h l) xs)" using dlist_gap(2) [OF d] by simp
  moreover have "NODE h l i \<noteq> 0" using d by (auto simp: dlist_def)
  moreover have "NODE h l (last xs) \<noteq> l" if "xs \<noteq> []"
  proof -
    have "l \<notin> NODE h l ` set xs" using d by (simp add: dlist_def)
    then show ?thesis using last_in_set [OF that] by (metis imageI)
  qed
  ultimately show ?thesis by (simp add: gp_list_prev_def heap_access last_map)
qed

lemma foreach_from_ok:
  assumes "items_at h l (xs @ ys)" and "0 \<notin> set ys" and "length ys \<le> fuel"
  shows "foreach_from fuel h l (if ys = [] then 0 else hd ys) = Some (Inr ys)"
  using assms
proof (induction ys arbitrary: xs fuel)
  case Nil
  then show ?case by (cases fuel) simp_all
next
  case (Cons y ys)
  then obtain f where f: "fuel = Suc f" "length ys \<le> f" by (cases fuel) auto
  have "foreach_from f h l (if ys = [] then 0 else hd ys) = Some (Inr ys)"
    using Cons.prems f by (intro Cons.IH [of "xs @ [y]"]) auto
  then show ?case using Cons.prems gp_list_next_ok [OF Cons.prems(1)] f by simp
qed

text \<open>
  The traversal loop \<open>GP_LIST_FOREACH\<close> ends after as many rounds as the list has items and visits
  each of them exactly once, from the first to the last.
\<close>

lemma list_foreach_visits_all:
  assumes "items_at h l its" and "0 \<notin> set its" and "length its \<le> fuel"
  shows "list_foreach fuel h l = Some (Inr its)"
  using foreach_from_ok [of h l "[]" its fuel] assms
  by (simp add: list_foreach_def gp_list_first_ok)

section \<open>Queues of items\<close>

text \<open>
  The use the sources make of a list: items are appended at one end and taken from the other
  (\<open>while ((it = first)) remove (it)\<close>, as in the task queue, the pending tasks and the timers).
\<close>

locale item_queue =
  fixes rep :: "'s \<Rightarrow> 'i list \<Rightarrow> bool" and ok :: "'s \<Rightarrow> 'i \<Rightarrow> bool"
    and app :: "'s \<Rightarrow> 'i \<Rightarrow> 's res" and first :: "'s \<Rightarrow> 'i option res" and remove :: "'s \<Rightarrow> 'i \<Rightarrow> 's res"
  assumes append_law: "rep s its \<Longrightarrow> ok s i \<Longrightarrow> i \<notin> set its \<Longrightarrow>
      \<exists>s'. app s i = Inr s' \<and> rep s' (its @ [i]) \<and> ok s' = ok s"
    and first_law: "rep s its \<Longrightarrow> first s = Inr (if its = [] then None else Some (hd its))"
    and remove_law: "rep s (i # its) \<Longrightarrow> \<exists>s'. remove s i = Inr s' \<and> rep s' its \<and> ok s' = ok s"

fun append_all :: "('s \<Rightarrow> 'i \<Rightarrow> 's res) \<Rightarrow> 'i list \<Rightarrow> 's \<Rightarrow> 's res" where
  "append_all app [] s = Inr s"
| "append_all app (i # is) s = bindE (app s i) (append_all app is)"

fun drain ::
  "('s \<Rightarrow> 'i option res) \<Rightarrow> ('s \<Rightarrow> 'i \<Rightarrow> 's res) \<Rightarrow> nat \<Rightarrow> 's \<Rightarrow> ('i list \<times> 's) res option" where
  "drain first remove 0 s = None"
| "drain first remove (Suc fuel) s =
     (case first s of
        Inl e \<Rightarrow> Some (Inl e)
      | Inr None \<Rightarrow> Some (Inr ([], s))
      | Inr (Some i) \<Rightarrow>
          (case remove s i of
             Inl e \<Rightarrow> Some (Inl e)
           | Inr s1 \<Rightarrow> map_option (\<lambda>r. bindE r (\<lambda>(is, s2). Inr (i # is, s2))) (drain first remove fuel s1)))"

context item_queue
begin

lemma append_all_ok:
  "rep s its \<Longrightarrow> distinct (its @ is) \<Longrightarrow> (\<forall>i \<in> set is. ok s i) \<Longrightarrow>
   \<exists>s'. append_all app is s = Inr s' \<and> rep s' (its @ is) \<and> ok s' = ok s"
proof (induction "is" arbitrary: s its)
  case (Cons i "is")
  then obtain s1 where s1: "app s i = Inr s1" "rep s1 (its @ [i])" "ok s1 = ok s"
    using append_law [of s its i] by auto
  with Cons.IH [OF s1(2)] Cons.prems show ?case by auto
qed simp

lemma drain_ok:
  "rep s its \<Longrightarrow> length its < fuel \<Longrightarrow> \<exists>s'. drain first remove fuel s = Some (Inr (its, s')) \<and> rep s' []"
proof (induction its arbitrary: s fuel)
  case Nil
  then show ?case using first_law [of s "[]"] by (cases fuel) auto
next
  case (Cons i its)
  then obtain f where f: "fuel = Suc f" "length its < f" by (cases fuel) auto
  obtain s1 where s1: "remove s i = Inr s1" "rep s1 its" using remove_law [OF Cons.prems(1)] by blast
  obtain s2 where "drain first remove f s1 = Some (Inr (its, s2))" "rep s2 []"
    using Cons.IH [OF s1(2) f(2)] by blast
  then show ?case using first_law [OF Cons.prems(1)] s1 f by simp
qed

lemma fifo:
  assumes "rep s []" and "distinct is" and "\<forall>i \<in> set is. ok s i" and "length is < fuel"
  shows "\<exists>s1 s2. append_all app is s = Inr s1 \<and> drain first remove fuel s1 = Some (Inr (is, s2)) \<and> rep s2 []"
  using append_all_ok [OF assms(1), of "is"] drain_ok [of _ "is" fuel] assms(2-4) by auto
end

text \<open>An item pointer, NULL meaning none, as an option.\<close>

definition list_first_item :: "addr \<Rightarrow> list_heap \<Rightarrow> addr option res" where
  "list_first_item l h = bindE (gp_list_first h l) (\<lambda>it. Inr (if it = 0 then None else Some it))"

interpretation glist: item_queue "\<lambda>h its. items_at h l its \<and> 0 \<notin> set its" "\<lambda>h i. node_ok h l i \<and> i \<noteq> 0"
  "\<lambda>h i. gp_list_append h l i" "list_first_item l" "\<lambda>h i. gp_list_remove h l i" for l
proof (unfold_locales, goal_cases)
  case (1 h its i)
  then obtain h' where "exec_list_op l (Append i) h = Inr h'" "items_at h' l (its @ [i])" "ll_offset h' = ll_offset h"
    using exec_list_op_refines [of h l its "Append i" "its @ [i]"] by (auto simp: spec_list_op_def)
  then show ?case using 1 by (auto simp: exec_list_op_def node_ok_def NODE_def)
next
  case (2 h its)
  then show ?case by (cases its) (auto simp: list_first_item_def gp_list_first_ok)
next
  case (3 h i its)
  have "node_ok h l i" using 3 by (auto simp: items_at_def dlist_def node_ok_def)
  then obtain h' where "exec_list_op l (Remove i) h = Inr h'" "items_at h' l its" "ll_offset h' = ll_offset h"
    using exec_list_op_refines [of h l "i # its" "Remove i" its] 3 by (auto simp: spec_list_op_def)
  then show ?case using 3 by (auto simp: exec_list_op_def node_ok_def NODE_def)
qed

text \<open>
  A list used as a queue is first-in-first-out: appending distinct items to an empty list and then
  repeatedly taking the first one, until there is none, gives exactly these items in the order they
  were appended, and the list is empty again.
\<close>

lemma list_queue_fifo:
  assumes "items_at h l []" and "distinct its" and "\<forall>i \<in> set its. node_ok h l i \<and> i \<noteq> 0" and "length its < fuel"
  shows "\<exists>h1 h2. append_all (\<lambda>h i. gp_list_append h l i) its h = Inr h1 \<and>
    drain (list_first_item l) (\<lambda>h i. gp_list_remove h l i) fuel h1 = Some (Inr (its, h2)) \<and> items_at h2 l []"
  using glist.fifo [of h l its fuel] assms by auto

section \<open>Moving and misuse\<close>

text \<open>
  \<open>gp_list_replace\<close> hands all the items of the old list over to the new head, in order, also when
  there are none; the new list takes over the offset.
\<close>

lemma gp_list_replace_moves_items:
  assumes "items_at h old its" and "new \<noteq> 0" and "new \<notin> area h old its"
  shows "\<exists>h'. gp_list_replace h old new = Inr h' \<and> items_at h' new its \<and> ll_offset h' new = ll_offset h old"
proof (cases its)
  case Nil
  have "ln_next h old = old" "ln_prev h old = old" "old \<noteq> 0"
    using assms(1) Nil by (auto simp: items_at_def dlist_def)
  then show ?thesis
    using assms(2,3) Nil by (auto simp: gp_list_replace_def heap_access items_at_def dlist_def area_def)
next
  case (Cons i rest)
  define ns where "ns = map (NODE h old) its"
  have d: "dlist h old ns" using assms(1) by (simp add: items_at_def ns_def)
  have ne: "ns \<noteq> []" using Cons by (simp add: ns_def)
  have nx: "ln_next h old = hd ns" using dlist_gap(1) [of h old "[]" ns] d ne by simp
  have pv: "ln_prev h old = last ns" using dlist_gap(2) [of h old ns "[]"] d ne by simp
  have mem: "hd ns \<in> set ns" "last ns \<in> set ns" using ne by auto
  have new: "new \<notin> set ns" "new \<noteq> old" using assms(3) by (auto simp: area_def ns_def)
  have d0: "0 \<notin> set ns" "old \<noteq> 0" "old \<notin> set ns" using d by (simp_all add: dlist_def)
  have nz: "hd ns \<noteq> 0" "last ns \<noteq> 0" "old \<noteq> 0" "hd ns \<noteq> old" "last ns \<noteq> old" "hd ns \<noteq> new" "last ns \<noteq> new"
    using d0 mem new by metis+
  define h' where "h' = h\<lparr>ln_next := (ln_next h)(new := hd ns, last ns := new),
    ln_prev := (ln_prev h)(hd ns := new, new := last ns), ll_offset := (ll_offset h)(new := ll_offset h old)\<rparr>"
  have run: "gp_list_replace h old new = Inr h'"
    using nx pv nz assms(2) by (simp add: gp_list_replace_def heap_access h'_def)
  obtain y vs where y: "ns = y # vs" using ne by (cases ns) auto
  obtain us z where z: "ns = us @ [z]" using ne by (cases ns rule: rev_cases) auto
  have "links h (ns @ [old])" using d y by (simp add: dlist_def)
  then have "links h ns" using z links_append [of h us z "[old]"] by simp
  moreover have dist: "distinct ns" using d by (simp add: dlist_def)
  have "links h' ns = links h ns"
  proof (rule links_cong)
    fix a
    assume "a \<in> set (butlast ns)"
    then have "a \<noteq> last ns" "a \<noteq> new" using z dist new by auto
    then show "ln_next h' a = ln_next h a" by (simp add: h'_def)
  next
    fix a
    assume "a \<in> set (tl ns)"
    then have "a \<noteq> hd ns" "a \<noteq> new" using y dist new by auto
    then show "ln_prev h' a = ln_prev h a" by (simp add: h'_def)
  qed
  ultimately have "links h' ns" by simp
  moreover have "ln_next h' z = new" "ln_prev h' new = z" using z new by (auto simp: h'_def)
  ultimately have "links h' (ns @ [new])" using z links_append [of h' us z "[new]"] by simp
  moreover have "ln_next h' new = y" "ln_prev h' y = new" using y new nz(7) by (auto simp: h'_def)
  ultimately have "links h' (new # ns @ [new])" using y by simp
  then have "dlist h' new ns" using d new assms(2) by (simp add: dlist_def)
  moreover have "map (NODE h' new) its = ns" by (simp add: ns_def NODE_def h'_def)
  ultimately show ?thesis using run by (intro exI [of _ h']) (simp add: items_at_def h'_def)
qed

text \<open>
  Removing an item that is on no list is an access through NULL in \<open>gp_list_remove\<close>, whereas
  \<open>gp_list_node_remove\<close> checks for it and does nothing.
\<close>

lemma gp_list_remove_detached:
  assumes "detached h (NODE h l item)" and "NODE h l item \<noteq> 0"
  shows "gp_list_remove h l item = Inl NullDeref \<and> gp_list_node_remove h (NODE h l item) = Inr h"
  using assms by (simp add: detached_def gp_list_remove_def unlink_node_def gp_list_node_remove_def heap_access)

end
