(* ===== verification/Gp_Timer.thy ===== *)
theory Gp_Timer
  imports Prelude "HOL-Library.Multiset"
begin

text \<open>
  The hierarchical timing wheel of \<open>base/gp_timer.c\<close>: 256 slots of one millisecond and four levels of 64
  slots each of which covers a whole turn of the level below. Times are 32 bit words that wrap around.
  A slot is the sequence of its timers (the intrusive lists are verified in \<open>Gp_List\<close>), a timer is known
  by its address \<open>t_id\<close>. There is one loop with its wheel: \<open>t_loop\<close> says whether the timer's pointer \<open>loop\<close> is set to it or is
  NULL. Callbacks are recorded in the order they are called; a callback that itself
  changes the wheel is not modelled.
\<close>

section \<open>State\<close>

record gp_timer_list =
  t_id :: nat
  t_loop :: bool
  t_expires :: u32
  t_interval :: u32
  t_repeat :: u32
  t_callback :: bool

record gp_timer_base =
  timer_jiffies :: u32
  next_timer :: u32
  tv1 :: "gp_timer_list list list"
  tv2 :: "gp_timer_list list list"
  tv3 :: "gp_timer_list list list"
  tv4 :: "gp_timer_list list list"
  tv5 :: "gp_timer_list list list"

definition TVN_BITS :: nat where "TVN_BITS = 6"
definition TVR_BITS :: nat where "TVR_BITS = 8"
definition TVN_MASK :: u32 where "TVN_MASK = 63"
definition TVR_MASK :: u32 where "TVR_MASK = 255"
definition MAX_TVAL :: u32 where "MAX_TVAL = 4294967295"

definition tick_index :: "gp_timer_base \<Rightarrow> nat \<Rightarrow> u32" where
  "tick_index b n = drop_bit (TVR_BITS + n * TVN_BITS) (timer_jiffies b) AND TVN_MASK"

definition init_gp_timer :: "nat \<Rightarrow> bool \<Rightarrow> u32 \<Rightarrow> u32 \<Rightarrow> u32 \<Rightarrow> gp_timer_list" where
  "init_gp_timer i fn expires interval repeat =
     \<lparr>t_id = i, t_loop = False, t_expires = expires, t_interval = interval, t_repeat = repeat, t_callback = fn\<rparr>"

definition init_gp_timer_base :: "u32 \<Rightarrow> gp_timer_base" where
  "init_gp_timer_base jiffies =
     \<lparr>timer_jiffies = jiffies, next_timer = MAX_TVAL, tv1 = replicate 256 [], tv2 = replicate 64 [],
      tv3 = replicate 64 [], tv4 = replicate 64 [], tv5 = replicate 64 []\<rparr>"

section \<open>The next expiry\<close>

text \<open>The slots in the order the search visits them, from the current index around the level.\<close>

definition slots_from :: "nat \<Rightarrow> nat \<Rightarrow> nat list" where
  "slots_from n i = [i..<n] @ [0..<i]"

text \<open>
  The search in the first level: \<open>Inl\<close> is an immediate return, \<open>Inr\<close> continues with the other levels
  with what was found so far.
\<close>

fun next_tv1 :: "gp_timer_list list list \<Rightarrow> nat \<Rightarrow> nat list \<Rightarrow> u32 + (bool \<times> u32)" where
  "next_tv1 v index [] = Inr (False, MAX_TVAL)"
| "next_tv1 v index (slot # slots) =
     (case v ! slot of
        [] \<Rightarrow> next_tv1 v index slots
      | t # _ \<Rightarrow> if index = 0 \<or> slot < index then Inr (True, t_expires t) else Inl (t_expires t))"

fun min_expires :: "gp_timer_list list \<Rightarrow> u32 \<Rightarrow> u32" where
  "min_expires [] expires = expires"
| "min_expires (t # ts) expires = min_expires ts (if t_expires t < expires then t_expires t else expires)"

fun next_tvn :: "gp_timer_list list list \<Rightarrow> nat \<Rightarrow> nat list \<Rightarrow> bool \<Rightarrow> u32 \<Rightarrow> u32 + (bool \<times> u32)" where
  "next_tvn v index [] found expires = Inr (found, expires)"
| "next_tvn v index (slot # slots) found expires =
     (let expires' = min_expires (v ! slot) expires; found' = (found \<or> v ! slot \<noteq> []) in
      if found' then if index = 0 \<or> slot < index then Inr (found', expires') else Inl expires'
      else next_tvn v index slots found' expires')"

fun next_levels :: "gp_timer_list list list list \<Rightarrow> u32 \<Rightarrow> bool \<Rightarrow> u32 \<Rightarrow> u32" where
  "next_levels [] j found expires = expires"
| "next_levels (v # vs) j found expires =
     (let index = unat (j AND TVN_MASK) in
      case next_tvn v index (slots_from 64 index) found expires of
        Inl e \<Rightarrow> e
      | Inr (found', expires') \<Rightarrow>
          next_levels vs (drop_bit TVN_BITS (if index = 0 then j else j + of_nat (64 - index))) found' expires')"

definition gp_next_timer :: "gp_timer_base \<Rightarrow> u32" where
  "gp_next_timer b =
     (let j = timer_jiffies b; index = unat (j AND TVR_MASK) in
      case next_tv1 (tv1 b) index (slots_from 256 index) of
        Inl e \<Rightarrow> e
      | Inr (found, expires) \<Rightarrow>
          next_levels [tv2 b, tv3 b, tv4 b, tv5 b]
            (drop_bit TVR_BITS (if index = 0 then j else j + of_nat (256 - index))) found expires)"

section \<open>Adding and removing\<close>

definition slot_append :: "u32 \<Rightarrow> 'a \<Rightarrow> 'a list list \<Rightarrow> 'a list list" where
  "slot_append i t v = v[unat i := v ! unat i @ [t]]"

text \<open>The branch \<open>(int64_t) idx < 0\<close> is kept: the converted value is never negative.\<close>

definition place_timer :: "gp_timer_base \<Rightarrow> gp_timer_list \<Rightarrow> gp_timer_base" where
  "place_timer b t =
     (let expires = t_expires t; idx = expires - timer_jiffies b in
      if idx < 256 then b\<lparr>tv1 := slot_append (expires AND TVR_MASK) t (tv1 b)\<rparr>
      else if idx < 2 ^ 14 then b\<lparr>tv2 := slot_append (drop_bit 8 expires AND TVN_MASK) t (tv2 b)\<rparr>
      else if idx < 2 ^ 20 then b\<lparr>tv3 := slot_append (drop_bit 14 expires AND TVN_MASK) t (tv3 b)\<rparr>
      else if idx < 2 ^ 26 then b\<lparr>tv4 := slot_append (drop_bit 20 expires AND TVN_MASK) t (tv4 b)\<rparr>
      else if uint idx < 0 then b\<lparr>tv1 := slot_append (timer_jiffies b AND TVR_MASK) t (tv1 b)\<rparr>
      else
        let expires = (if idx > MAX_TVAL then MAX_TVAL + timer_jiffies b else expires) in
        b\<lparr>tv5 := slot_append (drop_bit 26 expires AND TVN_MASK) t (tv5 b)\<rparr>)"

definition gp_timer_internal_add :: "gp_timer_base \<Rightarrow> gp_timer_list \<Rightarrow> gp_timer_base" where
  "gp_timer_internal_add b t = (let b1 = place_timer b t in b1\<lparr>next_timer := gp_next_timer b1\<rparr>)"

text \<open>\<open>gp_list_node_remove (&timer->node)\<close>: the timer leaves whichever slot it is in.\<close>

definition remove_id :: "nat \<Rightarrow> gp_timer_list list list \<Rightarrow> gp_timer_list list list" where
  "remove_id i v = map (filter (\<lambda>t. t_id t \<noteq> i)) v"

definition gp_timer_del :: "gp_timer_base \<Rightarrow> gp_timer_list \<Rightarrow> gp_timer_base" where
  "gp_timer_del b t =
     b\<lparr>tv1 := remove_id (t_id t) (tv1 b), tv2 := remove_id (t_id t) (tv2 b), tv3 := remove_id (t_id t) (tv3 b),
       tv4 := remove_id (t_id t) (tv4 b), tv5 := remove_id (t_id t) (tv5 b)\<rparr>"

definition gp_timer_add :: "gp_timer_base \<Rightarrow> gp_timer_list \<Rightarrow> gp_timer_base" where
  "gp_timer_add b t = gp_timer_internal_add (gp_timer_del b t) t"

definition gp_timer_mod ::
  "gp_timer_base \<Rightarrow> gp_timer_list \<Rightarrow> u32 \<Rightarrow> u32 \<Rightarrow> u32 \<Rightarrow> gp_timer_base" where
  "gp_timer_mod b t expires interval repeat =
     gp_timer_add (gp_timer_del b t) (t\<lparr>t_expires := expires, t_interval := interval, t_repeat := repeat\<rparr>)"

section \<open>Running\<close>

text \<open>
  \<open>GP_LIST_FOREACH_SAFE\<close> keeps the current timer and the one that followed it when it became current; the
  next one is looked up in the list as it then is. \<open>after i ts\<close> is the timer that follows \<open>i\<close>.
\<close>

fun after :: "nat \<Rightarrow> gp_timer_list list \<Rightarrow> gp_timer_list option" where
  "after i [] = None"
| "after i [t] = None"
| "after i (t # t' # ts) = (if t_id t = i then Some t' else after i (t' # ts))"

definition list_head :: "'a list \<Rightarrow> 'a option" where
  "list_head xs = (case xs of [] \<Rightarrow> None | x # _ \<Rightarrow> Some x)"

fun foreach_safe ::
  "nat \<Rightarrow> (gp_timer_base \<Rightarrow> gp_timer_list list) \<Rightarrow> ('l \<Rightarrow> gp_timer_base \<Rightarrow> gp_timer_list \<Rightarrow> ('l \<times> gp_timer_base) res) \<Rightarrow>
   gp_timer_list option \<Rightarrow> 'l \<Rightarrow> gp_timer_base \<Rightarrow> ('l \<times> gp_timer_base) run" where
  "foreach_safe fuel get body None l b = Some (Inr (l, b))"
| "foreach_safe 0 get body (Some t) l b = None"
| "foreach_safe (Suc fuel) get body (Some t) l b =
     (let nxt = after (t_id t) (get b) in
      bindR (Some (body l b t)) (\<lambda>(l1, b1). foreach_safe fuel get body nxt l1 b1))"

text \<open>The wheel that a timer moves to is that of the timer's loop: \<open>timer->loop->timer_base\<close>.\<close>

definition cascade_timer :: "unit \<Rightarrow> gp_timer_base \<Rightarrow> gp_timer_list \<Rightarrow> (unit \<times> gp_timer_base) res" where
  "cascade_timer u b t = (if t_loop t then Inr ((), gp_timer_internal_add (gp_timer_del b t) t) else Inl NullDeref)"

definition cascade ::
  "nat \<Rightarrow> (gp_timer_base \<Rightarrow> gp_timer_list list list) \<Rightarrow> u32 \<Rightarrow> gp_timer_base \<Rightarrow> gp_timer_base run" where
  "cascade fuel tv index b =
     (let get = (\<lambda>b. tv b ! unat index) in
      bindR (foreach_safe fuel get cascade_timer (list_head (get b)) () b) (\<lambda>(u, b1). Some (Inr b1)))"

definition cascades :: "nat \<Rightarrow> gp_timer_base \<Rightarrow> gp_timer_base run" where
  "cascades fuel b =
     (if timer_jiffies b AND TVR_MASK = 0 then
        let i = tick_index b 0 in
        bindR (cascade fuel tv2 i b) (\<lambda>b.
        if i \<noteq> 0 then Some (Inr b) else
        let i = tick_index b 1 in
        bindR (cascade fuel tv3 i b) (\<lambda>b.
        if i \<noteq> 0 then Some (Inr b) else
        let i = tick_index b 2 in
        bindR (cascade fuel tv4 i b) (\<lambda>b.
        if i \<noteq> 0 then Some (Inr b) else
        let i = tick_index b 3 in
        cascade fuel tv5 i b)))
      else Some (Inr b))"

text \<open>What happens to a timer that is due: its callback, its removal, and its return if it repeats.\<close>

definition fire_timer ::
  "(u32 \<times> nat) list \<Rightarrow> gp_timer_base \<Rightarrow> gp_timer_list \<Rightarrow> (u32 \<times> nat) list \<times> gp_timer_base" where
  "fire_timer log b t =
     (let log1 = (if t_callback t then log @ [(timer_jiffies b - 1, t_id t)] else log);
          b1 = gp_timer_del b t;
          b2 = (if t_repeat t = 1
                then gp_timer_add b1 (t\<lparr>t_expires := t_expires t + t_interval t\<rparr>) else b1)
      in (log1, b2\<lparr>next_timer := gp_next_timer b2\<rparr>))"

definition timer_tick ::
  "nat \<Rightarrow> (u32 \<times> nat) list \<Rightarrow> gp_timer_base \<Rightarrow> ((u32 \<times> nat) list \<times> gp_timer_base) run" where
  "timer_tick fuel log b =
     (let index = unat (timer_jiffies b AND TVR_MASK) in
      bindR (cascades fuel b) (\<lambda>b1.
        let b2 = b1\<lparr>timer_jiffies := timer_jiffies b1 + 1\<rparr> in
        foreach_safe fuel (\<lambda>b. tv1 b ! index) (\<lambda>log b t. Inr (fire_timer log b t)) (list_head (tv1 b2 ! index)) log b2))"

text \<open>
  The main loop. \<open>(int32_t) jiffies - (int32_t) timer_jiffies\<close> is a signed subtraction. The fuel bounds both
  the number of ticks and the number of timers handled in one slot.
\<close>

fun run_ticks ::
  "nat \<Rightarrow> nat \<Rightarrow> u32 \<Rightarrow> (u32 \<times> nat) list \<Rightarrow> gp_timer_base \<Rightarrow> ((u32 \<times> nat) list \<times> gp_timer_base) res option" where
  "run_ticks 0 fuel jiffies log b = None"
| "run_ticks (Suc n) fuel jiffies log b =
     (case c_sub32 jiffies (timer_jiffies b) of
        Inl e \<Rightarrow> Some (Inl e)
      | Inr d \<Rightarrow>
          if sint d \<ge> 0 then
            bindR (timer_tick fuel log b) (\<lambda>(log1, b1). run_ticks n fuel jiffies log1 b1)
          else Some (Inr (log, b)))"

definition gp_run_timers ::
  "nat \<Rightarrow> nat \<Rightarrow> gp_timer_base \<Rightarrow> u32 \<Rightarrow> ((u32 \<times> nat) list \<times> gp_timer_base) res option" where
  "gp_run_timers n fuel b jiffies = run_ticks n fuel jiffies [] b"

text \<open>The timers of a loop (\<open>base/gp_loop.c\<close>): the loop's time and its wheel. Starting a timer sets its loop.\<close>

record timer_loop =
  loop_time :: u32
  timer_base :: gp_timer_base

definition gp_loop_timer_start :: "nat \<Rightarrow> bool \<Rightarrow> u32 \<Rightarrow> u32 \<Rightarrow> timer_loop \<Rightarrow> timer_loop" where
  "gp_loop_timer_start i fn interval repeat loop =
     (let timer = init_gp_timer i fn (loop_time loop + interval) interval repeat
      in loop\<lparr>timer_base := gp_timer_add (timer_base loop) (timer\<lparr>t_loop := True\<rparr>)\<rparr>)"

definition gp_loop_timer_stop :: "gp_timer_list \<Rightarrow> timer_loop \<Rightarrow> timer_loop" where
  "gp_loop_timer_stop timer loop = loop\<lparr>timer_base := gp_timer_del (timer_base loop) timer\<rparr>"

definition gp_loop_timer_mod :: "gp_timer_list \<Rightarrow> u32 \<Rightarrow> u32 \<Rightarrow> u32 \<Rightarrow> timer_loop \<Rightarrow> timer_loop" where
  "gp_loop_timer_mod timer expires interval repeat loop =
     loop\<lparr>timer_base := gp_timer_mod (timer_base loop) timer expires interval repeat\<rparr>"

definition gp_loop_run_timers :: "nat \<Rightarrow> nat \<Rightarrow> timer_loop \<Rightarrow> ((u32 \<times> nat) list \<times> timer_loop) run" where
  "gp_loop_run_timers n fuel loop =
     bindR (gp_run_timers n fuel (timer_base loop) (loop_time loop)) (\<lambda>(log, b). Some (Inr (log, loop\<lparr>timer_base := b\<rparr>)))"

text \<open>\<open>destruct_gp_timer_base\<close> frees every timer that is still in a slot.\<close>

definition destruct_gp_timer_base :: "gp_timer_base \<Rightarrow> nat list" where
  "destruct_gp_timer_base b =
     map t_id (concat (tv1 b) @ concat (tv2 b) @ concat (tv3 b) @ concat (tv4 b) @ concat (tv5 b))"

section \<open>Arithmetic of the wheel\<close>

lemma and_mask_mod: "unat ((w :: u32) AND 2 ^ k - 1) = unat w mod 2 ^ k" if "k < 32"
proof -
  have "(2 :: u32) ^ k - 1 = mask k" by (simp add: mask_eq_exp_minus_1)
  then show ?thesis
    by (simp only: take_bit_eq_mask [symmetric] unsigned_take_bit_eq take_bit_eq_mod [of k "unat w"])
qed

lemma slot_index_tvr: "unat (E AND TVR_MASK) = unat E mod 256"
  using and_mask_mod [of 8 E] by (simp add: TVR_MASK_def)

lemma slot_index_tvn: "unat (drop_bit s E AND TVN_MASK) = unat E div 2 ^ s mod 64"
proof -
  have "unat (drop_bit s E) = unat E div 2 ^ s" by (simp only: unat_drop_bit_eq drop_bit_eq_div [of s "unat E"])
  then show ?thesis using and_mask_mod [of 6 "drop_bit s E"] by (simp only: TVN_MASK_def) simp
qed

lemma unat_plus_mod:
  assumes "2 ^ k dvd (4294967296 :: nat)"
  shows "unat (a + b :: u32) mod 2 ^ k = (unat a + unat b) mod 2 ^ k"
  using mod_mod_cancel [OF assms, of "unat a + unat b"] by (simp add: unat_word_ariths)

lemma pow_dvd: "k \<le> 32 \<Longrightarrow> (2::nat) ^ k dvd 4294967296"
  using le_imp_power_dvd [of k 32 "2::nat"] by simp

lemma expires_split: "unat E mod 2 ^ k = (unat J + unat (E - J)) mod 2 ^ k" if "k \<le> 32" for E J :: u32
  using unat_plus_mod [OF pow_dvd [OF that], of J "E - J"] by simp

text \<open>
  A timer waiting in a level of granularity \<open>2 ^ s\<close>: its block of \<open>2 ^ s\<close> ticks has not begun before
  the current time and lies within one turn of the level.
\<close>

definition placed :: "nat \<Rightarrow> u32 \<Rightarrow> u32 \<Rightarrow> bool" where
  "placed s E J \<longleftrightarrow> unat E mod 2 ^ s \<le> unat (E - J) \<and> unat (E - J) < 2 ^ (s + 6)"

definition ahead :: "nat \<Rightarrow> u32 \<Rightarrow> u32 \<Rightarrow> bool" where
  "ahead s E J \<longleftrightarrow> unat E mod 2 ^ s < unat (E - J) \<and> unat (E - J) < 2 ^ (s + 6)"

lemma unat_minus_succ:
  fixes E J :: u32
  assumes "E \<noteq> J"
  shows "unat (E - (J + 1)) = unat (E - J) - 1"
proof -
  have "E - J \<noteq> 0" using assms by simp
  then have "0 < unat (E - J)" by (metis neq0_conv unat_eq_zero)
  then have "unat ((E - J) - 1) = unat (E - J) - 1" by (subst unat_diff_le) simp_all
  then show ?thesis by (simp add: algebra_simps)
qed

lemma ahead_next: "ahead s E J \<Longrightarrow> placed s E (J + 1)"
proof -
  assume a: "ahead s E J"
  then have "E \<noteq> J" by (auto simp: ahead_def)
  with a show ?thesis by (auto simp: ahead_def placed_def unat_minus_succ)
qed

text \<open>When the block of a level begins, exactly the slot that is cascaded is due.\<close>

lemma block_start:
  assumes "placed s E J" and "unat J mod 2 ^ s = 0" and "s \<le> 26"
  shows "unat E div 2 ^ s mod 64 = unat J div 2 ^ s mod 64 \<longleftrightarrow> unat (E - J) < 2 ^ s"
    and "\<not> unat (E - J) < 2 ^ s \<Longrightarrow> ahead s E J"
proof -
  let ?D = "unat (E - J)" and ?p = "(2::nat) ^ s"
  have e: "unat E mod 2 ^ (s + 6) = (unat J + ?D) mod 2 ^ (s + 6)" using assms(3) by (intro expires_split) simp
  have "unat E div ?p mod 64 = unat E mod 2 ^ (s + 6) div ?p"
    by (simp add: power_add mod_mult2_eq mult.commute)
  also have "\<dots> = (unat J + ?D) div ?p mod 64"
    unfolding e by (simp add: power_add mod_mult2_eq mult.commute)
  also have "(unat J + ?D) div ?p = unat J div ?p + ?D div ?p"
    using assms(2) by (simp add: div_add1_eq)
  finally have slot: "unat E div ?p mod 64 = (unat J div ?p + ?D div ?p) mod 64" .
  have q: "?D div ?p < 64" using assms(1) by (simp add: placed_def power_add less_mult_imp_div_less mult.commute)
  show "unat E div 2 ^ s mod 64 = unat J div 2 ^ s mod 64 \<longleftrightarrow> ?D < 2 ^ s"
  proof
    assume "unat E div 2 ^ s mod 64 = unat J div 2 ^ s mod 64"
    then have "(unat J div ?p + ?D div ?p) mod 64 = unat J div ?p mod 64" using slot by simp
    then have "64 dvd unat J div ?p + ?D div ?p - unat J div ?p" by (simp only: mod_eq_dvd_iff_nat le_add1)
    then have "?D div ?p mod 64 = 0" by simp
    then have "?D div ?p = 0" using q by simp
    then show "?D < 2 ^ s" by (simp add: div_eq_0_iff)
  next
    assume "?D < 2 ^ s"
    then show "unat E div 2 ^ s mod 64 = unat J div 2 ^ s mod 64" using slot by simp
  qed
  have m: "unat E mod ?p < ?p" by simp
  show "ahead s E J" if "\<not> ?D < 2 ^ s"
    using that assms(1) m unfolding ahead_def placed_def by linarith
qed

lemma no_block_start:
  assumes "placed s E J" and "unat J mod 2 ^ s \<noteq> 0" and "s \<le> 26"
  shows "ahead s E J"
proof -
  let ?D = "unat (E - J)" and ?p = "(2::nat) ^ s"
  have e: "unat E mod ?p = (unat J + ?D) mod ?p" using assms(3) by (intro expires_split) simp
  have "?D \<noteq> unat E mod ?p"
  proof
    assume "?D = unat E mod ?p"
    moreover have "unat E mod ?p < ?p" by simp
    ultimately have "?D = (unat J + ?D) mod ?p" and "?D < ?p" using e by linarith+
    then have "(unat J + ?D) mod ?p = (0 + ?D) mod ?p" by simp
    then have "?p dvd unat J + ?D - (0 + ?D)" by (simp add: mod_eq_dvd_iff_nat)
    then have "unat J mod ?p = 0" by simp
    with assms(2) show False by simp
  qed
  with assms(1) show ?thesis by (auto simp: ahead_def placed_def)
qed

lemma due_in_tv1:
  fixes E J :: u32
  assumes "unat (E - J) < 256"
  shows "unat E mod 256 = unat J mod 256 \<longleftrightarrow> E = J"
proof
  have e: "unat E mod 256 = (unat J + unat (E - J)) mod 256" using expires_split [of 8 E J] by simp
  assume "unat E mod 256 = unat J mod 256"
  then have "(unat J + unat (E - J)) mod 256 = unat J mod 256" using e by simp
  then have "256 dvd unat J + unat (E - J) - unat J" by (simp only: mod_eq_dvd_iff_nat le_add1)
  then have "unat (E - J) mod 256 = 0" by simp
  then have "unat (E - J) = 0" using assms by simp
  then show "E = J" by (metis eq_iff_diff_eq_0 unat_eq_zero)
qed simp

section \<open>The invariant of the wheel\<close>

definition level :: "gp_timer_base \<Rightarrow> nat \<Rightarrow> gp_timer_list list list" where
  "level b k = (if k = 0 then tv2 b else if k = 1 then tv3 b else if k = 2 then tv4 b else tv5 b)"

definition upd_level ::
  "nat \<Rightarrow> (gp_timer_list list list \<Rightarrow> gp_timer_list list list) \<Rightarrow> gp_timer_base \<Rightarrow> gp_timer_base" where
  "upd_level k f b =
     (if k = 0 then b\<lparr>tv2 := f (tv2 b)\<rparr> else if k = 1 then b\<lparr>tv3 := f (tv3 b)\<rparr>
      else if k = 2 then b\<lparr>tv4 := f (tv4 b)\<rparr> else b\<lparr>tv5 := f (tv5 b)\<rparr>)"

definition timers :: "gp_timer_base \<Rightarrow> gp_timer_list list" where
  "timers b = concat (tv1 b) @ concat (level b 0) @ concat (level b 1) @ concat (level b 2) @ concat (level b 3)"

abbreviation shift :: "nat \<Rightarrow> nat" where
  "shift k \<equiv> 8 + 6 * k"

text \<open>
  Each timer is in the slot its expiry selects; those of the first level are due within 256 ticks.
  For the levels in \<open>A\<close> no block begins at the current time any more.
\<close>

definition root_ok :: "u32 \<Rightarrow> gp_timer_list list list \<Rightarrow> bool" where
  "root_ok J v \<longleftrightarrow> length v = 256 \<and>
     (\<forall>i < 256. \<forall>t \<in> set (v ! i). unat (t_expires t) mod 256 = i \<and> unat (t_expires t - J) < 256)"

definition level_ok :: "bool \<Rightarrow> nat \<Rightarrow> u32 \<Rightarrow> gp_timer_list list list \<Rightarrow> bool" where
  "level_ok strict s J v \<longleftrightarrow> length v = 64 \<and>
     (\<forall>i < 64. \<forall>t \<in> set (v ! i). unat (t_expires t) div 2 ^ s mod 64 = i \<and>
        (if strict then ahead s (t_expires t) J else placed s (t_expires t) J))"

definition wheel_inv :: "nat set \<Rightarrow> gp_timer_base \<Rightarrow> bool" where
  "wheel_inv A b \<longleftrightarrow> root_ok (timer_jiffies b) (tv1 b) \<and>
     (\<forall>k < 4. level_ok (k \<in> A) (shift k) (timer_jiffies b) (level b k)) \<and> distinct (map t_id (timers b))"

lemma less4_cases: "k < (4::nat) \<Longrightarrow> k = 0 \<or> k = 1 \<or> k = 2 \<or> k = 3"
  by auto

lemma level_upd_level [simp]:
  assumes "k < 4" and "j < 4"
  shows "level (upd_level k f b) j = (if j = k then f (level b j) else level b j)"
  using less4_cases [OF assms(1)] less4_cases [OF assms(2)] by (auto simp: level_def upd_level_def)

lemma upd_level_simps [simp]:
  "timer_jiffies (upd_level k f b) = timer_jiffies b" "tv1 (upd_level k f b) = tv1 b"
  by (simp_all add: upd_level_def)

lemma level_simps [simp]:
  "level (b\<lparr>tv1 := v\<rparr>) k = level b k" "level (b\<lparr>next_timer := n\<rparr>) k = level b k"
  "level (b\<lparr>timer_jiffies := j\<rparr>) k = level b k"
  by (simp_all add: level_def)

lemma timers_simps [simp]: "timers (b\<lparr>next_timer := n\<rparr>) = timers b" "timers (b\<lparr>timer_jiffies := j\<rparr>) = timers b"
  by (simp_all add: timers_def)

lemma ahead_placed: "ahead s E J \<Longrightarrow> placed s E J"
  by (simp add: ahead_def placed_def)

lemma wheel_inv_next_timer [simp]: "wheel_inv A (b\<lparr>next_timer := n\<rparr>) = wheel_inv A b"
  by (simp add: wheel_inv_def)

text \<open>Where a timer goes: the level is the one whose range contains the distance to its expiry.\<close>

lemma place_timer_cases:
  obtains (root) "unat (t_expires t - timer_jiffies b) < 256"
      "place_timer b t = b\<lparr>tv1 := slot_append (t_expires t AND TVR_MASK) t (tv1 b)\<rparr>"
    | (level) k where "k < 4" "2 ^ shift k \<le> unat (t_expires t - timer_jiffies b)"
      "unat (t_expires t - timer_jiffies b) < 2 ^ (shift k + 6)"
      "place_timer b t = upd_level k (slot_append (drop_bit (shift k) (t_expires t) AND TVN_MASK) t) b"
proof -
  define idx where "idx = t_expires t - timer_jiffies b"
  define D where "D = unat idx"
  have lt: "idx < 256 \<longleftrightarrow> D < 256" "idx < 2 ^ 14 \<longleftrightarrow> D < 2 ^ 14" "idx < 2 ^ 20 \<longleftrightarrow> D < 2 ^ 20"
    "idx < 2 ^ 26 \<longleftrightarrow> D < 2 ^ 26" "D < 2 ^ 32"
    using unat_lt32 [of idx] by (simp_all add: word_less_nat_alt D_def)
  have never: "\<not> uint idx < 0" "\<not> idx > MAX_TVAL"
    using unat_lt32 [of idx] by (simp_all add: word_less_nat_alt MAX_TVAL_def)
  consider "D < 256" | "256 \<le> D" "D < 2 ^ 14" | "2 ^ 14 \<le> D" "D < 2 ^ 20" | "2 ^ 20 \<le> D" "D < 2 ^ 26" | "2 ^ 26 \<le> D"
    by linarith
  then show ?thesis
  proof cases
    case 1
    then show ?thesis using lt by (intro root) (simp_all add: place_timer_def Let_def idx_def [symmetric] D_def)
  next
    case 2
    then show ?thesis using lt
      by (intro level [of 0]) (simp_all add: place_timer_def Let_def idx_def [symmetric] D_def [symmetric] upd_level_def)
  next
    case 3
    then show ?thesis using lt
      by (intro level [of 1]) (simp_all add: place_timer_def Let_def idx_def [symmetric] D_def [symmetric] upd_level_def)
  next
    case 4
    then show ?thesis using lt
      by (intro level [of 2]) (simp_all add: place_timer_def Let_def idx_def [symmetric] D_def [symmetric] upd_level_def)
  next
    case 5
    then show ?thesis using lt never
      by (intro level [of 3]) (simp_all add: place_timer_def Let_def idx_def [symmetric] D_def [symmetric] upd_level_def)
  qed
qed

lemma mset_concat_append:
  assumes "i < length v"
  shows "mset (concat (v[i := v ! i @ [t]])) = add_mset t (mset (concat v))"
proof -
  have "concat v = concat (take i v) @ v ! i @ concat (drop (Suc i) v)"
    by (metis assms concat.simps(2) concat_append id_take_nth_drop)
  then show ?thesis using assms by (simp add: upd_conv_take_nth_drop)
qed

lemma slot_append_ok:
  assumes "unat i < length v"
  shows "length (slot_append i t v) = length v" "mset (concat (slot_append i t v)) = add_mset t (mset (concat v))"
    "slot_append i t v ! j = (if j = unat i then v ! j @ [t] else v ! j)"
  using assms by (simp_all add: slot_append_def mset_concat_append)

lemma slot_append_all:
  assumes "\<forall>j < n. \<forall>x \<in> set (v ! j). Q j x" and "length v = n" and "unat i < n" and "Q (unat i) t"
  shows "\<forall>j < n. \<forall>x \<in> set (slot_append i t v ! j). Q j x"
  using assms by (auto simp: slot_append_def nth_list_update)

lemma place_timer_ok:
  assumes inv: "wheel_inv A b" and new: "t_id t \<notin> t_id ` set (timers b)"
  shows "wheel_inv A (place_timer b t)" and "mset (timers (place_timer b t)) = add_mset t (mset (timers b))"
    and "timer_jiffies (place_timer b t) = timer_jiffies b"
proof -
  let ?b = "place_timer b t" and ?E = "t_expires t" and ?J = "timer_jiffies b"
  have root: "root_ok ?J (tv1 b)" and lev: "\<And>k. k < 4 \<Longrightarrow> level_ok (k \<in> A) (shift k) ?J (level b k)"
    using inv by (simp_all add: wheel_inv_def)
  have "root_ok ?J (tv1 ?b) \<and> (\<forall>k < 4. level_ok (k \<in> A) (shift k) ?J (level ?b k)) \<and>
      mset (timers ?b) = add_mset t (mset (timers b)) \<and> timer_jiffies ?b = ?J"
  proof (cases rule: place_timer_cases [of t b])
    case root': root
    have i: "unat (?E AND TVR_MASK) = unat ?E mod 256" by (rule slot_index_tvr)
    then have "unat (?E AND TVR_MASK) < length (tv1 b)" using root by (simp add: root_ok_def)
    note s = slot_append_ok [OF this, of t]
    have "root_ok ?J (slot_append (?E AND TVR_MASK) t (tv1 b))"
      unfolding root_ok_def using root root'(1) s(1) i
      by (intro conjI slot_append_all) (simp_all add: root_ok_def)
    then show ?thesis using root'(2) lev s by (simp add: timers_def)
  next
    case (level k)
    have i: "unat (drop_bit (shift k) ?E AND TVN_MASK) = unat ?E div 2 ^ shift k mod 64" by (rule slot_index_tvn)
    then have "unat (drop_bit (shift k) ?E AND TVN_MASK) < length (level b k)"
      using lev [OF level(1)] by (simp add: level_ok_def)
    note s = slot_append_ok [OF this, of t]
    have "unat ?E mod 2 ^ shift k < 2 ^ shift k" by simp
    then have "ahead (shift k) ?E ?J" using level(2,3) unfolding ahead_def by linarith
    then have "level_ok (k \<in> A) (shift k) ?J (slot_append (drop_bit (shift k) ?E AND TVN_MASK) t (level b k))"
      unfolding level_ok_def using lev [OF level(1)] s(1) i ahead_placed [of "shift k" ?E ?J]
      by (intro conjI slot_append_all) (simp_all add: level_ok_def)
    then have "\<forall>j < 4. level_ok (j \<in> A) (shift j) ?J (level ?b j)"
      using level(1,4) lev by auto
    moreover have "mset (timers ?b) = add_mset t (mset (timers b))"
      using less4_cases [OF level(1)] level(4) s(2) by (auto simp: timers_def)
    ultimately show ?thesis using level(4) root by simp
  qed
  moreover then have "mset (map t_id (timers ?b)) = mset (map t_id (t # timers b))" by simp
  then have "distinct (map t_id (timers ?b)) \<longleftrightarrow> distinct (map t_id (t # timers b))"
    by (rule mset_eq_imp_distinct_iff)
  ultimately show "wheel_inv A (place_timer b t)" "mset (timers ?b) = add_mset t (mset (timers b))"
    "timer_jiffies ?b = ?J"
    using inv new by (simp_all add: wheel_inv_def)
qed

section \<open>Removal\<close>

lemma timers_del: "timers (gp_timer_del b t) = filter (\<lambda>x. t_id x \<noteq> t_id t) (timers b)"
  by (simp add: timers_def gp_timer_del_def level_def remove_id_def filter_concat)

lemma del_simps [simp]:
  "timer_jiffies (gp_timer_del b t) = timer_jiffies b"
  "tv1 (gp_timer_del b t) = remove_id (t_id t) (tv1 b)"
  "level (gp_timer_del b t) k = remove_id (t_id t) (level b k)"
  by (simp_all add: gp_timer_del_def level_def)

lemma remove_id_nth: "i < length v \<Longrightarrow> remove_id n v ! i = filter (\<lambda>x. t_id x \<noteq> n) (v ! i)"
  by (simp add: remove_id_def)

lemma length_remove_id [simp]: "length (remove_id n v) = length v"
  by (simp add: remove_id_def)

lemma wheel_inv_del:
  assumes "wheel_inv A b"
  shows "wheel_inv A (gp_timer_del b t)"
  using assms by (auto simp: wheel_inv_def root_ok_def level_ok_def remove_id_nth timers_del distinct_map_filter)

lemma filter_id_mset:
  assumes "distinct (map t_id ts)" and "t \<in> set ts"
  shows "mset ts = add_mset t (mset (filter (\<lambda>x. t_id x \<noteq> t_id t) ts))"
  using assms
proof (induction ts)
  case (Cons x ts)
  show ?case
  proof (cases "x = t")
    case True
    then have "filter (\<lambda>x. t_id x \<noteq> t_id t) ts = ts" using Cons.prems(1) by (auto simp: filter_id_conv image_iff)
    with True show ?thesis by simp
  next
    case False
    then have "t \<in> set ts" "t_id x \<noteq> t_id t" using Cons.prems by auto
    with Cons show ?thesis by simp
  qed
qed simp

text \<open>Taking a timer out and putting it, possibly with another expiry, where it now belongs.\<close>

lemma replace_timer_ok:
  assumes inv: "wheel_inv A b" and t: "t \<in> set (timers b)" and id: "t_id t' = t_id t"
  shows "wheel_inv A (place_timer (gp_timer_del b t) t')"
    and "mset (timers (place_timer (gp_timer_del b t) t')) = add_mset t' (mset (timers b) - {#t#})"
    and "timer_jiffies (place_timer (gp_timer_del b t) t') = timer_jiffies b"
proof -
  have dist: "distinct (map t_id (timers b))" using inv by (simp add: wheel_inv_def)
  have "t_id t' \<notin> t_id ` set (timers (gp_timer_del b t))" using id by (auto simp: timers_del)
  note p = place_timer_ok [OF wheel_inv_del [OF inv] this]
  show "wheel_inv A (place_timer (gp_timer_del b t) t')" by (rule p(1))
  have "mset (timers (gp_timer_del b t)) = mset (timers b) - {#t#}"
    unfolding timers_del using filter_id_mset [OF dist t] by (metis add_mset_remove_trivial)
  then show "mset (timers (place_timer (gp_timer_del b t) t')) = add_mset t' (mset (timers b) - {#t#})"
    using p(2) by simp
  show "timer_jiffies (place_timer (gp_timer_del b t) t') = timer_jiffies b" using p(3) by simp
qed

section \<open>Cascading\<close>

lemma level_subset: "k < 4 \<Longrightarrow> i < length (level b k) \<Longrightarrow> set (level b k ! i) \<subseteq> set (timers b)"
  using less4_cases [of k] by (auto simp: timers_def)

lemma root_subset: "i < length (tv1 b) \<Longrightarrow> set (tv1 b ! i) \<subseteq> set (timers b)"
  by (auto simp: timers_def)

lemma distinct_slot:
  assumes "distinct (map t_id (concat v))" and "i < length v"
  shows "distinct (map t_id (v ! i))"
proof -
  have "concat v = concat (take i v) @ v ! i @ concat (drop (Suc i) v)"
    by (metis assms(2) concat.simps(2) concat_append id_take_nth_drop)
  with assms(1) show ?thesis by simp
qed

lemma wheel_inv_distinct_slot:
  assumes "wheel_inv A b"
  shows "k < 4 \<Longrightarrow> i < 64 \<Longrightarrow> distinct (map t_id (level b k ! i))" and "i < 256 \<Longrightarrow> distinct (map t_id (tv1 b ! i))"
proof -
  have d: "distinct (map t_id (timers b))" using assms by (simp add: wheel_inv_def)
  show "distinct (map t_id (level b k ! i))" if "k < 4" "i < 64"
    using d that assms less4_cases [OF that(1)]
    by (intro distinct_slot) (auto simp: timers_def wheel_inv_def level_ok_def)
  show "distinct (map t_id (tv1 b ! i))" if "i < 256"
    using d that assms by (intro distinct_slot) (auto simp: timers_def wheel_inv_def root_ok_def)
qed

lemma after_head: "distinct (map t_id (t # ts)) \<Longrightarrow> after (t_id t) (t # ts) = list_head ts"
  by (cases ts) (simp_all add: list_head_def)

lemma filter_tail:
  "distinct (map t_id (t # ts)) \<Longrightarrow> filter (\<lambda>x. t_id x \<noteq> t_id t) (t # ts) = ts"
  by (auto simp: filter_id_conv image_iff)

lemma move_down:
  assumes inv: "wheel_inv A b" and k: "k < 4" and i: "i < 64" and slot: "level b k ! i = t # ts"
    and near: "unat (t_expires t - timer_jiffies b) < 2 ^ shift k"
  defines "b' \<equiv> gp_timer_internal_add (gp_timer_del b t) t"
  shows "wheel_inv A b'" and "mset (timers b') = mset (timers b)" and "timer_jiffies b' = timer_jiffies b"
    and "level b' k ! i = ts"
proof -
  have len: "i < length (level b k)" using inv k i by (simp add: wheel_inv_def level_ok_def)
  have t: "t \<in> set (timers b)" using level_subset [OF k len] slot by auto
  note r = replace_timer_ok [OF inv t refl]
  show "wheel_inv A b'" "timer_jiffies b' = timer_jiffies b"
    using r by (simp_all add: b'_def gp_timer_internal_add_def Let_def)
  show "mset (timers b') = mset (timers b)"
    using r(2) t by (simp add: b'_def gp_timer_internal_add_def Let_def)
  have del: "level (gp_timer_del b t) k ! i = ts"
    using filter_tail [of t ts] wheel_inv_distinct_slot(1) [OF inv k i] slot len by (simp add: remove_id_nth)
  have "level (place_timer (gp_timer_del b t) t) k = level (gp_timer_del b t) k"
  proof (cases rule: place_timer_cases [of t "gp_timer_del b t"])
    case (level j)
    have "(2::nat) ^ shift j < 2 ^ shift k" using level(2) near unfolding del_simps by linarith
    then have "j \<noteq> k" by auto
    then show ?thesis using level(1,4) k by simp
  qed simp
  then show "level b' k ! i = ts" using del by (simp add: b'_def gp_timer_internal_add_def Let_def)
qed

lemma level_okD:
  assumes "level_ok strict s J v" and "i < 64" and "t \<in> set (v ! i)"
  shows "placed s (t_expires t) J" and "unat (t_expires t) div 2 ^ s mod 64 = i"
  using assms ahead_placed [of s "t_expires t" J] by (auto simp: level_ok_def split: if_splits)

lemma length_slot: "i < length v \<Longrightarrow> length (v ! i) \<le> length (concat v)"
proof -
  assume "i < length v"
  then have "concat v = concat (take i v) @ v ! i @ concat (drop (Suc i) v)"
    by (metis concat.simps(2) concat_append id_take_nth_drop)
  then show ?thesis by simp
qed

lemma length_slot_timers:
  "k < 4 \<Longrightarrow> i < length (level b k) \<Longrightarrow> length (level b k ! i) \<le> length (timers b)"
  "i < length (tv1 b) \<Longrightarrow> length (tv1 b ! i) \<le> length (timers b)"
  using length_slot [of i "level b k"] length_slot [of i "tv1 b"] less4_cases [of k] by (auto simp: timers_def)

text \<open>Every timer of the wheel has its loop; a matter of the timers alone.\<close>

definition loops_set :: "gp_timer_base \<Rightarrow> bool" where
  "loops_set b \<longleftrightarrow> (\<forall>t \<in> set (timers b). t_loop t)"

lemma loops_set_mset: "mset (timers b') = mset (timers b) \<Longrightarrow> loops_set b' = loops_set b"
  unfolding loops_set_def by (metis mset_eq_setD)

text \<open>Cascading a slot whose timers are all near empties it, keeping everything else.\<close>

lemma cascade_slot:
  assumes "wheel_inv A b" and "k < 4" and "i < 64" and "length (level b k ! i) \<le> fuel"
    and "\<forall>t \<in> set (level b k ! i). unat (t_expires t - timer_jiffies b) < 2 ^ shift k \<and> t_loop t"
  shows "\<exists>b'. foreach_safe fuel (\<lambda>b. level b k ! i) cascade_timer
      (list_head (level b k ! i)) () b = Some (Inr ((), b')) \<and>
    wheel_inv A b' \<and> mset (timers b') = mset (timers b) \<and> timer_jiffies b' = timer_jiffies b \<and>
    level b' k ! i = []"
  using assms
proof (induction "level b k ! i" arbitrary: b fuel)
  case Nil
  then show ?case by (cases fuel) (simp_all add: list_head_def flip: Nil(1))
next
  case (Cons t ts)
  obtain f where f: "fuel = Suc f" "length ts \<le> f" using Cons.prems(4) Cons.hyps(2) [symmetric] by (cases fuel) auto
  define b1 where "b1 = gp_timer_internal_add (gp_timer_del b t) t"
  note m = move_down [OF Cons.prems(1-3) Cons.hyps(2) [symmetric], folded b1_def]
  have near: "\<forall>t \<in> set (t # ts). unat (t_expires t - timer_jiffies b) < 2 ^ shift k \<and> t_loop t"
    using Cons.prems(5) Cons.hyps(2) by simp
  then have m': "wheel_inv A b1" "mset (timers b1) = mset (timers b)" "timer_jiffies b1 = timer_jiffies b" "level b1 k ! i = ts"
    using m by simp_all
  have nxt: "after (t_id t) (level b k ! i) = list_head ts"
    using after_head [of t ts] wheel_inv_distinct_slot(1) [OF Cons.prems(1-3)] Cons.hyps(2) by simp
  obtain b' where b': "foreach_safe f (\<lambda>b. level b k ! i) cascade_timer
      (list_head (level b1 k ! i)) () b1 = Some (Inr ((), b'))" "wheel_inv A b'" "mset (timers b') = mset (timers b1)"
    "timer_jiffies b' = timer_jiffies b1" "level b' k ! i = []"
    using Cons.hyps(1) [of b1 f] m' Cons.prems(2,3) f(2) near by auto
  have "list_head (level b k ! i) = Some t" using Cons.hyps(2) by (metis list_head_def list.simps(5))
  then show ?case using b' nxt f m' near by (simp add: b1_def Let_def cascade_timer_def)
qed

lemma level_tv: "level b 0 = tv2 b" "level b 1 = tv3 b" "level b 2 = tv4 b" "level b 3 = tv5 b"
  by (simp_all add: level_def)

lemma cascade_ok:
  assumes inv: "wheel_inv A b" and k: "k < 4" and tv: "\<And>b. tv b = level b k"
    and start: "unat (timer_jiffies b) mod 2 ^ shift k = 0" and fuel: "length (timers b) \<le> fuel" and loops: "loops_set b"
  shows "\<exists>b'. cascade fuel tv (tick_index b k) b = Some (Inr b') \<and> wheel_inv (insert k A) b' \<and>
    mset (timers b') = mset (timers b) \<and> timer_jiffies b' = timer_jiffies b"
proof -
  let ?J = "timer_jiffies b" and ?s = "shift k"
  define i where "i = unat ?J div 2 ^ ?s mod 64"
  have idx: "unat (tick_index b k) = i"
    using slot_index_tvn [of ?s ?J] by (simp add: tick_index_def TVR_BITS_def TVN_BITS_def mult.commute i_def)
  have i: "i < 64" by (simp add: i_def)
  have s: "?s \<le> 26" using k by simp
  have lev: "level_ok (k \<in> A) ?s ?J (level b k)" using inv k by (simp add: wheel_inv_def)
  have "i < length (level b k)" using lev i by (simp add: level_ok_def)
  then have sub: "set (level b k ! i) \<subseteq> set (timers b)" using nth_mem [of i "level b k"] less4_cases [OF k] by (auto simp: timers_def)
  have near: "\<forall>t \<in> set (level b k ! i). unat (t_expires t - ?J) < 2 ^ ?s \<and> t_loop t"
  proof
    fix t assume t: "t \<in> set (level b k ! i)"
    then have "placed ?s (t_expires t) ?J" "unat (t_expires t) div 2 ^ ?s mod 64 = i"
      using level_okD [OF lev i] by blast+
    then show "unat (t_expires t - ?J) < 2 ^ ?s \<and> t_loop t"
      using block_start(1) [OF _ start s] sub t loops by (auto simp: i_def loops_set_def)
  qed
  have "i < length (level b k)" using lev i by (simp add: level_ok_def)
  then have "length (level b k ! i) \<le> length (timers b)" by (rule length_slot_timers(1) [OF k])
  with fuel have "length (level b k ! i) \<le> fuel" by simp
  then obtain b' where b': "foreach_safe fuel (\<lambda>b. level b k ! i) cascade_timer
      (list_head (level b k ! i)) () b = Some (Inr ((), b'))" "wheel_inv A b'" "mset (timers b') = mset (timers b)"
    "timer_jiffies b' = ?J" "level b' k ! i = []"
    using cascade_slot [OF inv k i _ near] by blast
  have run: "cascade fuel tv (tick_index b k) b = Some (Inr b')"
    using b'(1) by (simp add: cascade_def Let_def idx tv)
  have lev': "level_ok (k \<in> A) ?s ?J (level b' k)" using b'(2,4) k by (simp add: wheel_inv_def)
  have "ahead ?s (t_expires t) ?J" if "j < 64" "t \<in> set (level b' k ! j)" for j t
  proof -
    have "placed ?s (t_expires t) ?J" "unat (t_expires t) div 2 ^ ?s mod 64 = j"
      using level_okD [OF lev' that] by blast+
    moreover have "j \<noteq> i" using that b'(5) by auto
    ultimately show ?thesis using block_start [OF _ start s, of "t_expires t"] unfolding i_def by blast
  qed
  then have "level_ok True ?s ?J (level b' k)" using lev' by (auto simp: level_ok_def)
  then have "level_ok (j \<in> insert k A) (shift j) ?J (level b' j)" if "j < 4" for j
    using that b'(2,4) by (cases "j = k") (simp_all add: wheel_inv_def)
  then have "wheel_inv (insert k A) b'" using b'(2,4) by (simp add: wheel_inv_def)
  then show ?thesis using run b'(3,4) by blast
qed

lemma wheel_inv_all:
  assumes "wheel_inv A b" and "\<forall>k < 4. k \<in> A \<or> unat (timer_jiffies b) mod 2 ^ shift k \<noteq> 0"
  shows "wheel_inv {..<4} b"
proof -
  let ?J = "timer_jiffies b"
  have "level_ok True (shift k) ?J (level b k)" if k: "k < 4" for k
  proof -
    have lev: "level_ok (k \<in> A) (shift k) ?J (level b k)" using assms(1) k by (simp add: wheel_inv_def)
    show ?thesis
    proof (cases "k \<in> A")
      case True
      with lev show ?thesis by simp
    next
      case False
      with assms(2) k have "unat ?J mod 2 ^ shift k \<noteq> 0" by blast
      then have "ahead (shift k) (t_expires t) ?J" if "i < 64" "t \<in> set (level b k ! i)" for i t
        using no_block_start [OF level_okD(1) [OF lev that]] k by simp
      with lev show ?thesis by (auto simp: level_ok_def)
    qed
  qed
  then show ?thesis using assms(1) by (simp add: wheel_inv_def)
qed

lemma tick_index_zero:
  assumes "unat (timer_jiffies b) mod 2 ^ shift k = 0"
  shows "tick_index b k = 0 \<longleftrightarrow> unat (timer_jiffies b) mod 2 ^ shift (Suc k) = 0"
proof -
  let ?J = "unat (timer_jiffies b)"
  have "tick_index b k = 0 \<longleftrightarrow> unat (tick_index b k) = 0" by (metis unat_eq_zero)
  also have "\<dots> \<longleftrightarrow> ?J div 2 ^ shift k mod 64 = 0"
    using slot_index_tvn [of "shift k" "timer_jiffies b"]
    by (simp add: tick_index_def TVR_BITS_def TVN_BITS_def mult.commute)
  also have "\<dots> \<longleftrightarrow> ?J mod (2 ^ shift k * 64) = 0"
    using assms by (simp add: mod_mult2_eq)
  finally show ?thesis by (simp add: power_add)
qed

lemma not_start_above:
  fixes J :: nat
  assumes "J mod 2 ^ shift k \<noteq> 0" and "k \<le> j"
  shows "J mod 2 ^ shift j \<noteq> 0"
proof
  assume "J mod 2 ^ shift j = 0"
  then have "2 ^ shift j dvd J" by auto
  moreover have "(2::nat) ^ shift k dvd 2 ^ shift j" using assms(2) by (intro le_imp_power_dvd) simp
  ultimately have "2 ^ shift k dvd J" by (rule dvd_trans [rotated])
  with assms(1) show False by simp
qed

lemma all_levels_done:
  fixes J :: nat
  assumes "J mod 2 ^ shift k \<noteq> 0"
  shows "\<forall>j < 4. j \<in> {..<k} \<or> J mod 2 ^ shift j \<noteq> 0"
  using not_start_above [OF assms] by (metis lessThan_iff not_less)

text \<open>After the cascades of a tick no block of any level is due any more.\<close>

lemma cascades_ok:
  assumes inv: "wheel_inv {} b" and fuel: "length (timers b) \<le> fuel" and loops: "loops_set b"
  shows "\<exists>b'. cascades fuel b = Some (Inr b') \<and> wheel_inv {..<4} b' \<and> mset (timers b') = mset (timers b) \<and>
    timer_jiffies b' = timer_jiffies b"
proof -
  let ?J = "unat (timer_jiffies b)"
  define good where "good n c \<longleftrightarrow> wheel_inv {..<n} c \<and> mset (timers c) = mset (timers b) \<and>
    timer_jiffies c = timer_jiffies b" for n c
  have fin: "good 4 c" if "good n c" "?J mod 2 ^ shift n \<noteq> 0" for n c
    using that wheel_inv_all [of "{..<n}" c] all_levels_done [of ?J n] by (auto simp: good_def)
  have step: "\<exists>c'. cascade fuel tv (tick_index c n) c = Some (Inr c') \<and> good (Suc n) c'"
    if "good n c" "n < 4" "\<And>b. tv b = level b n" "?J mod 2 ^ shift n = 0" for n c tv
  proof -
    have "length (timers c) \<le> fuel" using that(1) fuel by (metis good_def size_mset)
    moreover have "loops_set c" using that(1) loops loops_set_mset unfolding good_def by blast
    ultimately show ?thesis
      using cascade_ok [of "{..<n}" c n tv fuel] that by (auto simp: good_def lessThan_Suc)
  qed
  have idx: "tick_index c n = 0 \<longleftrightarrow> ?J mod 2 ^ shift (Suc n) = 0" if "good n' c" "?J mod 2 ^ shift n = 0" for n n' c
    using tick_index_zero [of c n] that by (simp add: good_def)
  have "timer_jiffies b AND TVR_MASK = 0 \<longleftrightarrow> unat (timer_jiffies b AND TVR_MASK) = 0"
    by (simp add: unat_eq_zero)
  then have zero: "timer_jiffies b AND TVR_MASK = 0 \<longleftrightarrow> ?J mod 2 ^ shift 0 = 0"
    by (simp add: slot_index_tvr)
  have good0: "good 0 b" using inv by (simp add: good_def)
  have "\<exists>b'. cascades fuel b = Some (Inr b') \<and> good 4 b'"
  proof (cases "?J mod 2 ^ shift 0 = 0")
    case False
    then show ?thesis using zero fin [OF good0] by (simp add: cascades_def)
  next
    case Z0: True
    obtain b1 where b1: "cascade fuel tv2 (tick_index b 0) b = Some (Inr b1)" "good 1 b1"
      using step [OF good0 _ level_tv(1) [symmetric] Z0] by auto
    note i0 = idx [OF good0 Z0] and c0 = zero Z0
    show ?thesis
    proof (cases "?J mod 2 ^ shift 1 = 0")
      case False
      then show ?thesis using c0 i0 b1 fin [OF b1(2)] by (simp add: cascades_def Let_def)
    next
      case Z1: True
      obtain b2 where b2: "cascade fuel tv3 (tick_index b1 1) b1 = Some (Inr b2)" "good 2 b2"
        using step [OF b1(2) _ level_tv(2) [symmetric] Z1] by (auto simp: numeral_2_eq_2)
      note i1 = idx [OF b1(2) Z1]
      show ?thesis
      proof (cases "?J mod 2 ^ shift 2 = 0")
        case False
        then show ?thesis using c0 i0 i1 Z1 b1 b2 fin [OF b2(2)]
          by (simp add: cascades_def Let_def numeral_2_eq_2)
      next
        case Z2: True
        obtain b3 where b3: "cascade fuel tv4 (tick_index b2 2) b2 = Some (Inr b3)" "good 3 b3"
          using step [OF b2(2) _ level_tv(3) [symmetric] Z2] by (auto simp: numeral_3_eq_3)
        note i2 = idx [OF b2(2) Z2]
        show ?thesis
        proof (cases "?J mod 2 ^ shift 3 = 0")
          case False
          then show ?thesis using c0 i0 i1 i2 Z1 Z2 b1 b2 b3 fin [OF b3(2)]
            by (simp add: cascades_def Let_def numeral_2_eq_2 numeral_3_eq_3)
        next
          case Z3: True
          obtain b4 where b4: "cascade fuel tv5 (tick_index b3 3) b3 = Some (Inr b4)" "good 4 b4"
            using step [OF b3(2) _ level_tv(4) [symmetric] Z3] by (auto simp: eval_nat_numeral)
          then show ?thesis using c0 i0 i1 i2 Z1 Z2 Z3 b1 b2 b3
            by (simp add: cascades_def Let_def numeral_2_eq_2 numeral_3_eq_3)
        qed
      qed
    qed
  qed
  then show ?thesis by (auto simp: good_def)
qed

section \<open>Firing\<close>

text \<open>The wheel without the slot that is being fired.\<close>

definition clear_slot :: "nat \<Rightarrow> gp_timer_base \<Rightarrow> gp_timer_base" where
  "clear_slot i b = b\<lparr>tv1 := (tv1 b)[i := []]\<rparr>"

lemma clear_slot_simps [simp]:
  "timer_jiffies (clear_slot i b) = timer_jiffies b" "level (clear_slot i b) k = level b k"
  "tv1 (clear_slot i b) = (tv1 b)[i := []]"
  by (simp_all add: clear_slot_def)

lemma del_clear_slot: "gp_timer_del (clear_slot i b) t = clear_slot i (gp_timer_del b t)"
  by (simp add: clear_slot_def gp_timer_del_def remove_id_def map_update)

lemma place_clear_slot:
  assumes "\<not> (unat (t_expires t - timer_jiffies b) < 256 \<and> unat (t_expires t) mod 256 = i)"
  shows "place_timer (clear_slot i b) t = clear_slot i (place_timer b t)"
    and "tv1 (place_timer b t) ! i = tv1 b ! i"
proof -
  have ne: "unat (t_expires t AND TVR_MASK) \<noteq> i" if "t_expires t - timer_jiffies b < 256"
    using that assms by (simp add: slot_index_tvr word_less_nat_alt)
  show "place_timer (clear_slot i b) t = clear_slot i (place_timer b t)"
  proof (cases "t_expires t - timer_jiffies b < 256")
    case True
    then have "i \<noteq> unat (t_expires t AND TVR_MASK)" using ne by blast
    with True show ?thesis
      by (simp add: place_timer_def clear_slot_def Let_def slot_append_def list_update_swap)
  next
    case False
    then show ?thesis by (simp add: place_timer_def clear_slot_def Let_def)
  qed
  show "tv1 (place_timer b t) ! i = tv1 b ! i"
    using ne by (simp add: place_timer_def Let_def slot_append_def)
qed

definition rearm :: "gp_timer_list \<Rightarrow> gp_timer_list" where
  "rearm t = t\<lparr>t_expires := t_expires t + t_interval t\<rparr>"

text \<open>While slot \<open>i\<close> is fired: \<open>ts\<close> are the timers still to come, the rest is a proper wheel.\<close>

definition fire_inv :: "nat \<Rightarrow> gp_timer_list list \<Rightarrow> gp_timer_base \<Rightarrow> bool" where
  "fire_inv i ts b \<longleftrightarrow> i < length (tv1 b) \<and> tv1 b ! i = ts \<and> wheel_inv {} (clear_slot i b) \<and>
     distinct (map t_id (ts @ timers (clear_slot i b)))"

lemma fire_inv_next_timer [simp]: "fire_inv i ts (b\<lparr>next_timer := n\<rparr>) = fire_inv i ts b"
proof -
  have "clear_slot i (b\<lparr>next_timer := n\<rparr>) = (clear_slot i b)\<lparr>next_timer := n\<rparr>" by (simp add: clear_slot_def)
  then show ?thesis by (simp add: fire_inv_def)
qed

lemma timers_clear_next_timer [simp]: "timers (clear_slot i (b\<lparr>next_timer := n\<rparr>)) = timers (clear_slot i b)"
proof -
  have "clear_slot i (b\<lparr>next_timer := n\<rparr>) = (clear_slot i b)\<lparr>next_timer := n\<rparr>" by (simp add: clear_slot_def)
  then show ?thesis by simp
qed

lemma fire_inv_del:
  assumes "fire_inv i (t # ts) b"
  shows "fire_inv i ts (gp_timer_del b t)"
    and "timers (clear_slot i (gp_timer_del b t)) = timers (clear_slot i b)"
proof -
  have "t_id t \<notin> t_id ` set (timers (clear_slot i b))" using assms by (auto simp: fire_inv_def)
  then have same: "timers (gp_timer_del (clear_slot i b) t) = timers (clear_slot i b)"
    by (auto simp: timers_del filter_id_conv image_iff)
  then show "timers (clear_slot i (gp_timer_del b t)) = timers (clear_slot i b)" by (simp add: del_clear_slot)
  have "tv1 (gp_timer_del b t) ! i = ts"
    using filter_tail [of t ts] assms by (auto simp: fire_inv_def remove_id_nth)
  then show "fire_inv i ts (gp_timer_del b t)"
    using assms same wheel_inv_del [of "{}" "clear_slot i b" t] by (simp add: fire_inv_def del_clear_slot)
qed

lemma fire_inv_place:
  assumes inv: "fire_inv i ts b" and new: "t_id t \<notin> t_id ` set (ts @ timers (clear_slot i b))"
    and other: "\<not> (unat (t_expires t - timer_jiffies b) < 256 \<and> unat (t_expires t) mod 256 = i)"
  shows "fire_inv i ts (place_timer b t)"
    and "mset (timers (clear_slot i (place_timer b t))) = add_mset t (mset (timers (clear_slot i b)))"
    and "timer_jiffies (place_timer b t) = timer_jiffies b"
proof -
  have w: "wheel_inv {} (clear_slot i b)" using inv by (simp add: fire_inv_def)
  have n: "t_id t \<notin> t_id ` set (timers (clear_slot i b))" using new by auto
  note p = place_timer_ok [OF w n, unfolded place_clear_slot(1) [OF other]]
  show m: "mset (timers (clear_slot i (place_timer b t))) = add_mset t (mset (timers (clear_slot i b)))" by (rule p(2))
  show "timer_jiffies (place_timer b t) = timer_jiffies b" using p(3) by simp
  have "length (tv1 (place_timer b t)) = length (tv1 b)"
    by (cases rule: place_timer_cases [of t b]) (simp_all add: slot_append_def)
  moreover have "distinct (map t_id (ts @ timers (clear_slot i (place_timer b t))))"
  proof -
    have "mset (map t_id (ts @ timers (clear_slot i (place_timer b t)))) =
        mset (map t_id (t # ts @ timers (clear_slot i b)))" using m by simp
    then have "distinct (map t_id (ts @ timers (clear_slot i (place_timer b t)))) \<longleftrightarrow>
        distinct (map t_id (t # ts @ timers (clear_slot i b)))" by (rule mset_eq_imp_distinct_iff)
    then show ?thesis using inv new by (auto simp: fire_inv_def)
  qed
  ultimately show "fire_inv i ts (place_timer b t)"
    using inv p(1) place_clear_slot(2) [OF other] by (simp add: fire_inv_def)
qed

lemma rearm_other_slot:
  fixes J iv :: u32
  assumes "iv \<noteq> 256"
  shows "\<not> (unat (J + iv - (J + 1)) < 256 \<and> unat (J + iv) mod 256 = unat J mod 256)"
proof
  assume a: "unat (J + iv - (J + 1)) < 256 \<and> unat (J + iv) mod 256 = unat J mod 256"
  have "J + iv - (J + 1) = iv - 1" by simp
  with a have lt: "unat (iv - 1) < 256" by simp
  have "iv \<noteq> 0" using lt by (auto simp: unsigned_minus_1_eq_mask mask_eq_exp_minus_1)
  then have "1 \<le> unat iv" by (metis One_nat_def Suc_leI neq0_conv unat_eq_zero)
  then have iv: "unat iv \<le> 256" "1 \<le> unat iv" using lt by (simp_all add: unat_diff_le)
  have "(unat J + unat iv) mod 256 = unat J mod 256"
    using a unat_plus_mod [of 8 J iv] by simp
  then have "256 dvd unat J + unat iv - unat J" by (simp only: mod_eq_dvd_iff_nat le_add1)
  then have "256 dvd unat iv" by simp
  then have "unat iv = 256" using iv by (auto simp: dvd_def)
  then have "iv = 256" by (simp add: word_unat_eq_iff)
  with assms show False by simp
qed

lemma del_idem: "t_id t' = t_id t \<Longrightarrow> gp_timer_del (gp_timer_del b t) t' = gp_timer_del b t"
  by (simp add: gp_timer_del_def remove_id_def comp_def)

definition fired :: "u32 \<Rightarrow> gp_timer_list list \<Rightarrow> (u32 \<times> nat) list" where
  "fired J ts = map (\<lambda>t. (J, t_id t)) (filter t_callback ts)"

definition rearmed :: "gp_timer_list list \<Rightarrow> gp_timer_list list" where
  "rearmed ts = map rearm (filter (\<lambda>t. t_repeat t = 1) ts)"

lemma fire_step:
  assumes inv: "fire_inv i (t # ts) b" and J: "timer_jiffies b = J + 1" and E: "t_expires t = J"
    and i: "i = unat J mod 256" and iv: "t_repeat t = 1 \<Longrightarrow> t_interval t \<noteq> 256"
  shows "\<exists>b'. fire_timer log b t = (log @ fired J [t], b') \<and> fire_inv i ts b' \<and> timer_jiffies b' = J + 1 \<and>
    mset (timers (clear_slot i b')) = mset (rearmed [t]) + mset (timers (clear_slot i b))"
proof -
  let ?b1 = "gp_timer_del b t"
  note d = fire_inv_del [OF inv]
  have log: "(if t_callback t then log @ [(timer_jiffies b - 1, t_id t)] else log) = log @ fired J [t]"
    by (simp add: J fired_def)
  show ?thesis
  proof (cases "t_repeat t = 1")
    case False
    then show ?thesis using d J log by (simp add: fire_timer_def Let_def rearmed_def)
  next
    case True
    have id: "t_id (rearm t) = t_id t" by (simp add: rearm_def)
    have new: "t_id (rearm t) \<notin> t_id ` set (ts @ timers (clear_slot i ?b1))"
      using inv d(2) by (auto simp: id fire_inv_def)
    have other: "\<not> (unat (t_expires (rearm t) - timer_jiffies ?b1) < 256 \<and> unat (t_expires (rearm t)) mod 256 = i)"
      using rearm_other_slot [of "t_interval t" J] iv [OF True] by (simp add: rearm_def E J i)
    note p = fire_inv_place [OF d(1) new other]
    show ?thesis
      using True p d(2) J log
      by (simp add: fire_timer_def Let_def rearmed_def gp_timer_add_def del_idem [OF id] gp_timer_internal_add_def
          rearm_def [symmetric])
  qed
qed

lemma fire_slot:
  assumes "fire_inv i ts b" and "timer_jiffies b = J + 1" and "i = unat J mod 256" and "length ts \<le> fuel"
    and "\<forall>t \<in> set ts. t_expires t = J \<and> (t_repeat t = 1 \<longrightarrow> t_interval t \<noteq> 256)"
  shows "\<exists>b'. foreach_safe fuel (\<lambda>b. tv1 b ! i) (\<lambda>log b t. Inr (fire_timer log b t)) (list_head ts) log b = Some (Inr (log @ fired J ts, b')) \<and>
    fire_inv i [] b' \<and> timer_jiffies b' = J + 1 \<and>
    mset (timers (clear_slot i b')) = mset (rearmed ts) + mset (timers (clear_slot i b))"
  using assms
proof (induction ts arbitrary: b fuel log)
  case Nil
  then show ?case by (cases fuel) (simp_all add: list_head_def fired_def rearmed_def)
next
  case (Cons t ts)
  obtain f where f: "fuel = Suc f" "length ts \<le> f" using Cons.prems(4) by (cases fuel) auto
  obtain b1 where b1: "fire_timer log b t = (log @ fired J [t], b1)" "fire_inv i ts b1" "timer_jiffies b1 = J + 1"
    "mset (timers (clear_slot i b1)) = mset (rearmed [t]) + mset (timers (clear_slot i b))"
    using fire_step [OF Cons.prems(1,2) _ Cons.prems(3), of log] Cons.prems(5) by auto
  obtain b2 where b2: "foreach_safe f (\<lambda>b. tv1 b ! i) (\<lambda>log b t. Inr (fire_timer log b t)) (list_head ts) (log @ fired J [t]) b1 =
      Some (Inr ((log @ fired J [t]) @ fired J ts, b2))" "fire_inv i [] b2" "timer_jiffies b2 = J + 1"
    "mset (timers (clear_slot i b2)) = mset (rearmed ts) + mset (timers (clear_slot i b1))"
    using Cons.IH [OF b1(2,3) Cons.prems(3) f(2), of "log @ fired J [t]"] Cons.prems(5) by auto
  have "after (t_id t) (tv1 b ! i) = list_head ts"
    using after_head [of t ts] Cons.prems(1) by (auto simp: fire_inv_def)
  moreover have "fired J [t] @ fired J ts = fired J (t # ts)" "mset (rearmed (t # ts)) = mset (rearmed [t]) + mset (rearmed ts)"
    by (simp_all add: fired_def rearmed_def)
  ultimately show ?case
    using b1 b2 f by (auto simp: list_head_def Let_def)
qed

lemma mset_concat_remove:
  assumes "i < length v"
  shows "mset (concat v) = mset (v ! i) + mset (concat (v[i := []]))"
proof -
  have "concat v = concat (take i v) @ v ! i @ concat (drop (Suc i) v)"
    by (metis assms concat.simps(2) concat_append id_take_nth_drop)
  then show ?thesis using assms by (simp add: upd_conv_take_nth_drop)
qed

lemma timers_mem:
  assumes "t \<in> set (timers b)"
  obtains "t \<in> set (concat (tv1 b))" | k where "k < 4" "t \<in> set (concat (level b k))"
proof -
  have lt: "(0::nat) < 4" "(1::nat) < 4" "(2::nat) < 4" "(3::nat) < 4" by simp_all
  from assms show ?thesis
    unfolding timers_def set_append Un_iff using that lt by metis
qed

lemma concat_mem_nth: "t \<in> set (concat v) \<Longrightarrow> \<exists>j < length v. t \<in> set (v ! j)"
  by (metis in_set_conv_nth UN_iff set_concat)

lemma start_firing:
  assumes inv: "wheel_inv {..<4} b" and J: "timer_jiffies b = J" and i: "i = unat J mod 256"
  defines "b2 \<equiv> b\<lparr>timer_jiffies := J + 1\<rparr>"
  shows "fire_inv i (tv1 b ! i) b2" and "\<forall>t \<in> set (tv1 b ! i). t_expires t = J"
    and "\<forall>t \<in> set (timers (clear_slot i b2)). t_expires t \<noteq> J"
    and "mset (timers b) = mset (tv1 b ! i) + mset (timers (clear_slot i b2))"
proof -
  have root: "root_ok J (tv1 b)" and lev: "\<And>k. k < 4 \<Longrightarrow> level_ok True (shift k) J (level b k)"
    and dist: "distinct (map t_id (timers b))"
    using inv J by (simp_all add: wheel_inv_def)
  have i256: "i < 256" "i < length (tv1 b)" using i root by (simp_all add: root_ok_def)
  have due: "unat (t_expires t) mod 256 = j" "t_expires t = J \<longleftrightarrow> j = i" "unat (t_expires t - J) < 256"
    if "j < 256" "t \<in> set (tv1 b ! j)" for j t
    using root that due_in_tv1 [of "t_expires t" J] by (auto simp: root_ok_def i)
  show "\<forall>t \<in> set (tv1 b ! i). t_expires t = J" using due(2) i256 by blast
  have lv: "ahead (shift k) (t_expires t) J" "unat (t_expires t) div 2 ^ shift k mod 64 = j"
    if "k < 4" "j < 64" "t \<in> set (level b k ! j)" for k j t
    using lev [OF that(1)] that(2,3) by (auto simp: level_ok_def)
  have "root_ok (J + 1) ((tv1 b)[i := []])"
  proof -
    have "unat (t_expires t - (J + 1)) < 256" if "j < 256" "j \<noteq> i" "t \<in> set (tv1 b ! j)" for j t
      using due [OF that(1,3)] that(2) by (simp add: unat_minus_succ)
    then show ?thesis using due(1) root i256 by (auto simp: root_ok_def nth_list_update split: if_splits)
  qed
  moreover have "level_ok False (shift k) (J + 1) (level b k)" if "k < 4" for k
    using lv that lev [OF that] ahead_next by (auto simp: level_ok_def)
  moreover show m: "mset (timers b) = mset (tv1 b ! i) + mset (timers (clear_slot i b2))"
  proof -
    have "mset (concat (tv1 b)) = mset (tv1 b ! i) + mset (concat ((tv1 b)[i := []]))"
      using mset_concat_remove [OF i256(2)] .
    then show ?thesis by (simp add: timers_def b2_def)
  qed
  moreover have "distinct (map t_id (tv1 b ! i @ timers (clear_slot i b2)))"
  proof -
    have "mset (map t_id (timers b)) = mset (map t_id (tv1 b ! i @ timers (clear_slot i b2)))" using m by simp
    then show ?thesis using dist mset_eq_imp_distinct_iff by blast
  qed
  ultimately show "fire_inv i (tv1 b ! i) b2"
    using i256 by (simp add: fire_inv_def b2_def wheel_inv_def)
  show "\<forall>t \<in> set (timers (clear_slot i b2)). t_expires t \<noteq> J"
  proof
    fix t assume "t \<in> set (timers (clear_slot i b2))"
    then consider "t \<in> set (concat ((tv1 b)[i := []]))" | k where "k < 4" "t \<in> set (concat (level b k))"
      by (rule timers_mem) (simp_all add: b2_def)
    then show "t_expires t \<noteq> J"
    proof cases
      case 1
      obtain j where j: "j < length ((tv1 b)[i := []])" "t \<in> set ((tv1 b)[i := []] ! j)"
        using concat_mem_nth [OF 1] by blast
      have "j < 256" using j(1) root by (simp add: root_ok_def)
      moreover have "j \<noteq> i" using j(2) i256 by (cases "j = i") simp_all
      moreover then have "t \<in> set (tv1 b ! j)" using j(2) by simp
      ultimately have "j < 256" "j \<noteq> i" "t \<in> set (tv1 b ! j)" by simp_all
      then show ?thesis using due(2) [of j t] by simp
    next
      case (2 k)
      obtain j where j: "j < length (level b k)" "t \<in> set (level b k ! j)"
        using concat_mem_nth [OF 2(2)] by blast
      have "j < 64" using j(1) lev [OF 2(1)] by (simp add: level_ok_def)
      then have "ahead (shift k) (t_expires t) J" using lv(1) [OF 2(1) _ j(2)] by blast
      then show ?thesis by (auto simp: ahead_def)
    qed
  qed
qed

text \<open>
  One tick: exactly the timers whose expiry is the current time are fired, and those of them that
  repeat come back with their expiry advanced by the interval.
\<close>

lemma timer_tick_ok:
  assumes inv: "wheel_inv {} b" and fuel: "length (timers b) \<le> fuel" and J: "timer_jiffies b = J"
    and iv: "\<forall>t \<in> set (timers b). t_repeat t = 1 \<longrightarrow> t_interval t \<noteq> 256" and loops: "loops_set b"
  shows "\<exists>ts b'. timer_tick fuel log b = Some (Inr (log @ fired J ts, b')) \<and>
    mset ts = filter_mset (\<lambda>t. t_expires t = J) (mset (timers b)) \<and> wheel_inv {} b' \<and> timer_jiffies b' = J + 1 \<and>
    mset (timers b') = filter_mset (\<lambda>t. t_expires t \<noteq> J) (mset (timers b)) + mset (rearmed ts)"
proof -
  obtain b1 where b1: "cascades fuel b = Some (Inr b1)" "wheel_inv {..<4} b1" "mset (timers b1) = mset (timers b)"
    "timer_jiffies b1 = J"
    using cascades_ok [OF inv fuel loops] J by auto
  define i where "i = unat J mod 256"
  define ts where "ts = tv1 b1 ! i"
  define b2 where "b2 = b1\<lparr>timer_jiffies := J + 1\<rparr>"
  note s = start_firing [OF b1(2,4) i_def, folded b2_def ts_def]
  have idx: "unat (timer_jiffies b AND TVR_MASK) = i" by (simp add: slot_index_tvr J i_def)
  have "set ts \<subseteq> set (timers b)" using s(4) b1(3) by (metis mset_eq_setD set_append mset_append Un_upper1)
  then have due: "\<forall>t \<in> set ts. t_expires t = J \<and> (t_repeat t = 1 \<longrightarrow> t_interval t \<noteq> 256)"
    using s(2) iv by blast
  have "length ts \<le> fuel" using s(4) b1(3) fuel by (metis size_mset size_union le_add1 order_trans)
  then obtain b3 where b3: "foreach_safe fuel (\<lambda>b. tv1 b ! i) (\<lambda>log b t. Inr (fire_timer log b t)) (list_head ts) log b2 =
      Some (Inr (log @ fired J ts, b3))" "fire_inv i [] b3" "timer_jiffies b3 = J + 1"
    "mset (timers (clear_slot i b3)) = mset (rearmed ts) + mset (timers (clear_slot i b2))"
    using fire_slot [OF s(1) _ i_def _ due, of fuel log] by (auto simp: b2_def)
  have same: "clear_slot i b3 = b3"
    using b3(2) by (simp add: fire_inv_def clear_slot_def) (metis list_update_id gp_timer_base.unfold_congs(3)
        gp_timer_base.surjective gp_timer_base.update_convs(3))
  have run: "timer_tick fuel log b = Some (Inr (log @ fired J ts, b3))"
    using b1(1,4) b3(1) by (simp add: timer_tick_def Let_def idx ts_def b2_def)
  have f: "filter_mset (\<lambda>t. t_expires t = J) (mset (timers b)) = mset ts"
    "filter_mset (\<lambda>t. t_expires t \<noteq> J) (mset (timers b)) = mset (timers (clear_slot i b2))"
  proof -
    have "filter_mset (\<lambda>t. t_expires t = J) (mset ts) = mset ts" "filter_mset (\<lambda>t. t_expires t \<noteq> J) (mset ts) = {#}"
      using s(2) by (auto simp: filter_mset_eq_conv)
    moreover have "filter_mset (\<lambda>t. t_expires t \<noteq> J) (mset (timers (clear_slot i b2))) = mset (timers (clear_slot i b2))"
      "filter_mset (\<lambda>t. t_expires t = J) (mset (timers (clear_slot i b2))) = {#}"
      using s(3) by (auto simp: filter_mset_eq_conv)
    ultimately show "filter_mset (\<lambda>t. t_expires t = J) (mset (timers b)) = mset ts"
      "filter_mset (\<lambda>t. t_expires t \<noteq> J) (mset (timers b)) = mset (timers (clear_slot i b2))"
      using s(4) b1(3) by simp_all
  qed
  have "wheel_inv {} b3" using b3(2) same by (simp add: fire_inv_def)
  then show ?thesis using run f b3(3,4) same by auto
qed

section \<open>The specification of a run\<close>

text \<open>
  What running the timers for \<open>n\<close> ticks means: at each tick the timers due at that time fire, in some
  order, the others stay, and a repeating timer comes back with its expiry advanced.
\<close>

inductive timer_run :: "u32 \<Rightarrow> gp_timer_list multiset \<Rightarrow> nat \<Rightarrow> (u32 \<times> nat) list \<Rightarrow> gp_timer_list multiset \<Rightarrow> bool" where
  Stop: "timer_run J M 0 [] M"
| Tick: "mset ts = filter_mset (\<lambda>t. t_expires t = J) M \<Longrightarrow>
    timer_run (J + 1) (filter_mset (\<lambda>t. t_expires t \<noteq> J) M + mset (rearmed ts)) n log M' \<Longrightarrow>
    timer_run J M (Suc n) (fired J ts @ log) M'"

inductive_cases timer_run_SucE: "timer_run J M (Suc n) log M'"
inductive_cases timer_run_0E: "timer_run J M 0 log M'"

lemma sint_minus:
  fixes a b :: u32
  assumes "int_range (sint a - sint b)"
  shows "sint (a - b) = sint a - sint b"
proof -
  have "sint (a - b) = signed_take_bit 31 (sint a - sint b)" by (simp add: sint_word_ariths)
  also have "\<dots> = sint a - sint b"
    using assms by (intro signed_take_bit_int_eq_self) (simp_all add: int_range_def)
  finally show ?thesis .
qed

lemma sint_succ:
  fixes a :: u32
  assumes "sint a < 2147483647"
  shows "sint (a + 1) = sint a + 1"
proof -
  have "- 2147483648 \<le> sint a" using sint_ge [of a] by simp
  then have "signed_take_bit 31 (sint a + 1) = sint a + 1"
    using assms by (intro signed_take_bit_int_eq_self) simp_all
  then show ?thesis by (simp add: sint_word_ariths)
qed

lemma size_filter_split: "size (filter_mset P M) + size (filter_mset (\<lambda>x. \<not> P x) M) = size M"
  by (metis multiset_partition size_union)

lemma run_ticks_ok:
  assumes "wheel_inv {} b" and "length (timers b) \<le> fuel"
    and "\<forall>t \<in> set (timers b). t_repeat t = 1 \<longrightarrow> t_interval t \<noteq> 256"
    and "sint jiffies < 2147483647" and "sint jiffies - sint (timer_jiffies b) = int n - 1" and "n < 2147483648"
    and "n < m" and "loops_set b"
  shows "\<exists>log' b'. run_ticks m fuel jiffies log b = Some (Inr (log @ log', b')) \<and> wheel_inv {} b' \<and>
    timer_jiffies b' = jiffies + 1 \<and> timer_run (timer_jiffies b) (mset (timers b)) n log' (mset (timers b'))"
  using assms
proof (induction n arbitrary: b log m)
  case 0
  then obtain m' where m: "m = Suc m'" by (cases m) auto
  have r: "int_range (sint jiffies - sint (timer_jiffies b))" using 0(5) by (simp add: int_range_def)
  have "sint (jiffies + 1) = sint (timer_jiffies b)" using 0(4,5) by (simp add: sint_succ)
  then have "timer_jiffies b = jiffies + 1" by (metis signed_word_eqI)
  moreover have "sint (jiffies - timer_jiffies b) = - 1" using sint_minus [OF r] 0(5) by simp
  ultimately show ?case
    using r 0(1) by (intro exI [of _ "[]"] exI [of _ b]) (simp add: m c_sub32_def timer_run.Stop)
next
  case (Suc n)
  then obtain m' where m: "m = Suc m'" "n < m'" by (cases m) auto
  let ?J = "timer_jiffies b"
  have r: "int_range (sint jiffies - sint ?J)" using Suc.prems(5,6) by (simp add: int_range_def)
  have pos: "sint (jiffies - ?J) \<ge> 0" using sint_minus [OF r] Suc.prems(5) by simp
  obtain ts b1 where t: "timer_tick fuel log b = Some (Inr (log @ fired ?J ts, b1))"
    "mset ts = filter_mset (\<lambda>t. t_expires t = ?J) (mset (timers b))" "wheel_inv {} b1" "timer_jiffies b1 = ?J + 1"
    "mset (timers b1) = filter_mset (\<lambda>t. t_expires t \<noteq> ?J) (mset (timers b)) + mset (rearmed ts)"
    using timer_tick_ok [OF Suc.prems(1,2) refl Suc.prems(3,8)] by blast
  have "length (rearmed ts) \<le> length ts" by (simp add: rearmed_def)
  then have "length (timers b1) \<le> length (timers b)"
    using arg_cong [OF t(5), of size] arg_cong [OF t(2), of size]
      size_filter_split [of "\<lambda>t. t_expires t = ?J" "mset (timers b)"] by simp
  then have fuel: "length (timers b1) \<le> fuel" using Suc.prems(2) by simp
  have "set ts \<subseteq> set (timers b)" using arg_cong [OF t(2), of set_mset] by auto
  moreover have "set (timers b1) \<subseteq> set (timers b) \<union> set (rearmed ts)"
    using arg_cong [OF t(5), of set_mset] by auto
  ultimately have iv: "\<forall>t \<in> set (timers b1). t_repeat t = 1 \<longrightarrow> t_interval t \<noteq> 256" and lp: "loops_set b1"
    using Suc.prems(3,8) unfolding loops_set_def by (fastforce simp: rearmed_def rearm_def)+
  have "sint (?J + 1) = sint ?J + 1" using Suc.prems(4,5) by (intro sint_succ) linarith
  then have d: "sint jiffies - sint (timer_jiffies b1) = int n - 1" using Suc.prems(5) t(4) by simp
  obtain log' b' where b': "run_ticks m' fuel jiffies (log @ fired ?J ts) b1 = Some (Inr ((log @ fired ?J ts) @ log', b'))"
    "wheel_inv {} b'" "timer_jiffies b' = jiffies + 1"
    "timer_run (timer_jiffies b1) (mset (timers b1)) n log' (mset (timers b'))"
    using Suc.IH [OF t(3) fuel iv Suc.prems(4) d _ m(2) lp, of "log @ fired ?J ts"] Suc.prems(6) by auto
  have "timer_run ?J (mset (timers b)) (Suc n) (fired ?J ts @ log') (mset (timers b'))"
    using b'(4) t(2,4,5) by (intro timer_run.Tick) simp_all
  then show ?case
    using b'(1-3) t(1) r pos by (intro exI [of _ "fired ?J ts @ log'"] exI [of _ b']) (simp add: m c_sub32_def)
qed

text \<open>
  C5. \<open>gp_run_timers\<close> handles every tick from \<open>timer_jiffies\<close> up to \<open>jiffies\<close> and does at each of them
  exactly what the specification says: every timer fires precisely at its expiry, however far in the
  future it was added and through whatever levels of the wheel it came, and repeating timers come
  back at expiry plus interval. It assumes that every timer has its loop, as \<open>gp_loop_timer_start\<close> sets it, a repeating timer's
  interval is not exactly 256 and that
  the time has not reached the end of the \<open>int\<close> range; it ends after as many rounds as there are ticks.
\<close>

theorem run_timers_refines_spec:
  assumes "wheel_inv {} b" and "length (timers b) \<le> fuel"
    and "\<forall>t \<in> set (timers b). t_repeat t = 1 \<longrightarrow> t_interval t \<noteq> 256"
    and "sint jiffies < 2147483647" and "sint jiffies - sint (timer_jiffies b) = int n - 1" and "n < 2147483648"
    and "n < rounds" and "loops_set b"
  shows "\<exists>log b'. gp_run_timers rounds fuel b jiffies = Some (Inr (log, b')) \<and> wheel_inv {} b' \<and>
    timer_jiffies b' = jiffies + 1 \<and> timer_run (timer_jiffies b) (mset (timers b)) n log (mset (timers b'))"
  using run_ticks_ok [OF assms, of "[]"] by (simp add: gp_run_timers_def)

lemma wheel_inv_init: "wheel_inv {} (init_gp_timer_base J)"
  by (simp add: wheel_inv_def init_gp_timer_base_def root_ok_def level_ok_def level_def timers_def)

lemma timers_init [simp]: "timers (init_gp_timer_base J) = []"
  by (simp add: timers_def init_gp_timer_base_def level_def)

lemma internal_add_simps:
  "timers (gp_timer_internal_add b t) = timers (place_timer b t)"
  "wheel_inv A (gp_timer_internal_add b t) = wheel_inv A (place_timer b t)"
  "timer_jiffies (gp_timer_internal_add b t) = timer_jiffies (place_timer b t)"
  by (simp_all add: gp_timer_internal_add_def Let_def)

lemma gp_timer_add_ok:
  assumes "wheel_inv A b"
  shows "wheel_inv A (gp_timer_add b t)"
    and "mset (timers (gp_timer_add b t)) = add_mset t (mset (filter (\<lambda>x. t_id x \<noteq> t_id t) (timers b)))"
    and "timer_jiffies (gp_timer_add b t) = timer_jiffies b"
proof -
  have "t_id t \<notin> t_id ` set (timers (gp_timer_del b t))" by (auto simp: timers_del)
  note p = place_timer_ok [OF wheel_inv_del [OF assms] this]
  show "wheel_inv A (gp_timer_add b t)" using p(1) by (simp add: gp_timer_add_def internal_add_simps)
  show "mset (timers (gp_timer_add b t)) = add_mset t (mset (filter (\<lambda>x. t_id x \<noteq> t_id t) (timers b)))"
    using p(2) by (simp add: gp_timer_add_def internal_add_simps timers_del)
  show "timer_jiffies (gp_timer_add b t) = timer_jiffies b"
    using p(3) by (simp add: gp_timer_add_def internal_add_simps)
qed

text \<open>
  C16. A new wheel satisfies the invariant, and adding, removing and modifying a timer keep it: every
  timer is in the slot its expiry selects, none is in two slots. Afterwards the wheel holds the
  timers it held before, with the one concerned added, absent, or with its new expiry.
\<close>

theorem timer_operations_keep_invariant:
  assumes "wheel_inv {} b"
  shows "wheel_inv {} (init_gp_timer_base J) \<and> wheel_inv {} (gp_timer_add b t) \<and> wheel_inv {} (gp_timer_del b t) \<and>
    wheel_inv {} (gp_timer_mod b t e iv r) \<and>
    mset (timers (gp_timer_add b t)) = add_mset t (mset (timers (gp_timer_del b t))) \<and>
    t_id t \<notin> t_id ` set (timers (gp_timer_del b t)) \<and>
    mset (timers (gp_timer_mod b t e iv r)) =
      add_mset (t\<lparr>t_expires := e, t_interval := iv, t_repeat := r\<rparr>) (mset (timers (gp_timer_del b t)))"
  using wheel_inv_init [of J] gp_timer_add_ok [OF assms, of t] wheel_inv_del [OF assms, of t]
    gp_timer_add_ok [OF wheel_inv_del [OF assms, of t], of "t\<lparr>t_expires := e, t_interval := iv, t_repeat := r\<rparr>"]
  by (auto simp: gp_timer_mod_def timers_del)

definition demo_timer :: "nat \<Rightarrow> u32 \<Rightarrow> gp_timer_list" where
  "demo_timer i e = init_gp_timer i True e 0 0"

theorem timer_operations_keep_invariant_witness:
  "wheel_inv {} (gp_timer_add (init_gp_timer_base 7) (demo_timer 1 1000)) \<and>
   mset (timers (gp_timer_add (init_gp_timer_base 7) (demo_timer 1 1000))) = {#demo_timer 1 1000#}"
  using timer_operations_keep_invariant [OF wheel_inv_init [of 7], of 0 "demo_timer 1 1000" 0 0 0]
  by (simp add: timers_del)

text \<open>The operations of a loop keep the timers' loops set.\<close>

lemma loop_timers_have_loops:
  assumes "wheel_inv {} (timer_base loop)" and "loops_set (timer_base loop)"
  shows "loops_set (timer_base (gp_loop_timer_start i fn interval repeat loop)) \<and> loops_set (timer_base (gp_loop_timer_stop t loop)) \<and>
    (t_loop t \<longrightarrow> loops_set (timer_base (gp_loop_timer_mod t e interval repeat loop)))"
proof -
  have "loops_set (gp_timer_del (timer_base loop) t)" for t using assms(2) by (auto simp: loops_set_def timers_del)
  moreover have "loops_set (gp_timer_add b u)" if "wheel_inv {} b" "loops_set b" "t_loop u" for b u
    using arg_cong [OF gp_timer_add_ok(2) [OF that(1), of u], of set_mset] that(2,3) by (auto simp: loops_set_def)
  ultimately show ?thesis using assms wheel_inv_del [OF assms(1)]
    by (auto simp: gp_loop_timer_start_def gp_loop_timer_stop_def gp_loop_timer_mod_def gp_timer_mod_def Let_def)
qed

text \<open>A loop at time 7 with one timer that expires after some ticks.\<close>

definition demo_loop :: "u32 \<Rightarrow> timer_loop" where
  "demo_loop interval = gp_loop_timer_start 1 True interval 0 \<lparr>loop_time = 7, timer_base = init_gp_timer_base 7\<rparr>"

definition started_timer :: "u32 \<Rightarrow> u32 \<Rightarrow> gp_timer_list" where
  "started_timer e interval = \<lparr>t_id = 1, t_loop = True, t_expires = e, t_interval = interval, t_repeat = 0, t_callback = True\<rparr>"

lemma demo_loop_ok:
  "wheel_inv {} (timer_base (demo_loop interval))" "loops_set (timer_base (demo_loop interval))"
  "timers (timer_base (demo_loop interval)) = [started_timer (7 + interval) interval]" "timer_jiffies (timer_base (demo_loop interval)) = 7"
proof -
  let ?t = "started_timer (7 + interval) interval"
  have e: "timer_base (demo_loop interval) = gp_timer_add (init_gp_timer_base 7) ?t"
    by (simp add: demo_loop_def gp_loop_timer_start_def init_gp_timer_def started_timer_def)
  note a = gp_timer_add_ok [OF wheel_inv_init [of 7], of ?t]
  show "wheel_inv {} (timer_base (demo_loop interval))" "timer_jiffies (timer_base (demo_loop interval)) = 7"
    using a(1,3) unfolding e by (simp_all add: init_gp_timer_base_def)
  have "mset (timers (gp_timer_add (init_gp_timer_base 7) ?t)) = {#?t#}" using a(2) by simp
  then show t: "timers (timer_base (demo_loop interval)) = [?t]" unfolding e by simp
  show "loops_set (timer_base (demo_loop interval))" unfolding loops_set_def t by (simp add: started_timer_def)
qed

theorem run_timers_refines_spec_witness:
  "\<exists>log b'. gp_run_timers 5 1 (timer_base (demo_loop 2)) 9 = Some (Inr (log, b')) \<and>
    wheel_inv {} b' \<and> timer_run 7 {#started_timer 9 2#} 3 log (mset (timers b'))"
proof -
  note d = demo_loop_ok [of 2]
  have "\<exists>log b'. gp_run_timers 5 1 (timer_base (demo_loop 2)) 9 = Some (Inr (log, b')) \<and> wheel_inv {} b' \<and>
      timer_jiffies b' = 9 + 1 \<and> timer_run (timer_jiffies (timer_base (demo_loop 2))) (mset (timers (timer_base (demo_loop 2)))) 3 log (mset (timers b'))"
    by (rule run_timers_refines_spec [OF d(1) _ _ _ _ _ _ d(2)], unfold d(3,4)) (simp_all add: started_timer_def)
  then show ?thesis unfolding d(3,4) by auto
qed

lemma distance_step:
  fixes E J :: u32
  assumes "E \<noteq> J"
  shows "unat (E - (J + 1)) < n \<longleftrightarrow> unat (E - J) < Suc n" "n \<le> unat (E - (J + 1)) \<longleftrightarrow> Suc n \<le> unat (E - J)"
proof -
  have "E - J \<noteq> 0" using assms by simp
  then have "0 < unat (E - J)" by (metis neq0_conv unat_eq_zero)
  then show "unat (E - (J + 1)) < n \<longleftrightarrow> unat (E - J) < Suc n" "n \<le> unat (E - (J + 1)) \<longleftrightarrow> Suc n \<le> unat (E - J)"
    using unat_minus_succ [OF assms] by auto
qed

lemma fired_distance:
  assumes "unat (k - (J + 1)) < n" and "n < 4294967296"
  shows "unat ((k :: u32) - J) = Suc (unat (k - (J + 1)))"
proof -
  have "k - J = (k - (J + 1)) + 1" by simp
  moreover have "unat ((k - (J + 1)) + 1) = unat (k - (J + 1)) + 1"
    using assms by (subst unat_add32) simp_all
  ultimately show ?thesis by simp
qed

text \<open>Timers that do not repeat: a run of \<open>n\<close> ticks in closed form.\<close>

lemma sorted_map_Suc: "sorted (map Suc xs) = sorted xs"
  by (simp add: sorted_map)

lemma timer_run_oneshot:
  assumes "timer_run J M n log M'" and "\<forall>t \<in># M. t_repeat t \<noteq> 1" and "n \<le> 4294967296"
  shows "mset log = image_mset (\<lambda>t. (t_expires t, t_id t))
        (filter_mset (\<lambda>t. t_callback t \<and> unat (t_expires t - J) < n) M) \<and>
      M' = filter_mset (\<lambda>t. n \<le> unat (t_expires t - J)) M \<and>
      sorted (map (\<lambda>(k, i). unat (k - J)) log)"
  using assms
proof (induction rule: timer_run.induct)
  case (Stop J M)
  then show ?case by simp
next
  case (Tick ts J M n log M')
  let ?R = "filter_mset (\<lambda>t. t_expires t \<noteq> J) M"
  have "set ts \<subseteq> set_mset M" using arg_cong [OF Tick.hyps(1), of set_mset] by auto
  then have no: "rearmed ts = []" using Tick.prems(1) by (auto simp: rearmed_def filter_empty_conv)
  have IH: "mset log = image_mset (\<lambda>t. (t_expires t, t_id t))
        (filter_mset (\<lambda>t. t_callback t \<and> unat (t_expires t - (J + 1)) < n) ?R)"
    "M' = filter_mset (\<lambda>t. n \<le> unat (t_expires t - (J + 1))) ?R"
    "sorted (map (\<lambda>(k, i). unat (k - (J + 1))) log)"
    using Tick.IH Tick.prems no by auto
  have split: "filter_mset (\<lambda>t. t_callback t \<and> unat (t_expires t - J) < Suc n) M =
      filter_mset t_callback (filter_mset (\<lambda>t. t_expires t = J) M) +
      filter_mset (\<lambda>t. t_callback t \<and> unat (t_expires t - (J + 1)) < n) ?R"
    by (induction M) (auto simp: distance_step)
  have "mset (fired J ts) = image_mset (\<lambda>t. (J, t_id t)) (filter_mset t_callback (mset ts))"
    by (simp add: fired_def)
  also have "\<dots> = image_mset (\<lambda>t. (t_expires t, t_id t)) (filter_mset t_callback (filter_mset (\<lambda>t. t_expires t = J) M))"
    unfolding Tick.hyps(1) by (rule image_mset_cong) auto
  finally have "mset (fired J ts @ log) = image_mset (\<lambda>t. (t_expires t, t_id t))
        (filter_mset (\<lambda>t. t_callback t \<and> unat (t_expires t - J) < Suc n) M)"
    using split IH(1) by simp
  moreover have "M' = filter_mset (\<lambda>t. Suc n \<le> unat (t_expires t - J)) M"
    unfolding IH(2) by (induction M) (auto simp: distance_step)
  moreover have "sorted (map (\<lambda>(k, i). unat (k - J)) (fired J ts @ log))"
  proof -
    have small: "unat (k - (J + 1)) < n" if "(k, i) \<in> set log" for k i
      using that arg_cong [OF IH(1), of set_mset] by auto
    have "map (\<lambda>(k, i). unat (k - J)) log = map Suc (map (\<lambda>(k, i). unat (k - (J + 1))) log)"
      using Tick.prems(2) by (auto dest!: small intro!: fired_distance [where n = n])
    with IH(3) have "sorted (map (\<lambda>(k, i). unat (k - J)) log)"
      by (simp only: sorted_map_Suc)
    moreover have "map (\<lambda>(k, i). unat (k - J)) (fired J ts) = replicate (length (filter t_callback ts)) 0"
      by (simp add: fired_def map_replicate_const comp_def)
    ultimately show ?thesis by (simp add: sorted_append)
  qed
  ultimately show ?case by blast
qed

text \<open>
  C15. Timers that do not repeat, each with its loop: after a call of \<open>gp_run_timers\<close> covering \<open>n\<close> ticks exactly the timers
  whose expiry lies within these ticks have fired, once each, at their expiry, in the order of their
  expiries, and exactly the others are still in the wheel.
\<close>

theorem oneshot_timers_fire_at_expiry:
  assumes "wheel_inv {} b" and "length (timers b) \<le> fuel" and "\<forall>t \<in> set (timers b). t_repeat t \<noteq> 1"
    and "sint jiffies < 2147483647" and "sint jiffies - sint (timer_jiffies b) = int n - 1" and "n < 2147483648"
    and "n < rounds" and "loops_set b"
  shows "\<exists>log b'. gp_run_timers rounds fuel b jiffies = Some (Inr (log, b')) \<and>
    mset log = mset (map (\<lambda>t. (t_expires t, t_id t))
      (filter (\<lambda>t. t_callback t \<and> unat (t_expires t - timer_jiffies b) < n) (timers b))) \<and>
    sorted (map (\<lambda>(k, i). unat (k - timer_jiffies b)) log) \<and>
    mset (timers b') = mset (filter (\<lambda>t. n \<le> unat (t_expires t - timer_jiffies b)) (timers b))"
proof -
  obtain log b' where r: "run_ticks rounds fuel jiffies [] b = Some (Inr ([] @ log, b'))"
    "timer_run (timer_jiffies b) (mset (timers b)) n log (mset (timers b'))"
    using run_ticks_ok [OF assms(1,2) _ assms(4-8), of "[]"] assms(3) by blast
  have "\<forall>t \<in># mset (timers b). t_repeat t \<noteq> 1" using assms(3) by simp
  from timer_run_oneshot [OF r(2) this] r(1) assms(6) show ?thesis
    by (intro exI [of _ log] exI [of _ b']) (simp add: gp_run_timers_def)
qed

theorem oneshot_timers_fire_at_expiry_witness:
  "\<exists>log b'. gp_run_timers 1001 1 (timer_base (demo_loop 993)) 1006 = Some (Inr (log, b')) \<and> mset log = {#(1000, 1)#}"
proof -
  note d = demo_loop_ok [of 993]
  show ?thesis
    using oneshot_timers_fire_at_expiry [OF d(1) _ _ _ _ _ _ d(2), of 1 1006 1000 1001]
    unfolding d(3,4) by (auto simp: started_timer_def)
qed

text \<open>
  A timer that is added to a wheel with \<open>gp_timer_add\<close> only has no loop: its pointer is NULL until \<open>gp_loop_timer_start\<close> sets it. Such a timer
  fires if it is within the first level; cascading it from a higher level goes through NULL.
\<close>

lemma timer_without_loop_is_not_cascaded:
  assumes "tv b ! unat index = t # ts" and "\<not> t_loop t"
  shows "cascade (Suc fuel) tv index b = Some (Inl NullDeref)"
  using assms by (simp add: cascade_def list_head_def cascade_timer_def)

text \<open>
  A timer whose expiry has already passed is never due within the first level: the test for it
  compares an unsigned value with 0, so the timer goes to the top level as if its expiry were almost
  \<open>2 ^ 32\<close> ticks away. (A repeating timer with interval 0, or one that is started with an expiry before
  \<open>timer_jiffies\<close>, is affected.)
\<close>

lemma overdue_timer_parked_in_top_level:
  assumes "t_expires t = timer_jiffies b - d" and "0 < unat d" and "unat d \<le> 4227858432"
  shows "place_timer b t = b\<lparr>tv5 := slot_append (drop_bit 26 (t_expires t) AND TVN_MASK) t (tv5 b)\<rparr> \<and>
    unat (t_expires t - timer_jiffies b) = 4294967296 - unat d"
proof -
  have "t_expires t - timer_jiffies b = - d" using assms(1) by simp
  moreover have "unat (- d) = 4294967296 - unat d"
    using assms(2) unat_sub_if_size [of 0 d] by (simp add: word_size)
  ultimately have D: "unat (t_expires t - timer_jiffies b) = 4294967296 - unat d" by simp
  have "place_timer b t = b\<lparr>tv5 := slot_append (drop_bit 26 (t_expires t) AND TVN_MASK) t (tv5 b)\<rparr>"
  proof (cases rule: place_timer_cases [of t b])
    case root
    then show ?thesis using D assms(3) by simp
  next
    case (level k)
    have "67108864 \<le> unat (t_expires t - timer_jiffies b)" using D assms(3) by simp
    then have "\<not> k < 3"
      using level(3) power_increasing [of "shift k + 6" 26 "2::nat"] by auto
    with level(1) have "k = 3" by simp
    then show ?thesis by (simp add: level(4) upd_level_def)
  qed
  with D show ?thesis by blast
qed

lemma run_ticks_numeral:
  "run_ticks (numeral k) fuel jiffies log b = run_ticks (Suc (pred_numeral k)) fuel jiffies log b"
  by (simp add: numeral_eq_Suc)

lemma foreach_safe_numeral:
  "foreach_safe (numeral k) get body (Some t) l b = foreach_safe (Suc (pred_numeral k)) get body (Some t) l b"
  by (simp add: numeral_eq_Suc)

lemma mask5: "(5 :: u32) AND TVR_MASK = 5" "(261 :: u32) AND TVR_MASK = 5"
  by (simp_all add: TVR_MASK_def)

lemma jiffies_gp_timer_add [simp]: "timer_jiffies (gp_timer_add b t) = timer_jiffies b"
  by (simp add: gp_timer_add_def gp_timer_internal_add_def gp_timer_del_def place_timer_def Let_def)

lemma tv1_gp_timer_add:
  "t_expires t - timer_jiffies b < 256 \<Longrightarrow>
   tv1 (gp_timer_add b t) = slot_append (t_expires t AND TVR_MASK) t (remove_id (t_id t) (tv1 b))"
  by (simp add: gp_timer_add_def gp_timer_internal_add_def gp_timer_del_def place_timer_def Let_def)

lemma fire_timer_tv1:
  assumes "t_repeat t = 1 \<Longrightarrow> t_expires t + t_interval t - timer_jiffies b < 256" and "t_callback t"
  obtains b' where "fire_timer log b t = (log @ [(timer_jiffies b - 1, t_id t)], b')"
    "timer_jiffies b' = timer_jiffies b"
    "tv1 b' = (if t_repeat t = 1 then slot_append (t_expires t + t_interval t AND TVR_MASK)
        (t\<lparr>t_expires := t_expires t + t_interval t\<rparr>) (remove_id (t_id t) (remove_id (t_id t) (tv1 b)))
      else remove_id (t_id t) (tv1 b))"
  using assms
  by (simp add: fire_timer_def Let_def gp_timer_del_def tv1_gp_timer_add)

text \<open>
  The excluded interval is a real defect: a repeating timer with interval 256 that shares its slot
  with a later timer is put at the end of the list that is being walked, and fires twice in the
  same tick, the second time 256 ticks early.
\<close>

lemma interval_256_fires_early:
  "(case gp_run_timers 2 10
      (gp_timer_add (gp_timer_add (init_gp_timer_base 5) (init_gp_timer 1 True 5 256 1)) (init_gp_timer 2 True 5 0 0)) 5 of
      Some (Inr (log, b)) \<Rightarrow> log = [(5, 1), (5, 2), (5, 1)]
    | _ \<Rightarrow> False)"
proof -
  let ?t1 = "init_gp_timer 1 True 5 256 1" and ?t2 = "init_gp_timer 2 True 5 0 0"
  let ?t1' = "?t1\<lparr>t_expires := 261\<rparr>"
  let ?b = "gp_timer_add (gp_timer_add (init_gp_timer_base 5) ?t1) ?t2"
  define E :: "gp_timer_list list list" where "E = replicate 256 []"
  note ev = E_def remove_id_def slot_append_def map_update init_gp_timer_def mask5
  have tv: "tv1 ?b = E[5 := [?t1, ?t2]]"
    by (simp add: tv1_gp_timer_add init_gp_timer_base_def ev)
  define b0 where "b0 = ?b\<lparr>timer_jiffies := 6\<rparr>"
  have b0: "tv1 b0 = E[5 := [?t1, ?t2]]" "timer_jiffies b0 = 6" using tv by (simp_all add: b0_def)
  obtain b1 where b1: "fire_timer [] b0 ?t1 = ([(5, 1)], b1)" "timer_jiffies b1 = 6" "tv1 b1 = E[5 := [?t2, ?t1']]"
    by (rule fire_timer_tv1 [of ?t1 b0 "[]"]) (auto simp: b0 ev)
  obtain b2 where b2: "fire_timer [(5, 1)] b1 ?t2 = ([(5, 1), (5, 2)], b2)" "timer_jiffies b2 = 6" "tv1 b2 = E[5 := [?t1']]"
    by (rule fire_timer_tv1 [of ?t2 b1 "[(5, 1)]"]) (auto simp: b1 ev)
  obtain b3 where b3: "fire_timer [(5, 1), (5, 2)] b2 ?t1' = ([(5, 1), (5, 2), (5, 1)], b3)" "timer_jiffies b3 = 6"
    by (simp add: fire_timer_def Let_def b2 init_gp_timer_def gp_timer_del_def)
  have nxt: "after 1 (tv1 b0 ! 5) = Some ?t2" "after 2 (tv1 b1 ! 5) = Some ?t1'" "after 1 (tv1 b2 ! 5) = None"
    "list_head (tv1 b0 ! 5) = Some ?t1"
    by (simp_all only: b0 b1 b2) (simp_all add: ev list_head_def)
  have ids: "t_id ?t1 = 1" "t_id ?t1' = 1" "t_id ?t2 = 2" by (simp_all add: init_gp_timer_def)
  have j: "timer_jiffies ?b = 5" by (simp add: init_gp_timer_base_def)
  have "timer_tick 10 [] ?b = foreach_safe (Suc (Suc (Suc 7))) (\<lambda>b. tv1 b ! 5) (\<lambda>log b t. Inr (fire_timer log b t)) (list_head (tv1 b0 ! 5)) [] b0"
    unfolding timer_tick_def cascades_def Let_def j mask5 b0_def by (simp add: init_gp_timer_base_def)
  also have "\<dots> = Some (Inr ([(5, 1), (5, 2), (5, 1)], b3))"
    by (simp only: foreach_safe.simps nxt ids Let_def b1(1) b2(1) b3(1) prod.case bindR_simps)
  finally have "gp_run_timers 2 10 ?b 5 = Some (Inr ([(5, 1), (5, 2), (5, 1)], b3))"
    using j b3(2) by (simp add: gp_run_timers_def numeral_2_eq_2 c_sub32_def int_range_def)
  then show ?thesis by simp
qed

end
