(* ===== verification/Gp_Conf.thy ===== *)
theory Gp_Conf
  imports Prelude
begin

text \<open>
  The configuration store of \<open>base/gp_conf.c\<close>: a tree of named nodes with values, addressed by dotted
  names. A node is a value of the datatype \<open>gp_conf_node\<close>; a pointer to a node is the path of child
  positions that leads to it from the root, so that the parent of a node is the path without its last
  step. C strings are character lists without the terminating NUL; character arrays are lists that
  contain it. Memory allocation does not fail. The conversions to floating point
  (\<open>gp_conf_get_double\<close>, \<open>gp_conf_get_float\<close>) are left out.
\<close>

section \<open>Strings of the C library\<close>

abbreviation NUL :: char where
  "NUL \<equiv> CHR 0x00"

text \<open>The character \<open>s[i]\<close> of a C string, which ends in NUL.\<close>

definition str_at :: "string \<Rightarrow> nat \<Rightarrow> char" where
  "str_at s i = (if i < length s then s ! i else NUL)"

definition put_char :: "string \<Rightarrow> nat \<Rightarrow> char \<Rightarrow> string res" where
  "put_char m i c = (if i < length m then Inr (m[i := c]) else Inl OutOfBounds)"

definition get_char :: "string \<Rightarrow> nat \<Rightarrow> char res" where
  "get_char m i = (if i < length m then Inr (m ! i) else Inl OutOfBounds)"

text \<open>The C string in a character array.\<close>

definition c_string :: "string \<Rightarrow> string" where
  "c_string m = takeWhile (\<lambda>c. c \<noteq> NUL) m"

text \<open>\<open>strchr (s, c)\<close> followed by \<open>*next++ = NUL\<close>: the part before the character, and the rest if there is one.\<close>

definition strchr_split :: "char \<Rightarrow> string \<Rightarrow> string \<times> string option" where
  "strchr_split c s =
     (takeWhile (\<lambda>x. x \<noteq> c) s, case dropWhile (\<lambda>x. x \<noteq> c) s of [] \<Rightarrow> None | _ # r \<Rightarrow> Some r)"

definition isspace :: "char \<Rightarrow> bool" where
  "isspace c \<longleftrightarrow> c \<in> {CHR 0x09, CHR 0x0A, CHR 0x0B, CHR 0x0C, CHR 0x0D, CHR 0x20}"

definition tolower :: "char \<Rightarrow> char" where
  "tolower c = (let n = (of_char c :: nat) in if 65 \<le> n \<and> n \<le> 90 then char_of (n + 32) else c)"

definition strcasecmp_eq :: "string \<Rightarrow> string \<Rightarrow> bool" where
  "strcasecmp_eq s t \<longleftrightarrow> map tolower s = map tolower t"

text \<open>Digits for \<open>strtoimax\<close> and \<open>%d\<close>.\<close>

definition digit_val :: "char \<Rightarrow> nat option" where
  "digit_val c =
     (let n = (of_char c :: nat) in
      if 48 \<le> n \<and> n \<le> 57 then Some (n - 48)
      else if 97 \<le> n \<and> n \<le> 122 then Some (n - 87)
      else if 65 \<le> n \<and> n \<le> 90 then Some (n - 55)
      else None)"

fun scan_digits :: "nat \<Rightarrow> nat \<Rightarrow> string \<Rightarrow> nat \<times> string" where
  "scan_digits base acc [] = (acc, [])"
| "scan_digits base acc (c # cs) =
     (case digit_val c of
        Some d \<Rightarrow> if d < base then scan_digits base (acc * base + d) cs else (acc, c # cs)
      | None \<Rightarrow> (acc, c # cs))"

definition is_digit_in :: "nat \<Rightarrow> string \<Rightarrow> bool" where
  "is_digit_in base s = (case s of [] \<Rightarrow> False | c # _ \<Rightarrow> (case digit_val c of Some d \<Rightarrow> d < base | None \<Rightarrow> False))"

definition INTMAX_MAX :: int where "INTMAX_MAX = 9223372036854775807"
definition INTMAX_MIN :: int where "INTMAX_MIN = - 9223372036854775808"

text \<open>\<open>strtoimax (s, &endptr, 0)\<close>: the value, the rest of the string at \<open>endptr\<close>, and whether \<open>errno\<close> is ERANGE.\<close>

definition strtoimax0 :: "string \<Rightarrow> int \<times> string \<times> bool" where
  "strtoimax0 s =
     (let s1 = dropWhile isspace s;
          neg = (s1 \<noteq> [] \<and> hd s1 = CHR ''-'');
          s2 = (if s1 \<noteq> [] \<and> (hd s1 = CHR ''-'' \<or> hd s1 = CHR ''+'') then List.tl s1 else s1);
          hex = (take 2 s2 \<in> {''0x'', ''0X''} \<and> is_digit_in 16 (drop 2 s2));
          base = (if hex then 16 else if s2 \<noteq> [] \<and> hd s2 = CHR ''0'' then 8 else 10);
          s3 = (if hex then drop 2 s2 else s2)
      in if \<not> is_digit_in base s3 then (0, s, False)
         else case scan_digits base 0 s3 of (n, r) \<Rightarrow>
           let v = (if neg then - int n else int n) in
           if v > INTMAX_MAX then (INTMAX_MAX, r, True)
           else if v < INTMAX_MIN then (INTMAX_MIN, r, True)
           else (v, r, False))"

text \<open>The characters \<open>%d\<close> prints.\<close>

fun nat_digits :: "nat \<Rightarrow> string" where
  "nat_digits n = (if n < 10 then [char_of (48 + n)] else nat_digits (n div 10) @ [char_of (48 + n mod 10)])"

declare nat_digits.simps [simp del]

definition int_digits :: "int \<Rightarrow> string" where
  "int_digits i = (if i < 0 then CHR ''-'' # nat_digits (nat (- i)) else nat_digits (nat i))"

section \<open>\<open>strlcpy\<close> and \<open>strlcat\<close>\<close>

text \<open>The copying loop of \<open>strlcpy\<close>: the array, the position reached and the room left.\<close>

fun cpy_loop :: "nat \<Rightarrow> nat \<Rightarrow> string \<Rightarrow> string \<Rightarrow> (string \<times> nat \<times> nat) res" where
  "cpy_loop 0 i dst src = Inr (dst, i, 0)"
| "cpy_loop (Suc n) i dst src =
     bindE (put_char dst i (str_at src i)) (\<lambda>dst1.
       if str_at src i = NUL then Inr (dst1, i + 1, Suc n) else cpy_loop n (i + 1) dst1 src)"

definition strlcpy :: "string \<Rightarrow> string \<Rightarrow> nat \<Rightarrow> (nat \<times> string) res" where
  "strlcpy dst src siz =
     bindE (cpy_loop (siz - 1) 0 dst src) (\<lambda>(dst1, i, n).
       if n = 0 then
         bindE (if siz \<noteq> 0 then put_char dst1 i NUL else Inr dst1) (\<lambda>dst2.
           Inr (i + length (drop i src), dst2))
       else Inr (i - 1, dst1))"

text \<open>The first loop of \<open>strlcat\<close> looks for the end of the string in \<open>dst\<close>, the second one copies what fits.\<close>

fun end_loop :: "nat \<Rightarrow> nat \<Rightarrow> string \<Rightarrow> nat res" where
  "end_loop 0 i dst = Inr i"
| "end_loop (Suc n) i dst = bindE (get_char dst i) (\<lambda>c. if c \<noteq> NUL then end_loop n (i + 1) dst else Inr i)"

fun cat_loop :: "nat \<Rightarrow> nat \<Rightarrow> string \<Rightarrow> string \<Rightarrow> (string \<times> nat) res" where
  "cat_loop n d dst [] = Inr (dst, d)"
| "cat_loop n d dst (c # cs) =
     (if n \<noteq> 1 then bindE (put_char dst d c) (\<lambda>dst1. cat_loop (n - 1) (d + 1) dst1 cs)
      else cat_loop n d dst cs)"

definition strlcat :: "string \<Rightarrow> string \<Rightarrow> nat \<Rightarrow> (nat \<times> string) res" where
  "strlcat dst src siz =
     bindE (end_loop siz 0 dst) (\<lambda>dlen.
       let n = siz - dlen in
       if n = 0 then Inr (dlen + length src, dst)
       else bindE (cat_loop n dlen dst src) (\<lambda>(dst1, d).
              bindE (put_char dst1 d NUL) (\<lambda>dst2. Inr (dlen + length src, dst2))))"

section \<open>Nodes and state\<close>

datatype gp_conf_node =
  Conf_Node (cn_name: "string option") (cn_val: "string option") (cn_is_seq: int) (cn_final: int)
    (cn_head: "gp_conf_node list")

type_synonym path = "nat list"

record conf_state =
  conf_root :: "gp_conf_node option"
  conf_root_backup :: "gp_conf_node option"

primrec set_val :: "string option \<Rightarrow> gp_conf_node \<Rightarrow> gp_conf_node" where
  "set_val v (Conf_Node nm _ sq fin ch) = Conf_Node nm v sq fin ch"

primrec set_final :: "int \<Rightarrow> gp_conf_node \<Rightarrow> gp_conf_node" where
  "set_final f (Conf_Node nm v sq _ ch) = Conf_Node nm v sq f ch"

primrec set_head :: "gp_conf_node list \<Rightarrow> gp_conf_node \<Rightarrow> gp_conf_node" where
  "set_head ch (Conf_Node nm v sq fin _) = Conf_Node nm v sq fin ch"

text \<open>Reading and writing through a pointer.\<close>

fun node_at :: "gp_conf_node \<Rightarrow> path \<Rightarrow> gp_conf_node" where
  "node_at n [] = n"
| "node_at n (i # p) = node_at (cn_head n ! i) p"

fun update_at :: "path \<Rightarrow> (gp_conf_node \<Rightarrow> gp_conf_node) \<Rightarrow> gp_conf_node \<Rightarrow> gp_conf_node" where
  "update_at [] f n = f n"
| "update_at (i # p) f n = set_head ((cn_head n)[i := update_at p f (cn_head n ! i)]) n"

section \<open>Building and looking up\<close>

definition NODE_NAME_MAX :: nat where "NODE_NAME_MAX = 1024"

definition gp_conf_node_new :: gp_conf_node where
  "gp_conf_node_new = Conf_Node None None 0 0 []"

fun child_index :: "string \<Rightarrow> gp_conf_node list \<Rightarrow> nat option" where
  "child_index name [] = None"
| "child_index name (c # cs) = (if cn_name c = Some name then Some 0 else map_option Suc (child_index name cs))"

definition gp_conf_node_lookup_child :: "gp_conf_node option \<Rightarrow> string option \<Rightarrow> nat option" where
  "gp_conf_node_lookup_child node name =
     (case (node, name) of (Some n, Some s) \<Rightarrow> child_index s (cn_head n) | _ \<Rightarrow> None)"

text \<open>
  The dotted name is copied into a local array first; a name that does not fit is refused.
\<close>

definition copy_name :: "string \<Rightarrow> string option res" where
  "copy_name name =
     bindE (strlcpy (replicate NODE_NAME_MAX NUL) name NODE_NAME_MAX) (\<lambda>(n, node_name).
       Inr (if n \<ge> NODE_NAME_MAX then None else Some (c_string node_name)))"

lemma strchr_split_shorter: "strchr_split c s = (k, Some r) \<Longrightarrow> length r < length s"
proof -
  assume "strchr_split c s = (k, Some r)"
  then obtain x where "dropWhile (\<lambda>y. y \<noteq> c) s = x # r" by (auto simp: strchr_split_def split: list.splits)
  then show ?thesis using length_dropWhile_le [of "\<lambda>y. y \<noteq> c" s] by simp
qed

function get_node_loop :: "gp_conf_node option \<Rightarrow> path \<Rightarrow> string \<Rightarrow> path option" where
  "get_node_loop node p key =
     (case strchr_split CHR ''.'' key of (k, next) \<Rightarrow>
      case gp_conf_node_lookup_child node (Some k) of
        None \<Rightarrow> None
      | Some i \<Rightarrow>
          (case next of
             None \<Rightarrow> Some (p @ [i])
           | Some key1 \<Rightarrow> get_node_loop (map_option (\<lambda>n. cn_head n ! i) node) (p @ [i]) key1))"
  by auto
termination
  by (relation "measure (\<lambda>(_, _, key). length key)") (auto intro: strchr_split_shorter [OF sym])

function get_or_create_loop :: "int \<Rightarrow> gp_conf_node \<Rightarrow> string \<Rightarrow> path \<times> gp_conf_node" where
  "get_or_create_loop final parent key =
     (case strchr_split CHR ''.'' key of (k, next) \<Rightarrow>
      let (i, parent1) =
        (case gp_conf_node_lookup_child (Some parent) (Some k) of
           Some i \<Rightarrow> (i, parent)
         | None \<Rightarrow> (length (cn_head parent), set_head (cn_head parent @ [Conf_Node (Some k) None 0 final []]) parent))
      in case next of
           None \<Rightarrow> ([i], parent1)
         | Some key1 \<Rightarrow>
             (case get_or_create_loop final (cn_head parent1 ! i) key1 of (p, node) \<Rightarrow>
              (i # p, set_head ((cn_head parent1)[i := node]) parent1)))"
  by auto
termination
  by (relation "measure (\<lambda>(_, _, key). length key)") (auto intro: strchr_split_shorter [OF sym])

declare get_node_loop.simps [simp del] get_or_create_loop.simps [simp del]

text \<open>Without a root the first lookup fails and the new node is inserted through a NULL parent.\<close>

definition gp_conf_get_node_or_create :: "conf_state \<Rightarrow> string \<Rightarrow> int \<Rightarrow> (path option \<times> conf_state) res" where
  "gp_conf_get_node_or_create st name final =
     bindE (copy_name name) (\<lambda>node_name.
     case node_name of
       None \<Rightarrow> Inr (None, st)
     | Some key \<Rightarrow>
         (case conf_root st of
            None \<Rightarrow> Inl NullDeref
          | Some r \<Rightarrow> (case get_or_create_loop final r key of (p, r1) \<Rightarrow> Inr (Some p, st\<lparr>conf_root := Some r1\<rparr>))))"

definition gp_conf_init :: "conf_state \<Rightarrow> conf_state" where
  "gp_conf_init st = (if conf_root st \<noteq> None then st else st\<lparr>conf_root := Some gp_conf_node_new\<rparr>)"

text \<open>The nodes that are freed, in this order.\<close>

fun gp_conf_node_free :: "gp_conf_node \<Rightarrow> gp_conf_node list" where
  "gp_conf_node_free (Conf_Node nm v sq fin ch) = concat (map gp_conf_node_free ch) @ [Conf_Node nm v sq fin []]"

definition gp_conf_get_siblings_num :: "gp_conf_node \<Rightarrow> u32" where
  "gp_conf_get_siblings_num node = of_nat (length (cn_head node))"

definition gp_conf_get_node :: "conf_state \<Rightarrow> string \<Rightarrow> path option res" where
  "gp_conf_get_node st name =
     bindE (copy_name name) (\<lambda>node_name.
     Inr (case node_name of None \<Rightarrow> None | Some key \<Rightarrow> get_node_loop (conf_root st) [] key))"

text \<open>\<open>snprintf\<close> cuts the name off at the size of the array.\<close>

definition gp_conf_get_node_in_array :: "conf_state \<Rightarrow> string \<Rightarrow> int \<Rightarrow> string \<Rightarrow> path option res" where
  "gp_conf_get_node_in_array st head_name i name =
     (let tmp_name = take (NODE_NAME_MAX - 1) (head_name @ ''.'' @ int_digits i @ ''.'' @ name) in
      bindE (copy_name tmp_name) (\<lambda>node_name.
      Inr (case node_name of None \<Rightarrow> None | Some key \<Rightarrow> get_node_loop (conf_root st) [] key)))"

definition gp_conf_get_root_node :: "conf_state \<Rightarrow> gp_conf_node option" where
  "gp_conf_get_root_node st = conf_root st"

section \<open>Setting values\<close>

definition gp_conf_set :: "conf_state \<Rightarrow> string \<Rightarrow> string \<Rightarrow> (int \<times> conf_state) res" where
  "gp_conf_set st name val =
     bindE (gp_conf_get_node_or_create st name 0) (\<lambda>(node, st1).
     case (node, conf_root st1) of
       (Some p, Some r) \<Rightarrow>
         if cn_final (node_at r p) \<noteq> 0 then Inr (0, st1)
         else Inr (1, st1\<lparr>conf_root := Some (update_at p (set_val (Some val)) r)\<rparr>)
     | _ \<Rightarrow> Inr (0, st1))"

definition gp_conf_set_final :: "conf_state \<Rightarrow> string \<Rightarrow> string \<Rightarrow> (int \<times> conf_state) res" where
  "gp_conf_set_final st name val =
     bindE (gp_conf_get_node_or_create st name 1) (\<lambda>(node, st1).
     case (node, conf_root st1) of
       (Some p, Some r) \<Rightarrow>
         Inr (1, st1\<lparr>conf_root := Some (update_at p (set_final 1 \<circ> set_val (Some val)) r)\<rparr>)
     | _ \<Rightarrow> Inr (0, st1))"

text \<open>
  The loop that cuts the white space behind the name reads \<open>name[strlen (name) - 1]\<close>: with an empty
  name that is the character before the block.
\<close>

function trim_name :: "string \<Rightarrow> string res" where
  "trim_name name =
     (if name = [] then Inl OutOfBounds
      else if isspace (last name) then trim_name (butlast name)
      else Inr name)"
  by auto
termination
  by (relation "measure length") auto

declare trim_name.simps [simp del]

definition gp_conf_set_from_string :: "conf_state \<Rightarrow> string \<Rightarrow> int \<Rightarrow> (int \<times> conf_state) res" where
  "gp_conf_set_from_string st inp final =
     (case strchr_split CHR ''='' inp of
        (name, None) \<Rightarrow> Inr (0, st)
      | (name, Some val) \<Rightarrow>
          bindE (trim_name name) (\<lambda>name1.
          let val1 = dropWhile isspace val in
          if final \<noteq> 0 then gp_conf_set_final st name1 val1 else gp_conf_set st name1 val1))"

section \<open>Reading values\<close>

text \<open>
  The out-parameter \<open>vptr\<close> is passed in and returned, as it keeps its value when the result is 0.
\<close>

definition gp_conf_get :: "conf_state \<Rightarrow> string \<Rightarrow> string option \<Rightarrow> (int \<times> string option) res" where
  "gp_conf_get st name vptr =
     bindE (gp_conf_get_node st name) (\<lambda>node.
     case (node, conf_root st) of
       (Some p, Some r) \<Rightarrow> Inr (1, cn_val (node_at r p))
     | _ \<Rightarrow> Inr (0, vptr))"

definition gp_conf_get_value :: "conf_state \<Rightarrow> string option \<Rightarrow> string option \<Rightarrow> (int \<times> string option) res" where
  "gp_conf_get_value st name vptr =
     (case name of
        None \<Rightarrow> Inr (- 2, vptr)
      | Some name \<Rightarrow>
          bindE (gp_conf_get_node st name) (\<lambda>node.
          case (node, conf_root st) of
            (Some p, Some r) \<Rightarrow>
              (case cn_val (node_at r p) of None \<Rightarrow> Inr (- 1, vptr) | Some v \<Rightarrow> Inr (1, Some v))
          | _ \<Rightarrow> Inr (0, vptr)))"

definition gp_conf_get_child_value ::
  "gp_conf_node option \<Rightarrow> string option \<Rightarrow> string option \<Rightarrow> int \<times> string option" where
  "gp_conf_get_child_value base name vptr =
     (case (gp_conf_node_lookup_child base name, base) of
        (Some i, Some b) \<Rightarrow> (1, cn_val (cn_head b ! i))
      | _ \<Rightarrow> (0, vptr))"

definition gp_conf_get_child_with_default ::
  "gp_conf_node option \<Rightarrow> gp_conf_node option \<Rightarrow> string option \<Rightarrow> gp_conf_node option" where
  "gp_conf_get_child_with_default base dflt name =
     (case (gp_conf_node_lookup_child base name, base) of
        (Some i, Some b) \<Rightarrow> Some (cn_head b ! i)
      | _ \<Rightarrow> (case (gp_conf_node_lookup_child dflt name, dflt) of
               (Some i, Some d) \<Rightarrow> Some (cn_head d ! i)
             | _ \<Rightarrow> None))"

definition gp_conf_get_child_value_with_default ::
  "gp_conf_node option \<Rightarrow> gp_conf_node option \<Rightarrow> string option \<Rightarrow> string option \<Rightarrow> int \<times> string option" where
  "gp_conf_get_child_value_with_default base dflt name vptr =
     (case gp_conf_get_child_value base name vptr of (ret, v) \<Rightarrow>
      if ret = 0 \<and> dflt \<noteq> None then gp_conf_get_child_value dflt name v else (ret, v))"

text \<open>\<open>tmpint\<close> is an \<open>intmax_t\<close>; the assignment to the \<open>int\<close> keeps its lower 32 bits.\<close>

definition gp_conf_get_int :: "conf_state \<Rightarrow> string \<Rightarrow> u32 \<Rightarrow> (int \<times> u32) res" where
  "gp_conf_get_int st name val =
     bindE (gp_conf_get st name None) (\<lambda>(ret, strval).
     if ret = 0 then Inr (0, val)
     else case strval of
       None \<Rightarrow> Inr (0, val)
     | Some s \<Rightarrow>
         (case strtoimax0 s of (tmpint, endptr, erange) \<Rightarrow>
          if s = [] \<or> endptr \<noteq> [] then Inr (0, val)
          else if erange \<and> (tmpint = INTMAX_MAX \<or> tmpint = INTMAX_MIN) then Inr (0, val)
          else Inr (1, word_of_int tmpint)))"

definition gp_conf_get_child_value_int ::
  "gp_conf_node option \<Rightarrow> string option \<Rightarrow> int \<Rightarrow> (int \<times> int) res" where
  "gp_conf_get_child_value_int base name val =
     (case gp_conf_get_child_value base name None of (ret, strval) \<Rightarrow>
      if ret = 0 then Inr (0, val)
      else case strval of
        None \<Rightarrow> Inl NullDeref
      | Some s \<Rightarrow>
          (case strtoimax0 s of (tmpint, endptr, erange) \<Rightarrow>
           if s = [] \<or> endptr \<noteq> [] then Inr (0, val)
           else if erange \<and> (tmpint = INTMAX_MAX \<or> tmpint = INTMAX_MIN) then Inr (0, val)
           else Inr (1, tmpint)))"

definition gp_conf_get_child_value_int_with_default ::
  "gp_conf_node option \<Rightarrow> gp_conf_node option \<Rightarrow> string option \<Rightarrow> int \<Rightarrow> (int \<times> int) res" where
  "gp_conf_get_child_value_int_with_default base dflt name val =
     bindE (gp_conf_get_child_value_int base name val) (\<lambda>(ret, v).
     if ret = 0 \<and> dflt \<noteq> None then gp_conf_get_child_value_int dflt name v else Inr (ret, v))"

definition gp_conf_val_is_true :: "string \<Rightarrow> int" where
  "gp_conf_val_is_true val = (if list_ex (strcasecmp_eq val) [''1'', ''yes'', ''true'', ''on''] then 1 else 0)"

definition gp_conf_val_is_false :: "string \<Rightarrow> int" where
  "gp_conf_val_is_false val = (if list_ex (strcasecmp_eq val) [''0'', ''no'', ''false'', ''off''] then 1 else 0)"

definition gp_conf_get_bool :: "conf_state \<Rightarrow> string option \<Rightarrow> (int \<times> int) res" where
  "gp_conf_get_bool st name =
     bindE (gp_conf_get_value st name None) (\<lambda>(ret, strval).
     if ret \<noteq> 1 then Inr (0, 0)
     else case strval of None \<Rightarrow> Inl NullDeref | Some s \<Rightarrow> Inr (1, gp_conf_val_is_true s))"

definition gp_conf_get_child_value_bool :: "gp_conf_node option \<Rightarrow> string option \<Rightarrow> (int \<times> int) res" where
  "gp_conf_get_child_value_bool base name =
     (case gp_conf_get_child_value base name None of (ret, strval) \<Rightarrow>
      if ret = 0 then Inr (0, 0)
      else case strval of None \<Rightarrow> Inl NullDeref | Some s \<Rightarrow> Inr (1, gp_conf_val_is_true s))"

definition gp_conf_get_child_value_bool_with_default ::
  "gp_conf_node option \<Rightarrow> gp_conf_node option \<Rightarrow> string option \<Rightarrow> (int \<times> int) res" where
  "gp_conf_get_child_value_bool_with_default base dflt name =
     bindE (gp_conf_get_child_value_bool base name) (\<lambda>(ret, v).
     if ret = 0 \<and> dflt \<noteq> None then gp_conf_get_child_value_bool dflt name else Inr (ret, v))"

section \<open>Removing, saving and restoring\<close>

text \<open>The node leaves the list of its parent and is freed with all it holds.\<close>

fun remove_at :: "path \<Rightarrow> gp_conf_node \<Rightarrow> gp_conf_node" where
  "remove_at [] n = n"
| "remove_at [i] n = set_head (take i (cn_head n) @ drop (Suc i) (cn_head n)) n"
| "remove_at (i # j # p) n = set_head ((cn_head n)[i := remove_at (j # p) (cn_head n ! i)]) n"

definition gp_conf_node_remove :: "gp_conf_node \<Rightarrow> path \<Rightarrow> gp_conf_node list \<times> gp_conf_node" where
  "gp_conf_node_remove r p = (gp_conf_node_free (node_at r p), remove_at p r)"

definition gp_conf_remove :: "conf_state \<Rightarrow> string \<Rightarrow> (int \<times> gp_conf_node list \<times> conf_state) res" where
  "gp_conf_remove st name =
     bindE (gp_conf_get_node st name) (\<lambda>node.
     case (node, conf_root st) of
       (Some p, Some r) \<Rightarrow>
         (case gp_conf_node_remove r p of (freed, r1) \<Rightarrow> Inr (1, freed, st\<lparr>conf_root := Some r1\<rparr>))
     | _ \<Rightarrow> Inr (0, [], st))"

definition gp_conf_create_context_backup :: "conf_state \<Rightarrow> conf_state" where
  "gp_conf_create_context_backup st = st\<lparr>conf_root_backup := conf_root st, conf_root := None\<rparr>"

definition gp_conf_restore_context_backup :: "conf_state \<Rightarrow> conf_state" where
  "gp_conf_restore_context_backup st = st\<lparr>conf_root := conf_root_backup st, conf_root_backup := None\<rparr>"

definition gp_conf_deinit :: "conf_state \<Rightarrow> gp_conf_node list \<times> conf_state" where
  "gp_conf_deinit st =
     (case conf_root st of
        None \<Rightarrow> ([], st)
      | Some r \<Rightarrow> (gp_conf_node_free r, st\<lparr>conf_root := None\<rparr>))"

text \<open>
  Pruning drops the children that are not final and have no children left after being pruned
  themselves, and the value of the node.
\<close>

fun gp_conf_node_prune :: "gp_conf_node \<Rightarrow> gp_conf_node"
  and prune_items :: "gp_conf_node list \<Rightarrow> gp_conf_node list" where
  "gp_conf_node_prune (Conf_Node nm v sq fin ch) = Conf_Node nm None sq fin (prune_items ch)"
| "prune_items [] = []"
| "prune_items (item # it) =
     (if cn_final item = 0 then
        let item1 = gp_conf_node_prune item in
        if cn_head item1 = [] then prune_items it else item1 # prune_items it
      else item # prune_items it)"

section \<open>Dumping\<close>

text \<open>The static array \<open>name\<close> of 128 * 128 characters is filled anew by every call.\<close>

definition NAME_BUF :: nat where "NAME_BUF = 16384"

fun print_names :: "string list \<Rightarrow> string \<Rightarrow> string res" where
  "print_names [] buf = Inr buf"
| "print_names (nm # nms) buf =
     bindE (strlcat buf nm NAME_BUF) (\<lambda>(_, buf1).
     if nms \<noteq> [] then bindE (strlcat buf1 ''.'' NAME_BUF) (\<lambda>(_, buf2). print_names nms buf2)
     else print_names nms buf1)"

definition gp_conf_print_name_array :: "string list \<Rightarrow> nat \<Rightarrow> string res" where
  "gp_conf_print_name_array name_arr level =
     bindE (print_names (take (level + 1) name_arr) (replicate NAME_BUF NUL)) (\<lambda>buf. Inr (c_string buf))"

text \<open>
  \<open>name[level]\<close> has 128 places. A value that is NULL is printed as \<open>(null)\<close>. The result is the list of
  printed lines.
\<close>

definition dump_line :: "string option \<Rightarrow> string \<Rightarrow> string option \<Rightarrow> string" where
  "dump_line pfx name val =
     (case pfx of None \<Rightarrow> name | Some p \<Rightarrow> p @ ''.'' @ name) @ '' = '' @
     (case val of None \<Rightarrow> ''(null)'' | Some v \<Rightarrow> v) @ [CHR 0x0A]"

fun dump_node :: "string option \<Rightarrow> nat \<Rightarrow> string list \<Rightarrow> gp_conf_node \<Rightarrow> string list res"
  and dump_children :: "string option \<Rightarrow> nat \<Rightarrow> string list \<Rightarrow> gp_conf_node list \<Rightarrow> string list res" where
  "dump_node pfx level name (Conf_Node nm v sq fin ch) = dump_children pfx level name ch"
| "dump_children pfx level name [] = Inr []"
| "dump_children pfx level name (child # rest) =
     (case cn_name child of
        None \<Rightarrow> Inl NullDeref
      | Some nm \<Rightarrow>
          if level \<ge> 128 then Inl OutOfBounds
          else
            (let name1 = name[level := nm] in
             bindE (gp_conf_print_name_array name1 level) (\<lambda>full.
             bindE (dump_node pfx (level + 1) name1 child) (\<lambda>below.
             bindE (dump_children pfx level name1 rest) (\<lambda>others.
             Inr (dump_line pfx full (cn_val child) # below @ others))))))"

definition gp_conf_node_dump :: "gp_conf_node \<Rightarrow> string option \<Rightarrow> string list res" where
  "gp_conf_node_dump node pfx = dump_node pfx 0 (replicate 128 []) node"

definition gp_conf_dump :: "conf_state \<Rightarrow> string list res" where
  "gp_conf_dump st = (case conf_root st of None \<Rightarrow> Inl NullDeref | Some r \<Rightarrow> gp_conf_node_dump r None)"

section \<open>Queries on a node\<close>

definition gp_conf_node_has_children :: "gp_conf_node \<Rightarrow> int" where
  "gp_conf_node_has_children node = (if cn_head node = [] then 0 else 1)"

definition gp_conf_node_lookup_child_value :: "gp_conf_node option \<Rightarrow> string option \<Rightarrow> string option" where
  "gp_conf_node_lookup_child_value node name =
     (case (gp_conf_node_lookup_child node name, node) of
        (Some i, Some n) \<Rightarrow> cn_val (cn_head n ! i)
      | _ \<Rightarrow> None)"

text \<open>
  The value of the child is compared with the key up to its own length. A NULL that reaches
  \<open>strncmp\<close> or \<open>strcmp\<close> is an access through NULL.
\<close>

fun has_key_value :: "string \<Rightarrow> string \<Rightarrow> gp_conf_node list \<Rightarrow> bool res" where
  "has_key_value key value [] = Inr False"
| "has_key_value key value (s # ss) =
     (case cn_name s of
        None \<Rightarrow> Inl NullDeref
      | Some nm \<Rightarrow>
          if nm = key then
            (case cn_val s of
               None \<Rightarrow> Inl NullDeref
             | Some v \<Rightarrow> if v = value then Inr True else has_key_value key value ss)
          else has_key_value key value ss)"

fun lookup_key_value_loop :: "string \<Rightarrow> string \<Rightarrow> nat \<Rightarrow> gp_conf_node list \<Rightarrow> nat option res" where
  "lookup_key_value_loop key value i [] = Inr None"
| "lookup_key_value_loop key value i (c # cs) =
     (case cn_val c of
        None \<Rightarrow> Inl NullDeref
      | Some v \<Rightarrow>
          if take (length v) key = v then
            bindE (has_key_value key value (cn_head c)) (\<lambda>found.
            if found then Inr (Some i) else lookup_key_value_loop key value (Suc i) cs)
          else lookup_key_value_loop key value (Suc i) cs)"

definition gp_conf_node_lookup_key_value :: "gp_conf_node \<Rightarrow> string \<Rightarrow> string \<Rightarrow> nat option res" where
  "gp_conf_node_lookup_key_value base key value = lookup_key_value_loop key value 0 (cn_head base)"

definition gp_conf_node_child_value_is_true :: "gp_conf_node option \<Rightarrow> string option \<Rightarrow> int" where
  "gp_conf_node_child_value_is_true node key =
     (case gp_conf_node_lookup_child_value node key of None \<Rightarrow> 0 | Some v \<Rightarrow> gp_conf_val_is_true v)"

definition gp_conf_node_is_sequence :: "gp_conf_node \<Rightarrow> int" where
  "gp_conf_node_is_sequence node = (if cn_is_seq node = 0 then 0 else 1)"

text \<open>
  The path of an included file. An empty default path makes \<open>path[strlen (path) - 1]\<close> the character
  before the block.
\<close>

definition gp_conf_load_complete_include_path :: "conf_state \<Rightarrow> string \<Rightarrow> string res" where
  "gp_conf_load_complete_include_path st file =
     (if \<not> (length file > 1 \<and> str_at file 0 = CHR ''/'') then
        bindE (gp_conf_get st ''include-path'' None) (\<lambda>(ret, defaultpath).
        if ret = 1 then
          (case defaultpath of
             None \<Rightarrow> Inl NullDeref
           | Some dp \<Rightarrow>
               (let path_len = length dp + length file + 2 in
                bindE (strlcpy (replicate path_len NUL) dp path_len) (\<lambda>(_, path1).
                let len = length (c_string path1) in
                if len = 0 then Inl OutOfBounds
                else
                  bindE (if path1 ! (len - 1) \<noteq> CHR ''/'' then map_sum id snd (strlcat path1 ''/'' path_len)
                         else Inr path1) (\<lambda>path2.
                  bindE (strlcat path2 file path_len) (\<lambda>(_, path3). Inr (c_string path3))))))
        else Inr file)
      else Inr file)"

section \<open>The string functions\<close>

lemma c_string_append [simp]: "NUL \<notin> set s \<Longrightarrow> c_string (s @ NUL # m) = s"
  by (simp add: c_string_def takeWhile_append)

lemma take_Suc_update: "i < length m \<Longrightarrow> take (Suc i) (m[i := c]) = take i m @ [c]"
  by (simp add: upd_conv_take_nth_drop)

lemma cpy_loop_eq:
  assumes "NUL \<notin> set src" and "i \<le> length src" and "i + n \<le> length dst"
  shows "cpy_loop n i dst src =
    (if length src < i + n
     then Inr (take i dst @ drop i src @ NUL # drop (Suc (length src)) dst, Suc (length src), n - (length src - i))
     else Inr (take i dst @ take n (drop i src) @ drop (i + n) dst, i + n, 0))"
  using assms
proof (induction n arbitrary: i dst)
  case 0
  then show ?case by simp
next
  case (Suc n)
  show ?case
  proof (cases "i < length src")
    case True
    then have "src ! i \<noteq> NUL" using Suc.prems(1) nth_mem by metis
    moreover have "drop i src = src ! i # drop (Suc i) src" using True by (simp add: Cons_nth_drop_Suc)
    ultimately show ?thesis
      using True Suc.prems Suc.IH [of "Suc i" "dst[i := src ! i]"]
      by (simp add: put_char_def str_at_def take_Suc_update)
  next
    case False
    then show ?thesis using Suc.prems
      by (simp add: put_char_def str_at_def upd_conv_take_nth_drop)
  qed
qed

text \<open>
  \<open>strlcpy\<close> stores as much of the string as fits with its NUL, touches nothing behind it, and returns the
  length of the whole string.
\<close>

lemma strlcpy_eq:
  assumes "NUL \<notin> set src" and "siz \<le> length dst"
  shows "strlcpy dst src siz = Inr (length src,
    (if siz = 0 then dst else take (siz - 1) src @ NUL # drop (Suc (min (siz - 1) (length src))) dst))"
proof (cases "length src < siz - 1")
  case True
  then show ?thesis
    using cpy_loop_eq [OF assms(1), of 0 "siz - 1" dst] assms(2) by (auto simp: strlcpy_def)
next
  case False
  then show ?thesis
    using cpy_loop_eq [OF assms(1), of 0 "siz - 1" dst] assms(2)
    by (auto simp: strlcpy_def put_char_def upd_conv_take_nth_drop min_def not_less)
qed

lemma end_loop_eq:
  assumes "NUL \<notin> set s" and "dst = s @ NUL # m" and "i \<le> length s" and "length s < i + n"
  shows "end_loop n i dst = Inr (length s)"
  using assms
proof (induction n arbitrary: i)
  case 0
  then show ?case by simp
next
  case (Suc n)
  show ?case
  proof (cases "i < length s")
    case True
    then have "s ! i \<noteq> NUL" using assms(1) nth_mem by metis
    then show ?thesis using Suc True by (simp add: get_char_def nth_append)
  next
    case False
    then show ?thesis using Suc.prems by (simp add: get_char_def nth_append)
  qed
qed

lemma cat_loop_eq:
  assumes "d + n \<le> length dst" and "n > 0"
  shows "cat_loop n d dst src =
    Inr (take d dst @ take (n - 1) src @ drop (d + min (n - 1) (length src)) dst, d + min (n - 1) (length src))"
  using assms
proof (induction src arbitrary: n d dst)
  case Nil
  then show ?case by simp
next
  case (Cons c cs)
  show ?case
  proof (cases "n = 1")
    case True
    then show ?thesis using Cons.prems Cons.IH [of d 1 dst] by simp
  next
    case False
    then have "n = Suc (Suc (n - 2))" using Cons.prems(2) by simp
    then obtain k where "n = Suc (Suc k)" ..
    then show ?thesis using Cons.prems Cons.IH [of "Suc d" "n - 1" "dst[d := c]"]
      by (simp add: put_char_def take_Suc_update)
  qed
qed

text \<open>\<open>strlcat\<close> on an array that holds the string \<open>s\<close>.\<close>

lemma strlcat_eq:
  assumes "NUL \<notin> set s" and "length s < siz" and "siz \<le> length s + 1 + length m"
  shows "\<exists>m'. strlcat (s @ NUL # m) src siz =
      Inr (length s + length src, s @ take (siz - length s - 1) src @ NUL # m') \<and>
    length (s @ take (siz - length s - 1) src @ NUL # m') = length (s @ NUL # m)"
proof -
  define dst where "dst = s @ NUL # m"
  define k where "k = min (siz - length s - 1) (length src)"
  have len: "length dst = length s + 1 + length m" by (simp add: dst_def)
  have e: "end_loop siz 0 dst = Inr (length s)"
    by (rule end_loop_eq [OF assms(1) dst_def]) (use assms(2) in simp_all)
  have c: "cat_loop (siz - length s) (length s) dst src =
      Inr (s @ take (siz - length s - 1) src @ drop (length s + k) dst, length s + k)"
    using cat_loop_eq [of "length s" "siz - length s" dst src] assms(2,3) by (simp add: len k_def) (simp add: dst_def)
  have kk: "length (take (siz - length s - 1) src) = k" by (simp add: k_def min.commute)
  have "length s + k < length dst" using assms(2,3) by (simp add: len k_def)
  then obtain x m' where d: "drop (length s + k) dst = x # m'" and m': "length m' = length dst - (length s + k) - 1"
    by (metis Cons_nth_drop_Suc length_drop diff_diff_left Suc_eq_plus1)
  have "put_char (s @ take (siz - length s - 1) src @ x # m') (length s + k) NUL =
      Inr (s @ take (siz - length s - 1) src @ NUL # m')"
    unfolding kk [symmetric] by (simp add: put_char_def list_update_append)
  then have "strlcat dst src siz = Inr (length s + length src, s @ take (siz - length s - 1) src @ NUL # m')"
    using assms(2) by (simp add: strlcat_def e c d)
  moreover have "length (s @ take (siz - length s - 1) src @ NUL # m') = length dst"
    using kk m' \<open>length s + k < length dst\<close> by simp
  ultimately show ?thesis unfolding dst_def by blast
qed

lemma copy_name_eq:
  assumes "NUL \<notin> set name"
  shows "copy_name name = Inr (if length name < 1024 then Some name else None)"
  using strlcpy_eq [OF assms, of 1024 "replicate 1024 NUL"] assms
  by (auto simp: copy_name_def NODE_NAME_MAX_def)

end
