(* ===== verification/Gp_Conf_Correct.thy ===== *)
theory Gp_Conf_Correct
  imports Gp_Conf "HOL-Library.Sublist"
begin

text \<open>
  Correctness of the configuration store: the tree stands for a map from key paths to values and final
  flags, every operation acts on it as specified, the string functions stay inside their arrays, and
  pruning, dumping, number conversion and include paths do what they are meant to do.
\<close>

section \<open>The store as a map from key paths to values\<close>

text \<open>A dotted name is the path of its keys.\<close>

function split_dots :: "string \<Rightarrow> string list" where
  "split_dots key =
     (case strchr_split CHR ''.'' key of (k, next) \<Rightarrow>
      case next of None \<Rightarrow> [k] | Some key1 \<Rightarrow> k # split_dots key1)"
  by auto
termination
  by (relation "measure length") (auto intro: strchr_split_shorter [OF sym])

declare split_dots.simps [simp del]

lemma split_dots_cases:
  obtains (last) k where "strchr_split CHR ''.'' key = (k, None)" "split_dots key = [k]"
    | (more) k key1 where "strchr_split CHR ''.'' key = (k, Some key1)" "split_dots key = k # split_dots key1"
proof (cases "strchr_split CHR ''.'' key")
  case (Pair k nx)
  then show ?thesis using that by (cases nx) (auto simp: split_dots.simps [of key])
qed

lemma split_dots_not_Nil [simp]: "split_dots key \<noteq> []"
  by (cases rule: split_dots_cases [of key]) simp_all

text \<open>What the store says of a key path: the value and the flag \<open>final\<close> of the node, if there is one.\<close>

fun view :: "gp_conf_node \<Rightarrow> string list \<Rightarrow> (string option \<times> int) option" where
  "view n [] = Some (cn_val n, cn_final n)"
| "view n (k # ks) = (case child_index k (cn_head n) of None \<Rightarrow> None | Some i \<Rightarrow> view (cn_head n ! i) ks)"

fun find_path :: "gp_conf_node \<Rightarrow> string list \<Rightarrow> path option" where
  "find_path n [] = Some []"
| "find_path n (k # ks) =
     (case child_index k (cn_head n) of None \<Rightarrow> None | Some i \<Rightarrow> map_option (Cons i) (find_path (cn_head n ! i) ks))"

text \<open>Every node below the root has a name, and siblings have different names.\<close>

fun conf_wf :: "gp_conf_node \<Rightarrow> bool" where
  "conf_wf (Conf_Node nm v sq fin ch) \<longleftrightarrow>
     distinct (map cn_name ch) \<and> None \<notin> set (map cn_name ch) \<and> list_all conf_wf ch"

lemma conf_wf_iff:
  "conf_wf n \<longleftrightarrow> distinct (map cn_name (cn_head n)) \<and> None \<notin> set (map cn_name (cn_head n)) \<and>
     (\<forall>c \<in> set (cn_head n). conf_wf c)"
  by (cases n) (auto simp: list_all_iff)

lemma set_simps [simp]:
  "cn_head (set_head ch n) = ch" "cn_name (set_head ch n) = cn_name n" "cn_val (set_head ch n) = cn_val n"
  "cn_final (set_head ch n) = cn_final n" "cn_head (set_val v n) = cn_head n" "cn_name (set_val v n) = cn_name n"
  "cn_val (set_val v n) = v" "cn_final (set_val v n) = cn_final n" "cn_head (set_final f n) = cn_head n"
  "cn_name (set_final f n) = cn_name n" "cn_val (set_final f n) = cn_val n" "cn_final (set_final f n) = f"
  by (cases n; simp)+

lemma child_index_Some:
  "child_index k cs = Some i \<Longrightarrow> i < length cs \<and> cn_name (cs ! i) = Some k"
  by (induction cs arbitrary: i) (auto split: if_splits)

lemma child_index_None: "child_index k cs = None \<longleftrightarrow> Some k \<notin> cn_name ` set cs"
  by (induction cs) auto

lemma child_index_names: "map cn_name cs = map cn_name ds \<Longrightarrow> child_index k cs = child_index k ds"
proof (induction cs arbitrary: ds)
  case (Cons c cs)
  from Cons.prems Cons.IH [of "List.tl ds"] show ?case by (cases ds) simp_all
qed simp

lemma child_index_update [simp]:
  "cn_name c = cn_name (cs ! i) \<Longrightarrow> child_index k (cs[i := c]) = child_index k cs"
  by (rule child_index_names) (cases "i < length cs"; simp add: map_update list_update_same_conv list_update_beyond)

lemma child_index_snoc:
  "child_index k (cs @ [c]) =
    (case child_index k cs of Some i \<Rightarrow> Some i | None \<Rightarrow> if cn_name c = Some k then Some (length cs) else None)"
  by (induction cs) (auto split: option.splits)

lemma child_index_distinct:
  assumes "distinct (map cn_name cs)" and "i < length cs" and "cn_name (cs ! i) = Some k"
  shows "child_index k cs = Some i"
  using assms
proof (induction cs arbitrary: i)
  case (Cons c cs)
  then show ?case by (cases i) (auto simp: image_iff, metis nth_mem)
qed simp

lemma view_find_path: "view n ks = map_option (\<lambda>p. (cn_val (node_at n p), cn_final (node_at n p))) (find_path n ks)"
  by (induction n ks rule: view.induct) (auto split: option.splits simp: option.map_comp comp_def)

lemma find_path_None: "find_path n ks = None \<longleftrightarrow> view n ks = None"
  by (simp add: view_find_path)

text \<open>Replacing a child by one with the same name.\<close>

lemma view_set_child:
  assumes "child_index k (cn_head n) = Some i" and "cn_name c = cn_name (cn_head n ! i)"
  shows "view (set_head ((cn_head n)[i := c]) n) ks =
    (case ks of k' # ks' \<Rightarrow> if k' = k then view c ks' else view n ks | [] \<Rightarrow> view n ks)"
proof (cases ks)
  case (Cons k' ks')
  have "j \<noteq> i" if "k' \<noteq> k" "child_index k' (cn_head n) = Some j" for j
    using that assms(1) by (auto dest!: child_index_Some)
  then show ?thesis using Cons assms child_index_Some [OF assms(1)] by (auto split: option.splits)
qed simp

lemma get_node_loop_eq:
  "get_node_loop (Some n) p key = map_option (append p) (find_path n (split_dots key))"
proof (induction "length key" arbitrary: n p key rule: less_induct)
  case less
  show ?case
  proof (cases rule: split_dots_cases [of key])
    case (last k)
    then show ?thesis
      by (simp add: get_node_loop.simps [of "Some n"] gp_conf_node_lookup_child_def split: option.splits)
  next
    case (more k key1)
    from less [OF strchr_split_shorter [OF more(1)]] more show ?thesis
      by (cases "child_index k (cn_head n)"; cases "find_path (cn_head n ! the (child_index k (cn_head n))) (split_dots key1)";
          simp add: get_node_loop.simps [of "Some n"] gp_conf_node_lookup_child_def)
  qed
qed

text \<open>Looking a name up, creating what is missing: nodes appear for the missing prefixes of the name and for nothing else.\<close>

definition spec_create :: "int \<Rightarrow> string list \<Rightarrow> (string list \<Rightarrow> (string option \<times> int) option) \<Rightarrow>
    string list \<Rightarrow> (string option \<times> int) option" where
  "spec_create final ks m qs = (if m qs = None \<and> prefix qs ks then Some (None, final) else m qs)"

lemma view_new_child:
  assumes "child_index k (cn_head n) = None"
  shows "view (set_head (cn_head n @ [Conf_Node (Some k) None 0 final []]) n) ks =
    (if ks = [k] then Some (None, final) else view n ks)"
proof (cases ks)
  case (Cons k' ks')
  then show ?thesis using assms
    by (cases ks') (auto simp: child_index_snoc nth_append dest: child_index_Some split: option.splits)
qed simp

lemma conf_wf_new_child:
  assumes "conf_wf n" and "child_index k (cn_head n) = None"
  shows "conf_wf (set_head (cn_head n @ [Conf_Node (Some k) v sq final []]) n)"
proof -
  let ?n = "set_head (cn_head n @ [Conf_Node (Some k) v sq final []]) n"
  show ?thesis using assms unfolding conf_wf_iff [of ?n] conf_wf_iff [of n] by (auto simp: child_index_None)
qed

lemma conf_wf_set_child:
  assumes "conf_wf n" and "cn_name c = cn_name (cn_head n ! i)" and "conf_wf c"
  shows "conf_wf (set_head ((cn_head n)[i := c]) n)"
proof -
  let ?n = "set_head ((cn_head n)[i := c]) n"
  have "map cn_name ((cn_head n)[i := c]) = map cn_name (cn_head n)"
    using assms(2) by (cases "i < length (cn_head n)"; simp add: map_update list_update_same_conv list_update_beyond)
  moreover have "set ((cn_head n)[i := c]) \<subseteq> insert c (set (cn_head n))" by (rule set_update_subset_insert)
  ultimately show ?thesis using assms unfolding conf_wf_iff [of ?n] conf_wf_iff [of n] by auto
qed

lemma get_or_create_loop_correct:
  assumes "get_or_create_loop final n key = (p, n')"
  shows "find_path n' (split_dots key) = Some p \<and> view n' = spec_create final (split_dots key) (view n) \<and>
    cn_name n' = cn_name n \<and> (conf_wf n \<longrightarrow> conf_wf n')"
  using assms
proof (induction "length key" arbitrary: n p n' key rule: less_induct)
  case less
  note unfold = get_or_create_loop.simps [of final n] gp_conf_node_lookup_child_def
  define ins where "ins k = set_head (cn_head n @ [Conf_Node (Some k) None 0 final []]) n" for k
  have ins: "child_index k (cn_head (ins k)) = Some (length (cn_head n))"
    "view (ins k) ks = (if ks = [k] then Some (None, final) else view n ks)"
    "conf_wf n \<longrightarrow> conf_wf (ins k)" "cn_name (ins k) = cn_name n"
    if "child_index k (cn_head n) = None" for k ks
    using that view_new_child [OF that] conf_wf_new_child [OF _ that]
    by (simp_all add: ins_def child_index_snoc)
  obtain k nx where k: "split_dots key = k # List.tl (split_dots key)" "strchr_split CHR ''.'' key = (k, nx)"
    by (cases rule: split_dots_cases [of key]) auto
  define m where "m = (case child_index k (cn_head n) of None \<Rightarrow> ins k | Some _ \<Rightarrow> n)"
  define i where "i = (case child_index k (cn_head n) of None \<Rightarrow> length (cn_head n) | Some i \<Rightarrow> i)"
  have m: "child_index k (cn_head m) = Some i" "cn_name m = cn_name n" "conf_wf n \<longrightarrow> conf_wf m"
    by (cases "child_index k (cn_head n)"; simp add: m_def i_def ins)+
  have vm: "view m qs = (if view n qs = None \<and> qs = [k] then Some (None, final) else view n qs)" for qs
    by (cases "child_index k (cn_head n)") (auto simp: m_def ins(2))
  have loop: "get_or_create_loop final n key = (case nx of None \<Rightarrow> ([i], m)
    | Some key1 \<Rightarrow> (case get_or_create_loop final (cn_head m ! i) key1 of (p, node) \<Rightarrow>
        (i # p, set_head ((cn_head m)[i := node]) m)))"
    by (cases "child_index k (cn_head n)"; cases nx; simp add: unfold k(2) m_def i_def ins_def)
  show ?case
  proof (cases rule: split_dots_cases [of key])
    case (last k')
    have "view m = spec_create final [k] (view n)"
      by (rule ext) (auto simp: vm spec_create_def prefix_Cons)
    then show ?thesis using last less.prems loop m k by auto
  next
    case (more k' key1)
    then have k': "k' = k" using k(1) by simp
    obtain q c where rec: "get_or_create_loop final (cn_head m ! i) key1 = (q, c)" by fastforce
    with less.prems loop more k(2) have p: "p = i # q" "n' = set_head ((cn_head m)[i := c]) m" by auto
    note IH = less.hyps [OF strchr_split_shorter [OF more(1)] rec]
    have i: "i < length (cn_head m)" "cn_name (cn_head m ! i) = Some k" using child_index_Some [OF m(1)] by auto
    have "find_path n' (split_dots key) = Some p" using IH more k' p m(1) i by simp
    moreover have "view n' qs = spec_create final (split_dots key) (view n) qs" for qs
    proof (cases qs)
      case Nil
      then show ?thesis using p vm [of "[]"] by (simp add: spec_create_def)
    next
      case (Cons k1 ks)
      have "view (cn_head m ! i) ks = (if view n (k # ks) = None \<and> ks = [] then Some (None, final) else view n (k # ks))"
        using vm [of "k # ks"] m(1) by simp
      moreover have "view n' qs = (if k1 = k then view c ks else view m qs)"
        using view_set_child [OF m(1), of c qs] IH p(2) Cons by (simp del: view.simps)
      ultimately show ?thesis
        using Cons IH vm [of qs] more k' by (auto simp: spec_create_def simp del: view.simps(2))
    qed
    moreover have "conf_wf n \<longrightarrow> conf_wf n'"
      using m(3) IH i unfolding p(2)
      by (auto intro!: conf_wf_set_child simp: conf_wf_iff [of m])
    ultimately show ?thesis using p m by auto
  qed
qed

text \<open>Writing through a pointer to a node changes the view at its key path only.\<close>

lemma view_update_at:
  assumes "find_path n ks = Some p" and "\<And>x. cn_name (f x) = cn_name x" and "\<And>x. cn_head (f x) = cn_head x"
  shows "view (update_at p f n) qs =
      (if qs = ks then Some (cn_val (f (node_at n p)), cn_final (f (node_at n p))) else view n qs) \<and>
    cn_name (update_at p f n) = cn_name n \<and> (conf_wf n \<longrightarrow> conf_wf (update_at p f n))"
  using assms(1)
proof (induction ks arbitrary: n p qs)
  case Nil
  then have "p = []" by simp
  moreover have "view (f n) qs = (if qs = [] then Some (cn_val (f n), cn_final (f n)) else view n qs)"
    by (cases qs) (auto simp: assms(3) split: option.splits)
  ultimately show ?case using assms(2,3) conf_wf_iff [of "f n"] conf_wf_iff [of n] by simp
next
  case (Cons k ks)
  then obtain i q where i: "child_index k (cn_head n) = Some i" "find_path (cn_head n ! i) ks = Some q" "p = i # q"
    by (auto split: option.splits)
  define c where "c = update_at q f (cn_head n ! i)"
  note IH = Cons.IH [OF i(2), folded c_def]
  have c: "cn_name c = cn_name (cn_head n ! i)" "conf_wf (cn_head n ! i) \<longrightarrow> conf_wf c" using IH by blast+
  have "view (set_head ((cn_head n)[i := c]) n) qs =
      (if qs = k # ks then Some (cn_val (f (node_at n p)), cn_final (f (node_at n p))) else view n qs)"
  proof (cases qs)
    case (Cons k' ks')
    then show ?thesis using IH i(1,3) c(1) unfolding view_set_child [OF i(1) c(1)] by auto
  qed simp
  moreover have "conf_wf n \<longrightarrow> conf_wf (set_head ((cn_head n)[i := c]) n)"
    using c child_index_Some [OF i(1)] conf_wf_iff [of n] conf_wf_set_child [of n c i] by auto
  ultimately show ?case by (simp add: i(3) c_def [symmetric])
qed

text \<open>The lookup of a child as a search, for the removal of one.\<close>

lemma child_index_find: "find (\<lambda>c. cn_name c = Some k) cs = map_option ((!) cs) (child_index k cs)"
  by (induction cs) (auto simp: option.map_comp comp_def)

lemma view_find:
  "view n (k # ks) = Option.bind (find (\<lambda>c. cn_name c = Some k) (cn_head n)) (\<lambda>c. view c ks)"
  unfolding child_index_find by (cases "child_index k (cn_head n)") simp_all

lemma find_without:
  assumes "distinct (map cn_name (xs @ c # ys))" and "cn_name c = Some k"
  shows "find (\<lambda>d. cn_name d = Some k') (xs @ ys) =
    (if k' = k then None else find (\<lambda>d. cn_name d = Some k') (xs @ c # ys))"
proof (cases "k' = k")
  case True
  then show ?thesis using assms by (auto simp: find_None_iff image_iff)
next
  case False
  have "find P (xs @ c # ys) = find P (xs @ ys)" if "\<not> P c" for P using that by (induction xs) auto
  then show ?thesis using False assms(2) by auto
qed

lemma view_remove_at:
  assumes "find_path n ks = Some p" and "ks \<noteq> []" and "conf_wf n"
  shows "view (remove_at p n) qs = (if prefix ks qs then None else view n qs) \<and>
    cn_name (remove_at p n) = cn_name n \<and> conf_wf (remove_at p n)"
  using assms
proof (induction ks arbitrary: n p qs)
  case (Cons k ks)
  then obtain i q where i: "child_index k (cn_head n) = Some i" "find_path (cn_head n ! i) ks = Some q" "p = i # q"
    by (auto split: option.splits)
  have i': "i < length (cn_head n)" "cn_name (cn_head n ! i) = Some k" using child_index_Some [OF i(1)] by auto
  have wf: "distinct (map cn_name (cn_head n))" "conf_wf (cn_head n ! i)" "\<forall>c \<in> set (cn_head n). conf_wf c"
    "None \<notin> set (map cn_name (cn_head n))"
    using Cons.prems(3) i' conf_wf_iff [of n] by auto
  show ?case
  proof (cases ks)
    case Nil
    then have p: "p = [i]" using i by simp
    let ?xs = "take i (cn_head n)" and ?ys = "drop (Suc i) (cn_head n)"
    have cs: "cn_head n = ?xs @ cn_head n ! i # ?ys" using i'(1) by (rule id_take_nth_drop)
    have d: "distinct (map cn_name (?xs @ cn_head n ! i # ?ys))" "\<forall>c \<in> set (?xs @ cn_head n ! i # ?ys). conf_wf c"
      "None \<notin> set (map cn_name (?xs @ cn_head n ! i # ?ys))"
      using wf(1,3,4) cs by simp_all
    have f: "find (\<lambda>d. cn_name d = Some k') (?xs @ ?ys) =
        (if k' = k then None else find (\<lambda>d. cn_name d = Some k') (cn_head n))" for k'
      using find_without [OF d(1) i'(2)] cs by simp
    have "view (set_head (?xs @ ?ys) n) qs = (if prefix [k] qs then None else view n qs)"
    proof (cases qs)
      case (Cons k' ks')
      then show ?thesis using f [of k'] by (auto simp: view_find simp del: view.simps(2))
    qed simp
    moreover have "conf_wf (set_head (?xs @ ?ys) n)"
      using d unfolding conf_wf_iff [of "set_head (?xs @ ?ys) n"] by auto
    ultimately show ?thesis by (simp add: p Nil)
  next
    case Nil': (Cons k1 ks1)
    define c where "c = remove_at q (cn_head n ! i)"
    note IH = Cons.IH [OF i(2) _ wf(2), folded c_def]
    have c: "cn_name c = cn_name (cn_head n ! i)" "conf_wf c" using IH Nil' by blast+
    have q: "remove_at p n = set_head ((cn_head n)[i := c]) n"
      using i(2,3) Nil' by (cases q) (auto simp: c_def split: option.splits)
    have "view (remove_at p n) qs = (if prefix (k # ks) qs then None else view n qs)"
    proof (cases qs)
      case (Cons k' ks')
      then show ?thesis using IH [of ks'] Nil' i(1) unfolding q view_set_child [OF i(1) c(1)] by auto
    qed (simp add: q)
    then show ?thesis using conf_wf_set_child [OF Cons.prems(3) c] by (simp add: q)
  qed
qed simp

section \<open>Operations against the map\<close>

type_synonym conf_map = "string list \<Rightarrow> (string option \<times> int) option"

definition conf_inv :: "conf_state \<Rightarrow> bool" where
  "conf_inv st \<longleftrightarrow> (\<exists>r. conf_root st = Some r \<and> conf_wf r)"

definition conf_view :: "conf_state \<Rightarrow> conf_map" where
  "conf_view st = (case conf_root st of None \<Rightarrow> Map.empty | Some r \<Rightarrow> view r)"

definition name_fits :: "string \<Rightarrow> bool" where
  "name_fits name \<longleftrightarrow> length name < 1024"

definition spec_set :: "string \<Rightarrow> string \<Rightarrow> conf_map \<Rightarrow> int \<times> conf_map" where
  "spec_set name val m =
     (if \<not> name_fits name then (0, m)
      else let ks = split_dots name; m1 = spec_create 0 ks m in
        case m1 ks of
          Some (_, fin) \<Rightarrow> if fin \<noteq> 0 then (0, m1) else (1, m1(ks \<mapsto> (Some val, fin)))
        | None \<Rightarrow> (0, m1))"

definition spec_set_final :: "string \<Rightarrow> string \<Rightarrow> conf_map \<Rightarrow> int \<times> conf_map" where
  "spec_set_final name val m =
     (if \<not> name_fits name then (0, m)
      else let ks = split_dots name in (1, (spec_create 1 ks m)(ks \<mapsto> (Some val, 1))))"

definition spec_get :: "string \<Rightarrow> string option \<Rightarrow> conf_map \<Rightarrow> int \<times> string option" where
  "spec_get name vptr m =
     (if \<not> name_fits name then (0, vptr)
      else case m (split_dots name) of None \<Rightarrow> (0, vptr) | Some (v, _) \<Rightarrow> (1, v))"

definition spec_remove :: "string \<Rightarrow> conf_map \<Rightarrow> int \<times> conf_map" where
  "spec_remove name m =
     (if \<not> name_fits name \<or> m (split_dots name) = None then (0, m)
      else (1, \<lambda>qs. if prefix (split_dots name) qs then None else m qs))"

lemma get_or_create_correct:
  assumes "conf_inv st" and "NUL \<notin> set name"
  obtains (long) "\<not> name_fits name" "gp_conf_get_node_or_create st name final = Inr (None, st)"
    | (node) p st1 r1 where "name_fits name"
        "gp_conf_get_node_or_create st name final = Inr (Some p, st1)" "conf_root st1 = Some r1" "conf_wf r1"
        "find_path r1 (split_dots name) = Some p" "view r1 = spec_create final (split_dots name) (conf_view st)"
        "conf_root_backup st1 = conf_root_backup st"
proof (cases "name_fits name")
  case False
  then show ?thesis using long copy_name_eq [OF assms(2)] by (simp add: gp_conf_get_node_or_create_def name_fits_def)
next
  case True
  obtain r where r: "conf_root st = Some r" "conf_wf r" using assms(1) by (auto simp: conf_inv_def)
  obtain p r1 where l: "get_or_create_loop final r name = (p, r1)" by fastforce
  show ?thesis
    using node [OF True, of p "st\<lparr>conf_root := Some r1\<rparr>" r1] get_or_create_loop_correct [OF l] copy_name_eq [OF assms(2)] True r l
    by (simp add: gp_conf_get_node_or_create_def name_fits_def conf_view_def)
qed

lemma get_node_correct:
  assumes "conf_inv st" and "NUL \<notin> set name"
  shows "\<exists>r. conf_root st = Some r \<and> conf_wf r \<and>
    gp_conf_get_node st name = Inr (if name_fits name then find_path r (split_dots name) else None)"
proof -
  have "get_node_loop (Some r) [] name = find_path r (split_dots name)" for r
    unfolding get_node_loop_eq by (cases "find_path r (split_dots name)") simp_all
  then show ?thesis using assms copy_name_eq [OF assms(2)]
    by (auto simp: conf_inv_def gp_conf_get_node_def name_fits_def)
qed

lemma conf_set_correct:
  assumes "conf_inv st" and "NUL \<notin> set name"
  shows "\<exists>r st'. gp_conf_set st name val = Inr (r, st') \<and> conf_inv st' \<and> spec_set name val (conf_view st) = (r, conf_view st')"
proof (rule get_or_create_correct [OF assms, of 0], goal_cases long node)
  case long
  then show ?thesis using assms(1) by (simp add: gp_conf_set_def spec_set_def)
next
  case (node p st1 r1)
  have "view r1 (split_dots name) = Some (cn_val (node_at r1 p), cn_final (node_at r1 p))"
    using node(5) by (simp add: view_find_path)
  moreover have "view (update_at p (set_val (Some val)) r1) =
      (view r1)(split_dots name \<mapsto> (Some val, cn_final (node_at r1 p)))"
    "conf_wf (update_at p (set_val (Some val)) r1)"
    using view_update_at [OF node(5), of "set_val (Some val)"] node(4) by (auto simp: fun_eq_iff)
  ultimately show ?thesis using node
    by (auto simp: gp_conf_set_def spec_set_def conf_inv_def conf_view_def Let_def)
qed

lemma conf_set_final_correct:
  assumes "conf_inv st" and "NUL \<notin> set name"
  shows "\<exists>r st'. gp_conf_set_final st name val = Inr (r, st') \<and> conf_inv st' \<and>
    spec_set_final name val (conf_view st) = (r, conf_view st')"
proof (rule get_or_create_correct [OF assms, of 1], goal_cases long node)
  case long
  then show ?thesis using assms(1) by (simp add: gp_conf_set_final_def spec_set_final_def)
next
  case (node p st1 r1)
  let ?f = "set_final 1 \<circ> set_val (Some val)"
  have "view (update_at p ?f r1) = (view r1)(split_dots name \<mapsto> (Some val, 1))" "conf_wf (update_at p ?f r1)"
    using view_update_at [OF node(5), of ?f] node(4) by (auto simp: fun_eq_iff)
  then show ?thesis using node
    by (auto simp: gp_conf_set_final_def spec_set_final_def conf_inv_def conf_view_def Let_def)
qed

lemma conf_get_correct:
  assumes "conf_inv st" and "NUL \<notin> set name"
  shows "gp_conf_get st name vptr = Inr (spec_get name vptr (conf_view st))"
proof -
  obtain r where r: "conf_root st = Some r"
    "gp_conf_get_node st name = Inr (if name_fits name then find_path r (split_dots name) else None)"
    using get_node_correct [OF assms] by blast
  then show ?thesis
    by (cases "find_path r (split_dots name)") (auto simp: gp_conf_get_def spec_get_def conf_view_def view_find_path)
qed

lemma conf_remove_correct:
  assumes "conf_inv st" and "NUL \<notin> set name"
  shows "\<exists>r freed st'. gp_conf_remove st name = Inr (r, freed, st') \<and> conf_inv st' \<and>
    spec_remove name (conf_view st) = (r, conf_view st')"
proof -
  obtain r where r: "conf_root st = Some r" "conf_wf r"
    "gp_conf_get_node st name = Inr (if name_fits name then find_path r (split_dots name) else None)"
    using get_node_correct [OF assms] by blast
  show ?thesis
  proof (cases "name_fits name \<and> view r (split_dots name) \<noteq> None")
    case True
    then obtain p where p: "find_path r (split_dots name) = Some p"
      using find_path_None [of r "split_dots name"] by auto
    from view_remove_at [OF p split_dots_not_Nil r(2)] True r p show ?thesis
      by (auto simp: gp_conf_remove_def gp_conf_node_remove_def spec_remove_def conf_inv_def conf_view_def fun_eq_iff)
  next
    case False
    then show ?thesis using assms(1) r find_path_None [of r "split_dots name"]
      by (auto simp: gp_conf_remove_def spec_remove_def conf_view_def)
  qed
qed

section \<open>The interface of the store\<close>

text \<open>
  What the clients of the store (the YAML loader, the include paths) rely on: setting a value answers
  and changes the map as specified and keeps the invariant.
\<close>

locale config_store =
  fixes inv :: "'s \<Rightarrow> bool" and lookup :: "'s \<Rightarrow> conf_map"
    and set_value :: "'s \<Rightarrow> string \<Rightarrow> string \<Rightarrow> (int \<times> 's) res"
    and set_final_value :: "'s \<Rightarrow> string \<Rightarrow> string \<Rightarrow> (int \<times> 's) res"
  assumes set_law: "\<lbrakk>inv s; NUL \<notin> set name\<rbrakk> \<Longrightarrow>
      \<exists>r s'. set_value s name v = Inr (r, s') \<and> inv s' \<and> spec_set name v (lookup s) = (r, lookup s')"
    and set_final_law: "\<lbrakk>inv s; NUL \<notin> set name\<rbrakk> \<Longrightarrow>
      \<exists>r s'. set_final_value s name v = Inr (r, s') \<and> inv s' \<and> spec_set_final name v (lookup s) = (r, lookup s')"
begin

lemma set_keeps_final:
  assumes "inv s" and "NUL \<notin> set name" and "lookup s ks = Some (w, fin)" and "fin \<noteq> 0"
  shows "\<exists>r s'. set_value s name v = Inr (r, s') \<and> inv s' \<and> lookup s' ks = Some (w, fin)"
proof -
  obtain r s' where s': "set_value s name v = Inr (r, s')" "inv s'" "spec_set name v (lookup s) = (r, lookup s')"
    using set_law [OF assms(1,2)] by blast
  have "lookup s' ks = snd (spec_set name v (lookup s)) ks" using s'(3) by simp
  then have "lookup s' ks = Some (w, fin)"
    using assms(3,4) by (auto simp: spec_set_def spec_create_def Let_def split: option.splits)
  with s' show ?thesis by blast
qed

lemma set_final_keeps_other:
  assumes "inv s" and "NUL \<notin> set name" and "lookup s ks = Some x" and "split_dots name \<noteq> ks"
  shows "\<exists>r s'. set_final_value s name v = Inr (r, s') \<and> inv s' \<and> lookup s' ks = Some x"
proof -
  obtain r s' where s': "set_final_value s name v = Inr (r, s')" "inv s'" "spec_set_final name v (lookup s) = (r, lookup s')"
    using set_final_law [OF assms(1,2)] by blast
  have "lookup s' ks = snd (spec_set_final name v (lookup s)) ks" using s'(3) by simp
  then have "lookup s' ks = Some x"
    using assms(3,4) by (auto simp: spec_set_final_def spec_create_def Let_def)
  with s' show ?thesis by blast
qed

end

interpretation conf: config_store conf_inv conf_view gp_conf_set gp_conf_set_final
  by unfold_locales (blast intro: conf_set_correct conf_set_final_correct)+

datatype conf_op = Conf_Set string string | Conf_Set_Final string string | Conf_Remove string | Conf_Get string

fun exec_conf_op :: "conf_op \<Rightarrow> conf_state \<Rightarrow> ((int \<times> string option) \<times> conf_state) res" where
  "exec_conf_op (Conf_Set name v) st = bindE (gp_conf_set st name v) (\<lambda>(r, st1). Inr ((r, None), st1))"
| "exec_conf_op (Conf_Set_Final name v) st = bindE (gp_conf_set_final st name v) (\<lambda>(r, st1). Inr ((r, None), st1))"
| "exec_conf_op (Conf_Remove name) st = bindE (gp_conf_remove st name) (\<lambda>(r, _, st1). Inr ((r, None), st1))"
| "exec_conf_op (Conf_Get name) st = bindE (gp_conf_get st name None) (\<lambda>a. Inr (a, st))"

fun spec_conf_op :: "conf_op \<Rightarrow> conf_map \<Rightarrow> (int \<times> string option) \<times> conf_map" where
  "spec_conf_op (Conf_Set name v) m = (case spec_set name v m of (r, m1) \<Rightarrow> ((r, None), m1))"
| "spec_conf_op (Conf_Set_Final name v) m = (case spec_set_final name v m of (r, m1) \<Rightarrow> ((r, None), m1))"
| "spec_conf_op (Conf_Remove name) m = (case spec_remove name m of (r, m1) \<Rightarrow> ((r, None), m1))"
| "spec_conf_op (Conf_Get name) m = (spec_get name None m, m)"

fun exec_conf_ops :: "conf_op list \<Rightarrow> conf_state \<Rightarrow> ((int \<times> string option) list \<times> conf_state) res" where
  "exec_conf_ops [] st = Inr ([], st)"
| "exec_conf_ops (x # xs) st =
     bindE (exec_conf_op x st) (\<lambda>(a, st1). bindE (exec_conf_ops xs st1) (\<lambda>(as, st2). Inr (a # as, st2)))"

fun spec_conf_ops :: "conf_op list \<Rightarrow> conf_map \<Rightarrow> (int \<times> string option) list \<times> conf_map" where
  "spec_conf_ops [] m = ([], m)"
| "spec_conf_ops (x # xs) m =
     (case spec_conf_op x m of (a, m1) \<Rightarrow> case spec_conf_ops xs m1 of (as, m2) \<Rightarrow> (a # as, m2))"

fun op_name :: "conf_op \<Rightarrow> string" where
  "op_name (Conf_Set name v) = name"
| "op_name (Conf_Set_Final name v) = name"
| "op_name (Conf_Remove name) = name"
| "op_name (Conf_Get name) = name"

lemma conf_op_correct:
  assumes "conf_inv st" and "NUL \<notin> set (op_name x)"
  shows "\<exists>a st'. exec_conf_op x st = Inr (a, st') \<and> conf_inv st' \<and> spec_conf_op x (conf_view st) = (a, conf_view st')"
proof (cases x)
  case (Conf_Set name v)
  then show ?thesis using conf_set_correct [OF assms(1), of name v] assms(2) by fastforce
next
  case (Conf_Set_Final name v)
  then show ?thesis using conf_set_final_correct [OF assms(1), of name v] assms(2) by fastforce
next
  case (Conf_Remove name)
  then show ?thesis using conf_remove_correct [OF assms(1), of name] assms(2) by fastforce
next
  case (Conf_Get name)
  then show ?thesis using conf_get_correct [OF assms(1), of name None] assms by simp
qed

definition conf_empty :: conf_state where
  "conf_empty = \<lparr>conf_root = None, conf_root_backup = None\<rparr>"

lemma conf_inv_init: "conf_inv (gp_conf_init conf_empty)"
  by (simp add: conf_inv_def gp_conf_init_def conf_empty_def gp_conf_node_new_def)

text \<open>
  C24. Any sequence of \<open>gp_conf_set\<close>, \<open>gp_conf_set_final\<close>, \<open>gp_conf_remove\<close> and \<open>gp_conf_get\<close> on a configuration whose
  nodes have names, different among siblings, runs without an invalid access, gives the answers of a map from key
  paths to values and final flags, leaves a tree that stands for the resulting map, and keeps the
  names in order.
\<close>

theorem conf_ops_refine_map:
  assumes "conf_inv st" and "\<forall>x \<in> set ops. NUL \<notin> set (op_name x)"
  shows "\<exists>as st'. exec_conf_ops ops st = Inr (as, st') \<and> conf_inv st' \<and>
    spec_conf_ops ops (conf_view st) = (as, conf_view st')"
  using assms
proof (induction ops arbitrary: st)
  case (Cons x xs)
  obtain a st1 where x: "exec_conf_op x st = Inr (a, st1)" "conf_inv st1" "spec_conf_op x (conf_view st) = (a, conf_view st1)"
    using conf_op_correct [OF Cons.prems(1), of x] Cons.prems(2) by auto
  then show ?case using Cons.IH [OF x(2)] Cons.prems(2) by fastforce
qed simp

theorem conf_ops_refine_map_witness:
  "\<exists>as st'. exec_conf_ops [Conf_Set_Final ''a.b'' ''1'', Conf_Set ''a.b'' ''2'', Conf_Get ''a.b'', Conf_Remove ''a'', Conf_Get ''a.b'']
      (gp_conf_init conf_empty) = Inr (as, st') \<and> conf_inv st' \<and>
    as = [(1, None), (0, None), (1, Some ''1''), (1, None), (0, None)]"
proof -
  let ?ops = "[Conf_Set_Final ''a.b'' ''1'', Conf_Set ''a.b'' ''2'', Conf_Get ''a.b'', Conf_Remove ''a'', Conf_Get ''a.b'']"
  obtain as st' where r: "exec_conf_ops ?ops (gp_conf_init conf_empty) = Inr (as, st')" "conf_inv st'"
    "spec_conf_ops ?ops (conf_view (gp_conf_init conf_empty)) = (as, conf_view st')"
    using conf_ops_refine_map [OF conf_inv_init, of ?ops] by auto
  have dots: "split_dots ''a.b'' = [''a'', ''b'']" "split_dots ''a'' = [''a'']"
    by (simp_all add: split_dots.simps [of "''a.b''"] split_dots.simps [of "''b''"] split_dots.simps [of "''a''"] strchr_split_def)
  have "fst (spec_conf_ops ?ops (conf_view (gp_conf_init conf_empty))) =
      [(1, None), (0, None), (1, Some ''1''), (1, None), (0, None)]"
    by (simp add: dots Let_def spec_set_final_def spec_set_def spec_get_def spec_remove_def spec_create_def
        name_fits_def conf_view_def gp_conf_init_def conf_empty_def gp_conf_node_new_def)
  with r show ?thesis by auto
qed

text \<open>The calls that can replace or drop the value stored at a path whatever its final flag says.\<close>

fun overrides :: "string list \<Rightarrow> conf_op \<Rightarrow> bool" where
  "overrides ks (Conf_Set name v) \<longleftrightarrow> False"
| "overrides ks (Conf_Set_Final name v) \<longleftrightarrow> split_dots name = ks"
| "overrides ks (Conf_Remove name) \<longleftrightarrow> prefix (split_dots name) ks"
| "overrides ks (Conf_Get name) \<longleftrightarrow> False"

lemma conf_op_keeps_final:
  assumes "conf_inv st" and "NUL \<notin> set (op_name x)" and "\<not> overrides ks x"
    and "conf_view st ks = Some (w, fin)" and "fin \<noteq> 0"
  shows "\<exists>a st'. exec_conf_op x st = Inr (a, st') \<and> conf_inv st' \<and> conf_view st' ks = Some (w, fin)"
proof (cases x)
  case (Conf_Set name v)
  then show ?thesis using conf.set_keeps_final [OF assms(1) _ assms(4,5), of name v] assms(2) by fastforce
next
  case (Conf_Set_Final name v)
  then show ?thesis using conf.set_final_keeps_other [OF assms(1) _ assms(4), of name v] assms(2,3) by fastforce
next
  case (Conf_Remove name)
  obtain a st' where st': "exec_conf_op x st = Inr (a, st')" "conf_inv st'" "spec_conf_op x (conf_view st) = (a, conf_view st')"
    using conf_op_correct [OF assms(1,2)] by blast
  have "conf_view st' = snd (spec_remove name (conf_view st))" using st'(3) Conf_Remove by (auto split: prod.splits)
  then have "conf_view st' ks = Some (w, fin)" using assms(3,4) Conf_Remove by (simp add: spec_remove_def)
  with st' show ?thesis by blast
next
  case (Conf_Get name)
  then show ?thesis using conf_op_correct [OF assms(1,2)] assms(1,4) by (auto simp: conf_get_correct)
qed

lemma conf_ops_keep_final:
  assumes "conf_inv st" and "\<forall>x \<in> set ops. NUL \<notin> set (op_name x) \<and> \<not> overrides ks x"
    and "conf_view st ks = Some (w, fin)" and "fin \<noteq> 0"
  shows "\<exists>as st'. exec_conf_ops ops st = Inr (as, st') \<and> conf_inv st' \<and> conf_view st' ks = Some (w, fin)"
  using assms(1-3)
proof (induction ops arbitrary: st)
  case (Cons x xs)
  obtain a st1 where x: "exec_conf_op x st = Inr (a, st1)" "conf_inv st1" "conf_view st1 ks = Some (w, fin)"
    using conf_op_keeps_final [OF Cons.prems(1) _ _ Cons.prems(3) assms(4), of x] Cons.prems(2) by auto
  then show ?case using Cons.IH [OF x(2) _ x(3)] Cons.prems(2) by fastforce
qed simp

text \<open>
  C33. A value set with \<open>gp_conf_set_final\<close> survives every later \<open>gp_conf_set\<close>: after any sequence of
  \<open>gp_conf_set\<close>, \<open>gp_conf_set_final\<close>, \<open>gp_conf_remove\<close> and \<open>gp_conf_get\<close> calls, for this name or others,
  \<open>gp_conf_get\<close> still returns it, provided that none of them is another \<open>gp_conf_set_final\<close> of the same
  name, which replaces the value, or a \<open>gp_conf_remove\<close> of the name or of a node above it.
\<close>

theorem conf_final_value_survives:
  assumes "conf_inv st" and "NUL \<notin> set name" and "name_fits name"
    and "\<forall>x \<in> set ops. NUL \<notin> set (op_name x) \<and> \<not> overrides (split_dots name) x"
  shows "\<exists>st1 as st2. gp_conf_set_final st name val = Inr (1, st1) \<and> exec_conf_ops ops st1 = Inr (as, st2) \<and>
    gp_conf_get st2 name vptr = Inr (1, Some val)"
proof -
  obtain st1 where s1: "gp_conf_set_final st name val = Inr (1, st1)" "conf_inv st1"
    "conf_view st1 (split_dots name) = Some (Some val, 1)"
    using conf_set_final_correct [OF assms(1,2), of val] assms(3)
    by (auto simp: spec_set_final_def Let_def fun_eq_iff) (metis fun_upd_same)
  obtain as st2 where "exec_conf_ops ops st1 = Inr (as, st2)" "conf_inv st2" "conf_view st2 (split_dots name) = Some (Some val, 1)"
    using conf_ops_keep_final [OF s1(2) assms(4) s1(3)] by auto
  then show ?thesis using s1(1) conf_get_correct [of st2 name vptr] assms(2,3) by (simp add: spec_get_def)
qed

theorem conf_final_value_survives_witness:
  "\<exists>st1 as st2. gp_conf_set_final (gp_conf_init conf_empty) ''log.level'' ''info'' = Inr (1, st1) \<and>
    exec_conf_ops [Conf_Set ''log.level'' ''debug'', Conf_Set_Final ''log.file'' ''x'', Conf_Remove ''log.file''] st1 = Inr (as, st2) \<and>
    gp_conf_get st2 ''log.level'' None = Inr (1, Some ''info'')"
proof -
  have dots: "split_dots ''log.level'' = [''log'', ''level'']" "split_dots ''log.file'' = [''log'', ''file'']"
    by (simp_all add: split_dots.simps [of "''log.level''"] split_dots.simps [of "''log.file''"]
      split_dots.simps [of "''level''"] split_dots.simps [of "''file''"] strchr_split_def)
  show ?thesis by (rule conf_final_value_survives [OF conf_inv_init]) (simp_all add: name_fits_def dots)
qed

section \<open>Assignments, numbers and include paths\<close>

lemma trim_name_spaces:
  assumes "name \<noteq> []" and "\<not> isspace (last name)" and "\<forall>c \<in> set sp. isspace c"
  shows "trim_name (name @ sp) = Inr name"
  using assms(3)
proof (induction sp rule: rev_induct)
  case Nil
  then show ?case using assms(1,2) by (simp add: trim_name.simps)
next
  case (snoc c sp)
  then show ?case using trim_name.simps [of "(name @ sp) @ [c]"] by (simp add: butlast_append)
qed

lemma trim_name_only_spaces: "\<forall>c \<in> set sp. isspace c \<Longrightarrow> trim_name sp = Inl OutOfBounds"
proof (induction sp rule: rev_induct)
  case Nil
  then show ?case by (simp add: trim_name.simps)
next
  case (snoc c sp)
  then show ?case by (simp add: trim_name.simps [of "sp @ [c]"])
qed

lemma strchr_split_at: "c \<notin> set s \<Longrightarrow> strchr_split c (s @ c # r) = (s, Some r)"
  by (simp add: strchr_split_def takeWhile_append dropWhile_append)

text \<open>
  An assignment \<open>name = value\<close> handed to \<open>gp_conf_set_from_string\<close> sets the name without the white space
  behind it to the value without the white space before it, finally or not as asked; if there is
  nothing but white space before the \<open>=\<close>, the loop that cuts it off reads before the start of the string.
\<close>

lemma set_from_string_splits:
  assumes "\<forall>c \<in> set sp. isspace c" and "\<forall>c \<in> set sp'. isspace c" and "CHR ''='' \<notin> set (name @ sp)"
    and "val = [] \<or> \<not> isspace (hd val)" and "name = [] \<or> \<not> isspace (last name)"
  shows "gp_conf_set_from_string st (name @ sp @ ''='' @ sp' @ val) final =
    (if name = [] then Inl OutOfBounds
     else if final \<noteq> 0 then gp_conf_set_final st name val else gp_conf_set st name val)"
proof -
  have "strchr_split CHR ''='' ((name @ sp) @ CHR ''='' # sp' @ val) = (name @ sp, Some (sp' @ val))"
    by (rule strchr_split_at [OF assms(3)])
  moreover have "dropWhile isspace (sp' @ val) = val"
    using assms(2,4) by (induction sp') (cases val, auto)
  ultimately show ?thesis
    using trim_name_only_spaces [OF assms(1)] trim_name_spaces [OF _ _ assms(1), of name] assms(5)
    by (auto simp: gp_conf_set_from_string_def)
qed

text \<open>Printing and reading numbers.\<close>

lemma of_char_digit: "d < 10 \<Longrightarrow> (of_char (char_of (48 + d :: nat)) :: nat) = 48 + d"
  by (simp add: of_char_of)

lemma digit_val_char_of: "d < 10 \<Longrightarrow> digit_val (char_of (48 + d :: nat)) = Some d"
  by (simp add: digit_val_def of_char_digit)

lemma scan_digits_append:
  "snd (scan_digits base acc s) = [] \<Longrightarrow>
   scan_digits base acc (s @ r) = scan_digits base (fst (scan_digits base acc s)) r"
  by (induction base acc s rule: scan_digits.induct) (auto split: option.splits if_splits)

lemma scan_nat_digits: "scan_digits 10 acc (nat_digits n) = (acc * 10 ^ length (nat_digits n) + n, [])"
proof (induction n arbitrary: acc rule: nat_digits.induct)
  case (1 n)
  show ?case
  proof (cases "n < 10")
    case True
    then show ?thesis by (simp add: nat_digits.simps [of n] digit_val_char_of)
  next
    case False
    from 1 [OF False] have IH: "scan_digits 10 acc (nat_digits (n div 10)) = (acc * 10 ^ length (nat_digits (n div 10)) + n div 10, [])" .
    have n: "n div 10 * 10 + n mod 10 = n" by simp
    have "scan_digits 10 acc (nat_digits n) = (acc * 10 ^ length (nat_digits n) + (n div 10 * 10 + n mod 10), [])"
      using False IH scan_digits_append [of 10 acc "nat_digits (n div 10)" "[char_of (48 + n mod 10)]"]
      by (simp add: nat_digits.simps [of n] digit_val_char_of [of "n mod 10"] algebra_simps del: mod_div_mult_eq div_mult_mod_eq)
    then show ?thesis unfolding n .
  qed
qed

lemma nat_digits_hd:
  "\<exists>d cs. nat_digits n = char_of (48 + d :: nat) # cs \<and> d < 10 \<and> (d = 0 \<longrightarrow> n = 0 \<and> cs = [])"
proof (induction n rule: nat_digits.induct)
  case (1 n)
  show ?case
  proof (cases "n < 10")
    case False
    then have "n div 10 \<noteq> 0" by simp
    with 1 [OF False] obtain d cs where "nat_digits (n div 10) = char_of (48 + d :: nat) # cs" "d < 10" "d \<noteq> 0" by blast
    then show ?thesis using False by (intro exI [of _ d]) (simp add: nat_digits.simps [of n])
  next
    case True
    then show ?thesis by (intro exI [of _ n]) (simp add: nat_digits.simps [of n])
  qed
qed

lemma char_of_neq: "d < 10 \<Longrightarrow> (of_char c :: nat) < 48 \<or> 57 < (of_char c :: nat) \<Longrightarrow> char_of (48 + d :: nat) \<noteq> c"
  using of_char_digit [of d] by auto

lemma digit_not_space: "d < 10 \<Longrightarrow> \<not> isspace (char_of (48 + d :: nat))"
  using char_of_neq [of d] by (auto simp: isspace_def)

text \<open>What \<open>strtoimax\<close> reads in the characters \<open>%d\<close> prints.\<close>

lemma strtoimax0_nat_digits:
  "strtoimax0 (nat_digits n) = (if int n > INTMAX_MAX then (INTMAX_MAX, [], True) else (int n, [], False)) \<and>
   strtoimax0 (CHR ''-'' # nat_digits n) = (if - int n < INTMAX_MIN then (INTMAX_MIN, [], True) else (- int n, [], False))"
proof -
  obtain d cs where d: "nat_digits n = char_of (48 + d :: nat) # cs" "d < 10" "d = 0 \<longrightarrow> n = 0 \<and> cs = []"
    using nat_digits_hd by blast
  let ?c = "char_of (48 + d :: nat) :: char"
  have ne: "\<not> isspace ?c" "?c \<noteq> CHR ''-''" "?c \<noteq> CHR ''+''" "\<not> isspace CHR ''-''"
    using digit_not_space [OF d(2)] char_of_neq [OF d(2)] by (auto simp: isspace_def)
  have z: "CHR ''0'' = char_of (48 + 0 :: nat)" by code_simp
  have zero: "?c = CHR ''0'' \<longleftrightarrow> d = 0" using d(2) unfolding z by (auto simp: char_of_eq_iff take_bit_eq_mod)
  show ?thesis
  proof (cases "d = 0")
    case True
    then have "nat_digits n = ''0''" "n = 0" using d zero by auto
    moreover have "strtoimax0 ''0'' = (0, [], False)" "strtoimax0 ''-0'' = (0, [], False)" by code_simp+
    ultimately show ?thesis by (simp add: INTMAX_MAX_def INTMAX_MIN_def)
  next
    case False
    then have "\<not> take 2 (?c # cs) \<in> {''0x'', ''0X''}" using zero by (auto simp: numeral_2_eq_2)
    then show ?thesis
      using False ne zero d(2) scan_nat_digits [of 0 n] unfolding d(1)
      by (simp add: strtoimax0_def is_digit_in_def digit_val_char_of INTMAX_MAX_def INTMAX_MIN_def)
  qed
qed

lemma spec_set_stores: "spec_set name val m = (1, m') \<Longrightarrow> \<exists>f. m' (split_dots name) = Some (Some val, f)"
  by (auto simp: spec_set_def Let_def split: option.splits if_splits)

lemma conf_get_after_set:
  assumes "conf_inv st" and "NUL \<notin> set name" and "gp_conf_set st name val = Inr (1, st1)"
  shows "conf_inv st1 \<and> name_fits name \<and> gp_conf_get st1 name vptr = Inr (1, Some val)"
proof -
  have s: "conf_inv st1" "spec_set name val (conf_view st) = (1, conf_view st1)"
    using conf_set_correct [OF assms(1,2), of val] assms(3) by auto
  then have fits: "name_fits name" by (auto simp: spec_set_def split: if_splits)
  have "\<exists>f. conf_view st1 (split_dots name) = Some (Some val, f)" by (rule spec_set_stores [OF s(2)])
  then show ?thesis using s fits conf_get_correct [OF s(1) assms(2), of vptr] by (auto simp: spec_get_def)
qed

lemma sint_word_of_int32: "sint (word_of_int i :: u32) = signed_take_bit 31 i"
  by transfer simp

text \<open>
  A number stored as text is read back: whenever \<open>gp_conf_set\<close> has stored the decimal digits of a
  64 bit integer, \<open>gp_conf_get_int\<close> succeeds with its lower 32 bits. So the number itself comes back
  exactly when it fits an \<open>int\<close>; larger ones are not refused but cut off.
\<close>

lemma get_int_reads_back:
  assumes "conf_inv st" and "NUL \<notin> set name" and "gp_conf_set st name (int_digits i) = Inr (1, st1)"
    and "INTMAX_MIN \<le> i" and "i \<le> INTMAX_MAX"
  shows "gp_conf_get_int st1 name v = Inr (1, word_of_int i) \<and>
    (sint (word_of_int i :: u32) = i \<longleftrightarrow> - 2147483648 \<le> i \<and> i < 2147483648)"
proof -
  have "strtoimax0 (int_digits i) = (i, [], False)"
    using strtoimax0_nat_digits [of "nat i"] strtoimax0_nat_digits [of "nat (- i)"] assms(4,5)
    by (simp add: int_digits_def)
  moreover have "int_digits i \<noteq> []" using nat_digits_hd [of "nat i"] by (auto simp: int_digits_def)
  ultimately have "gp_conf_get_int st1 name v = Inr (1, word_of_int i)"
    using conf_get_after_set [OF assms(1-3)] by (simp add: gp_conf_get_int_def)
  moreover have "sint (word_of_int i :: u32) = i \<longleftrightarrow> - 2147483648 \<le> i \<and> i < 2147483648"
    using signed_take_bit_int_eq_self_iff [of 31 i] by (simp add: sint_word_of_int32)
  ultimately show ?thesis ..
qed

text \<open>
  The path of an included file: one that does not start with a slash is put behind the configured
  directory, with one slash between them, and nothing is written outside the block allocated for it.
  An empty directory makes the function read before the block.
\<close>

lemma include_path_joined:
  assumes "conf_inv st" and "conf_view st [''include-path''] = Some (Some dp, f)" and "NUL \<notin> set dp" and "NUL \<notin> set fname"
    and "fname = [] \<or> hd fname \<noteq> CHR ''/''"
  shows "gp_conf_load_complete_include_path st fname =
    (if dp = [] then Inl OutOfBounds else Inr (dp @ (if last dp = CHR ''/'' then [] else ''/'') @ fname))"
proof -
  let ?L = "length dp + length fname + 2"
  have dots: "split_dots ''include-path'' = [''include-path'']"
    by (simp add: split_dots.simps [of "''include-path''"] strchr_split_def)
  have g: "gp_conf_get st ''include-path'' None = Inr (1, Some dp)"
    using conf_get_correct [OF assms(1), of "''include-path''" None] assms(2) dots by (simp add: spec_get_def name_fits_def)
  have rel: "\<not> (length fname > 1 \<and> str_at fname 0 = CHR ''/'')"
    using assms(5) by (cases fname) (auto simp: str_at_def)
  obtain m where cp: "strlcpy (replicate ?L NUL) dp ?L = Inr (length dp, dp @ NUL # m)" and m: "length m = length fname + 1"
    using strlcpy_eq [OF assms(3), of ?L "replicate ?L NUL"] by simp
  show ?thesis
  proof (cases "dp = []")
    case True
    then show ?thesis using g rel cp assms(3) by (simp add: gp_conf_load_complete_include_path_def Let_def c_string_def)
  next
    case False
    define d2 where "d2 = dp @ (if last dp = CHR ''/'' then [] else ''/'')"
    have d2: "NUL \<notin> set d2" "length d2 \<le> length dp + 1" using assms(3) by (auto simp: d2_def)
    have "\<exists>m2. (if last dp \<noteq> CHR ''/'' then map_sum id snd (strlcat (dp @ NUL # m) ''/'' ?L) else Inr (dp @ NUL # m)) =
        Inr (d2 @ NUL # m2) \<and> length (d2 @ NUL # m2) = ?L"
      using strlcat_eq [OF assms(3), of ?L m "''/''"] m by (auto simp: d2_def)
    then obtain m2 where m2: "(if last dp \<noteq> CHR ''/'' then map_sum id snd (strlcat (dp @ NUL # m) ''/'' ?L) else Inr (dp @ NUL # m)) =
        Inr (d2 @ NUL # m2)" "length (d2 @ NUL # m2) = ?L" by blast
    obtain m3 where m3: "strlcat (d2 @ NUL # m2) fname ?L = Inr (length d2 + length fname, d2 @ fname @ NUL # m3)"
      using strlcat_eq [OF d2(1), of ?L m2 fname] m2(2) d2(2) by auto
    have "c_string (d2 @ fname @ NUL # m3) = d2 @ fname"
      using c_string_append [of "d2 @ fname" m3] d2(1) assms(4) by simp
    moreover have "(dp @ NUL # m) ! (length dp - 1) = last dp" using False by (simp add: nth_append last_conv_nth)
    ultimately show ?thesis
      using False g rel cp m2(1) m3 assms(3) 
      by (simp add: gp_conf_load_complete_include_path_def Let_def) (cases "last dp = CHR ''/''"; simp add: d2_def)
  qed
qed

section \<open>Pruning\<close>

definition is_final :: "gp_conf_node \<Rightarrow> string list \<Rightarrow> bool" where
  "is_final n ks \<longleftrightarrow> (\<exists>v f. view n ks = Some (v, f) \<and> f \<noteq> 0)"

definition pruned :: "gp_conf_node \<Rightarrow> gp_conf_node option" where
  "pruned c = (if cn_final c \<noteq> 0 then Some c
     else if cn_head (gp_conf_node_prune c) = [] then None else Some (gp_conf_node_prune c))"

lemma prune_items_eq: "prune_items ch = List.map_filter pruned ch"
  by (induction ch) (auto simp: pruned_def Let_def List.map_filter_simps)

lemma prune_simps [simp]:
  "cn_head (gp_conf_node_prune n) = prune_items (cn_head n)" "cn_name (gp_conf_node_prune n) = cn_name n"
  "cn_val (gp_conf_node_prune n) = None" "cn_final (gp_conf_node_prune n) = cn_final n"
  by (cases n; simp)+

lemma pruned_name: "pruned c = Some d \<Longrightarrow> cn_name d = cn_name c"
  by (auto simp: pruned_def split: if_splits)

lemma find_prune_items:
  assumes "distinct (map cn_name ch)"
  shows "find (\<lambda>c. cn_name c = Some k) (prune_items ch) = Option.bind (find (\<lambda>c. cn_name c = Some k) ch) pruned"
  using assms
proof (induction ch)
  case (Cons c ch)
  have "find (\<lambda>c. cn_name c = Some k) ch = None" if "cn_name c = Some k"
    using Cons.prems that by (auto simp: find_None_iff image_iff)
  then show ?case using Cons pruned_name [of c]
    by (cases "pruned c") (auto simp: prune_items_eq List.map_filter_simps)
qed (simp add: prune_items_eq)

lemma is_final_Cons: "is_final n (k # ks) \<longleftrightarrow> (\<exists>c. find (\<lambda>c. cn_name c = Some k) (cn_head n) = Some c \<and> is_final c ks)"
  unfolding is_final_def view_find by (auto simp: bind_eq_Some_conv)

lemma find_wf:
  assumes "conf_wf n" and "c \<in> set (cn_head n)"
  obtains k where "find (\<lambda>c. cn_name c = Some k) (cn_head n) = Some c"
proof -
  obtain k where k: "cn_name c = Some k" using assms unfolding conf_wf_iff [of n] by (metis image_eqI list.set_map not_None_eq)
  obtain i where i: "i < length (cn_head n)" "cn_head n ! i = c" using assms(2) by (auto simp: in_set_conv_nth)
  have "distinct (map cn_name (cn_head n))" using assms(1) conf_wf_iff [of n] by blast
  from child_index_distinct [OF this i(1)] k i(2)
  have "child_index k (cn_head n) = Some i" by simp
  then show ?thesis using that child_index_find [of k "cn_head n"] i by auto
qed

lemma prune_empty_iff:
  "conf_wf n \<Longrightarrow> prune_items (cn_head n) = [] \<longleftrightarrow> (\<forall>ks. ks \<noteq> [] \<longrightarrow> \<not> is_final n ks)"
proof (induction n)
  case (Conf_Node nm v sq fin ch)
  let ?n = "Conf_Node nm v sq fin ch"
  have wf: "conf_wf c" if "c \<in> set ch" for c using Conf_Node.prems that by (auto simp: list_all_iff)
  have IH: "pruned c = None \<longleftrightarrow> cn_final c = 0 \<and> (\<forall>ks. ks \<noteq> [] \<longrightarrow> \<not> is_final c ks)" if "c \<in> set ch" for c
    using Conf_Node.IH [OF that wf [OF that]] by (auto simp: pruned_def)
  have all: "pruned c = None \<longleftrightarrow> (\<forall>ks. \<not> is_final c ks)" if "c \<in> set ch" for c
    unfolding IH [OF that] by (metis is_final_def option.inject prod.inject view.simps(1))
  have "prune_items ch = [] \<longleftrightarrow> (\<forall>c \<in> set ch. pruned c = None)"
    by (induction ch) (auto simp: prune_items_eq List.map_filter_simps split: option.splits)
  also have "\<dots> \<longleftrightarrow> (\<forall>c \<in> set ch. \<forall>ks. \<not> is_final c ks)" using all by blast
  also have "\<dots> \<longleftrightarrow> (\<forall>k ks. \<not> is_final ?n (k # ks))"
  proof (intro iffI allI ballI)
    fix k ks assume "\<forall>c \<in> set ch. \<forall>ks. \<not> is_final c ks"
    then show "\<not> is_final ?n (k # ks)" unfolding is_final_Cons by (auto simp: find_Some_iff)
  next
    fix c ks assume no: "\<forall>k ks. \<not> is_final ?n (k # ks)" and c: "c \<in> set ch"
    then obtain k where "find (\<lambda>c. cn_name c = Some k) (cn_head ?n) = Some c"
      using find_wf [OF Conf_Node.prems, of c] by auto
    then show "\<not> is_final c ks" using no unfolding is_final_Cons by blast
  qed
  finally show ?case by (auto simp: neq_Nil_conv)
qed

lemma prune_view:
  assumes "conf_wf n"
  shows "view (gp_conf_node_prune n) ks =
    (if ks = [] then Some (None, cn_final n)
     else if \<exists>qs. qs \<noteq> [] \<and> prefix qs ks \<and> is_final n qs then view n ks
     else if \<exists>rs. rs \<noteq> [] \<and> is_final n (ks @ rs) then Some (None, 0)
     else None)"
  using assms
proof (induction ks arbitrary: n)
  case (Cons k ks)
  have d: "distinct (map cn_name (cn_head n))" using Cons.prems conf_wf_iff [of n] by blast
  show ?case
  proof (cases "find (\<lambda>c. cn_name c = Some k) (cn_head n)")
    case None
    then have "view n (k # qs) = None" "\<not> is_final n (k # qs)" for qs by (simp_all add: view_find is_final_Cons del: view.simps)
    moreover have "view (gp_conf_node_prune n) (k # ks) = None"
      using None by (simp add: view_find find_prune_items [OF d] del: view.simps)
    ultimately show ?thesis by simp
  next
    case (Some c)
    then have c: "c \<in> set (cn_head n)" by (auto simp: find_Some_iff)
    then have wf: "conf_wf c" using Cons.prems conf_wf_iff [of n] by blast
    have fin: "is_final n (k # qs) \<longleftrightarrow> is_final c qs" for qs using Some by (simp add: is_final_Cons)
    have fin0: "is_final c [] \<longleftrightarrow> cn_final c \<noteq> 0" by (simp add: is_final_def)
    have vn: "view n (k # ks) = view c ks" using Some by (simp add: view_find del: view.simps)
    have vp: "view (gp_conf_node_prune n) (k # ks) = Option.bind (pruned c) (\<lambda>c. view c ks)"
      using Some by (simp add: view_find find_prune_items [OF d] del: view.simps)
    have pre: "(\<exists>qs. qs \<noteq> [] \<and> prefix qs (k # ks) \<and> is_final n qs) \<longleftrightarrow> (\<exists>qs. prefix qs ks \<and> is_final c qs)"
      by (auto simp: prefix_Cons fin)
    show ?thesis
    proof (cases "cn_final c = 0")
      case False
      then have "\<exists>qs. prefix qs ks \<and> is_final c qs" using fin0 by (intro exI [of _ "[]"]) simp
      then show ?thesis using False vn vp pre by (simp add: pruned_def)
    next
      case True
      have pre': "(\<exists>qs. prefix qs ks \<and> is_final c qs) \<longleftrightarrow> (\<exists>qs. qs \<noteq> [] \<and> prefix qs ks \<and> is_final c qs)"
        using True fin0 by metis
      show ?thesis
      proof (cases "prune_items (cn_head c) = []")
        case e: True
        then have "\<not> is_final c rs" if "rs \<noteq> []" for rs using prune_empty_iff [OF wf] that by blast
        then show ?thesis using True e vp pre pre' fin by (auto simp: pruned_def)
      next
        case False
        then have "\<exists>rs. rs \<noteq> [] \<and> is_final c rs" using prune_empty_iff [OF wf] by blast
        then have "view (gp_conf_node_prune c) ks =
            (if \<exists>qs. qs \<noteq> [] \<and> prefix qs ks \<and> is_final c qs then view c ks
             else if \<exists>rs. rs \<noteq> [] \<and> is_final c (ks @ rs) then Some (None, 0) else None)"
          using True Cons.IH [OF wf] by (cases ks) simp_all
        moreover have "view (gp_conf_node_prune n) (k # ks) = view (gp_conf_node_prune c) ks"
          using False True vp by (simp add: pruned_def)
        ultimately show ?thesis unfolding pre pre' append_Cons fin vn by (simp only: list.distinct if_False)
      qed
    qed
  qed
qed simp

text \<open>
  C34. \<open>gp_conf_node_prune\<close> keeps exactly what the configuration marks as final: a final node stays with
  everything below it, a node above a final one stays without its value, and every other node goes.
\<close>

theorem prune_keeps_final_only:
  assumes "conf_wf n"
  shows "view (gp_conf_node_prune n) ks =
    (if ks = [] then Some (None, cn_final n)
     else if \<exists>qs. qs \<noteq> [] \<and> prefix qs ks \<and> is_final n qs then view n ks
     else if \<exists>rs. rs \<noteq> [] \<and> is_final n (ks @ rs) then Some (None, 0)
     else None)"
  by (rule prune_view [OF assms])

theorem prune_keeps_final_only_witness:
  "view (gp_conf_node_prune (Conf_Node None None 0 0
      [Conf_Node (Some ''a'') (Some ''1'') 0 0 [Conf_Node (Some ''b'') (Some ''2'') 0 1 []], Conf_Node (Some ''c'') (Some ''3'') 0 0 []]))
     [''a''] = Some (None, 0)"
proof -
  let ?n = "Conf_Node None None 0 0
      [Conf_Node (Some ''a'') (Some ''1'') 0 0 [Conf_Node (Some ''b'') (Some ''2'') 0 1 []], Conf_Node (Some ''c'') (Some ''3'') 0 0 []]"
  have "is_final ?n ([''a''] @ [''b''])" "\<not> is_final ?n [''a'']" by (simp_all add: is_final_def)
  moreover have "\<not> (\<exists>qs. qs \<noteq> [] \<and> prefix qs [''a''] \<and> is_final ?n qs)" by (auto simp: prefix_Cons is_final_def)
  ultimately show ?thesis using prune_keeps_final_only [of ?n "[''a'']"] by auto
qed

section \<open>Dumping\<close>

fun join_dots :: "string list \<Rightarrow> string" where
  "join_dots [] = []"
| "join_dots [k] = k"
| "join_dots (k # k' # ks) = k @ CHR ''.'' # join_dots (k' # ks)"

text \<open>All the nodes below a node, each with its key path and value, in the order of a depth-first walk.\<close>

fun listing :: "string list \<Rightarrow> gp_conf_node \<Rightarrow> (string list \<times> string option) list" where
  "listing p (Conf_Node nm v sq fin ch) =
     concat (map (\<lambda>c. (p @ [the (cn_name c)], cn_val c) # listing (p @ [the (cn_name c)]) c) ch)"

definition printable :: "string list \<Rightarrow> bool" where
  "printable ks \<longleftrightarrow> length ks \<le> 128 \<and> length (join_dots ks) < NAME_BUF \<and> NUL \<notin> set (join_dots ks)"

lemma print_names_eq:
  assumes "NUL \<notin> set s" and "NUL \<notin> set (join_dots ks)" and "length s + length (join_dots ks) < NAME_BUF"
    and "length (s @ NUL # m) = NAME_BUF"
  shows "\<exists>m'. print_names ks (s @ NUL # m) = Inr (s @ join_dots ks @ NUL # m')"
  using assms
proof (induction ks arbitrary: s m rule: join_dots.induct)
  case (2 k)
  then show ?case using strlcat_eq [OF 2(1), of NAME_BUF m k] by auto
next
  case (3 k k' ks)
  let ?j = "join_dots (k' # ks)"
  obtain m1 where m1: "strlcat (s @ NUL # m) k NAME_BUF = Inr (length s + length k, (s @ k) @ NUL # m1)"
    "length ((s @ k) @ NUL # m1) = NAME_BUF"
    using strlcat_eq [OF 3(2), of NAME_BUF m k] 3(4,5) by auto
  have sk: "NUL \<notin> set (s @ k)" "length (s @ k) + 1 < NAME_BUF" using 3 by auto
  obtain m2 where m2: "strlcat ((s @ k) @ NUL # m1) ''.'' NAME_BUF = Inr (length (s @ k) + 1, (s @ k @ ''.'') @ NUL # m2)"
    "length ((s @ k @ ''.'') @ NUL # m2) = NAME_BUF"
    using strlcat_eq [OF sk(1), of NAME_BUF m1 "''.''"] sk(2) m1(2) by auto
  have "\<exists>m'. print_names (k' # ks) ((s @ k @ ''.'') @ NUL # m2) = Inr ((s @ k @ ''.'') @ ?j @ NUL # m')"
    by (rule 3(1)) (use 3 m2(2) in auto)
  then show ?case using m1(1) m2(1) by auto
qed auto

lemma print_name_array_eq:
  assumes "printable ks" and "take (level + 1) name = ks"
  shows "gp_conf_print_name_array name level = Inr (join_dots ks)"
proof -
  have "replicate NAME_BUF NUL = [] @ NUL # replicate (NAME_BUF - 1) NUL" by (simp add: NAME_BUF_def flip: replicate_Suc)
  then obtain m' where "print_names ks (replicate NAME_BUF NUL) = Inr (join_dots ks @ NUL # m')"
    using print_names_eq [of "[]" ks "replicate (NAME_BUF - 1) NUL"] assms(1) by (auto simp: printable_def NAME_BUF_def)
  then show ?thesis using assms by (simp add: gp_conf_print_name_array_def printable_def)
qed

lemma dump_node_eq:
  assumes "conf_wf n" and "\<forall>(q, v) \<in> set (listing p n). printable q" and "take level name = p" and "level = length p"
    and "length name = 128"
  shows "dump_node pfx level name n = Inr (map (\<lambda>(q, v). dump_line pfx (join_dots q) v) (listing p n))"
  using assms
proof (induction n arbitrary: p level name)
  case (Conf_Node nm v sq fin ch)
  have "dump_children pfx level name cs = Inr (map (\<lambda>(q, v). dump_line pfx (join_dots q) v)
      (concat (map (\<lambda>c. (p @ [the (cn_name c)], cn_val c) # listing (p @ [the (cn_name c)]) c) cs)))"
    if "set cs \<subseteq> set ch" "take level name = p" "length name = 128" for cs name
    using that
  proof (induction cs arbitrary: name)
    case (Cons c cs)
    have c: "c \<in> set ch" using Cons.prems by simp
    have wf: "conf_wf c" "None \<noteq> cn_name c" using Conf_Node.prems(1) c by (auto simp: list_all_iff)
    then obtain k where k: "cn_name c = Some k" by (cases "cn_name c") simp_all
    have "set ((p @ [k], cn_val c) # listing (p @ [k]) c) \<subseteq> set (listing p (Conf_Node nm v sq fin ch))"
      using c k by force
    then have pr: "printable (p @ [k])" "\<forall>(q, v) \<in> set (listing (p @ [k]) c). printable q"
      using Conf_Node.prems(2) by fastforce+
    have lv: "level < 128" using pr(1) Conf_Node.prems(4) by (simp add: printable_def)
    have t: "take (level + 1) (name[level := k]) = p @ [k]"
      using Cons.prems lv by (simp add: take_Suc_update)
    have "dump_node pfx (level + 1) (name[level := k]) c =
        Inr (map (\<lambda>(q, v). dump_line pfx (join_dots q) v) (listing (p @ [k]) c))"
      by (rule Conf_Node.IH [OF c wf(1) pr(2) t]) (use Cons.prems Conf_Node.prems(4) in simp_all)
    moreover have "take level (name[level := k]) = p" using Cons.prems by simp
    ultimately show ?case
      using Cons.IH [of "name[level := k]"] Cons.prems k lv print_name_array_eq [OF pr(1) t] by simp
  qed simp
  from this [of ch name] show ?case using Conf_Node.prems by simp
qed

lemma listing_view:
  "conf_wf n \<Longrightarrow> (q, v) \<in> set (listing p n) \<longleftrightarrow> (\<exists>ks f. ks \<noteq> [] \<and> q = p @ ks \<and> view n ks = Some (v, f))"
proof (induction n arbitrary: p)
  case (Conf_Node nm v' sq fin ch)
  let ?n = "Conf_Node nm v' sq fin ch"
  have wf: "conf_wf c" if "c \<in> set ch" for c using Conf_Node.prems that by (auto simp: list_all_iff)
  show ?case
  proof
    assume "(q, v) \<in> set (listing p ?n)"
    then obtain c where c: "c \<in> set ch" "q = p @ [the (cn_name c)] \<and> v = cn_val c \<or> (q, v) \<in> set (listing (p @ [the (cn_name c)]) c)"
      by auto
    obtain k where f: "find (\<lambda>c. cn_name c = Some k) (cn_head ?n) = Some c" using find_wf [OF Conf_Node.prems, of c] c(1) by auto
    then have k: "cn_name c = Some k" by (auto simp: find_Some_iff)
    have "view ?n (k # ks) = view c ks" for ks using f by (simp add: view_find del: view.simps)
    moreover have "\<exists>ks f. q = p @ k # ks \<and> view c ks = Some (v, f)"
      using c k Conf_Node.IH [OF c(1) wf [OF c(1)], of "p @ [k]"] by (auto intro: exI [of _ "[]"])
    ultimately show "\<exists>ks f. ks \<noteq> [] \<and> q = p @ ks \<and> view ?n ks = Some (v, f)" by (metis list.distinct(1))
  next
    assume "\<exists>ks f. ks \<noteq> [] \<and> q = p @ ks \<and> view ?n ks = Some (v, f)"
    then obtain k ks f where q: "q = p @ k # ks" "view ?n (k # ks) = Some (v, f)" by (auto simp: neq_Nil_conv)
    then obtain c where c: "find (\<lambda>c. cn_name c = Some k) ch = Some c" "view c ks = Some (v, f)"
      unfolding view_find by (auto simp: bind_eq_Some_conv)
    then have c': "c \<in> set ch" "cn_name c = Some k" by (auto simp: find_Some_iff)
    have "(q, v) \<in> set ((p @ [k], cn_val c) # listing (p @ [k]) c)"
      using c q Conf_Node.IH [OF c'(1) wf [OF c'(1)], of "p @ [k]"] by (cases ks) auto
    then show "(q, v) \<in> set (listing p ?n)" using c' by force
  qed
qed

text \<open>
  \<open>gp_conf_node_dump\<close> prints one line \<open>name = value\<close> for every node below the given one, in depth-first order,
  and no other lines, as long as the tree has at most 128 levels and the dotted names fit the
  static array; the lines are those of the key paths for which the map has an entry.
\<close>

lemma dump_prints_every_node:
  assumes "conf_wf n" and "\<forall>ks. view n ks \<noteq> None \<longrightarrow> printable ks"
  shows "gp_conf_node_dump n pfx = Inr (map (\<lambda>(ks, v). dump_line pfx (join_dots ks) v) (listing [] n)) \<and>
    set (listing [] n) = {(ks, v) | ks v f. ks \<noteq> [] \<and> view n ks = Some (v, f)}"
proof -
  have l: "set (listing [] n) = {(ks, v) | ks v f. ks \<noteq> [] \<and> view n ks = Some (v, f)}"
    using listing_view [OF assms(1), of _ _ "[]"] by auto
  then have "\<forall>(q, v) \<in> set (listing [] n). printable q" using assms(2) by auto
  then have "gp_conf_node_dump n pfx = Inr (map (\<lambda>(ks, v). dump_line pfx (join_dots ks) v) (listing [] n))"
    using dump_node_eq [OF assms(1), of "[]" 0 "replicate 128 []" pfx] by (simp add: gp_conf_node_dump_def)
  then show ?thesis using l by blast
qed

end
