(* ===== verification/Gp_Yaml.thy ===== *)
theory Gp_Yaml
  imports Gp_Conf
begin

text \<open>
  The YAML loader of the configuration (\<open>base/gp_conf_yaml_loader.c\<close>): the events of a YAML parser are turned into
  the tree of the configuration store. The YAML parser and the file system are parameters (\<open>yaml_env\<close>).
\<close>

section \<open>The YAML parser and the file system\<close>

text \<open>
  The events of the parser that the loader reads; the strings are C strings. \<open>Other_Event\<close> stands for the events the
  loader ignores (start of the stream, end of a document, alias, no event).
\<close>

datatype yaml_event =
    Document_Start "(int \<times> int) option" | Scalar string "string option" | Sequence_Start | Sequence_End
  | Mapping_Start | Mapping_End | Stream_End | Other_Event

text \<open>
  \<open>'p\<close> is a parser with its input. \<open>yaml_parser_parse\<close> delivers the next event, \<open>None\<close> when the input is in error;
  \<open>open_input\<close> is \<open>fopen\<close> of a file followed by \<open>yaml_parser_set_input_file\<close>, \<open>st_mode\<close> is \<open>stat\<close> of a file.
\<close>

record 'p yaml_env =
  yaml_parser_initialize :: bool
  yaml_parser_parse :: "'p \<Rightarrow> (yaml_event \<times> 'p) option"
  open_input :: "string \<Rightarrow> 'p option"
  st_mode :: "string \<Rightarrow> u32 option"
  set_input_string :: "string \<Rightarrow> 'p"

definition S_IFDIR :: u32 where "S_IFDIR = 0x4000"

definition PATH_MAX :: nat where "PATH_MAX = 4096"

definition deref_node :: "gp_conf_node option \<Rightarrow> gp_conf_node res" where
  "deref_node node = (case node of None \<Rightarrow> Inl NullDeref | Some n \<Rightarrow> Inr n)"

section \<open>State of the loader\<close>

definition RECURSION_LIMIT :: int where "RECURSION_LIMIT = 128"
definition YAML_VERSION_MAJOR :: int where "YAML_VERSION_MAJOR = 1"
definition YAML_VERSION_MINOR :: int where "YAML_VERSION_MINOR = 1"

datatype yaml_state = CONF_KEY | CONF_VAL | CONF_INCLUDE

text \<open>
  The local variables of \<open>gp_conf_yaml_parse\<close>. \<open>ps_node\<close> is the pointer \<open>node\<close>: \<open>None\<close> while it is the parent itself,
  else the name of the child it points to. Siblings have different names and a child is moved within its parent or
  emptied while \<open>node\<close> points to it, and not removed from it.
\<close>

record parse_state =
  ps_node :: "string option"
  ps_state :: yaml_state
  ps_seq_idx :: int

definition parse_init :: parse_state where
  "parse_init = \<lparr>ps_node = None, ps_state = CONF_KEY, ps_seq_idx = 0\<rparr>"

record loader = conf_state +
  conf_dirname :: "string option"

primrec set_name :: "string option \<Rightarrow> gp_conf_node \<Rightarrow> gp_conf_node" where
  "set_name nm (Conf_Node _ v sq fin ch) = Conf_Node nm v sq fin ch"

primrec set_is_seq :: "int \<Rightarrow> gp_conf_node \<Rightarrow> gp_conf_node" where
  "set_is_seq sq (Conf_Node nm v _ fin ch) = Conf_Node nm v sq fin ch"

text \<open>Reading and writing through \<open>node\<close>.\<close>

definition node_of :: "gp_conf_node \<Rightarrow> string option \<Rightarrow> gp_conf_node res" where
  "node_of parent nd =
     (case nd of
        None \<Rightarrow> Inr parent
      | Some k \<Rightarrow> (case child_index k (cn_head parent) of None \<Rightarrow> Inl NullDeref | Some i \<Rightarrow> Inr (cn_head parent ! i)))"

definition put_node :: "gp_conf_node \<Rightarrow> string option \<Rightarrow> gp_conf_node \<Rightarrow> gp_conf_node" where
  "put_node parent nd n =
     (case nd of
        None \<Rightarrow> n
      | Some k \<Rightarrow> (case child_index k (cn_head parent) of None \<Rightarrow> parent | Some i \<Rightarrow> set_head ((cn_head parent)[i := n]) parent))"

text \<open>\<open>TAILQ_REMOVE\<close> of the child at index \<open>i\<close>.\<close>

definition remove_child :: "nat \<Rightarrow> gp_conf_node \<Rightarrow> gp_conf_node" where
  "remove_child i parent = set_head (take i (cn_head parent) @ drop (Suc i) (cn_head parent)) parent"

definition insert_tail :: "gp_conf_node \<Rightarrow> gp_conf_node \<Rightarrow> gp_conf_node" where
  "insert_tail parent c = set_head (cn_head parent @ [c]) parent"

section \<open>Names\<close>

text \<open>\<open>strrchr\<close>: the index of the last occurrence.\<close>

definition strrchr :: "string \<Rightarrow> char \<Rightarrow> nat option" where
  "strrchr s c = (if c \<in> set s then Some (length s - 1 - length (takeWhile (\<lambda>x. x \<noteq> c) (rev s))) else None)"

definition gp_conf_yaml_set_conf_dirname :: "loader \<Rightarrow> string \<Rightarrow> loader" where
  "gp_conf_yaml_set_conf_dirname st filename =
     (let ep = (case strrchr filename (CHR 0x5C) of None \<Rightarrow> strrchr filename (CHR ''/'') | Some i \<Rightarrow> Some i)
      in case ep of
           None \<Rightarrow> st\<lparr>conf_dirname := Some ''.''\<rparr>
         | Some i \<Rightarrow> st\<lparr>conf_dirname := Some (take i filename)\<rparr>)"

text \<open>The name of an included file, cut off at the size of the array.\<close>

definition include_name :: "string option \<Rightarrow> string \<Rightarrow> string res" where
  "include_name dirname filename =
     (if length filename > 1 \<and> hd filename = CHR ''/'' then
        bindE (strlcpy (replicate PATH_MAX NUL) (c_string filename) PATH_MAX) (\<lambda>(_, buf). Inr (c_string buf))
      else
        (case dirname of
           None \<Rightarrow> Inl NullDeref
         | Some d \<Rightarrow> Inr (take (PATH_MAX - 1) (d @ ''/'' @ filename))))"

section \<open>Parsing\<close>

text \<open>
  A call of the parser returns the value of the C function, the parser and the parent. \<open>rec\<close> is the call of
  \<open>gp_conf_yaml_parse\<close> with \<open>inseq\<close> and \<open>rlevel\<close> 0.
\<close>

type_synonym 'p parsed = "(int \<times> 'p \<times> gp_conf_node option) run"

definition gp_conf_yaml_handle_include ::
  "'p yaml_env \<Rightarrow> string option \<Rightarrow> ('p \<Rightarrow> gp_conf_node option \<Rightarrow> 'p parsed) \<Rightarrow> gp_conf_node option \<Rightarrow> string \<Rightarrow>
     (int \<times> gp_conf_node option) run" where
  "gp_conf_yaml_handle_include E dirname rec parent filename =
     (if \<not> yaml_parser_initialize E then Some (Inr (-1, parent))
      else bindR (Some (include_name dirname filename)) (\<lambda>include_filename.
        case open_input E include_filename of
          None \<Rightarrow> Some (Inr (-1, parent))
        | Some p \<Rightarrow> bindR (rec p parent) (\<lambda>(ret, _, parent1). Some (Inr (if ret \<noteq> 0 then -1 else 0, parent1)))))"

text \<open>\<open>seq_idx++\<close> and the name it gives.\<close>

definition next_seq_name :: "int \<Rightarrow> (string \<times> int) res" where
  "next_seq_name seq_idx = (if int_range (seq_idx + 1) then Inr (int_digits seq_idx, seq_idx + 1) else Inl SignedOverflow)"

text \<open>A scalar in a sequence.\<close>

definition seq_scalar :: "gp_conf_node option \<Rightarrow> parse_state \<Rightarrow> string \<Rightarrow> (gp_conf_node option \<times> parse_state) res" where
  "seq_scalar parent l value =
     bindE (next_seq_name (ps_seq_idx l)) (\<lambda>(sequence_node_name, seq_idx).
     bindE (deref_node parent) (\<lambda>par.
       let l1 = l\<lparr>ps_seq_idx := seq_idx\<rparr> in
       case gp_conf_node_lookup_child parent (Some sequence_node_name) of
         Some i \<Rightarrow> Inr (Some (insert_tail (remove_child i par) (cn_head par ! i)), l1)
       | None \<Rightarrow> Inr (Some (insert_tail par (set_val (Some value) (set_name (Some sequence_node_name) gp_conf_node_new))), l1)))"

text \<open>A scalar that is a key.\<close>

definition key_scalar :: "gp_conf_node option \<Rightarrow> parse_state \<Rightarrow> string \<Rightarrow> (gp_conf_node option \<times> parse_state) res" where
  "key_scalar parent l value =
     (if value = ''include'' then Inr (parent, l\<lparr>ps_state := CONF_INCLUDE\<rparr>)
      else bindE (deref_node parent) (\<lambda>par.
        let par1 = (if cn_is_seq par \<noteq> 0 \<and> cn_val par = None then set_val (Some value) par else par);
            l1 = l\<lparr>ps_node := Some value, ps_state := CONF_VAL\<rparr>
        in case gp_conf_node_lookup_child (Some par1) (Some value) of
             Some i \<Rightarrow>
               let existing = cn_head par1 ! i;
                   existing1 = (if cn_final existing = 0 then gp_conf_node_prune existing else existing)
               in Inr (Some (set_head ((cn_head par1)[i := existing1]) par1), l1)
           | None \<Rightarrow> Inr (Some (insert_tail par1 (set_name (Some value) gp_conf_node_new)), l1)))"

text \<open>A call on \<open>node\<close>, which may be the parent itself.\<close>

definition on_node :: "gp_conf_node option \<Rightarrow> string option \<Rightarrow> (gp_conf_node option \<Rightarrow> ('a \<times> gp_conf_node option) run) \<Rightarrow>
     ('a \<times> gp_conf_node option) run" where
  "on_node parent nd f =
     (case parent of
        None \<Rightarrow> f None
      | Some par \<Rightarrow>
          bindR (Some (node_of par nd)) (\<lambda>n. bindR (f (Some n)) (\<lambda>(x, n1).
            Some (Inr (x, map_option (put_node par nd) n1)))))"

text \<open>A scalar event: \<open>False\<close> is the jump to \<open>fail\<close>.\<close>

definition handle_scalar ::
  "'p yaml_env \<Rightarrow> string option \<Rightarrow> ('p \<Rightarrow> gp_conf_node option \<Rightarrow> 'p parsed) \<Rightarrow> bool \<Rightarrow> gp_conf_node option \<Rightarrow> parse_state \<Rightarrow>
     string \<Rightarrow> string option \<Rightarrow> (bool \<times> gp_conf_node option \<times> parse_state) run" where
  "handle_scalar E dirname rec inseq parent l value tag =
     (if ps_state l = CONF_KEY \<and> value = [] then Some (Inr (True, parent, l))
      else if inseq then bindR (Some (seq_scalar parent l value)) (\<lambda>r. Some (Inr (True, r)))
      else case ps_state l of
        CONF_INCLUDE \<Rightarrow>
          bindR (gp_conf_yaml_handle_include E dirname rec parent value) (\<lambda>(ret, parent1).
            Some (Inr (ret = 0, parent1, if ret = 0 then l\<lparr>ps_state := CONF_KEY\<rparr> else l)))
      | CONF_KEY \<Rightarrow> bindR (Some (key_scalar parent l value)) (\<lambda>r. Some (Inr (True, r)))
      | CONF_VAL \<Rightarrow>
          if tag = Some ''!include'' then
            bindR (on_node parent (ps_node l) (\<lambda>n. gp_conf_yaml_handle_include E dirname rec n value)) (\<lambda>(ret, parent1).
              Some (Inr (ret = 0, parent1, if ret = 0 then l\<lparr>ps_state := CONF_KEY\<rparr> else l)))
          else
            bindR (on_node parent (ps_node l) (\<lambda>n. bindR (Some (deref_node n)) (\<lambda>n.
                Some (Inr ((), Some (if cn_final n = 0 then set_val (Some value) n else n)))))) (\<lambda>(_, parent1).
              Some (Inr (True, parent1, l\<lparr>ps_state := CONF_KEY\<rparr>))))"

text \<open>The start of a mapping in a sequence: the item, removed from the sequence when it is there, and put at its end.\<close>

definition seq_mapping :: "gp_conf_node option \<Rightarrow> parse_state \<Rightarrow> (gp_conf_node \<times> gp_conf_node \<times> parse_state) res" where
  "seq_mapping node l =
     bindE (next_seq_name (ps_seq_idx l)) (\<lambda>(sequence_node_name, seq_idx).
     bindE (deref_node node) (\<lambda>n.
       let l1 = l\<lparr>ps_seq_idx := seq_idx\<rparr> in
       case gp_conf_node_lookup_child node (Some sequence_node_name) of
         Some i \<Rightarrow> Inr (remove_child i n, set_is_seq 1 (cn_head n ! i), l1)
       | None \<Rightarrow> Inr (n, set_is_seq 1 (set_name (Some sequence_node_name) gp_conf_node_new), l1)))"

text \<open>
  \<open>parse_loop\<close> is the loop of \<open>gp_conf_yaml_parse\<close>, one event per unit of fuel; \<open>rlevel\<close> is its value inside the
  function. A nested call has the fuel of the rest of the loop.
\<close>

fun gp_conf_yaml_parse :: "nat \<Rightarrow> 'p yaml_env \<Rightarrow> string option \<Rightarrow> 'p \<Rightarrow> gp_conf_node option \<Rightarrow> bool \<Rightarrow> int \<Rightarrow> 'p parsed"
  and parse_loop :: "nat \<Rightarrow> 'p yaml_env \<Rightarrow> string option \<Rightarrow> bool \<Rightarrow> int \<Rightarrow> 'p \<Rightarrow> gp_conf_node option \<Rightarrow> parse_state \<Rightarrow> 'p parsed" where
  "gp_conf_yaml_parse fuel E dirname parser parent inseq rlevel =
     (if rlevel > RECURSION_LIMIT then Some (Inr (-1, parser, parent))
      else parse_loop fuel E dirname inseq (rlevel + 1) parser parent parse_init)"
| "parse_loop 0 E dirname inseq rlevel parser parent l = None"
| "parse_loop (Suc fuel) E dirname inseq rlevel parser parent l =
     (case yaml_parser_parse E parser of
        None \<Rightarrow> Some (Inr (-1, parser, parent))
      | Some (event, parser) \<Rightarrow>
          (case event of
             Document_Start ver \<Rightarrow>
               (case ver of
                  None \<Rightarrow> Some (Inr (-1, parser, parent))
                | Some (major, minor) \<Rightarrow>
                    if \<not> (major = YAML_VERSION_MAJOR \<and> minor = YAML_VERSION_MINOR) then Some (Inr (-1, parser, parent))
                    else parse_loop fuel E dirname inseq rlevel parser parent l)
           | Scalar value tag \<Rightarrow>
               bindR (handle_scalar E dirname (\<lambda>q n. gp_conf_yaml_parse fuel E dirname q n False 0) inseq parent l value tag)
                 (\<lambda>(ok, parent, l).
                    if ok then parse_loop fuel E dirname inseq rlevel parser parent l else Some (Inr (-1, parser, parent)))
           | Sequence_Start \<Rightarrow>
               bindR (on_node parent (ps_node l) (\<lambda>n.
                   bindR (gp_conf_yaml_parse fuel E dirname parser n True rlevel) (\<lambda>(ret, parser, n).
                     if ret \<noteq> 0 then Some (Inr ((ret, parser), n))
                     else bindR (Some (deref_node n)) (\<lambda>n. Some (Inr ((ret, parser), Some (set_is_seq 1 n)))))))
                 (\<lambda>((ret, parser), parent).
                    if ret \<noteq> 0 then Some (Inr (-1, parser, parent))
                    else parse_loop fuel E dirname inseq rlevel parser parent (l\<lparr>ps_state := CONF_KEY\<rparr>))
           | Mapping_Start \<Rightarrow>
               if inseq then
                 bindR (on_node parent (ps_node l) (\<lambda>n.
                     bindR (Some (seq_mapping n l)) (\<lambda>(n, seq_node, l).
                     bindR (gp_conf_yaml_parse fuel E dirname parser (Some seq_node) False rlevel) (\<lambda>(ret, parser, seq_node).
                       Some (Inr ((ret, parser, l), map_option (insert_tail n) seq_node))))))
                   (\<lambda>((ret, parser, l), parent).
                      if ret \<noteq> 0 then Some (Inr (-1, parser, parent))
                      else parse_loop fuel E dirname inseq rlevel parser parent (l\<lparr>ps_state := CONF_KEY\<rparr>))
               else
                 bindR (on_node parent (ps_node l) (\<lambda>n.
                     bindR (gp_conf_yaml_parse fuel E dirname parser n inseq rlevel) (\<lambda>(ret, parser, n). Some (Inr ((ret, parser), n)))))
                   (\<lambda>((ret, parser), parent).
                      if ret \<noteq> 0 then Some (Inr (-1, parser, parent))
                      else parse_loop fuel E dirname inseq rlevel parser parent (l\<lparr>ps_state := CONF_KEY\<rparr>))
           | Sequence_End \<Rightarrow> Some (Inr (0, parser, parent))
           | Mapping_End \<Rightarrow> Some (Inr (0, parser, parent))
           | Stream_End \<Rightarrow> Some (Inr (0, parser, parent))
           | Other_Event \<Rightarrow> parse_loop fuel E dirname inseq rlevel parser parent l))"

declare gp_conf_yaml_parse.simps [simp del] parse_loop.simps [simp del]

section \<open>Loading\<close>

definition is_directory :: "'p yaml_env \<Rightarrow> string \<Rightarrow> bool" where
  "is_directory E filename = (case st_mode E filename of None \<Rightarrow> False | Some m \<Rightarrow> and m S_IFDIR \<noteq> 0)"

definition gp_conf_yaml_load_file :: "nat \<Rightarrow> 'p yaml_env \<Rightarrow> string \<Rightarrow> loader \<Rightarrow> (int \<times> loader) run" where
  "gp_conf_yaml_load_file fuel E filename st =
     (let root = conf_root st in
      if \<not> yaml_parser_initialize E then Some (Inr (-1, st))
      else if is_directory E filename then Some (Inr (-1, st))
      else case open_input E filename of
        None \<Rightarrow> Some (Inr (-1, st))
      | Some parser \<Rightarrow>
          let st1 = (if conf_dirname st = None then gp_conf_yaml_set_conf_dirname st filename else st) in
          bindR (gp_conf_yaml_parse fuel E (conf_dirname st1) parser root False 0) (\<lambda>(ret, _, root1).
            Some (Inr (ret, st1\<lparr>conf_root := root1\<rparr>))))"

definition gp_conf_yaml_load_string :: "nat \<Rightarrow> 'p yaml_env \<Rightarrow> string \<Rightarrow> loader \<Rightarrow> (int \<times> loader) run" where
  "gp_conf_yaml_load_string fuel E string st =
     (if \<not> yaml_parser_initialize E then Some (Inl Abort)
      else bindR (gp_conf_yaml_parse fuel E (conf_dirname st) (set_input_string E string) (conf_root st) False 0) (\<lambda>(ret, _, root1).
        Some (Inr (ret, st\<lparr>conf_root := root1\<rparr>))))"

text \<open>The functions of the store on the state of the loader.\<close>

definition store_of :: "loader \<Rightarrow> conf_state" where
  "store_of st = \<lparr>conf_root = conf_root st, conf_root_backup = conf_root_backup st\<rparr>"

definition put_store :: "loader \<Rightarrow> conf_state \<Rightarrow> loader" where
  "put_store st cs = st\<lparr>conf_root := conf_root cs, conf_root_backup := conf_root_backup cs\<rparr>"

text \<open>The subtree at \<open>path\<close> is parsed into.\<close>

definition parse_at :: "nat \<Rightarrow> 'p yaml_env \<Rightarrow> 'p \<Rightarrow> path \<Rightarrow> loader \<Rightarrow> (int \<times> loader) run" where
  "parse_at fuel E parser path st =
     bindR (Some (deref_node (conf_root st))) (\<lambda>r.
     bindR (gp_conf_yaml_parse fuel E (conf_dirname st) parser (Some (node_at r path)) False 0) (\<lambda>(ret, _, n).
     bindR (Some (deref_node n)) (\<lambda>n.
       Some (Inr (ret, st\<lparr>conf_root := Some (update_at path (\<lambda>_. n) r)\<rparr>)))))"

definition gp_conf_yaml_load_file_with_prefix :: "nat \<Rightarrow> 'p yaml_env \<Rightarrow> string \<Rightarrow> string \<Rightarrow> loader \<Rightarrow> (int \<times> loader) run" where
  "gp_conf_yaml_load_file_with_prefix fuel E filename prefix st =
     bindR (Some (gp_conf_get_node (store_of st) prefix)) (\<lambda>root.
     if \<not> yaml_parser_initialize E then Some (Inr (-1, st))
     else if is_directory E filename then Some (Inr (-1, st))
     else case open_input E filename of
       None \<Rightarrow> Some (Inr (-1, st))
     | Some parser \<Rightarrow>
         let st1 = (if conf_dirname st = None then gp_conf_yaml_set_conf_dirname st filename else st) in
         (case root of
            Some path \<Rightarrow> parse_at fuel E parser path st1
          | None \<Rightarrow>
              bindR (Some (gp_conf_set (store_of st1) prefix ''<prefix root node>'')) (\<lambda>(_, cs).
              let st2 = put_store st1 cs in
              bindR (Some (gp_conf_get_node (store_of st2) prefix)) (\<lambda>root.
                case root of None \<Rightarrow> Some (Inr (-1, st2)) | Some path \<Rightarrow> parse_at fuel E parser path st2))))"

end
