(* ===== verification/Gp_Yaml_Inv.thy ===== *)
theory Gp_Yaml_Inv
  imports Gp_Yaml Gp_Conf_Correct
begin

text \<open>
  What every run of the YAML loader keeps, whatever the events and the included files are: the tree stays well-formed,
  nodes marked final keep their values, and no pointer of the loader goes astray.
\<close>

section \<open>What the steps keep\<close>

text \<open>\<open>n'\<close> is a well-formed node that has the values of the final nodes of \<open>n\<close>.\<close>

definition keeps :: "gp_conf_node \<Rightarrow> gp_conf_node \<Rightarrow> bool" where
  "keeps n n' \<longleftrightarrow> conf_wf n' \<and> cn_name n' = cn_name n \<and> cn_final n' = cn_final n \<and>
     (\<forall>ks v f. view n ks = Some (Some v, f) \<and> f \<noteq> 0 \<longrightarrow> view n' ks = Some (Some v, f))"

definition child_names :: "gp_conf_node \<Rightarrow> string option set" where
  "child_names n = cn_name ` set (cn_head n)"

definition grows :: "gp_conf_node \<Rightarrow> gp_conf_node \<Rightarrow> bool" where
  "grows n n' \<longleftrightarrow> keeps n n' \<and> child_names n \<subseteq> child_names n'"

lemma keeps_refl: "conf_wf n \<Longrightarrow> keeps n n"
  by (simp add: keeps_def)

lemma keeps_trans: "keeps n n' \<Longrightarrow> keeps n' n'' \<Longrightarrow> keeps n n''"
  by (simp add: keeps_def)

lemma grows_refl: "conf_wf n \<Longrightarrow> grows n n"
  by (simp add: grows_def keeps_refl)

lemma grows_trans: "grows n n' \<Longrightarrow> grows n' n'' \<Longrightarrow> grows n n''"
  unfolding grows_def using keeps_trans by blast

lemma grows_wf: "grows n n' \<Longrightarrow> conf_wf n'"
  by (simp add: grows_def keeps_def)

lemma set_more [simp]:
  "cn_head (set_name k n) = cn_head n" "cn_name (set_name k n) = k" "cn_val (set_name k n) = cn_val n"
  "cn_final (set_name k n) = cn_final n" "cn_is_seq (set_name k n) = cn_is_seq n"
  "cn_head (set_is_seq sq n) = cn_head n" "cn_name (set_is_seq sq n) = cn_name n" "cn_val (set_is_seq sq n) = cn_val n"
  "cn_final (set_is_seq sq n) = cn_final n" "cn_is_seq (set_is_seq sq n) = sq"
  "cn_is_seq (set_val v n) = cn_is_seq n" "cn_is_seq (set_head ch n) = cn_is_seq n"
  "cn_head gp_conf_node_new = []" "cn_val gp_conf_node_new = None" "cn_final gp_conf_node_new = 0" "cn_is_seq gp_conf_node_new = 0"
  "conf_wf gp_conf_node_new"
  by (cases n; simp add: gp_conf_node_new_def)+

lemma same_head:
  assumes "cn_head m = cn_head n"
  shows "conf_wf m \<longleftrightarrow> conf_wf n" "child_names m = child_names n" "view m (k # ks) = view n (k # ks)"
  using assms by (simp_all add: conf_wf_iff [of m] conf_wf_iff [of n] child_names_def split: option.splits)

lemma grows_fields:
  assumes "conf_wf n" and "cn_head m = cn_head n" and "cn_name m = cn_name n" and "cn_final m = cn_final n"
    and "cn_final n = 0 \<or> cn_val n = None \<or> cn_val m = cn_val n"
  shows "grows n m"
proof -
  have "view m ks = Some (Some v, f)" if "view n ks = Some (Some v, f)" "f \<noteq> 0" for ks v f
    using that assms same_head(3) [OF assms(2)] by (cases ks) (auto simp del: view.simps(2))
  then show ?thesis using assms same_head [OF assms(2)] by (simp add: grows_def keeps_def)
qed

text \<open>Siblings with different names: a path is looked up below the child of its first key, wherever this stands.\<close>

lemma view_by_name:
  assumes "conf_wf n"
  shows "view n (k # ks) = Some x \<longleftrightarrow> (\<exists>c \<in> set (cn_head n). cn_name c = Some k \<and> view c ks = Some x)"
proof
  assume "view n (k # ks) = Some x"
  then obtain i where "child_index k (cn_head n) = Some i" "view (cn_head n ! i) ks = Some x" by (auto split: option.splits)
  then show "\<exists>c \<in> set (cn_head n). cn_name c = Some k \<and> view c ks = Some x" using child_index_Some by fastforce
next
  assume "\<exists>c \<in> set (cn_head n). cn_name c = Some k \<and> view c ks = Some x"
  then obtain c where "c \<in> set (cn_head n)" "cn_name c = Some k" "view c ks = Some x" by blast
  moreover from this obtain i where "i < length (cn_head n)" "cn_head n ! i = c" by (auto simp: in_set_conv_nth)
  moreover have "distinct (map cn_name (cn_head n))" using assms conf_wf_iff [of n] by blast
  ultimately show "view n (k # ks) = Some x" using child_index_distinct [of "cn_head n" i k] by simp
qed

text \<open>Children may be rearranged, added, and replaced by ones that keep what they had.\<close>

lemma grows_children:
  assumes wf: "conf_wf n" and ch: "distinct (map cn_name ch)" "None \<notin> cn_name ` set ch" "\<And>c. c \<in> set ch \<Longrightarrow> conf_wf c"
    and kept: "\<And>c. c \<in> set (cn_head n) \<Longrightarrow> \<exists>d \<in> set ch. keeps c d"
  shows "grows n (set_head ch n)"
proof -
  let ?m = "set_head ch n"
  have m: "conf_wf ?m" using ch conf_wf_iff [of ?m] by simp
  have "view ?m ks = Some (Some v, f)" if v: "view n ks = Some (Some v, f)" "f \<noteq> 0" for ks v f
  proof (cases ks)
    case (Cons k ks')
    then obtain c where "c \<in> set (cn_head n)" "cn_name c = Some k" "view c ks' = Some (Some v, f)"
      using v view_by_name [OF wf] by blast
    moreover from this kept obtain d where "d \<in> set ch" "keeps c d" by blast
    ultimately show ?thesis using Cons v(2) view_by_name [OF m] by (auto simp: keeps_def simp del: view.simps(2))
  qed (use v in simp)
  moreover have "child_names n \<subseteq> child_names ?m"
  proof
    fix k assume "k \<in> child_names n"
    then obtain c where "c \<in> set (cn_head n)" "k = cn_name c" by (auto simp: child_names_def)
    moreover from this kept obtain d where "d \<in> set ch" "keeps c d" by blast
    ultimately show "k \<in> child_names ?m" by (auto simp: child_names_def keeps_def intro: rev_image_eqI)
  qed
  ultimately show ?thesis using m by (simp add: grows_def keeps_def)
qed

lemma wf_parts:
  assumes "conf_wf n"
  shows "distinct (map cn_name (cn_head n))" "None \<notin> cn_name ` set (cn_head n)" "\<And>c. c \<in> set (cn_head n) \<Longrightarrow> conf_wf c"
  using assms conf_wf_iff [of n] by auto

lemma grows_replace:
  assumes wf: "conf_wf n" and i: "child_index k (cn_head n) = Some i" and c: "keeps (cn_head n ! i) c"
  shows "grows n (set_head ((cn_head n)[i := c]) n)"
proof (rule grows_children [OF wf])
  have i': "i < length (cn_head n)" using child_index_Some [OF i] by simp
  have nm: "cn_name c = cn_name (cn_head n ! i)" using c by (simp add: keeps_def)
  have "conf_wf (set_head ((cn_head n)[i := c]) n)" using conf_wf_set_child [OF wf nm] c by (simp add: keeps_def)
  from wf_parts [OF this]
  show "distinct (map cn_name ((cn_head n)[i := c]))" "None \<notin> cn_name ` set ((cn_head n)[i := c])"
    "\<And>d. d \<in> set ((cn_head n)[i := c]) \<Longrightarrow> conf_wf d" by simp_all
  show "\<exists>d \<in> set ((cn_head n)[i := c]). keeps e d" if e: "e \<in> set (cn_head n)" for e
  proof -
    obtain j where j: "j < length (cn_head n)" "e = cn_head n ! j" using e by (auto simp: in_set_conv_nth)
    show ?thesis
    proof (cases "j = i")
      case True
      then show ?thesis using j c i' by (auto simp: in_set_conv_nth intro!: bexI [of _ c] exI [of _ i])
    next
      case False
      then have "e \<in> set ((cn_head n)[i := c])" using j by (auto simp: in_set_conv_nth intro!: exI [of _ j])
      then show ?thesis using keeps_refl [OF wf_parts(3) [OF wf e]] by blast
    qed
  qed
qed

lemma grows_insert:
  assumes wf: "conf_wf n" and "child_index k (cn_head n) = None" and "cn_name c = Some k" and "conf_wf c"
  shows "grows n (insert_tail n c)"
proof -
  note parts = wf_parts [OF wf]
  have "\<exists>d \<in> set (cn_head n @ [c]). keeps e d" if "e \<in> set (cn_head n)" for e
    using that keeps_refl [OF parts(3) [OF that]] by auto
  with parts show ?thesis unfolding insert_tail_def
    by (intro grows_children [OF wf]) (use assms in \<open>auto simp: child_index_None\<close>)
qed

lemma grows_move:
  assumes wf: "conf_wf n" and i: "child_index k (cn_head n) = Some i" and c: "keeps (cn_head n ! i) c"
  shows "grows n (insert_tail (remove_child i n) c)"
proof -
  let ?xs = "take i (cn_head n)" and ?ys = "drop (Suc i) (cn_head n)" and ?e = "cn_head n ! i"
  have "i < length (cn_head n)" using child_index_Some [OF i] by simp
  then have cs: "cn_head n = ?xs @ ?e # ?ys" by (rule id_take_nth_drop)
  have nm: "cn_name c = cn_name ?e" "conf_wf c" using c by (simp_all add: keeps_def)
  have d: "distinct (map cn_name (?xs @ ?e # ?ys))" "None \<notin> cn_name ` set (?xs @ ?e # ?ys)"
    "\<And>d. d \<in> set (?xs @ ?e # ?ys) \<Longrightarrow> conf_wf d"
    using wf_parts [OF wf] cs by simp_all
  have "grows n (set_head ((?xs @ ?ys) @ [c]) n)"
  proof (rule grows_children [OF wf])
    show "distinct (map cn_name ((?xs @ ?ys) @ [c]))" "None \<notin> cn_name ` set ((?xs @ ?ys) @ [c])" using d(1,2) nm by auto
    show "conf_wf x" if "x \<in> set ((?xs @ ?ys) @ [c])" for x using that d(3) nm(2) by auto
    show "\<exists>y \<in> set ((?xs @ ?ys) @ [c]). keeps x y" if "x \<in> set (cn_head n)" for x
    proof -
      have "x \<in> set (?xs @ ?e # ?ys)" using that cs by simp
      then show ?thesis using c keeps_refl [OF d(3)] by auto
    qed
  qed
  moreover have "set_head ch (set_head ch' n) = set_head ch n" for ch ch' by (cases n) simp
  ultimately show ?thesis by (simp add: insert_tail_def remove_child_def)
qed

lemma conf_wf_prune:
  "conf_wf n \<Longrightarrow> conf_wf (gp_conf_node_prune n)"
  "list_all conf_wf ch \<Longrightarrow> list_all conf_wf (prune_items ch) \<and> cn_name ` set (prune_items ch) \<subseteq> cn_name ` set ch \<and>
    (distinct (map cn_name ch) \<longrightarrow> distinct (map cn_name (prune_items ch)))"
proof (induction n and ch rule: gp_conf_node_prune_prune_items.induct)
  case (3 item it)
  have "cn_name (gp_conf_node_prune item) = cn_name item" by (cases item) simp
  then show ?case using 3 by (auto simp: Let_def)
qed auto

lemma keeps_prune:
  assumes "conf_wf n" and "cn_final n = 0"
  shows "keeps n (gp_conf_node_prune n)"
proof -
  have "view (gp_conf_node_prune n) ks = Some (Some v, f)" if v: "view n ks = Some (Some v, f)" "f \<noteq> 0" for ks v f
  proof -
    have "ks \<noteq> []" "is_final n ks" using v assms(2) by (auto simp: is_final_def)
    then show ?thesis using prune_view [OF assms(1), of ks] v(1) by auto
  qed
  then show ?thesis using conf_wf_prune(1) [OF assms(1)] by (cases n) (simp add: keeps_def)
qed

section \<open>Every step keeps the final values\<close>

text \<open>The pointer \<open>node\<close> is the parent or one of its children.\<close>

definition valid_node :: "gp_conf_node \<Rightarrow> string option \<Rightarrow> bool" where
  "valid_node par nd \<longleftrightarrow> (\<forall>k. nd = Some k \<longrightarrow> Some k \<in> child_names par)"

lemma valid_node_grows: "valid_node par nd \<Longrightarrow> grows par par' \<Longrightarrow> valid_node par' nd"
  by (auto simp: valid_node_def grows_def)

text \<open>The errors a run can end with: the index of a sequence overflows, or a file is included by a relative name while no
  directory is known.\<close>

definition yaml_error :: "string option \<Rightarrow> cerror \<Rightarrow> bool" where
  "yaml_error dirname e \<longleftrightarrow> e = SignedOverflow \<or> (e = NullDeref \<and> dirname = None)"

definition run_ok :: "string option \<Rightarrow> ('a \<Rightarrow> bool) \<Rightarrow> 'a run \<Rightarrow> bool" where
  "run_ok dirname P r \<longleftrightarrow> (case r of None \<Rightarrow> True | Some (Inl e) \<Rightarrow> yaml_error dirname e | Some (Inr x) \<Rightarrow> P x)"

lemma run_ok_simps [simp]:
  "run_ok dirname P None" "run_ok dirname P (Some (Inl e)) \<longleftrightarrow> yaml_error dirname e" "run_ok dirname P (Some (Inr x)) \<longleftrightarrow> P x"
  by (simp_all add: run_ok_def)

lemma run_ok_bindR: "run_ok dirname P r \<Longrightarrow> (\<And>x. P x \<Longrightarrow> run_ok dirname Q (f x)) \<Longrightarrow> run_ok dirname Q (bindR r f)"
  by (cases r rule: option.exhaust; cases "the r") auto

lemma run_ok_mono: "run_ok dirname P r \<Longrightarrow> (\<And>x. P x \<Longrightarrow> Q x) \<Longrightarrow> run_ok dirname Q r"
  by (cases r rule: option.exhaust; cases "the r") auto

definition grown :: "gp_conf_node \<Rightarrow> gp_conf_node option \<Rightarrow> bool" where
  "grown par r \<longleftrightarrow> (\<exists>par'. r = Some par' \<and> grows par par')"

lemma grown_Some [simp]: "grown par (Some par') \<longleftrightarrow> grows par par'"
  by (simp add: grown_def)

lemma grown_trans: "grows par par' \<Longrightarrow> grown par' r \<Longrightarrow> grown par r"
  by (auto simp: grown_def intro: grows_trans)

lemma on_node_ok:
  assumes "conf_wf par" and "valid_node par nd" and "\<And>n. conf_wf n \<Longrightarrow> run_ok dirname (\<lambda>(x, n'). P x \<and> grown n n') (f (Some n))"
  shows "run_ok dirname (\<lambda>(x, par'). P x \<and> grown par par') (on_node (Some par) nd f)"
proof (cases nd)
  case None
  have "run_ok dirname (\<lambda>(x, par'). P x \<and> grown par par') (bindR (f (Some par)) (\<lambda>(x, n1). Some (Inr (x, map_option (put_node par nd) n1))))"
    by (rule run_ok_bindR [OF assms(3) [OF assms(1)]]) (auto simp: None grown_def put_node_def)
  then show ?thesis by (simp add: None on_node_def node_of_def)
next
  case (Some k)
  then obtain i where i: "child_index k (cn_head par) = Some i"
    using assms(2) child_index_None [of k "cn_head par"] by (auto simp: valid_node_def child_names_def)
  let ?c = "cn_head par ! i"
  have c: "conf_wf ?c" using wf_parts(3) [OF assms(1)] child_index_Some [OF i] by simp
  have "run_ok dirname (\<lambda>(x, par'). P x \<and> grown par par') (bindR (f (Some ?c)) (\<lambda>(x, n1). Some (Inr (x, map_option (put_node par nd) n1))))"
    by (rule run_ok_bindR [OF assms(3) [OF c]])
      (use grows_replace [OF assms(1) i] in \<open>auto simp: Some i grown_def put_node_def grows_def\<close>)
  then show ?thesis by (simp add: Some i on_node_def node_of_def)
qed

lemma include_name_ok: "run_ok dirname (\<lambda>_. True) (Some (include_name dirname filename))"
proof -
  have "NUL \<notin> set (c_string filename)" by (auto simp: c_string_def dest: set_takeWhileD)
  then show ?thesis using strlcpy_eq [of "c_string filename" PATH_MAX "replicate PATH_MAX NUL"]
    by (cases dirname) (simp_all add: include_name_def yaml_error_def)
qed

lemma handle_include_ok:
  assumes "conf_wf par" and "\<And>p. run_ok dirname (\<lambda>(ret, _, r). grown par r) (rec p (Some par))"
  shows "run_ok dirname (\<lambda>(ret, r). grown par r) (gp_conf_yaml_handle_include E dirname rec (Some par) filename)"
  unfolding gp_conf_yaml_handle_include_def
  by (auto intro!: run_ok_bindR [OF include_name_ok] run_ok_bindR [OF assms(2)] simp: grows_refl assms(1) split: option.splits)

lemma next_seq_name_ok: "run_ok dirname (\<lambda>_. True) (Some (next_seq_name i))"
  by (simp add: next_seq_name_def yaml_error_def)

lemma bindE_run [simp]: "Some (bindE r f) = bindR (Some r) (\<lambda>x. Some (f x))"
  by (cases r) simp_all

definition step_ok :: "gp_conf_node \<Rightarrow> gp_conf_node option \<Rightarrow> parse_state \<Rightarrow> bool" where
  "step_ok par r l \<longleftrightarrow> (\<exists>par'. r = Some par' \<and> grows par par' \<and> valid_node par' (ps_node l))"

lemma seq_scalar_ok:
  assumes "conf_wf par" and "valid_node par (ps_node l)"
  shows "run_ok dirname (\<lambda>(r, l'). step_ok par r l') (Some (seq_scalar (Some par) l value))"
proof -
  have "step_ok par (Some (insert_tail (remove_child i par) (cn_head par ! i))) (l\<lparr>ps_seq_idx := j\<rparr>)"
    if "child_index k (cn_head par) = Some i" for k i j
    using grows_move [OF assms(1) that keeps_refl [OF wf_parts(3) [OF assms(1)]]] child_index_Some [OF that] valid_node_grows [OF assms(2)]
    by (simp add: step_ok_def)
  moreover have "step_ok par (Some (insert_tail par (set_val (Some value) (set_name (Some k) gp_conf_node_new)))) (l\<lparr>ps_seq_idx := j\<rparr>)"
    if "child_index k (cn_head par) = None" for k j
  proof -
    have "conf_wf (set_val (Some value) (set_name (Some k) gp_conf_node_new))" by (simp add: gp_conf_node_new_def)
    then show ?thesis using grows_insert [OF assms(1) that] valid_node_grows [OF assms(2)] by (simp add: step_ok_def)
  qed
  ultimately show ?thesis unfolding seq_scalar_def
    by (auto intro!: run_ok_bindR [OF next_seq_name_ok] simp: deref_node_def gp_conf_node_lookup_child_def Let_def split: option.splits)
qed

lemma key_scalar_ok:
  assumes "conf_wf par" and "valid_node par (ps_node l)"
  shows "run_ok dirname (\<lambda>(r, l'). step_ok par r l') (Some (key_scalar (Some par) l value))"
proof -
  define par1 where "par1 = (if cn_is_seq par \<noteq> 0 \<and> cn_val par = None then set_val (Some value) par else par)"
  have g: "grows par par1" using grows_fields [OF assms(1), of par1] by (simp add: par1_def)
  note wf1 = grows_wf [OF g]
  have "step_ok par (Some (set_head ((cn_head par1)[i := c]) par1)) (l\<lparr>ps_node := Some value, ps_state := CONF_VAL\<rparr>)"
    if i: "child_index value (cn_head par1) = Some i" and c: "keeps (cn_head par1 ! i) c" for i c
  proof -
    have "Some value \<in> child_names par1" using child_index_None [of "value" "cn_head par1"] i by (auto simp: child_names_def)
    then show ?thesis using grows_replace [OF wf1 i c] grows_trans [OF g] by (auto simp: step_ok_def valid_node_def grows_def)
  qed
  moreover have "keeps (cn_head par1 ! i) (if cn_final (cn_head par1 ! i) = 0 then gp_conf_node_prune (cn_head par1 ! i) else cn_head par1 ! i)"
    if "child_index value (cn_head par1) = Some i" for i
    using wf_parts(3) [OF wf1] child_index_Some [OF that] keeps_prune keeps_refl by simp
  moreover have "step_ok par (Some (insert_tail par1 (set_name (Some value) gp_conf_node_new))) (l\<lparr>ps_node := Some value, ps_state := CONF_VAL\<rparr>)"
    if "child_index value (cn_head par1) = None"
  proof -
    have "conf_wf (set_name (Some value) gp_conf_node_new)" by (simp add: gp_conf_node_new_def)
    then show ?thesis using grows_insert [OF wf1 that] grows_trans [OF g]
      by (auto simp: step_ok_def valid_node_def child_names_def insert_tail_def)
  qed
  moreover have "step_ok par (Some par) (l\<lparr>ps_state := CONF_INCLUDE\<rparr>)" using assms grows_refl by (simp add: step_ok_def)
  moreover have "key_scalar (Some par) l value =
      (if value = ''include'' then Inr (Some par, l\<lparr>ps_state := CONF_INCLUDE\<rparr>)
       else case child_index value (cn_head par1) of
         Some i \<Rightarrow> Inr (Some (set_head ((cn_head par1)[i := if cn_final (cn_head par1 ! i) = 0 then gp_conf_node_prune (cn_head par1 ! i)
           else cn_head par1 ! i]) par1), l\<lparr>ps_node := Some value, ps_state := CONF_VAL\<rparr>)
       | None \<Rightarrow> Inr (Some (insert_tail par1 (set_name (Some value) gp_conf_node_new)), l\<lparr>ps_node := Some value, ps_state := CONF_VAL\<rparr>))"
    unfolding key_scalar_def deref_node_def gp_conf_node_lookup_child_def Let_def par1_def by simp
  ultimately show ?thesis by (cases "child_index value (cn_head par1)") simp_all
qed

lemma handle_scalar_ok:
  assumes "conf_wf par" and "valid_node par (ps_node l)"
    and "\<And>n p. conf_wf n \<Longrightarrow> run_ok dirname (\<lambda>(ret, _, r). grown n r) (rec p (Some n))"
  shows "run_ok dirname (\<lambda>(_, r, l'). step_ok par r l') (handle_scalar E dirname rec inseq (Some par) l value tag)"
proof -
  have step: "step_ok par r (l\<lparr>ps_state := s\<rparr>)" "step_ok par r l" if "grown par r" for r s
    using that valid_node_grows [OF assms(2)] by (auto simp: step_ok_def grown_def)
  have inc: "run_ok dirname (\<lambda>(_, r). grown n r) (gp_conf_yaml_handle_include E dirname rec (Some n) value)" if "conf_wf n" for n
    using handle_include_ok [OF that] assms(3) [OF that] by blast
  have set: "grows n (if cn_final n = 0 then set_val (Some value) n else n)" if "conf_wf n" for n
    using grows_fields [OF that] grows_refl [OF that] by simp
  note on_inc = on_node_ok [where P = "\<lambda>_. True" and f = "\<lambda>n. gp_conf_yaml_handle_include E dirname rec n value", OF assms(1,2), simplified, OF inc]
  have on_val: "run_ok dirname (\<lambda>(_, r). grown par r) (on_node (Some par) (ps_node l) (\<lambda>n. bindR (Some (deref_node n)) (\<lambda>n.
      Some (Inr ((), Some (if cn_final n = 0 then set_val (Some value) n else n))))))"
    by (rule on_node_ok [where P = "\<lambda>_. True", OF assms(1,2), simplified]) (simp add: deref_node_def set)
  show ?thesis
  proof (cases "ps_state l")
    case CONF_KEY
    then show ?thesis using step [of "Some par"] grows_refl [OF assms(1)] seq_scalar_ok [OF assms(1,2)] key_scalar_ok [OF assms(1,2)]
      by (auto simp: handle_scalar_def intro!: run_ok_bindR)
  next
    case CONF_VAL
    have "run_ok dirname (\<lambda>(_, r, l'). step_ok par r l') (bindR (on_node (Some par) (ps_node l) (\<lambda>n. gp_conf_yaml_handle_include E dirname rec n value))
      (\<lambda>(ret, parent1). Some (Inr (ret = 0, parent1, if ret = 0 then l\<lparr>ps_state := CONF_KEY\<rparr> else l))))"
      by (rule run_ok_bindR [OF on_inc]) (auto simp: step)
    moreover have "run_ok dirname (\<lambda>(_, r, l'). step_ok par r l') (bindR (on_node (Some par) (ps_node l) (\<lambda>n. bindR (Some (deref_node n)) (\<lambda>n.
        Some (Inr ((), Some (if cn_final n = 0 then set_val (Some value) n else n))))))
      (\<lambda>(_, parent1). Some (Inr (True, parent1, l\<lparr>ps_state := CONF_KEY\<rparr>))))"
      by (rule run_ok_bindR [OF on_val]) (auto simp: step)
    moreover have "run_ok dirname (\<lambda>(_, r, l'). step_ok par r l') (bindR (Some (seq_scalar (Some par) l value)) (\<lambda>r. Some (Inr (True, r))))"
      by (rule run_ok_bindR [OF seq_scalar_ok [OF assms(1,2)]]) auto
    ultimately show ?thesis using CONF_VAL by (simp add: handle_scalar_def)
  next
    case CONF_INCLUDE
    have "run_ok dirname (\<lambda>(_, r, l'). step_ok par r l') (bindR (gp_conf_yaml_handle_include E dirname rec (Some par) value) (\<lambda>(ret, parent1).
            Some (Inr (ret = 0, parent1, if ret = 0 then l\<lparr>ps_state := CONF_KEY\<rparr> else l))))"
      by (rule run_ok_bindR [OF inc [OF assms(1)]]) (auto simp: step)
    moreover have "run_ok dirname (\<lambda>(_, r, l'). step_ok par r l') (bindR (Some (seq_scalar (Some par) l value)) (\<lambda>r. Some (Inr (True, r))))"
      by (rule run_ok_bindR [OF seq_scalar_ok [OF assms(1,2)]]) auto
    ultimately show ?thesis using CONF_INCLUDE by (simp add: handle_scalar_def)
  qed
qed

lemma seq_mapping_ok:
  assumes "conf_wf n"
  shows "run_ok dirname (\<lambda>(n1, c, l1). conf_wf c \<and> (\<exists>j. l1 = l\<lparr>ps_seq_idx := j\<rparr>) \<and> (\<forall>d. keeps c d \<longrightarrow> grows n (insert_tail n1 d)))
    (Some (seq_mapping (Some n) l))"
proof -
  have "conf_wf (set_is_seq 1 (cn_head n ! i)) \<and> (\<forall>d. keeps (set_is_seq 1 (cn_head n ! i)) d \<longrightarrow> grows n (insert_tail (remove_child i n) d))"
    if i: "child_index k (cn_head n) = Some i" for i k
  proof -
    have "conf_wf (cn_head n ! i)" using wf_parts(3) [OF assms] child_index_Some [OF i] by simp
    from grows_fields [OF this, of "set_is_seq 1 (cn_head n ! i)"]
    have "keeps (cn_head n ! i) (set_is_seq 1 (cn_head n ! i))" "conf_wf (set_is_seq 1 (cn_head n ! i))" by (simp_all add: grows_def keeps_def)
    then show ?thesis using grows_move [OF assms i] keeps_trans by blast
  qed
  moreover have "conf_wf (set_is_seq 1 (set_name (Some k) gp_conf_node_new)) \<and>
      (\<forall>d. keeps (set_is_seq 1 (set_name (Some k) gp_conf_node_new)) d \<longrightarrow> grows n (insert_tail n d))"
    if "child_index k (cn_head n) = None" for k
    using grows_insert [OF assms that] by (simp add: keeps_def) (simp add: gp_conf_node_new_def)
  ultimately show ?thesis unfolding seq_mapping_def
    by (auto intro!: run_ok_bindR [OF next_seq_name_ok] simp: deref_node_def gp_conf_node_lookup_child_def Let_def split: option.splits)
qed

text \<open>A finished call: it returns 0 or -1 and the parent has grown.\<close>

definition parsed_ok :: "gp_conf_node \<Rightarrow> int \<times> 'p \<times> gp_conf_node option \<Rightarrow> bool" where
  "parsed_ok par x \<longleftrightarrow> fst x \<in> {0, -1} \<and> grown par (snd (snd x))"

lemma parsed_ok_simp [simp]: "parsed_ok par (ret, p, r) \<longleftrightarrow> (ret = 0 \<or> ret = -1) \<and> grown par r"
  by (simp add: parsed_ok_def)

lemma parse_loop_ok:
  "\<forall>par inseq rlevel p. conf_wf par \<longrightarrow>
     run_ok dirname (parsed_ok par) (gp_conf_yaml_parse fuel E dirname p (Some par) inseq rlevel)"
  "\<forall>par inseq rlevel p l. conf_wf par \<longrightarrow> valid_node par (ps_node l) \<longrightarrow>
    run_ok dirname (parsed_ok par) (parse_loop fuel E dirname inseq rlevel p (Some par) l)"
proof (induction fuel)
  case 0
  case 1
  show ?case by (simp add: gp_conf_yaml_parse.simps parse_loop.simps grows_refl)
  case 2
  show ?case by (simp add: parse_loop.simps)
next
  case (Suc fuel)
  note IH = Suc.IH(1) [rule_format] Suc.IH(2) [rule_format]
  have more: "run_ok dirname (parsed_ok par) (parse_loop fuel E dirname inseq rlevel q r l')" if s: "step_ok par r l'" for par inseq rlevel q r l'
  proof -
    obtain par' where p: "r = Some par'" "grows par par'" "valid_node par' (ps_node l')" using s by (auto simp: step_ok_def)
    have "run_ok dirname (parsed_ok par') (parse_loop fuel E dirname inseq rlevel q r l')"
      unfolding p(1) by (rule IH(2) [OF grows_wf [OF p(2)] p(3)])
    then show ?thesis by (rule run_ok_mono) (auto simp: parsed_ok_def grown_trans [OF p(2)])
  qed
  have rec: "run_ok dirname (\<lambda>(ret, _, r). grown n r) (gp_conf_yaml_parse fuel E dirname q (Some n) False 0)" if "conf_wf n" for n q
    by (rule run_ok_mono [OF IH(1) [OF that, of q False 0]]) auto
  have loop: "run_ok dirname (parsed_ok par) (parse_loop (Suc fuel) E dirname inseq rlevel p (Some par) l)"
    if wf: "conf_wf par" and v: "valid_node par (ps_node l)" for par inseq rlevel p l
  proof (cases "yaml_parser_parse E p")
    case None
    then show ?thesis using wf by (simp add: parse_loop.simps grows_refl)
  next
    case (Some x)
    then obtain event q where e: "yaml_parser_parse E p = Some (event, q)" by (cases x) auto
    have here: "step_ok par (Some par) l" using wf v by (simp add: step_ok_def grows_refl)
    have after: "step_ok par r (l\<lparr>ps_state := s\<rparr>)" if "grown par r" for r s
      using that valid_node_grows [OF v] by (auto simp: step_ok_def grown_def)
    have after': "step_ok par r (l'\<lparr>ps_state := s\<rparr>)" if "grown par r" "ps_node l' = ps_node l" for r s l'
      using that valid_node_grows [OF v] by (auto simp: step_ok_def grown_def)
    show ?thesis
    proof (cases event)
      case (Document_Start ver)
      then show ?thesis using e wf more [OF here] by (auto simp: parse_loop.simps grows_refl split: option.splits)
    next
      case (Scalar val tag)
      show ?thesis unfolding parse_loop.simps e option.case prod.case Scalar yaml_event.case
      proof (rule run_ok_bindR [OF handle_scalar_ok [OF wf v rec]])
        fix x :: "bool \<times> gp_conf_node option \<times> parse_state" assume "case x of (_, r, l') \<Rightarrow> step_ok par r l'"
        then obtain ok r l' where x: "x = (ok, r, l')" "step_ok par r l'" by (cases x) auto
        then have "grown par r" by (auto simp: step_ok_def grown_def)
        then show "run_ok dirname (parsed_ok par) (case x of (ok, parent, l) \<Rightarrow>
            if ok then parse_loop fuel E dirname inseq rlevel q parent l else Some (Inr (-1, q, parent)))"
          using more [OF x(2)] by (simp add: x(1))
      qed
    next
      case Sequence_Start
      have "run_ok dirname (\<lambda>(_, r). grown par r) (on_node (Some par) (ps_node l) (\<lambda>n.
          bindR (gp_conf_yaml_parse fuel E dirname q n True rlevel) (\<lambda>(ret, parser, n).
            if ret \<noteq> 0 then Some (Inr ((ret, parser), n))
            else bindR (Some (deref_node n)) (\<lambda>n. Some (Inr ((ret, parser), Some (set_is_seq 1 n)))))))"
      proof (rule on_node_ok [where P = "\<lambda>_. True", OF wf v, simplified], rule run_ok_bindR [OF IH(1)], assumption)
        fix n and x :: "int \<times> 'a \<times> gp_conf_node option" assume x: "parsed_ok n x"
        then obtain ret p' n' where n': "x = (ret, p', Some n')" "grows n n'" by (cases x) (auto simp: grown_def)
        then have "grows n' (set_is_seq 1 n')" using grows_fields [OF grows_wf [OF n'(2)]] by simp
        then have "grows n (set_is_seq 1 n')" using grows_trans [OF n'(2)] by blast
        then show "run_ok dirname (\<lambda>(_, r). grown n r) (case x of (ret, parser, n) \<Rightarrow>
            if ret \<noteq> 0 then Some (Inr ((ret, parser), n))
            else bindR (Some (deref_node n)) (\<lambda>n. Some (Inr ((ret, parser), Some (set_is_seq 1 n)))))"
          using n' by (simp add: deref_node_def)
      qed
      then show ?thesis unfolding parse_loop.simps e option.case prod.case Sequence_Start yaml_event.case
        by (rule run_ok_bindR) (auto intro!: more after)
    next
      case Mapping_Start
      have "run_ok dirname (\<lambda>(_, r). grown par r) (on_node (Some par) (ps_node l) (\<lambda>n.
          bindR (gp_conf_yaml_parse fuel E dirname q n inseq rlevel) (\<lambda>(ret, parser, n). Some (Inr ((ret, parser), n)))))"
        by (rule on_node_ok [where P = "\<lambda>_. True", OF wf v, simplified], rule run_ok_bindR [OF IH(1)]) auto
      moreover have "run_ok dirname (\<lambda>((ret, parser, l'), r). ps_node l' = ps_node l \<and> grown par r) (on_node (Some par) (ps_node l) (\<lambda>n.
          bindR (Some (seq_mapping n l)) (\<lambda>(n, seq_node, l).
          bindR (gp_conf_yaml_parse fuel E dirname q (Some seq_node) False rlevel) (\<lambda>(ret, parser, seq_node).
            Some (Inr ((ret, parser, l), map_option (insert_tail n) seq_node))))))"
      proof -
        have "run_ok dirname (\<lambda>(x, r). ps_node (snd (snd x)) = ps_node l \<and> grown n r) (bindR (Some (seq_mapping (Some n) l)) (\<lambda>(n, seq_node, l).
          bindR (gp_conf_yaml_parse fuel E dirname q (Some seq_node) False rlevel) (\<lambda>(ret, parser, seq_node).
            Some (Inr ((ret, parser, l), map_option (insert_tail n) seq_node)))))" if "conf_wf n" for n
          by (rule run_ok_bindR [OF seq_mapping_ok [OF that]]) (auto intro!: run_ok_bindR [OF IH(1)] simp: grown_def grows_def)
        from on_node_ok [where P = "\<lambda>x. ps_node (snd (snd x)) = ps_node l", OF wf v, OF this]
        show ?thesis by (rule run_ok_mono) auto
      qed
      ultimately show ?thesis unfolding parse_loop.simps e option.case prod.case Mapping_Start yaml_event.case
        by (cases inseq) (auto intro!: run_ok_bindR more after')
    qed (use e wf more [OF here] in \<open>simp_all add: parse_loop.simps grows_refl\<close>)
  qed
  case 1
  show ?case using loop [of _ parse_init] by (simp add: gp_conf_yaml_parse.simps grows_refl parse_init_def valid_node_def)
  case 2
  show ?case using loop by blast
qed

section \<open>Loading keeps the final values\<close>

definition loader_inv :: "loader \<Rightarrow> bool" where
  "loader_inv st \<longleftrightarrow> conf_inv (store_of st)"

lemma store_simps [simp]:
  "conf_root (store_of st) = conf_root st" "conf_root (put_store st cs) = conf_root cs" "conf_dirname (put_store st cs) = conf_dirname st"
  by (simp_all add: store_of_def put_store_def)

lemma conf_inv_iff: "conf_inv cs \<longleftrightarrow> (\<exists>r. conf_root cs = Some r \<and> conf_wf r)"
  by (simp add: conf_inv_def)

lemma grows_get:
  assumes "grows r r'" and "conf_root cs' = Some r'" and "conf_root cs = Some r" and "conf_view cs (split_dots name) = Some (Some val, f)" "f \<noteq> 0"
    and "NUL \<notin> set name" "name_fits name"
  shows "gp_conf_get cs' name vptr = Inr (1, Some val)"
proof -
  have "conf_inv cs'" using assms(1,2) grows_wf by (auto simp: conf_inv_def)
  moreover have "conf_view cs' (split_dots name) = Some (Some val, f)" using assms by (simp add: conf_view_def grows_def keeps_def)
  ultimately show ?thesis using conf_get_correct [of cs' name vptr] assms(6,7) by (simp add: spec_get_def)
qed

lemma dirname_set: "conf_dirname (gp_conf_yaml_set_conf_dirname st filename) \<noteq> None" "conf_root (gp_conf_yaml_set_conf_dirname st filename) = conf_root st"
  by (simp_all add: gp_conf_yaml_set_conf_dirname_def Let_def split: option.splits)

lemma run_ok_known_dir: "run_ok (Some d) P r = run_ok (Some []) P r"
proof -
  have "yaml_error (Some d) = yaml_error (Some [])" by (simp add: fun_eq_iff yaml_error_def)
  then show ?thesis by (simp only: run_ok_def)
qed

lemma load_file_grows:
  assumes "conf_root st = Some r" and "conf_wf r"
  shows "run_ok (Some []) (\<lambda>(ret, st'). ret \<in> {0, -1} \<and> grown r (conf_root st')) (gp_conf_yaml_load_file fuel E filename st)"
proof -
  define st1 where "st1 = (if conf_dirname st = None then gp_conf_yaml_set_conf_dirname st filename else st)"
  obtain d where d: "conf_dirname st1 = Some d" using dirname_set(1) [of st filename] by (cases "conf_dirname st") (auto simp: st1_def)
  have "run_ok (Some d) (parsed_ok r) (gp_conf_yaml_parse fuel E (Some d) p (Some r) False 0)" for p
    by (rule parse_loop_ok(1) [rule_format, OF assms(2)])
  then have "run_ok (Some []) (parsed_ok r) (gp_conf_yaml_parse fuel E (Some d) p (Some r) False 0)" for p
    by (simp only: run_ok_known_dir [of d])
  then have "run_ok (Some []) (\<lambda>(ret, st'). ret \<in> {0, -1} \<and> grown r (conf_root st'))
      (bindR (gp_conf_yaml_parse fuel E (conf_dirname st1) p (Some r) False 0) (\<lambda>(ret, _, root1). Some (Inr (ret, st1\<lparr>conf_root := root1\<rparr>))))" for p
    unfolding d by (rule run_ok_bindR) auto
  then show ?thesis using assms grows_refl
    unfolding gp_conf_yaml_load_file_def Let_def st1_def [symmetric] by (simp split: option.split)
qed
end
