(* ===== verification/Gp_Yaml_Ends.thy ===== *)
theory Gp_Yaml_Ends
  imports Gp_Yaml
begin

text \<open>
  Termination of the YAML loader (\<open>base/gp_conf_yaml_loader.c\<close>). The parser of a file delivers finitely many events, and
  the loader returns from every file whose inclusions have no cycle. The fuel that is enough is one unit for each event of
  the file and what the included files need.
\<close>

section \<open>Finite inputs\<close>

text \<open>
  The events \<open>es\<close> that the parser \<open>p\<close> delivers, inside \<open>d\<close> open sequences and mappings, until the end of the stream or an
  error. As in the grammar of the YAML parser the stream does not end inside a sequence or a mapping; what follows the
  end of the outermost one of a document does not matter here.
\<close>

fun delivers :: "'p yaml_env \<Rightarrow> nat \<Rightarrow> 'p \<Rightarrow> yaml_event list \<Rightarrow> bool" where
  "delivers E d p [] \<longleftrightarrow> yaml_parser_parse E p = None"
| "delivers E d p (e # es) \<longleftrightarrow>
     (case yaml_parser_parse E p of
        None \<Rightarrow> False
      | Some (e', q) \<Rightarrow> e' = e \<and>
          (case e of
             Stream_End \<Rightarrow> d = 0
           | Sequence_Start \<Rightarrow> delivers E (Suc d) q es
           | Mapping_Start \<Rightarrow> delivers E (Suc d) q es
           | Sequence_End \<Rightarrow> d = 0 \<or> delivers E (d - 1) q es
           | Mapping_End \<Rightarrow> d = 0 \<or> delivers E (d - 1) q es
           | _ \<Rightarrow> delivers E d q es))"

text \<open>
  The names that a file may include: a scalar with the tag \<open>!include\<close>, and the scalar after a scalar \<open>include\<close>. \<open>k\<close> says
  that the last one was such a scalar.
\<close>

fun included :: "bool \<Rightarrow> yaml_event list \<Rightarrow> string list" where
  "included k [] = []"
| "included k (e # es) =
     (case e of
        Scalar v tag \<Rightarrow> (if k \<or> tag = Some ''!include'' then [v] else []) @ included (v = ''include'') es
      | Other_Event \<Rightarrow> included k es
      | Document_Start ver \<Rightarrow> included k es
      | _ \<Rightarrow> included False es)"

text \<open>Every file is finite, and a file only includes files of a smaller rank.\<close>

definition files_end :: "'p yaml_env \<Rightarrow> string option \<Rightarrow> (string \<Rightarrow> nat) \<Rightarrow> bool" where
  "files_end E dirname rank \<longleftrightarrow>
     (\<forall>f p. open_input E f = Some p \<longrightarrow>
       (\<exists>es. delivers E 0 p es \<and>
         (\<forall>v \<in> set (included False es). \<forall>g. include_name dirname v = Inr g \<and> open_input E g \<noteq> None \<longrightarrow> rank g < rank f)))"

section \<open>Results that more fuel does not change\<close>

definition settled :: "nat \<Rightarrow> (nat \<Rightarrow> 'a run) \<Rightarrow> ('a res \<Rightarrow> bool) \<Rightarrow> bool" where
  "settled N F P \<longleftrightarrow> (\<exists>r. (\<forall>f \<ge> N. F f = Some r) \<and> P r)"

lemma settled_const: "P r \<Longrightarrow> settled N (\<lambda>_. Some r) P"
  by (auto simp: settled_def)

lemma settled_if: "(c \<Longrightarrow> settled N F P) \<Longrightarrow> (\<not> c \<Longrightarrow> settled N G P) \<Longrightarrow> settled N (\<lambda>f. if c then F f else G f) P"
  by (cases c) simp_all

lemma settled_mono: "settled M F P \<Longrightarrow> M \<le> N \<Longrightarrow> (\<And>r. P r \<Longrightarrow> Q r) \<Longrightarrow> settled N F Q"
  unfolding settled_def by (meson le_trans)

lemma settled_Suc:
  assumes "settled N (\<lambda>f. F (Suc f)) P"
  shows "settled (Suc N) F P"
proof -
  obtain r where r: "\<forall>f \<ge> N. F (Suc f) = Some r" "P r" using assms by (auto simp: settled_def)
  have "F f = Some r" if "Suc N \<le> f" for f using that r(1) by (cases f) auto
  with r(2) show ?thesis by (auto simp: settled_def)
qed

lemma settled_bindR:
  assumes "settled N G Q" and "\<And>e. P (Inl e)" and "\<And>x. Q (Inr x) \<Longrightarrow> settled N (\<lambda>f. H f x) P"
  shows "settled N (\<lambda>f. bindR (G f) (H f)) P"
proof -
  obtain r where r: "\<forall>f \<ge> N. G f = Some r" "Q r" using assms(1) by (auto simp: settled_def)
  show ?thesis
  proof (cases r)
    case (Inl e)
    then show ?thesis using r assms(2) [of e] by (auto simp: settled_def)
  next
    case (Inr x)
    then show ?thesis using r assms(3) [of x] by (auto simp: settled_def)
  qed
qed

lemma settled_on_node:
  assumes "\<And>n. settled N (\<lambda>f. F f n) Q" and "\<And>e. P (Inl e)" and "\<And>x n n'. Q (Inr (x, n)) \<Longrightarrow> P (Inr (x, n'))"
  shows "settled N (\<lambda>f. on_node parent nd (F f)) P"
proof (cases parent)
  case None
  have "P r" if "Q r" for r using that assms(2,3) by (cases r) auto
  then show ?thesis unfolding on_node_def None using settled_mono [OF assms(1)] by simp
next
  case (Some par)
  have "settled N (\<lambda>f. bindR (F f (Some n)) (\<lambda>(x, n1). Some (Inr (x, map_option (put_node par nd) n1)))) P" for n
    by (rule settled_bindR [where Q = Q]) (use assms in \<open>auto intro!: settled_const\<close>)
  then show ?thesis unfolding on_node_def Some
    by (cases "node_of par nd") (auto intro!: settled_const assms(2))
qed

section \<open>The loop ends\<close>

text \<open>What is left of the input when a nested call has returned 0.\<close>

definition rest_of :: "'p yaml_env \<Rightarrow> nat \<Rightarrow> bool \<Rightarrow> yaml_event list \<Rightarrow> 'p \<Rightarrow> bool" where
  "rest_of E d k es q \<longleftrightarrow>
     (\<exists>es'. delivers E d q es' \<and> length es' < length es \<and> set (included False es') \<subseteq> set (included k es))"

definition after_loop :: "'p yaml_env \<Rightarrow> nat \<Rightarrow> bool \<Rightarrow> yaml_event list \<Rightarrow> (int \<times> 'p \<times> gp_conf_node option) res \<Rightarrow> bool" where
  "after_loop E d k es r \<longleftrightarrow> (\<forall>q par. r = Inr (0, q, par) \<and> 0 < d \<longrightarrow> rest_of E (d - 1) k es q)"

definition inclusions_settled :: "nat \<Rightarrow> 'p yaml_env \<Rightarrow> string option \<Rightarrow> string list \<Rightarrow> bool" where
  "inclusions_settled N E dn vs \<longleftrightarrow>
     (\<forall>v \<in> set vs. \<forall>g q n. include_name dn v = Inr g \<longrightarrow> open_input E g = Some q \<longrightarrow>
       settled N (\<lambda>f. gp_conf_yaml_parse f E dn q n False 0) (\<lambda>_. True))"

lemma after_loop_fails [simp]: "after_loop E d k es (Inl e)" "a \<noteq> 0 \<Longrightarrow> after_loop E d k es (Inr (a, x))"
  by (auto simp: after_loop_def)

lemma after_loop_mono:
  "after_loop E d k es r \<Longrightarrow> length es \<le> length fs \<Longrightarrow> set (included k es) \<subseteq> set (included j fs) \<Longrightarrow> after_loop E d j fs r"
  unfolding after_loop_def rest_of_def by (blast intro: less_le_trans)

lemma include_settled:
  assumes "inclusions_settled N E dn vs" and "v \<in> set vs"
  shows "settled N (\<lambda>f. gp_conf_yaml_handle_include E dn (\<lambda>q n. gp_conf_yaml_parse f E dn q n False 0) parent v) (\<lambda>_. True)"
proof (cases "yaml_parser_initialize E")
  case True
  show ?thesis
  proof (cases "include_name dn v")
    case (Inl e)
    then show ?thesis using True by (simp add: gp_conf_yaml_handle_include_def settled_const)
  next
    case (Inr g)
    show ?thesis
    proof (cases "open_input E g")
      case (Some q)
      then have "settled N (\<lambda>f. gp_conf_yaml_parse f E dn q parent False 0) (\<lambda>_. True)"
        using assms Inr by (auto simp: inclusions_settled_def)
      then have "settled N (\<lambda>f. bindR (gp_conf_yaml_parse f E dn q parent False 0)
          (\<lambda>(ret, _, parent1). Some (Inr (if ret \<noteq> 0 then -1 else 0, parent1)))) (\<lambda>_. True)"
        by (rule settled_bindR) (auto intro!: settled_const split: prod.splits)
      then show ?thesis using True Inr Some by (simp add: gp_conf_yaml_handle_include_def)
    qed (use True Inr in \<open>simp add: gp_conf_yaml_handle_include_def settled_const\<close>)
  qed
qed (simp add: gp_conf_yaml_handle_include_def settled_const)

text \<open>A scalar: only the key \<open>include\<close> makes the loop wait for the name of a file.\<close>

lemma scalar_settled:
  assumes "inclusions_settled N E dn vs" and "k \<or> tag = Some ''!include'' \<Longrightarrow> v \<in> set vs"
    and "\<not> inseq \<and> ps_state l = CONF_INCLUDE \<longrightarrow> k"
  shows "settled N (\<lambda>f. handle_scalar E dn (\<lambda>q n. gp_conf_yaml_parse f E dn q n False 0) inseq parent l v tag)
    (\<lambda>r. \<forall>par l'. r = Inr (True, par, l') \<and> \<not> inseq \<and> ps_state l' = CONF_INCLUDE \<longrightarrow> v = ''include'')"
    (is "settled N _ ?P")
proof -
  consider (empty) "ps_state l = CONF_KEY" "v = []" | (inseq) "inseq" "\<not> (ps_state l = CONF_KEY \<and> v = [])"
    | (incl) "\<not> inseq" "ps_state l = CONF_INCLUDE" | (key) "\<not> inseq" "ps_state l = CONF_KEY" "v \<noteq> []"
    | (tag) "\<not> inseq" "ps_state l = CONF_VAL" "tag = Some ''!include''" | (val) "\<not> inseq" "ps_state l = CONF_VAL" "tag \<noteq> Some ''!include''"
    by (cases "ps_state l") auto
  then show ?thesis
  proof cases
    case empty
    then show ?thesis by (auto simp: handle_scalar_def intro!: settled_const)
  next
    case inseq
    then show ?thesis by (cases "seq_scalar parent l v") (auto simp: handle_scalar_def intro!: settled_const)
  next
    case incl
    have "settled N (\<lambda>f. bindR (gp_conf_yaml_handle_include E dn (\<lambda>q n. gp_conf_yaml_parse f E dn q n False 0) parent v)
        (\<lambda>(ret, parent1). Some (Inr (ret = 0, parent1, if ret = 0 then l\<lparr>ps_state := CONF_KEY\<rparr> else l)))) ?P"
      by (rule settled_bindR [OF include_settled [OF assms(1)]]) (use assms(2,3) incl in \<open>auto intro!: settled_const split: prod.splits\<close>)
    then show ?thesis using incl by (simp add: handle_scalar_def)
  next
    case key
    then show ?thesis
      by (cases "key_scalar parent l v")
        (auto simp: handle_scalar_def key_scalar_def bindE_Inr_iff Let_def intro!: settled_const split: if_splits option.splits)
  next
    case tag
    have "settled N (\<lambda>f. bindR (on_node parent (ps_node l) (\<lambda>n. gp_conf_yaml_handle_include E dn (\<lambda>q n. gp_conf_yaml_parse f E dn q n False 0) n v))
        (\<lambda>(ret, parent1). Some (Inr (ret = 0, parent1, if ret = 0 then l\<lparr>ps_state := CONF_KEY\<rparr> else l)))) ?P"
      by (rule settled_bindR [OF settled_on_node [where Q = "\<lambda>_. True" and P = "\<lambda>_. True"]])
        (use include_settled [OF assms(1)] assms(2) tag in \<open>auto intro!: settled_const split: prod.splits\<close>)
    then show ?thesis using tag by (simp add: handle_scalar_def)
  next
    case val
    let ?F = "\<lambda>n. bindR (Some (deref_node n)) (\<lambda>n. Some (Inr ((), Some (if cn_final n = 0 then set_val (Some v) n else n))))"
    have "settled N (\<lambda>f. ?F n) (\<lambda>_. True)" for n by (cases "deref_node n") (auto intro!: settled_const)
    then have "settled N (\<lambda>f. bindR (on_node parent (ps_node l) ?F) (\<lambda>(_, parent1). Some (Inr (True, parent1, l\<lparr>ps_state := CONF_KEY\<rparr>)))) ?P"
      by (intro settled_bindR [OF settled_on_node [where Q = "\<lambda>_. True" and P = "\<lambda>_. True"]]) (auto intro!: settled_const)
    then show ?thesis using val by (simp add: handle_scalar_def)
  qed
qed

lemma inclusions_settled_mono:
  "inclusions_settled N E dn vs \<Longrightarrow> N \<le> M \<Longrightarrow> set ws \<subseteq> set vs \<Longrightarrow> inclusions_settled M E dn ws"
  unfolding inclusions_settled_def by (blast intro: settled_mono)

text \<open>The start of a sequence or a mapping: a nested call, and the loop goes on behind what it has read.\<close>

lemma nested_settled:
  assumes nested: "\<And>n s. settled M (\<lambda>f. gp_conf_yaml_parse f E dn q n s rl) (after_loop E (Suc d) False rest)"
    and go_on: "\<And>x n l'. rest_of E d False rest x \<Longrightarrow> settled M (\<lambda>f. parse_loop f E dn inseq rl x n (l'\<lparr>ps_state := CONF_KEY\<rparr>)) P"
    and fails: "\<And>e. P (Inl e)" "\<And>x. P (Inr (-1, x))"
    and e: "yaml_parser_parse E p = Some (e, q)" "e = Sequence_Start \<or> e = Mapping_Start"
  shows "settled M (\<lambda>f. parse_loop (Suc f) E dn inseq rl p par l) P"
proof -
  have 0: "rest_of E d False rest x" if "after_loop E (Suc d) False rest (Inr (0, x, n))" for x n
    using that by (simp add: after_loop_def)
  consider (s) "e = Sequence_Start" | (i) "e = Mapping_Start" "inseq" | (m) "e = Mapping_Start" "\<not> inseq" using e(2) by blast
  then show ?thesis
  proof cases
    case s
    let ?Q = "\<lambda>r. \<forall>x n. r = Inr ((0, x), n) \<longrightarrow> rest_of E d False rest x"
    have "settled M (\<lambda>f. bindR (gp_conf_yaml_parse f E dn q n True rl) (\<lambda>(ret, x, n). if ret \<noteq> 0 then Some (Inr ((ret, x), n))
        else bindR (Some (deref_node n)) (\<lambda>n. Some (Inr ((ret, x), Some (set_is_seq 1 n)))))) ?Q" for n
      by (rule settled_bindR [OF nested])
        (auto intro!: settled_const settled_if dest: 0 simp: deref_node_def split: option.splits)
    note O = settled_on_node [OF this, of ?Q]
    show ?thesis
      by (simp add: parse_loop.simps e(1) s, rule settled_bindR [OF O])
        (auto intro!: settled_const settled_if fails go_on)
  next
    case i
    let ?Q = "\<lambda>r. \<forall>x l' n. r = Inr ((0, x, l'), n) \<longrightarrow> rest_of E d False rest x"
    have "settled M (\<lambda>f. bindR (Some (seq_mapping n l)) (\<lambda>(n, sn, l).
        bindR (gp_conf_yaml_parse f E dn q (Some sn) False rl) (\<lambda>(ret, x, sn). Some (Inr ((ret, x, l), map_option (insert_tail n) sn))))) ?Q" for n
    proof (cases "seq_mapping n l")
      case (Inr r)
      obtain n' sn l' where r: "r = (n', sn, l')" by (cases r)
      show ?thesis unfolding Inr r bindR_simps prod.case
        by (rule settled_bindR [OF nested]) (auto intro!: settled_const dest: 0)
    qed (simp add: settled_const)
    note O = settled_on_node [OF this, of ?Q]
    show ?thesis
      by (simp add: parse_loop.simps e(1) i, rule settled_bindR [OF O])
        (use go_on i(2) in \<open>auto intro!: settled_const settled_if fails\<close>)
  next
    case m
    let ?Q = "\<lambda>r. \<forall>x n. r = Inr ((0, x), n) \<longrightarrow> rest_of E d False rest x"
    have "settled M (\<lambda>f. bindR (gp_conf_yaml_parse f E dn q n inseq rl) (\<lambda>(ret, x, n). Some (Inr ((ret, x), n)))) ?Q" for n
      by (rule settled_bindR [OF nested]) (auto intro!: settled_const dest: 0)
    note O = settled_on_node [OF this, of ?Q]
    show ?thesis unfolding parse_loop.simps e(1) m(1) option.case prod.case yaml_event.case if_not_P [OF m(2)]
      by (rule settled_bindR [OF O]) (auto intro!: settled_const settled_if fails go_on)
  qed
qed

lemma loop_settled:
  assumes "delivers E d p es" and "inclusions_settled N E dn (included k es)" and "\<not> inseq \<and> ps_state l = CONF_INCLUDE \<longrightarrow> k"
  shows "settled (N + Suc (length es)) (\<lambda>f. parse_loop f E dn inseq rl p par l) (after_loop E d k es)"
  using assms
proof (induction es arbitrary: d p k inseq rl par l rule: length_induct)
  case (1 es)
  show ?case
  proof (cases es)
    case Nil
    then show ?thesis using 1(2) by (auto intro!: settled_Suc settled_const simp: parse_loop.simps)
  next
    case (Cons e rest)
    then obtain q where q: "yaml_parser_parse E p = Some (e, q)" using 1(2) by (auto split: option.splits)
    define M where "M = N + Suc (length rest)"
    have IH: "settled M (\<lambda>f. parse_loop f E dn s r x n l') (after_loop E d' j ws)"
      if "delivers E d' x ws" "length ws \<le> length rest" "set (included j ws) \<subseteq> set (included k es)" "\<not> s \<and> ps_state l' = CONF_INCLUDE \<longrightarrow> j"
      for d' x ws j s r n l'
    proof -
      have "length ws < length es" using that(2) Cons by simp
      moreover have "inclusions_settled N E dn (included j ws)" using inclusions_settled_mono [OF 1(3) order_refl that(3)] .
      ultimately have "settled (N + Suc (length ws)) (\<lambda>f. parse_loop f E dn s r x n l') (after_loop E d' j ws)"
        using 1(1) that(1,4) by blast
      then show ?thesis by (rule settled_mono) (use that(2) in \<open>simp_all add: M_def\<close>)
    qed
    have next_event: "settled M (\<lambda>f. parse_loop f E dn inseq rl q n l') (after_loop E d k es)"
      if "delivers E d q rest" "set (included j rest) \<subseteq> set (included k es)" "\<not> inseq \<and> ps_state l' = CONF_INCLUDE \<longrightarrow> j" for n l' j
      by (rule settled_mono [OF IH [OF that(1) order_refl that(2,3)] order_refl], erule after_loop_mono)
        (use that(2) Cons in simp_all)
    have go_on: "settled M (\<lambda>f. parse_loop f E dn inseq rl x n (l'\<lparr>ps_state := CONF_KEY\<rparr>)) (after_loop E d k es)"
      if rest: "rest_of E d False rest x" and sub: "set (included False rest) \<subseteq> set (included k es)" for n l' x
    proof -
      obtain ws where ws: "delivers E d x ws" "length ws < length rest" "set (included False ws) \<subseteq> set (included False rest)"
        using rest by (auto simp: rest_of_def)
      then have i: "set (included False ws) \<subseteq> set (included k es)" using sub by blast
      have "settled M (\<lambda>f. parse_loop f E dn inseq rl x n (l'\<lparr>ps_state := CONF_KEY\<rparr>)) (after_loop E d False ws)"
        by (rule IH [OF ws(1) _ i]) (use ws(2) in simp_all)
      then show ?thesis by (rule settled_mono [OF _ order_refl], elim after_loop_mono) (use ws(2) i Cons in simp_all)
    qed
    have nested: "settled M (\<lambda>f. gp_conf_yaml_parse f E dn q n s rl) (after_loop E (Suc d) False rest)"
      if "delivers E (Suc d) q rest" "set (included False rest) \<subseteq> set (included k es)" for n s
      using IH [OF that(1) order_refl that(2), of s parse_init "rl + 1" n]
      by (cases "RECURSION_LIMIT < rl") (simp_all add: gp_conf_yaml_parse.simps parse_init_def settled_const)
    have start: "settled M (\<lambda>f. parse_loop (Suc f) E dn inseq rl p par l) (after_loop E d k es)" if "e = Sequence_Start \<or> e = Mapping_Start"
    proof -
      have d: "delivers E (Suc d) q rest" "set (included False rest) \<subseteq> set (included k es)" using 1(2) Cons q that by auto
      show ?thesis by (rule nested_settled [OF nested [OF d] go_on [OF _ d(2)] _ _ q that]) simp_all
    qed
    have "settled M (\<lambda>f. parse_loop (Suc f) E dn inseq rl p par l) (after_loop E d k es)"
    proof (cases e)
      case (Document_Start ver)
      then have "settled M (\<lambda>f. parse_loop f E dn inseq rl q par l) (after_loop E d k es)"
        using 1(2,4) Cons q by (intro next_event [where j = k]) auto
      then show ?thesis using Document_Start q
        by (cases ver) (auto simp: parse_loop.simps intro!: settled_const settled_if split: prod.splits)
    next
      case (Scalar v tag)
      have "inclusions_settled M E dn (included k es)"
        by (rule inclusions_settled_mono [OF 1(3)]) (simp_all add: M_def)
      then have S: "settled M (\<lambda>f. handle_scalar E dn (\<lambda>q n. gp_conf_yaml_parse f E dn q n False 0) inseq par l v tag)
          (\<lambda>r. \<forall>par l'. r = Inr (True, par, l') \<and> \<not> inseq \<and> ps_state l' = CONF_INCLUDE \<longrightarrow> v = ''include'')"
        by (rule scalar_settled [where k = k]) (use Cons Scalar 1(4) in auto)
      have n: "delivers E d q rest" "set (included (v = ''include'') rest) \<subseteq> set (included k es)" using 1(2) Cons q Scalar by auto
      show ?thesis
        by (simp add: parse_loop.simps q Scalar, rule settled_bindR [OF S])
          (auto intro!: settled_const settled_if next_event [OF n])
    next
      case Other_Event
      then have "settled M (\<lambda>f. parse_loop f E dn inseq rl q par l) (after_loop E d k es)"
        using 1(2,4) Cons q by (intro next_event [where j = k]) auto
      then show ?thesis using Other_Event q by (simp add: parse_loop.simps)
    qed (use q 1(2) Cons start in \<open>auto simp: parse_loop.simps after_loop_def rest_of_def intro!: settled_const\<close>)
    then show ?thesis unfolding Cons M_def by (simp add: settled_Suc)
  qed
qed

section \<open>Files\<close>

lemma file_settled:
  assumes "files_end E dn rank" and "open_input E g = Some p"
  shows "\<exists>N. \<forall>n. settled N (\<lambda>f. gp_conf_yaml_parse f E dn p n False 0) (\<lambda>_. True)"
  using assms(2)
proof (induction "rank g" arbitrary: g p rule: less_induct)
  case less
  obtain es where es: "delivers E 0 p es"
    "\<And>v h. v \<in> set (included False es) \<Longrightarrow> include_name dn v = Inr h \<Longrightarrow> open_input E h \<noteq> None \<Longrightarrow> rank h < rank g"
    using assms(1) less.prems unfolding files_end_def by blast
  have "\<exists>N. inclusions_settled N E dn vs" if "set vs \<subseteq> set (included False es)" for vs
    using that
  proof (induction vs)
    case (Cons v vs)
    obtain N1 where N1: "inclusions_settled N1 E dn vs" using Cons by auto
    have "\<exists>N2. inclusions_settled N2 E dn [v]"
    proof (cases "\<exists>h q. include_name dn v = Inr h \<and> open_input E h = Some q")
      case True
      then obtain h q where h: "include_name dn v = Inr h" "open_input E h = Some q" by blast
      then have "rank h < rank g" using es(2) [of v h] Cons.prems by simp
      from less.hyps [OF this h(2)] show ?thesis using h by (auto simp: inclusions_settled_def)
    qed (auto simp: inclusions_settled_def)
    then obtain N2 where N2: "inclusions_settled N2 E dn [v]" by blast
    have "inclusions_settled (max N1 N2) E dn vs" "inclusions_settled (max N1 N2) E dn [v]"
      by (auto intro: inclusions_settled_mono [OF N1] inclusions_settled_mono [OF N2])
    then show ?case by (intro exI [of _ "max N1 N2"]) (simp add: inclusions_settled_def)
  qed (simp add: inclusions_settled_def)
  then obtain N where N: "inclusions_settled N E dn (included False es)" by blast
  have "settled (N + Suc (length es)) (\<lambda>f. gp_conf_yaml_parse f E dn p n False 0) (\<lambda>_. True)" for n
    using settled_mono [OF loop_settled [OF es(1) N, of False parse_init 1 n] order_refl, of "\<lambda>_. True"]
    by (simp add: gp_conf_yaml_parse.simps RECURSION_LIMIT_def parse_init_def)
  then show ?case by blast
qed

text \<open>The directory that included names are relative to, while \<open>filename\<close> is loaded.\<close>

definition load_dirname :: "string \<Rightarrow> loader \<Rightarrow> string option" where
  "load_dirname filename st =
     conf_dirname (if conf_dirname st = None then gp_conf_yaml_set_conf_dirname st filename else st)"

lemma load_file_settled:
  assumes "files_end E (load_dirname filename st) rank"
  shows "\<exists>N. settled N (\<lambda>f. gp_conf_yaml_load_file f E filename st) (\<lambda>_. True)"
proof (cases "yaml_parser_initialize E \<and> \<not> is_directory E filename \<and> open_input E filename \<noteq> None")
  case True
  then obtain p where p: "open_input E filename = Some p" by blast
  define st1 where "st1 = (if conf_dirname st = None then gp_conf_yaml_set_conf_dirname st filename else st)"
  obtain N where N: "settled N (\<lambda>f. gp_conf_yaml_parse f E (conf_dirname st1) p (conf_root st) False 0) (\<lambda>_. True)"
    using file_settled [OF assms p] by (auto simp: load_dirname_def st1_def)
  have "settled N (\<lambda>f. bindR (gp_conf_yaml_parse f E (conf_dirname st1) p (conf_root st) False 0)
      (\<lambda>(ret, _, root1). Some (Inr (ret, st1\<lparr>conf_root := root1\<rparr>)))) (\<lambda>_. True)"
    by (rule settled_bindR [OF N]) (auto intro: settled_const split: prod.splits)
  then show ?thesis using True p by (auto simp: gp_conf_yaml_load_file_def Let_def st1_def [symmetric])
next
  case False
  then have "gp_conf_yaml_load_file f E filename st = Some (Inr (-1, st))" for f
    by (auto simp: gp_conf_yaml_load_file_def Let_def)
  then show ?thesis by (simp add: settled_const)
qed

end
