(* ===== verification/Gp_Yaml_Correct.thy ===== *)
theory Gp_Yaml_Correct
  imports Gp_Yaml_Inv Gp_Yaml_Ends
begin

text \<open>
  Correctness of the YAML loader: the tree it builds from a document, the values that are read back, values that are
  final, the version of a document, and files that include themselves.
\<close>

section \<open>Documents\<close>

text \<open>
  A YAML document whose sequences have scalars and mappings as their items, its events, and the nodes it stands for. The
  second component of a scalar is its tag.
\<close>

datatype yaml_doc = Y_Scalar string "string option" | Y_Seq "yaml_item list" | Y_Map "(string \<times> yaml_doc) list"
  and yaml_item = I_Scalar string "string option" | I_Map "(string \<times> yaml_doc) list"

fun doc_events :: "yaml_doc \<Rightarrow> yaml_event list"
  and seq_events :: "yaml_item list \<Rightarrow> yaml_event list"
  and map_events :: "(string \<times> yaml_doc) list \<Rightarrow> yaml_event list" where
  "doc_events (Y_Scalar v t) = [Scalar v t]"
| "doc_events (Y_Seq ds) = Sequence_Start # seq_events ds @ [Sequence_End]"
| "doc_events (Y_Map kvs) = Mapping_Start # map_events kvs @ [Mapping_End]"
| "seq_events [] = []"
| "seq_events (I_Scalar v t # ds) = Scalar v t # seq_events ds"
| "seq_events (I_Map kvs # ds) = Mapping_Start # map_events kvs @ Mapping_End # seq_events ds"
| "map_events [] = []"
| "map_events ((k, d) # kvs) = Scalar k None # doc_events d @ map_events kvs"

definition item_name :: "nat \<Rightarrow> string" where
  "item_name i = int_digits (int i)"

text \<open>The items of a sequence are named by their numbers; an item that is a mapping is marked as a sequence and has its
  first key as its value.\<close>

fun doc_node :: "string \<Rightarrow> yaml_doc \<Rightarrow> gp_conf_node"
  and item_nodes :: "nat \<Rightarrow> yaml_item list \<Rightarrow> gp_conf_node list"
  and key_nodes :: "(string \<times> yaml_doc) list \<Rightarrow> gp_conf_node list" where
  "doc_node k (Y_Scalar v t) = Conf_Node (Some k) (Some v) 0 0 []"
| "doc_node k (Y_Seq ds) = Conf_Node (Some k) None 1 0 (item_nodes 0 ds)"
| "doc_node k (Y_Map kvs) = Conf_Node (Some k) None 0 0 (key_nodes kvs)"
| "item_nodes i [] = []"
| "item_nodes i (I_Scalar v t # ds) = Conf_Node (Some (item_name i)) (Some v) 0 0 [] # item_nodes (Suc i) ds"
| "item_nodes i (I_Map kvs # ds) =
     Conf_Node (Some (item_name i)) (if kvs = [] then None else Some (fst (hd kvs))) 1 0 (key_nodes kvs) # item_nodes (Suc i) ds"
| "key_nodes [] = []"
| "key_nodes ((k, d) # kvs) = doc_node k d # key_nodes kvs"

text \<open>
  The documents the loader is meant for: keys are not empty, not \<open>include\<close> and different in a mapping; scalars in a
  sequence are not empty; no value is an inclusion.
\<close>

fun doc_ok :: "yaml_doc \<Rightarrow> bool"
  and items_ok :: "yaml_item list \<Rightarrow> bool"
  and keys_ok :: "(string \<times> yaml_doc) list \<Rightarrow> bool" where
  "doc_ok (Y_Scalar v t) \<longleftrightarrow> t \<noteq> Some ''!include''"
| "doc_ok (Y_Seq ds) \<longleftrightarrow> length ds < 2147483647 \<and> items_ok ds"
| "doc_ok (Y_Map kvs) \<longleftrightarrow> distinct (map fst kvs) \<and> keys_ok kvs"
| "items_ok [] \<longleftrightarrow> True"
| "items_ok (I_Scalar v t # ds) \<longleftrightarrow> v \<noteq> [] \<and> items_ok ds"
| "items_ok (I_Map kvs # ds) \<longleftrightarrow> distinct (map fst kvs) \<and> keys_ok kvs \<and> items_ok ds"
| "keys_ok [] \<longleftrightarrow> True"
| "keys_ok ((k, d) # kvs) \<longleftrightarrow> k \<noteq> [] \<and> k \<noteq> ''include'' \<and> doc_ok d \<and> keys_ok kvs"

fun depth :: "yaml_doc \<Rightarrow> nat"
  and depth_seq :: "yaml_item list \<Rightarrow> nat"
  and depth_map :: "(string \<times> yaml_doc) list \<Rightarrow> nat" where
  "depth (Y_Scalar v t) = 0"
| "depth (Y_Seq ds) = Suc (depth_seq ds)"
| "depth (Y_Map kvs) = Suc (depth_map kvs)"
| "depth_seq [] = 0"
| "depth_seq (I_Scalar v t # ds) = depth_seq ds"
| "depth_seq (I_Map kvs # ds) = max (Suc (depth_map kvs)) (depth_seq ds)"
| "depth_map [] = 0"
| "depth_map ((k, d) # kvs) = max (depth d) (depth_map kvs)"

text \<open>The parser \<open>p\<close> delivers the events \<open>es\<close> and is \<open>q\<close> then.\<close>

fun yields :: "'p yaml_env \<Rightarrow> 'p \<Rightarrow> yaml_event list \<Rightarrow> 'p \<Rightarrow> bool" where
  "yields E p [] q \<longleftrightarrow> q = p"
| "yields E p (e # es) q \<longleftrightarrow> (case yaml_parser_parse E p of Some (e', p') \<Rightarrow> e' = e \<and> yields E p' es q | None \<Rightarrow> False)"

lemma yields_append: "yields E p (es @ fs) q \<longleftrightarrow> (\<exists>p'. yields E p es p' \<and> yields E p' fs q)"
  by (induction es arbitrary: p) (auto split: option.splits)

lemma yields_Cons: "yields E p (e # es) q \<longleftrightarrow> (\<exists>p'. yaml_parser_parse E p = Some (e, p') \<and> yields E p' es q)"
  by (auto split: option.splits)

section \<open>Runs with enough fuel\<close>

definition returns :: "nat \<Rightarrow> 'p yaml_env \<Rightarrow> string option \<Rightarrow> bool \<Rightarrow> int \<Rightarrow> 'p \<Rightarrow> gp_conf_node \<Rightarrow> parse_state \<Rightarrow> int \<times> 'p \<times> gp_conf_node \<Rightarrow> bool" where
  "returns N E dn inseq rlevel p par l r \<longleftrightarrow>
     (\<forall>f \<ge> N. parse_loop f E dn inseq rlevel p (Some par) l = Some (Inr (case r of (ret, q, par') \<Rightarrow> (ret, q, Some par'))))"

lemma returns_end:
  assumes "yaml_parser_parse E p = Some (e, q)" and "e \<in> {Sequence_End, Mapping_End, Stream_End}"
  shows "returns (Suc 0) E dn inseq rlevel p par l (0, q, par)"
  unfolding returns_def
proof (intro allI impI)
  fix f assume "Suc 0 \<le> f"
  then show "parse_loop f E dn inseq rlevel p (Some par) l = Some (Inr (case (0, q, par) of (ret, q, par') \<Rightarrow> (ret, q, Some par')))"
    using assms by (cases f) (auto simp: parse_loop.simps)
qed

text \<open>One event, handled without a nested call, and the rest.\<close>

lemma returns_step:
  assumes "returns N E dn inseq rlevel q par' l' r"
    and "\<And>f. N \<le> f \<Longrightarrow> parse_loop (Suc f) E dn inseq rlevel p (Some par) l = parse_loop f E dn inseq rlevel q (Some par') l'"
  shows "returns (Suc N) E dn inseq rlevel p par l r"
  unfolding returns_def
proof (intro allI impI)
  fix f assume "Suc N \<le> f"
  then obtain g where "f = Suc g" "N \<le> g" by (cases f) auto
  then show "parse_loop f E dn inseq rlevel p (Some par) l = Some (Inr (case r of (ret, q, par') \<Rightarrow> (ret, q, Some par')))"
    using assms unfolding returns_def by simp
qed

lemma returns_mono: "returns N E dn inseq rlevel p par l r \<Longrightarrow> N \<le> M \<Longrightarrow> returns M E dn inseq rlevel p par l r"
  by (auto simp: returns_def)

lemma parse_returns:
  assumes "returns N E dn inseq (rlevel + 1) p par parse_init (ret, q, par')" and "rlevel \<le> 128" and "N \<le> f"
  shows "gp_conf_yaml_parse f E dn p (Some par) inseq rlevel = Some (Inr (ret, q, Some par'))"
  using assms by (simp add: gp_conf_yaml_parse.simps returns_def RECURSION_LIMIT_def)


section \<open>Steps on the tree\<close>

definition fresh_node :: "string \<Rightarrow> gp_conf_node" where
  "fresh_node k = Conf_Node (Some k) None 0 0 []"

text \<open>A node that is marked as a sequence takes the first key below it as its value.\<close>

definition mark_key :: "string \<Rightarrow> gp_conf_node \<Rightarrow> gp_conf_node" where
  "mark_key k par = (if cn_is_seq par \<noteq> 0 \<and> cn_val par = None then set_val (Some k) par else par)"

definition add_keys :: "(string \<times> yaml_doc) list \<Rightarrow> gp_conf_node \<Rightarrow> gp_conf_node" where
  "add_keys kvs par = set_head (cn_head par @ key_nodes kvs) (case kvs of [] \<Rightarrow> par | (k, d) # _ \<Rightarrow> mark_key k par)"

lemma insert_tail_simps [simp]:
  "cn_head (insert_tail par c) = cn_head par @ [c]" "cn_is_seq (insert_tail par c) = cn_is_seq par"
  "cn_val (insert_tail par c) = cn_val par" "set_head ch (insert_tail par c) = set_head ch par" "set_head (cn_head par) par = par"
  by (cases par; simp add: insert_tail_def)+

lemma mark_key_simps [simp]:
  "cn_head (mark_key k par) = cn_head par" "cn_is_seq (mark_key k par) = cn_is_seq par" "mark_key k' (mark_key k par) = mark_key k par"
  "mark_key k' (insert_tail par c) = insert_tail (mark_key k' par) c" "set_head ch (set_val v par) = set_val v (set_head ch par)"
  by (cases par; auto simp: mark_key_def insert_tail_def)+

lemma doc_node_name [simp]: "cn_name (doc_node k d) = Some k"
  by (cases d) simp_all

lemma add_keys_Cons: "add_keys ((k, d) # kvs) par = add_keys kvs (insert_tail (mark_key k par) (doc_node k d))"
  by (simp add: add_keys_def split: list.splits prod.splits)

lemma at_tail:
  assumes "child_index k (cn_head par) = None" and "cn_name c = Some k"
  shows "node_of (insert_tail par c) (Some k) = Inr c" "put_node (insert_tail par c) (Some k) n = insert_tail par n"
  using assms by (simp_all add: node_of_def put_node_def child_index_snoc) (simp add: insert_tail_def)

lemma on_tail:
  assumes "child_index k (cn_head par) = None" and "cn_name c = Some k" and "f (Some c) = Some (Inr (x, Some n))"
  shows "on_node (Some (insert_tail par c)) (Some k) f = Some (Inr (x, Some (insert_tail par n)))"
  using assms by (simp add: on_node_def at_tail [OF assms(1,2)])

lemma set_head_Nil: "set_head ch gp_conf_node_new = Conf_Node None None 0 0 ch"
  by (simp add: gp_conf_node_new_def)

lemma scan_key:
  assumes "yaml_parser_parse E p = Some (Scalar k t, q)" and "ps_state l = CONF_KEY" and "k \<noteq> []" and "k \<noteq> ''include''"
    and "child_index k (cn_head par) = None"
  shows "parse_loop (Suc f) E dn False rlevel p (Some par) l =
    parse_loop f E dn False rlevel q (Some (insert_tail (mark_key k par) (fresh_node k))) (l\<lparr>ps_node := Some k, ps_state := CONF_VAL\<rparr>)"
  using assms by (simp add: parse_loop.simps handle_scalar_def key_scalar_def deref_node_def gp_conf_node_lookup_child_def Let_def
      mark_key_def fresh_node_def gp_conf_node_new_def)

lemma scan_value:
  assumes "yaml_parser_parse E p = Some (Scalar v t, q)" and "ps_state l = CONF_VAL" and "ps_node l = Some k" and "t \<noteq> Some ''!include''"
    and "child_index k (cn_head par) = None"
  shows "parse_loop (Suc f) E dn False rlevel p (Some (insert_tail par (fresh_node k))) l =
    parse_loop f E dn False rlevel q (Some (insert_tail par (doc_node k (Y_Scalar v t)))) (l\<lparr>ps_state := CONF_KEY\<rparr>)"
  using assms by (simp add: parse_loop.simps handle_scalar_def on_tail [where n = "doc_node k (Y_Scalar v t)"] fresh_node_def deref_node_def)

lemma scan_nested_map:
  assumes "yaml_parser_parse E p = Some (Mapping_Start, p1)" and "ps_node l = Some k"
    and "child_index k (cn_head par) = None"
    and "gp_conf_yaml_parse f E dn p1 (Some (fresh_node k)) False rlevel = Some (Inr (0, q, Some n))"
  shows "parse_loop (Suc f) E dn False rlevel p (Some (insert_tail par (fresh_node k))) l =
    parse_loop f E dn False rlevel q (Some (insert_tail par n)) (l\<lparr>ps_state := CONF_KEY\<rparr>)"
  using assms by (simp add: parse_loop.simps on_tail [where n = n and x = "(0, q)"] fresh_node_def)

lemma scan_nested_seq:
  assumes "yaml_parser_parse E p = Some (Sequence_Start, p1)" and "ps_node l = Some k"
    and "child_index k (cn_head par) = None"
    and "gp_conf_yaml_parse f E dn p1 (Some (fresh_node k)) True rlevel = Some (Inr (0, q, Some n))"
  shows "parse_loop (Suc f) E dn False rlevel p (Some (insert_tail par (fresh_node k))) l =
    parse_loop f E dn False rlevel q (Some (insert_tail par (set_is_seq 1 n))) (l\<lparr>ps_state := CONF_KEY\<rparr>)"
  using assms by (simp add: parse_loop.simps on_tail [where n = "set_is_seq 1 n" and x = "(0, q)"] fresh_node_def deref_node_def)

lemma next_item: "i < 2147483647 \<Longrightarrow> next_seq_name (int i) = Inr (item_name i, int (Suc i))"
  by (simp add: next_seq_name_def int_range_def item_name_def)

lemma scan_item_scalar:
  assumes "yaml_parser_parse E p = Some (Scalar v t, q)" and "ps_state l = CONF_KEY" and "v \<noteq> []" and "ps_seq_idx l = int i" and "i < 2147483647"
    and "child_index (item_name i) (cn_head par) = None"
  shows "parse_loop (Suc f) E dn True rlevel p (Some par) l =
    parse_loop f E dn True rlevel q (Some (insert_tail par (doc_node (item_name i) (Y_Scalar v t)))) (l\<lparr>ps_seq_idx := int (Suc i)\<rparr>)"
  using assms next_item [OF assms(5)]
  by (simp add: parse_loop.simps handle_scalar_def seq_scalar_def deref_node_def gp_conf_node_lookup_child_def Let_def gp_conf_node_new_def)

definition item_node :: "nat \<Rightarrow> gp_conf_node" where
  "item_node i = Conf_Node (Some (item_name i)) None 1 0 []"

lemma scan_item_map:
  assumes "yaml_parser_parse E p = Some (Mapping_Start, p1)" and "ps_state l = CONF_KEY" and "ps_node l = None"
    and "ps_seq_idx l = int i" and "i < 2147483647" and "child_index (item_name i) (cn_head par) = None"
    and "gp_conf_yaml_parse f E dn p1 (Some (item_node i)) False rlevel = Some (Inr (0, q, Some n))"
  shows "parse_loop (Suc f) E dn True rlevel p (Some par) l =
    parse_loop f E dn True rlevel q (Some (insert_tail par n)) (l\<lparr>ps_seq_idx := int (Suc i)\<rparr>)"
  using assms next_item [OF assms(5)]
  by (cases l) (simp add: parse_loop.simps on_node_def node_of_def put_node_def seq_mapping_def deref_node_def gp_conf_node_lookup_child_def
      Let_def gp_conf_node_new_def item_node_def)

lemma item_name_inj:
  assumes "item_name i = item_name j"
  shows "i = j"
proof -
  have "item_name n = nat_digits n" for n unfolding item_name_def int_digits_def by (simp del: nat_digits.simps)
  then have "scan_digits 10 0 (item_name n) = (n, [])" for n using scan_nat_digits [of 0 n] by (simp del: nat_digits.simps scan_digits.simps)
  then show ?thesis using assms by (metis Pair_inject)
qed

section \<open>Loading a document\<close>

lemma load_doc:
  "\<And>par k p q r N rlevel l. doc_ok d \<Longrightarrow> rlevel + int (depth d) \<le> 129 \<Longrightarrow> child_index k (cn_head par) = None \<Longrightarrow>
     yields E p (doc_events d) q \<Longrightarrow> ps_node l = Some k \<Longrightarrow> ps_state l = CONF_VAL \<Longrightarrow>
     returns N E dn False rlevel q (insert_tail par (doc_node k d)) (l\<lparr>ps_state := CONF_KEY\<rparr>) r \<Longrightarrow>
     returns (N + length (doc_events d)) E dn False rlevel p (insert_tail par (fresh_node k)) l r"
  "\<And>par i p q r N rlevel l. items_ok ds \<Longrightarrow> i + length ds < 2147483647 \<Longrightarrow> rlevel + int (depth_seq ds) \<le> 129 \<Longrightarrow>
     (\<And>j. i \<le> j \<Longrightarrow> child_index (item_name j) (cn_head par) = None) \<Longrightarrow>
     yields E p (seq_events ds) q \<Longrightarrow> ps_node l = None \<Longrightarrow> ps_state l = CONF_KEY \<Longrightarrow> ps_seq_idx l = int i \<Longrightarrow>
     returns N E dn True rlevel q (set_head (cn_head par @ item_nodes i ds) par) (l\<lparr>ps_seq_idx := int (i + length ds)\<rparr>) r \<Longrightarrow>
     returns (N + length (seq_events ds)) E dn True rlevel p par l r"
  "\<And>par p q r N rlevel l. keys_ok kvs \<Longrightarrow> distinct (map fst kvs) \<Longrightarrow> rlevel + int (depth_map kvs) \<le> 129 \<Longrightarrow>
     (\<And>k. k \<in> fst ` set kvs \<Longrightarrow> child_index k (cn_head par) = None) \<Longrightarrow>
     yields E p (map_events kvs) q \<Longrightarrow> ps_state l = CONF_KEY \<Longrightarrow>
     (\<And>nd. returns N E dn False rlevel q (add_keys kvs par) (l\<lparr>ps_node := nd\<rparr>) r) \<Longrightarrow>
     returns (N + length (map_events kvs)) E dn False rlevel p par l r"
proof (induction d and ds and kvs rule: doc_events_seq_events_map_events.induct)
  case (1 v t)
  then have "yaml_parser_parse E p = Some (Scalar v t, q)" by (auto split: option.splits)
  from scan_value [OF this] 1 have "returns (Suc N) E dn False rlevel p (insert_tail par (fresh_node k)) l r"
    by (intro returns_step [OF 1(7)]) simp
  then show ?case by simp
next
  case (2 ds)
  then obtain p1 q1 where y: "yaml_parser_parse E p = Some (Sequence_Start, p1)" "yields E p1 (seq_events ds) q1" "yaml_parser_parse E q1 = Some (Sequence_End, q)"
    by (auto simp: yields_Cons yields_append simp del: yields.simps(2))
  have "returns (Suc 0 + length (seq_events ds)) E dn True (rlevel + 1) p1 (fresh_node k) parse_init (0, q, set_head (item_nodes 0 ds) (fresh_node k))"
    by (rule "2.IH" [OF _ _ _ _ y(2), of 0])
      (use "2.prems" in \<open>auto simp: fresh_node_def parse_init_def intro!: returns_end [OF y(3)]\<close>)
  note n = parse_returns [OF this]
  have d: "doc_node k (Y_Seq ds) = set_is_seq 1 (set_head (item_nodes 0 ds) (fresh_node k))" by (simp add: fresh_node_def)
  have "returns (Suc (N + 1 + length (seq_events ds))) E dn False rlevel p (insert_tail par (fresh_node k)) l r"
    by (rule returns_step [OF returns_mono [OF 2(8)]], simp, unfold d, rule scan_nested_seq [OF y(1) 2(6) 2(4)], rule n) (use 2(3) in auto)
  then show ?case by (simp add: add.commute add.left_commute)
next
  case (3 kvs)
  then obtain p1 q1 where y: "yaml_parser_parse E p = Some (Mapping_Start, p1)" "yields E p1 (map_events kvs) q1" "yaml_parser_parse E q1 = Some (Mapping_End, q)"
    by (auto simp: yields_Cons yields_append simp del: yields.simps(2))
  have d: "add_keys kvs (fresh_node k) = doc_node k (Y_Map kvs)" by (simp add: fresh_node_def add_keys_def mark_key_def split: list.splits)
  have "returns (Suc 0 + length (map_events kvs)) E dn False (rlevel + 1) p1 (fresh_node k) parse_init (0, q, add_keys kvs (fresh_node k))"
    by (rule "3.IH" [OF _ _ _ _ y(2)])
      (use "3.prems" in \<open>auto simp: fresh_node_def parse_init_def intro!: returns_end [OF y(3)]\<close>)
  note n = parse_returns [OF this, unfolded d]
  have "returns (Suc (N + 1 + length (map_events kvs))) E dn False rlevel p (insert_tail par (fresh_node k)) l r"
    by (rule returns_step [OF returns_mono [OF 3(8)]], simp, rule scan_nested_map [OF y(1) 3(6) 3(4)], rule n) (use 3(3) in auto)
  then show ?case by (simp add: add.commute add.left_commute)
next
  case 4
  then show ?case by (cases l) simp
next
  case (5 v t ds)
  let ?c = "doc_node (item_name i) (Y_Scalar v t)"
  obtain q1 where y: "yaml_parser_parse E p = Some (Scalar v t, q1)" "yields E q1 (seq_events ds) q"
    using "5.prems" by (auto simp: yields_Cons simp del: yields.simps(2))
  have "child_index (item_name j) (cn_head (insert_tail par ?c)) = None" if "Suc i \<le> j" for j
    using that "5.prems"(4) [of j] item_name_inj [of i j] by (auto simp: child_index_snoc)
  then have "returns (N + length (seq_events ds)) E dn True rlevel q1 (insert_tail par ?c) (l\<lparr>ps_seq_idx := int (Suc i)\<rparr>) r"
    by (intro "5.IH" [OF _ _ _ _ y(2), where i = "Suc i"]) (use "5.prems" in auto)
  then have "returns (Suc (N + length (seq_events ds))) E dn True rlevel p par l r"
    by (rule returns_step) (rule scan_item_scalar [OF y(1)], use "5.prems" in auto)
  then show ?case by simp
next
  case (6 kvs ds)
  obtain p1 q1 q2 where y: "yaml_parser_parse E p = Some (Mapping_Start, p1)" "yields E p1 (map_events kvs) q1"
    "yaml_parser_parse E q1 = Some (Mapping_End, q2)" "yields E q2 (seq_events ds) q"
    using "6.prems" by (auto simp: yields_Cons yields_append simp del: yields.simps(2))
  let ?c = "add_keys kvs (item_node i)"
  have c: "?c = Conf_Node (Some (item_name i)) (if kvs = [] then None else Some (fst (hd kvs))) 1 0 (key_nodes kvs)"
    by (cases kvs) (auto simp: add_keys_def item_node_def mark_key_def)
  have "returns (Suc 0 + length (map_events kvs)) E dn False (rlevel + 1) p1 (item_node i) parse_init (0, q2, ?c)"
    by (rule "6.IH"(1) [OF _ _ _ _ y(2)])
      (use "6.prems" in \<open>auto simp: item_node_def parse_init_def intro!: returns_end [OF y(3)]\<close>)
  note n = parse_returns [OF this]
  have "child_index (item_name j) (cn_head (insert_tail par ?c)) = None" if "Suc i \<le> j" for j
    using that "6.prems"(4) [of j] item_name_inj [of i j] by (auto simp: child_index_snoc c)
  then have "returns (N + length (seq_events ds)) E dn True rlevel q2 (insert_tail par ?c) (l\<lparr>ps_seq_idx := int (Suc i)\<rparr>) r"
    by (intro "6.IH"(2) [OF _ _ _ _ y(4), where i = "Suc i"]) (use "6.prems" c in auto)
  then have "returns (Suc (N + length (seq_events ds) + Suc (length (map_events kvs)))) E dn True rlevel p par l r"
    by (intro returns_step [OF returns_mono], assumption, simp, intro scan_item_map [OF y(1)])
      (use "6.prems" in \<open>auto intro!: n\<close>)
  then show ?case by (simp add: add.commute add.left_commute)
next
  case 7
  have "add_keys [] par = par" by (simp add: add_keys_def)
  then show ?case using 7(5) 7(7) [of "ps_node l"] by (cases l) simp
next
  case (8 k d kvs)
  obtain nd0 s where l: "l = \<lparr>ps_node = nd0, ps_state = CONF_KEY, ps_seq_idx = s\<rparr>" using "8.prems"(6) by (cases l) simp
  obtain p1 q1 where y: "yaml_parser_parse E p = Some (Scalar k None, p1)" "yields E p1 (doc_events d) q1" "yields E q1 (map_events kvs) q"
    using "8.prems" by (auto simp: yields_Cons yields_append simp del: yields.simps(2))
  have "returns (N + length (map_events kvs)) E dn False rlevel q1 (insert_tail (mark_key k par) (doc_node k d)) (l\<lparr>ps_node := Some k, ps_state := CONF_KEY\<rparr>) r"
    by (rule "8.IH"(2) [OF _ _ _ _ y(3)]) (use "8.prems" in \<open>auto simp: child_index_snoc add_keys_Cons l\<close>)
  then have "returns (N + length (map_events kvs) + length (doc_events d)) E dn False rlevel p1 (insert_tail (mark_key k par) (fresh_node k)) (l\<lparr>ps_node := Some k, ps_state := CONF_VAL\<rparr>) r"
    by (intro "8.IH"(1) [OF _ _ _ y(2)]) (use "8.prems" in auto)
  then have "returns (Suc (N + length (map_events kvs) + length (doc_events d))) E dn False rlevel p par l r"
    by (rule returns_step) (rule scan_key [OF y(1)], use "8.prems" in auto)
  then show ?case by (simp add: add.commute add.left_commute)
qed

text \<open>The stream of a file with one document: start of the stream, start and contents of the document, its end, end of the stream.\<close>

definition file_events :: "(string \<times> yaml_doc) list \<Rightarrow> yaml_event list" where
  "file_events kvs = Other_Event # Document_Start (Some (1, 1)) # doc_events (Y_Map kvs) @ [Other_Event, Stream_End]"

text \<open>The loop on a stream, at any node that has none of the keys.\<close>

lemma parse_file:
  assumes ok: "doc_ok (Y_Map kvs)" "depth (Y_Map kvs) \<le> 128" and y: "yields E p (file_events kvs) q"
    and free: "\<And>k. k \<in> fst ` set kvs \<Longrightarrow> child_index k (cn_head n) = None" and f: "length (file_events kvs) \<le> f"
  shows "gp_conf_yaml_parse f E dn p (Some n) False 0 = Some (Inr (0, q, Some (add_keys kvs n)))"
proof -
  obtain p1 p2 p3 p4 p5 p6 where e: "yaml_parser_parse E p = Some (Other_Event, p1)" "yaml_parser_parse E p1 = Some (Document_Start (Some (1, 1)), p2)"
    "yaml_parser_parse E p2 = Some (Mapping_Start, p3)" "yields E p3 (map_events kvs) p4" "yaml_parser_parse E p4 = Some (Mapping_End, p5)"
    "yaml_parser_parse E p5 = Some (Other_Event, p6)" "yaml_parser_parse E p6 = Some (Stream_End, q)"
    using y unfolding file_events_def by (auto simp: yields_Cons yields_append simp del: yields.simps(2))
  have "returns (Suc 0 + length (map_events kvs)) E dn False (1 + 1) p3 n parse_init (0, p5, add_keys kvs n)"
    by (rule load_doc(3) [OF _ _ _ _ e(4)]) (use ok free in \<open>auto simp: parse_init_def intro!: returns_end [OF e(5)]\<close>)
  note nested = parse_returns [OF this]
  have 1: "returns (Suc (Suc (Suc (Suc 0)) + length (map_events kvs))) E dn False 1 p2 n parse_init (0, q, add_keys kvs n)"
  proof (rule returns_step, rule returns_mono, rule returns_step [OF returns_end [OF e(7)]])
    show "parse_loop (Suc f) E dn False 1 p5 (Some (add_keys kvs n)) parse_init = parse_loop f E dn False 1 p6 (Some (add_keys kvs n)) parse_init" for f
      by (simp add: parse_loop.simps e)
    fix f assume "Suc (Suc (Suc 0)) + length (map_events kvs) \<le> f"
    then show "parse_loop (Suc f) E dn False 1 p2 (Some n) parse_init = parse_loop f E dn False 1 p5 (Some (add_keys kvs n)) parse_init"
      using nested [of f] by (simp add: parse_loop.simps e on_node_def node_of_def put_node_def parse_init_def)
  qed simp_all
  have 2: "returns (Suc (Suc (Suc (Suc (Suc (Suc 0)) + length (map_events kvs))))) E dn False 1 p n parse_init (0, q, add_keys kvs n)"
    by (rule returns_step [OF returns_step [OF 1]]) (simp_all add: parse_loop.simps e YAML_VERSION_MAJOR_def YAML_VERSION_MINOR_def)
  have "returns (length (file_events kvs)) E dn False (0 + 1) p n parse_init (0, q, add_keys kvs n)"
    using returns_mono [OF 2, of "length (file_events kvs)"] by (simp add: file_events_def)
  from parse_returns [OF this _ f] show ?thesis by simp
qed

text \<open>The file \<open>filename\<close> can be opened and has this document.\<close>

definition file_has :: "'p yaml_env \<Rightarrow> string \<Rightarrow> (string \<times> yaml_doc) list \<Rightarrow> bool" where
  "file_has E filename kvs \<longleftrightarrow> yaml_parser_initialize E \<and> \<not> is_directory E filename \<and>
     (\<exists>p q. open_input E filename = Some p \<and> yields E p (file_events kvs) q)"

lemma load_file_document:
  assumes "file_has E filename kvs" and "doc_ok (Y_Map kvs)" and "depth (Y_Map kvs) \<le> 128" and "conf_root st = Some r" and "cn_is_seq r = 0"
    and "\<And>k. k \<in> fst ` set kvs \<Longrightarrow> Some k \<notin> cn_name ` set (cn_head r)" and "length (file_events kvs) \<le> fuel"
  obtains st' where "gp_conf_yaml_load_file fuel E filename st = Some (Inr (0, st'))" "conf_root st' = Some (set_head (cn_head r @ key_nodes kvs) r)"
proof -
  obtain p q where p: "open_input E filename = Some p" "yields E p (file_events kvs) q" using assms(1) by (auto simp: file_has_def)
  have "child_index k (cn_head r) = None" if "k \<in> fst ` set kvs" for k using assms(6) [OF that] by (simp add: child_index_None)
  from parse_file [OF assms(2,3) p(2) this assms(7)]
  have "gp_conf_yaml_parse fuel E dn p (Some r) False 0 = Some (Inr (0, q, Some (add_keys kvs r)))" for dn .
  moreover have "add_keys kvs r = set_head (cn_head r @ key_nodes kvs) r" using assms(5) by (simp add: add_keys_def mark_key_def split: list.splits)
  ultimately show ?thesis using that assms(1,4) p(1)
    by (simp add: gp_conf_yaml_load_file_def file_has_def Let_def)
qed

section \<open>Reading the values back\<close>

text \<open>The scalar at a path of keys, an item of a sequence having its number as the key.\<close>

fun doc_lookup :: "yaml_doc \<Rightarrow> string list \<Rightarrow> string option"
  and items_lookup :: "nat \<Rightarrow> yaml_item list \<Rightarrow> string \<Rightarrow> string list \<Rightarrow> string option"
  and keys_lookup :: "(string \<times> yaml_doc) list \<Rightarrow> string \<Rightarrow> string list \<Rightarrow> string option" where
  "doc_lookup (Y_Scalar v t) ks = (if ks = [] then Some v else None)"
| "doc_lookup (Y_Seq ds) ks = (case ks of [] \<Rightarrow> None | k # ks \<Rightarrow> items_lookup 0 ds k ks)"
| "doc_lookup (Y_Map kvs) ks = (case ks of [] \<Rightarrow> None | k # ks \<Rightarrow> keys_lookup kvs k ks)"
| "items_lookup i [] k ks = None"
| "items_lookup i (I_Scalar v t # ds) k ks =
     (if item_name i = k then if ks = [] then Some v else None else items_lookup (Suc i) ds k ks)"
| "items_lookup i (I_Map kvs # ds) k ks =
     (if item_name i = k then case ks of [] \<Rightarrow> None | k # ks \<Rightarrow> keys_lookup kvs k ks else items_lookup (Suc i) ds k ks)"
| "keys_lookup [] k ks = None"
| "keys_lookup ((k', d) # kvs) k ks = (if k' = k then doc_lookup d ks else keys_lookup kvs k ks)"

definition shows_at :: "gp_conf_node list \<Rightarrow> string \<Rightarrow> string list \<Rightarrow> string \<Rightarrow> bool" where
  "shows_at ch k ks v \<longleftrightarrow> (\<exists>c. find (\<lambda>c. cn_name c = Some k) ch = Some c \<and> view c ks = Some (Some v, 0))"

lemma view_shows: "view n (k # ks) = Some (Some v, 0) \<longleftrightarrow> shows_at (cn_head n) k ks v"
  unfolding view_find shows_at_def by (auto simp: bind_eq_Some_conv)

lemma lookup_view:
  "doc_lookup d ks = Some v \<Longrightarrow> view (doc_node k' d) ks = Some (Some v, 0)"
  "items_lookup i ds k ks = Some v \<Longrightarrow> shows_at (item_nodes i ds) k ks v"
  "keys_lookup kvs k ks = Some v \<Longrightarrow> shows_at (key_nodes kvs) k ks v"
proof (induction d ks and i ds k ks and kvs k ks arbitrary: k' rule: doc_lookup_items_lookup_keys_lookup.induct)
  case (2 ds ks)
  then show ?case by (cases ks) (simp_all add: view_shows del: view.simps(2))
next
  case (3 kvs ks)
  then show ?case by (cases ks) (simp_all add: view_shows del: view.simps(2))
next
  case (6 i kvs ds k ks)
  show ?case
  proof (cases "item_name i = k")
    case True
    then obtain k1 ks1 where "ks = k1 # ks1" "shows_at (key_nodes kvs) k1 ks1 v" using 6 by (cases ks) auto
    then show ?thesis using True by (simp add: shows_at_def [where ks = "k1 # ks1"] view_shows del: view.simps(2))
  qed (use 6 in \<open>simp add: shows_at_def\<close>)
next
  case (8 k'' d kvs k ks)
  then show ?case by (simp add: shows_at_def split: if_splits)
qed (auto simp: shows_at_def split: if_splits)

lemma shows_at_append: "shows_at ds k ks v \<Longrightarrow> Some k \<notin> cn_name ` set cs \<Longrightarrow> shows_at (cs @ ds) k ks v"
  by (induction cs) (auto simp: shows_at_def)

lemma keys_lookup_key: "keys_lookup kvs k ks = Some v \<Longrightarrow> k \<in> fst ` set kvs"
  by (induction kvs) (auto split: if_splits)

section \<open>Properties\<close>

text \<open>
  C26. Loading a file with one document of version 1.1 adds the nodes of the document behind those the root has: \<open>gp_conf_yaml_load_file\<close>
  returns 0 and the new children of the root are the keys of the document in their order, each with its value, its keys
  or its numbered items. The document nests at most 128 levels and the root has none of its keys.
\<close>

theorem yaml_document_builds_tree:
  assumes "file_has E filename kvs" and "doc_ok (Y_Map kvs)" and "depth (Y_Map kvs) \<le> 128" and "conf_root st = Some r" and "cn_is_seq r = 0"
    and "\<And>k. k \<in> fst ` set kvs \<Longrightarrow> Some k \<notin> cn_name ` set (cn_head r)" and "length (file_events kvs) \<le> fuel"
  shows "\<exists>st'. gp_conf_yaml_load_file fuel E filename st = Some (Inr (0, st')) \<and>
    conf_root st' = Some (set_head (cn_head r @ key_nodes kvs) r)"
  using load_file_document [OF assms] by metis

text \<open>
  C28. Every scalar of a loaded document is read back by \<open>gp_conf_get\<close> under the dotted name of its path, the items of a
  sequence being numbered from 0.
\<close>

theorem yaml_values_read_back:
  assumes "file_has E filename kvs" and "doc_ok (Y_Map kvs)" and "depth (Y_Map kvs) \<le> 128" and "conf_root st = Some r" and "cn_is_seq r = 0"
    and "\<And>k. k \<in> fst ` set kvs \<Longrightarrow> Some k \<notin> cn_name ` set (cn_head r)" and "length (file_events kvs) \<le> fuel"
    and "conf_wf r" and "NUL \<notin> set name" and "name_fits name" and "doc_lookup (Y_Map kvs) (split_dots name) = Some v"
  shows "\<exists>st'. gp_conf_yaml_load_file fuel E filename st = Some (Inr (0, st')) \<and> gp_conf_get (store_of st') name vptr = Inr (1, Some v)"
proof -
  obtain st' where st': "gp_conf_yaml_load_file fuel E filename st = Some (Inr (0, st'))" "conf_root st' = Some (set_head (cn_head r @ key_nodes kvs) r)"
    using load_file_document [OF assms(1-7)] by blast
  have inv: "conf_inv (store_of st')"
    using load_file_grows [OF assms(4,8), of fuel E filename] grows_wf by (auto simp: st' grown_def conf_inv_iff)
  obtain k ks where k: "split_dots name = k # ks" "keys_lookup kvs k ks = Some v" using assms(11) by (cases "split_dots name") auto
  have "view (set_head (cn_head r @ key_nodes kvs) r) (split_dots name) = Some (Some v, 0)"
    using shows_at_append [OF lookup_view(3) [OF k(2)] assms(6) [OF keys_lookup_key [OF k(2)]]] by (simp add: k(1) view_shows del: view.simps(2))
  then show ?thesis using st' conf_get_correct [OF inv assms(9), of vptr] assms(10) by (simp add: spec_get_def conf_view_def)
qed

text \<open>
  C27. A value set with \<open>gp_conf_set_final\<close>, as from the command line, survives the loading of any file, whatever its
  events and the files it includes are: if every file is finite and no file includes itself, directly or through others,
  \<open>gp_conf_yaml_load_file\<close> returns (there is a bound such that any fuel from there on gives the same result), and
  afterwards, with success or failure, \<open>gp_conf_get\<close> still returns the value and the tree is well-formed. The one
  other outcome is the overflow of the index of a sequence, in a sequence of \<open>2\<^sup>3\<^sup>1\<close> items.
\<close>

theorem yaml_load_keeps_final_values:
  assumes "loader_inv st" and "NUL \<notin> set name" and "name_fits name" and "gp_conf_set_final (store_of st) name val = Inr (1, cs)"
    and "files_end E (load_dirname filename st) rank"
  shows "\<exists>bound res. (\<forall>fuel \<ge> bound. gp_conf_yaml_load_file fuel E filename (put_store st cs) = Some res) \<and>
    (res = Inl SignedOverflow \<or> (\<exists>ret st'. res = Inr (ret, st') \<and> ret \<in> {0, -1} \<and> loader_inv st' \<and>
      gp_conf_get (store_of st') name vptr = Inr (1, Some val)))"
proof -
  have "load_dirname filename (put_store st cs) = load_dirname filename st"
    by (simp add: load_dirname_def put_store_def gp_conf_yaml_set_conf_dirname_def Let_def split: option.splits)
  with assms(5) obtain bound res where load: "\<forall>fuel \<ge> bound. gp_conf_yaml_load_file fuel E filename (put_store st cs) = Some res"
    using load_file_settled [of E filename "put_store st cs" rank] by (auto simp: settled_def)
  obtain r where r: "conf_root cs = Some r" "conf_wf r" "conf_view cs (split_dots name) = Some (Some val, 1)"
    using conf_set_final_correct [of "store_of st" name val] assms(1-4)
    by (auto simp: loader_inv_def spec_set_final_def Let_def conf_inv_def fun_eq_iff) (metis fun_upd_same)
  have "run_ok (Some []) (\<lambda>(ret, st'). ret \<in> {0, -1} \<and> grown r (conf_root st')) (Some res)"
    using load_file_grows [of "put_store st cs" r bound E filename] r load by simp
  then consider "res = Inl SignedOverflow" | ret st' r' where "res = Inr (ret, st')" "ret \<in> {0, -1}" "conf_root st' = Some r'" "grows r r'"
    by (cases res) (auto simp: yaml_error_def grown_def)
  then show ?thesis
  proof cases
    case 2
    then have "gp_conf_get (store_of st') name vptr = Inr (1, Some val)"
      using grows_get [of r r' "store_of st'" cs name val 1] r assms(2,3) by simp
    moreover have "loader_inv st'" using 2 grows_wf by (simp add: loader_inv_def conf_inv_iff)
    ultimately show ?thesis using 2(1,2) load by blast
  qed (use load in blast)
qed

text \<open>
  A document that does not start with the directive \<open>%YAML 1.1\<close> is refused and nothing of it reaches the store.
\<close>

lemma yaml_version_required:
  assumes "open_input E filename = Some p" and "yields E p [Other_Event, Document_Start ver] q" and "ver \<noteq> Some (1, 1)" and "2 \<le> fuel"
    and "yaml_parser_initialize E"
  shows "\<exists>st'. gp_conf_yaml_load_file fuel E filename st = Some (Inr (-1, st')) \<and> conf_root st' = conf_root st"
proof -
  obtain f where f: "fuel = Suc (Suc f)" using assms(4) by (metis add_2_eq_Suc le_Suc_ex)
  have "\<exists>p'. gp_conf_yaml_parse fuel E dn p n False 0 = Some (Inr (-1, p', n))" for dn n
    using assms(2,3) by (cases ver; cases "the ver")
      (auto simp: f gp_conf_yaml_parse.simps parse_loop.simps RECURSION_LIMIT_def YAML_VERSION_MAJOR_def YAML_VERSION_MINOR_def split: option.splits)
  then obtain p' where "\<And>dn n. gp_conf_yaml_parse fuel E dn p n False 0 = Some (Inr (-1, p' dn n, n))" by metis
  then show ?thesis using assms(1,5) dirname_set(2)
    by (auto simp: gp_conf_yaml_load_file_def Let_def)
qed

section \<open>Inclusion\<close>

lemma self_include:
  assumes y: "yields E p [Other_Event, Document_Start (Some (1, 1)), Mapping_Start, Scalar ''include'' None, Scalar inc None] q"
    and E: "yaml_parser_initialize E" "include_name dn inc = Inr filename" "open_input E filename = Some p" "inc \<noteq> []"
  shows "gp_conf_yaml_parse fuel E dn p (Some n) False 0 = None"
proof (induction fuel arbitrary: n rule: less_induct)
  case (less fuel)
  obtain p1 p2 p3 p4 where e: "yaml_parser_parse E p = Some (Other_Event, p1)" "yaml_parser_parse E p1 = Some (Document_Start (Some (1, 1)), p2)"
    "yaml_parser_parse E p2 = Some (Mapping_Start, p3)" "yaml_parser_parse E p3 = Some (Scalar ''include'' None, p4)" "yaml_parser_parse E p4 = Some (Scalar inc None, q)"
    using y by (auto simp: yields_Cons simp del: yields.simps(2))
  have 1: "parse_loop f E dn False 2 p4 (Some n) (parse_init\<lparr>ps_state := CONF_INCLUDE\<rparr>) = None" if "f \<le> fuel" for f
    using that less E by (cases f) (simp_all add: parse_loop.simps e handle_scalar_def gp_conf_yaml_handle_include_def)
  have 2: "parse_loop f E dn False 2 p3 (Some n) parse_init = None" if "f \<le> fuel" for f
    using that 1 by (cases f) (simp_all add: parse_loop.simps e handle_scalar_def key_scalar_def parse_init_def)
  have 3: "parse_loop f E dn False 1 p2 (Some n) parse_init = None" if "f \<le> fuel" for f
    using that 2 by (cases f) (simp_all add: parse_loop.simps e on_node_def node_of_def gp_conf_yaml_parse.simps RECURSION_LIMIT_def parse_init_def)
  have 4: "parse_loop f E dn False 1 p1 (Some n) parse_init = None" if "f \<le> fuel" for f
    using that 3 by (cases f) (simp_all add: parse_loop.simps e YAML_VERSION_MAJOR_def YAML_VERSION_MINOR_def)
  have "parse_loop fuel E dn False 1 p (Some n) parse_init = None"
    using 4 by (cases fuel) (simp_all add: parse_loop.simps e)
  then show ?case by (simp add: gp_conf_yaml_parse.simps RECURSION_LIMIT_def)
qed

text \<open>
  C40. A file that includes itself by name is loaded without end: the limit on the recursion starts anew in an included file.
  \<open>gp_conf_yaml_load_file\<close> does not return with any amount of fuel, as long as the file can be opened.
\<close>

theorem yaml_self_include_never_returns:
  assumes "yields E p [Other_Event, Document_Start (Some (1, 1)), Mapping_Start, Scalar ''include'' None, Scalar inc None] q"
    and "yaml_parser_initialize E" and "\<not> is_directory E filename" and "open_input E filename = Some p" and "conf_root st = Some r"
    and "conf_dirname st = Some d" and "inc \<noteq> []" "hd inc \<noteq> CHR ''/''" and "filename = d @ ''/'' @ inc" and "length filename < 4096"
  shows "gp_conf_yaml_load_file fuel E filename st = None"
proof -
  have "include_name (conf_dirname st) inc = Inr filename" using assms(6-10) by (simp add: include_name_def PATH_MAX_def)
  from self_include [OF assms(1,2) this assms(4,7)] show ?thesis using assms(2-6) by (simp add: gp_conf_yaml_load_file_def)
qed

section \<open>Examples\<close>

text \<open>A parser that has its events as a list, and the files by name.\<close>

definition list_env :: "(string \<times> yaml_event list) list \<Rightarrow> yaml_event list yaml_env" where
  "list_env files =
     \<lparr>yaml_parser_initialize = True, yaml_parser_parse = (\<lambda>es. case es of [] \<Rightarrow> None | e # es \<Rightarrow> Some (e, es)),
      open_input = map_of files, st_mode = (\<lambda>_. None), set_input_string = (\<lambda>_. [])\<rparr>"

lemma list_env_simps [simp]:
  "yaml_parser_initialize (list_env files)" "open_input (list_env files) = map_of files" "\<not> is_directory (list_env files) f"
  "yaml_parser_parse (list_env files) [] = None" "yaml_parser_parse (list_env files) (e # es) = Some (e, es)"
  by (simp_all add: list_env_def is_directory_def)

lemma list_env_yields: "yields (list_env files) es es []"
  by (induction es) simp_all

definition sample_document :: "(string \<times> yaml_doc) list" where
  "sample_document = [(''rule-files'', Y_Seq [I_Scalar ''netbios.rules'' None, I_Scalar ''x11.rules'' None]), (''default-log-dir'', Y_Scalar ''/tmp'' None)]"

definition sample_env :: "yaml_event list yaml_env" where
  "sample_env = list_env [(''gp.yaml'', file_events sample_document)]"

definition empty_loader :: loader where
  "empty_loader = \<lparr>conf_root = Some gp_conf_node_new, conf_root_backup = None, conf_dirname = None\<rparr>"

lemma sample_file: "file_has sample_env ''gp.yaml'' sample_document" "length (file_events sample_document) \<le> 20"
  "doc_ok (Y_Map sample_document)" "depth (Y_Map sample_document) \<le> 128"
  using list_env_yields [of "[(''gp.yaml'', file_events sample_document)]" "file_events sample_document"]
  by (auto simp: file_has_def sample_env_def) (simp_all add: sample_document_def file_events_def)

lemma item_names: "item_name 0 = ''0''" "item_name (Suc 0) = ''1''"
  by (code_simp, code_simp)

theorem yaml_document_builds_tree_witness:
  "\<exists>st'. gp_conf_yaml_load_file 20 sample_env ''gp.yaml'' empty_loader = Some (Inr (0, st')) \<and>
    conf_root st' = Some (Conf_Node None None 0 0 [Conf_Node (Some ''rule-files'') None 1 0
      [Conf_Node (Some ''0'') (Some ''netbios.rules'') 0 0 [], Conf_Node (Some ''1'') (Some ''x11.rules'') 0 0 []],
      Conf_Node (Some ''default-log-dir'') (Some ''/tmp'') 0 0 []])"
  using yaml_document_builds_tree [OF sample_file(1,3,4), of empty_loader gp_conf_node_new 20] sample_file(2)
  by (simp add: empty_loader_def sample_document_def set_head_Nil item_names)

lemma sample_path: "doc_lookup (Y_Map sample_document) (split_dots ''rule-files.1'') = Some ''x11.rules''"
proof -
  have "strchr_split CHR ''.'' ''rule-files.1'' = (''rule-files'', Some ''1'')" "strchr_split CHR ''.'' ''1'' = (''1'', None)"
    by (simp_all add: strchr_split_def)
  then have "split_dots ''rule-files.1'' = [''rule-files'', ''1'']"
    by (simp only: split_dots.simps [of "''rule-files.1''"] split_dots.simps [of "''1''"] prod.case option.case)
  then show ?thesis by (simp add: sample_document_def item_names)
qed

theorem yaml_values_read_back_witness:
  "\<exists>st'. gp_conf_yaml_load_file 20 sample_env ''gp.yaml'' empty_loader = Some (Inr (0, st')) \<and>
    gp_conf_get (store_of st') ''rule-files.1'' None = Inr (1, Some ''x11.rules'')"
  by (rule yaml_values_read_back [OF sample_file(1,3,4) _ _ _ sample_file(2) _ _ _ sample_path, where r = gp_conf_node_new])
    (simp_all add: empty_loader_def name_fits_def)

definition final_store :: conf_state where
  "final_store = \<lparr>conf_root = Some (Conf_Node None None 0 0 [Conf_Node (Some ''default-log-dir'') (Some ''/var'') 0 1 []]), conf_root_backup = None\<rparr>"

lemma final_set: "gp_conf_set_final (store_of empty_loader) ''default-log-dir'' ''/var'' = Inr (1, final_store)"
  by code_simp

text \<open>A file that sets the value and includes another one, which sets it again.\<close>

definition including_file :: "yaml_event list" where
  "including_file = [Other_Event, Document_Start (Some (1, 1)), Mapping_Start, Scalar ''default-log-dir'' None, Scalar ''/tmp'' None,
     Scalar ''include'' None, Scalar ''b'' None, Mapping_End, Other_Event, Stream_End]"

definition included_file :: "yaml_event list" where
  "included_file = file_events [(''default-log-dir'', Y_Scalar ''/usr'' None)]"

definition include_env :: "yaml_event list yaml_env" where
  "include_env = list_env [(''gp.yaml'', including_file), (''./b'', included_file)]"

definition include_rank :: "string \<Rightarrow> nat" where
  "include_rank f = (if f = ''gp.yaml'' then 1 else 0)"

lemma include_env_files:
  assumes "open_input include_env f = Some p"
  shows "f = ''gp.yaml'' \<and> p = including_file \<or> f = ''./b'' \<and> p = included_file"
  using assms by (auto simp: include_env_def split: if_splits)

lemma include_env_delivers:
  "delivers include_env 0 including_file including_file" "delivers include_env 0 included_file included_file"
  "included False including_file = [''b'']" "included False included_file = []"
  by (simp_all add: include_env_def including_file_def included_file_def file_events_def)

lemma include_env_ends: "files_end include_env (load_dirname ''gp.yaml'' empty_loader) include_rank"
proof -
  have dir: "load_dirname ''gp.yaml'' empty_loader = Some ''.''"
    by (simp add: load_dirname_def empty_loader_def gp_conf_yaml_set_conf_dirname_def strrchr_def)
  have b: "include_name (Some ''.'') ''b'' = Inr ''./b''"
    by (simp add: include_name_def PATH_MAX_def)
  have "\<exists>es. delivers include_env 0 p es \<and> (\<forall>v \<in> set (included False es).
      \<forall>g. include_name (Some ''.'') v = Inr g \<and> open_input include_env g \<noteq> None \<longrightarrow> include_rank g < include_rank f)"
    if "open_input include_env f = Some p" for f p
    using include_env_files [OF that]
  proof
    assume "f = ''gp.yaml'' \<and> p = including_file"
    then show ?thesis using b by (intro exI [of _ including_file]) (simp add: include_env_delivers include_rank_def)
  next
    assume "f = ''./b'' \<and> p = included_file"
    then show ?thesis by (intro exI [of _ included_file]) (simp add: include_env_delivers)
  qed
  then show ?thesis unfolding files_end_def dir by blast
qed

theorem yaml_load_keeps_final_values_witness:
  "\<exists>bound res. (\<forall>fuel \<ge> bound. gp_conf_yaml_load_file fuel include_env ''gp.yaml'' (put_store empty_loader final_store) = Some res) \<and>
    (res = Inl SignedOverflow \<or> (\<exists>ret st'. res = Inr (ret, st') \<and> ret \<in> {0, -1} \<and> loader_inv st' \<and>
      gp_conf_get (store_of st') ''default-log-dir'' None = Inr (1, Some ''/var'')))"
proof -
  have inv: "loader_inv empty_loader" by (simp add: loader_inv_def conf_inv_iff empty_loader_def)
  show ?thesis by (rule yaml_load_keeps_final_values [OF inv _ _ final_set include_env_ends]) (simp_all add: name_fits_def)
qed

definition looping_file :: "yaml_event list" where
  "looping_file = [Other_Event, Document_Start (Some (1, 1)), Mapping_Start, Scalar ''include'' None, Scalar ''a'' None, Mapping_End, Other_Event, Stream_End]"

theorem yaml_self_include_never_returns_witness:
  "gp_conf_yaml_load_file 1000 (list_env [(''./a'', looping_file)]) ''./a'' (empty_loader\<lparr>conf_dirname := Some ''.''\<rparr>) = None"
  by (rule yaml_self_include_never_returns [where inc = "''a''" and p = looping_file and q = "[Mapping_End, Other_Event, Stream_End]"])
    (simp_all add: looping_file_def empty_loader_def)

text \<open>
  The items of a sequence inside a sequence are numbered in the same node: of the document \<open>k: [[a], [b]]\<close> the value \<open>b\<close> is lost.
\<close>

lemma nested_sequence_loses_values:
  "gp_conf_yaml_parse 20 (list_env []) None
      [Mapping_Start, Scalar ''k'' None, Sequence_Start, Sequence_Start, Scalar ''a'' None, Sequence_End, Sequence_Start, Scalar ''b'' None, Sequence_End,
       Sequence_End, Mapping_End, Stream_End] (Some gp_conf_node_new) False 0 =
    Some (Inr (0, [], Some (Conf_Node None None 0 0 [Conf_Node (Some ''k'') None 1 0 [Conf_Node (Some ''0'') (Some ''a'') 0 0 []]])))"
  by code_simp

end
