(* ===== verification/Gp_Client.thy ===== *)
theory Gp_Client
  imports Gp_Codec
begin

text \<open>
  The blocking client (\<open>base/gp_sync_client.c\<close>) and the loops that send and receive a number of bytes
  (\<open>base/gp_socketop.c\<close>). The socket is a parameter: what the peer sends and how much each call transfers.
\<close>

section \<open>The socket\<close>

text \<open>
  \<open>s_in\<close> is what the peer has sent and is not read yet, \<open>s_out\<close> what has been written. \<open>s_reads\<close> and \<open>s_writes\<close> are
  the answers of the next calls of \<open>read\<close> and \<open>write\<close>: a failure when negative, else the most that is transferred.
  Without a further answer a call does not return. At the end of the input \<open>read\<close> returns 0.
\<close>

record sock =
  s_in :: bytes
  s_out :: bytes
  s_reads :: "int list"
  s_writes :: "int list"
  s_closed :: bool

definition read_fd :: "nat \<Rightarrow> sock \<Rightarrow> (int \<times> bytes \<times> sock) option" where
  "read_fd nbytes s =
     (case s_reads s of
        [] \<Rightarrow> None
      | a # as \<Rightarrow>
          if a < 0 then Some (-1, [], s\<lparr>s_reads := as\<rparr>)
          else let bs = take (min (nat a) nbytes) (s_in s)
               in Some (int (length bs), bs, s\<lparr>s_in := drop (length bs) (s_in s), s_reads := as\<rparr>))"

definition write_fd :: "bytes \<Rightarrow> sock \<Rightarrow> (int \<times> sock) option" where
  "write_fd bs s =
     (case s_writes s of
        [] \<Rightarrow> None
      | a # as \<Rightarrow>
          if a < 0 then Some (-1, s\<lparr>s_writes := as\<rparr>)
          else let k = min (nat a) (length bs) in Some (int k, s\<lparr>s_out := s_out s @ take k bs, s_writes := as\<rparr>))"

definition close_fd :: "sock \<Rightarrow> sock" where
  "close_fd s = s\<lparr>s_closed := True\<rparr>"

section \<open>Sending and receiving a number of bytes\<close>

lemma write_fd_shorter: "write_fd bs s = Some (k, s') \<Longrightarrow> length (s_writes s') < length (s_writes s)"
  by (auto simp: write_fd_def Let_def split: list.splits if_splits)

lemma read_fd_shorter: "read_fd c s = Some (k, bs, s') \<Longrightarrow> length (s_reads s') < length (s_reads s)"
  by (auto simp: read_fd_def Let_def split: list.splits if_splits)

text \<open>The loops: \<open>done_len\<close> is the variable \<open>total\<close>, \<open>n\<close> is \<open>None\<close> as long as the variable has no value.\<close>

function send_loop :: "bytes \<Rightarrow> int \<Rightarrow> int \<Rightarrow> int \<Rightarrow> int option \<Rightarrow> sock \<Rightarrow> (int \<times> int option \<times> sock) run" where
  "send_loop msg len done_len bytesleft n s =
     (if \<not> done_len < len then Some (Inr (done_len, n, s))
      else case mem_read (nat done_len) (nat bytesleft) msg of
        Inl e \<Rightarrow> Some (Inl e)
      | Inr bs \<Rightarrow>
          (case write_fd bs s of
             None \<Rightarrow> None
           | Some (k, s1) \<Rightarrow>
               if k = -1 then Some (Inr (done_len, Some k, s1))
               else send_loop msg len (done_len + k) (bytesleft - k) (Some k) s1))"
  by pat_completeness auto
termination
  by (relation "measure (\<lambda>(_, _, _, _, _, s). length (s_writes s))") (auto intro: write_fd_shorter)

definition send_all_sync :: "bytes \<Rightarrow> int \<Rightarrow> sock \<Rightarrow> (int \<times> int \<times> sock) run" where
  "send_all_sync msg len s =
     bindR (send_loop msg len 0 len None s) (\<lambda>(done_len, n, s1).
       case n of None \<Rightarrow> Some (Inl Uninitialised) | Some k \<Rightarrow> Some (Inr (if k = -1 then -1 else 0, done_len, s1)))"

function recv_loop :: "bytes \<Rightarrow> int \<Rightarrow> int \<Rightarrow> int \<Rightarrow> int option \<Rightarrow> sock \<Rightarrow> (bytes \<times> int \<times> int option \<times> sock) run" where
  "recv_loop msg len done_len bytesleft n s =
     (if \<not> done_len < len then Some (Inr (msg, done_len, n, s))
      else case read_fd (nat bytesleft) s of
        None \<Rightarrow> None
      | Some (k, bs, s1) \<Rightarrow>
          if k = -1 then Some (Inr (msg, done_len, Some k, s1))
          else case mem_write (nat done_len) bs msg of
            Inl e \<Rightarrow> Some (Inl e)
          | Inr msg1 \<Rightarrow> recv_loop msg1 len (done_len + k) (bytesleft - k) (Some k) s1)"
  by pat_completeness auto
termination
  by (relation "measure (\<lambda>(_, _, _, _, _, s). length (s_reads s))") (auto intro: read_fd_shorter)

declare send_loop.simps [simp del] recv_loop.simps [simp del]

text \<open>The result, the block, the number of bytes read and the socket.\<close>

definition read_all_sync :: "bytes \<Rightarrow> int \<Rightarrow> sock \<Rightarrow> (int \<times> bytes \<times> int \<times> sock) run" where
  "read_all_sync msg len s =
     bindR (recv_loop msg len 0 len None s) (\<lambda>(msg1, done_len, n, s1).
       case n of None \<Rightarrow> Some (Inl Uninitialised) | Some k \<Rightarrow> Some (Inr (if k = -1 then -1 else 0, msg1, done_len, s1)))"

section \<open>The client\<close>

definition get_sync_client_pb_map :: "bytes \<Rightarrow> (bytes, 'd) dict option \<Rightarrow> (bytes, 'd) dict" where
  "get_sync_client_pb_map seed sync_client_pb_map =
     (case sync_client_pb_map of None \<Rightarrow> dictInit (StringDictType seed) | Some d \<Rightarrow> d)"

definition register_name_sync_client_pb_map ::
  "bytes \<Rightarrow> bool \<Rightarrow> bytes \<Rightarrow> 'd \<Rightarrow> (bytes, 'd) dict option \<Rightarrow> (bytes, 'd) dict option res" where
  "register_name_sync_client_pb_map seed can_resize name desc sync_client_pb_map =
     bindE (dictAdd can_resize (get_sync_client_pb_map seed sync_client_pb_map) name desc) (\<lambda>(st, d). Inr (Some d))"

text \<open>One \<open>read\<close> into a block of \<open>nbytes\<close> bytes that had the bytes \<open>fill\<close> before.\<close>

definition read_block :: "(nat \<Rightarrow> u8) \<Rightarrow> nat \<Rightarrow> sock \<Rightarrow> (int \<times> bytes \<times> sock) run" where
  "read_block fill nbytes s =
     (case read_fd nbytes s of
        None \<Rightarrow> None
      | Some (n, bs, s1) \<Rightarrow> Some (Inr (n, bs @ drop (length bs) (malloc_block fill nbytes), s1)))"

text \<open>
  The result is the value of the function, the block of the name, the length of the message and the socket. \<open>malloc\<close> of
  a negative length gives NULL, into which \<open>read\<close> fails.
\<close>

definition read_pb_header :: "(nat \<Rightarrow> u8) \<Rightarrow> sock \<Rightarrow> (int \<times> bytes \<times> u32 \<times> sock) run" where
  "read_pb_header fill s =
     bindR (read_block fill 4 s) (\<lambda>(n, magic, s).
     if n < 0 then Some (Inr (-1, [], 0, close_fd s))
     else if (be_word 0 magic :: u32) \<noteq> 0x1343EA4 then Some (Inr (-1, [], 0, close_fd s))
     else bindR (read_block fill 4 s) (\<lambda>(n, len, s).
     if n < 0 then Some (Inr (-1, [], 0, close_fd s))
     else let len = (be_word 0 len :: u32) in
       bindR (read_block fill 4 s) (\<lambda>(n, name_len, s).
     if n < 0 then Some (Inr (-1, [], 0, close_fd s))
     else let name_len = (be_word 0 name_len :: u32) in
       if sint name_len < 0 then Some (Inr (-1, [], 0, close_fd s))
       else bindR (read_block fill (unat name_len) s) (\<lambda>(n, name, s).
         if n < 0 then Some (Inr (-1, [], 0, close_fd s))
         else bindR (Some (bindE (c_sub32 len 4) (\<lambda>l. c_sub32 l name_len))) (\<lambda>msg_len.
           Some (Inr (0, name, msg_len, s)))))))"

text \<open>The path of the server's socket, cut off at the size of the array.\<close>

definition server_path :: "string \<Rightarrow> string" where
  "server_path ipc_server = take 39 (''/tmp/'' @ ipc_server @ ''.socket'')"

text \<open>\<open>connect\<close> gives the socket that is connected to a path.\<close>

definition send_all :: "(string \<Rightarrow> sock) \<Rightarrow> string \<Rightarrow> bytes \<Rightarrow> int \<Rightarrow> (int \<times> sock) run" where
  "send_all connect ipc_server msg len =
     bindR (send_all_sync msg len (connect (server_path ipc_server))) (\<lambda>(n, _, s).
       if n = -1 then Some (Inr (-1, close_fd s)) else Some (Inr (0, s)))"

definition send_msg :: "(string \<Rightarrow> sock) \<Rightarrow> string \<Rightarrow> bytes \<Rightarrow> int \<Rightarrow> (int \<times> sock) run" where
  "send_msg connect ipc_server msg len =
     bindR (send_all connect ipc_server msg len) (\<lambda>(n, s).
       if n = -1 then Some (Inr (-1, s)) else Some (Inr (0, close_fd s)))"

text \<open>A name without a NUL is read behind its block by the lookup.\<close>

definition send_msg_and_recv ::
  "(nat \<Rightarrow> u8) \<Rightarrow> bytes \<Rightarrow> ('d \<Rightarrow> bytes \<Rightarrow> 'm option) \<Rightarrow> (string \<Rightarrow> sock) \<Rightarrow> (bytes, 'd) dict option \<Rightarrow> string \<Rightarrow> bytes \<Rightarrow> int \<Rightarrow>
     ('m option \<times> (bytes, 'd) dict option \<times> sock) run" where
  "send_msg_and_recv fill seed unpack connect pb_map ipc_server msg len =
     bindR (send_all connect ipc_server msg len) (\<lambda>(n, s).
     if n = -1 then Some (Inr (None, pb_map, s))
     else bindR (read_pb_header fill s) (\<lambda>(n, name, msg_len, s).
     if n = -1 then Some (Inr (None, pb_map, s))
     else if 0 \<notin> set name then Some (Inl OutOfBounds)
     else bindR (Some (dictFetchValue (get_sync_client_pb_map seed pb_map) name)) (\<lambda>(desc, map1).
     case desc of
       None \<Rightarrow> Some (Inr (None, Some map1, close_fd s))
     | Some ds \<Rightarrow>
         bindR (read_all_sync (malloc_block fill (nat (sint msg_len))) (sint msg_len) s) (\<lambda>(n, msg_buf, done_len, s).
         if n < 0 then Some (Inr (None, Some map1, close_fd s))
         else Some (Inr (unpack ds (take (nat done_len) msg_buf), Some map1, close_fd s))))))"

end
