(* ===== verification/Gp_Client_Correct.thy ===== *)
theory Gp_Client_Correct
  imports Gp_Client
begin

text \<open>
  Correctness of the blocking client: the loops transfer what they are asked to, the client returns the message that the
  server encoded, and what goes wrong at the end of the input and with a header that comes in pieces.
\<close>

section \<open>The loops\<close>

text \<open>Every call transfers something, and there are enough calls for \<open>k\<close> bytes.\<close>

definition steady :: "int list \<Rightarrow> int \<Rightarrow> bool" where
  "steady answers k \<longleftrightarrow> (\<forall>a \<in> set answers. 0 < a) \<and> k \<le> int (length answers)"

lemma send_loop_ok:
  assumes "0 \<le> t" and "t \<le> len" and "bytesleft = len - t" and "len \<le> int (length msg)" and "steady (s_writes s) (len - t)"
  shows "\<exists>s' n'. send_loop msg len t bytesleft n s = Some (Inr (len, n', s')) \<and> (t < len \<longrightarrow> (\<exists>k \<ge> 0. n' = Some k)) \<and> (t = len \<longrightarrow> n' = n) \<and>
    (\<exists>ws. s' = s\<lparr>s_out := s_out s @ take (nat (len - t)) (drop (nat t) msg), s_writes := ws\<rparr>)"
  using assms
proof (induction msg len t bytesleft n s rule: send_loop.induct)
  case (1 msg len t bytesleft n s)
  show ?case
  proof (cases "t < len")
    case False
    then have "t = len" using "1.prems"(2) by simp
    then show ?thesis
      by (intro exI [of _ s] exI [of _ n]) (auto simp: send_loop.simps [of msg len] intro!: exI [of _ "s_writes s"])
  next
    case True
    let ?bs = "take (nat bytesleft) (drop (nat t) msg)"
    have r: "mem_read (nat t) (nat bytesleft) msg = Inr ?bs" using "1.prems" by (simp add: mem_read_def nat_add_distrib [symmetric] nat_le_iff)
    obtain a as where a: "s_writes s = a # as" "0 < a" using "1.prems"(5) True by (cases "s_writes s") (auto simp: steady_def)
    define k where "k = min (nat a) (length ?bs)"
    define s1 where "s1 = s\<lparr>s_out := s_out s @ take k ?bs, s_writes := as\<rparr>"
    have w: "write_fd ?bs s = Some (int k, s1)" using a by (simp add: write_fd_def k_def s1_def Let_def)
    have l: "length ?bs = nat (len - t)" using "1.prems" by simp
    have k: "0 < k" "int k \<le> len - t" using a True l by (auto simp: k_def)
    have st: "steady (s_writes s1) (len - (t + int k))" using "1.prems"(5) a k by (auto simp: steady_def s1_def)
    have "\<exists>s' n'. send_loop msg len (t + int k) (bytesleft - int k) (Some (int k)) s1 = Some (Inr (len, n', s')) \<and>
        (t + int k < len \<longrightarrow> (\<exists>k \<ge> 0. n' = Some k)) \<and> (t + int k = len \<longrightarrow> n' = Some (int k)) \<and>
        (\<exists>ws. s' = s1\<lparr>s_out := s_out s1 @ take (nat (len - (t + int k))) (drop (nat (t + int k)) msg), s_writes := ws\<rparr>)"
      by (rule "1.IH" [OF _ r w refl]) (use True "1.prems" k st in auto)
    then obtain s' n' ws where IH: "send_loop msg len (t + int k) (bytesleft - int k) (Some (int k)) s1 = Some (Inr (len, n', s'))"
      "t + int k < len \<longrightarrow> (\<exists>k \<ge> 0. n' = Some k)" "t + int k = len \<longrightarrow> n' = Some (int k)"
      "s' = s1\<lparr>s_out := s_out s1 @ take (nat (len - (t + int k))) (drop (nat (t + int k)) msg), s_writes := ws\<rparr>" by blast
    have "take k ?bs @ take (nat (len - (t + int k))) (drop (nat (t + int k)) msg) = take (nat (len - t)) (drop (nat t) msg)"
    proof -
      have "nat (len - t) = k + nat (len - (t + int k))" "nat (t + int k) = k + nat t" using k "1.prems" by linarith+
      moreover have "k \<le> nat bytesleft" using k "1.prems"(3) by simp
      ultimately show ?thesis by (simp add: take_add min_absorb1 add.commute)
    qed
    then have "s' = s\<lparr>s_out := s_out s @ take (nat (len - t)) (drop (nat t) msg), s_writes := ws\<rparr>" using IH(4) by (simp add: s1_def)
    moreover have "\<exists>k \<ge> 0. n' = Some k" using IH(2,3) k by (cases "t + int k = len") auto
    moreover have "send_loop msg len t bytesleft n s = Some (Inr (len, n', s'))"
      using True IH(1) by (simp add: send_loop.simps [of msg len t] r w)
    ultimately show ?thesis using True by auto
  qed
qed

lemma recv_loop_ok:
  assumes "0 \<le> t" and "t \<le> len" and "bytesleft = len - t" and "len = int (length msg)" and "steady (s_reads s) (len - t)"
    and "len - t \<le> int (length (s_in s))"
  shows "\<exists>s' n'. recv_loop msg len t bytesleft n s = Some (Inr (take (nat t) msg @ take (nat (len - t)) (s_in s), len, n', s')) \<and>
    (t < len \<longrightarrow> (\<exists>k \<ge> 0. n' = Some k)) \<and> (t = len \<longrightarrow> n' = n) \<and> (\<exists>rs. s' = s\<lparr>s_in := drop (nat (len - t)) (s_in s), s_reads := rs\<rparr>)"
  using assms
proof (induction msg len t bytesleft n s rule: recv_loop.induct)
  case (1 msg len t bytesleft n s)
  show ?case
  proof (cases "t < len")
    case False
    then have "t = len" using "1.prems"(2) by simp
    then show ?thesis using "1.prems"(4)
      by (intro exI [of _ s] exI [of _ n]) (auto simp: recv_loop.simps [of msg "int (length msg)"] intro!: exI [of _ "s_reads s"])
  next
    case True
    obtain a as where a: "s_reads s = a # as" "0 < a" using "1.prems"(5) True by (cases "s_reads s") (auto simp: steady_def)
    define bs where "bs = take (min (nat a) (nat bytesleft)) (s_in s)"
    define k where "k = length bs"
    define s1 where "s1 = s\<lparr>s_in := drop k (s_in s), s_reads := as\<rparr>"
    have r: "read_fd (nat bytesleft) s = Some (int k, bs, s1)" using a by (simp add: read_fd_def k_def s1_def bs_def Let_def)
    have k: "0 < k" "int k \<le> len - t" and bs: "bs = take k (s_in s)" using a True "1.prems" by (auto simp: k_def bs_def)
    define msg1 where "msg1 = take (nat t) msg @ bs @ drop (nat t + k) msg"
    have w: "mem_write (nat t) bs msg = Inr msg1" using k "1.prems" by (auto simp: mem_write_def msg1_def k_def [symmetric])
    have l1: "len = int (length msg1)" using k "1.prems" by (auto simp: msg1_def k_def [symmetric])
    have st: "steady (s_reads s1) (len - (t + int k))" using "1.prems"(5) a k by (auto simp: steady_def s1_def)
    have "\<exists>s' n'. recv_loop msg1 len (t + int k) (bytesleft - int k) (Some (int k)) s1 =
        Some (Inr (take (nat (t + int k)) msg1 @ take (nat (len - (t + int k))) (s_in s1), len, n', s')) \<and>
        (t + int k < len \<longrightarrow> (\<exists>k \<ge> 0. n' = Some k)) \<and> (t + int k = len \<longrightarrow> n' = Some (int k)) \<and>
        (\<exists>rs. s' = s1\<lparr>s_in := drop (nat (len - (t + int k))) (s_in s1), s_reads := rs\<rparr>)"
      by (rule "1.IH" [OF _ r refl refl _ w]) (use True "1.prems" k st l1 in \<open>auto simp: s1_def\<close>)
    then obtain s' n' rs where IH: "recv_loop msg1 len (t + int k) (bytesleft - int k) (Some (int k)) s1 =
        Some (Inr (take (nat (t + int k)) msg1 @ take (nat (len - (t + int k))) (s_in s1), len, n', s'))"
      "t + int k < len \<longrightarrow> (\<exists>k \<ge> 0. n' = Some k)" "t + int k = len \<longrightarrow> n' = Some (int k)"
      "s' = s1\<lparr>s_in := drop (nat (len - (t + int k))) (s_in s1), s_reads := rs\<rparr>" by blast
    have n: "nat (len - t) = k + nat (len - (t + int k))" "nat (t + int k) = nat t + k" using k "1.prems" by linarith+
    have "take (nat t + k) msg1 = take (nat t) msg @ bs" using "1.prems" k by (simp add: msg1_def k_def [symmetric])
    then have "take (nat (t + int k)) msg1 @ take (nat (len - (t + int k))) (s_in s1) = take (nat t) msg @ take (nat (len - t)) (s_in s)"
      unfolding n by (simp add: s1_def take_add bs)
    moreover have "s' = s\<lparr>s_in := drop (nat (len - t)) (s_in s), s_reads := rs\<rparr>" using IH(4) unfolding n(1) by (simp add: s1_def add.commute)
    moreover have "\<exists>k \<ge> 0. n' = Some k" using IH(2,3) k by (cases "t + int k = len") auto
    ultimately show ?thesis using True IH(1) by (auto simp: recv_loop.simps [of msg len t] r w)
  qed
qed

text \<open>When the peer closes the connection before all the bytes have come, the loop goes on reading nothing.\<close>

lemma recv_loop_stuck:
  assumes "0 \<le> t" and "bytesleft = len - t" and "len \<le> int (length msg)" and "\<forall>a \<in> set (s_reads s). 0 \<le> a" and "int (length (s_in s)) < len - t"
  shows "recv_loop msg len t bytesleft n s = None"
  using assms
proof (induction msg len t bytesleft n s rule: recv_loop.induct)
  case (1 msg len t bytesleft n s)
  show ?case
  proof (cases "s_reads s")
    case Nil
    then show ?thesis using "1.prems" by (simp add: recv_loop.simps [of msg len t] read_fd_def)
  next
    case (Cons a as)
    define bs where "bs = take (min (nat a) (nat bytesleft)) (s_in s)"
    define s1 where "s1 = s\<lparr>s_in := drop (length bs) (s_in s), s_reads := as\<rparr>"
    have r: "read_fd (nat bytesleft) s = Some (int (length bs), bs, s1)" using Cons "1.prems"(4) by (simp add: read_fd_def s1_def bs_def Let_def)
    have b: "length bs \<le> length (s_in s)" by (simp add: bs_def)
    define msg1 where "msg1 = take (nat t) msg @ bs @ drop (nat t + length bs) msg"
    have w: "mem_write (nat t) bs msg = Inr msg1" using b "1.prems" by (auto simp: mem_write_def msg1_def)
    have l1: "length msg1 = length msg" using b "1.prems" by (auto simp: msg1_def)
    have "recv_loop msg1 len (t + int (length bs)) (bytesleft - int (length bs)) (Some (int (length bs))) s1 = None"
      by (rule "1.IH" [OF _ r refl refl _ w]) (use "1.prems" b l1 Cons in \<open>auto simp: s1_def\<close>)
    then show ?thesis using "1.prems"(5) by (simp add: recv_loop.simps [of msg len t] r w)
  qed
qed

section \<open>Replies\<close>

lemma be_word_bytes4: "be_word 0 (be_bytes 4 (w :: u32)) = w"
  by (rule be_word_be_bytes) simp

text \<open>A call of \<open>read\<close> that is answered in full.\<close>

lemma read_block_full:
  assumes "s_reads s = a # as" and "int nbytes \<le> a" and "s_in s = bs @ rest" and "length bs = nbytes"
  shows "read_block fill nbytes s = Some (Inr (int nbytes, bs, s\<lparr>s_in := rest, s_reads := as\<rparr>))"
  using assms by (simp add: read_block_def read_fd_def Let_def min_absorb2 nat_le_iff malloc_block_def le_nat_iff)

text \<open>The header of a frame, when every one of its four parts is read by one call.\<close>

lemma read_pb_header_frame:
  assumes "s_reads s = a1 # a2 # a3 # a4 # as" and "4 \<le> a1" "4 \<le> a2" "4 \<le> a3" "int (length name + 1) \<le> a4"
    and "s_in s = frame name payload" and "length name + length payload + 13 < 2147483648"
  shows "read_pb_header fill s = Some (Inr (0, name @ [0], of_nat (length payload), s\<lparr>s_in := payload, s_reads := as\<rparr>))"
proof -
  define M where "M = be_bytes 4 k_magic"
  define B where "B = be_bytes 4 (of_nat (4 + (length name + 1) + length payload) :: u32)"
  define N where "N = be_bytes 4 (of_nat (length name + 1) :: u32)"
  have len: "length M = 4" "length B = 4" "length N = 4" by (simp_all only: M_def B_def N_def length_be_bytes)
  have w: "be_word 0 M = k_magic" "be_word 0 B = (of_nat (4 + (length name + 1) + length payload) :: u32)" "be_word 0 N = (of_nat (length name + 1) :: u32)"
    by (simp_all only: M_def B_def N_def be_word_bytes4)
  have inp: "s_in s = M @ B @ N @ (name @ [0]) @ payload" using assms(6) by (simp add: frame_def M_def B_def N_def del: be_bytes_numeral)
  have nl: "unat (of_nat (length name + 1) :: u32) = length name + 1" using assms(7) by (intro unat_of_nat32) simp
  have sl: "\<not> sint (of_nat (length name + 1) :: u32) < 0" using nl assms(7) sint32_nonneg [of "of_nat (length name + 1)"] by simp
  have L: "unat (of_nat (4 + (length name + 1) + length payload) :: u32) = 4 + (length name + 1) + length payload" using assms(7) by (intro unat_of_nat32) simp
  have s1: "c_sub32 (of_nat (4 + (length name + 1) + length payload)) 4 = Inr (of_nat (length name + 1 + length payload))"
    using L assms(7) by (subst c_sub32_nonneg) simp_all
  have "unat (of_nat (length name + 1 + length payload) :: u32) = length name + 1 + length payload" using assms(7) by (intro unat_of_nat32) simp
  then have s2: "c_sub32 (of_nat (length name + 1 + length payload)) (of_nat (length name + 1)) = Inr (of_nat (length payload))"
    using nl assms(7) by (subst c_sub32_nonneg) simp_all
  have r1: "read_block fill 4 s = Some (Inr (4, M, s\<lparr>s_in := B @ N @ (name @ [0]) @ payload, s_reads := a2 # a3 # a4 # as\<rparr>))"
    using read_block_full [OF assms(1), of 4 M] assms(2) inp len by simp
  have r2: "read_block fill 4 (s\<lparr>s_in := B @ N @ (name @ [0]) @ payload, s_reads := a2 # a3 # a4 # as\<rparr>) =
      Some (Inr (4, B, s\<lparr>s_in := N @ (name @ [0]) @ payload, s_reads := a3 # a4 # as\<rparr>))"
    by (subst read_block_full [of _ a2 "a3 # a4 # as" 4 B "N @ (name @ [0]) @ payload"]) (use assms(3) len in simp_all)
  have r3: "read_block fill 4 (s\<lparr>s_in := N @ (name @ [0]) @ payload, s_reads := a3 # a4 # as\<rparr>) =
      Some (Inr (4, N, s\<lparr>s_in := (name @ [0]) @ payload, s_reads := a4 # as\<rparr>))"
    by (subst read_block_full [of _ a3 "a4 # as" 4 N "(name @ [0]) @ payload"]) (use assms(4) len in simp_all)
  have r4: "read_block fill (length name + 1) (s\<lparr>s_in := (name @ [0]) @ payload, s_reads := a4 # as\<rparr>) =
      Some (Inr (int (length name + 1), name @ [0], s\<lparr>s_in := payload, s_reads := as\<rparr>))"
    by (subst read_block_full [of _ a4 as _ "name @ [0]" payload]) (use assms(5) in simp_all)
  have neg: "\<not> (4 :: int) < 0" "\<not> int (length name + 1) < 0" "k_magic = 0x1343EA4" by (simp_all add: k_magic_def)
  show ?thesis unfolding read_pb_header_def Let_def
    by (simp only: r1 r2 r3 r4 w bindR_simps prod.case neg if_False if_True simp_thms sl nl s1 s2 bindE_simps)
qed

lemma send_all_ok:
  assumes "0 < len" and "len \<le> int (length msg)" and "steady (s_writes (connect (server_path srv))) len"
  obtains s' ws where "send_all connect srv msg len = Some (Inr (0, s'))"
    "s' = (connect (server_path srv))\<lparr>s_out := s_out (connect (server_path srv)) @ take (nat len) msg, s_writes := ws\<rparr>"
  using send_loop_ok [of 0 len len msg "connect (server_path srv)" None] assms that
  by (auto simp: send_all_def send_all_sync_def)

lemma read_all_sync_ok:
  assumes "0 < len" and "len = int (length msg)" and "steady (s_reads s) len" and "len \<le> int (length (s_in s))"
  obtains rs where "read_all_sync msg len s = Some (Inr (0, take (nat len) (s_in s), len, s\<lparr>s_in := drop (nat len) (s_in s), s_reads := rs\<rparr>))"
  using recv_loop_ok [of 0 len len msg s None] assms that by (auto simp: read_all_sync_def)

lemma client_map: "get_sync_client_pb_map = get_pb_map"
  by (simp add: fun_eq_iff get_sync_client_pb_map_def get_pb_map_def)

text \<open>
  C25. Request and reply: the client writes its request and returns the message the server has encoded as the reply, the
  whole reply is read and the socket is closed, provided that every call of \<open>write\<close> transfers something, that each of the
  first four calls of \<open>read\<close> delivers its part of the header, and that each later one delivers something. The reply is
  what a call of \<open>encode\<close> that returned has produced; nothing is assumed of the memory behind the name. Of the
  protobuf library its documented contract is used.
\<close>

theorem client_receives_encoded_reply:
  assumes "connect (server_path srv) = s" and "0 < len" and "len \<le> int (length req)" and "steady (s_writes s) len"
    and "s_reads s = a1 # a2 # a3 # a4 # as" and "4 \<le> a1" "4 \<le> a2" "4 \<le> a3" "int (length name + 1) \<le> a4" and "steady as (int (length (pack m)))"
    and "name_of m = name @ 0 # behind" and "0 \<notin> set name" and "length name + length (pack m) + 13 < 2147483648"
    and "packed_size m = of_nat (length (pack m))" and "unpack desc (pack m) = Some m"
    and "registry_ok seed pb_map" and "registered pb_map name = Some desc"
    and "encode fill' name_of packed_size pack m = Inr (reply, reply_len)" and "s_in s = reply"
  shows "\<exists>pb_map' s'. send_msg_and_recv fill seed unpack connect pb_map srv req len = Some (Inr (Some m, pb_map', s')) \<and>
    s_out s' = s_out s @ take (nat len) req \<and> s_in s' = [] \<and> s_closed s' \<and> registry_ok seed pb_map' \<and> registered pb_map' = registered pb_map"
proof -
  have pos: "behind \<noteq> []" "pack m \<noteq> []"
    using encode_out_of_bounds [of name_of m name behind pack packed_size fill'] assms(11-14,18) by auto
  have reply: "s_in s = frame name (pack m)"
    using encode_frame [of name_of m name "hd behind" "tl behind" pack packed_size fill'] pos assms(11-14,18,19) by simp
  obtain ws where sent: "send_all connect srv req len = Some (Inr (0, s\<lparr>s_out := s_out s @ take (nat len) req, s_writes := ws\<rparr>))"
    using send_all_ok [of len req connect srv] assms(1-4) by metis
  define s1 where "s1 = s\<lparr>s_out := s_out s @ take (nat len) req, s_writes := ws\<rparr>"
  define s2 where "s2 = s1\<lparr>s_in := pack m, s_reads := as\<rparr>"
  have hdr: "read_pb_header fill s1 = Some (Inr (0, name @ [0], of_nat (length (pack m)), s2))"
    using read_pb_header_frame [of s1 a1 a2 a3 a4 as name "pack m" fill] assms(5-9,13) reply by (simp add: s1_def s2_def)
  have c: "c_str (name @ [0]) = name" using c_str_name [OF assms(12), of "[]"] by simp
  obtain d' where d': "dictFetchValue (get_pb_map seed pb_map) (name @ [0]) = Inr (Some desc, d')" "registry_ok seed (Some d')" "registered (Some d') = registered pb_map"
    using registry_fetch [OF assms(16), of "name @ [0]"] assms(13,17) c by auto
  have ml: "sint (of_nat (length (pack m)) :: u32) = int (length (pack m))"
    using assms(13) unat_of_nat32 [of "length (pack m)"] sint32_nonneg [of "of_nat (length (pack m))"] by (simp add: uint_nat)
  obtain rs where rd: "read_all_sync (malloc_block fill (length (pack m))) (int (length (pack m))) s2 =
      Some (Inr (0, pack m, int (length (pack m)), s2\<lparr>s_in := [], s_reads := rs\<rparr>))"
    by (rule read_all_sync_ok [of "int (length (pack m))" "malloc_block fill (length (pack m))" s2])
      (use assms(10) pos in \<open>simp_all add: s2_def\<close>)
  show ?thesis
    by (simp add: send_msg_and_recv_def sent [folded s1_def] hdr client_map d' ml rd assms(15) close_fd_def)
      (simp add: s2_def s1_def)
qed

theorem client_receives_encoded_reply_witness:
  "\<exists>pb_map pb_map' s' reply n. register_name_pb_map [] True ([77] @ [0]) (5 :: nat) None = Inr pb_map \<and>
    encode (\<lambda>_. 0) (\<lambda>_. [77, 0, 0]) (\<lambda>m. of_nat (length m)) id [1, 2, 3] = Inr (reply, n) \<and>
    send_msg_and_recv (\<lambda>_. 0) [] (\<lambda>d bs. if d = 5 then Some bs else None)
      (\<lambda>_. \<lparr>s_in = reply, s_out = [], s_reads = [4, 4, 4, 9, 1, 9, 9], s_writes = [1, 7], s_closed = False\<rparr>) pb_map ''a'' [8, 9] 2 =
      Some (Inr (Some [1, 2, 3], pb_map', s')) \<and> s_out s' = [8, 9] \<and> s_closed s'"
proof -
  obtain pb where pb: "register_name_pb_map [] True ([77] @ [0]) (5 :: nat) None = Inr pb" "registry_ok [] pb" "registered pb [77] = Some 5"
    using register_name_pb_map_ok [of "[]" None "[77]" True "5 :: nat"] by (auto simp: registry_ok_def get_pb_map_def dictInit_ok)
  have "encode (\<lambda>_. 0) (\<lambda>_. [77, 0, 0]) (\<lambda>m. of_nat (length m)) id [1, 2, 3] = Inr (frame [77] [1, 2, 3], of_nat (length (frame [77] [1, 2, 3])))"
    by (subst encode_frame [of _ _ "[77]" 0 "[]"]) simp_all
  then obtain reply n where e: "encode (\<lambda>_. 0) (\<lambda>_. [77, 0, 0]) (\<lambda>m. of_nat (length m)) id [1, 2, 3] = Inr (reply, n)" by blast
  let ?s = "\<lparr>s_in = reply, s_out = [], s_reads = [4, 4, 4, 9, 1, 9, 9], s_writes = [1, 7], s_closed = False\<rparr>"
  have "\<exists>pb' s'. send_msg_and_recv (\<lambda>_. 0) [] (\<lambda>d bs. if d = 5 then Some bs else None) (\<lambda>_. ?s) pb ''a'' [8, 9] 2 = Some (Inr (Some [1, 2, 3], pb', s')) \<and>
    s_out s' = s_out ?s @ take (nat 2) [8, 9] \<and> s_in s' = [] \<and> s_closed s' \<and> registry_ok [] pb' \<and> registered pb' = registered pb"
    by (rule client_receives_encoded_reply [where name = "[77]" and behind = "[0]" and desc = 5 and s = ?s and ?a1.0 = 4 and ?a2.0 = 4 and ?a3.0 = 4 and ?a4.0 = 9 and as = "[1, 9, 9]", OF refl _ _ _ _ _ _ _ _ _ _ _ _ _ _ pb(2,3) e])
      (simp_all add: steady_def)
  then show ?thesis using pb(1) e by auto
qed

text \<open>
  A reply that ends early keeps the client in \<open>read_all_sync\<close> for ever: when the peer has closed the connection and
  fewer bytes than asked for have come, \<open>read\<close> returns 0 again and again, and the loop has not ended after any number of calls.
\<close>

lemma read_all_sync_ignores_end_of_input:
  assumes "len \<le> int (length msg)" and "\<forall>a \<in> set (s_reads s). 0 \<le> a" and "int (length (s_in s)) < len"
  shows "read_all_sync msg len s = None"
  using recv_loop_stuck [of 0 len len msg s None] assms by (simp add: read_all_sync_def)

text \<open>A message of no bytes: the result depends on a variable that has no value.\<close>

lemma send_all_sync_empty: "len \<le> 0 \<Longrightarrow> send_all_sync msg len s = Some (Inl Uninitialised)"
  by (simp add: send_all_sync_def send_loop.simps)

text \<open>A part of the header that does not come in one piece is filled up with what the memory held.\<close>

lemma header_split_is_misread:
  "read_pb_header (\<lambda>_. 0) \<lparr>s_in = frame [77] [1], s_out = [], s_reads = [2, 4, 4, 4], s_writes = [], s_closed = False\<rparr> =
    Some (Inr (-1, [], 0, \<lparr>s_in = drop 2 (frame [77] [1]), s_out = [], s_reads = [4, 4, 4], s_writes = [], s_closed = True\<rparr>))"
  by code_simp

end
