(* ===== verification/Gp_Sock.thy ===== *)
theory Gp_Sock
  imports Prelude
begin

text \<open>
  Socket addresses (\<open>base/gp_sock_address.c\<close>): the union of the three address structures as its family and the bytes that
  follow it. The conversions and system calls of the C library are parameters.
\<close>

section \<open>Layout\<close>

definition AF_UNIX :: u16 where "AF_UNIX = 1"
definition AF_INET :: u16 where "AF_INET = 2"
definition AF_INET6 :: u16 where "AF_INET6 = 10"

datatype address_type = IP | IPV6 | DOMAIN

text \<open>
  The sizes of \<open>sockaddr_in\<close>, \<open>sockaddr_in6\<close>, \<open>sockaddr_un\<close> and of its member \<open>sun_path\<close>, which follows the family. Port
  and address of the other two are at the offsets 0, 2 and 0, 6 behind the family.
\<close>

definition sizeof_in :: nat where "sizeof_in = 16"
definition sizeof_in6 :: nat where "sizeof_in6 = 28"
definition sizeof_un :: nat where "sizeof_un = 110"
definition sizeof_path :: nat where "sizeof_path = 108"

record gp_sock_address =
  sa_family :: u16
  sa_data :: bytes

definition sun_path :: "gp_sock_address \<Rightarrow> bytes" where
  "sun_path a = take sizeof_path (sa_data a)"

text \<open>\<open>strlen\<close> of a string in an array.\<close>

definition strlen_in :: "bytes \<Rightarrow> nat res" where
  "strlen_in blk = (if 0 \<in> set blk then Inr (length (c_str blk)) else Inl OutOfBounds)"

section \<open>Operations\<close>

definition get_gp_sock_len_by_sockaddr :: "u16 \<Rightarrow> nat" where
  "get_gp_sock_len_by_sockaddr family =
     (if family = AF_INET then sizeof_in else if family = AF_INET6 then sizeof_in6 else if family = AF_UNIX then sizeof_un else 0)"

text \<open>\<open>getsockname\<close> gives the family of the address of a descriptor.\<close>

definition get_gp_sock_len_by_fd :: "(nat \<Rightarrow> u16) \<Rightarrow> nat \<Rightarrow> nat" where
  "get_gp_sock_len_by_fd getsockname fd =
     (let family = getsockname fd in
      if family = AF_INET then sizeof_in else if family = AF_INET6 then sizeof_in6 else if family = AF_UNIX then sizeof_un else 0)"

definition get_gp_sock_len :: "gp_sock_address \<Rightarrow> nat res" where
  "get_gp_sock_len a =
     (if sa_family a = AF_INET then Inr sizeof_in
      else if sa_family a = AF_INET6 then Inr sizeof_in6
      else if sa_family a = AF_UNIX then bindE (strlen_in (sun_path a)) (\<lambda>n. Inr (2 + n))
      else Inr 0)"

text \<open>\<open>bzero\<close> of a structure of \<open>n\<close> bytes.\<close>

definition bzero_data :: "nat \<Rightarrow> bytes \<Rightarrow> bytes" where
  "bzero_data n d = replicate (n - 2) 0 @ drop (n - 2) d"

text \<open>\<open>inet_pton\<close> gives the bytes of an address when it can be converted.\<close>

definition init_gp_sock_address ::
  "(u16 \<Rightarrow> bytes \<Rightarrow> bytes option) \<Rightarrow> bytes \<Rightarrow> u16 \<Rightarrow> address_type \<Rightarrow> gp_sock_address \<Rightarrow> gp_sock_address res" where
  "init_gp_sock_address inet_pton address port type a =
     (case type of
        IPV6 \<Rightarrow>
          bindE (mem_write 0 (be_bytes 2 port) (bzero_data sizeof_in6 (sa_data a))) (\<lambda>d.
          bindE (case inet_pton AF_INET6 address of None \<Rightarrow> Inr d | Some bs \<Rightarrow> mem_write 6 bs d) (\<lambda>d.
            Inr (a\<lparr>sa_family := AF_INET6, sa_data := d\<rparr>)))
      | IP \<Rightarrow>
          bindE (mem_write 0 (be_bytes 2 port) (bzero_data sizeof_in (sa_data a))) (\<lambda>d.
          bindE (case inet_pton AF_INET address of None \<Rightarrow> Inr d | Some bs \<Rightarrow> mem_write 2 bs d) (\<lambda>d.
            Inr (a\<lparr>sa_family := AF_INET, sa_data := d\<rparr>)))
      | DOMAIN \<Rightarrow>
          let d = bzero_data sizeof_un (sa_data a) in
          bindE (strlen_in address) (\<lambda>n.
          if n < sizeof_path then
            bindE (mem_write 0 (take (n + 1) address) d) (\<lambda>d. Inr (a\<lparr>sa_family := AF_UNIX, sa_data := d\<rparr>))
          else Inl OutOfBounds))"

definition create_gp_sock_address :: "(u16 \<Rightarrow> bytes \<Rightarrow> bytes option) \<Rightarrow> bytes \<Rightarrow> u16 \<Rightarrow> address_type \<Rightarrow> gp_sock_address res" where
  "create_gp_sock_address inet_pton address port type =
     init_gp_sock_address inet_pton address port type \<lparr>sa_family = 0, sa_data = replicate 110 0\<rparr>"

text \<open>The address is copied without the NUL behind a path.\<close>

definition init_gp_sock_address_by_sockaddr :: "gp_sock_address \<Rightarrow> gp_sock_address \<Rightarrow> gp_sock_address res" where
  "init_gp_sock_address_by_sockaddr a addr =
     (if sa_family addr = AF_INET then Inr (a\<lparr>sa_family := sa_family addr, sa_data := take 14 (sa_data addr) @ drop 14 (sa_data a)\<rparr>)
      else if sa_family addr = AF_INET6 then Inr (a\<lparr>sa_family := sa_family addr, sa_data := take 26 (sa_data addr) @ drop 26 (sa_data a)\<rparr>)
      else if sa_family addr = AF_UNIX then
        bindE (strlen_in (sun_path addr)) (\<lambda>n.
        bindE (mem_write 0 (take n (sun_path addr)) (sa_data a)) (\<lambda>d.
          Inr (a\<lparr>sa_family := AF_UNIX, sa_data := d\<rparr>)))
      else Inr a)"

text \<open>\<open>strncpy\<close>: a string that is shorter is filled up with zeros, one that is not has no NUL.\<close>

definition strncpy_bytes :: "bytes \<Rightarrow> nat \<Rightarrow> bytes" where
  "strncpy_bytes src n = take n (c_str src) @ replicate (n - length (c_str src)) 0"

text \<open>\<open>inet_ntop\<close> gives the text of an address. The length is compared as an unsigned number.\<close>

definition get_gp_sock_address :: "(u16 \<Rightarrow> bytes \<Rightarrow> bytes option) \<Rightarrow> gp_sock_address \<Rightarrow> bytes \<Rightarrow> int \<Rightarrow> bytes res" where
  "get_gp_sock_address inet_ntop a address len =
     (if sa_family a = AF_INET then
        (case inet_ntop AF_INET (take 4 (drop 2 (sa_data a))) of None \<Rightarrow> Inr address | Some t \<Rightarrow> mem_write 0 t address)
      else if sa_family a = AF_INET6 then
        (case inet_ntop AF_INET6 (take 16 (drop 6 (sa_data a))) of None \<Rightarrow> Inr address | Some t \<Rightarrow> mem_write 0 t address)
      else if sa_family a = AF_UNIX then
        let n = (if len < 0 \<or> len > int sizeof_path then sizeof_path else nat len)
        in mem_write 0 (strncpy_bytes (sun_path a) n) address
      else Inr address)"

text \<open>The size of the structure that is allocated, \<open>None\<close> for NULL.\<close>

definition create_sockaddr :: "u16 \<Rightarrow> nat option" where
  "create_sockaddr family =
     (if family = AF_INET then Some sizeof_in else if family = AF_INET6 then Some sizeof_in6
      else if family = AF_UNIX then Some sizeof_un else None)"

section \<open>Paths\<close>

lemmas sizeof_defs = sizeof_in_def sizeof_in6_def sizeof_un_def sizeof_path_def

lemma c_str_path: "0 \<notin> set p \<Longrightarrow> c_str (p @ 0 # rest) = p"
  by (induction p) (auto simp: c_str_def)

lemma create_domain:
  assumes "0 \<notin> set p" and "length p < 108"
  shows "create_gp_sock_address inet_pton (p @ [0]) port DOMAIN =
    Inr \<lparr>sa_family = AF_UNIX, sa_data = p @ 0 # replicate (109 - length p) 0\<rparr>"
proof -
  have "bzero_data sizeof_un (replicate 110 0) = replicate 108 0 @ replicate 2 0" by (simp add: bzero_data_def sizeof_defs)
  also have "\<dots> = replicate 110 0" by (simp only: replicate_add [symmetric]) simp
  finally have z: "bzero_data sizeof_un (replicate 110 0) = replicate 110 0" .
  have "mem_write 0 (p @ [0]) (replicate 110 0) = Inr (p @ 0 # replicate (109 - length p) 0)"
    using assms(2) by (simp add: mem_write_def)
  then show ?thesis using assms(2) c_str_path [OF assms(1), of "[]"] z
    by (simp add: create_gp_sock_address_def init_gp_sock_address_def strlen_in_def sizeof_path_def Let_def)
qed

text \<open>
  The path of a local socket is kept: \<open>create_gp_sock_address\<close> stores a path of at most 107 bytes with its NUL, its length
  is that of the family and the path, and \<open>get_gp_sock_address\<close> gives it back into a buffer of at least 108 bytes.
  A longer path is written behind the array.
\<close>

lemma domain_address_roundtrip:
  assumes "0 \<notin> set p" and "108 \<le> length buf"
  shows "if length p < 108 then
      \<exists>a. create_gp_sock_address inet_pton (p @ [0]) port DOMAIN = Inr a \<and> get_gp_sock_len a = Inr (2 + length p) \<and>
        (\<exists>buf'. get_gp_sock_address inet_ntop a buf (int (length buf)) = Inr buf' \<and> c_str buf' = p)
    else create_gp_sock_address inet_pton (p @ [0]) port DOMAIN = Inl OutOfBounds"
proof (cases "length p < 108")
  case True
  have sp: "sun_path \<lparr>sa_family = AF_UNIX, sa_data = p @ 0 # replicate (109 - length p) 0\<rparr> = p @ 0 # replicate (107 - length p) 0"
    using True by (simp add: sun_path_def sizeof_defs take_Cons')
  have "strncpy_bytes (p @ 0 # replicate (107 - length p) 0) 108 = p @ 0 # replicate (107 - length p) 0"
  proof -
    have "108 - length p = Suc (107 - length p)" using True by simp
    then show ?thesis using True c_str_path [OF assms(1)] by (simp add: strncpy_bytes_def)
  qed
  then have "mem_write 0 (strncpy_bytes (p @ 0 # replicate (107 - length p) 0) 108) buf = Inr (p @ 0 # replicate (107 - length p) 0 @ drop 108 buf)"
    using True assms(2) by (simp add: mem_write_def)
  then show ?thesis using True create_domain [OF assms(1) True] assms c_str_path [OF assms(1)]
    by (simp add: get_gp_sock_len_def get_gp_sock_address_def sp [unfolded AF_UNIX_def] strlen_in_def AF_UNIX_def AF_INET_def AF_INET6_def sizeof_defs Let_def)
next
  case False
  then show ?thesis using c_str_path [OF assms(1), of "[]"]
    by (simp add: create_gp_sock_address_def init_gp_sock_address_def strlen_in_def sizeof_defs Let_def)
qed

text \<open>A path copied from another address keeps what was behind it: here the path \<open>abc\<close> is replaced by \<open>x\<close>.\<close>

lemma copied_path_not_terminated:
  "\<exists>a. init_gp_sock_address_by_sockaddr \<lparr>sa_family = AF_UNIX, sa_data = [97, 98, 99] @ replicate 107 0\<rparr>
      \<lparr>sa_family = AF_UNIX, sa_data = [120] @ replicate 109 0\<rparr> = Inr a \<and> c_str (sun_path a) = [120, 98, 99]"
proof -
  have "init_gp_sock_address_by_sockaddr \<lparr>sa_family = AF_UNIX, sa_data = [97, 98, 99] @ replicate 107 0\<rparr>
      \<lparr>sa_family = AF_UNIX, sa_data = [120] @ replicate 109 0\<rparr> = Inr \<lparr>sa_family = AF_UNIX, sa_data = [120, 98, 99] @ replicate 107 0\<rparr>" by code_simp
  moreover have "c_str (sun_path \<lparr>sa_family = AF_UNIX, sa_data = [120, 98, 99] @ replicate 107 0\<rparr>) = [120, 98, 99]" by code_simp
  ultimately show ?thesis by blast
qed

end
