(* ===== verification/Gp_Module.thy ===== *)
theory Gp_Module
  imports Gp_List
begin

text \<open>
  Modules (\<open>base/gp_module.c\<close>): descriptors on an intrusive list, put there by priority when a module registers, and
  initialised in the order of the list.
\<close>

section \<open>Operations\<close>

datatype gp_module_init_type = MODULE_INIT_FIRST | MODULE_INIT_OTHER

text \<open>Functions are numbers; \<open>None\<close> is NULL.\<close>

record gp_module_desc =
  md_type :: gp_module_init_type
  md_priority :: int
  md_init :: "nat option"
  md_stat_init :: int

text \<open>The list nodes, the descriptors by address, and the init functions that have been called.\<close>

record modules =
  mo_heap :: list_heap
  mo_desc :: "addr \<Rightarrow> gp_module_desc"
  mo_calls :: "nat list"

text \<open>The constructor that initialises \<open>first_list\<close>; the node is the first member of a descriptor.\<close>

definition init_moudle_list :: "addr \<Rightarrow> modules \<Rightarrow> modules res" where
  "init_moudle_list first_list m = bindE (gp_list_init_offset (mo_heap m) first_list 0) (\<lambda>h. Inr (m\<lparr>mo_heap := h\<rparr>))"

definition put_heap :: "modules \<Rightarrow> list_heap res \<Rightarrow> modules res" where
  "put_heap m r = bindE r (\<lambda>h. Inr (m\<lparr>mo_heap := h\<rparr>))"

text \<open>The rest of the loop of \<open>gp_register_module_main\<close> from \<open>pos\<close> on; the fuel bounds the number of items.\<close>

fun register_from :: "nat \<Rightarrow> addr \<Rightarrow> addr \<Rightarrow> addr \<Rightarrow> modules \<Rightarrow> modules run" where
  "register_from fuel list module pos m =
     (if pos = 0 then Some (put_heap m (gp_list_append (mo_heap m) list module))
      else if md_priority (mo_desc m pos) > md_priority (mo_desc m module) then
        Some (put_heap m (gp_list_insert_after (mo_heap m) list module pos))
      else case fuel of
        0 \<Rightarrow> None
      | Suc fuel \<Rightarrow> bindR (Some (gp_list_next (mo_heap m) list pos)) (\<lambda>pos. register_from fuel list module pos m))"

definition gp_register_module_main :: "nat \<Rightarrow> addr \<Rightarrow> addr \<Rightarrow> modules \<Rightarrow> modules run" where
  "gp_register_module_main fuel list module m =
     bindR (Some (gp_list_first (mo_heap m) list)) (\<lambda>pos. register_from fuel list module pos m)"

definition gp_register_module :: "nat \<Rightarrow> addr \<Rightarrow> addr \<Rightarrow> modules \<Rightarrow> modules run" where
  "gp_register_module fuel first_list module m =
     (case md_type (mo_desc m module) of
        MODULE_INIT_FIRST \<Rightarrow> gp_register_module_main fuel first_list module m
      | MODULE_INIT_OTHER \<Rightarrow> Some (Inr m))"

fun init_from :: "nat \<Rightarrow> addr \<Rightarrow> addr \<Rightarrow> modules \<Rightarrow> modules run" where
  "init_from fuel list pos m =
     (if pos = 0 then Some (Inr m)
      else case fuel of
        0 \<Rightarrow> None
      | Suc fuel \<Rightarrow>
          let m1 = (case md_init (mo_desc m pos) of
              None \<Rightarrow> m
            | Some f \<Rightarrow> m\<lparr>mo_desc := (mo_desc m)(pos := (mo_desc m pos)\<lparr>md_stat_init := 1\<rparr>), mo_calls := mo_calls m @ [f]\<rparr>)
          in bindR (Some (gp_list_next (mo_heap m1) list pos)) (\<lambda>pos. init_from fuel list pos m1))"

definition gp_init_module :: "nat \<Rightarrow> addr \<Rightarrow> modules \<Rightarrow> modules run" where
  "gp_init_module fuel list m = bindR (Some (gp_list_first (mo_heap m) list)) (\<lambda>pos. init_from fuel list pos m)"

definition gp_init_modules :: "nat \<Rightarrow> addr \<Rightarrow> modules \<Rightarrow> (int \<times> modules) run" where
  "gp_init_modules fuel first_list m = bindR (gp_init_module fuel first_list m) (\<lambda>m. Some (Inr (0, m)))"

declare register_from.simps [simp del] init_from.simps [simp del]

section \<open>On the sequence of modules\<close>

text \<open>Where a module is put: behind the first one with a greater priority, else at the end.\<close>

fun place_module :: "(addr \<Rightarrow> int) \<Rightarrow> addr \<Rightarrow> addr list \<Rightarrow> addr list" where
  "place_module pr m [] = [m]"
| "place_module pr m (x # xs) = (if pr x > pr m then x # m # xs else x # place_module pr m xs)"

lemma mset_place: "set (place_module pr m xs) = insert m (set xs)" "length (place_module pr m xs) = Suc (length xs)"
  by (induction xs) auto

definition modules_ok :: "addr \<Rightarrow> addr list \<Rightarrow> modules \<Rightarrow> bool" where
  "modules_ok l its m \<longleftrightarrow> items_at (mo_heap m) l its \<and> 0 \<notin> set its \<and> ll_offset (mo_heap m) l = 0"

lemma items_at_distinct: "items_at h l its \<Longrightarrow> distinct its"
  by (simp add: items_at_def dlist_def distinct_map)

lemma register_op:
  assumes ok: "modules_ok l its m" and new: "a \<notin> set its" "a \<noteq> 0" "a \<noteq> l" and op: "op_item op = a" "spec_list_op op its = Some its'"
  shows "\<exists>h. put_heap m (exec_list_op l op (mo_heap m)) = Inr (m\<lparr>mo_heap := h\<rparr>) \<and>
    (set its' = insert a (set its) \<longrightarrow> modules_ok l its' (m\<lparr>mo_heap := h\<rparr>))"
proof -
  have "node_ok (mo_heap m) l a" using ok new by (simp add: node_ok_def NODE_def modules_ok_def)
  then obtain h where "exec_list_op l op (mo_heap m) = Inr h" "items_at h l its'" "ll_offset h = ll_offset (mo_heap m)"
    using exec_list_op_refines [of "mo_heap m" l its op its'] ok op by (auto simp: modules_ok_def)
  then show ?thesis using ok new by (auto simp: put_heap_def modules_ok_def)
qed

lemma register_from_ok:
  assumes "modules_ok l (xs @ ys) m" and "a \<notin> set (xs @ ys)" "a \<noteq> 0" "a \<noteq> l" and "length ys \<le> fuel"
  shows "\<exists>h. register_from fuel l a (if ys = [] then 0 else hd ys) m = Some (Inr (m\<lparr>mo_heap := h\<rparr>)) \<and>
    modules_ok l (xs @ place_module (\<lambda>x. md_priority (mo_desc m x)) a ys) (m\<lparr>mo_heap := h\<rparr>)"
  using assms
proof (induction ys arbitrary: xs fuel)
  case Nil
  then show ?case using register_op [OF Nil(1) _ Nil(3,4), of "Append a" "xs @ [a]"]
    by (auto simp: register_from.simps exec_list_op_def spec_list_op_def)
next
  case (Cons y ys)
  have y: "y \<noteq> 0" using Cons.prems(1) by (auto simp: modules_ok_def)
  show ?case
  proof (cases "md_priority (mo_desc m y) > md_priority (mo_desc m a)")
    case True
    have "y \<notin> set xs" using Cons.prems(1) items_at_distinct by (fastforce simp: modules_ok_def)
    then have "spec_list_op (InsertAfter a y) (xs @ y # ys) = Some (xs @ y # a # ys)"
      using Cons.prems(2) by (simp add: spec_list_op_def takeWhile_split dropWhile_split)
    from register_op [OF Cons.prems(1-4) _ this]
    show ?thesis using True y by (subst register_from.simps) (auto simp: exec_list_op_def)
  next
    case False
    obtain f where f: "fuel = Suc f" "length ys \<le> f" using Cons.prems(5) by (cases fuel) auto
    have nx: "gp_list_next (mo_heap m) l y = Inr (if ys = [] then 0 else hd ys)"
      using Cons.prems(1) y by (intro gp_list_next_ok) (auto simp: modules_ok_def)
    from Cons.IH [of "xs @ [y]" f] Cons.prems f show ?thesis
      using False y nx by (subst register_from.simps) auto
  qed
qed

lemma register_module_ok:
  assumes "modules_ok l its m" and "a \<notin> set its" "a \<noteq> 0" "a \<noteq> l" and "length its \<le> fuel" and "md_type (mo_desc m a) = MODULE_INIT_FIRST"
  shows "\<exists>h. gp_register_module fuel l a m = Some (Inr (m\<lparr>mo_heap := h\<rparr>)) \<and>
    modules_ok l (place_module (\<lambda>x. md_priority (mo_desc m x)) a its) (m\<lparr>mo_heap := h\<rparr>)"
  using register_from_ok [of l "[]" its m a fuel] assms gp_list_first_ok [of "mo_heap m" l its]
  by (simp add: gp_register_module_def gp_register_module_main_def modules_ok_def)

fun register_all :: "nat \<Rightarrow> addr \<Rightarrow> addr list \<Rightarrow> modules \<Rightarrow> modules run" where
  "register_all fuel l [] m = Some (Inr m)"
| "register_all fuel l (a # as) m = bindR (gp_register_module fuel l a m) (register_all fuel l as)"

lemma register_all_ok:
  assumes "modules_ok l its m" and "distinct as" and "\<forall>a \<in> set as. a \<notin> set its \<and> a \<noteq> 0 \<and> a \<noteq> l \<and> md_type (mo_desc m a) = MODULE_INIT_FIRST"
    and "length its + length as \<le> fuel"
  shows "\<exists>h. register_all fuel l as m = Some (Inr (m\<lparr>mo_heap := h\<rparr>)) \<and>
    modules_ok l (fold (place_module (\<lambda>x. md_priority (mo_desc m x))) as its) (m\<lparr>mo_heap := h\<rparr>)"
  using assms
proof (induction as arbitrary: its m)
  case Nil
  then show ?case by (intro exI [of _ "mo_heap m"]) simp
next
  case (Cons a as)
  from Cons.prems obtain h where h: "gp_register_module fuel l a m = Some (Inr (m\<lparr>mo_heap := h\<rparr>))"
    "modules_ok l (place_module (\<lambda>x. md_priority (mo_desc m x)) a its) (m\<lparr>mo_heap := h\<rparr>)"
    using register_module_ok [of l its m a fuel] by auto
  from Cons.IH [OF h(2)] Cons.prems obtain h' where "register_all fuel l as (m\<lparr>mo_heap := h\<rparr>) = Some (Inr (m\<lparr>mo_heap := h\<rparr>\<lparr>mo_heap := h'\<rparr>))"
    "modules_ok l (fold (place_module (\<lambda>x. md_priority (mo_desc m x))) as (place_module (\<lambda>x. md_priority (mo_desc m x)) a its)) (m\<lparr>mo_heap := h\<rparr>\<lparr>mo_heap := h'\<rparr>)"
    by (auto simp: mset_place)
  then show ?case using h(1) by auto
qed

text \<open>The functions of the modules of a sequence, in its order.\<close>

definition init_calls :: "(addr \<Rightarrow> gp_module_desc) \<Rightarrow> addr list \<Rightarrow> nat list" where
  "init_calls d its = List.map_filter (\<lambda>a. md_init (d a)) its"

lemma init_from_ok:
  assumes "modules_ok l (xs @ ys) m" and "length ys \<le> fuel"
  shows "\<exists>d. init_from fuel l (if ys = [] then 0 else hd ys) m = Some (Inr (m\<lparr>mo_desc := d, mo_calls := mo_calls m @ init_calls (mo_desc m) ys\<rparr>))"
  using assms
proof (induction ys arbitrary: xs fuel m)
  case Nil
  then show ?case by (intro exI [of _ "mo_desc m"]) (simp add: init_from.simps init_calls_def List.map_filter_simps)
next
  case (Cons y ys)
  have y: "y \<noteq> 0" using Cons.prems(1) by (auto simp: modules_ok_def)
  obtain f where f: "fuel = Suc f" "length ys \<le> f" using Cons.prems(2) by (cases fuel) auto
  define m1 where "m1 = (case md_init (mo_desc m y) of None \<Rightarrow> m
    | Some g \<Rightarrow> m\<lparr>mo_desc := (mo_desc m)(y := (mo_desc m y)\<lparr>md_stat_init := 1\<rparr>), mo_calls := mo_calls m @ [g]\<rparr>)"
  have m1: "mo_heap m1 = mo_heap m" "modules_ok l ((xs @ [y]) @ ys) m1" using Cons.prems(1) by (auto simp: m1_def modules_ok_def split: option.splits)
  have nx: "gp_list_next (mo_heap m1) l y = Inr (if ys = [] then 0 else hd ys)"
    using Cons.prems(1) y m1(1) by (intro gp_list_next_ok) (auto simp: modules_ok_def)
  have "md_init (mo_desc m1 a) = md_init (mo_desc m a)" for a by (simp add: m1_def split: option.splits)
  then have "init_calls (mo_desc m1) ys = init_calls (mo_desc m) ys" by (simp add: init_calls_def)
  moreover obtain d where "init_from f l (if ys = [] then 0 else hd ys) m1 = Some (Inr (m1\<lparr>mo_desc := d, mo_calls := mo_calls m1 @ init_calls (mo_desc m1) ys\<rparr>))"
    using Cons.IH [OF m1(2) f(2)] by blast
  moreover have "init_from fuel l y m = init_from f l (if ys = [] then 0 else hd ys) m1"
    using y f nx by (subst init_from.simps) (simp add: m1_def)
  ultimately show ?case
    by (intro exI [of _ d]) (cases "md_init (mo_desc m y)"; simp add: m1_def init_calls_def List.map_filter_simps)
qed

text \<open>
  C38. Modules that register one after the other are on the list in the order \<open>place_module\<close> gives, and \<open>gp_init_modules\<close>
  then calls the init function of each of them exactly once, in this order, and returns 0.
\<close>

theorem modules_initialised_in_list_order:
  assumes "modules_ok l [] m" and "distinct as" and "\<forall>a \<in> set as. a \<noteq> 0 \<and> a \<noteq> l \<and> md_type (mo_desc m a) = MODULE_INIT_FIRST"
    and "length as \<le> fuel"
  shows "\<exists>m1 m2. register_all fuel l as m = Some (Inr m1) \<and> gp_init_modules fuel l m1 = Some (Inr (0, m2)) \<and>
    mo_calls m2 = mo_calls m @ init_calls (mo_desc m) (fold (place_module (\<lambda>x. md_priority (mo_desc m x))) as []) \<and>
    length (fold (place_module (\<lambda>x. md_priority (mo_desc m x))) as []) = length as \<and>
    set (fold (place_module (\<lambda>x. md_priority (mo_desc m x))) as []) = set as"
proof -
  let ?p = "place_module (\<lambda>x. md_priority (mo_desc m x))"
  obtain h where h: "register_all fuel l as m = Some (Inr (m\<lparr>mo_heap := h\<rparr>))" "modules_ok l (fold ?p as []) (m\<lparr>mo_heap := h\<rparr>)"
    using register_all_ok [OF assms(1,2), of fuel] assms(3,4) by auto
  have s: "set (fold ?p as its) = set as \<union> set its" "length (fold ?p as its) = length as + length its" for its
    by (induction as arbitrary: its) (auto simp: mset_place)
  have "\<exists>d. init_from fuel l (if fold ?p as [] = [] then 0 else hd (fold ?p as [])) (m\<lparr>mo_heap := h\<rparr>) =
      Some (Inr (m\<lparr>mo_heap := h\<rparr>\<lparr>mo_desc := d, mo_calls := mo_calls m @ init_calls (mo_desc m) (fold ?p as [])\<rparr>))"
    using init_from_ok [of l "[]" "fold ?p as []" "m\<lparr>mo_heap := h\<rparr>" fuel] h(2) assms(4) s by simp
  moreover have "gp_list_first h l = Inr (if fold ?p as [] = [] then 0 else hd (fold ?p as []))"
    using gp_list_first_ok [of h l "fold ?p as []"] h(2) by (simp add: modules_ok_def)
  ultimately show ?thesis using h(1) s [of "[]"] by (auto simp: gp_init_modules_def gp_init_module_def)
qed

definition sample_modules :: modules where
  "sample_modules = \<lparr>mo_heap = \<lparr>ln_next = (\<lambda>_. 0)(8 := 8), ln_prev = (\<lambda>_. 0)(8 := 8), ll_offset = (\<lambda>_. 0)\<rparr>,
     mo_desc = (\<lambda>a. \<lparr>md_type = MODULE_INIT_FIRST, md_priority = int a, md_init = Some a, md_stat_init = 0\<rparr>), mo_calls = []\<rparr>"

text \<open>The list is not in the order of the priorities: a module goes behind the one it should precede.\<close>

theorem modules_initialised_in_list_order_witness:
  "\<exists>m1 m2. register_all 3 8 [100, 300, 200] sample_modules = Some (Inr m1) \<and> gp_init_modules 3 8 m1 = Some (Inr (0, m2)) \<and>
    mo_calls m2 = [100, 300, 200]"
  using modules_initialised_in_list_order [of 8 sample_modules "[100, 300, 200]" 3]
  by (simp add: sample_modules_def modules_ok_def items_at_def dlist_def init_calls_def List.map_filter_simps)

end
