(* ===== verification/Gp_Atomic.thy ===== *)
theory Gp_Atomic
  imports Prelude
begin

text \<open>
  The atomic counter (the \<open>gp_atomic\<close> functions of \<open>include/gp.h\<close>). An instruction with the lock prefix is one step;
  the functions that also test the counter load it in a second step, and other threads may run in between.
\<close>

section \<open>Operations\<close>

type_synonym gp_atomic = u64

definition x86_64_atomic64_init :: "gp_atomic \<Rightarrow> gp_atomic" where
  "x86_64_atomic64_init c = 0"

definition x86_64_atomic64_get :: "gp_atomic \<Rightarrow> int" where
  "x86_64_atomic64_get c = sint c"

definition x86_64_atomic64_set :: "gp_atomic \<Rightarrow> int \<Rightarrow> gp_atomic" where
  "x86_64_atomic64_set c i = word_of_int i"

definition x86_64_atomic64_add :: "gp_atomic \<Rightarrow> int \<Rightarrow> gp_atomic" where
  "x86_64_atomic64_add c i = c + word_of_int i"

definition x86_64_atomic64_inc :: "gp_atomic \<Rightarrow> gp_atomic" where
  "x86_64_atomic64_inc c = c + 1"

definition x86_64_atomic64_dec :: "gp_atomic \<Rightarrow> gp_atomic" where
  "x86_64_atomic64_dec c = c - 1"

text \<open>Where a call of a testing function stands: before the locked instruction, before the load, returned.\<close>

datatype phase = A_Start | A_Load | A_Done int

fun x86_64_atomic64_inc_and_test :: "phase \<Rightarrow> gp_atomic \<Rightarrow> phase \<times> gp_atomic" where
  "x86_64_atomic64_inc_and_test A_Start c = (A_Load, x86_64_atomic64_inc c)"
| "x86_64_atomic64_inc_and_test A_Load c = (A_Done (if c = 0 then 1 else 0), c)"
| "x86_64_atomic64_inc_and_test (A_Done r) c = (A_Done r, c)"

fun x86_64_atomic64_dec_and_test :: "phase \<Rightarrow> gp_atomic \<Rightarrow> phase \<times> gp_atomic" where
  "x86_64_atomic64_dec_and_test A_Start c = (A_Load, x86_64_atomic64_dec c)"
| "x86_64_atomic64_dec_and_test A_Load c = (A_Done (if c = 0 then 1 else 0), c)"
| "x86_64_atomic64_dec_and_test (A_Done r) c = (A_Done r, c)"

fun x86_64_atomic64_add_and_test :: "int \<Rightarrow> phase \<Rightarrow> gp_atomic \<Rightarrow> phase \<times> gp_atomic" where
  "x86_64_atomic64_add_and_test i A_Start c = (A_Load, x86_64_atomic64_add c i)"
| "x86_64_atomic64_add_and_test i A_Load c = (A_Done (if c = 0 then 1 else 0), c)"
| "x86_64_atomic64_add_and_test i (A_Done r) c = (A_Done r, c)"

section \<open>Interleavings\<close>

datatype test_call = Inc_And_Test | Dec_And_Test | Add_And_Test int

fun call_step :: "test_call \<Rightarrow> phase \<Rightarrow> gp_atomic \<Rightarrow> phase \<times> gp_atomic" where
  "call_step Inc_And_Test = x86_64_atomic64_inc_and_test"
| "call_step Dec_And_Test = x86_64_atomic64_dec_and_test"
| "call_step (Add_And_Test i) = x86_64_atomic64_add_and_test i"

fun delta :: "test_call \<Rightarrow> gp_atomic" where
  "delta Inc_And_Test = 1" | "delta Dec_And_Test = - 1" | "delta (Add_And_Test i) = word_of_int i"

text \<open>Thread \<open>i\<close> below \<open>n\<close> makes the call \<open>f i\<close> on the shared counter.\<close>

record counter_state =
  at_counter :: gp_atomic
  at_phase :: "nat \<Rightarrow> phase"

inductive at_step :: "(nat \<Rightarrow> test_call) \<Rightarrow> nat \<Rightarrow> counter_state \<Rightarrow> counter_state \<Rightarrow> bool" for f n where
  "i < n \<Longrightarrow> call_step (f i) (at_phase s i) (at_counter s) = (p, c) \<Longrightarrow>
   at_step f n s \<lparr>at_counter = c, at_phase = (at_phase s)(i := p)\<rparr>"

inductive_cases at_stepE: "at_step f n s s'"

definition at_start :: "gp_atomic \<Rightarrow> counter_state" where
  "at_start c = \<lparr>at_counter = c, at_phase = (\<lambda>_. A_Start)\<rparr>"

text \<open>What the threads that have executed their instruction have added.\<close>

definition applied :: "(nat \<Rightarrow> test_call) \<Rightarrow> nat \<Rightarrow> counter_state \<Rightarrow> gp_atomic" where
  "applied f n s = (\<Sum>i | i < n \<and> at_phase s i \<noteq> A_Start. delta (f i))"

text \<open>Once no thread is left before its instruction, one has still to load the counter or one has seen its last value.\<close>

definition at_inv :: "(nat \<Rightarrow> test_call) \<Rightarrow> nat \<Rightarrow> gp_atomic \<Rightarrow> counter_state \<Rightarrow> bool" where
  "at_inv f n c s \<longleftrightarrow> at_counter s = c + applied f n s \<and>
     ((\<forall>i < n. at_phase s i \<noteq> A_Start) \<and> 0 < n \<longrightarrow>
      (\<exists>i < n. at_phase s i = A_Load \<or> at_phase s i = A_Done (if at_counter s = 0 then 1 else 0)))"

lemma call_step_cases:
  "call_step k A_Start c = (A_Load, c + delta k)" "call_step k A_Load c = (A_Done (if c = 0 then 1 else 0), c)" "call_step k (A_Done r) c = (A_Done r, c)"
  by (cases k; simp add: x86_64_atomic64_inc_def x86_64_atomic64_dec_def x86_64_atomic64_add_def)+

lemma at_inv_start: "at_inv f n c (at_start c)"
  by (auto simp: at_inv_def applied_def at_start_def)

lemma at_inv_step:
  assumes "at_step f n s s'" and "at_inv f n c s"
  shows "at_inv f n c s'"
  using assms(1)
proof (rule at_stepE)
  fix i p c'
  assume s': "s' = \<lparr>at_counter = c', at_phase = (at_phase s)(i := p)\<rparr>" and i: "i < n"
    and st: "call_step (f i) (at_phase s i) (at_counter s) = (p, c')"
  show ?thesis
  proof (cases "at_phase s i")
    case A_Start
    then have p: "p = A_Load" "c' = at_counter s + delta (f i)" using st by (simp_all add: call_step_cases)
    have "{j. j < n \<and> at_phase s' j \<noteq> A_Start} = insert i {j. j < n \<and> at_phase s j \<noteq> A_Start}" using i p s' by auto
    then have "applied f n s' = delta (f i) + applied f n s" using A_Start by (simp add: applied_def)
    then show ?thesis using assms(2) p s' i by (auto simp: at_inv_def)
  next
    case A_Load
    then have p: "p = A_Done (if at_counter s = 0 then 1 else 0)" "c' = at_counter s" using st by (auto simp: call_step_cases)
    have "{j. j < n \<and> at_phase s' j \<noteq> A_Start} = {j. j < n \<and> at_phase s j \<noteq> A_Start}" using p A_Load s' by auto
    then have "applied f n s' = applied f n s" by (simp add: applied_def)
    then show ?thesis using assms(2) p s' i by (auto simp: at_inv_def)
  next
    case (A_Done r)
    then have "s' = s" using st s' by (simp add: call_step_cases fun_upd_idem)
    then show ?thesis using assms(2) by simp
  qed
qed

lemma at_inv_steps: "(at_step f n)\<^sup>*\<^sup>* s s' \<Longrightarrow> at_inv f n c s \<Longrightarrow> at_inv f n c s'"
  by (induction rule: rtranclp_induct) (auto intro: at_inv_step)

text \<open>
  C37. Testing calls on a shared counter: in every interleaving, once all calls have returned, the counter has changed by the
  sum of what they add, and at least one of them has returned whether this final value is zero. In particular a
  reference count that is dropped to zero is noticed by one of the threads.
\<close>

theorem some_test_sees_final_value:
  assumes "(at_step f n)\<^sup>*\<^sup>* (at_start c) s" and "0 < n" and "\<forall>i < n. \<exists>r. at_phase s i = A_Done r"
  shows "at_counter s = c + (\<Sum>i < n. delta (f i)) \<and> (\<exists>i < n. at_phase s i = A_Done (if at_counter s = 0 then 1 else 0))"
proof -
  have inv: "at_inv f n c s" by (rule at_inv_steps [OF assms(1) at_inv_start])
  have d: "at_phase s i \<noteq> A_Start" "at_phase s i \<noteq> A_Load" if "i < n" for i using assms(3) that by force+
  have "{i. i < n \<and> at_phase s i \<noteq> A_Start} = {..<n}" using d by auto
  then show ?thesis using inv d assms(2) by (auto simp: at_inv_def applied_def)
qed

text \<open>The interleaving of two calls of \<open>dec_and_test\<close> in which both decrements come before both loads.\<close>

definition race_end :: counter_state where
  "race_end = \<lparr>at_counter = 0, at_phase = (\<lambda>_. A_Start)(0 := A_Load, 1 := A_Load, 0 := A_Done 1, 1 := A_Done 1)\<rparr>"

lemma race_run: "(at_step (\<lambda>_. Dec_And_Test) 2)\<^sup>*\<^sup>* (at_start 2) race_end"
proof -
  let ?P = "\<lambda>_ :: nat. A_Start"
  have 1: "at_step (\<lambda>_. Dec_And_Test) 2 (at_start 2) \<lparr>at_counter = 1, at_phase = ?P(0 := A_Load)\<rparr>"
    using at_step.intros [of 0 2 "\<lambda>_. Dec_And_Test" "at_start 2"] by (simp add: at_start_def x86_64_atomic64_dec_def)
  have 2: "at_step (\<lambda>_. Dec_And_Test) 2 \<lparr>at_counter = 1, at_phase = ?P(0 := A_Load)\<rparr> \<lparr>at_counter = 0, at_phase = ?P(0 := A_Load, 1 := A_Load)\<rparr>"
    using at_step.intros [of 1 2 "\<lambda>_. Dec_And_Test" "\<lparr>at_counter = 1, at_phase = ?P(0 := A_Load)\<rparr>"] by (simp add: x86_64_atomic64_dec_def)
  have 3: "at_step (\<lambda>_. Dec_And_Test) 2 \<lparr>at_counter = 0, at_phase = ?P(0 := A_Load, 1 := A_Load)\<rparr>
      \<lparr>at_counter = 0, at_phase = ?P(0 := A_Load, 1 := A_Load, 0 := A_Done 1)\<rparr>"
    using at_step.intros [of 0 2 "\<lambda>_. Dec_And_Test" "\<lparr>at_counter = 0, at_phase = ?P(0 := A_Load, 1 := A_Load)\<rparr>"] by simp
  have 4: "at_step (\<lambda>_. Dec_And_Test) 2 \<lparr>at_counter = 0, at_phase = ?P(0 := A_Load, 1 := A_Load, 0 := A_Done 1)\<rparr> race_end"
    using at_step.intros [of 1 2 "\<lambda>_. Dec_And_Test" "\<lparr>at_counter = 0, at_phase = ?P(0 := A_Load, 1 := A_Load, 0 := A_Done 1)\<rparr>"] by (simp add: race_end_def)
  show ?thesis using 1 2 3 4 by (meson converse_rtranclp_into_rtranclp rtranclp.rtrancl_refl)
qed

text \<open>A count of two, dropped by two threads: both calls may return 1, so that both threads release the object.\<close>

lemma dec_and_test_returns_one_twice: "at_phase race_end 0 = A_Done 1" "at_phase race_end 1 = A_Done 1"
  by (simp_all add: race_end_def)

theorem some_test_sees_final_value_witness:
  "at_counter race_end = 0 \<and> (at_phase race_end 0 = A_Done 1 \<or> at_phase race_end 1 = A_Done 1)"
proof -
  have "\<forall>i < 2. \<exists>r. at_phase race_end i = A_Done r" by (simp add: race_end_def less_2_cases_iff)
  from some_test_sees_final_value [OF race_run _ this] show ?thesis by (auto simp: race_end_def less_2_cases_iff)
qed

end
