(* ===== verification/Gp_Poll.thy ===== *)
theory Gp_Poll
  imports Prelude
begin

text \<open>
  Event handlers (\<open>base/gp_handler.c\<close>) and the poller (\<open>base/gp_epoller.c\<close>): which descriptors the kernel
  watches and for which events. The dictionary \<open>epoller->handlers\<close> with integer keys is represented by the
  finite map it implements; the kernel's interest list is part of the poller's state, with the
  documented behaviour of \<open>epoll_ctl\<close>. Handlers are identified by their addresses \<open>'p\<close>.
\<close>

section \<open>Events and handlers\<close>

definition POLLIN :: u32 where "POLLIN = 1"
definition POLLPRI :: u32 where "POLLPRI = 2"
definition POLLOUT :: u32 where "POLLOUT = 4"
definition POLLERR :: u32 where "POLLERR = 8"
definition POLLHUP :: u32 where "POLLHUP = 16"
definition POLLNVAL :: u32 where "POLLNVAL = 32"
definition POLLRDHUP :: u32 where "POLLRDHUP = 8192"

lemmas poll_flags = POLLIN_def POLLPRI_def POLLOUT_def POLLERR_def POLLHUP_def POLLNVAL_def POLLRDHUP_def

definition knone_event :: u32 where
  "knone_event = 0"

definition kread_event :: u32 where
  "kread_event = POLLIN OR POLLPRI"

definition kwrite_event :: u32 where
  "kwrite_event = POLLOUT"

definition k_new :: int where
  "k_new = - 1"

definition k_added :: int where
  "k_added = 1"

definition k_deleted :: int where
  "k_deleted = 2"

lemma k_index_distinct [simp]:
  "k_new \<noteq> k_added" "k_added \<noteq> k_new" "k_new \<noteq> k_deleted" "k_deleted \<noteq> k_new" "k_added \<noteq> k_deleted" "k_deleted \<noteq> k_added"
  by (simp_all add: k_new_def k_added_def k_deleted_def)

record 'cb gp_handler =
  add_to_loop :: bool
  event_handling :: bool
  h_index :: int
  h_fd :: u32
  h_events :: u32
  h_revents :: u32
  read_callback :: "'cb option"
  write_callback :: "'cb option"
  close_callback :: "'cb option"
  error_callback :: "'cb option"

definition init_gp_handler :: "u32 \<Rightarrow> 'cb gp_handler" where
  "init_gp_handler fd =
     \<lparr>add_to_loop = False, event_handling = False, h_index = - 1, h_fd = fd, h_events = 0, h_revents = 0,
      read_callback = None, write_callback = None, close_callback = None, error_callback = None\<rparr>"

definition set_read_callback :: "'cb \<Rightarrow> 'cb gp_handler \<Rightarrow> 'cb gp_handler" where
  "set_read_callback cb h = h\<lparr>read_callback := Some cb\<rparr>"

definition set_write_callback :: "'cb \<Rightarrow> 'cb gp_handler \<Rightarrow> 'cb gp_handler" where
  "set_write_callback cb h = h\<lparr>write_callback := Some cb\<rparr>"

definition set_close_callback :: "'cb \<Rightarrow> 'cb gp_handler \<Rightarrow> 'cb gp_handler" where
  "set_close_callback cb h = h\<lparr>close_callback := Some cb\<rparr>"

definition set_error_callback :: "'cb \<Rightarrow> 'cb gp_handler \<Rightarrow> 'cb gp_handler" where
  "set_error_callback cb h = h\<lparr>error_callback := Some cb\<rparr>"

definition is_writing :: "'cb gp_handler \<Rightarrow> bool" where
  "is_writing h \<longleftrightarrow> h_events h AND kwrite_event \<noteq> 0"

definition is_reading :: "'cb gp_handler \<Rightarrow> bool" where
  "is_reading h \<longleftrightarrow> h_events h AND kread_event \<noteq> 0"

definition is_none_event :: "'cb gp_handler \<Rightarrow> bool" where
  "is_none_event h \<longleftrightarrow> h_events h = knone_event"

section \<open>The poller\<close>

text \<open>
  \<open>epoll_ctl\<close>: adding a descriptor that is already watched, and changing or removing one that is not, fails
  and leaves the interest list as it is. An entry holds the events and the pointer \<open>data.ptr\<close>.
\<close>

datatype epoll_op = EPOLL_CTL_ADD | EPOLL_CTL_MOD | EPOLL_CTL_DEL

type_synonym 'p interest = "u32 \<rightharpoonup> u32 \<times> 'p"

fun epoll_ctl :: "epoll_op \<Rightarrow> u32 \<Rightarrow> u32 \<times> 'p \<Rightarrow> 'p interest \<Rightarrow> int \<times> 'p interest" where
  "epoll_ctl EPOLL_CTL_ADD fd ev k = (if k fd = None then (0, k(fd \<mapsto> ev)) else (- 1, k))"
| "epoll_ctl EPOLL_CTL_MOD fd ev k = (if k fd = None then (- 1, k) else (0, k(fd \<mapsto> ev)))"
| "epoll_ctl EPOLL_CTL_DEL fd ev k = (if k fd = None then (- 1, k) else (0, k(fd := None)))"

record 'p gp_epoller =
  ep_handlers :: "u32 \<rightharpoonup> 'p"
  ep_interest :: "'p interest"

definition init_gp_epoller :: "'p gp_epoller" where
  "init_gp_epoller = \<lparr>ep_handlers = (\<lambda>_. None), ep_interest = (\<lambda>_. None)\<rparr>"

text \<open>The result of \<open>epoll_ctl\<close> is looked at and ignored.\<close>

definition poller_update :: "'p gp_epoller \<Rightarrow> epoll_op \<Rightarrow> 'p \<Rightarrow> 'cb gp_handler \<Rightarrow> 'p gp_epoller" where
  "poller_update e operation p h =
     e\<lparr>ep_interest := snd (epoll_ctl operation (h_fd h) (h_events h, p) (ep_interest e))\<rparr>"

text \<open>\<open>dictAdd\<close> on the table of handlers: an existing entry stays.\<close>

definition update_handler :: "'p \<Rightarrow> 'p gp_epoller \<Rightarrow> 'cb gp_handler \<Rightarrow> 'p gp_epoller \<times> 'cb gp_handler" where
  "update_handler p e h =
     (let index = h_index h in
      if index = k_new \<or> index = k_deleted then
        (let e1 = (if index = k_new \<and> ep_handlers e (h_fd h) = None
                   then e\<lparr>ep_handlers := (ep_handlers e)(h_fd h \<mapsto> p)\<rparr> else e)
         in (poller_update e1 EPOLL_CTL_ADD p h, h\<lparr>h_index := k_added\<rparr>))
      else if is_none_event h then (poller_update e EPOLL_CTL_DEL p h, h\<lparr>h_index := k_deleted\<rparr>)
      else (poller_update e EPOLL_CTL_MOD p h, h))"

definition remove_handler :: "'p \<Rightarrow> 'p gp_epoller \<Rightarrow> 'cb gp_handler \<Rightarrow> 'p gp_epoller \<times> 'cb gp_handler" where
  "remove_handler p e h =
     (let index = h_index h;
          e1 = e\<lparr>ep_handlers := (ep_handlers e)(h_fd h := None)\<rparr>;
          e2 = (if index = k_added then poller_update e1 EPOLL_CTL_DEL p h else e1)
      in (e2, h\<lparr>h_index := k_new\<rparr>))"

definition gp_loop_update_handler :: "'p \<Rightarrow> 'p gp_epoller \<Rightarrow> 'cb gp_handler \<Rightarrow> 'p gp_epoller \<times> 'cb gp_handler" where
  "gp_loop_update_handler p e h = update_handler p e h"

definition gp_loop_remove_handler :: "'p \<Rightarrow> 'p gp_epoller \<Rightarrow> 'cb gp_handler \<Rightarrow> 'p gp_epoller \<times> 'cb gp_handler" where
  "gp_loop_remove_handler p e h = remove_handler p e h"

section \<open>Operations of a handler\<close>

definition update :: "'p \<Rightarrow> 'p gp_epoller \<Rightarrow> 'cb gp_handler \<Rightarrow> 'p gp_epoller \<times> 'cb gp_handler" where
  "update p e h = gp_loop_update_handler p e (h\<lparr>add_to_loop := True\<rparr>)"

definition set_revents :: "u32 \<Rightarrow> 'p \<Rightarrow> 'p gp_epoller \<Rightarrow> 'cb gp_handler \<Rightarrow> 'p gp_epoller \<times> 'cb gp_handler" where
  "set_revents revt p e h = update p e (h\<lparr>h_revents := revt\<rparr>)"

definition enable_reading :: "'p \<Rightarrow> 'p gp_epoller \<Rightarrow> 'cb gp_handler \<Rightarrow> 'p gp_epoller \<times> 'cb gp_handler" where
  "enable_reading p e h = update p e (h\<lparr>h_events := h_events h OR kread_event\<rparr>)"

definition enable_writing :: "'p \<Rightarrow> 'p gp_epoller \<Rightarrow> 'cb gp_handler \<Rightarrow> 'p gp_epoller \<times> 'cb gp_handler" where
  "enable_writing p e h = update p e (h\<lparr>h_events := h_events h OR kwrite_event\<rparr>)"

definition disable_reading :: "'p \<Rightarrow> 'p gp_epoller \<Rightarrow> 'cb gp_handler \<Rightarrow> 'p gp_epoller \<times> 'cb gp_handler" where
  "disable_reading p e h = update p e (h\<lparr>h_events := h_events h AND NOT kread_event\<rparr>)"

definition disable_writing :: "'p \<Rightarrow> 'p gp_epoller \<Rightarrow> 'cb gp_handler \<Rightarrow> 'p gp_epoller \<times> 'cb gp_handler" where
  "disable_writing p e h = update p e (h\<lparr>h_events := h_events h AND NOT kwrite_event\<rparr>)"

definition disable_all :: "'p \<Rightarrow> 'p gp_epoller \<Rightarrow> 'cb gp_handler \<Rightarrow> 'p gp_epoller \<times> 'cb gp_handler" where
  "disable_all p e h = update p e (h\<lparr>h_events := knone_event\<rparr>)"

definition handler_remove :: "'p \<Rightarrow> 'p gp_epoller \<Rightarrow> 'cb gp_handler \<Rightarrow> 'p gp_epoller \<times> 'cb gp_handler" where
  "handler_remove p e h = gp_loop_remove_handler p e (h\<lparr>add_to_loop := False\<rparr>)"

section \<open>The interest list follows the handlers\<close>

text \<open>
  The kernel watches exactly the handlers whose index says so, for the events they ask for. No two
  handlers share a descriptor.
\<close>

definition poll_inv :: "('p \<rightharpoonup> 'cb gp_handler) \<Rightarrow> 'p gp_epoller \<Rightarrow> bool" where
  "poll_inv hs e \<longleftrightarrow>
     (\<forall>p h. hs p = Some h \<longrightarrow> h_index h \<in> {k_new, k_added, k_deleted} \<and>
        (h_index h = k_added \<longrightarrow> ep_interest e (h_fd h) = Some (h_events h, p))) \<and>
     (\<forall>fd ev p. ep_interest e fd = Some (ev, p) \<longrightarrow> (\<exists>h. hs p = Some h \<and> h_fd h = fd \<and> h_index h = k_added)) \<and>
     (\<forall>p q h g. hs p = Some h \<longrightarrow> hs q = Some g \<longrightarrow> h_fd h = h_fd g \<longrightarrow> p = q)"

lemma poll_invI:
  assumes "\<And>p h. hs p = Some h \<Longrightarrow> h_index h \<in> {k_new, k_added, k_deleted}"
    and "\<And>p h. hs p = Some h \<Longrightarrow> h_index h = k_added \<Longrightarrow> ep_interest e (h_fd h) = Some (h_events h, p)"
    and "\<And>fd ev p. ep_interest e fd = Some (ev, p) \<Longrightarrow> \<exists>h. hs p = Some h \<and> h_fd h = fd \<and> h_index h = k_added"
    and "\<And>p q h g. hs p = Some h \<Longrightarrow> hs q = Some g \<Longrightarrow> h_fd h = h_fd g \<Longrightarrow> p = q"
  shows "poll_inv hs e"
  using assms unfolding poll_inv_def by blast

lemma poll_invD:
  assumes "poll_inv hs e"
  shows "hs p = Some h \<Longrightarrow> h_index h \<in> {k_new, k_added, k_deleted}"
    and "hs p = Some h \<Longrightarrow> h_index h = k_added \<Longrightarrow> ep_interest e (h_fd h) = Some (h_events h, p)"
    and "ep_interest e fd = Some (ev, p) \<Longrightarrow> \<exists>h. hs p = Some h \<and> h_fd h = fd \<and> h_index h = k_added"
    and "hs p = Some h \<Longrightarrow> hs q = Some g \<Longrightarrow> h_fd h = h_fd g \<Longrightarrow> p = q"
  using assms unfolding poll_inv_def by blast+

text \<open>A handler that is not watched has no entry under its descriptor.\<close>

lemma poll_inv_unwatched:
  assumes "poll_inv hs e" and "hs p = Some h" and "h_index h \<noteq> k_added"
  shows "ep_interest e (h_fd h) = None"
proof (rule ccontr)
  assume "\<not> ?thesis"
  then obtain ev q where "ep_interest e (h_fd h) = Some (ev, q)" by auto
  with poll_invD(3) [OF assms(1)] obtain g where g: "hs q = Some g" "h_fd g = h_fd h" "h_index g = k_added" by blast
  then have "q = p" using poll_invD(4) [OF assms(1) g(1) assms(2)] by blast
  with g assms(2,3) show False by simp
qed

text \<open>The state of a handler after an update: watched unless it was watched and asks for nothing.\<close>

definition next_index :: "int \<Rightarrow> u32 \<Rightarrow> int" where
  "next_index index ev = (if index = k_added \<and> ev = knone_event then k_deleted else k_added)"

text \<open>The invariant depends on the descriptor, the index and the interest list only.\<close>

lemma poll_inv_upd:
  assumes inv: "poll_inv hs e" and h: "hs p = Some h" and f: "h_fd h2 = h_fd h"
    and ix: "h_index h2 \<in> {k_new, k_added, k_deleted}"
    and i2: "ep_interest e2 = (ep_interest e)(h_fd h := (if h_index h2 = k_added then Some (h_events h2, p) else None))"
  shows "poll_inv (hs(p \<mapsto> h2)) e2"
proof (rule poll_invI)
  note D = poll_invD [OF inv]
  fix q g assume q: "(hs(p \<mapsto> h2)) q = Some g"
  show "h_index g \<in> {k_new, k_added, k_deleted}"
  proof (cases "q = p")
    case False
    then show ?thesis using D(1) [of q g] q by simp
  qed (use q ix in auto)
  show "ep_interest e2 (h_fd g) = Some (h_events g, q)" if added: "h_index g = k_added"
  proof (cases "q = p")
    case True
    then show ?thesis using q added f i2 by simp
  next
    case False
    then have g: "hs q = Some g" using q by simp
    then have "h_fd g \<noteq> h_fd h" using D(4) [OF g h] False by blast
    then show ?thesis using D(2) [OF g added] i2 by simp
  qed
next
  note D = poll_invD [OF inv]
  fix fd ev q assume e: "ep_interest e2 fd = Some (ev, q)"
  show "\<exists>g. (hs(p \<mapsto> h2)) q = Some g \<and> h_fd g = fd \<and> h_index g = k_added"
  proof (cases "fd = h_fd h")
    case True
    then show ?thesis using e f i2 by (auto split: if_splits)
  next
    case False
    then have "ep_interest e fd = Some (ev, q)" using e i2 by simp
    then obtain g where g: "hs q = Some g" "h_fd g = fd" "h_index g = k_added" using D(3) by blast
    then have "q \<noteq> p" using h False by auto
    then show ?thesis using g by simp
  qed
next
  fix q r g g' assume a: "(hs(p \<mapsto> h2)) q = Some g" "(hs(p \<mapsto> h2)) r = Some g'" "h_fd g = h_fd g'"
  have "\<exists>k. hs x = Some k \<and> h_fd k = h_fd y" if "(hs(p \<mapsto> h2)) x = Some y" for x y
    using that h f by (cases "x = p") auto
  from this [OF a(1)] this [OF a(2)] a(3) show "q = r" using poll_invD(4) [OF inv] by metis
qed

lemma update_effect:
  assumes inv: "poll_inv hs e" and h: "hs p = Some h"
    and h1: "h_fd h1 = h_fd h" "h_index h1 = h_index h"
    and u: "update p e h1 = (e2, h2)"
  shows "poll_inv (hs(p \<mapsto> h2)) e2" and "h2 = h1\<lparr>add_to_loop := True, h_index := next_index (h_index h) (h_events h1)\<rparr>"
    and "ep_interest e2 = (ep_interest e)(h_fd h :=
      (if next_index (h_index h) (h_events h1) = k_added then Some (h_events h1, p) else None))"
proof -
  have two: "h2 = h1\<lparr>add_to_loop := True, h_index := next_index (h_index h) (h_events h1)\<rparr> \<and>
    ep_interest e2 = (ep_interest e)(h_fd h :=
      (if next_index (h_index h) (h_events h1) = k_added then Some (h_events h1, p) else None))"
  proof (cases "h_index h = k_added")
    case True
    have i: "ep_interest e (h_fd h) = Some (h_events h, p)" by (rule poll_invD(2) [OF inv h True])
    show ?thesis
    proof (cases "h_events h1 = knone_event")
      case none: True
      have "update p e h1 = (poller_update e EPOLL_CTL_DEL p (h1\<lparr>add_to_loop := True\<rparr>),
          h1\<lparr>add_to_loop := True, h_index := k_deleted\<rparr>)"
        using True none h1 by (simp add: update_def gp_loop_update_handler_def update_handler_def is_none_event_def Let_def)
      then show ?thesis using u True none i h1(1) by (auto simp: next_index_def poller_update_def)
    next
      case False
      have "update p e h1 = (poller_update e EPOLL_CTL_MOD p (h1\<lparr>add_to_loop := True\<rparr>), h1\<lparr>add_to_loop := True\<rparr>)"
        using True False h1 by (simp add: update_def gp_loop_update_handler_def update_handler_def is_none_event_def Let_def)
      then show ?thesis using u True False i h1 by (auto simp: next_index_def poller_update_def)
    qed
  next
    case False
    have i: "ep_interest e (h_fd h) = None" by (rule poll_inv_unwatched [OF inv h False])
    have "h_index h1 = k_new \<or> h_index h1 = k_deleted" using poll_invD(1) [OF inv h] False h1(2) by auto
    then have "\<exists>e1. ep_interest e1 = ep_interest e \<and>
        update p e h1 = (poller_update e1 EPOLL_CTL_ADD p (h1\<lparr>add_to_loop := True\<rparr>), h1\<lparr>add_to_loop := True, h_index := k_added\<rparr>)"
      by (intro exI [of _ "if h_index h1 = k_new \<and> ep_handlers e (h_fd h1) = None
            then e\<lparr>ep_handlers := (ep_handlers e)(h_fd h1 \<mapsto> p)\<rparr> else e"])
        (auto simp: update_def gp_loop_update_handler_def update_handler_def Let_def)
    then show ?thesis using u False i h1(1) by (auto simp: next_index_def poller_update_def)
  qed
  then show "h2 = h1\<lparr>add_to_loop := True, h_index := next_index (h_index h) (h_events h1)\<rparr>"
    and "ep_interest e2 = (ep_interest e)(h_fd h :=
      (if next_index (h_index h) (h_events h1) = k_added then Some (h_events h1, p) else None))" by simp_all
  with two show "poll_inv (hs(p \<mapsto> h2)) e2"
    using h1(1) by (intro poll_inv_upd [OF inv h]) (auto simp: next_index_def)
qed

lemma handler_remove_effect:
  assumes inv: "poll_inv hs e" and h: "hs p = Some h" and u: "handler_remove p e h = (e2, h2)"
  shows "poll_inv (hs(p \<mapsto> h2)) e2" and "h2 = h\<lparr>add_to_loop := False, h_index := k_new\<rparr>"
    and "ep_interest e2 = (ep_interest e)(h_fd h := None)"
proof -
  show h2: "h2 = h\<lparr>add_to_loop := False, h_index := k_new\<rparr>"
    using u by (auto simp: handler_remove_def gp_loop_remove_handler_def remove_handler_def Let_def)
  show i2: "ep_interest e2 = (ep_interest e)(h_fd h := None)"
  proof (cases "h_index h = k_added")
    case True
    then show ?thesis using u poll_invD(2) [OF inv h True]
      by (auto simp: handler_remove_def gp_loop_remove_handler_def remove_handler_def Let_def poller_update_def)
  next
    case False
    then show ?thesis using u poll_inv_unwatched [OF inv h False]
      by (auto simp: handler_remove_def gp_loop_remove_handler_def remove_handler_def Let_def)
  qed
  show "poll_inv (hs(p \<mapsto> h2)) e2" using h2 i2 by (intro poll_inv_upd [OF inv h]) simp_all
qed

section \<open>Any sequence of operations\<close>

text \<open>What the operations that end in \<open>update\<close> have in common: they change the events asked for.\<close>

locale handler_update =
  fixes op :: "'p \<Rightarrow> 'p gp_epoller \<Rightarrow> 'cb gp_handler \<Rightarrow> 'p gp_epoller \<times> 'cb gp_handler"
    and change :: "u32 \<Rightarrow> u32"
  assumes updates: "\<exists>h1. op p e h = update p e h1 \<and> h_fd h1 = h_fd h \<and> h_index h1 = h_index h \<and> h_events h1 = change (h_events h)"
begin

lemma keeps_inv:
  assumes "poll_inv hs e" and "hs p = Some h" and "op p e h = (e2, h2)"
  shows "poll_inv (hs(p \<mapsto> h2)) e2" and "h_fd h2 = h_fd h" and "h_events h2 = change (h_events h)"
    and "h_index h2 = next_index (h_index h) (change (h_events h))"
proof -
  obtain h1 where h1: "update p e h1 = (e2, h2)" "h_fd h1 = h_fd h" "h_index h1 = h_index h" "h_events h1 = change (h_events h)"
    using updates [of p e h] assms(3) by metis
  show "poll_inv (hs(p \<mapsto> h2)) e2" by (rule update_effect(1) [OF assms(1,2) h1(2,3,1)])
  have "h2 = h1\<lparr>add_to_loop := True, h_index := next_index (h_index h) (h_events h1)\<rparr>"
    by (rule update_effect(2) [OF assms(1,2) h1(2,3,1)])
  then show "h_fd h2 = h_fd h" "h_events h2 = change (h_events h)" "h_index h2 = next_index (h_index h) (change (h_events h))"
    using h1 by simp_all
qed

lemma keeps:
  assumes "poll_inv hs e" and "hs p = Some h" and "op p e h = (e2, h2)"
  shows "poll_inv (hs(p \<mapsto> h2)) e2 \<and> h_fd h2 = h_fd h \<and> h_events h2 = change (h_events h) \<and>
    (h_index h2 = k_added \<longleftrightarrow> \<not> (h_index h = k_added \<and> change (h_events h) = knone_event))"
  using keeps_inv [OF assms] by (simp add: next_index_def)

end

interpretation reading_on: handler_update enable_reading "\<lambda>ev. ev OR kread_event"
  by unfold_locales (rule exI, unfold enable_reading_def, intro conjI, rule refl, simp_all)

interpretation writing_on: handler_update enable_writing "\<lambda>ev. ev OR kwrite_event"
  by unfold_locales (rule exI, unfold enable_writing_def, intro conjI, rule refl, simp_all)

interpretation reading_off: handler_update disable_reading "\<lambda>ev. ev AND NOT kread_event"
  by unfold_locales (rule exI, unfold disable_reading_def, intro conjI, rule refl, simp_all)

interpretation writing_off: handler_update disable_writing "\<lambda>ev. ev AND NOT kwrite_event"
  by unfold_locales (rule exI, unfold disable_writing_def, intro conjI, rule refl, simp_all)

interpretation all_off: handler_update disable_all "\<lambda>ev. knone_event"
  by unfold_locales (rule exI, unfold disable_all_def, intro conjI, rule refl, simp_all)

interpretation revents_set: handler_update "set_revents revt" "\<lambda>ev. ev" for revt
  by unfold_locales (rule exI, unfold set_revents_def, intro conjI, rule refl, simp_all)

datatype handler_op = Enable_Reading | Enable_Writing | Disable_Reading | Disable_Writing | Disable_All | Set_Revents u32 | Remove

fun run_handler_op :: "handler_op \<Rightarrow> 'p \<Rightarrow> 'p gp_epoller \<Rightarrow> 'cb gp_handler \<Rightarrow> 'p gp_epoller \<times> 'cb gp_handler" where
  "run_handler_op Enable_Reading = enable_reading"
| "run_handler_op Enable_Writing = enable_writing"
| "run_handler_op Disable_Reading = disable_reading"
| "run_handler_op Disable_Writing = disable_writing"
| "run_handler_op Disable_All = disable_all"
| "run_handler_op (Set_Revents revt) = set_revents revt"
| "run_handler_op Remove = handler_remove"

fun wanted :: "handler_op \<Rightarrow> u32 \<Rightarrow> u32" where
  "wanted Enable_Reading ev = ev OR kread_event"
| "wanted Enable_Writing ev = ev OR kwrite_event"
| "wanted Disable_Reading ev = ev AND NOT kread_event"
| "wanted Disable_Writing ev = ev AND NOT kwrite_event"
| "wanted Disable_All ev = knone_event"
| "wanted (Set_Revents revt) ev = ev"
| "wanted Remove ev = ev"

text \<open>Operations on a family of handlers; one that names no handler does nothing.\<close>

fun run_handler_ops :: "('p \<times> handler_op) list \<Rightarrow> ('p \<rightharpoonup> 'cb gp_handler) \<times> 'p gp_epoller \<Rightarrow> ('p \<rightharpoonup> 'cb gp_handler) \<times> 'p gp_epoller" where
  "run_handler_ops [] (hs, e) = (hs, e)"
| "run_handler_ops ((p, op) # ops) (hs, e) =
     (case hs p of
        None \<Rightarrow> run_handler_ops ops (hs, e)
      | Some h \<Rightarrow> (let (e1, h1) = run_handler_op op p e h in run_handler_ops ops (hs(p \<mapsto> h1), e1)))"

text \<open>
  The specification, for one handler at a time: the events it asks for and whether it is watched. Removing ends
  the watch; every other operation starts it, or, when the handler is watched and asks for nothing any more, ends it.
\<close>

definition spec_handler_op :: "handler_op \<Rightarrow> u32 \<times> bool \<Rightarrow> u32 \<times> bool" where
  "spec_handler_op op = (\<lambda>(ev, watched). (wanted op ev, op \<noteq> Remove \<and> \<not> (watched \<and> wanted op ev = knone_event)))"

fun spec_handler :: "'p \<Rightarrow> ('p \<times> handler_op) list \<Rightarrow> u32 \<times> bool \<Rightarrow> u32 \<times> bool" where
  "spec_handler p [] s = s"
| "spec_handler p ((q, op) # ops) s = spec_handler p ops (if q = p then spec_handler_op op s else s)"

definition handler_view :: "'cb gp_handler \<Rightarrow> u32 \<times> bool" where
  "handler_view h = (h_events h, h_index h = k_added)"

lemmas handler_view_spec = handler_view_def spec_handler_op_def

lemma run_handler_op_effect:
  assumes "poll_inv hs e" and "hs p = Some h" and "run_handler_op op p e h = (e2, h2)"
  shows "poll_inv (hs(p \<mapsto> h2)) e2 \<and> h_fd h2 = h_fd h \<and> handler_view h2 = spec_handler_op op (handler_view h)"
proof (cases op)
  case Remove
  then show ?thesis using handler_remove_effect [OF assms(1,2)] assms(3) by (simp add: handler_view_spec)
next
  case (Set_Revents revt)
  then show ?thesis using revents_set.keeps [OF assms(1,2), of revt e2 h2] assms(3) by (auto simp: handler_view_spec)
next
  case Enable_Reading
  then show ?thesis using reading_on.keeps [OF assms(1,2), of e2 h2] assms(3) by (auto simp: handler_view_spec)
next
  case Enable_Writing
  then show ?thesis using writing_on.keeps [OF assms(1,2), of e2 h2] assms(3) by (auto simp: handler_view_spec)
next
  case Disable_Reading
  then show ?thesis using reading_off.keeps [OF assms(1,2), of e2 h2] assms(3) by (auto simp: handler_view_spec)
next
  case Disable_Writing
  then show ?thesis using writing_off.keeps [OF assms(1,2), of e2 h2] assms(3) by (auto simp: handler_view_spec)
next
  case Disable_All
  then show ?thesis using all_off.keeps [OF assms(1,2), of e2 h2] assms(3) by (auto simp: handler_view_spec)
qed

lemma run_handler_ops_effect:
  assumes "poll_inv hs e" and "run_handler_ops ops (hs, e) = (hs2, e2)"
  shows "poll_inv hs2 e2 \<and>
    (\<forall>p. map_option (\<lambda>h. (h_fd h, handler_view h)) (hs2 p) = map_option (\<lambda>h. (h_fd h, spec_handler p ops (handler_view h))) (hs p))"
  using assms
proof (induction ops arbitrary: hs e)
  case (Cons x ops)
  obtain p op where x: "x = (p, op)" by (cases x)
  show ?case
  proof (cases "hs p")
    case None
    have "run_handler_ops ops (hs, e) = (hs2, e2)" using Cons.prems(2) x None by simp
    note IH = Cons.IH [OF Cons.prems(1) this]
    have "map_option (\<lambda>h. (h_fd h, handler_view h)) (hs2 q) = map_option (\<lambda>h. (h_fd h, spec_handler q (x # ops) (handler_view h))) (hs q)" for q
      using IH None x by (cases "q = p") auto
    then show ?thesis using IH by blast
  next
    case (Some h)
    obtain e1 h1 where r: "run_handler_op op p e h = (e1, h1)" by (cases "run_handler_op op p e h")
    note E = run_handler_op_effect [OF Cons.prems(1) Some r]
    have "run_handler_ops ops (hs(p \<mapsto> h1), e1) = (hs2, e2)" using Cons.prems(2) x Some r by simp
    then have IH: "poll_inv hs2 e2"
      "\<forall>q. map_option (\<lambda>h. (h_fd h, handler_view h)) (hs2 q) = map_option (\<lambda>h. (h_fd h, spec_handler q ops (handler_view h))) ((hs(p \<mapsto> h1)) q)"
      using Cons.IH [of "hs(p \<mapsto> h1)" e1] E by blast+
    have "map_option (\<lambda>h. (h_fd h, handler_view h)) (hs2 q) = map_option (\<lambda>h. (h_fd h, spec_handler q (x # ops) (handler_view h))) (hs q)" for q
    proof (cases "q = p")
      case True
      then show ?thesis using spec [OF IH(2), of q] x Some E by simp
    next
      case False
      then show ?thesis using spec [OF IH(2), of q] x by (cases "hs q") auto
    qed
    then show ?thesis using IH(1) by blast
  qed
qed simp

text \<open>Under the invariant the interest list is a function of the handlers' events and indices.\<close>

lemma poll_inv_interest:
  assumes "poll_inv hs e" and "hs p = Some h"
  shows "ep_interest e (h_fd h) = (if snd (handler_view h) then Some (fst (handler_view h), p) else None)"
  using poll_invD(2) [OF assms] poll_inv_unwatched [OF assms] by (simp add: handler_view_def)

text \<open>
  C13. The kernel's interest list follows the handlers. Start with an empty poller and any family of new handlers
  on different descriptors, and let any sequence of enabling, disabling, \<open>set_revents\<close> and removing act on them.
  Then the interest list is the one the sequence amounts to: a descriptor that no handler has is not watched, and
  the descriptor of a handler is watched for exactly the events its operations add up to, if they leave it
  watched, and has no entry otherwise. A removed handler is not watched, an update starts the watch,
  and an update that leaves a watched handler without events ends it. An update of a handler that is not
  watched starts the watch even when it asks for nothing: disabling a new handler registers it with no events.
\<close>

theorem interest_follows_handlers:
  assumes "\<forall>p h. hs p = Some h \<longrightarrow> h_index h = k_new"
    and "\<forall>p q h g. hs p = Some h \<longrightarrow> hs q = Some g \<longrightarrow> h_fd h = h_fd g \<longrightarrow> p = q"
    and "run_handler_ops ops (hs, init_gp_epoller) = (hs', e')"
  shows "(\<forall>p h. hs p = Some h \<longrightarrow>
      ep_interest e' (h_fd h) = (case spec_handler p ops (h_events h, False) of (ev, watched) \<Rightarrow> if watched then Some (ev, p) else None) \<and>
      (\<exists>h'. hs' p = Some h' \<and> h_fd h' = h_fd h \<and> h_events h' = fst (spec_handler p ops (h_events h, False)))) \<and>
    (\<forall>fd. (\<nexists>p h. hs p = Some h \<and> h_fd h = fd) \<longrightarrow> ep_interest e' fd = None)"
proof (intro conjI allI impI)
  have "poll_inv hs init_gp_epoller" using assms(1,2) by (auto simp: poll_inv_def init_gp_epoller_def)
  then have inv: "poll_inv hs' e'"
    and view: "map_option (\<lambda>h. (h_fd h, handler_view h)) (hs' p) = map_option (\<lambda>h. (h_fd h, spec_handler p ops (handler_view h))) (hs p)" for p
    using run_handler_ops_effect [OF _ assms(3)] by blast+
  {
    fix p h assume h: "hs p = Some h"
    have "handler_view h = (h_events h, False)" using assms(1) h by (auto simp: handler_view_def)
    then obtain h' where h': "hs' p = Some h'" "h_fd h' = h_fd h" "handler_view h' = spec_handler p ops (h_events h, False)"
      using view [of p] h by (cases "hs' p") auto
    then show "ep_interest e' (h_fd h) = (case spec_handler p ops (h_events h, False) of (ev, watched) \<Rightarrow> if watched then Some (ev, p) else None)"
      using poll_inv_interest [OF inv h'(1)] by (simp split: prod.splits)
    show "\<exists>h'. hs' p = Some h' \<and> h_fd h' = h_fd h \<and> h_events h' = fst (spec_handler p ops (h_events h, False))"
      using h' by (metis fst_conv handler_view_def)
  next
    fix fd assume none: "\<nexists>p h. hs p = Some h \<and> h_fd h = fd"
    show "ep_interest e' fd = None"
    proof (rule ccontr)
      assume "ep_interest e' fd \<noteq> None"
      then obtain q g where "hs' q = Some g" "h_fd g = fd" using poll_invD(3) [OF inv] by fastforce
      with view [of q] none show False by (cases "hs q") auto
    qed
  }
qed

theorem interest_follows_handlers_witness:
  "\<exists>hs' e'. run_handler_ops [(1, Enable_Reading), (2, Enable_Reading), (1, Enable_Writing), (2, Disable_All), (3, Enable_Writing), (3, Remove)]
      ([1 \<mapsto> init_gp_handler 5, 2 \<mapsto> init_gp_handler 6, 3 \<mapsto> init_gp_handler 7] :: nat \<rightharpoonup> nat gp_handler, init_gp_epoller) = (hs', e') \<and>
    ep_interest e' 5 = Some (7, 1) \<and> ep_interest e' 6 = None \<and> ep_interest e' 7 = None"
proof -
  let ?hs = "[1 \<mapsto> init_gp_handler 5, 2 \<mapsto> init_gp_handler 6, 3 \<mapsto> init_gp_handler 7] :: nat \<rightharpoonup> nat gp_handler"
  let ?ops = "[(1, Enable_Reading), (2, Enable_Reading), (1, Enable_Writing), (2, Disable_All), (3, Enable_Writing), (3, Remove)]"
  obtain hs' e' where r: "run_handler_ops ?ops (?hs, init_gp_epoller) = (hs', e')" by force
  have "\<forall>p h. ?hs p = Some h \<longrightarrow> h_index h = k_new" by (auto simp: init_gp_handler_def k_new_def)
  moreover have "\<forall>p q h g. ?hs p = Some h \<longrightarrow> ?hs q = Some g \<longrightarrow> h_fd h = h_fd g \<longrightarrow> p = q"
    by (auto simp: init_gp_handler_def split: if_splits)
  ultimately have "\<forall>p h. ?hs p = Some h \<longrightarrow>
      ep_interest e' (h_fd h) = (case spec_handler p ?ops (h_events h, False) of (ev, watched) \<Rightarrow> if watched then Some (ev, p) else None)"
    using interest_follows_handlers [OF _ _ r] by blast
  from this [rule_format, of 1 "init_gp_handler 5"] this [rule_format, of 2 "init_gp_handler 6"]
    this [rule_format, of 3 "init_gp_handler 7"] r show ?thesis
    by (simp add: init_gp_handler_def spec_handler_op_def kread_event_def kwrite_event_def knone_event_def poll_flags)
qed

text \<open>
  Disabling a handler that has never been watched adds its descriptor to the interest list, with no events; the
  kernel then reports errors and hang-ups of it.
\<close>

lemma disable_all_registers_new_handler:
  "ep_interest (fst (disable_all p init_gp_epoller (init_gp_handler fd))) fd = Some (knone_event, p)"
  by (simp add: disable_all_def update_def gp_loop_update_handler_def update_handler_def poller_update_def
      init_gp_handler_def init_gp_epoller_def k_new_def Let_def)

end
