(* ===== verification/Gp_Net.thy ===== *)
theory Gp_Net
  imports Gp_Poll Gp_Sock
begin

text \<open>
  Connections (\<open>base/gp_conn.c\<close>), pending tasks (\<open>base/gp_pending_task.c\<close>), the event loop
  (\<open>base/gp_loop.c\<close>), the server (\<open>base/gp_server.c\<close>) and its acceptor (\<open>base/gp_acceptor.c\<close>), for one
  loop with one server. Connections live in a heap: using one after it has been freed is an error. Byte
  buffers, lists and dictionaries are represented by what they implement: byte strings, sequences and finite
  maps. The operating system and the application's callbacks are parameters.
\<close>

section \<open>Data\<close>

text \<open>A handler is embedded in a connection, in the acceptor, or belongs to the loop's wakeup descriptor.\<close>

datatype haddr = Conn_Handler nat | Accept_Handler | Wakeup_Handler

text \<open>
  The functions that handler callbacks, message callbacks and pending tasks point to. The message callback of a connection
  is a function of the application, \<open>on_message\<close> of the protobuf server or \<open>handle_ssl_msg\<close> of the TLS server.
\<close>

datatype handler_cb =
    Connection_Handler_Read | Connection_Handler_Write | Connection_Handler_Close | Connection_Handler_Error
  | Acceptor_Read_Callback | Wakeup_Handler_Read_Callback
  | Ssl_Handler_Handshake | Ssl_Handler_Read | Ssl_Handler_Close

datatype message_cb = App_Message_Callback | Ipc_On_Message | Handle_Ssl_Msg

datatype pending_fn =
    Run_In_Loop_Trans | Run_In_Loop_Shutdown | Queue_In_Loop_Force_Close | Run_In_Loop_Remove_Conn
  | Queue_In_Loop_Destroy_Conn | Run_In_Loop_Create_Conn | Run_In_Loop_Server_Start

datatype task_type =
    GP_RUN_IN_LOOP_TRANS | GP_RUN_IN_LOOP_CONN | GP_RUN_IN_LOOP_REMOVE_CONN | GP_RUN_IN_LOOP_SERVER_START

datatype gp_state = K_Disconnected | K_Connecting | K_Connected | K_Disconnecting

text \<open>\<open>None\<close> as the connection of a task is NULL. The message is the copy that the task owns.\<close>

record gp_pending_task =
  pt_type :: task_type
  pt_func :: pending_fn
  pt_conn :: "nat option"
  pt_msg :: bytes

text \<open>
  The reference counter is an integer: each reference is held by a task of its own or a function that is
  running, so 64 bits are never exhausted. The other callback pointers of the application are present or NULL.
\<close>

record gp_connection =
  c_ref :: int
  c_fd :: u32
  c_state :: gp_state
  c_handler :: "handler_cb gp_handler"
  input_buffer :: bytes
  output_buffer :: bytes
  c_connection_callback :: bool
  c_message_callback :: "message_cb option"
  c_write_complete_callback :: bool
  c_close_callback :: bool

record gp_loop =
  quit :: bool
  looping :: bool
  calling_pending_functors :: bool
  epoller :: "haddr gp_epoller"
  wakeup_handler :: "handler_cb gp_handler"
  active_handler_list :: "haddr list"
  pending_list :: "gp_pending_task list"

record gp_acceptor =
  accept_handler :: "handler_cb gp_handler"
  listenning :: bool

record gp_server = gp_loop +
  acceptor :: gp_acceptor
  connections :: "u32 \<rightharpoonup> nat"
  s_message_callback :: "message_cb option"
  s_connection_callback :: bool
  s_write_complete_callback :: bool

text \<open>
  What can be observed: system calls that change something outside, calls of the application, freed memory. A
  descriptor is bound to a family and the bytes of the address that the length given to \<open>bind\<close> covers.
\<close>

datatype net_event =
    Wrote u32 bytes | Shutdown_Wr u32 | Closed u32 | On_Connection nat gp_state | On_Message nat bytes | Freed nat
  | Unlinked bytes | Bound u32 u16 bytes

text \<open>
  The server, its loop, the heap of connections with the next free address, whether the listening descriptor is
  open, the counter of the event descriptor, the number of system calls made and the observations.
\<close>

record net = gp_server +
  n_conns :: "nat \<rightharpoonup> gp_connection"
  n_fresh :: nat
  n_listen_open :: bool
  n_eventfd :: nat
  n_calls :: nat
  n_log :: "net_event list"

section \<open>Operating system and application\<close>

text \<open>
  The answer of a system call may depend on its number, its descriptor and its data: an error or the number of
  bytes taken by \<open>write\<close>, an error or the bytes delivered by \<open>readv\<close>, an error or the descriptor of
  \<open>accept4\<close>; whether \<open>listen\<close> and \<open>bind\<close> succeed. \<open>os_ntop\<close> is \<open>inet_ntop\<close> and \<open>os_fill\<close> what memory that has not
  been written holds.
\<close>

datatype errno = EWOULDBLOCK | EPIPE | ECONNRESET | EOther

record os =
  os_write :: "nat \<Rightarrow> u32 \<Rightarrow> bytes \<Rightarrow> errno + nat"
  os_read :: "nat \<Rightarrow> u32 \<Rightarrow> errno + bytes"
  os_accept :: "nat \<Rightarrow> errno + u32"
  os_listen :: "nat \<Rightarrow> bool"
  os_bind :: "nat \<Rightarrow> bool"
  os_ntop :: "u16 \<Rightarrow> bytes \<Rightarrow> bytes option"
  os_fill :: "nat \<Rightarrow> u8"

text \<open>What the application can do from its callbacks or from another thread.\<close>

datatype api_call =
    Conn_Send nat bytes | Conn_Shutdown nat | Conn_Force_Close nat | Conn_Retrieve nat nat | Gp_Loop_Quit

record app =
  app_connection :: "net \<Rightarrow> nat \<Rightarrow> api_call list"
  app_message :: "net \<Rightarrow> nat \<Rightarrow> api_call list"

definition emit :: "net_event \<Rightarrow> net \<Rightarrow> net" where
  "emit ev w = w\<lparr>n_log := n_log w @ [ev]\<rparr>"

definition sys_write :: "os \<Rightarrow> u32 \<Rightarrow> bytes \<Rightarrow> net \<Rightarrow> (errno + nat) \<times> net" where
  "sys_write os fd msg w =
     (let r = os_write os (n_calls w) fd msg; w1 = w\<lparr>n_calls := n_calls w + 1\<rparr> in
      case r of
        Inl e \<Rightarrow> (Inl e, w1)
      | Inr n \<Rightarrow> (Inr n, if n = 0 then w1 else emit (Wrote fd (take n msg)) w1))"

text \<open>The kernel takes a closed descriptor off the interest list.\<close>

definition sys_close :: "u32 \<Rightarrow> net \<Rightarrow> net" where
  "sys_close fd w =
     emit (Closed fd) (w\<lparr>epoller := (epoller w)\<lparr>ep_interest := (ep_interest (epoller w))(fd := None)\<rparr>\<rparr>)"

section \<open>Heap accesses\<close>

definition get_conn :: "net \<Rightarrow> nat \<Rightarrow> gp_connection res" where
  "get_conn w a = (case n_conns w a of None \<Rightarrow> Inl UseAfterFree | Some c \<Rightarrow> Inr c)"

definition put_conn :: "nat \<Rightarrow> gp_connection \<Rightarrow> net \<Rightarrow> net" where
  "put_conn a c w = w\<lparr>n_conns := (n_conns w)(a \<mapsto> c)\<rparr>"

text \<open>Dereferencing a connection pointer.\<close>

definition deref :: "net \<Rightarrow> nat option \<Rightarrow> (nat \<times> gp_connection) res" where
  "deref w p = (case p of None \<Rightarrow> Inl NullDeref | Some a \<Rightarrow> bindE (get_conn w a) (\<lambda>c. Inr (a, c)))"

fun get_handler :: "net \<Rightarrow> haddr \<Rightarrow> handler_cb gp_handler res" where
  "get_handler w (Conn_Handler a) = bindE (get_conn w a) (\<lambda>c. Inr (c_handler c))"
| "get_handler w Accept_Handler = Inr (accept_handler (acceptor w))"
| "get_handler w Wakeup_Handler = Inr (wakeup_handler w)"

fun put_handler :: "haddr \<Rightarrow> handler_cb gp_handler \<Rightarrow> net \<Rightarrow> net" where
  "put_handler (Conn_Handler a) h w =
     w\<lparr>n_conns := (n_conns w)(a := map_option (\<lambda>c. c\<lparr>c_handler := h\<rparr>) (n_conns w a))\<rparr>"
| "put_handler Accept_Handler h w = w\<lparr>acceptor := (acceptor w)\<lparr>accept_handler := h\<rparr>\<rparr>"
| "put_handler Wakeup_Handler h w = w\<lparr>wakeup_handler := h\<rparr>"

text \<open>An operation of a handler, on the handler at an address and the loop's poller.\<close>

definition on_handler ::
  "(haddr \<Rightarrow> haddr gp_epoller \<Rightarrow> handler_cb gp_handler \<Rightarrow> haddr gp_epoller \<times> handler_cb gp_handler) \<Rightarrow>
   haddr \<Rightarrow> net \<Rightarrow> net res" where
  "on_handler op p w =
     bindE (get_handler w p) (\<lambda>h.
       let (e, h1) = op p (epoller w) h in Inr (put_handler p h1 (w\<lparr>epoller := e\<rparr>)))"

section \<open>References and pending tasks\<close>

definition destruct_gp_connection :: "nat \<Rightarrow> net \<Rightarrow> net res" where
  "destruct_gp_connection a w =
     bindE (get_conn w a) (\<lambda>c.
     bindE (on_handler handler_remove (Conn_Handler a)
              (w\<lparr>active_handler_list := remove1 (Conn_Handler a) (active_handler_list w)\<rparr>)) (\<lambda>w1.
       Inr (emit (Freed a) ((sys_close (h_fd (c_handler c)) w1)\<lparr>n_conns := (n_conns w1)(a := None)\<rparr>))))"

definition conn_ref_inc :: "nat option \<Rightarrow> net \<Rightarrow> net res" where
  "conn_ref_inc p w = bindE (deref w p) (\<lambda>(a, c). Inr (put_conn a (c\<lparr>c_ref := c_ref c + 1\<rparr>) w))"

text \<open>The result is also the pointer afterwards: NULL once the connection has been destroyed.\<close>

definition conn_ref_dec :: "nat option \<Rightarrow> net \<Rightarrow> (nat option \<times> net) res" where
  "conn_ref_dec p w =
     bindE (deref w p) (\<lambda>(a, c).
       let w1 = put_conn a (c\<lparr>c_ref := c_ref c - 1\<rparr>) w in
       if c_ref c - 1 = 0 then bindE (destruct_gp_connection a w1) (\<lambda>w2. Inr (None, w2))
       else Inr (p, w1))"

definition create_gp_pending_task :: "task_type \<Rightarrow> pending_fn \<Rightarrow> nat option \<Rightarrow> bytes \<Rightarrow> gp_pending_task" where
  "create_gp_pending_task type func conn msg = \<lparr>pt_type = type, pt_func = func, pt_conn = conn, pt_msg = msg\<rparr>"

definition wakeup :: "net \<Rightarrow> net" where
  "wakeup w = w\<lparr>n_eventfd := n_eventfd w + 1\<rparr>"

definition handler_wakeup_read :: "net \<Rightarrow> net" where
  "handler_wakeup_read w = w\<lparr>n_eventfd := 0\<rparr>"

text \<open>\<open>inl\<close> says whether the caller runs in the loop's thread (\<open>is_in_loop_thread\<close>).\<close>

definition gp_queue_in_loop :: "bool \<Rightarrow> gp_pending_task \<Rightarrow> net \<Rightarrow> net res" where
  "gp_queue_in_loop inl task w =
     bindE (conn_ref_inc (pt_conn task) w) (\<lambda>w1.
       let w2 = w1\<lparr>pending_list := pending_list w1 @ [task]\<rparr> in
       Inr (if \<not> inl \<or> calling_pending_functors w2 then wakeup w2 else w2))"

definition conn_task :: "gp_pending_task \<Rightarrow> bool" where
  "conn_task task \<longleftrightarrow>
     pt_type task = GP_RUN_IN_LOOP_TRANS \<or> pt_type task = GP_RUN_IN_LOOP_CONN \<or> pt_type task = GP_RUN_IN_LOOP_REMOVE_CONN"

text \<open>\<open>func\<close> is what the task's function pointer does.\<close>

definition gp_run_in_loop ::
  "(gp_pending_task \<Rightarrow> net \<Rightarrow> net res) \<Rightarrow> bool \<Rightarrow> gp_pending_task \<Rightarrow> net \<Rightarrow> net res" where
  "gp_run_in_loop func inl task w =
     (if inl then
        if conn_task task then
          bindE (conn_ref_inc (pt_conn task) w) (\<lambda>w1.
          bindE (func task w1) (\<lambda>w2.
          bindE (conn_ref_dec (pt_conn task) w2) (\<lambda>(p, w3). Inr w3)))
        else if pt_type task = GP_RUN_IN_LOOP_SERVER_START then func task w
        else Inr w
      else gp_queue_in_loop inl task w)"

section \<open>Sending, shutting down and closing\<close>

text \<open>With nothing waiting in the output buffer, the message is written directly: bytes written, bytes remaining, fault.\<close>

definition send_directly :: "os \<Rightarrow> gp_connection \<Rightarrow> bytes \<Rightarrow> net \<Rightarrow> nat \<times> nat \<times> bool \<times> net" where
  "send_directly os c msg w =
     (if \<not> is_writing (c_handler c) \<and> output_buffer c = [] then
        (case sys_write os (h_fd (c_handler c)) msg w of
           (Inr nwrote, w1) \<Rightarrow> (nwrote, length msg - nwrote, False, w1)
         | (Inl errno, w1) \<Rightarrow> (0, length msg, errno \<noteq> EWOULDBLOCK \<and> (errno = EPIPE \<or> errno = ECONNRESET), w1))
      else (0, length msg, False, w))"

definition conn_send_in_loop :: "os \<Rightarrow> nat \<Rightarrow> bytes \<Rightarrow> net \<Rightarrow> net res" where
  "conn_send_in_loop os a msg w =
     bindE (get_conn w a) (\<lambda>c.
     if c_state c = K_Disconnected then Inr w
     else
       let (nwrote, remaining, faultError, w1) = send_directly os c msg w in
       if \<not> faultError \<and> 0 < remaining then
         (let w2 = put_conn a (c\<lparr>output_buffer := output_buffer c @ take remaining (drop nwrote msg)\<rparr>) w1 in
          if \<not> is_writing (c_handler c) then on_handler enable_writing (Conn_Handler a) w2 else Inr w2)
       else Inr w1)"

text \<open>
  Before sending, the task's message is printed with \<open>%s\<close>; the copy made for the task has no terminating NUL
  of its own, so the print reads past the block unless the message contains one.
\<close>

definition run_in_loop_trans :: "os \<Rightarrow> gp_pending_task \<Rightarrow> net \<Rightarrow> net res" where
  "run_in_loop_trans os task w =
     bindE (deref w (pt_conn task)) (\<lambda>(a, c).
       if 0 \<notin> set (pt_msg task) then Inl OutOfBounds else conn_send_in_loop os a (pt_msg task) w)"

definition conn_send :: "os \<Rightarrow> bool \<Rightarrow> nat \<Rightarrow> bytes \<Rightarrow> net \<Rightarrow> net res" where
  "conn_send os inl a data w =
     bindE (get_conn w a) (\<lambda>c.
     if c_state c = K_Connected then
       if inl then conn_send_in_loop os a data w
       else gp_run_in_loop (run_in_loop_trans os) inl (create_gp_pending_task GP_RUN_IN_LOOP_TRANS Run_In_Loop_Trans (Some a) data) w
     else Inr w)"

definition run_in_loop_shutdown :: "gp_pending_task \<Rightarrow> net \<Rightarrow> net res" where
  "run_in_loop_shutdown task w =
     bindE (deref w (pt_conn task)) (\<lambda>(a, c).
       Inr (if \<not> is_writing (c_handler c) then emit (Shutdown_Wr (c_fd c)) w else w))"

definition conn_shutdown :: "bool \<Rightarrow> nat \<Rightarrow> net \<Rightarrow> net res" where
  "conn_shutdown inl a w =
     bindE (get_conn w a) (\<lambda>c.
     if c_state c = K_Connected then
       gp_run_in_loop run_in_loop_shutdown inl (create_gp_pending_task GP_RUN_IN_LOOP_CONN Run_In_Loop_Shutdown (Some a) [])
         (put_conn a (c\<lparr>c_state := K_Disconnecting\<rparr>) w)
     else Inr w)"

definition conn_force_close :: "bool \<Rightarrow> nat \<Rightarrow> net \<Rightarrow> net res" where
  "conn_force_close inl a w =
     bindE (get_conn w a) (\<lambda>c.
     if c_state c = K_Connected \<or> c_state c = K_Disconnecting then
       gp_queue_in_loop inl (create_gp_pending_task GP_RUN_IN_LOOP_CONN Queue_In_Loop_Force_Close (Some a) [])
         (put_conn a (c\<lparr>c_state := K_Disconnecting\<rparr>) w)
     else Inr w)"

definition gp_loop_quit :: "bool \<Rightarrow> net \<Rightarrow> net" where
  "gp_loop_quit inl w = (let w1 = w\<lparr>quit := True\<rparr> in if \<not> inl then wakeup w1 else w1)"

fun exec_api :: "os \<Rightarrow> bool \<Rightarrow> api_call \<Rightarrow> net \<Rightarrow> net res" where
  "exec_api os inl (Conn_Send a data) w = conn_send os inl a data w"
| "exec_api os inl (Conn_Shutdown a) w = conn_shutdown inl a w"
| "exec_api os inl (Conn_Force_Close a) w = conn_force_close inl a w"
| "exec_api os inl (Conn_Retrieve a n) w =
     bindE (get_conn w a) (\<lambda>c. Inr (put_conn a (c\<lparr>input_buffer := drop n (input_buffer c)\<rparr>) w))"
| "exec_api os inl Gp_Loop_Quit w = Inr (gp_loop_quit inl w)"

fun exec_apis :: "os \<Rightarrow> bool \<Rightarrow> api_call list \<Rightarrow> net \<Rightarrow> net res" where
  "exec_apis os inl [] w = Inr w"
| "exec_apis os inl (x # xs) w = bindE (exec_api os inl x w) (exec_apis os inl xs)"

section \<open>Callbacks\<close>

definition call_connection_callback :: "os \<Rightarrow> app \<Rightarrow> nat \<Rightarrow> net \<Rightarrow> net res" where
  "call_connection_callback os app a w =
     bindE (get_conn w a) (\<lambda>c.
     if c_connection_callback c then exec_apis os True (app_connection app w a) (emit (On_Connection a (c_state c)) w)
     else Inl NullDeref)"

definition call_message_callback :: "os \<Rightarrow> app \<Rightarrow> nat \<Rightarrow> net \<Rightarrow> net res" where
  "call_message_callback os app a w =
     bindE (get_conn w a) (\<lambda>c.
     if c_message_callback c \<noteq> None then exec_apis os True (app_message app w a) (emit (On_Message a (input_buffer c)) w)
     else Inl NullDeref)"

definition run_in_loop_remove_conn :: "gp_pending_task \<Rightarrow> net \<Rightarrow> net res" where
  "run_in_loop_remove_conn task w =
     bindE (deref w (pt_conn task)) (\<lambda>(a, c).
       gp_queue_in_loop True (create_gp_pending_task GP_RUN_IN_LOOP_CONN Queue_In_Loop_Destroy_Conn (pt_conn task) []) w)"

text \<open>The close callback of a connection: the reference of the table is dropped before the connection is used again.\<close>

definition remove_conn :: "nat \<Rightarrow> net \<Rightarrow> net res" where
  "remove_conn a w =
     bindE (get_conn w a) (\<lambda>c.
     bindE (conn_ref_dec (Some a) (w\<lparr>connections := (connections w)(h_fd (c_handler c) := None)\<rparr>)) (\<lambda>(p, w1).
     bindE (deref w1 p) (\<lambda>_.
       gp_run_in_loop run_in_loop_remove_conn True
         (create_gp_pending_task GP_RUN_IN_LOOP_REMOVE_CONN Run_In_Loop_Remove_Conn p []) w1)))"

definition connection_handler_close :: "os \<Rightarrow> app \<Rightarrow> nat \<Rightarrow> net \<Rightarrow> net res" where
  "connection_handler_close os app a w =
     bindE (conn_ref_inc (Some a) w) (\<lambda>w1.
     bindE (get_conn w1 a) (\<lambda>c1.
     bindE (on_handler disable_all (Conn_Handler a) (put_conn a (c1\<lparr>c_state := K_Disconnected\<rparr>) w1)) (\<lambda>w2.
     bindE (call_connection_callback os app a w2) (\<lambda>w3.
     bindE (get_conn w3 a) (\<lambda>c3.
     bindE (if c_close_callback c3 then remove_conn a w3 else Inl NullDeref) (\<lambda>w4.
     bindE (conn_ref_dec (Some a) w4) (\<lambda>(p, w5). Inr w5)))))))"

text \<open>
  \<open>size_t n = write (...)\<close>: an error is \<open>n = SIZE_MAX\<close>, so that \<open>n > 0\<close> and everything is retrieved.
\<close>

definition connection_handler_write :: "os \<Rightarrow> nat \<Rightarrow> net \<Rightarrow> net res" where
  "connection_handler_write os a w =
     bindE (get_conn w a) (\<lambda>c.
       let (r, w1) = sys_write os (h_fd (c_handler c)) (output_buffer c) w;
           left = (case r of Inl e \<Rightarrow> [] | Inr n \<Rightarrow> drop n (output_buffer c))
       in if r = Inr 0 then Inr w1
          else
            (let w2 = put_conn a (c\<lparr>output_buffer := left\<rparr>) w1 in
             if left = [] then
               bindE (on_handler disable_writing (Conn_Handler a) w2) (\<lambda>w3.
                 Inr (if c_state c = K_Disconnecting then emit (Shutdown_Wr (h_fd (c_handler c))) w3 else w3))
             else Inr w2))"

text \<open>\<open>size_t n = buffer_read_fd (...)\<close>: an error is a positive \<open>n\<close>, and the last branch of the function is dead.\<close>

definition connection_handler_read :: "os \<Rightarrow> app \<Rightarrow> nat \<Rightarrow> net \<Rightarrow> net res" where
  "connection_handler_read os app a w =
     bindE (get_conn w a) (\<lambda>c.
       let r = os_read os (n_calls w) (h_fd (c_handler c)); w1 = w\<lparr>n_calls := n_calls w + 1\<rparr> in
       if r = Inr [] then connection_handler_close os app a w1
       else
         (let got = (case r of Inl e \<Rightarrow> [] | Inr bs \<Rightarrow> bs);
              w2 = put_conn a (c\<lparr>input_buffer := input_buffer c @ got\<rparr>) w1
          in bindE (conn_ref_inc (Some a) w2) (\<lambda>w3.
             bindE (call_message_callback os app a w3) (\<lambda>w4.
             bindE (conn_ref_dec (Some a) w4) (\<lambda>(p, w5). Inr w5)))))"

definition connection_established :: "os \<Rightarrow> app \<Rightarrow> nat \<Rightarrow> net \<Rightarrow> net res" where
  "connection_established os app a w =
     bindE (get_conn w a) (\<lambda>c.
     bindE (on_handler enable_reading (Conn_Handler a) (put_conn a (c\<lparr>c_state := K_Connected\<rparr>) w)) (\<lambda>w1.
       call_connection_callback os app a w1))"

definition connection_destroyed :: "os \<Rightarrow> app \<Rightarrow> nat \<Rightarrow> net \<Rightarrow> net res" where
  "connection_destroyed os app a w =
     bindE (get_conn w a) (\<lambda>c.
     bindE (if c_state c = K_Connected then
              bindE (on_handler disable_all (Conn_Handler a) (put_conn a (c\<lparr>c_state := K_Disconnected\<rparr>) w))
                (call_connection_callback os app a)
            else Inr w) (\<lambda>w1.
       on_handler handler_remove (Conn_Handler a) w1))"

definition queue_in_loop_force_close :: "os \<Rightarrow> app \<Rightarrow> gp_pending_task \<Rightarrow> net \<Rightarrow> net res" where
  "queue_in_loop_force_close os app task w =
     bindE (deref w (pt_conn task)) (\<lambda>(a, c).
       if c_state c = K_Connected \<or> c_state c = K_Disconnecting then connection_handler_close os app a w else Inr w)"

definition queue_in_loop_destroy_conn :: "os \<Rightarrow> app \<Rightarrow> gp_pending_task \<Rightarrow> net \<Rightarrow> net res" where
  "queue_in_loop_destroy_conn os app task w =
     bindE (deref w (pt_conn task)) (\<lambda>(a, c). connection_destroyed os app a w)"

definition run_in_loop_create_conn :: "os \<Rightarrow> app \<Rightarrow> gp_pending_task \<Rightarrow> net \<Rightarrow> net res" where
  "run_in_loop_create_conn os app task w =
     bindE (deref w (pt_conn task)) (\<lambda>(a, c). connection_established os app a w)"

section \<open>The server\<close>

definition acceptor_listen :: "os \<Rightarrow> net \<Rightarrow> net res" where
  "acceptor_listen os w =
     (let w1 = w\<lparr>acceptor := (acceptor w)\<lparr>listenning := True\<rparr>, n_calls := n_calls w + 1\<rparr> in
      if os_listen os (n_calls w) then on_handler enable_reading Accept_Handler w1 else Inl Abort)"

definition run_in_loop_server_start :: "os \<Rightarrow> gp_pending_task \<Rightarrow> net \<Rightarrow> net res" where
  "run_in_loop_server_start os task w = acceptor_listen os w"

definition start_server :: "os \<Rightarrow> bool \<Rightarrow> net \<Rightarrow> net res" where
  "start_server os inl w =
     gp_run_in_loop (run_in_loop_server_start os) inl
       (create_gp_pending_task GP_RUN_IN_LOOP_SERVER_START Run_In_Loop_Server_Start None []) w"

definition init_gp_connection :: "u32 \<Rightarrow> gp_connection" where
  "init_gp_connection fd =
     \<lparr>c_ref = 1, c_fd = fd, c_state = K_Connecting,
      c_handler = set_error_callback Connection_Handler_Error (set_close_callback Connection_Handler_Close
        (set_write_callback Connection_Handler_Write (set_read_callback Connection_Handler_Read (init_gp_handler fd)))),
      input_buffer = [], output_buffer = [],
      c_connection_callback = False, c_message_callback = None, c_write_complete_callback = False,
      c_close_callback = False\<rparr>"

text \<open>\<open>conn_set_connection_callback\<close> and its siblings, called with the server's callbacks.\<close>

definition conn_set_callbacks :: "net \<Rightarrow> gp_connection \<Rightarrow> gp_connection" where
  "conn_set_callbacks w c =
     c\<lparr>c_connection_callback := s_connection_callback w, c_message_callback := s_message_callback w,
       c_write_complete_callback := s_write_complete_callback w, c_close_callback := True\<rparr>"

definition new_connection_callback :: "os \<Rightarrow> app \<Rightarrow> u32 \<Rightarrow> net \<Rightarrow> net res" where
  "new_connection_callback os app sockfd w =
     (let a = n_fresh w;
          w1 = (put_conn a (init_gp_connection sockfd) w)\<lparr>n_fresh := a + 1\<rparr>;
          w2 = (if connections w1 sockfd = None then w1\<lparr>connections := (connections w1)(sockfd \<mapsto> a)\<rparr> else w1)
      in bindE (conn_ref_inc (Some a) w2) (\<lambda>w3.
         bindE (get_conn w3 a) (\<lambda>c3.
         bindE (gp_run_in_loop (run_in_loop_create_conn os app) True
                  (create_gp_pending_task GP_RUN_IN_LOOP_CONN Run_In_Loop_Create_Conn (Some a) [])
                  (put_conn a (conn_set_callbacks w3 c3) w3)) (\<lambda>w4.
         bindE (conn_ref_dec (Some a) w4) (\<lambda>(p, w5). Inr w5)))))"

text \<open>When \<open>accept4\<close> fails the listening descriptor is closed.\<close>

definition acceptor_read_callback :: "os \<Rightarrow> app \<Rightarrow> net \<Rightarrow> net res" where
  "acceptor_read_callback os app w =
     (let r = os_accept os (n_calls w); w1 = w\<lparr>n_calls := n_calls w + 1\<rparr> in
      case r of
        Inr connfd \<Rightarrow>
          if 0 < sint connfd then new_connection_callback os app connfd w1
          else Inr ((sys_close (h_fd (accept_handler (acceptor w1))) w1)\<lparr>n_listen_open := False\<rparr>)
      | Inl e \<Rightarrow> Inr ((sys_close (h_fd (accept_handler (acceptor w1))) w1)\<lparr>n_listen_open := False\<rparr>))"

section \<open>The event loop\<close>

text \<open>Calling through the function pointer of a task; \<open>container_of\<close> leads from a handler to its connection.\<close>

fun pending_func :: "os \<Rightarrow> app \<Rightarrow> gp_pending_task \<Rightarrow> net \<Rightarrow> net res" where
  "pending_func os app task w =
     (case pt_func task of
        Run_In_Loop_Trans \<Rightarrow> run_in_loop_trans os task w
      | Run_In_Loop_Shutdown \<Rightarrow> run_in_loop_shutdown task w
      | Queue_In_Loop_Force_Close \<Rightarrow> queue_in_loop_force_close os app task w
      | Run_In_Loop_Remove_Conn \<Rightarrow> run_in_loop_remove_conn task w
      | Queue_In_Loop_Destroy_Conn \<Rightarrow> queue_in_loop_destroy_conn os app task w
      | Run_In_Loop_Create_Conn \<Rightarrow> run_in_loop_create_conn os app task w
      | Run_In_Loop_Server_Start \<Rightarrow> run_in_loop_server_start os task w)"

fun handler_callback :: "os \<Rightarrow> app \<Rightarrow> handler_cb \<Rightarrow> haddr \<Rightarrow> net \<Rightarrow> net res" where
  "handler_callback os app Connection_Handler_Read (Conn_Handler a) w = connection_handler_read os app a w"
| "handler_callback os app Connection_Handler_Write (Conn_Handler a) w = connection_handler_write os a w"
| "handler_callback os app Connection_Handler_Close (Conn_Handler a) w = connection_handler_close os app a w"
| "handler_callback os app Acceptor_Read_Callback Accept_Handler w = acceptor_read_callback os app w"
| "handler_callback os app Wakeup_Handler_Read_Callback Wakeup_Handler w = Inr (handler_wakeup_read w)"
| "handler_callback os app cb p w = Inr w"

text \<open>One test of \<open>handle_event\<close>: when the received events satisfy it, the callback is called unless it is NULL.\<close>

definition event_case ::
  "os \<Rightarrow> app \<Rightarrow> (u32 \<Rightarrow> bool) \<Rightarrow> (handler_cb gp_handler \<Rightarrow> handler_cb option) \<Rightarrow> haddr \<Rightarrow> net \<Rightarrow> net res" where
  "event_case os app test cb p w =
     bindE (get_handler w p) (\<lambda>h.
       if test (h_revents h) then (case cb h of None \<Rightarrow> Inr w | Some f \<Rightarrow> handler_callback os app f p w) else Inr w)"

definition set_event_handling :: "bool \<Rightarrow> haddr \<Rightarrow> net \<Rightarrow> net res" where
  "set_event_handling b p w = bindE (get_handler w p) (\<lambda>h. Inr (put_handler p (h\<lparr>event_handling := b\<rparr>) w))"

definition handle_event :: "os \<Rightarrow> app \<Rightarrow> haddr \<Rightarrow> net \<Rightarrow> net res" where
  "handle_event os app p w =
     bindE (set_event_handling True p w) (\<lambda>w1.
     bindE (event_case os app (\<lambda>r. r AND POLLHUP \<noteq> 0 \<and> r AND POLLIN = 0) close_callback p w1) (\<lambda>w2.
     bindE (event_case os app (\<lambda>r. r AND (POLLERR OR POLLNVAL) \<noteq> 0) error_callback p w2) (\<lambda>w3.
     bindE (event_case os app (\<lambda>r. r AND (POLLIN OR POLLPRI OR POLLRDHUP) \<noteq> 0) read_callback p w3) (\<lambda>w4.
     bindE (event_case os app (\<lambda>r. r AND POLLOUT \<noteq> 0) write_callback p w4) (\<lambda>w5.
       set_event_handling False p w5)))))"

fun fill_active_handlers :: "(haddr \<times> u32) list \<Rightarrow> net \<Rightarrow> net res" where
  "fill_active_handlers [] w = Inr w"
| "fill_active_handlers ((p, revt) # evs) w =
     bindE (on_handler (set_revents revt) p w) (\<lambda>w1.
       fill_active_handlers evs (w1\<lparr>active_handler_list := active_handler_list w1 @ [p]\<rparr>))"

text \<open>
  The walk over the active handlers: each is handled and then taken off the list. Nothing is added to the list
  while it is walked.
\<close>

fun handle_active :: "os \<Rightarrow> app \<Rightarrow> haddr list \<Rightarrow> net \<Rightarrow> net res" where
  "handle_active os app [] w = Inr w"
| "handle_active os app (p # ps) w =
     bindE (handle_event os app p w) (\<lambda>w1.
     bindE (get_handler w1 p) (\<lambda>_.
       handle_active os app ps (w1\<lparr>active_handler_list := remove1 p (active_handler_list w1)\<rparr>)))"

text \<open>A task taken from the list: the reference that \<open>gp_queue_in_loop\<close> took is given back, the task is freed.\<close>

definition run_pending :: "os \<Rightarrow> app \<Rightarrow> gp_pending_task \<Rightarrow> net \<Rightarrow> net res" where
  "run_pending os app task w =
     bindE (if conn_task task then
              bindE (pending_func os app task w) (\<lambda>w1.
              bindE (conn_ref_dec (pt_conn task) w1) (\<lambda>(p, w2). Inr w2))
            else if pt_type task = GP_RUN_IN_LOOP_SERVER_START then pending_func os app task w
            else Inr w) (\<lambda>w1.
       Inr (w1\<lparr>pending_list := remove1 task (pending_list w1)\<rparr>))"

text \<open>
  \<open>GP_LIST_FOREACH_SAFE\<close> looks up the next task before it runs the current one: a task queued while the last
  one runs is left for the next turn, one queued earlier is run in the same turn. The fuel bounds
  the number of tasks.
\<close>

fun pending_walk :: "os \<Rightarrow> app \<Rightarrow> nat \<Rightarrow> net \<Rightarrow> net res option" where
  "pending_walk os app 0 w = None"
| "pending_walk os app (Suc fuel) w =
     (case pending_list w of
        [] \<Rightarrow> Some (Inr w)
      | task # tasks \<Rightarrow>
          (case run_pending os app task w of
             Inl e \<Rightarrow> Some (Inl e)
           | Inr w1 \<Rightarrow> if tasks = [] then Some (Inr w1) else pending_walk os app fuel w1))"

definition do_pending_functors :: "os \<Rightarrow> app \<Rightarrow> nat \<Rightarrow> net \<Rightarrow> net res option" where
  "do_pending_functors os app fuel w =
     map_option (\<lambda>r. bindE r (\<lambda>w1. Inr (w1\<lparr>calling_pending_functors := False\<rparr>)))
       (pending_walk os app fuel (w\<lparr>calling_pending_functors := True\<rparr>))"

text \<open>
  One turn of the loop: how the operating system answers during it, what the timer callbacks call, what other
  threads call while the loop waits, the events \<open>epoll_wait\<close> delivers.
\<close>

record turn =
  t_os :: os
  t_timers :: "api_call list"
  t_others :: "api_call list"
  t_events :: "(haddr \<times> u32) list"

definition poller_poll :: "turn \<Rightarrow> net \<Rightarrow> net res" where
  "poller_poll tn w = bindE (exec_apis (t_os tn) False (t_others tn) w) (fill_active_handlers (t_events tn))"

definition loop_turn :: "app \<Rightarrow> nat \<Rightarrow> turn \<Rightarrow> net \<Rightarrow> net res option" where
  "loop_turn app fuel tn w =
     (case bindE (exec_apis (t_os tn) True (t_timers tn) w) (\<lambda>w1.
           bindE (poller_poll tn w1) (\<lambda>w2.
             handle_active (t_os tn) app (active_handler_list w2) w2)) of
        Inl e \<Rightarrow> Some (Inl e)
      | Inr w3 \<Rightarrow> do_pending_functors (t_os tn) app fuel w3)"

text \<open>The loop for as many turns as are given, unless it is told to quit.\<close>

fun loop_turns :: "app \<Rightarrow> nat \<Rightarrow> turn list \<Rightarrow> net \<Rightarrow> net res option" where
  "loop_turns app fuel [] w = Some (Inr w)"
| "loop_turns app fuel (tn # tns) w =
     (if quit w then Some (Inr (w\<lparr>looping := False\<rparr>))
      else case loop_turn app fuel tn w of
             Some (Inr w1) \<Rightarrow> loop_turns app fuel tns w1
           | r \<Rightarrow> r)"

definition gp_loop_run :: "app \<Rightarrow> nat \<Rightarrow> turn list \<Rightarrow> net \<Rightarrow> net res option" where
  "gp_loop_run app fuel tns w = loop_turns app fuel tns (w\<lparr>looping := True, quit := False\<rparr>)"

section \<open>Creation\<close>

definition init_gp_loop :: "u32 \<Rightarrow> net \<Rightarrow> net res" where
  "init_gp_loop wakeup_fd w =
     bindE (on_handler enable_reading Wakeup_Handler
       (w\<lparr>quit := False, looping := False, calling_pending_functors := False, epoller := init_gp_epoller,
          wakeup_handler := set_read_callback Wakeup_Handler_Read_Callback (init_gp_handler wakeup_fd),
          n_eventfd := 0\<rparr>)) (\<lambda>w1.
       Inr (w1\<lparr>active_handler_list := [], pending_list := []\<rparr>))"

text \<open>
  \<open>fd\<close> is the descriptor that \<open>socket\<close> gives. The address is copied into an array of 40 bytes, whose string is unlinked,
  when it is a path, and printed: a longer path leaves the array without a NUL.
\<close>

definition init_gp_acceptor :: "os \<Rightarrow> u32 \<Rightarrow> gp_sock_address \<Rightarrow> net \<Rightarrow> net res" where
  "init_gp_acceptor os fd sock_address w =
     bindE (get_gp_sock_len sock_address) (\<lambda>len.
     bindE (get_gp_sock_address (os_ntop os) sock_address (malloc_block (os_fill os) 40) 40) (\<lambda>address.
     bindE (strlen_in address) (\<lambda>_.
       let w1 = (if sa_family sock_address = AF_UNIX then emit (Unlinked (c_str address)) w else w) in
       if os_bind os (n_calls w1) then
         Inr ((emit (Bound fd (sa_family sock_address) (take (len - 2) (sa_data sock_address))) w1)
               \<lparr>acceptor := \<lparr>accept_handler = set_read_callback Acceptor_Read_Callback (init_gp_handler fd), listenning = False\<rparr>,
                n_listen_open := True, n_calls := n_calls w1 + 1\<rparr>)
       else Inl Abort)))"

definition init_gp_server :: "os \<Rightarrow> u32 \<Rightarrow> gp_sock_address \<Rightarrow> net \<Rightarrow> net res" where
  "init_gp_server os fd listen_addr w =
     init_gp_acceptor os fd listen_addr
       (w\<lparr>connections := (\<lambda>_. None), s_message_callback := None, s_connection_callback := False,
          s_write_complete_callback := False\<rparr>)"

definition server_set_message_callback :: "message_cb \<Rightarrow> net \<Rightarrow> net" where
  "server_set_message_callback callback w = w\<lparr>s_message_callback := Some callback\<rparr>"

definition server_set_connection_callback :: "net \<Rightarrow> net" where
  "server_set_connection_callback w = w\<lparr>s_connection_callback := True\<rparr>"

definition server_set_write_complete_callback :: "net \<Rightarrow> net" where
  "server_set_write_complete_callback w = w\<lparr>s_write_complete_callback := True\<rparr>"

end
