(* ===== verification/Gp_Net_Inv.thy ===== *)
theory Gp_Net_Inv
  imports Gp_Net
begin

text \<open>
  The invariant of a server between and during its callbacks, and that the calls an application may make keep
  it: reference counts are exact, the server's table and the heap agree, the kernel watches the connections that
  are open and no others.
\<close>

section \<open>The invariant\<close>

text \<open>The tasks that the library queues for a connection.\<close>

definition destroy_conn_task :: "nat \<Rightarrow> gp_pending_task" where
  "destroy_conn_task a = create_gp_pending_task GP_RUN_IN_LOOP_CONN Queue_In_Loop_Destroy_Conn (Some a) []"

definition task_ok :: "gp_pending_task \<Rightarrow> nat \<Rightarrow> bool" where
  "task_ok t a \<longleftrightarrow>
     (\<exists>m. t = create_gp_pending_task GP_RUN_IN_LOOP_TRANS Run_In_Loop_Trans (Some a) m \<and> 0 \<in> set m) \<or>
     t = create_gp_pending_task GP_RUN_IN_LOOP_CONN Run_In_Loop_Shutdown (Some a) [] \<or>
     t = create_gp_pending_task GP_RUN_IN_LOOP_CONN Queue_In_Loop_Force_Close (Some a) [] \<or>
     t = destroy_conn_task a"

definition tasks_on :: "nat \<Rightarrow> gp_pending_task list \<Rightarrow> gp_pending_task list" where
  "tasks_on a ts = filter (\<lambda>t. pt_conn t = Some a) ts"

lemma tasks_on_simps [simp]:
  "tasks_on a [] = []" "tasks_on a (ts @ ts') = tasks_on a ts @ tasks_on a ts'"
  "tasks_on a (t # ts) = (if pt_conn t = Some a then t # tasks_on a ts else tasks_on a ts)"
  by (simp_all add: tasks_on_def)

text \<open>
  Where a connection is on its way to being freed: as the invariant has it between callbacks, while its close
  handler runs, after it has left the server's table, while its destruction runs.
\<close>

datatype phase = Normal | Closing | Leaving | Dying

definition handlers :: "net \<Rightarrow> haddr \<rightharpoonup> handler_cb gp_handler" where
  "handlers w p =
     (case p of
        Conn_Handler a \<Rightarrow> map_option c_handler (n_conns w a)
      | Accept_Handler \<Rightarrow> if n_listen_open w then Some (accept_handler (acceptor w)) else None
      | Wakeup_Handler \<Rightarrow> Some (wakeup_handler w))"

definition in_table :: "net \<Rightarrow> nat \<Rightarrow> gp_connection \<Rightarrow> bool" where
  "in_table w a c \<longleftrightarrow> connections w (c_fd c) = Some a"

text \<open>\<open>ts\<close> are the tasks that wait, \<open>x\<close> the number of references held by running functions.\<close>

definition phase_ok ::
  "bool \<Rightarrow> phase \<Rightarrow> nat \<Rightarrow> gp_pending_task list \<Rightarrow> bool \<Rightarrow> gp_state \<Rightarrow> handler_cb gp_handler \<Rightarrow> bool" where
  "phase_ok quiet ph a ts tab st h \<longleftrightarrow>
     (case ph of
        Normal \<Rightarrow>
          (if st = K_Disconnected then
             \<not> tab \<and> (\<exists>us. ts = us @ [destroy_conn_task a] \<and> destroy_conn_task a \<notin> set us) \<and> (quiet \<longrightarrow> h_index h \<noteq> k_added)
           else st \<noteq> K_Connecting \<and> tab \<and> destroy_conn_task a \<notin> set ts \<and> h_index h = k_added \<and>
             h_events h AND kread_event = kread_event)
      | Closing \<Rightarrow> st = K_Disconnected \<and> tab \<and> destroy_conn_task a \<notin> set ts \<and> h_index h \<noteq> k_added
      | Leaving \<Rightarrow> st = K_Disconnected \<and> \<not> tab \<and> destroy_conn_task a \<notin> set ts \<and> h_index h \<noteq> k_added
      | Dying \<Rightarrow> st = K_Disconnected \<and> \<not> tab \<and> ts = [])"

definition wired :: "handler_cb gp_handler \<Rightarrow> bool" where
  "wired h \<longleftrightarrow>
     read_callback h = Some Connection_Handler_Read \<and> write_callback h = Some Connection_Handler_Write \<and>
     close_callback h = Some Connection_Handler_Close \<and> error_callback h = Some Connection_Handler_Error"

definition conn_ok :: "bool \<Rightarrow> phase \<Rightarrow> nat \<Rightarrow> nat \<Rightarrow> gp_pending_task list \<Rightarrow> bool \<Rightarrow> gp_connection \<Rightarrow> bool" where
  "conn_ok quiet ph x a ts tab c \<longleftrightarrow>
     c_ref c = int (length ts + x + (if tab then 1 else 0)) \<and>
     h_fd (c_handler c) = c_fd c \<and> wired (c_handler c) \<and>
     c_connection_callback c \<and> c_message_callback c \<noteq> None \<and> c_close_callback c \<and>
     phase_ok quiet ph a ts tab (c_state c) (c_handler c)"

text \<open>
  \<open>k\<close> tasks at the head of the list are being run; \<open>quiet\<close> says that no closed connection is watched.
\<close>

definition waiting :: "nat \<Rightarrow> net \<Rightarrow> gp_pending_task list" where
  "waiting k w = drop k (pending_list w)"

definition net_inv :: "nat \<Rightarrow> bool \<Rightarrow> (nat \<Rightarrow> phase) \<Rightarrow> (nat \<Rightarrow> nat) \<Rightarrow> net \<Rightarrow> bool" where
  "net_inv k quiet ph x w \<longleftrightarrow>
     k \<le> length (pending_list w) \<and>
     (\<forall>a c. n_conns w a = Some c \<longrightarrow> conn_ok quiet (ph a) (x a) a (tasks_on a (waiting k w)) (in_table w a c) c) \<and>
     (\<forall>t \<in> set (waiting k w). \<exists>a. task_ok t a \<and> n_conns w a \<noteq> None) \<and>
     (\<forall>fd a. connections w fd = Some a \<longrightarrow> (\<exists>c. n_conns w a = Some c \<and> c_fd c = fd)) \<and>
     (\<forall>a \<ge> n_fresh w. n_conns w a = None) \<and>
     poll_inv (handlers w) (epoller w) \<and>
     s_connection_callback w \<and> s_message_callback w \<noteq> None \<and>
     (\<exists>h. accept_handler (acceptor w) = h \<and> read_callback h = Some Acceptor_Read_Callback \<and> write_callback h = None \<and>
        close_callback h = None \<and> error_callback h = None) \<and>
     (\<exists>h. wakeup_handler w = h \<and> read_callback h = Some Wakeup_Handler_Read_Callback \<and> write_callback h = None \<and>
        close_callback h = None \<and> error_callback h = None \<and>
        h_index h = k_added \<and> h_events h AND kread_event = kread_event)"

section \<open>Changing one connection\<close>

text \<open>What no operation on a connection changes, but for the server's table.\<close>

definition rest_of :: "net \<Rightarrow> net" where
  "rest_of w = w\<lparr>n_conns := Map.empty, epoller := init_gp_epoller, pending_list := [], connections := Map.empty,
     active_handler_list := [], quit := False, n_eventfd := 0, n_calls := 0, n_log := []\<rparr>"

lemma rest_of_simps [simp]:
  "rest_of (w\<lparr>n_conns := z1\<rparr>) = rest_of w" "rest_of (w\<lparr>epoller := z2\<rparr>) = rest_of w"
  "rest_of (w\<lparr>pending_list := z3\<rparr>) = rest_of w" "rest_of (w\<lparr>connections := z4\<rparr>) = rest_of w"
  "rest_of (w\<lparr>active_handler_list := z5\<rparr>) = rest_of w" "rest_of (w\<lparr>quit := z6\<rparr>) = rest_of w"
  "rest_of (w\<lparr>n_eventfd := z7\<rparr>) = rest_of w" "rest_of (w\<lparr>n_calls := z8\<rparr>) = rest_of w" "rest_of (w\<lparr>n_log := z9\<rparr>) = rest_of w"
  by (simp_all add: rest_of_def)

lemma rest_of_eqD:
  assumes "rest_of w' = rest_of w"
  shows "n_fresh w' = n_fresh w" "n_listen_open w' = n_listen_open w" "acceptor w' = acceptor w"
    "wakeup_handler w' = wakeup_handler w" "s_connection_callback w' = s_connection_callback w"
    "s_message_callback w' = s_message_callback w" "calling_pending_functors w' = calling_pending_functors w" "looping w' = looping w"
    "s_write_complete_callback w' = s_write_complete_callback w"
proof -
  have eq: "f (rest_of w') = f (rest_of w)" for f :: "net \<Rightarrow> 'b" using assms by simp
  show "n_fresh w' = n_fresh w" "n_listen_open w' = n_listen_open w" "acceptor w' = acceptor w"
    "wakeup_handler w' = wakeup_handler w" "s_connection_callback w' = s_connection_callback w"
    "s_message_callback w' = s_message_callback w" "calling_pending_functors w' = calling_pending_functors w" "looping w' = looping w"
    "s_write_complete_callback w' = s_write_complete_callback w"
    using eq [of n_fresh] eq [of n_listen_open] eq [of acceptor] eq [of wakeup_handler] eq [of s_connection_callback]
      eq [of s_message_callback] eq [of calling_pending_functors] eq [of looping] eq [of s_write_complete_callback]
    by (simp_all add: rest_of_def)
qed

lemma handlers_conn:
  assumes "n_conns w' = (n_conns w)(a := Some c)" and "rest_of w' = rest_of w"
  shows "handlers w' = (handlers w)(Conn_Handler a \<mapsto> c_handler c)"
  using assms rest_of_eqD [OF assms(2)] by (auto simp: handlers_def fun_eq_iff split: haddr.splits)

lemma handlers_same_conn:
  assumes "n_conns w' = (n_conns w)(a := Some c)" and "rest_of w' = rest_of w" and "n_conns w a = Some c0" and "c_handler c = c_handler c0"
  shows "handlers w' = handlers w"
  using handlers_conn [OF assms(1,2)] assms(3,4) by (auto simp: handlers_def fun_eq_iff)

lemma handlers_Conn [simp]: "handlers w (Conn_Handler a) = map_option c_handler (n_conns w a)"
  by (simp add: handlers_def)

lemma net_invD:
  assumes "net_inv k q ph x w"
  shows "k \<le> length (pending_list w)"
    and "n_conns w a = Some c \<Longrightarrow> conn_ok q (ph a) (x a) a (tasks_on a (waiting k w)) (in_table w a c) c"
    and "t \<in> set (waiting k w) \<Longrightarrow> \<exists>a. task_ok t a \<and> n_conns w a \<noteq> None"
    and "connections w fd = Some a \<Longrightarrow> \<exists>c. n_conns w a = Some c \<and> c_fd c = fd"
    and "n_fresh w \<le> a \<Longrightarrow> n_conns w a = None"
    and "poll_inv (handlers w) (epoller w)"
  using assms unfolding net_inv_def by blast+

lemma waiting_append: "k \<le> length (pending_list w) \<Longrightarrow> pending_list w' = pending_list w @ ts \<Longrightarrow> waiting k w' = waiting k w @ ts"
  by (simp add: waiting_def)

lemma task_ok_conn: "task_ok t a \<Longrightarrow> pt_conn t = Some a"
  by (auto simp: task_ok_def create_gp_pending_task_def destroy_conn_task_def)

lemma tasks_on_other: "(\<And>t. t \<in> set ts \<Longrightarrow> task_ok t a) \<Longrightarrow> b \<noteq> a \<Longrightarrow> tasks_on b ts = []"
  using task_ok_conn by (fastforce simp: tasks_on_def filter_empty_conv)

lemma tasks_on_same: "(\<And>t. t \<in> set ts \<Longrightarrow> task_ok t a) \<Longrightarrow> tasks_on a ts = ts"
  using task_ok_conn by (fastforce simp: tasks_on_def filter_id_conv)

text \<open>The general step: connection \<open>a\<close> changes, tasks for it are queued, all else that matters stays.\<close>

lemma net_inv_change:
  assumes inv: "net_inv k q ph x w"
    and conns: "n_conns w' = (n_conns w)(a \<mapsto> c')" "n_conns w a = Some c" "c_fd c' = c_fd c"
    and pend: "pending_list w' = pending_list w @ ts" "\<And>t. t \<in> set ts \<Longrightarrow> task_ok t a"
    and same: "rest_of w' = rest_of w" "connections w' = connections w"
    and poll: "poll_inv (handlers w') (epoller w')"
    and ok: "conn_ok q (ph' a) (x' a) a (tasks_on a (waiting k w) @ ts) (in_table w a c) c'"
    and others: "\<And>b. b \<noteq> a \<Longrightarrow> ph' b = ph b" "\<And>b. b \<noteq> a \<Longrightarrow> x' b = x b"
  shows "net_inv k q ph' x' w'"
proof -
  note R = rest_of_eqD [OF same(1)]
  have wt: "waiting k w' = waiting k w @ ts" by (rule waiting_append [OF net_invD(1) [OF inv] pend(1)])
  have c: "conn_ok q (ph' b) (x' b) b (tasks_on b (waiting k w')) (in_table w' b d) d" if b: "n_conns w' b = Some d" for b d
  proof (cases "b = a")
    case True
    then have "d = c'" using b conns(1) by simp
    then show ?thesis using ok True wt tasks_on_same [OF pend(2)] conns(3) same(2) by (simp add: in_table_def)
  next
    case False
    then have "n_conns w b = Some d" using b conns(1) by simp
    then show ?thesis using net_invD(2) [OF inv] False wt tasks_on_other [OF pend(2) False] others same(2)
      by (simp add: in_table_def)
  qed
  have t: "\<exists>b. task_ok t b \<and> n_conns w' b \<noteq> None" if "t \<in> set (waiting k w')" for t
    using that net_invD(3) [OF inv, of t] pend(2) conns unfolding wt by (cases "t \<in> set ts") (auto, metis option.simps(3))
  have tab: "\<exists>d. n_conns w' b = Some d \<and> c_fd d = fd" if "connections w' fd = Some b" for fd b
    using that net_invD(4) [OF inv, of fd b] conns same(2) by auto
  have fr: "n_conns w' b = None" if "n_fresh w' \<le> b" for b
    using that net_invD(5) [OF inv, of b] R conns by (cases "b = a") auto
  show ?thesis
    using inv c t tab fr poll R pend(1) unfolding net_inv_def by simp
qed

text \<open>Fields that the invariant does not mention.\<close>

lemma handlers_irrelevant [simp]:
  "handlers (w\<lparr>n_log := z1\<rparr>) = handlers w" "handlers (w\<lparr>n_calls := z2\<rparr>) = handlers w" "handlers (w\<lparr>n_eventfd := z3\<rparr>) = handlers w"
  "handlers (w\<lparr>quit := z4\<rparr>) = handlers w" "handlers (w\<lparr>looping := z5\<rparr>) = handlers w" "handlers (w\<lparr>active_handler_list := z6\<rparr>) = handlers w"
  "handlers (w\<lparr>calling_pending_functors := z7\<rparr>) = handlers w" "handlers (w\<lparr>pending_list := z8\<rparr>) = handlers w"
  "handlers (w\<lparr>connections := z9\<rparr>) = handlers w" "handlers (w\<lparr>epoller := z10\<rparr>) = handlers w"
  by (auto simp: handlers_def fun_eq_iff split: haddr.splits)

lemma net_inv_irrelevant [simp]:
  "net_inv k q ph x (w\<lparr>n_log := z1\<rparr>) = net_inv k q ph x w"
  "net_inv k q ph x (w\<lparr>n_calls := z2\<rparr>) = net_inv k q ph x w"
  "net_inv k q ph x (w\<lparr>n_eventfd := z3\<rparr>) = net_inv k q ph x w"
  "net_inv k q ph x (w\<lparr>quit := z4\<rparr>) = net_inv k q ph x w"
  "net_inv k q ph x (w\<lparr>looping := z5\<rparr>) = net_inv k q ph x w"
  "net_inv k q ph x (w\<lparr>active_handler_list := z6\<rparr>) = net_inv k q ph x w"
  "net_inv k q ph x (w\<lparr>calling_pending_functors := z7\<rparr>) = net_inv k q ph x w"
  by (simp_all add: net_inv_def waiting_def in_table_def)

lemma net_inv_emit [simp]: "net_inv k q ph x (emit ev w) = net_inv k q ph x w"
  by (simp add: emit_def)

lemma put_conn_simps [simp]:
  "n_conns (put_conn a c w) = (n_conns w)(a \<mapsto> c)" "epoller (put_conn a c w) = epoller w"
  "pending_list (put_conn a c w) = pending_list w" "connections (put_conn a c w) = connections w"
  "active_handler_list (put_conn a c w) = active_handler_list w" "rest_of (put_conn a c w) = rest_of w"
  "quit (put_conn a c w) = quit w" "n_calls (put_conn a c w) = n_calls w" "n_eventfd (put_conn a c w) = n_eventfd w"
  "n_log (put_conn a c w) = n_log w" "calling_pending_functors (put_conn a c w) = calling_pending_functors w"
  by (simp_all add: put_conn_def)

lemma emit_simps [simp]:
  "n_conns (emit ev w) = n_conns w" "epoller (emit ev w) = epoller w" "pending_list (emit ev w) = pending_list w"
  "connections (emit ev w) = connections w" "active_handler_list (emit ev w) = active_handler_list w"
  "rest_of (emit ev w) = rest_of w" "quit (emit ev w) = quit w" "n_calls (emit ev w) = n_calls w" "n_eventfd (emit ev w) = n_eventfd w"
  "n_log (emit ev w) = n_log w @ [ev]" "calling_pending_functors (emit ev w) = calling_pending_functors w" "handlers (emit ev w) = handlers w"
  by (simp_all add: emit_def)

lemma wakeup_simps [simp]:
  "n_conns (wakeup w) = n_conns w" "epoller (wakeup w) = epoller w" "pending_list (wakeup w) = pending_list w"
  "connections (wakeup w) = connections w" "active_handler_list (wakeup w) = active_handler_list w"
  "rest_of (wakeup w) = rest_of w" "quit (wakeup w) = quit w" "n_calls (wakeup w) = n_calls w" "n_log (wakeup w) = n_log w"
  "calling_pending_functors (wakeup w) = calling_pending_functors w" "handlers (wakeup w) = handlers w"
  "n_eventfd (wakeup w) = Suc (n_eventfd w)" "net_inv k q ph x (wakeup w) = net_inv k q ph x w"
  by (simp_all add: wakeup_def)

lemma get_conn_Some [simp]: "n_conns w a = Some c \<Longrightarrow> get_conn w a = Inr c"
  by (simp add: get_conn_def)

lemma deref_Some [simp]: "n_conns w a = Some c \<Longrightarrow> deref w (Some a) = Inr (a, c)"
  by (simp add: deref_def)

text \<open>A change of one connection that leaves its handler alone and queues nothing.\<close>

lemma net_inv_put:
  assumes inv: "net_inv k q ph x w" and c: "n_conns w a = Some c"
    and c': "c_fd c' = c_fd c" "c_handler c' = c_handler c"
    and ok: "conn_ok q (ph' a) (x' a) a (tasks_on a (waiting k w)) (in_table w a c) c'"
    and others: "\<And>b. b \<noteq> a \<Longrightarrow> ph' b = ph b" "\<And>b. b \<noteq> a \<Longrightarrow> x' b = x b"
  shows "net_inv k q ph' x' (put_conn a c' w)"
proof (rule net_inv_change [OF inv _ c c'(1), where ts = "[]" and ph' = ph' and x' = x'])
  have "handlers (put_conn a c' w) = handlers w" by (rule handlers_same_conn [OF _ _ c c'(2)]) simp_all
  then show "poll_inv (handlers (put_conn a c' w)) (epoller (put_conn a c' w))" using net_invD(6) [OF inv] by simp
qed (use ok others in simp_all)

section \<open>References\<close>

lemma conn_ok_ref:
  assumes "conn_ok q p n a ts tab c"
  shows "conn_ok q p m a ts tab (c\<lparr>c_ref := c_ref c + int m - int n\<rparr>)"
  using assms by (simp add: conn_ok_def)

lemma conn_ref_inc_ok:
  assumes inv: "net_inv k q ph x w" and c: "n_conns w a = Some c"
  shows "conn_ref_inc (Some a) w = Inr (put_conn a (c\<lparr>c_ref := c_ref c + 1\<rparr>) w)"
    and "net_inv k q ph (x(a := Suc (x a))) (put_conn a (c\<lparr>c_ref := c_ref c + 1\<rparr>) w)"
proof -
  show "conn_ref_inc (Some a) w = Inr (put_conn a (c\<lparr>c_ref := c_ref c + 1\<rparr>) w)" using c by (simp add: conn_ref_inc_def)
  show "net_inv k q ph (x(a := Suc (x a))) (put_conn a (c\<lparr>c_ref := c_ref c + 1\<rparr>) w)"
    by (rule net_inv_put [OF inv c]) (use conn_ok_ref [OF net_invD(2) [OF inv c], of "Suc (x a)"] in simp_all)
qed

lemma conn_ref_dec_ok:
  assumes inv: "net_inv k q ph x w" and c: "n_conns w a = Some c" and x: "0 < x a"
    and more: "1 < x a \<or> tasks_on a (waiting k w) \<noteq> [] \<or> in_table w a c"
  shows "conn_ref_dec (Some a) w = Inr (Some a, put_conn a (c\<lparr>c_ref := c_ref c - 1\<rparr>) w)"
    and "net_inv k q ph (x(a := x a - 1)) (put_conn a (c\<lparr>c_ref := c_ref c - 1\<rparr>) w)"
proof -
  note ok = net_invD(2) [OF inv c]
  have "c_ref c = int (length (tasks_on a (waiting k w)) + x a + (if in_table w a c then 1 else 0))" using ok by (simp add: conn_ok_def)
  moreover have "1 < length (tasks_on a (waiting k w)) + x a + (if in_table w a c then 1 else 0)"
    using x more by (cases "tasks_on a (waiting k w)") auto
  ultimately have "c_ref c - 1 \<noteq> 0" by linarith
  then show "conn_ref_dec (Some a) w = Inr (Some a, put_conn a (c\<lparr>c_ref := c_ref c - 1\<rparr>) w)"
    using c by (simp add: conn_ref_dec_def)
  have e: "c_ref c + int (x a - 1) - int (x a) = c_ref c - 1" using x by simp
  show "net_inv k q ph (x(a := x a - 1)) (put_conn a (c\<lparr>c_ref := c_ref c - 1\<rparr>) w)"
    by (rule net_inv_put [OF inv c]) (use conn_ok_ref [OF ok, of "x a - 1"] e in simp_all)
qed

section \<open>Operations of a handler in the heap\<close>

lemma on_handler_conn:
  assumes c: "n_conns w a = Some c" and r: "op (Conn_Handler a) (epoller w) (c_handler c) = (e2, h2)"
  shows "on_handler op (Conn_Handler a) w = Inr ((put_conn a (c\<lparr>c_handler := h2\<rparr>) w)\<lparr>epoller := e2\<rparr>)"
  using c r by (simp add: on_handler_def put_conn_def)

lemma on_handler_update:
  assumes inv: "poll_inv (handlers w) (epoller w)" and c: "n_conns w a = Some c"
    and op: "op (Conn_Handler a) (epoller w) (c_handler c) = update (Conn_Handler a) (epoller w) hn"
    and hn: "h_fd hn = h_fd (c_handler c)" "h_index hn = h_index (c_handler c)"
  obtains e2 h2 where
    "on_handler op (Conn_Handler a) w = Inr ((put_conn a (c\<lparr>c_handler := h2\<rparr>) w)\<lparr>epoller := e2\<rparr>)"
    "h2 = hn\<lparr>add_to_loop := True, h_index := next_index (h_index (c_handler c)) (h_events hn)\<rparr>"
    "poll_inv (handlers ((put_conn a (c\<lparr>c_handler := h2\<rparr>) w)\<lparr>epoller := e2\<rparr>)) e2"
proof -
  obtain e2 h2 where u: "update (Conn_Handler a) (epoller w) hn = (e2, h2)" by force
  have h: "handlers w (Conn_Handler a) = Some (c_handler c)" using c by simp
  note U = update_effect [OF inv h hn u]
  have "handlers ((put_conn a (c\<lparr>c_handler := h2\<rparr>) w)\<lparr>epoller := e2\<rparr>) = (handlers w)(Conn_Handler a \<mapsto> h2)"
    using handlers_conn [of "put_conn a (c\<lparr>c_handler := h2\<rparr>) w" w a "c\<lparr>c_handler := h2\<rparr>"] by simp
  then show thesis using that [OF on_handler_conn [OF c]] op u U by simp
qed

text \<open>The handler that an update leaves behind.\<close>

definition updated :: "handler_cb gp_handler \<Rightarrow> handler_cb gp_handler \<Rightarrow> handler_cb gp_handler" where
  "updated h h1 = h1\<lparr>add_to_loop := True, h_index := next_index (h_index h) (h_events h1)\<rparr>"

lemma updated_simps [simp]:
  "h_fd (updated h h1) = h_fd h1" "h_events (updated h h1) = h_events h1" "h_revents (updated h h1) = h_revents h1"
  "h_index (updated h h1) = next_index (h_index h) (h_events h1)" "wired (updated h h1) = wired h1"
  by (simp_all add: updated_def wired_def)

lemma wired_upd [simp]:
  "wired (h\<lparr>h_events := z1\<rparr>) = wired h" "wired (h\<lparr>h_revents := z2\<rparr>) = wired h" "wired (h\<lparr>h_index := z3\<rparr>) = wired h"
  "wired (h\<lparr>add_to_loop := z4\<rparr>) = wired h" "wired (h\<lparr>event_handling := z5\<rparr>) = wired h"
  by (simp_all add: wired_def)

lemma net_inv_on_handler:
  assumes inv: "net_inv k q ph x w" and c: "n_conns w a = Some c"
    and op: "op (Conn_Handler a) (epoller w) (c_handler c) = update (Conn_Handler a) (epoller w) hn"
    and hn: "h_fd hn = h_fd (c_handler c)" "h_index hn = h_index (c_handler c)"
    and ok: "conn_ok q (ph' a) (x a) a (tasks_on a (waiting k w)) (in_table w a c) (c\<lparr>c_handler := updated (c_handler c) hn\<rparr>)"
    and others: "\<And>b. b \<noteq> a \<Longrightarrow> ph' b = ph b"
  obtains e2 where
    "on_handler op (Conn_Handler a) w = Inr ((put_conn a (c\<lparr>c_handler := updated (c_handler c) hn\<rparr>) w)\<lparr>epoller := e2\<rparr>)"
    "net_inv k q ph' x ((put_conn a (c\<lparr>c_handler := updated (c_handler c) hn\<rparr>) w)\<lparr>epoller := e2\<rparr>)"
proof -
  obtain e2 h2 where o: "on_handler op (Conn_Handler a) w = Inr ((put_conn a (c\<lparr>c_handler := h2\<rparr>) w)\<lparr>epoller := e2\<rparr>)"
    "h2 = updated (c_handler c) hn"
    "poll_inv (handlers ((put_conn a (c\<lparr>c_handler := h2\<rparr>) w)\<lparr>epoller := e2\<rparr>)) e2"
    using on_handler_update [where op = op and w = w and a = a, OF net_invD(6) [OF inv] c op hn] unfolding updated_def by blast
  let ?w = "(put_conn a (c\<lparr>c_handler := updated (c_handler c) hn\<rparr>) w)\<lparr>epoller := e2\<rparr>"
  have "net_inv k q ph' x ?w"
    by (rule net_inv_change [OF inv _ c, where ts = "[]" and c' = "c\<lparr>c_handler := updated (c_handler c) hn\<rparr>"])
      (use ok others o in simp_all)
  then show thesis using that o by simp
qed

section \<open>Calls of the application\<close>

text \<open>What a call of the application leaves as it is.\<close>

definition api_step :: "net \<Rightarrow> net \<Rightarrow> bool" where
  "api_step w w' \<longleftrightarrow>
     rest_of w' = rest_of w \<and> connections w' = connections w \<and> active_handler_list w' = active_handler_list w \<and>
     (\<exists>ts. pending_list w' = pending_list w @ ts) \<and>
     (\<forall>a. map_option (\<lambda>c. (c_fd c, c_state c = K_Disconnected, h_revents (c_handler c))) (n_conns w' a) =
          map_option (\<lambda>c. (c_fd c, c_state c = K_Disconnected, h_revents (c_handler c))) (n_conns w a))"

lemma api_step_refl [simp]: "api_step w w"
  by (simp add: api_step_def)

lemma api_step_trans:
  assumes "api_step w w'" and "api_step w' w''"
  shows "api_step w w''"
proof -
  obtain ts us where "pending_list w' = pending_list w @ ts" "pending_list w'' = pending_list w' @ us"
    using assms unfolding api_step_def by blast
  then have "\<exists>ts. pending_list w'' = pending_list w @ ts" by simp
  then show ?thesis using assms unfolding api_step_def by simp
qed

lemma api_step_dom: "api_step w w' \<Longrightarrow> dom (n_conns w') = dom (n_conns w)"
proof -
  assume s: "api_step w w'"
  have "n_conns w' a = None \<longleftrightarrow> n_conns w a = None" for a
  proof -
    have "map_option (\<lambda>c. (c_fd c, c_state c = K_Disconnected, h_revents (c_handler c))) (n_conns w' a) =
      map_option (\<lambda>c. (c_fd c, c_state c = K_Disconnected, h_revents (c_handler c))) (n_conns w a)"
      using s by (simp add: api_step_def)
    then show ?thesis by (cases "n_conns w a"; cases "n_conns w' a") simp_all
  qed
  then show ?thesis by (auto simp: dom_def)
qed

lemma api_step_conn:
  assumes "api_step w w'" and "n_conns w a = Some c"
  obtains c' where "n_conns w' a = Some c'" "c_fd c' = c_fd c" "c_state c' = K_Disconnected \<longleftrightarrow> c_state c = K_Disconnected"
    "h_revents (c_handler c') = h_revents (c_handler c)"
proof -
  have "map_option (\<lambda>c. (c_fd c, c_state c = K_Disconnected, h_revents (c_handler c))) (n_conns w' a) =
      Some (c_fd c, c_state c = K_Disconnected, h_revents (c_handler c))"
    using assms unfolding api_step_def by simp
  then show thesis using that by (cases "n_conns w' a") auto
qed

lemma api_step_put:
  assumes "n_conns w a = Some c" and "n_conns w' = (n_conns w)(a \<mapsto> c')" and "rest_of w' = rest_of w" and "connections w' = connections w"
    and "active_handler_list w' = active_handler_list w" and "pending_list w' = pending_list w @ ts" and "c_fd c' = c_fd c"
    and "c_state c' = K_Disconnected \<longleftrightarrow> c_state c = K_Disconnected" and "h_revents (c_handler c') = h_revents (c_handler c)"
  shows "api_step w w'"
  using assms by (auto simp: api_step_def)

lemma active_phase:
  assumes "conn_ok q p x a ts tab c" and "c_state c \<noteq> K_Disconnected"
  shows "p = Normal" "tab" "destroy_conn_task a \<notin> set ts" "h_index (c_handler c) = k_added"
    "h_events (c_handler c) AND kread_event = kread_event" "c_state c \<noteq> K_Connecting"
  using assms by (auto simp: conn_ok_def phase_ok_def split: phase.splits)

lemma phase_ok_active:
  assumes "st \<noteq> K_Disconnected" and "st \<noteq> K_Connecting"
  shows "phase_ok q Normal a ts True st h \<longleftrightarrow>
    destroy_conn_task a \<notin> set ts \<and> h_index h = k_added \<and> h_events h AND kread_event = kread_event"
  using assms by (simp add: phase_ok_def)

lemma gp_queue_in_loop_ok:
  assumes inv: "net_inv k q ph x w" and c: "n_conns w a = Some c" and act: "c_state c \<noteq> K_Disconnected"
    and t: "task_ok t a" "t \<noteq> destroy_conn_task a"
  shows "\<exists>w'. gp_queue_in_loop inl t w = Inr w' \<and> net_inv k q ph x w' \<and> api_step w w'"
proof -
  note ok = net_invD(2) [OF inv c] and A = active_phase [OF net_invD(2) [OF inv c] act]
  let ?c = "c\<lparr>c_ref := c_ref c + 1\<rparr>"
  let ?w = "(put_conn a ?c w)\<lparr>pending_list := pending_list w @ [t]\<rparr>"
  have "gp_queue_in_loop inl t w = Inr (if \<not> inl \<or> calling_pending_functors w then wakeup ?w else ?w)"
    using conn_ref_inc_ok(1) [OF inv c] task_ok_conn [OF t(1)] by (simp add: gp_queue_in_loop_def)
  moreover have "net_inv k q ph x ?w"
  proof (rule net_inv_change [OF inv _ c, where ts = "[t]" and c' = ?c])
    have "handlers ?w = handlers w" using handlers_same_conn [of "put_conn a ?c w" w a ?c c] c by simp
    then show "poll_inv (handlers ?w) (epoller ?w)" using net_invD(6) [OF inv] by simp
    show "conn_ok q (ph a) (x a) a (tasks_on a (waiting k w) @ [t]) (in_table w a c) ?c"
      using ok A act t(2) by (auto simp: conn_ok_def phase_ok_active)
  qed (use t in simp_all)
  moreover have "api_step w ?w" by (rule api_step_put [OF c, where ts = "[t]" and c' = ?c]) simp_all
  moreover have "api_step w (wakeup ?w)" by (rule api_step_put [OF c, where ts = "[t]" and c' = ?c]) simp_all
  ultimately show ?thesis by auto
qed

lemma sys_write_effect:
  assumes "sys_write os fd msg w = (r, w1)"
  obtains log where "w1 = w\<lparr>n_calls := n_calls w + 1, n_log := log\<rparr>"
proof (rule that)
  show "w1 = w\<lparr>n_calls := n_calls w + 1, n_log := n_log w1\<rparr>"
    using assms by (auto simp: sys_write_def emit_def Let_def split: sum.splits if_splits)
qed

lemma or_write_read: "(ev OR kwrite_event) AND kread_event = ev AND kread_event"
  by (simp add: kwrite_event_def kread_event_def poll_flags bit.conj_disj_distrib2)

lemma kread_nonzero: "ev AND kread_event = kread_event \<Longrightarrow> ev \<noteq> knone_event"
  by (auto simp: kread_event_def knone_event_def poll_flags)

lemma conn_send_in_loop_ok:
  assumes inv: "net_inv k q ph x w" and c: "n_conns w a = Some c"
  shows "\<exists>w'. conn_send_in_loop os a msg w = Inr w' \<and> net_inv k q ph x w' \<and> api_step w w'"
proof (cases "c_state c = K_Disconnected")
  case True
  then show ?thesis using c inv by (simp add: conn_send_in_loop_def)
next
  case act: False
  obtain nwrote remaining fault w1 where r: "send_directly os c msg w = (nwrote, remaining, fault, w1)"
    by (cases "send_directly os c msg w") auto
  have "\<exists>calls log. w1 = w\<lparr>n_calls := calls, n_log := log\<rparr>"
  proof (cases "\<not> is_writing (c_handler c) \<and> output_buffer c = []")
    case True
    obtain rr ww where s: "sys_write os (h_fd (c_handler c)) msg w = (rr, ww)" by force
    then have "w1 = ww" using r True by (auto simp: send_directly_def split: sum.splits)
    with s show ?thesis by (metis sys_write_effect)
  next
    case False
    then have "w1 = w\<lparr>n_calls := n_calls w, n_log := n_log w\<rparr>" using r by (auto simp: send_directly_def)
    then show ?thesis by blast
  qed
  then obtain calls log where w1: "w1 = w\<lparr>n_calls := calls, n_log := log\<rparr>" by blast
  have inv1: "net_inv k q ph x w1" and c1: "n_conns w1 a = Some c" and s1: "api_step w w1"
    using inv c by (simp_all add: w1 api_step_def)
  have unf: "conn_send_in_loop os a msg w = (if \<not> fault \<and> 0 < remaining then
            (let w2 = put_conn a (c\<lparr>output_buffer := output_buffer c @ take remaining (drop nwrote msg)\<rparr>) w1 in
             if \<not> is_writing (c_handler c) then on_handler enable_writing (Conn_Handler a) w2 else Inr w2)
          else Inr w1)"
    using c act by (simp add: conn_send_in_loop_def r)
  show ?thesis
  proof (cases "\<not> fault \<and> 0 < remaining")
    case True
    let ?c = "c\<lparr>output_buffer := output_buffer c @ take remaining (drop nwrote msg)\<rparr>"
    let ?w2 = "put_conn a ?c w1"
    note ok = net_invD(2) [OF inv1 c1] and A = active_phase [OF net_invD(2) [OF inv1 c1] act]
    have inv2: "net_inv k q ph x ?w2"
      by (rule net_inv_put [OF inv1 c1]) (use ok in \<open>simp_all add: conn_ok_def\<close>)
    have c2: "n_conns ?w2 a = Some ?c" by simp
    have s2: "api_step w ?w2" by (rule api_step_trans [OF s1], rule api_step_put [OF c1, where ts = "[]" and c' = ?c]) simp_all
    show ?thesis
    proof (cases "is_writing (c_handler c)")
      case True
      then show ?thesis using unf \<open>\<not> fault \<and> 0 < remaining\<close> inv2 s2 by simp
    next
      case False
      let ?h1 = "(c_handler c)\<lparr>h_events := h_events (c_handler c) OR kwrite_event\<rparr>"
      have ev: "(h_events (c_handler c) OR kwrite_event) AND kread_event = kread_event" using A(5) or_write_read by simp
      then have ix: "next_index (h_index (c_handler c)) (h_events (c_handler c) OR kwrite_event) = k_added"
        using kread_nonzero by (simp add: next_index_def)
      have "conn_ok q (ph a) (x a) a (tasks_on a (waiting k ?w2)) (in_table ?w2 a ?c) (?c\<lparr>c_handler := updated (c_handler ?c) ?h1\<rparr>)"
        using ok A ev ix act by (simp add: conn_ok_def phase_ok_active waiting_def in_table_def)
      then obtain e2 where o: "on_handler enable_writing (Conn_Handler a) ?w2 =
          Inr ((put_conn a (?c\<lparr>c_handler := updated (c_handler ?c) ?h1\<rparr>) ?w2)\<lparr>epoller := e2\<rparr>)"
        "net_inv k q ph x ((put_conn a (?c\<lparr>c_handler := updated (c_handler ?c) ?h1\<rparr>) ?w2)\<lparr>epoller := e2\<rparr>)"
        using net_inv_on_handler [OF inv2 c2, where op = enable_writing and hn = ?h1 and ph' = ph] by (simp add: enable_writing_def) blast
      have "api_step ?w2 ((put_conn a (?c\<lparr>c_handler := updated (c_handler ?c) ?h1\<rparr>) ?w2)\<lparr>epoller := e2\<rparr>)"
        by (rule api_step_put [OF c2, where ts = "[]" and c' = "?c\<lparr>c_handler := updated (c_handler ?c) ?h1\<rparr>"]) simp_all
      with s2 have "api_step w ((put_conn a (?c\<lparr>c_handler := updated (c_handler ?c) ?h1\<rparr>) ?w2)\<lparr>epoller := e2\<rparr>)" by (rule api_step_trans)
      then show ?thesis using unf \<open>\<not> fault \<and> 0 < remaining\<close> False o by (auto simp: Let_def)
    qed
  next
    case False
    then show ?thesis using inv1 s1 unfolding unf if_not_P [OF False] by blast
  qed
qed

lemma run_in_loop_trans_ok:
  assumes inv: "net_inv k q ph x w" and c: "n_conns w a = Some c" and t: "pt_conn t = Some a" "0 \<in> set (pt_msg t)"
  shows "\<exists>w'. run_in_loop_trans os t w = Inr w' \<and> net_inv k q ph x w' \<and> api_step w w'"
  using conn_send_in_loop_ok [OF inv c, of os "pt_msg t"] c t by (simp add: run_in_loop_trans_def)

lemma run_in_loop_shutdown_ok:
  assumes inv: "net_inv k q ph x w" and c: "n_conns w a = Some c" and t: "pt_conn t = Some a"
  shows "\<exists>w'. run_in_loop_shutdown t w = Inr w' \<and> net_inv k q ph x w' \<and> api_step w w'"
  using inv c t by (simp add: run_in_loop_shutdown_def api_step_def)

lemma conn_ok_state:
  assumes "conn_ok q p x a ts tab c" and "c_state c \<noteq> K_Disconnected"
  shows "conn_ok q p x a ts tab (c\<lparr>c_state := K_Disconnecting\<rparr>)"
  using assms active_phase [OF assms] by (simp add: conn_ok_def phase_ok_def)

text \<open>The state is set to disconnecting.\<close>

lemma set_disconnecting:
  assumes inv: "net_inv k q ph x w" and c: "n_conns w a = Some c" and act: "c_state c \<noteq> K_Disconnected"
  shows "net_inv k q ph x (put_conn a (c\<lparr>c_state := K_Disconnecting\<rparr>) w)"
    and "api_step w (put_conn a (c\<lparr>c_state := K_Disconnecting\<rparr>) w)"
proof -
  show "net_inv k q ph x (put_conn a (c\<lparr>c_state := K_Disconnecting\<rparr>) w)"
    by (rule net_inv_put [OF inv c]) (use conn_ok_state [OF net_invD(2) [OF inv c] act] in simp_all)
  show "api_step w (put_conn a (c\<lparr>c_state := K_Disconnecting\<rparr>) w)"
    by (rule api_step_put [OF c, where ts = "[]" and c' = "c\<lparr>c_state := K_Disconnecting\<rparr>"]) (use act in simp_all)
qed

text \<open>A task that is run at once: the reference taken for it is given back.\<close>

lemma gp_run_in_loop_now:
  assumes inv: "net_inv k q ph x w" and c: "n_conns w a = Some c" and act: "c_state c \<noteq> K_Disconnected"
    and t: "conn_task t" "pt_conn t = Some a"
    and f: "\<And>w1 c1 x. net_inv k q ph x w1 \<Longrightarrow> n_conns w1 a = Some c1 \<Longrightarrow>
      \<exists>w2. func t w1 = Inr w2 \<and> net_inv k q ph x w2 \<and> api_step w1 w2"
  shows "\<exists>w'. gp_run_in_loop func True t w = Inr w' \<and> net_inv k q ph x w' \<and> api_step w w'"
proof -
  let ?w1 = "put_conn a (c\<lparr>c_ref := c_ref c + 1\<rparr>) w"
  note I = conn_ref_inc_ok [OF inv c]
  have s1: "api_step w ?w1" by (rule api_step_put [OF c, where ts = "[]" and c' = "c\<lparr>c_ref := c_ref c + 1\<rparr>"]) simp_all
  obtain w2 where w2: "func t ?w1 = Inr w2" "net_inv k q ph (x(a := Suc (x a))) w2" "api_step ?w1 w2"
    using f [OF I(2)] by auto
  obtain c2 where c2: "n_conns w2 a = Some c2" "c_fd c2 = c_fd c" "c_state c2 = K_Disconnected \<longleftrightarrow> c_state c = K_Disconnected"
    using api_step_conn [OF w2(3), of a "c\<lparr>c_ref := c_ref c + 1\<rparr>"] by auto
  have "in_table w2 a c2" using active_phase(2) [OF net_invD(2) [OF w2(2) c2(1)]] c2(3) act by blast
  then have D: "conn_ref_dec (Some a) w2 = Inr (Some a, put_conn a (c2\<lparr>c_ref := c_ref c2 - 1\<rparr>) w2)"
    "net_inv k q ph x (put_conn a (c2\<lparr>c_ref := c_ref c2 - 1\<rparr>) w2)"
    using conn_ref_dec_ok [OF w2(2) c2(1)] by simp_all
  have "api_step w2 (put_conn a (c2\<lparr>c_ref := c_ref c2 - 1\<rparr>) w2)"
    by (rule api_step_put [OF c2(1), where ts = "[]" and c' = "c2\<lparr>c_ref := c_ref c2 - 1\<rparr>"]) simp_all
  then have "api_step w (put_conn a (c2\<lparr>c_ref := c_ref c2 - 1\<rparr>) w2)" using api_step_trans s1 w2(3) by blast
  then show ?thesis using I(1) w2(1) D t by (auto simp: gp_run_in_loop_def)
qed

lemma tasks_ok:
  "0 \<in> set m \<Longrightarrow> task_ok (create_gp_pending_task GP_RUN_IN_LOOP_TRANS Run_In_Loop_Trans (Some a) m) a"
  "task_ok (create_gp_pending_task GP_RUN_IN_LOOP_CONN Run_In_Loop_Shutdown (Some a) []) a"
  "task_ok (create_gp_pending_task GP_RUN_IN_LOOP_CONN Queue_In_Loop_Force_Close (Some a) []) a"
  "task_ok (destroy_conn_task a) a"
  by (auto simp: task_ok_def)

lemma not_destroy:
  "create_gp_pending_task GP_RUN_IN_LOOP_TRANS Run_In_Loop_Trans p m \<noteq> destroy_conn_task a"
  "create_gp_pending_task GP_RUN_IN_LOOP_CONN Run_In_Loop_Shutdown p m \<noteq> destroy_conn_task a"
  "create_gp_pending_task GP_RUN_IN_LOOP_CONN Queue_In_Loop_Force_Close p m \<noteq> destroy_conn_task a"
  by (simp_all add: create_gp_pending_task_def destroy_conn_task_def)

text \<open>Which calls the application may make: on connections that exist; sent from another thread, a message needs a NUL byte.\<close>

fun api_ok :: "bool \<Rightarrow> net \<Rightarrow> api_call \<Rightarrow> bool" where
  "api_ok inl w (Conn_Send a data) \<longleftrightarrow> a \<in> dom (n_conns w) \<and> (\<not> inl \<longrightarrow> 0 \<in> set data)"
| "api_ok inl w (Conn_Shutdown a) \<longleftrightarrow> a \<in> dom (n_conns w)"
| "api_ok inl w (Conn_Force_Close a) \<longleftrightarrow> a \<in> dom (n_conns w)"
| "api_ok inl w (Conn_Retrieve a n) \<longleftrightarrow> a \<in> dom (n_conns w)"
| "api_ok inl w Gp_Loop_Quit \<longleftrightarrow> True"

lemma api_ok_step: "api_step w w' \<Longrightarrow> api_ok inl w' call \<longleftrightarrow> api_ok inl w call"
  using api_step_dom [of w w'] by (cases call) simp_all

lemma conn_send_ok:
  assumes inv: "net_inv k q ph x w" and c: "n_conns w a = Some c" and d: "\<not> inl \<longrightarrow> 0 \<in> set data"
  shows "\<exists>w'. conn_send os inl a data w = Inr w' \<and> net_inv k q ph x w' \<and> api_step w w'"
proof (cases "c_state c = K_Connected \<and> \<not> inl")
  case True
  let ?t = "create_gp_pending_task GP_RUN_IN_LOOP_TRANS Run_In_Loop_Trans (Some a) data"
  have "c_state c \<noteq> K_Disconnected" using True by simp
  from gp_queue_in_loop_ok [OF inv c this tasks_ok(1) not_destroy(1), of data inl] True d c
  show ?thesis by (simp add: conn_send_def gp_run_in_loop_def)
next
  case False
  then show ?thesis using conn_send_in_loop_ok [OF inv c, of os data] inv c by (auto simp: conn_send_def)
qed

lemma conn_shutdown_ok:
  assumes inv: "net_inv k q ph x w" and c: "n_conns w a = Some c"
  shows "\<exists>w'. conn_shutdown inl a w = Inr w' \<and> net_inv k q ph x w' \<and> api_step w w'"
proof (cases "c_state c = K_Connected")
  case True
  let ?t = "create_gp_pending_task GP_RUN_IN_LOOP_CONN Run_In_Loop_Shutdown (Some a) []"
  let ?c = "c\<lparr>c_state := K_Disconnecting\<rparr>" let ?w = "put_conn a ?c w"
  have act: "c_state c \<noteq> K_Disconnected" using True by simp
  note S = set_disconnecting [OF inv c act]
  have c': "n_conns ?w a = Some ?c" "c_state ?c \<noteq> K_Disconnected" by simp_all
  have t: "conn_task ?t" "pt_conn ?t = Some a" by (simp_all add: conn_task_def create_gp_pending_task_def)
  have "\<exists>w'. gp_run_in_loop run_in_loop_shutdown inl ?t ?w = Inr w' \<and> net_inv k q ph x w' \<and> api_step ?w w'"
  proof (cases inl)
    case True
    then show ?thesis using gp_run_in_loop_now [where func = run_in_loop_shutdown, OF S(1) c' t run_in_loop_shutdown_ok [OF _ _ t(2)]] by simp
  next
    case False
    then show ?thesis using gp_queue_in_loop_ok [OF S(1) c' tasks_ok(2) not_destroy(2), of inl] by (simp add: gp_run_in_loop_def)
  qed
  then obtain w' where w': "gp_run_in_loop run_in_loop_shutdown inl ?t ?w = Inr w'" "net_inv k q ph x w'" "api_step ?w w'" by blast
  have "conn_shutdown inl a w = Inr w'" using True c w'(1) by (simp add: conn_shutdown_def)
  then show ?thesis using w'(2) api_step_trans [OF S(2) w'(3)] by blast
next
  case False
  then show ?thesis using inv c by (simp add: conn_shutdown_def)
qed

lemma conn_force_close_ok:
  assumes inv: "net_inv k q ph x w" and c: "n_conns w a = Some c"
  shows "\<exists>w'. conn_force_close inl a w = Inr w' \<and> net_inv k q ph x w' \<and> api_step w w'"
proof (cases "c_state c = K_Connected \<or> c_state c = K_Disconnecting")
  case True
  let ?c = "c\<lparr>c_state := K_Disconnecting\<rparr>" let ?w = "put_conn a ?c w"
  have act: "c_state c \<noteq> K_Disconnected" using True by auto
  note S = set_disconnecting [OF inv c act]
  have c': "n_conns ?w a = Some ?c" "c_state ?c \<noteq> K_Disconnected" by simp_all
  from gp_queue_in_loop_ok [OF S(1) c' tasks_ok(3) not_destroy(3), of inl]
  obtain w' where w': "gp_queue_in_loop inl (create_gp_pending_task GP_RUN_IN_LOOP_CONN Queue_In_Loop_Force_Close (Some a) []) ?w = Inr w'"
    "net_inv k q ph x w'" "api_step ?w w'" by blast
  have "conn_force_close inl a w = Inr w'" using True c w'(1) by (simp add: conn_force_close_def)
  then show ?thesis using w'(2) api_step_trans [OF S(2) w'(3)] by blast
next
  case False
  then show ?thesis using inv c by (simp add: conn_force_close_def)
qed

lemma conn_retrieve_ok:
  assumes inv: "net_inv k q ph x w" and c: "n_conns w a = Some c"
  shows "net_inv k q ph x (put_conn a (c\<lparr>input_buffer := b\<rparr>) w)" and "api_step w (put_conn a (c\<lparr>input_buffer := b\<rparr>) w)"
proof -
  show "net_inv k q ph x (put_conn a (c\<lparr>input_buffer := b\<rparr>) w)"
    by (rule net_inv_put [OF inv c]) (use net_invD(2) [OF inv c] in \<open>simp_all add: conn_ok_def\<close>)
  show "api_step w (put_conn a (c\<lparr>input_buffer := b\<rparr>) w)"
    by (rule api_step_put [OF c, where ts = "[]" and c' = "c\<lparr>input_buffer := b\<rparr>"]) simp_all
qed

lemma exec_api_ok:
  assumes inv: "net_inv k q ph x w" and ok: "api_ok inl w call"
  shows "\<exists>w'. exec_api os inl call w = Inr w' \<and> net_inv k q ph x w' \<and> api_step w w'"
proof (cases call)
  case (Conn_Send a data)
  then show ?thesis using ok conn_send_ok [OF inv, of a _ inl data os] by auto
next
  case (Conn_Shutdown a)
  then show ?thesis using ok conn_shutdown_ok [OF inv, of a _ inl] by auto
next
  case (Conn_Force_Close a)
  then show ?thesis using ok conn_force_close_ok [OF inv, of a _ inl] by auto
next
  case (Conn_Retrieve a n)
  then show ?thesis using ok conn_retrieve_ok [OF inv, of a] by auto
next
  case Gp_Loop_Quit
  have "api_step w (gp_loop_quit inl w)" "net_inv k q ph x (gp_loop_quit inl w)"
    using inv by (simp_all add: gp_loop_quit_def Let_def api_step_def)
  then show ?thesis using Gp_Loop_Quit by simp
qed

lemma exec_apis_ok:
  assumes "net_inv k q ph x w" and "\<forall>call \<in> set calls. api_ok inl w call"
  shows "\<exists>w'. exec_apis os inl calls w = Inr w' \<and> net_inv k q ph x w' \<and> api_step w w'"
  using assms
proof (induction calls arbitrary: w)
  case (Cons call calls)
  obtain w1 where w1: "exec_api os inl call w = Inr w1" "net_inv k q ph x w1" "api_step w w1"
    using exec_api_ok [OF Cons.prems(1), of inl call os] Cons.prems(2) by auto
  have "\<forall>call \<in> set calls. api_ok inl w1 call" using Cons.prems(2) api_ok_step [OF w1(3)] by simp
  from Cons.IH [OF w1(2) this] w1 show ?case using api_step_trans by fastforce
qed simp

end
