(* ===== verification/Gp_Net_Events.thy ===== *)
theory Gp_Net_Events
  imports Gp_Net_Inv
begin

text \<open>
  Closing, writing, reading and accepting keep the invariant; so does the handling of every event that
  \<open>epoll_wait\<close> may deliver.
\<close>

section \<open>Closing a connection\<close>

text \<open>The contract of the application: its callbacks name connections that exist.\<close>

definition app_ok :: "app \<Rightarrow> bool" where
  "app_ok app \<longleftrightarrow> (\<forall>w a. (\<forall>call \<in> set (app_connection app w a). api_ok True w call) \<and> (\<forall>call \<in> set (app_message app w a). api_ok True w call))"

text \<open>The connections that are not closed; a step that closes those of \<open>D\<close>.\<close>

definition live :: "net \<Rightarrow> nat set" where
  "live w = {a. \<exists>c. n_conns w a = Some c \<and> c_state c \<noteq> K_Disconnected}"

definition cb_step :: "nat set \<Rightarrow> net \<Rightarrow> net \<Rightarrow> bool" where
  "cb_step D w w' \<longleftrightarrow>
     rest_of w' = rest_of w \<and> active_handler_list w' = active_handler_list w \<and> (\<exists>ts. pending_list w' = pending_list w @ ts) \<and>
     (\<forall>a. map_option (\<lambda>c. (c_fd c, h_revents (c_handler c))) (n_conns w' a) =
          map_option (\<lambda>c. (c_fd c, h_revents (c_handler c))) (n_conns w a)) \<and>
     live w' = live w - D"

lemma cb_step_refl: "cb_step {} w w"
  by (simp add: cb_step_def)

lemma cb_step_trans:
  assumes "cb_step D w w'" and "cb_step E w' w''"
  shows "cb_step (D \<union> E) w w''"
proof -
  obtain ts us where "pending_list w' = pending_list w @ ts" "pending_list w'' = pending_list w' @ us"
    using assms unfolding cb_step_def by blast
  then have "\<exists>ts. pending_list w'' = pending_list w @ ts" by simp
  moreover have "live w'' = live w - (D \<union> E)" using assms unfolding cb_step_def by auto
  ultimately show ?thesis using assms unfolding cb_step_def by simp
qed

lemma cb_step_conn:
  assumes "cb_step D w w'" and "n_conns w a = Some c"
  obtains c' where "n_conns w' a = Some c'" "c_fd c' = c_fd c" "h_revents (c_handler c') = h_revents (c_handler c)"
proof -
  have "map_option (\<lambda>c. (c_fd c, h_revents (c_handler c))) (n_conns w' a) = Some (c_fd c, h_revents (c_handler c))"
    using assms unfolding cb_step_def by simp
  then show thesis using that by (cases "n_conns w' a") auto
qed

lemma cb_step_dom: "cb_step D w w' \<Longrightarrow> dom (n_conns w') = dom (n_conns w)"
proof -
  assume s: "cb_step D w w'"
  have "n_conns w' a = None \<longleftrightarrow> n_conns w a = None" for a
  proof -
    have "map_option (\<lambda>c. (c_fd c, h_revents (c_handler c))) (n_conns w' a) = map_option (\<lambda>c. (c_fd c, h_revents (c_handler c))) (n_conns w a)"
      using s by (simp add: cb_step_def)
    then show ?thesis by (cases "n_conns w a"; cases "n_conns w' a") simp_all
  qed
  then show ?thesis by (auto simp: dom_def)
qed

lemma api_step_cb:
  assumes s: "api_step w w'"
  shows "cb_step {} w w'"
proof -
  have e: "map_option (\<lambda>c. (c_fd c, c_state c = K_Disconnected, h_revents (c_handler c))) (n_conns w' a) =
    map_option (\<lambda>c. (c_fd c, c_state c = K_Disconnected, h_revents (c_handler c))) (n_conns w a)" for a
    using s by (simp add: api_step_def)
  have m: "map_option (\<lambda>c. (c_fd c, h_revents (c_handler c))) (n_conns w' a) =
    map_option (\<lambda>c. (c_fd c, h_revents (c_handler c))) (n_conns w a)" for a
    using e [of a] by (cases "n_conns w a"; cases "n_conns w' a") simp_all
  have "a \<in> live w' \<longleftrightarrow> a \<in> live w" for a
    using e [of a] by (cases "n_conns w a"; cases "n_conns w' a") (simp_all add: live_def)
  then have "live w' = live w" by blast
  then show ?thesis using s m unfolding api_step_def cb_step_def by simp
qed

lemma cb_step_put:
  assumes "n_conns w a = Some c" and "n_conns w' = (n_conns w)(a \<mapsto> c')" and "rest_of w' = rest_of w"
    and "active_handler_list w' = active_handler_list w" and "pending_list w' = pending_list w @ ts" and "c_fd c' = c_fd c"
    and "h_revents (c_handler c') = h_revents (c_handler c)"
    and "c_state c' = K_Disconnected \<longleftrightarrow> c_state c = K_Disconnected \<or> D = {a}" and "D = {} \<or> D = {a}"
  shows "cb_step D w w'"
  using assms by (auto simp: cb_step_def live_def)

lemma call_connection_callback_ok:
  assumes app: "app_ok app" and inv: "net_inv k q ph x w" and c: "n_conns w a = Some c"
  shows "\<exists>w'. call_connection_callback os app a w = Inr w' \<and> net_inv k q ph x w' \<and> api_step w w'"
proof -
  let ?w = "emit (On_Connection a (c_state c)) w"
  have s: "api_step w ?w" by (simp add: api_step_def)
  have "\<forall>call \<in> set (app_connection app w a). api_ok True ?w call" using app api_ok_step [OF s] by (simp add: app_ok_def)
  then obtain w' where "exec_apis os True (app_connection app w a) ?w = Inr w'" "net_inv k q ph x w'" "api_step ?w w'"
    using exec_apis_ok [of k q ph x ?w "app_connection app w a" True os] inv by auto
  then show ?thesis using c net_invD(2) [OF inv c] api_step_trans [OF s]
    by (auto simp: call_connection_callback_def conn_ok_def)
qed

lemma call_message_callback_ok:
  assumes app: "app_ok app" and inv: "net_inv k q ph x w" and c: "n_conns w a = Some c"
  shows "\<exists>w'. call_message_callback os app a w = Inr w' \<and> net_inv k q ph x w' \<and> api_step w w'"
proof -
  let ?w = "emit (On_Message a (input_buffer c)) w"
  have s: "api_step w ?w" by (simp add: api_step_def)
  have "\<forall>call \<in> set (app_message app w a). api_ok True ?w call" using app api_ok_step [OF s] by (simp add: app_ok_def)
  then obtain w' where "exec_apis os True (app_message app w a) ?w = Inr w'" "net_inv k q ph x w'" "api_step ?w w'"
    using exec_apis_ok [of k q ph x ?w "app_message app w a" True os] inv by auto
  then show ?thesis using c net_invD(2) [OF inv c] api_step_trans [OF s]
    by (auto simp: call_message_callback_def conn_ok_def)
qed

text \<open>The server's table forgets a connection: the table's reference becomes one of the running function.\<close>

lemma net_inv_untable:
  assumes inv: "net_inv k q ph x w" and c: "n_conns w a = Some c" and ph: "ph a = Closing"
  shows "net_inv k q (ph(a := Leaving)) (x(a := Suc (x a))) (w\<lparr>connections := (connections w)(c_fd c := None)\<rparr>)"
    (is "net_inv k q ?ph ?x ?w")
proof -
  have tab: "connections w (c_fd c) = Some a"
    using net_invD(2) [OF inv c] ph by (simp add: conn_ok_def phase_ok_def in_table_def)
  have "conn_ok q (?ph b) (?x b) b (tasks_on b (waiting k ?w)) (in_table ?w b d) d" if d: "n_conns ?w b = Some d" for b d
  proof (cases "b = a")
    case True
    then have "d = c" using d c by simp
    then show ?thesis using net_invD(2) [OF inv c] True ph by (auto simp: conn_ok_def phase_ok_def in_table_def waiting_def)
  next
    case False
    then have "in_table ?w b d = in_table w b d" using tab by (auto simp: in_table_def)
    then show ?thesis using net_invD(2) [OF inv, of b d] d False by (simp add: waiting_def)
  qed
  then show ?thesis using inv unfolding net_inv_def by (simp add: waiting_def)
qed

text \<open>The destruction is queued.\<close>

lemma queue_destroy_ok:
  assumes inv: "net_inv k q ph x w" and c: "n_conns w a = Some c" and ph: "ph a = Leaving"
  shows "\<exists>w'. gp_queue_in_loop True (destroy_conn_task a) w = Inr w' \<and> net_inv k q (ph(a := Normal)) x w' \<and> api_step w w' \<and>
    pending_list w' = pending_list w @ [destroy_conn_task a]"
proof -
  note ok = net_invD(2) [OF inv c]
  let ?c = "c\<lparr>c_ref := c_ref c + 1\<rparr>"
  let ?w = "(put_conn a ?c w)\<lparr>pending_list := pending_list w @ [destroy_conn_task a]\<rparr>"
  have p: "pt_conn (destroy_conn_task a) = Some a" by (simp add: destroy_conn_task_def create_gp_pending_task_def)
  have "gp_queue_in_loop True (destroy_conn_task a) w = Inr (if calling_pending_functors w then wakeup ?w else ?w)"
    using conn_ref_inc_ok(1) [OF inv c] p by (simp add: gp_queue_in_loop_def)
  moreover have "net_inv k q (ph(a := Normal)) x ?w"
  proof (rule net_inv_change [OF inv _ c, where ts = "[destroy_conn_task a]" and c' = ?c])
    have "handlers ?w = handlers w" using handlers_same_conn [of "put_conn a ?c w" w a ?c c] c by simp
    then show "poll_inv (handlers ?w) (epoller ?w)" using net_invD(6) [OF inv] by simp
    show "conn_ok q ((ph(a := Normal)) a) (x a) a (tasks_on a (waiting k w) @ [destroy_conn_task a]) (in_table w a c) ?c"
      using ok ph by (auto simp: conn_ok_def phase_ok_def)
  qed (use tasks_ok(4) in simp_all)
  moreover have "api_step w ?w" by (rule api_step_put [OF c, where ts = "[destroy_conn_task a]" and c' = ?c]) simp_all
  moreover have "api_step w (wakeup ?w)" by (rule api_step_put [OF c, where ts = "[destroy_conn_task a]" and c' = ?c]) simp_all
  ultimately show ?thesis by auto
qed

lemma put_conn_put_conn [simp]: "put_conn a c (put_conn a d w) = put_conn a c w"
  by (simp add: put_conn_def)

lemma remove_conn_ok:
  assumes inv: "net_inv k q ph x w" and c: "n_conns w a = Some c" and ph: "ph a = Closing" and x: "0 < x a"
  shows "\<exists>w'. remove_conn a w = Inr w' \<and> net_inv k q (ph(a := Normal)) x w' \<and> cb_step {} w w' \<and>
    pending_list w' = pending_list w @ [destroy_conn_task a]"
proof -
  have fd: "h_fd (c_handler c) = c_fd c" using net_invD(2) [OF inv c] by (simp add: conn_ok_def)
  let ?w1 = "w\<lparr>connections := (connections w)(c_fd c := None)\<rparr>"
  let ?L = "ph(a := Leaving)"
  note inv1 = net_inv_untable [OF inv c ph]
  have c1: "n_conns ?w1 a = Some c" using c by simp
  let ?c2 = "c\<lparr>c_ref := c_ref c - 1\<rparr>" let ?w2 = "put_conn a ?c2 ?w1"
  have d: "conn_ref_dec (Some a) ?w1 = Inr (Some a, ?w2)" "net_inv k q ?L x ?w2"
    using conn_ref_dec_ok [OF inv1 c1] x by simp_all
  have c2: "n_conns ?w2 a = Some ?c2" by simp
  let ?c3 = "?c2\<lparr>c_ref := c_ref ?c2 + 1\<rparr>" let ?w3 = "put_conn a ?c3 ?w2"
  note i3 = conn_ref_inc_ok [OF d(2) c2]
  have c3: "n_conns ?w3 a = Some ?c3" by simp
  obtain w4 where w4: "gp_queue_in_loop True (destroy_conn_task a) ?w3 = Inr w4"
    "net_inv k q (?L(a := Normal)) (x(a := Suc (x a))) w4" "api_step ?w3 w4" "pending_list w4 = pending_list ?w3 @ [destroy_conn_task a]"
    using queue_destroy_ok [OF i3(2) c3] by auto
  obtain c4 where c4: "n_conns w4 a = Some c4" using api_step_conn [OF w4(3) c3] by blast
  have "1 < (x(a := Suc (x a))) a" using x by simp
  then have d5: "conn_ref_dec (Some a) w4 = Inr (Some a, put_conn a (c4\<lparr>c_ref := c_ref c4 - 1\<rparr>) w4)"
    "net_inv k q (ph(a := Normal)) x (put_conn a (c4\<lparr>c_ref := c_ref c4 - 1\<rparr>) w4)"
    using conn_ref_dec_ok [OF w4(2) c4] by simp_all
  let ?t = "create_gp_pending_task GP_RUN_IN_LOOP_REMOVE_CONN Run_In_Loop_Remove_Conn (Some a) []"
  have t: "conn_task ?t" "pt_conn ?t = Some a" by (simp_all add: conn_task_def create_gp_pending_task_def)
  have r: "run_in_loop_remove_conn ?t ?w3 = Inr w4"
    using t(2) c3 w4(1) by (simp add: run_in_loop_remove_conn_def destroy_conn_task_def)
  have "gp_run_in_loop run_in_loop_remove_conn True ?t ?w2 = Inr (put_conn a (c4\<lparr>c_ref := c_ref c4 - 1\<rparr>) w4)"
    using t i3(1) r d5(1) by (simp add: gp_run_in_loop_def)
  then have "remove_conn a w = Inr (put_conn a (c4\<lparr>c_ref := c_ref c4 - 1\<rparr>) w4)"
    using c fd d(1) c2 by (simp add: remove_conn_def)
  moreover have "cb_step {} w (put_conn a (c4\<lparr>c_ref := c_ref c4 - 1\<rparr>) w4)"
  proof -
    have "cb_step {} w ?w3" by (rule cb_step_put [OF c, where ts = "[]" and c' = ?c3]) simp_all
    moreover have "cb_step {} w4 (put_conn a (c4\<lparr>c_ref := c_ref c4 - 1\<rparr>) w4)"
      by (rule cb_step_put [OF c4, where ts = "[]" and c' = "c4\<lparr>c_ref := c_ref c4 - 1\<rparr>"]) simp_all
    ultimately show ?thesis using cb_step_trans [OF cb_step_trans [OF _ api_step_cb [OF w4(3)]]] by fastforce
  qed
  ultimately show ?thesis using d5(2) w4(4) by auto
qed


text \<open>A connection that is not closed yet is closed: afterwards its destruction is queued.\<close>

lemma connection_handler_close_ok:
  assumes app: "app_ok app" and inv: "net_inv k q ph x w" and c: "n_conns w a = Some c" and act: "c_state c \<noteq> K_Disconnected"
  shows "\<exists>w'. connection_handler_close os app a w = Inr w' \<and> net_inv k q ph x w' \<and> cb_step {a} w w'"
proof -
  note ok = net_invD(2) [OF inv c] and A = active_phase [OF net_invD(2) [OF inv c] act]
  let ?c1 = "c\<lparr>c_ref := c_ref c + 1\<rparr>" let ?w1 = "put_conn a ?c1 w" let ?x = "x(a := Suc (x a))"
  note i1 = conn_ref_inc_ok [OF inv c]
  have c1: "n_conns ?w1 a = Some ?c1" by simp
  let ?d = "?c1\<lparr>c_state := K_Disconnected\<rparr>" let ?v = "put_conn a ?d w"
  let ?h = "(c_handler c)\<lparr>h_events := knone_event\<rparr>" let ?c2 = "?d\<lparr>c_handler := updated (c_handler c) ?h\<rparr>"
  have "handlers ?v = handlers w" using handlers_same_conn [of ?v w a ?d c] c by simp
  then have pv: "poll_inv (handlers ?v) (epoller ?v)" using net_invD(6) [OF inv] by simp
  have cv: "n_conns ?v a = Some ?d" by simp
  obtain e2 where o: "on_handler disable_all (Conn_Handler a) ?v = Inr ((put_conn a ?c2 ?v)\<lparr>epoller := e2\<rparr>)"
    "poll_inv (handlers ((put_conn a ?c2 ?v)\<lparr>epoller := e2\<rparr>)) e2"
    using on_handler_update [where op = disable_all and w = ?v and a = a and hn = ?h, OF pv cv]
    unfolding disable_all_def updated_def by auto
  let ?w2 = "(put_conn a ?c2 w)\<lparr>epoller := e2\<rparr>"
  have ix: "next_index (h_index (c_handler c)) knone_event = k_deleted" using A(4) by (simp add: next_index_def)
  have inv2: "net_inv k q (ph(a := Closing)) ?x ?w2"
  proof (rule net_inv_change [OF i1(2) _ c1, where ts = "[]" and c' = ?c2])
    show "conn_ok q ((ph(a := Closing)) a) (?x a) a (tasks_on a (waiting k ?w1) @ []) (in_table ?w1 a ?c1) ?c2"
      using ok A ix by (simp add: conn_ok_def phase_ok_def waiting_def in_table_def)
  qed (use o(2) in simp_all)
  have c2: "n_conns ?w2 a = Some ?c2" by simp
  have s2: "cb_step {a} w ?w2" by (rule cb_step_put [OF c, where ts = "[]" and c' = ?c2]) simp_all
  obtain w3 where w3: "call_connection_callback os app a ?w2 = Inr w3" "net_inv k q (ph(a := Closing)) ?x w3" "api_step ?w2 w3"
    using call_connection_callback_ok [OF app inv2 c2] by blast
  obtain c3 where c3: "n_conns w3 a = Some c3" using api_step_conn [OF w3(3) c2] by blast
  have cb: "c_close_callback c3" using net_invD(2) [OF w3(2) c3] by (simp add: conn_ok_def)
  obtain w4 where w4: "remove_conn a w3 = Inr w4" "net_inv k q ph ?x w4" "cb_step {} w3 w4" "pending_list w4 = pending_list w3 @ [destroy_conn_task a]"
    using remove_conn_ok [OF w3(2) c3] A(1) by (auto simp: fun_upd_idem)
  obtain c4 where c4: "n_conns w4 a = Some c4" using cb_step_conn [OF w4(3) c3] by blast
  have "tasks_on a (waiting k w4) \<noteq> []"
    using w4(4) net_invD(1) [OF w3(2)] by (simp add: waiting_def destroy_conn_task_def create_gp_pending_task_def)
  then have d: "conn_ref_dec (Some a) w4 = Inr (Some a, put_conn a (c4\<lparr>c_ref := c_ref c4 - 1\<rparr>) w4)"
    "net_inv k q ph x (put_conn a (c4\<lparr>c_ref := c_ref c4 - 1\<rparr>) w4)"
    using conn_ref_dec_ok [OF w4(2) c4] by simp_all
  have "connection_handler_close os app a w = Inr (put_conn a (c4\<lparr>c_ref := c_ref c4 - 1\<rparr>) w4)"
    using i1(1) o(1) w3(1) c3 cb w4(1) d(1) by (simp add: connection_handler_close_def)
  moreover have "cb_step {} w4 (put_conn a (c4\<lparr>c_ref := c_ref c4 - 1\<rparr>) w4)"
    by (rule cb_step_put [OF c4, where ts = "[]" and c' = "c4\<lparr>c_ref := c_ref c4 - 1\<rparr>"]) simp_all
  ultimately show ?thesis
    using d(2) cb_step_trans [OF cb_step_trans [OF cb_step_trans [OF s2 api_step_cb [OF w3(3)]] w4(3)]] by fastforce
qed

section \<open>Reading and writing\<close>

lemma and_not_write_read: "(ev AND NOT kwrite_event) AND kread_event = ev AND kread_event"
proof -
  have "NOT kwrite_event AND kread_event = kread_event" by (simp add: kwrite_event_def kread_event_def poll_flags)
  then show ?thesis by (simp add: and.assoc)
qed

lemma net_inv_loud: "net_inv k q ph x w \<Longrightarrow> net_inv k False ph x w"
  unfolding net_inv_def conn_ok_def phase_ok_def by (auto split: phase.splits if_splits)

lemma connection_handler_write_ok:
  assumes inv: "net_inv k False ph x w" and c: "n_conns w a = Some c" and ph: "ph a = Normal"
  shows "\<exists>w'. connection_handler_write os a w = Inr w' \<and> net_inv k False ph x w' \<and> api_step w w'"
proof -
  obtain r w1 where s: "sys_write os (h_fd (c_handler c)) (output_buffer c) w = (r, w1)" by force
  obtain log where w1: "w1 = w\<lparr>n_calls := n_calls w + 1, n_log := log\<rparr>" using sys_write_effect [OF s] by blast
  have inv1: "net_inv k False ph x w1" and c1: "n_conns w1 a = Some c" and s1: "api_step w w1"
    using inv c by (simp_all add: w1 api_step_def)
  define left where "left = (case r of Inl e \<Rightarrow> [] | Inr n \<Rightarrow> drop n (output_buffer c))"
  let ?c = "c\<lparr>output_buffer := left\<rparr>" let ?w2 = "put_conn a ?c w1"
  note ok = net_invD(2) [OF inv1 c1]
  have inv2: "net_inv k False ph x ?w2" by (rule net_inv_put [OF inv1 c1]) (use ok in \<open>simp_all add: conn_ok_def\<close>)
  have c2: "n_conns ?w2 a = Some ?c" by simp
  have s2: "api_step w ?w2"
    by (rule api_step_trans [OF s1], rule api_step_put [OF c1, where ts = "[]" and c' = ?c]) simp_all
  let ?h = "(c_handler c)\<lparr>h_events := h_events (c_handler c) AND NOT kwrite_event\<rparr>"
  have "conn_ok False (ph a) (x a) a (tasks_on a (waiting k ?w2)) (in_table ?w2 a ?c) (?c\<lparr>c_handler := updated (c_handler ?c) ?h\<rparr>)"
  proof (cases "c_state c = K_Disconnected")
    case True
    then show ?thesis using ok ph by (simp add: conn_ok_def phase_ok_def waiting_def in_table_def)
  next
    case False
    note A = active_phase [OF ok False]
    have ev: "(h_events (c_handler c) AND NOT kwrite_event) AND kread_event = kread_event" using A(5) and_not_write_read by simp
    then have "next_index (h_index (c_handler c)) (h_events (c_handler c) AND NOT kwrite_event) = k_added"
      using kread_nonzero by (simp add: next_index_def)
    then show ?thesis using ok A ev False by (simp add: conn_ok_def phase_ok_active waiting_def in_table_def)
  qed
  then obtain e2 where o: "on_handler disable_writing (Conn_Handler a) ?w2 =
      Inr ((put_conn a (?c\<lparr>c_handler := updated (c_handler ?c) ?h\<rparr>) ?w2)\<lparr>epoller := e2\<rparr>)"
    "net_inv k False ph x ((put_conn a (?c\<lparr>c_handler := updated (c_handler ?c) ?h\<rparr>) ?w2)\<lparr>epoller := e2\<rparr>)"
    using net_inv_on_handler [OF inv2 c2, where op = disable_writing and hn = ?h and ph' = ph] by (simp add: disable_writing_def) blast
  let ?w3 = "(put_conn a (?c\<lparr>c_handler := updated (c_handler ?c) ?h\<rparr>) ?w2)\<lparr>epoller := e2\<rparr>"
  have "api_step ?w2 ?w3"
    by (rule api_step_put [OF c2, where ts = "[]" and c' = "?c\<lparr>c_handler := updated (c_handler ?c) ?h\<rparr>"]) simp_all
  with s2 have s3: "api_step w ?w3" by (rule api_step_trans)
  have s4: "api_step w (emit ev ?w3)" for ev by (rule api_step_trans [OF s3]) (simp add: api_step_def)
  have unf: "connection_handler_write os a w = (if r = Inr 0 then Inr w1 else if left = [] then
      bindE (on_handler disable_writing (Conn_Handler a) ?w2) (\<lambda>w3.
        Inr (if c_state c = K_Disconnecting then emit (Shutdown_Wr (h_fd (c_handler c))) w3 else w3)) else Inr ?w2)"
    using c s unfolding connection_handler_write_def left_def by (simp add: Let_def)
  show ?thesis
  proof (cases "r = Inr 0")
    case True
    then show ?thesis using unf inv1 s1 by auto
  next
    case r: False
    show ?thesis
    proof (cases "left = []")
      case True
      then have "connection_handler_write os a w =
          Inr (if c_state c = K_Disconnecting then emit (Shutdown_Wr (h_fd (c_handler c))) ?w3 else ?w3)"
        using unf r o(1) by simp
      then show ?thesis using o(2) s3 s4 by (auto simp del: put_conn_put_conn)
    next
      case False
      then show ?thesis using unf r inv2 s2 by auto
    qed
  qed
qed

lemma connection_handler_read_ok:
  assumes app: "app_ok app" and inv: "net_inv k q ph x w" and c: "n_conns w a = Some c" and act: "c_state c \<noteq> K_Disconnected"
  shows "\<exists>w' D. connection_handler_read os app a w = Inr w' \<and> net_inv k q ph x w' \<and> cb_step D w w' \<and> D \<subseteq> {a}"
proof -
  let ?r = "os_read os (n_calls w) (h_fd (c_handler c))" let ?w1 = "w\<lparr>n_calls := n_calls w + 1\<rparr>"
  have inv1: "net_inv k q ph x ?w1" and c1: "n_conns ?w1 a = Some c" and s1: "api_step w ?w1"
    using inv c by (simp_all add: api_step_def)
  show ?thesis
  proof (cases "?r = Inr []")
    case True
    obtain w' where w': "connection_handler_close os app a ?w1 = Inr w'" "net_inv k q ph x w'" "cb_step {a} ?w1 w'"
      using connection_handler_close_ok [OF app inv1 c1 act] by blast
    have "cb_step ({} \<union> {a}) w w'" by (rule cb_step_trans [OF api_step_cb [OF s1] w'(3)])
    moreover have "connection_handler_read os app a w = Inr w'" using c True w'(1) by (simp add: connection_handler_read_def)
    ultimately show ?thesis using w'(2) by (intro exI [of _ w'] exI [of _ "{a}"]) simp
  next
    case False
    define b where "b = input_buffer c @ (case ?r of Inl e \<Rightarrow> [] | Inr bs \<Rightarrow> bs)"
    let ?c2 = "c\<lparr>input_buffer := b\<rparr>" let ?w2 = "put_conn a ?c2 ?w1"
    note R = conn_retrieve_ok [OF inv1 c1, of b]
    have c2: "n_conns ?w2 a = Some ?c2" by simp
    note i3 = conn_ref_inc_ok [OF R(1) c2]
    let ?c3 = "?c2\<lparr>c_ref := c_ref ?c2 + 1\<rparr>" let ?w3 = "put_conn a ?c3 ?w2"
    have c3: "n_conns ?w3 a = Some ?c3" by simp
    obtain w4 where w4: "call_message_callback os app a ?w3 = Inr w4" "net_inv k q ph (x(a := Suc (x a))) w4" "api_step ?w3 w4"
      using call_message_callback_ok [OF app i3(2) c3] by blast
    obtain c4 where c4: "n_conns w4 a = Some c4" "c_state c4 = K_Disconnected \<longleftrightarrow> c_state ?c3 = K_Disconnected"
      using api_step_conn [OF w4(3) c3] by blast
    have "in_table w4 a c4" using active_phase(2) [OF net_invD(2) [OF w4(2) c4(1)]] c4(2) act by simp
    then have d: "conn_ref_dec (Some a) w4 = Inr (Some a, put_conn a (c4\<lparr>c_ref := c_ref c4 - 1\<rparr>) w4)"
      "net_inv k q ph x (put_conn a (c4\<lparr>c_ref := c_ref c4 - 1\<rparr>) w4)"
      using conn_ref_dec_ok [OF w4(2) c4(1)] by simp_all
    have "connection_handler_read os app a w = Inr (put_conn a (c4\<lparr>c_ref := c_ref c4 - 1\<rparr>) w4)"
      using c False i3(1) w4(1) d(1) unfolding connection_handler_read_def b_def by (simp add: Let_def)
    moreover have "api_step w (put_conn a (c4\<lparr>c_ref := c_ref c4 - 1\<rparr>) w4)"
    proof -
      have "api_step ?w2 ?w3" by (rule api_step_put [OF c2, where ts = "[]" and c' = ?c3]) simp_all
      moreover have "api_step w4 (put_conn a (c4\<lparr>c_ref := c_ref c4 - 1\<rparr>) w4)"
        by (rule api_step_put [OF c4(1), where ts = "[]" and c' = "c4\<lparr>c_ref := c_ref c4 - 1\<rparr>"]) simp_all
      ultimately show ?thesis using s1 R(2) w4(3) by (blast intro: api_step_trans)
    qed
    ultimately show ?thesis using d(2) api_step_cb by blast
  qed
qed

section \<open>Accepting a connection\<close>

lemma poll_inv_new:
  assumes "poll_inv hs e" and "hs p = None" and "h_index h = k_new" and "\<And>q g. hs q = Some g \<Longrightarrow> h_fd g \<noteq> h_fd h"
  shows "poll_inv (hs(p \<mapsto> h)) e"
proof (rule poll_invI)
  note D = poll_invD [OF assms(1)]
  fix q g assume q: "(hs(p \<mapsto> h)) q = Some g"
  show "h_index g \<in> {k_new, k_added, k_deleted}" using q D(1) [of q g] assms(3) by (cases "q = p") auto
  show "h_index g = k_added \<Longrightarrow> ep_interest e (h_fd g) = Some (h_events g, q)"
    using q D(2) [of q g] assms(3) by (cases "q = p") auto
next
  fix fd ev q assume "ep_interest e fd = Some (ev, q)"
  then obtain g where "hs q = Some g" "h_fd g = fd" "h_index g = k_added" using poll_invD(3) [OF assms(1)] by blast
  then show "\<exists>g. (hs(p \<mapsto> h)) q = Some g \<and> h_fd g = fd \<and> h_index g = k_added" using assms(2) by auto
next
  fix q r g g' assume "(hs(p \<mapsto> h)) q = Some g" "(hs(p \<mapsto> h)) r = Some g'" "h_fd g = h_fd g'"
  then show "q = r" using poll_invD(4) [OF assms(1), of q g r g'] assms(4) [of q g] assms(4) [of r g'] by (auto split: if_splits)
qed

text \<open>The descriptor is not in use.\<close>

definition unused_fd :: "net \<Rightarrow> u32 \<Rightarrow> bool" where
  "unused_fd w fd \<longleftrightarrow>
     (\<forall>a c. n_conns w a = Some c \<longrightarrow> c_fd c \<noteq> fd) \<and> h_fd (wakeup_handler w) \<noteq> fd \<and>
     (n_listen_open w \<longrightarrow> h_fd (accept_handler (acceptor w)) \<noteq> fd)"

lemma unused_handlers:
  assumes inv: "net_inv k q ph x w" and "unused_fd w fd" and "handlers w p = Some h"
  shows "h_fd h \<noteq> fd"
proof (cases p)
  case (Conn_Handler a)
  then obtain c where c: "n_conns w a = Some c" "h = c_handler c" using assms(3) by auto
  then show ?thesis using net_invD(2) [OF inv c(1)] assms(2) by (simp add: conn_ok_def unused_fd_def)
qed (use assms(2,3) in \<open>auto simp: handlers_def unused_fd_def split: if_splits\<close>)

lemma unused_connections:
  assumes inv: "net_inv k q ph x w" and "unused_fd w fd"
  shows "connections w fd = None"
  using net_invD(4) [OF inv, of fd] assms(2) by (cases "connections w fd") (auto simp: unused_fd_def)

text \<open>A new connection, set up and connected, enters the heap and the table.\<close>

lemma net_inv_new:
  assumes inv: "net_inv k q ph x w" and a: "a = n_fresh w" and ph: "ph a = Normal"
    and fd: "connections w (c_fd c) = None"
    and w': "n_conns w' = (n_conns w)(a \<mapsto> c)" "pending_list w' = pending_list w"
      "connections w' = (connections w)(c_fd c \<mapsto> a)" "n_fresh w' = Suc a" "n_listen_open w' = n_listen_open w"
      "acceptor w' = acceptor w" "wakeup_handler w' = wakeup_handler w" "s_connection_callback w' = s_connection_callback w"
      "s_message_callback w' = s_message_callback w"
    and poll: "poll_inv (handlers w') (epoller w')"
    and ok: "conn_ok q Normal n a [] True c"
  shows "net_inv k q ph (x(a := n)) w'"
proof -
  have none: "n_conns w a = None" using net_invD(5) [OF inv] a by simp
  have wt: "waiting k w' = waiting k w" by (simp add: waiting_def w')
  have ts: "tasks_on a (waiting k w) = []"
    using net_invD(3) [OF inv] none task_ok_conn by (fastforce simp: tasks_on_def filter_empty_conv)
  have "conn_ok q (ph b) ((x(a := n)) b) b (tasks_on b (waiting k w')) (in_table w' b d) d" if d: "n_conns w' b = Some d" for b d
  proof (cases "b = a")
    case True
    then show ?thesis using d ok ph ts by (simp add: w' wt in_table_def)
  next
    case False
    then have d': "n_conns w b = Some d" using d by (simp add: w')
    have "in_table w' b d = in_table w b d" using False fd by (auto simp: in_table_def w')
    then show ?thesis using net_invD(2) [OF inv d'] False by (simp add: wt)
  qed
  moreover have "\<exists>b. task_ok t b \<and> n_conns w' b \<noteq> None" if "t \<in> set (waiting k w')" for t
    using net_invD(3) [OF inv, of t] that by (auto simp: wt w')
  moreover have "\<exists>d. n_conns w' b = Some d \<and> c_fd d = f" if "connections w' f = Some b" for f b
    using net_invD(4) [OF inv, of f b] that none by (auto simp: w' split: if_splits)
  moreover have "n_conns w' b = None" if "n_fresh w' \<le> b" for b
    using net_invD(5) [OF inv, of b] that a by (simp add: w')
  ultimately show ?thesis using inv poll unfolding net_inv_def by (simp add: w')
qed

lemma or_read_read: "(ev OR kread_event) AND kread_event = kread_event"
  by (simp add: bit.conj_disj_distrib2)

text \<open>The connection that \<open>new_connection_callback\<close> hands to the application.\<close>

definition fresh_conn :: "net \<Rightarrow> u32 \<Rightarrow> gp_connection" where
  "fresh_conn w fd =
     (let c = conn_set_callbacks w (init_gp_connection fd); h = c_handler c in
      c\<lparr>c_ref := 3, c_state := K_Connected, c_handler := updated h (h\<lparr>h_events := h_events h OR kread_event\<rparr>)\<rparr>)"

lemma fresh_conn_ok: "s_connection_callback w \<Longrightarrow> s_message_callback w \<noteq> None \<Longrightarrow> conn_ok q Normal 2 a [] True (fresh_conn w fd)"
  by (simp add: fresh_conn_def conn_ok_def phase_ok_def Let_def conn_set_callbacks_def init_gp_connection_def wired_def init_gp_handler_def
      set_read_callback_def set_write_callback_def set_close_callback_def set_error_callback_def next_index_def k_added_def kread_event_def
      poll_flags knone_event_def updated_def)

lemma fresh_conn_fd [simp]: "c_fd (fresh_conn w fd) = fd"
  by (simp add: fresh_conn_def conn_set_callbacks_def init_gp_connection_def Let_def)

lemma put_conn_get [simp]:
  "get_conn (put_conn a c w) a = Inr c" "deref (put_conn a c w) (Some a) = Inr (a, c)"
  "conn_ref_inc (Some a) (put_conn a c w) = Inr (put_conn a (c\<lparr>c_ref := c_ref c + 1\<rparr>) w)"
  by (simp_all add: conn_ref_inc_def)

lemma new_connection_established:
  assumes inv: "net_inv k q ph x w" and ph: "ph (n_fresh w) = Normal" and fd: "unused_fd w fd"
  shows "\<exists>e2. net_inv k q ph (x(n_fresh w := 2))
      ((put_conn (n_fresh w) (fresh_conn w fd) w)\<lparr>n_fresh := Suc (n_fresh w), connections := (connections w)(fd \<mapsto> n_fresh w), epoller := e2\<rparr>) \<and>
    new_connection_callback os app fd w =
      bindE (bindE (call_connection_callback os app (n_fresh w)
        ((put_conn (n_fresh w) (fresh_conn w fd) w)\<lparr>n_fresh := Suc (n_fresh w), connections := (connections w)(fd \<mapsto> n_fresh w), epoller := e2\<rparr>))
        (\<lambda>w2. bindE (conn_ref_dec (Some (n_fresh w)) w2) (\<lambda>(p, w3). Inr w3)))
        (\<lambda>w4. bindE (conn_ref_dec (Some (n_fresh w)) w4) (\<lambda>(p, w5). Inr w5))"
proof -
  let ?a = "n_fresh w"
  have none: "n_conns w ?a = None" by (rule net_invD(5) [OF inv]) simp
  have cn: "connections w fd = None" by (rule unused_connections [OF inv fd])
  let ?b = "w\<lparr>n_fresh := Suc ?a, connections := (connections w)(fd \<mapsto> ?a)\<rparr>"
  let ?c = "(conn_set_callbacks w (init_gp_connection fd))\<lparr>c_ref := 3, c_state := K_Connected\<rparr>"
  let ?v = "put_conn ?a ?c ?b"
  let ?h = "c_handler ?c" let ?hn = "?h\<lparr>h_events := h_events ?h OR kread_event\<rparr>"
  have h: "h_index ?h = k_new" "h_fd ?h = fd"
    by (simp_all add: conn_set_callbacks_def init_gp_connection_def init_gp_handler_def set_read_callback_def set_write_callback_def
        set_close_callback_def set_error_callback_def k_new_def)
  have hv: "handlers ?v = (handlers w)(Conn_Handler ?a \<mapsto> ?h)"
    by (auto simp: handlers_def fun_eq_iff put_conn_def split: haddr.splits)
  have "poll_inv (handlers ?v) (epoller ?v)"
    unfolding hv using poll_inv_new [OF net_invD(6) [OF inv], of "Conn_Handler ?a" ?h] none h unused_handlers [OF inv fd] by auto
  moreover have cv: "n_conns ?v ?a = Some ?c" by simp
  moreover have "enable_reading (Conn_Handler ?a) (epoller ?v) (c_handler ?c) = update (Conn_Handler ?a) (epoller ?v) ?hn"
    by (simp add: enable_reading_def)
  ultimately obtain e2 where o: "on_handler enable_reading (Conn_Handler ?a) ?v =
      Inr ((put_conn ?a (?c\<lparr>c_handler := updated ?h ?hn\<rparr>) ?v)\<lparr>epoller := e2\<rparr>)"
    "poll_inv (handlers ((put_conn ?a (?c\<lparr>c_handler := updated ?h ?hn\<rparr>) ?v)\<lparr>epoller := e2\<rparr>)) e2"
    using on_handler_update [where op = enable_reading and w = ?v and a = ?a and c = ?c and hn = ?hn] unfolding updated_def by auto
  let ?u = "(put_conn ?a (fresh_conn w fd) w)\<lparr>n_fresh := Suc ?a, connections := (connections w)(fd \<mapsto> ?a), epoller := e2\<rparr>"
  have u: "(put_conn ?a (?c\<lparr>c_handler := updated ?h ?hn\<rparr>) ?v)\<lparr>epoller := e2\<rparr> = ?u"
    by (simp add: put_conn_def fresh_conn_def Let_def)
  have cb: "s_connection_callback w" "s_message_callback w \<noteq> None" using inv by (simp_all add: net_inv_def)
  have "net_inv k q ph (x(?a := 2)) ?u"
  proof (rule net_inv_new [OF inv refl ph, where c = "fresh_conn w fd" and n = 2])
    show "poll_inv (handlers ?u) (epoller ?u)" using o(2) unfolding u by simp
  qed (use fresh_conn_ok [OF cb] cn in \<open>simp_all add: put_conn_def\<close>)
  moreover have "new_connection_callback os app fd w =
      bindE (bindE (call_connection_callback os app ?a ?u) (\<lambda>w2. bindE (conn_ref_dec (Some ?a) w2) (\<lambda>(p, w3). Inr w3)))
        (\<lambda>w4. bindE (conn_ref_dec (Some ?a) w4) (\<lambda>(p, w5). Inr w5))"
  proof -
    let ?t = "create_gp_pending_task GP_RUN_IN_LOOP_CONN Run_In_Loop_Create_Conn (Some ?a) []"
    let ?i = "init_gp_connection fd"
    let ?s = "conn_set_callbacks w (?i\<lparr>c_ref := 2\<rparr>)"
    have w2: "(let w1 = (put_conn ?a ?i w)\<lparr>n_fresh := ?a + 1\<rparr> in
        if connections w1 fd = None then w1\<lparr>connections := (connections w1)(fd \<mapsto> ?a)\<rparr> else w1) = put_conn ?a ?i ?b"
      using cn by (simp add: put_conn_def)
    have i: "c_ref ?i = 1" by (simp add: init_gp_connection_def)
    have s: "conn_set_callbacks (put_conn ?a z ?b) y = conn_set_callbacks w y" for y z by (simp add: conn_set_callbacks_def put_conn_def)
    have t: "conn_task ?t" "pt_conn ?t = Some ?a" by (simp_all add: conn_task_def create_gp_pending_task_def)
    have r: "c_ref ?s = 2" by (simp add: conn_set_callbacks_def)
    have c: "?s\<lparr>c_ref := 3, c_state := K_Connected\<rparr> = ?c" by (simp add: conn_set_callbacks_def)
    have "gp_run_in_loop (run_in_loop_create_conn os app) True ?t (put_conn ?a ?s ?b) =
        bindE (call_connection_callback os app ?a ?u) (\<lambda>w2. bindE (conn_ref_dec (Some ?a) w2) (\<lambda>(p, w3). Inr w3))"
      using t r c o(1) u by (simp add: gp_run_in_loop_def run_in_loop_create_conn_def connection_established_def)
    then show ?thesis using w2 i s by (simp add: new_connection_callback_def Let_def)
  qed
  ultimately show ?thesis by blast
qed

section \<open>Handling the events of one handler\<close>

text \<open>Between callbacks: no function holds a reference, no connection is on its way out.\<close>

definition net_idle :: "bool \<Rightarrow> net \<Rightarrow> bool" where
  "net_idle q w \<longleftrightarrow> net_inv 0 q (\<lambda>_. Normal) (\<lambda>_. 0) w"

text \<open>
  What handling events leaves as it is: connections stay in the heap with their descriptors and received events,
  only those of \<open>S\<close> are closed, only the acceptor of \<open>S\<close> is.
\<close>

definition ev_step :: "haddr set \<Rightarrow> net \<Rightarrow> net \<Rightarrow> bool" where
  "ev_step S w w' \<longleftrightarrow>
     (\<forall>b c. n_conns w b = Some c \<longrightarrow>
        (\<exists>c'. n_conns w' b = Some c' \<and> c_fd c' = c_fd c \<and> h_revents (c_handler c') = h_revents (c_handler c))) \<and>
     (\<forall>b \<in> live w. Conn_Handler b \<in> S \<or> b \<in> live w') \<and>
     h_revents (accept_handler (acceptor w')) = h_revents (accept_handler (acceptor w)) \<and>
     h_revents (wakeup_handler w') = h_revents (wakeup_handler w) \<and>
     h_fd (accept_handler (acceptor w')) = h_fd (accept_handler (acceptor w)) \<and> h_fd (wakeup_handler w') = h_fd (wakeup_handler w) \<and>
     (Accept_Handler \<in> S \<or> dom (n_conns w') = dom (n_conns w)) \<and>
     (Accept_Handler \<in> S \<or> n_listen_open w' = n_listen_open w) \<and>
     active_handler_list w' = active_handler_list w \<and> calling_pending_functors w' = calling_pending_functors w \<and>
     (\<exists>ts. pending_list w' = pending_list w @ ts)"

lemma ev_step_refl [simp]: "ev_step S w w"
  by (auto simp: ev_step_def)

lemma ev_stepD:
  assumes "ev_step S w w'"
  shows "n_conns w b = Some c \<Longrightarrow> \<exists>c'. n_conns w' b = Some c' \<and> c_fd c' = c_fd c \<and> h_revents (c_handler c') = h_revents (c_handler c)"
    and "b \<in> live w \<Longrightarrow> Conn_Handler b \<in> S \<or> b \<in> live w'"
    and "h_revents (accept_handler (acceptor w')) = h_revents (accept_handler (acceptor w))"
    and "h_revents (wakeup_handler w') = h_revents (wakeup_handler w)"
    and "Accept_Handler \<in> S \<or> n_listen_open w' = n_listen_open w"
    and "active_handler_list w' = active_handler_list w" and "calling_pending_functors w' = calling_pending_functors w"
    and "\<exists>ts. pending_list w' = pending_list w @ ts"
    and "h_fd (accept_handler (acceptor w')) = h_fd (accept_handler (acceptor w))" and "h_fd (wakeup_handler w') = h_fd (wakeup_handler w)"
    and "Accept_Handler \<in> S \<or> dom (n_conns w') = dom (n_conns w)"
  using assms unfolding ev_step_def by simp_all

lemma ev_step_trans:
  assumes "ev_step S w w'" and "ev_step S w' w''"
  shows "ev_step S w w''"
proof -
  note A = ev_stepD [OF assms(1)] and B = ev_stepD [OF assms(2)]
  have "\<exists>c''. n_conns w'' b = Some c'' \<and> c_fd c'' = c_fd c \<and> h_revents (c_handler c'') = h_revents (c_handler c)"
    if c: "n_conns w b = Some c" for b c
  proof -
    obtain c' where c': "n_conns w' b = Some c'" "c_fd c' = c_fd c" "h_revents (c_handler c') = h_revents (c_handler c)"
      using A(1) [OF c] by blast
    then show ?thesis using B(1) [OF c'(1)] by simp
  qed
  moreover have "\<forall>b \<in> live w. Conn_Handler b \<in> S \<or> b \<in> live w''" using A(2) B(2) by blast
  moreover obtain ts us where "pending_list w' = pending_list w @ ts" "pending_list w'' = pending_list w' @ us" using A(8) B(8) by blast
  moreover have "Accept_Handler \<in> S \<or> n_listen_open w'' = n_listen_open w" "Accept_Handler \<in> S \<or> dom (n_conns w'') = dom (n_conns w)"
    using A(5,11) B(5,11) by argo+
  ultimately show ?thesis unfolding ev_step_def using A(3,4,6,7,9,10) B(3,4,6,7,9,10) by simp
qed

lemma unused_fd_step:
  assumes "ev_step S w w'" and "Accept_Handler \<notin> S" and "unused_fd w fd"
  shows "unused_fd w' fd"
proof -
  note D = ev_stepD [OF assms(1)]
  have "c_fd c \<noteq> fd" if c: "n_conns w' a = Some c" for a c
  proof -
    have "a \<in> dom (n_conns w)" using c D(11) assms(2) by auto
    then obtain c0 where "n_conns w a = Some c0" by blast
    then show ?thesis using D(1) [of a c0] c assms(3) by (auto simp: unused_fd_def)
  qed
  then show ?thesis using assms(2,3) D(5,9,10) by (simp add: unused_fd_def)
qed

lemma cb_step_ev:
  assumes s: "cb_step D w w'" and "Conn_Handler ` D \<subseteq> S"
  shows "ev_step S w w'"
proof -
  have r: "rest_of w' = rest_of w" using s by (simp add: cb_step_def)
  have "\<exists>c'. n_conns w' b = Some c' \<and> c_fd c' = c_fd c \<and> h_revents (c_handler c') = h_revents (c_handler c)"
    if "n_conns w b = Some c" for b c using cb_step_conn [OF s that] by blast
  moreover have "\<forall>b \<in> live w. Conn_Handler b \<in> S \<or> b \<in> live w'" using assms by (auto simp: cb_step_def)
  ultimately show ?thesis using s rest_of_eqD [OF r] cb_step_dom [OF s] unfolding ev_step_def cb_step_def by simp
qed

lemma new_connection_ok:
  assumes app: "app_ok app" and inv: "net_inv k q ph x w" and ph: "ph (n_fresh w) = Normal" "x (n_fresh w) = 0" and fd: "unused_fd w fd"
  shows "\<exists>w'. new_connection_callback os app fd w = Inr w' \<and> net_inv k q ph x w' \<and> ev_step {Accept_Handler} w w'"
proof -
  let ?a = "n_fresh w" and ?S = "{Accept_Handler}"
  obtain e2 where N: "net_inv k q ph (x(?a := 2))
      ((put_conn ?a (fresh_conn w fd) w)\<lparr>n_fresh := Suc ?a, connections := (connections w)(fd \<mapsto> ?a), epoller := e2\<rparr>)"
    "new_connection_callback os app fd w =
      bindE (bindE (call_connection_callback os app ?a
        ((put_conn ?a (fresh_conn w fd) w)\<lparr>n_fresh := Suc ?a, connections := (connections w)(fd \<mapsto> ?a), epoller := e2\<rparr>))
        (\<lambda>w2. bindE (conn_ref_dec (Some ?a) w2) (\<lambda>(p, w3). Inr w3)))
        (\<lambda>w4. bindE (conn_ref_dec (Some ?a) w4) (\<lambda>(p, w5). Inr w5))"
    using new_connection_established [OF inv ph(1) fd] by blast
  let ?u = "(put_conn ?a (fresh_conn w fd) w)\<lparr>n_fresh := Suc ?a, connections := (connections w)(fd \<mapsto> ?a), epoller := e2\<rparr>"
  have cu: "n_conns ?u ?a = Some (fresh_conn w fd)" by simp
  have act: "c_state (fresh_conn w fd) \<noteq> K_Disconnected" by (simp add: fresh_conn_def Let_def)
  obtain w2 where w2: "call_connection_callback os app ?a ?u = Inr w2" "net_inv k q ph (x(?a := 2)) w2" "api_step ?u w2"
    using call_connection_callback_ok [OF app N(1) cu] by blast
  obtain c2 where c2: "n_conns w2 ?a = Some c2" "c_state c2 \<noteq> K_Disconnected" using api_step_conn [OF w2(3) cu] act by metis
  let ?c3 = "c2\<lparr>c_ref := c_ref c2 - 1\<rparr>" let ?w3 = "put_conn ?a ?c3 w2"
  have d3: "conn_ref_dec (Some ?a) w2 = Inr (Some ?a, ?w3)" "net_inv k q ph (x(?a := 1)) ?w3"
    using conn_ref_dec_ok [OF w2(2) c2(1)] by simp_all
  have c3: "n_conns ?w3 ?a = Some ?c3" by simp
  have "in_table ?w3 ?a ?c3" using active_phase(2) [OF net_invD(2) [OF d3(2) c3]] c2(2) by simp
  then have d4: "conn_ref_dec (Some ?a) ?w3 = Inr (Some ?a, put_conn ?a (?c3\<lparr>c_ref := c_ref ?c3 - 1\<rparr>) ?w3)"
    "net_inv k q ph x (put_conn ?a (?c3\<lparr>c_ref := c_ref ?c3 - 1\<rparr>) ?w3)"
    using conn_ref_dec_ok [OF d3(2) c3] ph(2) by (simp_all add: fun_upd_idem)
  let ?w4 = "put_conn ?a (?c3\<lparr>c_ref := c_ref ?c3 - 1\<rparr>) ?w3"
  have none: "n_conns w ?a = None" by (rule net_invD(5) [OF inv]) simp
  have "ev_step ?S w ?u" using none by (auto simp: ev_step_def live_def put_conn_def)
  moreover have "ev_step ?S ?u w2" by (rule cb_step_ev [OF api_step_cb [OF w2(3)]]) simp
  moreover have "ev_step ?S w2 ?w4"
    by (rule cb_step_ev [OF cb_step_put [OF c2(1), where ts = "[]" and c' = "?c3\<lparr>c_ref := c_ref ?c3 - 1\<rparr>" and D = "{}"]]) simp_all
  ultimately have "ev_step ?S w ?w4" by (blast intro: ev_step_trans)
  then show ?thesis using N(2) w2(1) d3(1) d4 by auto
qed

lemma poll_inv_close:
  assumes "poll_inv hs e" and "hs p = Some h"
  shows "poll_inv (hs(p := None)) (e\<lparr>ep_interest := (ep_interest e)(h_fd h := None)\<rparr>)"
proof (rule poll_invI)
  note D = poll_invD [OF assms(1)]
  fix q g assume q: "(hs(p := None)) q = Some g"
  then have g: "hs q = Some g" "q \<noteq> p" by (auto split: if_splits)
  show "h_index g \<in> {k_new, k_added, k_deleted}" by (rule D(1) [OF g(1)])
  have "h_fd g \<noteq> h_fd h" using D(4) [OF g(1) assms(2)] g(2) by blast
  then show "h_index g = k_added \<Longrightarrow> ep_interest (e\<lparr>ep_interest := (ep_interest e)(h_fd h := None)\<rparr>) (h_fd g) = Some (h_events g, q)"
    using D(2) [OF g(1)] by simp
next
  fix fd ev q assume "ep_interest (e\<lparr>ep_interest := (ep_interest e)(h_fd h := None)\<rparr>) fd = Some (ev, q)"
  then have i: "ep_interest e fd = Some (ev, q)" "fd \<noteq> h_fd h" by (auto split: if_splits)
  then obtain g where "hs q = Some g" "h_fd g = fd" "h_index g = k_added" using poll_invD(3) [OF assms(1)] by blast
  then show "\<exists>g. (hs(p := None)) q = Some g \<and> h_fd g = fd \<and> h_index g = k_added" using i(2) assms(2) by auto
next
  fix q r g g' assume "(hs(p := None)) q = Some g" "(hs(p := None)) r = Some g'" "h_fd g = h_fd g'"
  then show "q = r" using poll_invD(4) [OF assms(1), of q g r g'] by (auto split: if_splits)
qed

text \<open>A failed \<open>accept4\<close>: the listening descriptor is closed.\<close>

lemma close_listening_ok:
  assumes inv: "net_inv k q ph x w" and op: "n_listen_open w"
  shows "net_inv k q ph x ((sys_close (h_fd (accept_handler (acceptor w))) w)\<lparr>n_listen_open := False\<rparr>)" (is "net_inv k q ph x ?w")
    and "ev_step {Accept_Handler} w ((sys_close (h_fd (accept_handler (acceptor w))) w)\<lparr>n_listen_open := False\<rparr>)"
proof -
  have "handlers ?w = (handlers w)(Accept_Handler := None)"
    by (auto simp: handlers_def fun_eq_iff sys_close_def emit_def split: haddr.splits)
  moreover have "handlers w Accept_Handler = Some (accept_handler (acceptor w))" using op by (simp add: handlers_def)
  ultimately have "poll_inv (handlers ?w) (epoller ?w)"
    using poll_inv_close [OF net_invD(6) [OF inv]] by (simp add: sys_close_def emit_def)
  then show "net_inv k q ph x ?w"
    using inv unfolding net_inv_def by (simp add: sys_close_def emit_def waiting_def in_table_def)
  show "ev_step {Accept_Handler} w ?w" by (simp add: ev_step_def sys_close_def emit_def live_def)
qed

lemma acceptor_read_callback_ok:
  assumes app: "app_ok app" and inv: "net_idle q w" and op: "n_listen_open w"
    and fd: "\<And>n fd. os_accept os n = Inr fd \<Longrightarrow> 0 < sint fd \<Longrightarrow> unused_fd w fd"
  shows "\<exists>w'. acceptor_read_callback os app w = Inr w' \<and> net_idle q w' \<and> ev_step {Accept_Handler} w w'"
proof -
  let ?w1 = "w\<lparr>n_calls := n_calls w + 1\<rparr>"
  have i1: "net_inv 0 q (\<lambda>_. Normal) (\<lambda>_. 0) ?w1" using inv by (simp add: net_idle_def)
  have o1: "n_listen_open ?w1" using op by simp
  have s1: "ev_step S w ?w1" for S by (simp add: ev_step_def live_def)
  note C = close_listening_ok [OF i1 o1]
  show ?thesis
  proof (cases "\<exists>fd. os_accept os (n_calls w) = Inr fd \<and> 0 < sint fd")
    case True
    then obtain f where f: "os_accept os (n_calls w) = Inr f" "0 < sint f" by blast
    have "unused_fd ?w1 f" using fd [OF f] by (simp add: unused_fd_def)
    then obtain w' where w': "new_connection_callback os app f ?w1 = Inr w'" "net_idle q w'" "ev_step {Accept_Handler} ?w1 w'"
      using new_connection_ok [OF app i1 refl refl] unfolding net_idle_def by blast
    have "ev_step {Accept_Handler} w w'" by (rule ev_step_trans [OF s1 w'(3)])
    then show ?thesis using w'(1,2) f by (simp add: acceptor_read_callback_def)
  next
    case False
    then have "acceptor_read_callback os app w = Inr ((sys_close (h_fd (accept_handler (acceptor ?w1))) ?w1)\<lparr>n_listen_open := False\<rparr>)"
      by (auto simp: acceptor_read_callback_def Let_def split: sum.splits)
    then show ?thesis using C(1) ev_step_trans [OF s1 C(2)] by (simp add: net_idle_def)
  qed
qed

lemma poll_inv_flag:
  assumes "poll_inv hs e" and "hs p = Some h"
  shows "poll_inv (hs(p \<mapsto> h\<lparr>event_handling := b\<rparr>)) e"
proof (rule poll_inv_upd [OF assms])
  show "ep_interest e = (ep_interest e)(h_fd h := (if h_index (h\<lparr>event_handling := b\<rparr>) = k_added then Some (h_events (h\<lparr>event_handling := b\<rparr>), p) else None))"
    using poll_invD(2) [OF assms] poll_inv_unwatched [OF assms] by (auto simp: fun_upd_idem)
qed (use poll_invD(1) [OF assms] in simp_all)

lemma phase_ok_upd [simp]:
  "phase_ok q p a ts tab st (h\<lparr>event_handling := b\<rparr>) = phase_ok q p a ts tab st h"
  "phase_ok q p a ts tab st (h\<lparr>h_revents := r\<rparr>) = phase_ok q p a ts tab st h"
  by (cases p; simp add: phase_ok_def)+

lemma set_event_handling_ok:
  assumes inv: "net_inv k q ph x w" and p: "\<And>a. p = Conn_Handler a \<Longrightarrow> a \<in> dom (n_conns w)"
  shows "\<exists>w'. set_event_handling b p w = Inr w' \<and> net_inv k q ph x w' \<and> ev_step {} w w'"
proof (cases p)
  case (Conn_Handler a)
  then obtain c where c: "n_conns w a = Some c" using p by blast
  let ?c = "c\<lparr>c_handler := (c_handler c)\<lparr>event_handling := b\<rparr>\<rparr>" let ?w = "put_conn a ?c w"
  have e: "set_event_handling b p w = Inr ?w" using c Conn_Handler by (simp add: set_event_handling_def put_conn_def)
  have "handlers ?w = (handlers w)(Conn_Handler a \<mapsto> (c_handler c)\<lparr>event_handling := b\<rparr>)"
    using handlers_conn [of ?w w a ?c] by simp
  then have "poll_inv (handlers ?w) (epoller ?w)" using poll_inv_flag [OF net_invD(6) [OF inv], of "Conn_Handler a" "c_handler c"] c by simp
  then have "net_inv k q ph x ?w"
    by (intro net_inv_change [OF inv _ c, where ts = "[]" and c' = ?c])
      (use net_invD(2) [OF inv c] in \<open>simp_all add: conn_ok_def\<close>)
  moreover have "ev_step {} w ?w"
    by (rule cb_step_ev [OF cb_step_put [OF c, where ts = "[]" and c' = ?c and D = "{}"]]) simp_all
  ultimately show ?thesis using e by blast
next
  case Accept_Handler
  let ?h = "(accept_handler (acceptor w))\<lparr>event_handling := b\<rparr>"
  let ?w = "w\<lparr>acceptor := (acceptor w)\<lparr>accept_handler := ?h\<rparr>\<rparr>"
  have "handlers ?w = (if n_listen_open w then (handlers w)(Accept_Handler \<mapsto> ?h) else handlers w)"
    by (auto simp: handlers_def fun_eq_iff split: haddr.splits)
  moreover have "n_listen_open w \<Longrightarrow> handlers w Accept_Handler = Some (accept_handler (acceptor w))" by (simp add: handlers_def)
  ultimately have "poll_inv (handlers ?w) (epoller ?w)"
    using poll_inv_flag [OF net_invD(6) [OF inv], of Accept_Handler] net_invD(6) [OF inv] by simp
  then have "net_inv k q ph x ?w" using inv unfolding net_inv_def by (simp add: waiting_def in_table_def)
  moreover have "ev_step {} w ?w" by (simp add: ev_step_def live_def)
  ultimately show ?thesis using Accept_Handler by (simp add: set_event_handling_def)
next
  case Wakeup_Handler
  let ?h = "(wakeup_handler w)\<lparr>event_handling := b\<rparr>" let ?w = "w\<lparr>wakeup_handler := ?h\<rparr>"
  have "handlers ?w = (handlers w)(Wakeup_Handler \<mapsto> ?h)" by (auto simp: handlers_def fun_eq_iff split: haddr.splits)
  moreover have "handlers w Wakeup_Handler = Some (wakeup_handler w)" by (simp add: handlers_def)
  ultimately have "poll_inv (handlers ?w) (epoller ?w)"
    using poll_inv_flag [OF net_invD(6) [OF inv], of Wakeup_Handler] by simp
  then have "net_inv k q ph x ?w" using inv unfolding net_inv_def by (simp add: waiting_def in_table_def)
  moreover have "ev_step {} w ?w" by (simp add: ev_step_def live_def)
  ultimately show ?thesis using Wakeup_Handler by (simp add: set_event_handling_def)
qed

text \<open>
  The kernel reports a hang-up without readable data only when there is nothing else to read either;
  a new descriptor is one that is not open.
\<close>

definition revents_ok :: "u32 \<Rightarrow> bool" where
  "revents_ok r \<longleftrightarrow> \<not> (r AND POLLHUP \<noteq> 0 \<and> r AND POLLIN = 0 \<and> r AND (POLLIN OR POLLPRI OR POLLRDHUP) \<noteq> 0)"

definition accept_ok :: "os \<Rightarrow> net \<Rightarrow> bool" where
  "accept_ok os w \<longleftrightarrow> (\<forall>n fd. os_accept os n = Inr fd \<longrightarrow> 0 < sint fd \<longrightarrow> unused_fd w fd)"

definition event_ready :: "net \<Rightarrow> haddr \<Rightarrow> u32 \<Rightarrow> bool" where
  "event_ready w p r \<longleftrightarrow>
     (case p of
        Conn_Handler a \<Rightarrow> a \<in> live w \<and> (\<exists>c. n_conns w a = Some c \<and> h_revents (c_handler c) = r)
      | Accept_Handler \<Rightarrow> n_listen_open w \<and> h_revents (accept_handler (acceptor w)) = r
      | Wakeup_Handler \<Rightarrow> h_revents (wakeup_handler w) = r)"

lemma event_ready_step:
  assumes "ev_step S w w'" and "event_ready w p r" and "p \<notin> S"
  shows "event_ready w' p r"
proof (cases p)
  case (Conn_Handler a)
  then obtain c where c: "a \<in> live w" "n_conns w a = Some c" "h_revents (c_handler c) = r" using assms(2) by (auto simp: event_ready_def)
  then show ?thesis using ev_stepD(1) [OF assms(1) c(2)] ev_stepD(2) [OF assms(1) c(1)] assms(3) Conn_Handler by (auto simp: event_ready_def)
next
  case Accept_Handler
  then show ?thesis using assms(2,3) ev_stepD(3,5) [OF assms(1)] by (simp add: event_ready_def)
next
  case Wakeup_Handler
  then show ?thesis using assms(2) ev_stepD(4) [OF assms(1)] by (simp add: event_ready_def)
qed

lemma event_case_skip:
  "get_handler w p = Inr h \<Longrightarrow> \<not> test (h_revents h) \<Longrightarrow> event_case os app test cb p w = Inr w"
  "get_handler w p = Inr h \<Longrightarrow> cb h = None \<Longrightarrow> event_case os app test cb p w = Inr w"
  by (simp_all add: event_case_def)

lemma event_case_call:
  "get_handler w p = Inr h \<Longrightarrow> cb h = Some f \<Longrightarrow>
   event_case os app test cb p w = (if test (h_revents h) then handler_callback os app f p w else Inr w)"
  by (simp add: event_case_def)

lemma handle_conn_event_ok:
  assumes app: "app_ok app" and inv: "net_idle False w" and a: "a \<in> live w" and c: "n_conns w a = Some c"
    and r: "revents_ok (h_revents (c_handler c))"
  shows "\<exists>w'. handle_event os app (Conn_Handler a) w = Inr w' \<and> net_idle False w' \<and> ev_step {Conn_Handler a} w w'"
proof -
  let ?p = "Conn_Handler a" and ?S = "{Conn_Handler a}"
  define rv where "rv = h_revents (c_handler c)"
  have idle: "net_inv 0 False (\<lambda>_. Normal) (\<lambda>_. 0) w" using inv by (simp add: net_idle_def)
  have sub: "ev_step {} v v' \<Longrightarrow> ev_step ?S v v'" for v v' by (auto simp: ev_step_def)
  have at: "\<exists>d. n_conns v a = Some d \<and> get_handler v ?p = Inr (c_handler d) \<and> h_revents (c_handler d) = rv \<and> wired (c_handler d)"
    if v: "ev_step ?S w v" "net_inv 0 False (\<lambda>_. Normal) (\<lambda>_. 0) v" for v
  proof -
    obtain d where d: "n_conns v a = Some d" "h_revents (c_handler d) = rv" using ev_stepD(1) [OF v(1) c] by (auto simp: rv_def)
    then show ?thesis using net_invD(2) [OF v(2) d(1)] by (auto simp: conn_ok_def)
  qed
  obtain w1 where w1: "set_event_handling True ?p w = Inr w1" "net_inv 0 False (\<lambda>_. Normal) (\<lambda>_. 0) w1" "ev_step {} w w1"
    using set_event_handling_ok [OF idle] c by blast
  have s1: "ev_step ?S w w1" by (rule sub [OF w1(3)])
  have a1: "a \<in> live w1" using ev_stepD(2) [OF w1(3) a] by simp
  obtain c1 where c1: "n_conns w1 a = Some c1" "get_handler w1 ?p = Inr (c_handler c1)" "h_revents (c_handler c1) = rv" "wired (c_handler c1)"
    using at [OF s1 w1(2)] by blast
  have act1: "c_state c1 \<noteq> K_Disconnected" using a1 c1(1) by (auto simp: live_def)
  let ?hup = "rv AND POLLHUP \<noteq> 0 \<and> rv AND POLLIN = 0" and ?rd = "rv AND (POLLIN OR POLLPRI OR POLLRDHUP) \<noteq> 0"
  have "\<exists>w2. event_case os app (\<lambda>r. r AND POLLHUP \<noteq> 0 \<and> r AND POLLIN = 0) close_callback ?p w1 = Inr w2 \<and>
      net_inv 0 False (\<lambda>_. Normal) (\<lambda>_. 0) w2 \<and> ev_step ?S w1 w2 \<and> (\<not> ?hup \<longrightarrow> w2 = w1)"
  proof (cases ?hup)
    case True
    obtain w2 where w2: "connection_handler_close os app a w1 = Inr w2" "net_inv 0 False (\<lambda>_. Normal) (\<lambda>_. 0) w2" "cb_step {a} w1 w2"
      using connection_handler_close_ok [OF app w1(2) c1(1) act1] by blast
    have "ev_step ?S w1 w2" by (rule cb_step_ev [OF w2(3)]) simp
    then show ?thesis using w2 True c1 event_case_call [OF c1(2), of close_callback] by (simp add: wired_def)
  next
    case False
    then show ?thesis using event_case_skip(1) [OF c1(2)] c1(3) w1(2) by simp
  qed
  then obtain w2 where w2: "event_case os app (\<lambda>r. r AND POLLHUP \<noteq> 0 \<and> r AND POLLIN = 0) close_callback ?p w1 = Inr w2"
    "net_inv 0 False (\<lambda>_. Normal) (\<lambda>_. 0) w2" "ev_step ?S w1 w2" "\<not> ?hup \<longrightarrow> w2 = w1" by blast
  have s2: "ev_step ?S w w2" by (rule ev_step_trans [OF s1 w2(3)])
  obtain c2 where c2: "n_conns w2 a = Some c2" "get_handler w2 ?p = Inr (c_handler c2)" "h_revents (c_handler c2) = rv" "wired (c_handler c2)"
    using at [OF s2 w2(2)] by blast
  have w3: "event_case os app (\<lambda>r. r AND (POLLERR OR POLLNVAL) \<noteq> 0) error_callback ?p w2 = Inr w2"
    using event_case_call [OF c2(2), of error_callback] c2(4) by (simp add: wired_def)
  have "\<exists>w4. event_case os app (\<lambda>r. r AND (POLLIN OR POLLPRI OR POLLRDHUP) \<noteq> 0) read_callback ?p w2 = Inr w4 \<and>
      net_inv 0 False (\<lambda>_. Normal) (\<lambda>_. 0) w4 \<and> ev_step ?S w2 w4"
  proof (cases ?rd)
    case True
    then have "w2 = w1" using r w2(4) unfolding revents_ok_def rv_def by blast
    then have act2: "c_state c2 \<noteq> K_Disconnected" using c2(1) c1(1) act1 by simp
    obtain w4 D where w4: "connection_handler_read os app a w2 = Inr w4" "net_inv 0 False (\<lambda>_. Normal) (\<lambda>_. 0) w4" "cb_step D w2 w4" "D \<subseteq> {a}"
      using connection_handler_read_ok [OF app w2(2) c2(1) act2] by blast
    have "ev_step ?S w2 w4" using cb_step_ev [OF w4(3), of ?S] w4(4) by auto
    then show ?thesis using w4 True c2 event_case_call [OF c2(2), of read_callback] by (simp add: wired_def)
  next
    case False
    then show ?thesis using event_case_skip(1) [OF c2(2)] c2(3) w2(2) by simp
  qed
  then obtain w4 where w4: "event_case os app (\<lambda>r. r AND (POLLIN OR POLLPRI OR POLLRDHUP) \<noteq> 0) read_callback ?p w2 = Inr w4"
    "net_inv 0 False (\<lambda>_. Normal) (\<lambda>_. 0) w4" "ev_step ?S w2 w4" by blast
  have s4: "ev_step ?S w w4" by (rule ev_step_trans [OF s2 w4(3)])
  obtain c4 where c4: "n_conns w4 a = Some c4" "get_handler w4 ?p = Inr (c_handler c4)" "h_revents (c_handler c4) = rv" "wired (c_handler c4)"
    using at [OF s4 w4(2)] by blast
  obtain w5 where w5: "event_case os app (\<lambda>r. r AND POLLOUT \<noteq> 0) write_callback ?p w4 = Inr w5"
    "net_inv 0 False (\<lambda>_. Normal) (\<lambda>_. 0) w5" "ev_step ?S w4 w5"
  proof (cases "rv AND POLLOUT \<noteq> 0")
    case True
    obtain v where v: "connection_handler_write os a w4 = Inr v" "net_inv 0 False (\<lambda>_. Normal) (\<lambda>_. 0) v" "api_step w4 v"
      using connection_handler_write_ok [OF w4(2) c4(1) refl] by blast
    have "ev_step ?S w4 v" by (rule cb_step_ev [OF api_step_cb [OF v(3)]]) simp
    then show thesis using that v True c4 event_case_call [OF c4(2), of write_callback] by (simp add: wired_def)
  next
    case False
    then show thesis using that event_case_skip(1) [OF c4(2)] c4(3) w4(2) by simp
  qed
  have s5: "ev_step ?S w w5" by (rule ev_step_trans [OF s4 w5(3)])
  obtain c5 where c5: "n_conns w5 a = Some c5" using at [OF s5 w5(2)] by blast
  obtain w6 where w6: "set_event_handling False ?p w5 = Inr w6" "net_inv 0 False (\<lambda>_. Normal) (\<lambda>_. 0) w6" "ev_step {} w5 w6"
    using set_event_handling_ok [OF w5(2)] c5 by blast
  have "handle_event os app ?p w = Inr w6"
    unfolding handle_event_def w1(1) bindE_simps w2(1) w3 w4(1) w5(1) w6(1) by simp
  then show ?thesis using w6(2) ev_step_trans [OF s5 sub [OF w6(3)]] by (simp add: net_idle_def)
qed

abbreviation "idle_inv q \<equiv> net_inv 0 q (\<lambda>_. Normal) (\<lambda>_. 0)"

text \<open>The acceptor and the wakeup descriptor have a read callback only.\<close>

lemma handle_read_only:
  assumes inv: "idle_inv False w" and p: "p = Accept_Handler \<or> p = Wakeup_Handler"
    and cb: "\<And>v h. get_handler v p = Inr h \<Longrightarrow> idle_inv False v \<Longrightarrow>
      read_callback h = Some f \<and> write_callback h = None \<and> close_callback h = None \<and> error_callback h = None"
    and rd: "\<And>v. idle_inv False v \<Longrightarrow> ev_step {} w v \<Longrightarrow>
      \<exists>v'. handler_callback os app f p v = Inr v' \<and> idle_inv False v' \<and> ev_step {p} v v'"
  shows "\<exists>w'. handle_event os app p w = Inr w' \<and> idle_inv False w' \<and> ev_step {p} w w'"
proof -
  have sub: "ev_step {} v v' \<Longrightarrow> ev_step {p} v v'" for v v' by (auto simp: ev_step_def)
  have nc: "p = Conn_Handler a \<Longrightarrow> a \<in> dom (n_conns v)" for a v using p by auto
  have h: "\<exists>h. get_handler v p = Inr h" for v using p by auto
  obtain w1 where w1: "set_event_handling True p w = Inr w1" "idle_inv False w1" "ev_step {} w w1"
    using set_event_handling_ok [OF inv nc] by blast
  obtain h1 where h1: "get_handler w1 p = Inr h1" using h by blast
  obtain w4 where w4: "event_case os app (\<lambda>r. r AND (POLLIN OR POLLPRI OR POLLRDHUP) \<noteq> 0) read_callback p w1 = Inr w4"
    "idle_inv False w4" "ev_step {p} w1 w4"
  proof (cases "h_revents h1 AND (POLLIN OR POLLPRI OR POLLRDHUP) \<noteq> 0")
    case True
    then show thesis using that rd [OF w1(2,3)] cb [OF h1 w1(2)] event_case_call [OF h1, of read_callback] by auto
  next
    case False
    then show thesis using that event_case_skip(1) [OF h1] w1(2) by simp
  qed
  obtain h4 where h4: "get_handler w4 p = Inr h4" using h by blast
  obtain w6 where w6: "set_event_handling False p w4 = Inr w6" "idle_inv False w6" "ev_step {} w4 w6"
    using set_event_handling_ok [OF w4(2) nc] by blast
  have "handle_event os app p w = Inr w6"
    using w1(1) w4(1) w6(1) event_case_skip(2) [OF h1, of close_callback] event_case_skip(2) [OF h1, of error_callback]
      event_case_skip(2) [OF h4, of write_callback] cb [OF h1 w1(2)] cb [OF h4 w4(2)] by (simp add: handle_event_def)
  moreover have "ev_step {p} w w6" by (rule ev_step_trans [OF sub [OF w1(3)] ev_step_trans [OF w4(3) sub [OF w6(3)]]])
  ultimately show ?thesis using w6(2) by blast
qed

lemma net_inv_callbacks:
  assumes "net_inv k q ph x w"
  shows "get_handler w Accept_Handler = Inr h \<Longrightarrow>
      read_callback h = Some Acceptor_Read_Callback \<and> write_callback h = None \<and> close_callback h = None \<and> error_callback h = None"
    and "get_handler w Wakeup_Handler = Inr h \<Longrightarrow>
      read_callback h = Some Wakeup_Handler_Read_Callback \<and> write_callback h = None \<and> close_callback h = None \<and> error_callback h = None"
  using assms unfolding net_inv_def by (elim conjE exE, simp)+

lemma handle_event_ok:
  assumes app: "app_ok app" and inv: "net_idle False w" and ev: "event_ready w p r" "revents_ok r"
    and acc: "p = Accept_Handler \<Longrightarrow> accept_ok os w"
  shows "\<exists>w'. handle_event os app p w = Inr w' \<and> net_idle False w' \<and> ev_step {p} w w'"
proof (cases p)
  case (Conn_Handler a)
  then obtain c where "a \<in> live w" "n_conns w a = Some c" "h_revents (c_handler c) = r" using ev(1) by (auto simp: event_ready_def)
  then show ?thesis using handle_conn_event_ok [OF app inv] ev(2) Conn_Handler by blast
next
  case Accept_Handler
  have rd: "\<exists>v'. handler_callback os app Acceptor_Read_Callback p v = Inr v' \<and> idle_inv False v' \<and> ev_step {p} v v'"
    if v: "idle_inv False v" "ev_step {} w v" for v
  proof -
    have "n_listen_open v" using ev_stepD(5) [OF v(2)] ev(1) Accept_Handler by (simp add: event_ready_def)
    moreover have "unused_fd v fd" if "os_accept os n = Inr fd" "0 < sint fd" for n fd
      using that acc Accept_Handler unused_fd_step [OF v(2)] by (simp add: accept_ok_def)
    ultimately show ?thesis using acceptor_read_callback_ok [where os = os and w = v and q = False, OF app] v(1) Accept_Handler
      by (simp add: net_idle_def)
  qed
  have "idle_inv False w" "p = Accept_Handler \<or> p = Wakeup_Handler" using inv Accept_Handler by (simp_all add: net_idle_def)
  from handle_read_only [OF this _ rd] net_inv_callbacks(1) Accept_Handler show ?thesis unfolding net_idle_def by blast
next
  case Wakeup_Handler
  have rd: "\<exists>v'. handler_callback os app Wakeup_Handler_Read_Callback p v = Inr v' \<and> idle_inv False v' \<and> ev_step {p} v v'"
    if v: "idle_inv False v" "ev_step {} w v" for v
    using v(1) Wakeup_Handler by (simp add: handler_wakeup_read_def ev_step_def live_def)
  have "idle_inv False w" "p = Accept_Handler \<or> p = Wakeup_Handler" using inv Wakeup_Handler by (simp_all add: net_idle_def)
  from handle_read_only [OF this _ rd] net_inv_callbacks(2) Wakeup_Handler show ?thesis unfolding net_idle_def by blast
qed

section \<open>Polling\<close>

lemma ev_step_sub: "ev_step S v v' \<Longrightarrow> S \<subseteq> T \<Longrightarrow> ev_step T v v'"
  unfolding ev_step_def by blast

text \<open>The events that \<open>epoll_wait\<close> may deliver: for different handlers, each of them watched.\<close>

definition watched :: "net \<Rightarrow> haddr \<Rightarrow> bool" where
  "watched w p \<longleftrightarrow> (\<exists>fd ev. ep_interest (epoller w) fd = Some (ev, p))"

lemma watched_handler:
  assumes "net_inv k q ph x w" and "watched w p"
  obtains h where "handlers w p = Some h" "h_index h = k_added"
  using assms poll_invD(3) [OF net_invD(6) [OF assms(1)]] unfolding watched_def by blast

lemma watched_live:
  assumes inv: "net_idle True w" and w: "watched w (Conn_Handler a)"
  shows "a \<in> live w"
proof -
  have i: "net_inv 0 True (\<lambda>_. Normal) (\<lambda>_. 0) w" using inv by (simp add: net_idle_def)
  obtain h where h: "handlers w (Conn_Handler a) = Some h" "h_index h = k_added" using watched_handler [OF i w] by blast
  then obtain c where c: "n_conns w a = Some c" "h = c_handler c" by auto
  then show ?thesis using net_invD(2) [OF i c(1)] h(2) by (auto simp: conn_ok_def phase_ok_def live_def split: if_splits)
qed

text \<open>What recording the received events leaves as it is.\<close>

definition poll_step :: "haddr \<Rightarrow> net \<Rightarrow> net \<Rightarrow> bool" where
  "poll_step p w w' \<longleftrightarrow>
     pending_list w' = pending_list w \<and> calling_pending_functors w' = calling_pending_functors w \<and> active_handler_list w' = active_handler_list w \<and>
     live w' = live w \<and> (\<forall>fd. unused_fd w' fd = unused_fd w fd) \<and> (\<forall>q. q \<noteq> p \<longrightarrow> watched w' q = watched w q) \<and>
     (\<forall>q r. q \<noteq> p \<longrightarrow> event_ready w q r \<longrightarrow> event_ready w' q r)"

lemma on_handler_set_revents:
  assumes inv: "poll_inv (handlers w) (epoller w)" and h: "handlers w p = Some h" "get_handler w p = Inr h"
  obtains e2 where "on_handler (set_revents r) p w = Inr (put_handler p (updated h (h\<lparr>h_revents := r\<rparr>)) (w\<lparr>epoller := e2\<rparr>))"
    "poll_inv ((handlers w)(p \<mapsto> updated h (h\<lparr>h_revents := r\<rparr>))) e2"
    "\<And>q. q \<noteq> p \<Longrightarrow> (\<exists>fd ev. ep_interest e2 fd = Some (ev, q)) \<longleftrightarrow> watched w q"
proof -
  obtain e2 h2 where u: "update p (epoller w) (h\<lparr>h_revents := r\<rparr>) = (e2, h2)" by force
  note U = update_effect [OF inv h(1) _ _ u, simplified]
  have h2: "h2 = updated h (h\<lparr>h_revents := r\<rparr>)" using U(2) by (simp add: updated_def)
  have "on_handler (set_revents r) p w = Inr (put_handler p h2 (w\<lparr>epoller := e2\<rparr>))"
    using h(2) u by (simp add: on_handler_def set_revents_def)
  moreover have "(\<exists>fd ev. ep_interest e2 fd = Some (ev, q)) \<longleftrightarrow> watched w q" if q: "q \<noteq> p" for q
  proof -
    have "ep_interest (epoller w) (h_fd h) \<noteq> Some (ev, q)" for ev
      using poll_invD(3) [OF inv, of "h_fd h" ev q] poll_invD(4) [OF inv _ h(1)] q by metis
    then have "ep_interest e2 fd = Some (ev, q) \<longleftrightarrow> ep_interest (epoller w) fd = Some (ev, q)" for fd ev
      using U(3) q by auto
    then show ?thesis by (simp add: watched_def)
  qed
  ultimately show thesis using that U(1) h2 by (simp add: fun_upd_def)
qed

lemma set_revents_conn:
  assumes inv: "net_idle True w" and p: "watched w p" and Conn_Handler: "p = Conn_Handler a"
  shows "\<exists>w'. on_handler (set_revents r) p w = Inr w' \<and> net_idle True w' \<and> event_ready w' p r \<and> poll_step p w w'"
proof -
  have i: "idle_inv True w" using inv by (simp add: net_idle_def)
  have a: "a \<in> live w" using watched_live [OF inv] p Conn_Handler by simp
  then obtain c where c: "n_conns w a = Some c" "c_state c \<noteq> K_Disconnected" by (auto simp: live_def)
  note ok = net_invD(2) [OF i c(1)] and A = active_phase [OF net_invD(2) [OF i c(1)] c(2)]
  let ?h = "c_handler c" let ?h2 = "updated ?h (?h\<lparr>h_revents := r\<rparr>)" let ?c = "c\<lparr>c_handler := ?h2\<rparr>"
  have "handlers w p = Some ?h" "get_handler w p = Inr ?h" using c(1) Conn_Handler by simp_all
  from on_handler_set_revents [OF net_invD(6) [OF i] this]
  obtain e2 where o: "on_handler (set_revents r) p w = Inr (put_handler p ?h2 (w\<lparr>epoller := e2\<rparr>))"
    "poll_inv ((handlers w)(p \<mapsto> ?h2)) e2" "\<And>q. q \<noteq> p \<Longrightarrow> (\<exists>fd ev. ep_interest e2 fd = Some (ev, q)) \<longleftrightarrow> watched w q" by blast
  let ?w = "(put_conn a ?c w)\<lparr>epoller := e2\<rparr>"
  have w: "put_handler p ?h2 (w\<lparr>epoller := e2\<rparr>) = ?w" using c(1) Conn_Handler by (simp add: put_conn_def)
  have hw: "handlers ?w = (handlers w)(p \<mapsto> ?h2)" using handlers_conn [of ?w w a ?c] Conn_Handler by simp
  have ix: "next_index (h_index ?h) (h_events ?h) = k_added" using A(4,5) kread_nonzero by (simp add: next_index_def)
  have "idle_inv True ?w"
  proof (rule net_inv_change [OF i _ c(1), where ts = "[]" and c' = ?c])
    show "conn_ok True Normal 0 a (tasks_on a (waiting 0 w) @ []) (in_table w a c) ?c"
      using ok A ix c(2) by (simp add: conn_ok_def phase_ok_active)
    show "poll_inv (handlers ?w) (epoller ?w)" using o(2) hw by simp
  qed simp_all
  moreover have l: "live ?w = live w" using c by (auto simp: live_def)
  moreover have "event_ready ?w p r" using l a Conn_Handler by (simp add: event_ready_def)
  moreover have "poll_step p w ?w"
    unfolding poll_step_def
  proof (intro conjI allI impI)
    show "unused_fd ?w fd = unused_fd w fd" for fd using c(1) by (auto simp: unused_fd_def put_conn_def)
    show "watched ?w q = watched w q" if "q \<noteq> p" for q using o(3) [OF that] by (simp add: watched_def)
    show "event_ready ?w q r'" if q: "q \<noteq> p" "event_ready w q r'" for q r'
    proof (cases q)
      case (Conn_Handler b)
      then have "b \<noteq> a" using q(1) \<open>p = Conn_Handler a\<close> by simp
      then show ?thesis using q(2) l Conn_Handler unfolding event_ready_def by simp
    qed (use q(2) in \<open>simp_all add: event_ready_def put_conn_def\<close>)
  qed (use l in simp_all)
  ultimately show ?thesis using o(1) w by (simp add: net_idle_def)
qed

lemma set_revents_accept:
  assumes inv: "net_idle True w" and p: "watched w p" and Accept_Handler: "p = Accept_Handler"
  shows "\<exists>w'. on_handler (set_revents r) p w = Inr w' \<and> net_idle True w' \<and> event_ready w' p r \<and> poll_step p w w'"
proof -
  have i: "idle_inv True w" using inv by (simp add: net_idle_def)
  let ?h = "accept_handler (acceptor w)" let ?h2 = "updated ?h (?h\<lparr>h_revents := r\<rparr>)"
  obtain g where "handlers w p = Some g" by (rule watched_handler [OF i p])
  then have op: "n_listen_open w" using Accept_Handler by (simp add: handlers_def split: if_splits)
  have "handlers w p = Some ?h" "get_handler w p = Inr ?h" using op Accept_Handler by (simp_all add: handlers_def)
  from on_handler_set_revents [OF net_invD(6) [OF i] this]
  obtain e2 where o: "on_handler (set_revents r) p w = Inr (put_handler p ?h2 (w\<lparr>epoller := e2\<rparr>))"
    "poll_inv ((handlers w)(p \<mapsto> ?h2)) e2" "\<And>q. q \<noteq> p \<Longrightarrow> (\<exists>fd ev. ep_interest e2 fd = Some (ev, q)) \<longleftrightarrow> watched w q" by blast
  let ?w = "w\<lparr>epoller := e2, acceptor := (acceptor w)\<lparr>accept_handler := ?h2\<rparr>\<rparr>"
  have w: "put_handler p ?h2 (w\<lparr>epoller := e2\<rparr>) = ?w" using Accept_Handler by simp
  have "handlers ?w = (handlers w)(p \<mapsto> ?h2)" using op Accept_Handler by (auto simp: handlers_def fun_eq_iff split: haddr.splits)
  then have "poll_inv (handlers ?w) (epoller ?w)" using o(2) by simp
  then have "idle_inv True ?w" using i unfolding net_inv_def by (simp add: waiting_def in_table_def updated_def)
  moreover have "event_ready ?w p r" using op Accept_Handler by (simp add: event_ready_def)
  moreover have "poll_step p w ?w"
    unfolding poll_step_def
  proof (intro conjI allI impI)
    show "watched ?w q = watched w q" if "q \<noteq> p" for q using o(3) [OF that] by (simp add: watched_def)
    show "event_ready ?w q r'" if q: "q \<noteq> p" "event_ready w q r'" for q r'
      using q Accept_Handler by (cases q) (simp_all add: event_ready_def live_def)
  qed (simp_all add: live_def unused_fd_def)
  ultimately show ?thesis using o(1) w by (simp add: net_idle_def)
qed

lemma set_revents_wakeup:
  assumes inv: "net_idle True w" and p: "watched w p" and Wakeup_Handler: "p = Wakeup_Handler"
  shows "\<exists>w'. on_handler (set_revents r) p w = Inr w' \<and> net_idle True w' \<and> event_ready w' p r \<and> poll_step p w w'"
proof -
  have i: "idle_inv True w" using inv by (simp add: net_idle_def)
  let ?h = "wakeup_handler w" let ?h2 = "updated ?h (?h\<lparr>h_revents := r\<rparr>)"
  have "handlers w p = Some ?h" "get_handler w p = Inr ?h" using Wakeup_Handler by (simp_all add: handlers_def)
  from on_handler_set_revents [OF net_invD(6) [OF i] this]
  obtain e2 where o: "on_handler (set_revents r) p w = Inr (put_handler p ?h2 (w\<lparr>epoller := e2\<rparr>))"
    "poll_inv ((handlers w)(p \<mapsto> ?h2)) e2" "\<And>q. q \<noteq> p \<Longrightarrow> (\<exists>fd ev. ep_interest e2 fd = Some (ev, q)) \<longleftrightarrow> watched w q" by blast
  let ?w = "w\<lparr>epoller := e2, wakeup_handler := ?h2\<rparr>"
  have w: "put_handler p ?h2 (w\<lparr>epoller := e2\<rparr>) = ?w" using Wakeup_Handler by simp
  have "handlers ?w = (handlers w)(p \<mapsto> ?h2)" using Wakeup_Handler by (auto simp: handlers_def fun_eq_iff split: haddr.splits)
  then have "poll_inv (handlers ?w) (epoller ?w)" using o(2) by simp
  moreover have "next_index k_added (h_events ?h) = k_added" if "h_events ?h AND kread_event = kread_event"
    using that kread_nonzero by (simp add: next_index_def)
  ultimately have "idle_inv True ?w" using i unfolding net_inv_def by (simp add: waiting_def in_table_def updated_def)
  moreover have "event_ready ?w p r" using Wakeup_Handler by (simp add: event_ready_def)
  moreover have "poll_step p w ?w"
    unfolding poll_step_def
  proof (intro conjI allI impI)
    show "watched ?w q = watched w q" if "q \<noteq> p" for q using o(3) [OF that] by (simp add: watched_def)
    show "event_ready ?w q r'" if q: "q \<noteq> p" "event_ready w q r'" for q r'
      using q Wakeup_Handler by (cases q) (simp_all add: event_ready_def live_def)
  qed (simp_all add: live_def unused_fd_def)
  ultimately show ?thesis using o(1) w by (simp add: net_idle_def)
qed

lemma set_revents_ok:
  assumes "net_idle True w" and "watched w p"
  shows "\<exists>w'. on_handler (set_revents r) p w = Inr w' \<and> net_idle True w' \<and> event_ready w' p r \<and> poll_step p w w'"
  by (cases p) (use set_revents_conn [OF assms] set_revents_accept [OF assms] set_revents_wakeup [OF assms] in blast)+

lemma net_idle_active [simp]: "net_idle q (w\<lparr>active_handler_list := z\<rparr>) = net_idle q w"
  by (simp add: net_idle_def)

lemma event_ready_active [simp]: "event_ready (w\<lparr>active_handler_list := z\<rparr>) p r = event_ready w p r"
  by (simp add: event_ready_def live_def split: haddr.splits)

lemma poll_step_active [simp]:
  "live (w\<lparr>active_handler_list := z\<rparr>) = live w" "unused_fd (w\<lparr>active_handler_list := z\<rparr>) fd = unused_fd w fd"
  "watched (w\<lparr>active_handler_list := z\<rparr>) p = watched w p"
  by (simp_all add: live_def unused_fd_def watched_def)

lemma fill_active_handlers_ok:
  assumes "net_idle True w" and "distinct (map fst evs)" and "\<forall>p \<in> fst ` set evs. watched w p"
  shows "\<exists>w'. fill_active_handlers evs w = Inr w' \<and> net_idle True w' \<and> (\<forall>(p, r) \<in> set evs. event_ready w' p r) \<and>
    (\<forall>p r. p \<notin> fst ` set evs \<longrightarrow> event_ready w p r \<longrightarrow> event_ready w' p r) \<and>
    active_handler_list w' = active_handler_list w @ map fst evs \<and> pending_list w' = pending_list w \<and>
    calling_pending_functors w' = calling_pending_functors w \<and> (\<forall>fd. unused_fd w' fd = unused_fd w fd)"
  using assms
proof (induction evs arbitrary: w)
  case (Cons x evs)
  obtain p r where x: "x = (p, r)" by (cases x)
  have "watched w p" using Cons.prems(3) x by simp
  then obtain w1 where w1: "on_handler (set_revents r) p w = Inr w1" "net_idle True w1" "event_ready w1 p r" "poll_step p w w1"
    using set_revents_ok [OF Cons.prems(1)] by blast
  note P = w1(4) [unfolded poll_step_def]
  let ?w2 = "w1\<lparr>active_handler_list := active_handler_list w1 @ [p]\<rparr>"
  have p: "p \<notin> fst ` set evs" and d: "distinct (map fst evs)" using Cons.prems(2) x by simp_all
  have wt: "\<forall>q \<in> fst ` set evs. watched ?w2 q"
  proof
    fix q assume q: "q \<in> fst ` set evs"
    then have "q \<noteq> p" "watched w q" using p Cons.prems(3) x by auto
    then show "watched ?w2 q" using P by simp
  qed
  have i2: "net_idle True ?w2" using w1(2) by simp
  obtain w' where w': "fill_active_handlers evs ?w2 = Inr w'" "net_idle True w'" "\<forall>(p, r) \<in> set evs. event_ready w' p r"
    "\<forall>q s. q \<notin> fst ` set evs \<longrightarrow> event_ready ?w2 q s \<longrightarrow> event_ready w' q s"
    "active_handler_list w' = active_handler_list ?w2 @ map fst evs" "pending_list w' = pending_list ?w2"
    "calling_pending_functors w' = calling_pending_functors ?w2" "\<forall>fd. unused_fd w' fd = unused_fd ?w2 fd"
    using Cons.IH [OF i2 d wt] by blast
  have "event_ready w' p r" using w'(4) p w1(3) by simp
  moreover have "event_ready w' q s" if "q \<notin> fst ` set (x # evs)" "event_ready w q s" for q s
    using that w'(4) P x by simp
  ultimately show ?case using w' w1(1) P x by simp
qed simp

lemma handle_active_ok:
  assumes "app_ok app" and "net_idle False w" and "distinct (map fst evs)" and "\<forall>(p, r) \<in> set evs. event_ready w p r \<and> revents_ok r"
    and "Accept_Handler \<in> fst ` set evs \<longrightarrow> accept_ok os w" and "active_handler_list w = map fst evs"
  shows "\<exists>w' ts. handle_active os app (map fst evs) w = Inr w' \<and> net_idle False w' \<and> active_handler_list w' = [] \<and>
    pending_list w' = pending_list w @ ts \<and> calling_pending_functors w' = calling_pending_functors w"
  using assms(2-)
proof (induction evs arbitrary: w)
  case (Cons x evs)
  obtain p r where x: "x = (p, r)" by (cases x)
  have p: "p \<notin> fst ` set evs" "event_ready w p r" "revents_ok r" "p = Accept_Handler \<Longrightarrow> accept_ok os w" using Cons.prems x by auto
  obtain w1 where w1: "handle_event os app p w = Inr w1" "net_idle False w1" "ev_step {p} w w1"
    using handle_event_ok [OF assms(1) Cons.prems(1) p(2-4)] by blast
  note E = ev_stepD [OF w1(3)]
  let ?w2 = "w1\<lparr>active_handler_list := remove1 p (active_handler_list w1)\<rparr>"
  have h: "\<exists>h. get_handler w1 p = Inr h"
  proof (cases p)
    case (Conn_Handler a)
    then obtain c where "n_conns w a = Some c" using p(2) by (auto simp: event_ready_def)
    then show ?thesis using E(1) Conn_Handler by fastforce
  qed simp_all
  have "\<forall>(q, s) \<in> set evs. event_ready ?w2 q s \<and> revents_ok s"
  proof (clarify)
    fix q s assume q: "(q, s) \<in> set evs"
    then have "q \<notin> {p}" using p(1) by force
    moreover have "event_ready w q s" "revents_ok s" using q Cons.prems(3) by auto
    ultimately show "event_ready ?w2 q s \<and> revents_ok s" using event_ready_step [OF w1(3)] by simp
  qed
  moreover have "Accept_Handler \<in> fst ` set evs \<longrightarrow> accept_ok os ?w2"
    using Cons.prems(4) unused_fd_step [OF w1(3)] p(1) by (auto simp: accept_ok_def)
  moreover have "net_idle False ?w2" "distinct (map fst evs)" "active_handler_list ?w2 = map fst evs"
    using w1(2) Cons.prems(2,5) E(6) x by simp_all
  ultimately obtain w' ts where w': "handle_active os app (map fst evs) ?w2 = Inr w'" "net_idle False w'" "active_handler_list w' = []"
    "pending_list w' = pending_list ?w2 @ ts" "calling_pending_functors w' = calling_pending_functors ?w2"
    using Cons.IH [of ?w2] by blast
  obtain us where "pending_list w1 = pending_list w @ us" using E(8) by blast
  then show ?case using w1(1) w' h x E(7) by auto
qed simp

end
