(* ===== verification/Gp_Net_Tasks.thy ===== *)
theory Gp_Net_Tasks
  imports Gp_Net_Events
begin

text \<open>
  Pending tasks: every task keeps the invariant, destruction frees a connection with its last reference, and
  the walk over the tasks ends although tasks may queue further ones. From this the turn of the loop and any
  number of turns.
\<close>

section \<open>Pending tasks\<close>

lemma on_handler_frame:
  assumes "on_handler op p w = Inr w'"
  shows "pending_list w' = pending_list w" "active_handler_list w' = active_handler_list w"
proof -
  obtain h where "get_handler w p = Inr h" using assms by (cases "get_handler w p") (simp_all add: on_handler_def)
  then have "\<exists>e h1. w' = put_handler p h1 (w\<lparr>epoller := e\<rparr>)"
    using assms by (cases "op p (epoller w) h") (auto simp: on_handler_def)
  then show "pending_list w' = pending_list w" "active_handler_list w' = active_handler_list w" by (cases p; auto)+
qed

lemma conn_send_in_loop_pending:
  assumes "conn_send_in_loop os a msg w = Inr w'"
  shows "pending_list w' = pending_list w"
proof -
  obtain c where c: "n_conns w a = Some c"
    using assms by (cases "n_conns w a") (simp_all add: conn_send_in_loop_def get_conn_def)
  obtain nw rem f w1 where r: "send_directly os c msg w = (nw, rem, f, w1)" by (cases "send_directly os c msg w") auto
  have "pending_list w1 = pending_list w"
    using r by (auto simp: send_directly_def sys_write_def Let_def split: if_splits sum.splits prod.splits)
  then show ?thesis using assms c r on_handler_frame(1)
    by (auto simp: conn_send_in_loop_def Let_def split: if_splits)
qed

text \<open>While the first task runs, its reference counts as one of the running functions.\<close>

definition run_phase :: "gp_pending_task \<Rightarrow> nat \<Rightarrow> nat \<Rightarrow> phase" where
  "run_phase t a = (\<lambda>_. Normal)(a := if t = destroy_conn_task a then Dying else Normal)"

lemma pending_head:
  assumes inv: "idle_inv q w" and p: "pending_list w = t # ts"
  obtains a c where "task_ok t a" "n_conns w a = Some c" "net_inv 1 (q \<or> ts = []) (run_phase t a) ((\<lambda>_. 0)(a := 1)) w"
proof -
  have wt: "waiting 0 w = t # ts" "waiting 1 w = ts" using p by (simp_all add: waiting_def)
  obtain a where a: "task_ok t a" "n_conns w a \<noteq> None" using net_invD(3) [OF inv, of t] wt by auto
  then obtain c where c: "n_conns w a = Some c" by blast
  have pt: "pt_conn t = Some a" by (rule task_ok_conn [OF a(1)])
  let ?q = "q \<or> ts = []" let ?x = "(\<lambda>_. 0)(a := 1 :: nat)"
  have "conn_ok ?q (run_phase t a b) (?x b) b (tasks_on b ts) (in_table w b d) d" if d: "n_conns w b = Some d" for b d
  proof (cases "b = a")
    case True
    have ok: "conn_ok q Normal 0 a (t # tasks_on a ts) (in_table w a d) d"
      using net_invD(2) [OF inv, of a d] d True wt pt by simp
    show ?thesis
    proof (cases "c_state d = K_Disconnected")
      case disc: True
      obtain us where us: "t # tasks_on a ts = us @ [destroy_conn_task a]" "destroy_conn_task a \<notin> set us"
        using ok disc by (auto simp: conn_ok_def phase_ok_def)
      show ?thesis
      proof (cases us)
        case Nil
        then show ?thesis using us ok disc True by (simp add: conn_ok_def phase_ok_def run_phase_def)
      next
        case (Cons u us')
        then have "t \<noteq> destroy_conn_task a" "tasks_on a ts = us' @ [destroy_conn_task a]" "destroy_conn_task a \<notin> set us'" "ts \<noteq> []" using us by auto
        then show ?thesis using ok disc True by (auto simp: conn_ok_def phase_ok_def run_phase_def)
      qed
    next
      case False
      note A = active_phase [OF ok False]
      then have "t \<noteq> destroy_conn_task a" by auto
      then show ?thesis using ok A False True by (simp add: conn_ok_def phase_ok_active run_phase_def)
    qed
  next
    case False
    have ok: "conn_ok q Normal 0 b (tasks_on b ts) (in_table w b d) d"
      using net_invD(2) [OF inv d] wt pt False by simp
    then have "ts \<noteq> []" if "c_state d = K_Disconnected" using that by (auto simp: conn_ok_def phase_ok_def)
    then show ?thesis using ok False by (auto simp: conn_ok_def phase_ok_def run_phase_def)
  qed
  moreover have "\<exists>b. task_ok s b \<and> n_conns w b \<noteq> None" if "s \<in> set ts" for s using net_invD(3) [OF inv, of s] that wt by simp
  ultimately have "net_inv 1 ?q (run_phase t a) ?x w" using inv p unfolding net_inv_def wt by simp
  then show thesis using that a(1) c by blast
qed

text \<open>The first task is taken off the list.\<close>

lemma pending_pop:
  assumes "net_inv 1 q (\<lambda>_. Normal) (\<lambda>_. 0) w" and "pending_list w = t # ts"
  shows "idle_inv q (w\<lparr>pending_list := ts\<rparr>)"
  using assms unfolding net_inv_def by (simp add: waiting_def in_table_def)

text \<open>Once the last task is gone, so are the closed connections.\<close>

lemma no_tasks_quiet:
  assumes inv: "idle_inv False w" and "pending_list w = []"
  shows "idle_inv True w"
proof -
  have "conn_ok True Normal 0 a (tasks_on a (waiting 0 w)) (in_table w a c) c" if c: "n_conns w a = Some c" for a c
    using net_invD(2) [OF inv c] assms(2) by (auto simp: conn_ok_def phase_ok_def waiting_def)
  then show ?thesis using inv unfolding net_inv_def by blast
qed

lemma task_ref_dec:
  assumes inv: "net_inv 1 q (\<lambda>_. Normal) ((\<lambda>_. 0)(a := 1)) w" and c: "n_conns w a = Some c"
  shows "conn_ref_dec (Some a) w = Inr (Some a, put_conn a (c\<lparr>c_ref := c_ref c - 1\<rparr>) w)"
    and "net_inv 1 q (\<lambda>_. Normal) (\<lambda>_. 0) (put_conn a (c\<lparr>c_ref := c_ref c - 1\<rparr>) w)"
proof -
  have "tasks_on a (waiting 1 w) \<noteq> [] \<or> in_table w a c"
    using net_invD(2) [OF inv c] by (auto simp: conn_ok_def phase_ok_def split: if_splits)
  then show "conn_ref_dec (Some a) w = Inr (Some a, put_conn a (c\<lparr>c_ref := c_ref c - 1\<rparr>) w)"
    and "net_inv 1 q (\<lambda>_. Normal) (\<lambda>_. 0) (put_conn a (c\<lparr>c_ref := c_ref c - 1\<rparr>) w)"
    using conn_ref_dec_ok [OF inv c] by (simp_all add: fun_upd_idem)
qed

lemma conn_task_ok [simp]: "task_ok t a \<Longrightarrow> conn_task t"
  by (auto simp: task_ok_def destroy_conn_task_def create_gp_pending_task_def conn_task_def)

text \<open>A task that does not destroy: messages, shutdowns and forced closes.\<close>

lemma pending_func_ok:
  assumes app: "app_ok app" and inv: "net_inv k q ph x w" and c: "n_conns w a = Some c" and t: "task_ok t a" "t \<noteq> destroy_conn_task a"
  shows "\<exists>w' us D. pending_func os app t w = Inr w' \<and> net_inv k q ph x w' \<and> cb_step D w w' \<and> D \<subseteq> live w \<and>
    pending_list w' = pending_list w @ us \<and> (D = {} \<longrightarrow> us = [])"
proof -
  consider m where "t = create_gp_pending_task GP_RUN_IN_LOOP_TRANS Run_In_Loop_Trans (Some a) m" "0 \<in> set m"
    | "t = create_gp_pending_task GP_RUN_IN_LOOP_CONN Run_In_Loop_Shutdown (Some a) []"
    | "t = create_gp_pending_task GP_RUN_IN_LOOP_CONN Queue_In_Loop_Force_Close (Some a) []"
    using t by (auto simp: task_ok_def)
  then show ?thesis
  proof cases
    case 1
    obtain w' where w': "conn_send_in_loop os a m w = Inr w'" "net_inv k q ph x w'" "api_step w w'"
      using conn_send_in_loop_ok [OF inv c] by blast
    have "pending_func os app t w = Inr w'" using 1 c w'(1) by (simp add: create_gp_pending_task_def run_in_loop_trans_def)
    then show ?thesis using w'(2) api_step_cb [OF w'(3)] conn_send_in_loop_pending [OF w'(1)]
      by (intro exI [of _ w'] exI [of _ "[]"] exI [of _ "{}"]) simp
  next
    case 2
    let ?w = "if \<not> is_writing (c_handler c) then emit (Shutdown_Wr (c_fd c)) w else w"
    have "pending_func os app t w = Inr ?w" using 2 c by (simp add: create_gp_pending_task_def run_in_loop_shutdown_def)
    moreover have "cb_step {} w ?w" by (auto simp: cb_step_def live_def)
    ultimately show ?thesis using inv
      by (intro exI [of _ ?w] exI [of _ "[]"] exI [of _ "{}"]) simp
  next
    case 3
    have f: "pending_func os app t w = (if c_state c = K_Connected \<or> c_state c = K_Disconnecting then connection_handler_close os app a w else Inr w)"
      using 3 c by (simp add: create_gp_pending_task_def queue_in_loop_force_close_def)
    show ?thesis
    proof (cases "c_state c = K_Connected \<or> c_state c = K_Disconnecting")
      case True
      then have act: "c_state c \<noteq> K_Disconnected" by auto
      obtain w' where w': "connection_handler_close os app a w = Inr w'" "net_inv k q ph x w'" "cb_step {a} w w'"
        using connection_handler_close_ok [OF app inv c act] by blast
      obtain us where "pending_list w' = pending_list w @ us" using w'(3) by (auto simp: cb_step_def)
      moreover have "{a} \<subseteq> live w" using c act by (simp add: live_def)
      ultimately show ?thesis using f True w' by auto
    next
      case False
      then show ?thesis using f inv cb_step_refl by (intro exI [of _ w] exI [of _ "[]"] exI [of _ "{}"]) simp
    qed
  qed
qed

text \<open>The last reference is given back: the handler leaves the poller, the descriptor is closed, the memory is freed.\<close>

lemma net_inv_free:
  assumes inv: "net_inv k q ph x w" and c: "n_conns w a = Some c" and ph: "ph a = Dying"
    and h: "n_conns w' = (n_conns w)(a := None)" and same: "rest_of w' = rest_of w" "connections w' = connections w" "pending_list w' = pending_list w"
    and poll: "poll_inv (handlers w') (epoller w')"
  shows "net_inv k q (ph(a := Normal)) (x(a := 0)) w'"
proof -
  note R = rest_of_eqD [OF same(1)]
  have ts: "tasks_on a (waiting k w) = []" and tab: "\<not> in_table w a c"
    using net_invD(2) [OF inv c] ph by (auto simp: conn_ok_def phase_ok_def)
  have wt: "waiting k w' = waiting k w" using same by (simp add: waiting_def)
  have cs: "conn_ok q ((ph(a := Normal)) b) ((x(a := 0)) b) b (tasks_on b (waiting k w')) (in_table w' b d) d" if b: "n_conns w' b = Some d" for b d
  proof -
    have "b \<noteq> a" "n_conns w b = Some d" using b h by (auto split: if_splits)
    then show ?thesis using net_invD(2) [OF inv] wt same(2) by (simp add: in_table_def)
  qed
  have tk: "\<exists>b. task_ok t b \<and> n_conns w' b \<noteq> None" if t: "t \<in> set (waiting k w')" for t
  proof -
    obtain b where b: "task_ok t b" "n_conns w b \<noteq> None" using net_invD(3) [OF inv, of t] t wt by auto
    have "b \<noteq> a"
      using ts task_ok_conn [OF b(1)] t wt by (auto simp: tasks_on_def filter_empty_conv)
    then show ?thesis using b h by auto
  qed
  have tb: "\<exists>d. n_conns w' b = Some d \<and> c_fd d = fd" if "connections w' fd = Some b" for fd b
    using net_invD(4) [OF inv, of fd b] that same(2) tab c h by (cases "b = a") (auto simp: in_table_def)
  have fr: "n_conns w' b = None" if "n_fresh w' \<le> b" for b
    using that net_invD(5) [OF inv, of b] R h by (cases "b = a") auto
  show ?thesis using inv cs tk tb fr poll R same(3) unfolding net_inv_def by simp
qed

lemma handlers_free:
  assumes "n_conns w' = (n_conns w)(a := None)" and "rest_of w' = rest_of w"
  shows "handlers w' = (handlers w)(Conn_Handler a := None)"
  using assms rest_of_eqD [OF assms(2)] by (auto simp: handlers_def fun_eq_iff split: haddr.splits)

lemma on_handler_remove:
  assumes inv: "poll_inv (handlers w) (epoller w)" and c: "n_conns w a = Some c"
  obtains e2 h2 where "on_handler handler_remove (Conn_Handler a) w = Inr ((put_conn a (c\<lparr>c_handler := h2\<rparr>) w)\<lparr>epoller := e2\<rparr>)"
    "h_fd h2 = h_fd (c_handler c)" "poll_inv (handlers ((put_conn a (c\<lparr>c_handler := h2\<rparr>) w)\<lparr>epoller := e2\<rparr>)) e2"
proof -
  obtain e2 h2 where u: "handler_remove (Conn_Handler a) (epoller w) (c_handler c) = (e2, h2)" by force
  have h: "handlers w (Conn_Handler a) = Some (c_handler c)" using c by simp
  note U = handler_remove_effect [OF inv h u]
  have "handlers ((put_conn a (c\<lparr>c_handler := h2\<rparr>) w)\<lparr>epoller := e2\<rparr>) = (handlers w)(Conn_Handler a \<mapsto> h2)"
    using handlers_conn [of "put_conn a (c\<lparr>c_handler := h2\<rparr>) w" w a "c\<lparr>c_handler := h2\<rparr>"] by simp
  then show thesis using that [OF on_handler_conn [where op = handler_remove, OF c u]] U c by simp
qed

lemma destruct_ok:
  assumes inv: "poll_inv (handlers w) (epoller w)" and c: "n_conns w a = Some c"
  obtains w' where "destruct_gp_connection a w = Inr w'" "n_conns w' = (n_conns w)(a := None)" "rest_of w' = rest_of w"
    "connections w' = connections w" "pending_list w' = pending_list w" "poll_inv (handlers w') (epoller w')"
    "active_handler_list w' = remove1 (Conn_Handler a) (active_handler_list w)"
    "n_log w' = n_log w @ [Closed (h_fd (c_handler c)), Freed a]"
proof -
  let ?w = "w\<lparr>active_handler_list := remove1 (Conn_Handler a) (active_handler_list w)\<rparr>"
  have i: "poll_inv (handlers ?w) (epoller ?w)" and c1: "n_conns ?w a = Some c" using inv c by simp_all
  obtain e2 h2 where o: "on_handler handler_remove (Conn_Handler a) ?w = Inr ((put_conn a (c\<lparr>c_handler := h2\<rparr>) ?w)\<lparr>epoller := e2\<rparr>)"
    "h_fd h2 = h_fd (c_handler c)" "poll_inv (handlers ((put_conn a (c\<lparr>c_handler := h2\<rparr>) ?w)\<lparr>epoller := e2\<rparr>)) e2"
    by (rule on_handler_remove [OF i c1])
  define w1 where "w1 = (put_conn a (c\<lparr>c_handler := h2\<rparr>) ?w)\<lparr>epoller := e2\<rparr>"
  define w2 where "w2 = emit (Freed a) ((sys_close (h_fd (c_handler c)) w1)\<lparr>n_conns := (n_conns w1)(a := None)\<rparr>)"
  have d: "destruct_gp_connection a w = Inr w2" using c o(1) by (simp add: destruct_gp_connection_def w2_def w1_def)
  have s: "n_conns w2 = (n_conns w1)(a := None)" "rest_of w2 = rest_of w1" "n_log w2 = n_log w1 @ [Closed (h_fd (c_handler c)), Freed a]"
    "epoller w2 = (epoller w1)\<lparr>ep_interest := (ep_interest (epoller w1))(h_fd h2 := None)\<rparr>" "pending_list w2 = pending_list w1"
    "connections w2 = connections w1" "active_handler_list w2 = active_handler_list w1"
    by (simp_all add: w2_def sys_close_def o(2))
  have h: "handlers w1 (Conn_Handler a) = Some h2" by (simp add: w1_def)
  have p1: "poll_inv (handlers w1) (epoller w1)" using o(3) by (simp add: w1_def)
  have "poll_inv (handlers w2) (epoller w2)" unfolding handlers_free [OF s(1,2)] s(4) by (rule poll_inv_close [OF p1 h])
  moreover have "n_conns w2 = (n_conns w)(a := None)" "rest_of w2 = rest_of w" using s(1,2) by (simp_all add: w1_def)
  ultimately show thesis using that d s(3,5-) by (simp add: w1_def)
qed

text \<open>The destruction of a closed connection whose only reference is that of its task.\<close>

lemma destroy_ok:
  assumes inv: "net_inv k q ph x w" and c: "n_conns w a = Some c" and ph: "ph a = Dying" "x a = 1"
  obtains w1 w2 where "pending_func os app (destroy_conn_task a) w = Inr w1" "conn_ref_dec (Some a) w1 = Inr (None, w2)"
    "net_inv k q (ph(a := Normal)) (x(a := 0)) w2" "n_conns w2 = (n_conns w)(a := None)" "pending_list w2 = pending_list w"
    "rest_of w2 = rest_of w" "active_handler_list w2 = remove1 (Conn_Handler a) (active_handler_list w)"
    "n_log w2 = n_log w @ [Closed (c_fd c), Freed a]"
proof -
  have ok: "c_ref c = 1" "h_fd (c_handler c) = c_fd c" "c_state c = K_Disconnected"
    using net_invD(2) [OF inv c] ph by (simp_all add: conn_ok_def phase_ok_def)
  obtain e2 h2 where o: "on_handler handler_remove (Conn_Handler a) w = Inr ((put_conn a (c\<lparr>c_handler := h2\<rparr>) w)\<lparr>epoller := e2\<rparr>)"
    "h_fd h2 = h_fd (c_handler c)" "poll_inv (handlers ((put_conn a (c\<lparr>c_handler := h2\<rparr>) w)\<lparr>epoller := e2\<rparr>)) e2"
    by (rule on_handler_remove [OF net_invD(6) [OF inv] c])
  let ?c1 = "c\<lparr>c_handler := h2\<rparr>" let ?w1 = "(put_conn a ?c1 w)\<lparr>epoller := e2\<rparr>"
  let ?c2 = "?c1\<lparr>c_ref := c_ref c - 1\<rparr>" let ?v = "put_conn a ?c2 ?w1"
  have "handlers ?v = handlers ?w1" using handlers_same_conn [of ?v ?w1 a ?c2 ?c1] by simp
  then have pv: "poll_inv (handlers ?v) (epoller ?v)" using o(3) by simp
  have cv: "n_conns ?v a = Some ?c2" by simp
  obtain w2 where D: "destruct_gp_connection a ?v = Inr w2" "n_conns w2 = (n_conns ?v)(a := None)" "rest_of w2 = rest_of ?v"
    "connections w2 = connections ?v" "pending_list w2 = pending_list ?v" "poll_inv (handlers w2) (epoller w2)"
    "active_handler_list w2 = remove1 (Conn_Handler a) (active_handler_list ?v)"
    "n_log w2 = n_log ?v @ [Closed (h_fd (c_handler ?c2)), Freed a]"
    by (rule destruct_ok [OF pv cv])
  have f: "pending_func os app (destroy_conn_task a) w = Inr ?w1"
    using c ok(3) o(1) by (simp add: destroy_conn_task_def create_gp_pending_task_def queue_in_loop_destroy_conn_def connection_destroyed_def)
  have r: "conn_ref_dec (Some a) ?w1 = Inr (None, w2)" using D(1) ok(1) by (simp add: conn_ref_dec_def)
  have n: "net_inv k q (ph(a := Normal)) (x(a := 0)) w2"
    by (rule net_inv_free [OF inv c ph(1)]) (use D in simp_all)
  show thesis by (rule that [OF f r n]) (use D ok o(2) in simp_all)
qed

text \<open>What one task does, whichever it is.\<close>

definition task_step :: "gp_pending_task \<Rightarrow> net \<Rightarrow> net \<Rightarrow> gp_pending_task list \<Rightarrow> bool" where
  "task_step t w w' us \<longleftrightarrow>
     live w' \<subseteq> live w \<and> (us = [] \<or> live w' \<noteq> live w) \<and> dom (n_conns w') \<subseteq> dom (n_conns w) \<and>
     active_handler_list w' = active_handler_list w \<and> calling_pending_functors w' = calling_pending_functors w \<and>
     n_fresh w' = n_fresh w \<and>
     (\<forall>a. t = destroy_conn_task a \<longrightarrow> n_conns w' a = None)"

lemma run_pending_ok:
  assumes app: "app_ok app" and inv: "idle_inv q w" and p: "pending_list w = t # ts" and act: "active_handler_list w = []"
  obtains w' us where "run_pending os app t w = Inr w'" "idle_inv (q \<or> ts = []) w'" "pending_list w' = ts @ us" "task_step t w w' us"
proof -
  obtain a c where a: "task_ok t a" "n_conns w a = Some c" "net_inv 1 (q \<or> ts = []) (run_phase t a) ((\<lambda>_. 0)(a := 1)) w"
    by (rule pending_head [OF inv p])
  have pt: "pt_conn t = Some a" by (rule task_ok_conn [OF a(1)])
  show thesis
  proof (cases "t = destroy_conn_task a")
    case True
    have ph: "run_phase t a a = Dying" "((\<lambda>_. 0)(a := 1 :: nat)) a = 1" using True by (simp_all add: run_phase_def)
    obtain w1 w2 where D: "pending_func os app (destroy_conn_task a) w = Inr w1" "conn_ref_dec (Some a) w1 = Inr (None, w2)"
      "net_inv 1 (q \<or> ts = []) ((run_phase t a)(a := Normal)) (((\<lambda>_. 0)(a := 1))(a := 0)) w2"
      "n_conns w2 = (n_conns w)(a := None)" "pending_list w2 = pending_list w" "rest_of w2 = rest_of w"
      "active_handler_list w2 = remove1 (Conn_Handler a) (active_handler_list w)" "n_log w2 = n_log w @ [Closed (c_fd c), Freed a]"
      by (rule destroy_ok [OF a(3,2) ph])
    have "net_inv 1 (q \<or> ts = []) (\<lambda>_. Normal) (\<lambda>_. 0) w2" using D(3) by (simp add: run_phase_def fun_upd_idem)
    then have i: "idle_inv (q \<or> ts = []) (w2\<lparr>pending_list := ts\<rparr>)" using pending_pop D(5) p by simp
    have r: "run_pending os app t w = Inr (w2\<lparr>pending_list := ts\<rparr>)"
      using D(1,2,5) p pt a(1) True by (simp add: run_pending_def del: pending_func.simps)
    have "c_state c = K_Disconnected" using net_invD(2) [OF a(3,2)] ph by (simp add: conn_ok_def phase_ok_def)
    then have "live w2 = live w" using D(4) a(2) by (auto simp: live_def)
    moreover have "b = a" if "t = destroy_conn_task b" for b using that pt True by (simp add: destroy_conn_task_def create_gp_pending_task_def)
    ultimately have "task_step t w (w2\<lparr>pending_list := ts\<rparr>) []"
      using D(4,7) act rest_of_eqD [OF D(6)] by (auto simp: task_step_def live_def)
    then show thesis using that [of "w2\<lparr>pending_list := ts\<rparr>" "[]"] r i by simp
  next
    case False
    then have inv1: "net_inv 1 (q \<or> ts = []) (\<lambda>_. Normal) ((\<lambda>_. 0)(a := 1)) w" using a(3) by (simp add: run_phase_def fun_upd_idem)
    obtain w1 us D where F: "pending_func os app t w = Inr w1" "net_inv 1 (q \<or> ts = []) (\<lambda>_. Normal) ((\<lambda>_. 0)(a := 1)) w1"
      "cb_step D w w1" "D \<subseteq> live w" "pending_list w1 = pending_list w @ us" "D = {} \<longrightarrow> us = []"
      using pending_func_ok [OF app inv1 a(2,1) False] by blast
    obtain c1 where c1: "n_conns w1 a = Some c1" using cb_step_conn [OF F(3) a(2)] by blast
    note d = task_ref_dec [OF F(2) c1]
    let ?w2 = "put_conn a (c1\<lparr>c_ref := c_ref c1 - 1\<rparr>) w1"
    have p2: "pending_list ?w2 = t # (ts @ us)" using F(5) p by simp
    note i = pending_pop [OF d(2) p2]
    have r: "run_pending os app t w = Inr (?w2\<lparr>pending_list := ts @ us\<rparr>)"
      using F(1) d(1) p2 pt a(1) by (simp add: run_pending_def del: pending_func.simps)
    have "cb_step {} w1 ?w2" by (rule cb_step_put [OF c1, where ts = "[]" and c' = "c1\<lparr>c_ref := c_ref c1 - 1\<rparr>"]) simp_all
    then have s: "cb_step D w ?w2" using cb_step_trans [OF F(3)] by fastforce
    have nd: "t \<noteq> destroy_conn_task b" for b using False pt by (auto simp: destroy_conn_task_def create_gp_pending_task_def)
    have rs: "rest_of ?w2 = rest_of w" "live ?w2 = live w - D" "active_handler_list ?w2 = active_handler_list w"
      using s unfolding cb_step_def by blast+
    have "live (?w2\<lparr>pending_list := ts @ us\<rparr>) = live w - D" using rs(2) by (simp add: live_def)
    then have "task_step t w (?w2\<lparr>pending_list := ts @ us\<rparr>) us"
      using rest_of_eqD [OF rs(1)] cb_step_dom [OF s] F(4,6) nd rs(3) by (auto simp: task_step_def)
    then show thesis using that [OF r i] by simp
  qed
qed

lemma live_finite:
  assumes "net_inv k q ph x w"
  shows "finite (live w)"
proof (rule finite_subset)
  show "live w \<subseteq> {..<n_fresh w}" using net_invD(5) [OF assms] by (fastforce simp: live_def not_le [symmetric])
qed simp

text \<open>What the walk over the tasks leaves as it is; \<open>ts\<close> are the tasks it started with.\<close>

definition walk_step :: "gp_pending_task list \<Rightarrow> net \<Rightarrow> net \<Rightarrow> bool" where
  "walk_step ts w w' \<longleftrightarrow>
     live w' \<subseteq> live w \<and> dom (n_conns w') \<subseteq> dom (n_conns w) \<and> active_handler_list w' = active_handler_list w \<and>
     calling_pending_functors w' = calling_pending_functors w \<and> n_fresh w' = n_fresh w \<and>
     (\<forall>a. destroy_conn_task a \<in> set ts \<longrightarrow> n_conns w' a = None)"

lemma task_walk_step:
  assumes "task_step t w w1 us" and "walk_step (ts @ us) w1 w2"
  shows "walk_step (t # ts) w w2"
  using assms unfolding task_step_def walk_step_def by (auto 0 3 simp: dom_def)

lemma walk_step_one: "task_step t w w1 us \<Longrightarrow> walk_step [t] w w1"
  unfolding task_step_def walk_step_def by auto

text \<open>
  The walk ends: a task that queues further ones has closed a connection, and closed connections stay closed.
\<close>

lemma pending_walk_ok:
  assumes app: "app_ok app"
  shows "idle_inv q w \<Longrightarrow> active_handler_list w = [] \<Longrightarrow>
    \<exists>bound w'. (\<forall>fuel \<ge> bound. pending_walk os app fuel w = Some (Inr w')) \<and> idle_inv True w' \<and> walk_step (pending_list w) w w'"
proof (induction w arbitrary: q rule: wf_induct_rule [OF wf_measures [of "[\<lambda>w. card (live w), \<lambda>w. length (pending_list w)]"]])
  case (1 w)
  note inv = 1(2) and act = 1(3)
  show ?case
  proof (cases "pending_list w")
    case Nil
    have "pending_walk os app fuel w = Some (Inr w)" if "1 \<le> fuel" for fuel using that Nil by (cases fuel) simp_all
    moreover have "idle_inv True w" using inv no_tasks_quiet [OF _ Nil] by (cases q) simp_all
    ultimately show ?thesis using Nil by (intro exI [of _ 1] exI [of _ w]) (simp add: walk_step_def)
  next
    case (Cons t ts)
    obtain w1 us where R: "run_pending os app t w = Inr w1" "idle_inv (q \<or> ts = []) w1" "pending_list w1 = ts @ us" "task_step t w w1 us"
      by (rule run_pending_ok [OF app inv Cons act])
    show ?thesis
    proof (cases "ts = []")
      case True
      have "pending_walk os app fuel w = Some (Inr w1)" if "1 \<le> fuel" for fuel using that Cons True R(1) by (cases fuel) simp_all
      then show ?thesis using R(2) walk_step_one [OF R(4)] True Cons by (intro exI [of _ 1] exI [of _ w1]) simp
    next
      case False
      have l: "live w1 \<subseteq> live w" "us = [] \<or> live w1 \<noteq> live w" "active_handler_list w1 = []" using R(4) act by (auto simp: task_step_def)
      have "card (live w1) < card (live w) \<or> card (live w1) = card (live w) \<and> length (pending_list w1) < length (pending_list w)"
      proof (cases "live w1 = live w")
        case True
        then show ?thesis using l(2) R(3) Cons by simp
      next
        case False
        then show ?thesis using psubset_card_mono [OF live_finite [OF inv]] l(1) by blast
      qed
      then have m: "(w1, w) \<in> measures [\<lambda>w. card (live w), \<lambda>w. length (pending_list w)]" by auto
      obtain bound w2 where W: "\<forall>fuel \<ge> bound. pending_walk os app fuel w1 = Some (Inr w2)" "idle_inv True w2" "walk_step (pending_list w1) w1 w2"
        using 1(1) [OF m R(2) l(3)] by blast
      have "pending_walk os app fuel w = Some (Inr w2)" if "Suc bound \<le> fuel" for fuel
        using that Cons False R(1) W(1) by (cases fuel) simp_all
      then show ?thesis using W(2) task_walk_step [OF R(4)] W(3) R(3) Cons by (intro exI [of _ "Suc bound"] exI [of _ w2]) simp
    qed
  qed
qed

lemma idle_inv_calling [simp]: "idle_inv q (w\<lparr>calling_pending_functors := z\<rparr>) = idle_inv q w"
  by simp

lemma do_pending_functors_ok:
  assumes app: "app_ok app" and inv: "idle_inv q w" and act: "active_handler_list w = []"
  obtains bound w' where "\<forall>fuel \<ge> bound. do_pending_functors os app fuel w = Some (Inr w')" "idle_inv True w'"
    "active_handler_list w' = []" "\<not> calling_pending_functors w'" "n_fresh w' = n_fresh w" "dom (n_conns w') \<subseteq> dom (n_conns w)"
    "\<forall>a. destroy_conn_task a \<in> set (pending_list w) \<longrightarrow> n_conns w' a = None"
proof -
  let ?w = "w\<lparr>calling_pending_functors := True\<rparr>"
  have "idle_inv q ?w" "active_handler_list ?w = []" using inv act by simp_all
  from pending_walk_ok [OF app this] obtain bound w1 where
    W: "\<forall>fuel \<ge> bound. pending_walk os app fuel ?w = Some (Inr w1)" "idle_inv True w1" "walk_step (pending_list ?w) ?w w1" by blast
  let ?w' = "w1\<lparr>calling_pending_functors := False\<rparr>"
  have "\<forall>fuel \<ge> bound. do_pending_functors os app fuel w = Some (Inr ?w')"
    using W(1) by (simp add: do_pending_functors_def)
  then show thesis by (rule that) (use W(2,3) act in \<open>auto simp: walk_step_def\<close>)
qed

section \<open>A turn of the loop\<close>

text \<open>
  What the environment may do in a turn that starts in \<open>w\<close>: calls name connections that exist, messages from
  other threads contain a NUL byte, \<open>epoll_wait\<close> delivers events of different watched handlers, \<open>accept4\<close>
  gives descriptors that are not in use.
\<close>

definition turn_ok :: "turn \<Rightarrow> net \<Rightarrow> bool" where
  "turn_ok tn w \<longleftrightarrow>
     (\<forall>call \<in> set (t_timers tn). api_ok True w call) \<and> (\<forall>call \<in> set (t_others tn). api_ok False w call) \<and>
     distinct (map fst (t_events tn)) \<and> (\<forall>(p, r) \<in> set (t_events tn). watched w p \<and> revents_ok r) \<and>
     (Accept_Handler \<in> fst ` set (t_events tn) \<longrightarrow> accept_ok (t_os tn) w)"

lemma handler_watched:
  assumes "net_inv k q ph x w" and "handlers w p = Some h" and "h_index h = k_added"
  shows "watched w p"
  using poll_invD(2) [OF net_invD(6) [OF assms(1)] assms(2,3)] unfolding watched_def by blast

lemma watched_step:
  assumes i: "idle_inv True w" and i': "idle_inv True w'" and s: "api_step w w'" and p: "watched w p"
  shows "watched w' p"
proof -
  have rs: "rest_of w' = rest_of w" using s by (simp add: api_step_def)
  obtain h where h: "handlers w p = Some h" "h_index h = k_added" by (rule watched_handler [OF i p])
  show ?thesis
  proof (cases p)
    case (Conn_Handler a)
    have "a \<in> live w" using watched_live [of w a] i p Conn_Handler by (simp add: net_idle_def)
    then have "a \<in> live w'" using api_step_cb [OF s] by (simp add: cb_step_def)
    then obtain c where c: "n_conns w' a = Some c" "c_state c \<noteq> K_Disconnected" by (auto simp: live_def)
    show ?thesis using handler_watched [OF i', of p "c_handler c"] active_phase(4) [OF net_invD(2) [OF i' c(1)] c(2)] c(1) Conn_Handler by simp
  next
    case Accept_Handler
    then have "handlers w' p = handlers w p" using rest_of_eqD [OF rs] by (simp add: handlers_def)
    then show ?thesis using handler_watched [OF i'] h by simp
  next
    case Wakeup_Handler
    then have "handlers w' p = handlers w p" using rest_of_eqD [OF rs] by (simp add: handlers_def)
    then show ?thesis using handler_watched [OF i'] h by simp
  qed
qed

lemma net_idle_loud: "net_idle True w \<Longrightarrow> net_idle False w"
  using net_inv_loud by (simp add: net_idle_def)

text \<open>The state between two turns.\<close>

definition loop_idle :: "net \<Rightarrow> bool" where
  "loop_idle w \<longleftrightarrow> idle_inv True w \<and> active_handler_list w = [] \<and> \<not> calling_pending_functors w"

lemma loop_turn_ok:
  assumes app: "app_ok app" and inv: "loop_idle w" and tn: "turn_ok tn w"
  obtains bound w' where "\<forall>fuel \<ge> bound. loop_turn app fuel tn w = Some (Inr w')" "loop_idle w'"
    "\<forall>a. destroy_conn_task a \<in> set (pending_list w) \<longrightarrow> n_conns w' a = None"
proof -
  have i: "idle_inv True w" and act: "active_handler_list w = []" and cp: "\<not> calling_pending_functors w" using inv by (simp_all add: loop_idle_def)
  note T = tn [unfolded turn_ok_def]
  obtain w1 where w1: "exec_apis (t_os tn) True (t_timers tn) w = Inr w1" "idle_inv True w1" "api_step w w1"
    using exec_apis_ok [OF i, of "t_timers tn" True "t_os tn"] T by blast
  have "\<forall>call \<in> set (t_others tn). api_ok False w1 call" using T api_ok_step [OF w1(3)] by blast
  then obtain v where v: "exec_apis (t_os tn) False (t_others tn) w1 = Inr v" "idle_inv True v" "api_step w1 v"
    using exec_apis_ok [OF w1(2), of "t_others tn" False "t_os tn"] by blast
  have s: "api_step w v" by (rule api_step_trans [OF w1(3) v(3)])
  have sa: "active_handler_list v = []" "calling_pending_functors v = calling_pending_functors w" "\<exists>us. pending_list v = pending_list w @ us"
    using s act rest_of_eqD [of v w] unfolding api_step_def by simp_all
  have vi: "net_idle True v" using v(2) by (simp add: net_idle_def)
  have wt: "\<forall>p \<in> fst ` set (t_events tn). watched v p" using T watched_step [OF i v(2) s] by auto
  obtain w2 where w2: "fill_active_handlers (t_events tn) v = Inr w2" "net_idle True w2" "\<forall>(p, r) \<in> set (t_events tn). event_ready w2 p r"
    "active_handler_list w2 = map fst (t_events tn)" "pending_list w2 = pending_list v"
    "calling_pending_functors w2 = calling_pending_functors v" "\<forall>fd. unused_fd w2 fd = unused_fd v fd"
    using fill_active_handlers_ok [OF vi _ wt] T sa(1) by auto
  have "unused_fd v fd" if "unused_fd w fd" for fd using unused_fd_step [OF cb_step_ev [OF api_step_cb [OF s], of "{}"] _ that] by simp
  then have acc: "Accept_Handler \<in> fst ` set (t_events tn) \<longrightarrow> accept_ok (t_os tn) w2" using T w2(7) by (simp add: accept_ok_def)
  have ev: "\<forall>(p, r) \<in> set (t_events tn). event_ready w2 p r \<and> revents_ok r" using T w2(3) by auto
  have "distinct (map fst (t_events tn))" using T by blast
  from handle_active_ok [OF app net_idle_loud [OF w2(2)] this ev acc w2(4)]
  obtain w3 ts where w3: "handle_active (t_os tn) app (map fst (t_events tn)) w2 = Inr w3" "net_idle False w3" "active_handler_list w3 = []"
    "pending_list w3 = pending_list w2 @ ts" "calling_pending_functors w3 = calling_pending_functors w2" by blast
  have i3: "idle_inv False w3" using w3(2) by (simp add: net_idle_def)
  obtain bound w' where D: "\<forall>fuel \<ge> bound. do_pending_functors (t_os tn) app fuel w3 = Some (Inr w')" "idle_inv True w'"
    "active_handler_list w' = []" "\<not> calling_pending_functors w'" "n_fresh w' = n_fresh w3" "dom (n_conns w') \<subseteq> dom (n_conns w3)"
    "\<forall>a. destroy_conn_task a \<in> set (pending_list w3) \<longrightarrow> n_conns w' a = None"
    by (rule do_pending_functors_ok [where os = "t_os tn", OF app i3 w3(3)])
  have "\<forall>fuel \<ge> bound. loop_turn app fuel tn w = Some (Inr w')"
    using w1(1) v(1) w2(1,4) w3(1) D(1) by (simp add: loop_turn_def poller_poll_def)
  moreover have "loop_idle w'" using D(2-4) by (simp add: loop_idle_def)
  moreover have "n_conns w' a = None" if "destroy_conn_task a \<in> set (pending_list w)" for a
    using D(7) that w3(4) w2(5) sa(3) by auto
  ultimately show thesis using that by blast
qed

text \<open>
  A closed connection has its destruction queued, so it does not survive the next turn.
\<close>

lemma closed_has_destroy:
  assumes "idle_inv q w" and "n_conns w a = Some c" and "c_state c = K_Disconnected"
  shows "destroy_conn_task a \<in> set (pending_list w)"
proof -
  have "destroy_conn_task a \<in> set (tasks_on a (waiting 0 w))" using net_invD(2) [OF assms(1,2)] assms(3) by (auto simp: conn_ok_def phase_ok_def)
  then show ?thesis by (simp add: tasks_on_def waiting_def)
qed

text \<open>A run whose every turn the environment plays by the rules.\<close>

fun run_ok :: "app \<Rightarrow> turn list \<Rightarrow> net \<Rightarrow> bool" where
  "run_ok app [] w \<longleftrightarrow> True"
| "run_ok app (tn # tns) w \<longleftrightarrow>
     quit w \<or> turn_ok tn w \<and> (\<forall>fuel w1. loop_turn app fuel tn w = Some (Inr w1) \<longrightarrow> run_ok app tns w1)"

lemma loop_turns_ok:
  assumes app: "app_ok app"
  shows "loop_idle w \<Longrightarrow> run_ok app tns w \<Longrightarrow>
    \<exists>bound w'. (\<forall>fuel \<ge> bound. loop_turns app fuel tns w = Some (Inr w')) \<and> loop_idle w'"
proof (induction tns arbitrary: w)
  case (Cons tn tns)
  show ?case
  proof (cases "quit w")
    case True
    then show ?thesis using Cons.prems by (intro exI [of _ 0] exI [of _ "w\<lparr>looping := False\<rparr>"]) (simp add: loop_idle_def)
  next
    case False
    then have t: "turn_ok tn w" using Cons.prems(2) by simp
    obtain b w1 where w1: "\<forall>fuel \<ge> b. loop_turn app fuel tn w = Some (Inr w1)" "loop_idle w1"
      "\<forall>a. destroy_conn_task a \<in> set (pending_list w) \<longrightarrow> n_conns w1 a = None"
      by (rule loop_turn_ok [OF app Cons.prems(1) t])
    have "run_ok app tns w1" using Cons.prems(2) False w1(1) by auto
    then obtain b' w2 where w2: "\<forall>fuel \<ge> b'. loop_turns app fuel tns w1 = Some (Inr w2)" "loop_idle w2" using Cons.IH w1(2) by blast
    have "\<forall>fuel \<ge> max b b'. loop_turns app fuel (tn # tns) w = Some (Inr w2)" using w1(1) w2(1) False by simp
    then show ?thesis using w2(2) by blast
  qed
qed auto

end
