(* ===== verification/Gp_Net_Frame.thy ===== *)
theory Gp_Net_Frame
  imports Gp_Net_Inv
begin

text \<open>
  What the operations add to the log of observations and to the queue of tasks, whether or not the invariant
  holds: each connection that leaves the heap is logged as freed, and a task queued while tasks are run wakes the
  loop up.
\<close>

section \<open>Relations between states\<close>

text \<open>A relation that every step of a composed operation keeps holds for the whole operation.\<close>

locale step_relation =
  fixes R :: "net \<Rightarrow> net \<Rightarrow> bool"
  assumes stays: "R w w" and follows: "R w w' \<Longrightarrow> R w' w'' \<Longrightarrow> R w w''"
begin

lemma seq: "bindE r f = Inr w' \<Longrightarrow> (\<And>x. r = Inr x \<Longrightarrow> R w x) \<Longrightarrow> (\<And>x. r = Inr x \<Longrightarrow> f x = Inr w' \<Longrightarrow> R x w') \<Longrightarrow> R w w'"
  using follows unfolding bindE_Inr_iff by blast

lemma calls:
  assumes "exec_apis os inl xs w = Inr w'" and "\<And>x v v'. exec_api os inl x v = Inr v' \<Longrightarrow> R v v'"
  shows "R w w'"
  using assms(1)
proof (induction xs arbitrary: w)
  case (Cons x xs)
  then show ?case using seq [of "exec_api os inl x w" "exec_apis os inl xs" w' w] assms(2) by auto
qed (simp add: stays)

lemma events:
  assumes "fill_active_handlers evs w = Inr w'" and "\<And>p r v v'. on_handler (set_revents r) p v = Inr v' \<Longrightarrow> R v v'"
    and "\<And>v l. R v (v\<lparr>active_handler_list := l\<rparr>)"
  shows "R w w'"
  using assms(1)
proof (induction evs w rule: fill_active_handlers.induct)
  case (2 p r evs w)
  then obtain w1 where w1: "on_handler (set_revents r) p w = Inr w1" "fill_active_handlers evs (w1\<lparr>active_handler_list := active_handler_list w1 @ [p]\<rparr>) = Inr w'"
    by (auto simp: bindE_Inr_iff)
  show ?case using follows [OF assms(2) [OF w1(1)]] follows [OF assms(3)] 2(1) [OF w1(2)] by blast
qed (simp add: stays)

lemma walk:
  assumes "pending_walk os app fuel w = Some (Inr w')" and "\<And>t v v'. run_pending os app t v = Inr v' \<Longrightarrow> R v v'"
  shows "R w w'"
  using assms
proof (induction os app fuel w rule: pending_walk.induct)
  case (2 os app fuel w)
  show ?case
  proof (cases "pending_list w")
    case Nil
    then show ?thesis using 2(2) stays by simp
  next
    case (Cons t ts)
    then obtain w1 where w1: "run_pending os app t w = Inr w1" "(if ts = [] then Some (Inr w1) else pending_walk os app fuel w1) = Some (Inr w')"
      using 2(2) by (auto split: sum.splits)
    then show ?thesis using 2(1) [OF Cons w1(1) _ _ 2(3)] 2(3) [OF w1(1)] follows by (auto split: if_splits)
  qed
qed simp

end

section \<open>What an operation adds to the log and the queue\<close>

definition allocated :: "net \<Rightarrow> nat \<Rightarrow> nat" where
  "allocated w a = (if n_conns w a = None then 0 else 1)"

definition created :: "net \<Rightarrow> net \<Rightarrow> nat \<Rightarrow> nat" where
  "created w w' a = (if n_fresh w \<le> a \<and> a < n_fresh w' then 1 else 0)"

text \<open>Every connection that leaves the heap is logged as freed, as often as it leaves.\<close>

definition heap_frame :: "net \<Rightarrow> net \<Rightarrow> bool" where
  "heap_frame w w' \<longleftrightarrow>
     n_fresh w \<le> n_fresh w' \<and>
     (\<exists>l. n_log w' = n_log w @ l \<and> (\<forall>a. count_list l (Freed a) + allocated w' a = allocated w a + created w w' a))"

text \<open>A task that is queued while tasks are run wakes the loop up.\<close>

definition queue_frame :: "net \<Rightarrow> net \<Rightarrow> bool" where
  "queue_frame w w' \<longleftrightarrow>
     calling_pending_functors w' = calling_pending_functors w \<and> n_eventfd w \<le> n_eventfd w' \<and>
     (\<exists>us. pending_list w' = pending_list w @ us \<and> (us = [] \<or> \<not> calling_pending_functors w \<or> 0 < n_eventfd w'))"

definition frame :: "net \<Rightarrow> net \<Rightarrow> bool" where
  "frame w w' \<longleftrightarrow> heap_frame w w' \<and> queue_frame w w'"

lemma frame_refl [simp]: "frame w w"
  by (auto simp: frame_def heap_frame_def queue_frame_def created_def)

lemma heap_frame_trans:
  assumes "heap_frame w w'" and "heap_frame w' w''"
  shows "heap_frame w w''"
proof -
  obtain l where l: "n_log w' = n_log w @ l" "\<forall>a. count_list l (Freed a) + allocated w' a = allocated w a + created w w' a" "n_fresh w \<le> n_fresh w'"
    using assms(1) unfolding heap_frame_def by blast
  obtain m where m: "n_log w'' = n_log w' @ m" "\<forall>a. count_list m (Freed a) + allocated w'' a = allocated w' a + created w' w'' a" "n_fresh w' \<le> n_fresh w''"
    using assms(2) unfolding heap_frame_def by blast
  have "count_list (l @ m) (Freed a) + allocated w'' a = allocated w a + created w w'' a" for a
  proof -
    have "created w w'' a = created w w' a + created w' w'' a" using l(3) m(3) by (simp add: created_def)
    moreover have "count_list l (Freed a) + allocated w' a = allocated w a + created w w' a"
      "count_list m (Freed a) + allocated w'' a = allocated w' a + created w' w'' a" using l(2) m(2) by blast+
    ultimately show ?thesis by simp
  qed
  then show ?thesis using l(1,3) m(1,3) unfolding heap_frame_def by (intro conjI exI [of _ "l @ m"]) simp_all
qed

lemma queue_frame_trans:
  assumes "queue_frame w w'" and "queue_frame w' w''"
  shows "queue_frame w w''"
  using assms unfolding queue_frame_def by auto

lemma frame_trans: "frame w w' \<Longrightarrow> frame w' w'' \<Longrightarrow> frame w w''"
  using heap_frame_trans queue_frame_trans unfolding frame_def by blast

interpretation fr: step_relation frame
  by unfold_locales (simp, rule frame_trans)

text \<open>Changes that neither allocate, free, queue nor log a release.\<close>

lemma frame_same:
  assumes "\<And>a. n_conns w' a = None \<longleftrightarrow> n_conns w a = None" and "n_fresh w' = n_fresh w" and "pending_list w' = pending_list w"
    and "n_eventfd w \<le> n_eventfd w'" and "calling_pending_functors w' = calling_pending_functors w"
    and "n_log w' = n_log w @ l" and "\<And>a. Freed a \<notin> set l"
  shows "frame w w'"
  using assms by (auto simp: frame_def heap_frame_def queue_frame_def allocated_def created_def count_notin)

lemma get_conn_Inr: "get_conn w a = Inr c \<longleftrightarrow> n_conns w a = Some c"
  by (auto simp: get_conn_def split: option.splits)

lemma deref_Inr: "deref w p = Inr (a, c) \<longleftrightarrow> p = Some a \<and> n_conns w a = Some c"
  by (auto simp: deref_def bindE_Inr_iff get_conn_Inr split: option.splits)

lemma frame_put_conn [intro]: "n_conns w a \<noteq> None \<Longrightarrow> frame w (put_conn a c w)"
  by (rule frame_same [where l = "[]"]) (auto simp: put_conn_def)

lemma frame_emit: "(\<And>a. ev \<noteq> Freed a) \<Longrightarrow> frame w (emit ev w)"
  by (rule frame_same [where l = "[ev]"]) (auto simp: emit_def)

lemma frame_irrelevant [simp]:
  "frame w (w'\<lparr>epoller := z1\<rparr>) = frame w w'" "frame w (w'\<lparr>n_calls := z2\<rparr>) = frame w w'" "frame w (w'\<lparr>active_handler_list := z3\<rparr>) = frame w w'"
  "frame w (w'\<lparr>connections := z4\<rparr>) = frame w w'" "frame w (w'\<lparr>quit := z5\<rparr>) = frame w w'" "frame w (w'\<lparr>acceptor := z6\<rparr>) = frame w w'"
  "frame w (w'\<lparr>wakeup_handler := z7\<rparr>) = frame w w'" "frame w (w'\<lparr>n_listen_open := z8\<rparr>) = frame w w'"
  by (simp_all add: frame_def heap_frame_def queue_frame_def allocated_def created_def)

lemma frame_irrelevant_from [simp]:
  "frame (w\<lparr>epoller := z1\<rparr>) w' = frame w w'" "frame (w\<lparr>n_calls := z2\<rparr>) w' = frame w w'" "frame (w\<lparr>active_handler_list := z3\<rparr>) w' = frame w w'"
  "frame (w\<lparr>connections := z4\<rparr>) w' = frame w w'" "frame (w\<lparr>quit := z5\<rparr>) w' = frame w w'" "frame (w\<lparr>acceptor := z6\<rparr>) w' = frame w w'"
  by (simp_all add: frame_def heap_frame_def queue_frame_def allocated_def created_def)

lemma frame_put_handler [intro]: "frame w (put_handler p h w)"
  by (rule frame_same [where l = "[]"]; cases p) auto

lemma on_handler_form:
  assumes "on_handler op p w = Inr w'"
  obtains e h1 where "w' = put_handler p h1 (w\<lparr>epoller := e\<rparr>)"
proof -
  obtain h where "get_handler w p = Inr h" using assms by (auto simp: on_handler_def bindE_Inr_iff)
  then show thesis using assms that by (cases "op p (epoller w) h") (auto simp: on_handler_def)
qed

lemma frame_on_handler: "on_handler op p w = Inr w' \<Longrightarrow> frame w w'"
  by (erule on_handler_form) (use frame_put_handler [of "w\<lparr>epoller := e\<rparr>" for e] in simp)

lemma on_handler_dom: "on_handler op p w = Inr w' \<Longrightarrow> n_conns w' a = None \<longleftrightarrow> n_conns w a = None"
  by (erule on_handler_form, cases p) auto

lemma frame_sys_write: "sys_write os fd msg w = (r, w') \<Longrightarrow> frame w w'"
  using frame_emit [of _ "w\<lparr>n_calls := n_calls w + 1\<rparr>"]
  by (auto simp: sys_write_def Let_def split: sum.splits if_splits)

lemma frame_sys_close: "frame w (sys_close fd w)"
  using frame_emit [of "Closed fd" "w\<lparr>epoller := (epoller w)\<lparr>ep_interest := (ep_interest (epoller w))(fd := None)\<rparr>\<rparr>"] by (simp add: sys_close_def)

lemma frame_wakeup: "frame w (wakeup w)"
  by (rule frame_same [where l = "[]"]) (auto simp: wakeup_def)

lemma frame_destruct:
  assumes "destruct_gp_connection a w = Inr w'"
  shows "frame w w'"
proof -
  let ?w = "w\<lparr>active_handler_list := remove1 (Conn_Handler a) (active_handler_list w)\<rparr>"
  obtain c w1 where w1: "n_conns w a = Some c" "on_handler handler_remove (Conn_Handler a) ?w = Inr w1"
    "w' = emit (Freed a) ((sys_close (h_fd (c_handler c)) w1)\<lparr>n_conns := (n_conns w1)(a := None)\<rparr>)"
    using assms by (auto simp: destruct_gp_connection_def bindE_Inr_iff get_conn_Inr)
  have f: "frame w w1" using frame_on_handler [OF w1(2)] by simp
  have "n_conns w1 a \<noteq> None" using on_handler_dom [OF w1(2), of a] w1(1) by simp
  then have "frame w1 w'" unfolding w1(3)
    by (auto simp: frame_def heap_frame_def queue_frame_def allocated_def created_def emit_def sys_close_def)
  then show ?thesis using frame_trans [OF f] by blast
qed

lemma frame_conn_ref_inc: "conn_ref_inc p w = Inr w' \<Longrightarrow> frame w w'"
  by (auto simp: conn_ref_inc_def bindE_Inr_iff deref_Inr)

lemma frame_conn_ref_dec:
  assumes "conn_ref_dec p w = Inr (p', w')"
  shows "frame w w'"
proof -
  obtain a c where c: "n_conns w a = Some c" "p = Some a" using assms by (auto simp: conn_ref_dec_def bindE_Inr_iff deref_Inr)
  let ?w = "put_conn a (c\<lparr>c_ref := c_ref c - 1\<rparr>) w"
  have "frame w ?w" using c by auto
  then show ?thesis using assms c frame_destruct frame_trans by (auto simp: conn_ref_dec_def bindE_Inr_iff deref_Inr Let_def split: if_splits)
qed

lemma frame_queue:
  assumes "gp_queue_in_loop inl t w = Inr w'"
  shows "frame w w'"
proof -
  obtain w1 where w1: "conn_ref_inc (pt_conn t) w = Inr w1"
    "w' = (let w2 = w1\<lparr>pending_list := pending_list w1 @ [t]\<rparr> in if \<not> inl \<or> calling_pending_functors w2 then wakeup w2 else w2)"
    using assms by (auto simp: gp_queue_in_loop_def bindE_Inr_iff Let_def)
  have "frame w1 w'" unfolding w1(2)
    by (auto simp: Let_def frame_def heap_frame_def queue_frame_def allocated_def created_def wakeup_def)
  then show ?thesis using frame_conn_ref_inc [OF w1(1)] frame_trans by blast
qed

lemma frame_run_in_loop:
  assumes r: "gp_run_in_loop func inl t w = Inr w'" and f: "\<And>v v'. func t v = Inr v' \<Longrightarrow> frame v v'"
  shows "frame w w'"
proof (cases "inl \<and> conn_task t")
  case True
  then obtain w1 w2 p where "conn_ref_inc (pt_conn t) w = Inr w1" "func t w1 = Inr w2" "conn_ref_dec (pt_conn t) w2 = Inr (p, w')"
    using r by (auto simp: gp_run_in_loop_def bindE_Inr_iff)
  then show ?thesis using frame_conn_ref_inc f frame_conn_ref_dec frame_trans by meson
next
  case False
  then show ?thesis using r f frame_queue by (auto simp: gp_run_in_loop_def split: if_splits)
qed

lemma frame_send_directly: "send_directly os c msg w = (n, r, f, w') \<Longrightarrow> frame w w'"
  using frame_sys_write [of os "h_fd (c_handler c)" msg w]
  by (auto simp: send_directly_def split: if_splits prod.splits sum.splits)

lemma send_directly_dom: "send_directly os c msg w = (n, r, f, w') \<Longrightarrow> n_conns w' = n_conns w"
  by (auto simp: send_directly_def sys_write_def emit_def Let_def split: if_splits prod.splits sum.splits)

lemma frame_conn_send_in_loop:
  assumes "conn_send_in_loop os a msg w = Inr w'"
  shows "frame w w'"
proof -
  obtain c where c: "n_conns w a = Some c" using assms by (auto simp: conn_send_in_loop_def bindE_Inr_iff get_conn_Inr)
  obtain n r f w1 where s: "send_directly os c msg w = (n, r, f, w1)" by (cases "send_directly os c msg w") auto
  have f1: "frame w w1" by (rule frame_send_directly [OF s])
  have f2: "frame w (put_conn a d w1)" for d
    using frame_trans [OF f1 frame_put_conn] send_directly_dom [OF s] c by simp
  have f3: "frame w w'" if "on_handler op p (put_conn a d w1) = Inr w'" for op p d by (rule frame_trans [OF f2 frame_on_handler [OF that]])
  show ?thesis using assms c s f1 f2 f3
    by (auto simp: conn_send_in_loop_def bindE_Inr_iff get_conn_Inr Let_def split: if_splits)
qed

lemma frame_trans_task: "run_in_loop_trans os t w = Inr w' \<Longrightarrow> frame w w'"
  using frame_conn_send_in_loop by (auto simp: run_in_loop_trans_def bindE_Inr_iff split: if_splits)

lemma frame_conn_send: "conn_send os inl a data w = Inr w' \<Longrightarrow> frame w w'"
  using frame_conn_send_in_loop frame_run_in_loop [OF _ frame_trans_task]
  by (fastforce simp: conn_send_def bindE_Inr_iff split: if_splits)

lemma frame_shutdown_task: "run_in_loop_shutdown t w = Inr w' \<Longrightarrow> frame w w'"
  using frame_emit by (auto simp: run_in_loop_shutdown_def bindE_Inr_iff split: if_splits)

lemma frame_conn_shutdown:
  assumes "conn_shutdown inl a w = Inr w'"
  shows "frame w w'"
proof -
  obtain c where c: "n_conns w a = Some c" using assms by (auto simp: conn_shutdown_def bindE_Inr_iff get_conn_Inr)
  have f: "frame w (put_conn a d w)" for d using c by auto
  show ?thesis using assms c frame_trans [OF f frame_run_in_loop [OF _ frame_shutdown_task]]
    by (auto simp: conn_shutdown_def bindE_Inr_iff get_conn_Inr split: if_splits)
qed

lemma frame_conn_force_close:
  assumes "conn_force_close inl a w = Inr w'"
  shows "frame w w'"
proof -
  obtain c where c: "n_conns w a = Some c" using assms by (auto simp: conn_force_close_def bindE_Inr_iff get_conn_Inr)
  have f: "frame w (put_conn a d w)" for d using c by auto
  show ?thesis using assms c frame_trans [OF f frame_queue]
    by (auto simp: conn_force_close_def bindE_Inr_iff get_conn_Inr split: if_splits)
qed

lemma frame_loop_quit: "frame w (gp_loop_quit inl w)"
  using frame_wakeup [of "w\<lparr>quit := True\<rparr>"] by (simp add: gp_loop_quit_def Let_def)

lemma frame_exec_api: "exec_api os inl call w = Inr w' \<Longrightarrow> frame w w'"
  using frame_conn_send frame_conn_shutdown frame_conn_force_close frame_loop_quit
  by (cases call) (auto simp: bindE_Inr_iff get_conn_Inr)

lemma frame_exec_apis: "exec_apis os inl calls w = Inr w' \<Longrightarrow> frame w w'"
  by (erule fr.calls, erule frame_exec_api)

lemma frame_connection_callback: "call_connection_callback os app a w = Inr w' \<Longrightarrow> frame w w'"
  using frame_trans [OF frame_emit frame_exec_apis] by (fastforce simp: call_connection_callback_def bindE_Inr_iff split: if_splits)

lemma frame_message_callback: "call_message_callback os app a w = Inr w' \<Longrightarrow> frame w w'"
  using frame_trans [OF frame_emit frame_exec_apis] by (fastforce simp: call_message_callback_def bindE_Inr_iff split: if_splits)

lemma frame_remove_task: "run_in_loop_remove_conn t w = Inr w' \<Longrightarrow> frame w w'"
  using frame_queue by (auto simp: run_in_loop_remove_conn_def bindE_Inr_iff)

lemma frame_remove_conn:
  assumes "remove_conn a w = Inr w'"
  shows "frame w w'"
proof -
  obtain c where c: "get_conn w a = Inr c" using assms by (auto simp: remove_conn_def bindE_Inr_iff)
  obtain p w1 where w1: "conn_ref_dec (Some a) (w\<lparr>connections := (connections w)(h_fd (c_handler c) := None)\<rparr>) = Inr (p, w1)"
    "gp_run_in_loop run_in_loop_remove_conn True
       (create_gp_pending_task GP_RUN_IN_LOOP_REMOVE_CONN Run_In_Loop_Remove_Conn p []) w1 = Inr w'"
    using assms c by (auto simp: remove_conn_def bindE_Inr_iff)
  have "frame w w1" using frame_conn_ref_dec [OF w1(1)] by simp
  then show ?thesis by (rule frame_trans) (rule frame_run_in_loop [OF w1(2)], erule frame_remove_task)
qed

lemma frame_close:
  assumes "connection_handler_close os app a w = Inr w'"
  shows "frame w w'"
proof -
  obtain w1 c1 w2 w3 w4 p where r: "conn_ref_inc (Some a) w = Inr w1" "n_conns w1 a = Some c1"
    "on_handler disable_all (Conn_Handler a) (put_conn a (c1\<lparr>c_state := K_Disconnected\<rparr>) w1) = Inr w2"
    "call_connection_callback os app a w2 = Inr w3" "remove_conn a w3 = Inr w4" "conn_ref_dec (Some a) w4 = Inr (p, w')"
    using assms by (auto simp: connection_handler_close_def bindE_Inr_iff get_conn_Inr split: if_splits)
  have "frame w1 (put_conn a (c1\<lparr>c_state := K_Disconnected\<rparr>) w1)" using r(2) by auto
  then show ?thesis
    using r frame_trans frame_conn_ref_inc frame_on_handler frame_connection_callback frame_remove_conn frame_conn_ref_dec by meson
qed

lemma frame_write:
  assumes "connection_handler_write os a w = Inr w'"
  shows "frame w w'"
proof -
  obtain c where c: "n_conns w a = Some c" using assms by (auto simp: connection_handler_write_def bindE_Inr_iff get_conn_Inr)
  obtain r w1 where s: "sys_write os (h_fd (c_handler c)) (output_buffer c) w = (r, w1)" by force
  have f1: "frame w w1" by (rule frame_sys_write [OF s])
  have "n_conns w1 = n_conns w" using s by (auto simp: sys_write_def emit_def Let_def split: sum.splits if_splits)
  then have f2: "frame w (put_conn a d w1)" for d using frame_trans [OF f1 frame_put_conn] c by simp
  have f3: "frame w w3" "frame w (emit (Shutdown_Wr fd) w3)" if "on_handler op p (put_conn a d w1) = Inr w3" for op p d w3 fd
    using frame_trans [OF f2 frame_on_handler [OF that]] frame_trans frame_emit by blast+
  show ?thesis using assms c s f1 f2 f3
    by (auto simp: connection_handler_write_def bindE_Inr_iff get_conn_Inr Let_def split: if_splits)
qed

lemma frame_read:
  assumes "connection_handler_read os app a w = Inr w'"
  shows "frame w w'"
proof -
  obtain c where c: "n_conns w a = Some c" using assms by (auto simp: connection_handler_read_def bindE_Inr_iff get_conn_Inr)
  let ?w1 = "w\<lparr>n_calls := n_calls w + 1\<rparr>"
  have f2: "frame w (put_conn a d ?w1)" for d using frame_put_conn [of ?w1 a d] c by simp
  consider "connection_handler_close os app a ?w1 = Inr w'"
    | d w3 w4 p where "conn_ref_inc (Some a) (put_conn a d ?w1) = Inr w3" "call_message_callback os app a w3 = Inr w4"
      "conn_ref_dec (Some a) w4 = Inr (p, w')"
    using assms c by (auto simp: connection_handler_read_def bindE_Inr_iff get_conn_Inr Let_def split: if_splits)
  then show ?thesis
  proof cases
    case 1
    then show ?thesis using frame_close [OF 1] by simp
  next
    case 2
    then show ?thesis using f2 frame_trans frame_conn_ref_inc frame_message_callback frame_conn_ref_dec by meson
  qed
qed

lemma frame_established:
  assumes "connection_established os app a w = Inr w'"
  shows "frame w w'"
proof -
  obtain c w1 where r: "n_conns w a = Some c" "on_handler enable_reading (Conn_Handler a) (put_conn a (c\<lparr>c_state := K_Connected\<rparr>) w) = Inr w1"
    "call_connection_callback os app a w1 = Inr w'"
    using assms by (auto simp: connection_established_def bindE_Inr_iff get_conn_Inr)
  have "frame w (put_conn a (c\<lparr>c_state := K_Connected\<rparr>) w)" using r(1) by auto
  then show ?thesis using r frame_trans frame_on_handler frame_connection_callback by meson
qed

lemma frame_destroyed:
  assumes "connection_destroyed os app a w = Inr w'"
  shows "frame w w'"
proof -
  obtain c w1 where r: "n_conns w a = Some c" "on_handler handler_remove (Conn_Handler a) w1 = Inr w'"
    "(if c_state c = K_Connected then
        bindE (on_handler disable_all (Conn_Handler a) (put_conn a (c\<lparr>c_state := K_Disconnected\<rparr>) w)) (call_connection_callback os app a)
      else Inr w) = Inr w1"
    using assms by (auto simp: connection_destroyed_def bindE_Inr_iff get_conn_Inr)
  have p: "frame w (put_conn a (c\<lparr>c_state := K_Disconnected\<rparr>) w)" using r(1) by auto
  have "frame w w1"
    using r(3) frame_trans [OF frame_trans [OF p frame_on_handler] frame_connection_callback] by (auto simp: bindE_Inr_iff split: if_splits)
  then show ?thesis using frame_trans frame_on_handler [OF r(2)] by blast
qed

lemma frame_force_close_task: "queue_in_loop_force_close os app t w = Inr w' \<Longrightarrow> frame w w'"
  using frame_close by (auto simp: queue_in_loop_force_close_def bindE_Inr_iff split: if_splits)

lemma frame_destroy_task: "queue_in_loop_destroy_conn os app t w = Inr w' \<Longrightarrow> frame w w'"
  using frame_destroyed by (auto simp: queue_in_loop_destroy_conn_def bindE_Inr_iff)

lemma frame_create_task: "run_in_loop_create_conn os app t w = Inr w' \<Longrightarrow> frame w w'"
  using frame_established by (auto simp: run_in_loop_create_conn_def bindE_Inr_iff)

lemma frame_server_start: "run_in_loop_server_start os t w = Inr w' \<Longrightarrow> frame w w'"
  using frame_on_handler by (fastforce simp: run_in_loop_server_start_def acceptor_listen_def Let_def split: if_splits)

lemma frame_pending_func: "pending_func os app t w = Inr w' \<Longrightarrow> frame w w'"
  using frame_trans_task frame_shutdown_task frame_force_close_task frame_remove_task frame_destroy_task frame_create_task frame_server_start
  by (auto split: pending_fn.splits)

definition fresh_ok :: "net \<Rightarrow> bool" where
  "fresh_ok w \<longleftrightarrow> (\<forall>a \<ge> n_fresh w. n_conns w a = None)"

lemma fresh_ok_frame:
  assumes "fresh_ok w" and "heap_frame w w'"
  shows "fresh_ok w'"
  unfolding fresh_ok_def
proof (intro allI impI)
  fix a assume a: "n_fresh w' \<le> a"
  obtain l where "\<forall>a. count_list l (Freed a) + allocated w' a = allocated w a + created w w' a" "n_fresh w \<le> n_fresh w'"
    using assms(2) unfolding heap_frame_def by blast
  then have "count_list l (Freed a) + allocated w' a = allocated w a + created w w' a" "n_fresh w \<le> a" using a by auto
  then show "n_conns w' a = None" using a assms(1) by (simp add: fresh_ok_def allocated_def created_def split: if_splits)
qed

lemma frame_heap: "frame w w' \<Longrightarrow> heap_frame w w'"
  by (simp add: frame_def)

lemma heap_frame_refl [simp]: "heap_frame w w"
  by (rule frame_heap) simp

lemma heap_frame_irrelevant [simp]:
  "heap_frame w (w'\<lparr>active_handler_list := z1\<rparr>) = heap_frame w w'" "heap_frame w (w'\<lparr>pending_list := z2\<rparr>) = heap_frame w w'"
  "heap_frame w (w'\<lparr>calling_pending_functors := z3\<rparr>) = heap_frame w w'" "heap_frame w (w'\<lparr>looping := z4\<rparr>) = heap_frame w w'"
  "heap_frame (w\<lparr>n_calls := z5\<rparr>) w' = heap_frame w w'" "heap_frame (w\<lparr>calling_pending_functors := z6\<rparr>) w' = heap_frame w w'"
  "heap_frame (w\<lparr>active_handler_list := z7\<rparr>) w' = heap_frame w w'" "heap_frame (w\<lparr>looping := z8\<rparr>) w' = heap_frame w w'"
  "heap_frame (w\<lparr>quit := z9\<rparr>) w' = heap_frame w w'" "heap_frame w (w'\<lparr>n_eventfd := z10\<rparr>) = heap_frame w w'"
  by (simp_all add: heap_frame_def allocated_def created_def)

lemma fresh_ok_irrelevant [simp]:
  "fresh_ok (w\<lparr>active_handler_list := z1\<rparr>) = fresh_ok w" "fresh_ok (w\<lparr>pending_list := z2\<rparr>) = fresh_ok w"
  "fresh_ok (w\<lparr>calling_pending_functors := z3\<rparr>) = fresh_ok w" "fresh_ok (w\<lparr>n_calls := z4\<rparr>) = fresh_ok w"
  "fresh_ok (w\<lparr>quit := z5\<rparr>) = fresh_ok w" "fresh_ok (w\<lparr>looping := z6\<rparr>) = fresh_ok w"
  by (simp_all add: fresh_ok_def)

lemma heap_new_connection:
  assumes f: "fresh_ok w" and r: "new_connection_callback os app fd w = Inr w'"
  shows "heap_frame w w'"
proof -
  let ?a = "n_fresh w"
  define w1 where "w1 = (put_conn ?a (init_gp_connection fd) w)\<lparr>n_fresh := ?a + 1\<rparr>"
  define w2 where "w2 = (if connections w1 fd = None then w1\<lparr>connections := (connections w1)(fd \<mapsto> ?a)\<rparr> else w1)"
  let ?task = "create_gp_pending_task GP_RUN_IN_LOOP_CONN Run_In_Loop_Create_Conn (Some ?a) []"
  have "bindE (conn_ref_inc (Some ?a) w2) (\<lambda>w3. bindE (get_conn w3 ?a) (\<lambda>c3.
      bindE (gp_run_in_loop (run_in_loop_create_conn os app) True ?task (put_conn ?a (conn_set_callbacks w3 c3) w3)) (\<lambda>w4.
      bindE (conn_ref_dec (Some ?a) w4) (\<lambda>(p, w5). Inr w5)))) = Inr w'"
    using r unfolding new_connection_callback_def Let_def w1_def [symmetric] w2_def [symmetric] .
  then obtain w3 c3 w4 p where w3: "conn_ref_inc (Some ?a) w2 = Inr w3" "n_conns w3 ?a = Some c3"
    "gp_run_in_loop (run_in_loop_create_conn os app) True ?task (put_conn ?a (conn_set_callbacks w3 c3) w3) = Inr w4"
    "conn_ref_dec (Some ?a) w4 = Inr (p, w')"
    by (auto simp: bindE_Inr_iff get_conn_Inr)
  have "heap_frame w w1" using f by (auto simp: w1_def heap_frame_def allocated_def created_def fresh_ok_def put_conn_def)
  then have "heap_frame w w2" by (auto simp: w2_def heap_frame_def allocated_def created_def)
  moreover have "heap_frame w2 w3" by (rule frame_heap [OF frame_conn_ref_inc [OF w3(1)]])
  moreover have "frame w3 (put_conn ?a (conn_set_callbacks w3 c3) w3)" using w3(2) by auto
  moreover have "frame (put_conn ?a (conn_set_callbacks w3 c3) w3) w4" by (rule frame_run_in_loop [OF w3(3)], erule frame_create_task)
  moreover have "heap_frame w4 w'" by (rule frame_heap [OF frame_conn_ref_dec [OF w3(4)]])
  ultimately show ?thesis using heap_frame_trans frame_heap by meson
qed

lemma heap_acceptor:
  assumes f: "fresh_ok w" and r: "acceptor_read_callback os app w = Inr w'"
  shows "heap_frame w w'"
proof -
  let ?w1 = "w\<lparr>n_calls := n_calls w + 1\<rparr>"
  have "heap_frame ?w1 v" if "new_connection_callback os app fd ?w1 = Inr v" for fd v using heap_new_connection [OF _ that] f by simp
  moreover have "frame ?w1 ((sys_close fd ?w1)\<lparr>n_listen_open := False\<rparr>)" for fd using frame_sys_close [of ?w1 fd] by simp
  ultimately show ?thesis using r frame_heap [of ?w1] by (auto simp: acceptor_read_callback_def Let_def split: sum.splits if_splits)
qed

lemma heap_callback:
  assumes "fresh_ok w" and "handler_callback os app cb p w = Inr w'"
  shows "heap_frame w w'"
  using assms heap_acceptor frame_heap [OF frame_read] frame_heap [OF frame_write] frame_heap [OF frame_close]
  by (cases "(os, app, cb, p, w)" rule: handler_callback.cases) (auto simp: handler_wakeup_read_def)

lemma heap_event_case:
  assumes "fresh_ok w" and "event_case os app test cb p w = Inr w'"
  shows "heap_frame w w'"
  using assms heap_callback by (auto simp: event_case_def bindE_Inr_iff split: if_splits option.splits)

lemma heap_event_handling: "set_event_handling b p w = Inr w' \<Longrightarrow> heap_frame w w'"
  using frame_heap [OF frame_put_handler] by (auto simp: set_event_handling_def bindE_Inr_iff)

lemma heap_handle_event:
  assumes f: "fresh_ok w" and r: "handle_event os app p w = Inr w'"
  shows "heap_frame w w'"
proof -
  obtain w1 w2 w3 w4 w5 t1 t2 t3 t4 c1 c2 c3 c4 where
    w: "set_event_handling True p w = Inr w1" "event_case os app t1 c1 p w1 = Inr w2" "event_case os app t2 c2 p w2 = Inr w3"
    "event_case os app t3 c3 p w3 = Inr w4" "event_case os app t4 c4 p w4 = Inr w5" "set_event_handling False p w5 = Inr w'"
    using r unfolding handle_event_def bindE_Inr_iff by blast
  have s1: "heap_frame w w1" by (rule heap_event_handling [OF w(1)])
  note f1 = fresh_ok_frame [OF f s1] note s2 = heap_event_case [OF f1 w(2)]
  note f2 = fresh_ok_frame [OF f1 s2] note s3 = heap_event_case [OF f2 w(3)]
  note f3 = fresh_ok_frame [OF f2 s3] note s4 = heap_event_case [OF f3 w(4)]
  note f4 = fresh_ok_frame [OF f3 s4] note s5 = heap_event_case [OF f4 w(5)]
  show ?thesis using heap_frame_trans s1 s2 s3 s4 s5 heap_event_handling [OF w(6)] by meson
qed

lemma heap_handle_active:
  assumes "fresh_ok w" and "handle_active os app ps w = Inr w'"
  shows "heap_frame w w'"
  using assms
proof (induction ps arbitrary: w)
  case (Cons p ps)
  obtain w1 where w1: "handle_event os app p w = Inr w1"
    "handle_active os app ps (w1\<lparr>active_handler_list := remove1 p (active_handler_list w1)\<rparr>) = Inr w'"
    using Cons.prems(2) by (auto simp: bindE_Inr_iff)
  have s: "heap_frame w w1" by (rule heap_handle_event [OF Cons.prems(1) w1(1)])
  show ?case using heap_frame_trans [OF s] Cons.IH [OF _ w1(2)] fresh_ok_frame [OF Cons.prems(1) s] by simp
qed simp

interpretation hp: step_relation heap_frame
  by unfold_locales (simp, rule heap_frame_trans)

lemma heap_fill: "fill_active_handlers evs w = Inr w' \<Longrightarrow> heap_frame w w'"
  by (erule hp.events) (auto intro: frame_heap frame_on_handler)

lemma heap_run_pending: "run_pending os app t w = Inr w' \<Longrightarrow> heap_frame w w'"
  using heap_frame_trans [OF frame_heap [OF frame_pending_func] frame_heap [OF frame_conn_ref_dec]] frame_heap [OF frame_pending_func]
  by (fastforce simp: run_pending_def bindE_Inr_iff simp del: pending_func.simps split: if_splits)

lemma heap_pending_walk: "pending_walk os app fuel w = Some (Inr w') \<Longrightarrow> heap_frame w w'"
  by (erule hp.walk, erule heap_run_pending)

lemma heap_loop_turn:
  assumes f: "fresh_ok w" and r: "loop_turn app fuel tn w = Some (Inr w')"
  shows "heap_frame w w'"
proof -
  obtain w1 v w2 w3 w4 where w: "exec_apis (t_os tn) True (t_timers tn) w = Inr w1" "exec_apis (t_os tn) False (t_others tn) w1 = Inr v"
    "fill_active_handlers (t_events tn) v = Inr w2" "handle_active (t_os tn) app (active_handler_list w2) w2 = Inr w3"
    "pending_walk (t_os tn) app fuel (w3\<lparr>calling_pending_functors := True\<rparr>) = Some (Inr w4)" "w' = w4\<lparr>calling_pending_functors := False\<rparr>"
    using r by (auto simp: loop_turn_def do_pending_functors_def poller_poll_def bindE_Inr_iff split: sum.splits)
  have s: "heap_frame w w2" using heap_frame_trans frame_heap [OF frame_exec_apis [OF w(1)]] frame_heap [OF frame_exec_apis [OF w(2)]] heap_fill [OF w(3)] by blast
  have "heap_frame w2 w3" by (rule heap_handle_active [OF fresh_ok_frame [OF f s] w(4)])
  moreover have "heap_frame w3 w4" using heap_pending_walk [OF w(5)] by simp
  ultimately show ?thesis using w(6) heap_frame_trans [OF s] heap_frame_trans by simp
qed

lemma heap_loop_turns:
  assumes "fresh_ok w" and "loop_turns app fuel tns w = Some (Inr w')"
  shows "heap_frame w w'"
  using assms
proof (induction tns arbitrary: w)
  case (Cons tn tns)
  show ?case
  proof (cases "quit w")
    case True
    then show ?thesis using Cons.prems(2) by auto
  next
    case False
    then obtain w1 where w1: "loop_turn app fuel tn w = Some (Inr w1)" "loop_turns app fuel tns w1 = Some (Inr w')"
      using Cons.prems(2) by (auto split: option.splits sum.splits)
    have s: "heap_frame w w1" by (rule heap_loop_turn [OF Cons.prems(1) w1(1)])
    show ?thesis using heap_frame_trans [OF s Cons.IH [OF fresh_ok_frame [OF Cons.prems(1) s] w1(2)]] .
  qed
qed auto

end
