(* ===== verification/Gp_Net_Correct.thy ===== *)
theory Gp_Net_Correct
  imports Gp_Net_Tasks Gp_Net_Frame
begin

text \<open>
  The correctness of a server from its start on: runs are safe and end their turns, closed connections are
  freed, nothing is freed twice, no wakeup is lost, output is delivered in order; and the cases in which the code
  does not do what it should.
\<close>

section \<open>Wakeups\<close>

text \<open>Tasks wait only while the event descriptor is readable.\<close>

definition awake :: "net \<Rightarrow> bool" where
  "awake w \<longleftrightarrow> pending_list w = [] \<or> 0 < n_eventfd w"

lemma queue_run_pending:
  assumes "run_pending os app t w = Inr w'"
  shows "\<exists>us. pending_list w' = remove1 t (pending_list w @ us) \<and> (us = [] \<or> \<not> calling_pending_functors w \<or> 0 < n_eventfd w') \<and>
    calling_pending_functors w' = calling_pending_functors w"
proof -
  obtain w1 where w1: "w' = w1\<lparr>pending_list := remove1 t (pending_list w1)\<rparr>" "frame w w1"
    using assms frame_trans [OF frame_pending_func frame_conn_ref_dec] frame_pending_func
    by (fastforce simp: run_pending_def bindE_Inr_iff simp del: pending_func.simps split: if_splits)
  then obtain us where "pending_list w1 = pending_list w @ us" "us = [] \<or> \<not> calling_pending_functors w \<or> 0 < n_eventfd w1"
    "calling_pending_functors w1 = calling_pending_functors w" unfolding frame_def queue_frame_def by blast
  then show ?thesis using w1(1) by (intro exI [of _ us]) simp
qed

lemma awake_pending_walk:
  assumes "pending_walk os app fuel w = Some (Inr w')" and "calling_pending_functors w"
  shows "awake w'"
  using assms
proof (induction os app fuel w rule: pending_walk.induct)
  case (2 os app fuel w)
  show ?case
  proof (cases "pending_list w")
    case Nil
    then show ?thesis using 2(2) by (auto simp: awake_def)
  next
    case (Cons t ts)
    then obtain w1 where w1: "run_pending os app t w = Inr w1" "(if ts = [] then Some (Inr w1) else pending_walk os app fuel w1) = Some (Inr w')"
      using 2(2) by (auto split: sum.splits)
    show ?thesis
    proof (cases "ts = []")
      case True
      then show ?thesis using w1 queue_run_pending [OF w1(1)] Cons 2(3) by (auto simp: awake_def)
    next
      case False
      then show ?thesis using 2(1) [OF Cons w1(1) False] w1 queue_run_pending [OF w1(1)] 2(3) by auto
    qed
  qed
qed simp

lemma awake_loop_turn: "loop_turn app fuel tn w = Some (Inr w') \<Longrightarrow> awake w'"
  using awake_pending_walk by (fastforce simp: loop_turn_def do_pending_functors_def awake_def bindE_Inr_iff split: sum.splits)

lemma awake_loop_turns: "loop_turns app fuel tns w = Some (Inr w') \<Longrightarrow> awake w \<Longrightarrow> awake w'"
proof (induction tns arbitrary: w)
  case (Cons tn tns)
  then show ?case using awake_loop_turn by (fastforce simp: awake_def split: if_splits option.splits sum.splits)
qed auto

text \<open>Calls from other threads wake the loop up whenever they queue a task.\<close>

lemma queue_wakes: "gp_queue_in_loop False t w = Inr w' \<Longrightarrow> 0 < n_eventfd w'"
  by (auto simp: gp_queue_in_loop_def bindE_Inr_iff Let_def wakeup_def)

lemma exec_api_wakes: "exec_api os False call w = Inr w' \<Longrightarrow> pending_list w' = pending_list w \<or> 0 < n_eventfd w'"
  using queue_wakes
  by (cases call) (fastforce simp: conn_send_def conn_shutdown_def conn_force_close_def gp_run_in_loop_def gp_loop_quit_def bindE_Inr_iff put_conn_def wakeup_def
    split: if_splits)+

lemma exec_apis_wake: "exec_apis os False calls w = Inr w' \<Longrightarrow> pending_list w' = pending_list w \<or> 0 < n_eventfd w'"
proof (induction calls arbitrary: w)
  case (Cons call calls)
  then obtain w1 where w1: "exec_api os False call w = Inr w1" "exec_apis os False calls w1 = Inr w'" by (auto simp: bindE_Inr_iff)
  have "n_eventfd w1 \<le> n_eventfd w'" using frame_exec_apis [OF w1(2)] by (simp add: frame_def queue_frame_def)
  then show ?case using exec_api_wakes [OF w1(1)] Cons.IH [OF w1(2)] by auto
qed simp

section \<open>Fuel\<close>

lemma pending_walk_mono:
  assumes "pending_walk os app fuel w = Some r" and "fuel \<le> fuel'"
  shows "pending_walk os app fuel' w = Some r"
  using assms
proof (induction os app fuel w arbitrary: fuel' rule: pending_walk.induct)
  case (2 os app fuel w)
  obtain f where f: "fuel' = Suc f" "fuel \<le> f" using 2(3) by (cases fuel') auto
  show ?case
  proof (cases "pending_list w")
    case (Cons t ts)
    show ?thesis
    proof (cases "run_pending os app t w")
      case (Inr w1)
      then show ?thesis using 2(1) [OF Cons Inr _ _ f(2)] 2(2) Cons f(1) by (simp split: if_splits)
    next
      case (Inl e)
      then have "r = Inl e" using 2(2) Cons by simp
      then show ?thesis using Inl Cons f(1) by simp
    qed
  qed (use 2(2) f(1) in simp)
qed simp

lemma loop_turn_mono: "loop_turn app fuel tn w = Some r \<Longrightarrow> fuel \<le> fuel' \<Longrightarrow> loop_turn app fuel' tn w = Some r"
  using pending_walk_mono [of "t_os tn" app fuel _ _ fuel'] by (auto simp: loop_turn_def do_pending_functors_def split: sum.splits)

lemma loop_turns_mono: "loop_turns app fuel tns w = Some r \<Longrightarrow> fuel \<le> fuel' \<Longrightarrow> loop_turns app fuel' tns w = Some r"
proof (induction tns arbitrary: w)
  case (Cons tn tns)
  show ?case
  proof (cases "quit w")
    case False
    then obtain r1 where r1: "loop_turn app fuel tn w = Some r1" using Cons.prems(1) by (auto split: option.splits)
    then show ?thesis using Cons loop_turn_mono [OF r1 Cons.prems(2)] False by (cases r1) auto
  qed (use Cons in simp)
qed simp

section \<open>A server from its start\<close>

text \<open>
  The loop and the server are created, the callbacks are set and the server is started in the loop's thread. The message callback
  may be any function.
\<close>

definition boot :: "os \<Rightarrow> u32 \<Rightarrow> u32 \<Rightarrow> gp_sock_address \<Rightarrow> message_cb \<Rightarrow> net \<Rightarrow> net res" where
  "boot os wakeup_fd listen_fd address callback w =
     bindE (init_gp_loop wakeup_fd w) (\<lambda>w1.
     bindE (init_gp_server os listen_fd address w1) (\<lambda>w2.
       start_server os True (server_set_connection_callback (server_set_message_callback callback w2))))"

text \<open>What creating the server does outside the process: a path is unlinked and the descriptor is bound to the address.\<close>

definition bind_log :: "u32 \<Rightarrow> gp_sock_address \<Rightarrow> net_event list \<Rightarrow> bool" where
  "bind_log fd address l \<longleftrightarrow> (\<exists>len. get_gp_sock_len address = Inr len \<and>
     l = (if sa_family address = AF_UNIX then [Unlinked (c_str (strncpy_bytes (sun_path address) 40))] else []) @ [Bound fd (sa_family address) (take (len - 2) (sa_data address))])"

lemma init_gp_server_effect:
  assumes "init_gp_server os fd address w = Inr w'"
  obtains l where "bind_log fd address l"
    "w' = w\<lparr>acceptor := \<lparr>accept_handler = set_read_callback Acceptor_Read_Callback (init_gp_handler fd), listenning = False\<rparr>, connections := (\<lambda>_. None),
      s_message_callback := None, s_connection_callback := False, s_write_complete_callback := False, n_listen_open := True,
      n_calls := n_calls w + 1, n_log := n_log w @ l\<rparr>"
proof -
  obtain len where len: "get_gp_sock_len address = Inr len" using assms by (auto simp: init_gp_server_def init_gp_acceptor_def bindE_Inr_iff)
  obtain path where path: "get_gp_sock_address (os_ntop os) address (malloc_block (os_fill os) 40) 40 = Inr path"
    using assms by (auto simp: init_gp_server_def init_gp_acceptor_def bindE_Inr_iff)
  have "length (strncpy_bytes (sun_path address) 40) = 40" by (simp add: strncpy_bytes_def)
  then have "path = strncpy_bytes (sun_path address) 40" if "sa_family address = AF_UNIX"
    using path that by (simp add: get_gp_sock_address_def AF_UNIX_def AF_INET_def AF_INET6_def sizeof_path_def mem_write_def)
  then have "bind_log fd address ((if sa_family address = AF_UNIX then [Unlinked (c_str path)] else []) @
      [Bound fd (sa_family address) (take (len - 2) (sa_data address))])" unfolding bind_log_def using len by auto
  then show thesis
    using that assms len path by (auto simp: init_gp_server_def init_gp_acceptor_def bindE_Inr_iff emit_def Let_def split: if_splits)
qed

lemmas boot_defs = init_gp_loop_def start_server_def gp_run_in_loop_def
  run_in_loop_server_start_def acceptor_listen_def server_set_connection_callback_def server_set_message_callback_def
  create_gp_pending_task_def conn_task_def on_handler_def enable_reading_def update_def gp_loop_update_handler_def update_handler_def
  poller_update_def init_gp_epoller_def init_gp_handler_def set_read_callback_def

lemma boot_effect:
  assumes "boot os wakeup_fd listen_fd address callback w0 = Inr w" and "wakeup_fd \<noteq> listen_fd" and "n_conns w0 = Map.empty"
  shows "n_conns w = Map.empty" "pending_list w = []" "connections w = Map.empty" "n_listen_open w" "active_handler_list w = []"
    "\<not> calling_pending_functors w" "s_connection_callback w" "s_message_callback w = Some callback"
    "\<exists>l. bind_log listen_fd address l \<and> n_log w = n_log w0 @ l" "n_fresh w = n_fresh w0"
    "wakeup_handler w = (set_read_callback Wakeup_Handler_Read_Callback (init_gp_handler wakeup_fd))
       \<lparr>add_to_loop := True, h_index := k_added, h_events := kread_event\<rparr>"
    "accept_handler (acceptor w) = (set_read_callback Acceptor_Read_Callback (init_gp_handler listen_fd))
       \<lparr>add_to_loop := True, h_index := k_added, h_events := kread_event\<rparr>"
    "ep_interest (epoller w) = (\<lambda>_. None)(wakeup_fd \<mapsto> (kread_event, Wakeup_Handler), listen_fd \<mapsto> (kread_event, Accept_Handler))"
    "listenning (acceptor w)"
proof -
  obtain w1 w2 where w1: "init_gp_loop wakeup_fd w0 = Inr w1" and w2: "init_gp_server os listen_fd address w1 = Inr w2"
    and w: "start_server os True (server_set_connection_callback (server_set_message_callback callback w2)) = Inr w"
    using assms(1) by (auto simp: boot_def bindE_Inr_iff)
  obtain l where l: "bind_log listen_fd address l"
    "w2 = w1\<lparr>acceptor := \<lparr>accept_handler = set_read_callback Acceptor_Read_Callback (init_gp_handler listen_fd), listenning = False\<rparr>, connections := (\<lambda>_. None),
      s_message_callback := None, s_connection_callback := False, s_write_complete_callback := False, n_listen_open := True,
      n_calls := n_calls w1 + 1, n_log := n_log w1 @ l\<rparr>"
    by (rule init_gp_server_effect [OF w2])
  note E = w [unfolded l(2)] w1 assms(2,3)
  have "n_log w = n_log w0 @ l" using E by (auto simp: boot_defs Let_def k_new_def split: if_splits)
  with l(1) show "\<exists>l. bind_log listen_fd address l \<and> n_log w = n_log w0 @ l" by blast
  show "n_conns w = Map.empty" "pending_list w = []" "connections w = Map.empty" "n_listen_open w" "active_handler_list w = []"
    "\<not> calling_pending_functors w" "s_connection_callback w" "s_message_callback w = Some callback" "n_fresh w = n_fresh w0"
    "wakeup_handler w = (set_read_callback Wakeup_Handler_Read_Callback (init_gp_handler wakeup_fd))
       \<lparr>add_to_loop := True, h_index := k_added, h_events := kread_event\<rparr>"
    "accept_handler (acceptor w) = (set_read_callback Acceptor_Read_Callback (init_gp_handler listen_fd))
       \<lparr>add_to_loop := True, h_index := k_added, h_events := kread_event\<rparr>"
    "ep_interest (epoller w) = (\<lambda>_. None)(wakeup_fd \<mapsto> (kread_event, Wakeup_Handler), listen_fd \<mapsto> (kread_event, Accept_Handler))"
    "listenning (acceptor w)"
    using E by (auto simp: boot_defs Let_def k_new_def split: if_splits)
qed

lemma boot_idle:
  assumes b: "boot os wakeup_fd listen_fd address callback w0 = Inr w" "wakeup_fd \<noteq> listen_fd" "n_conns w0 = Map.empty"
  shows "loop_idle w"
proof -
  note B = boot_effect [OF b]
  have h: "handlers w p = (case p of Conn_Handler a \<Rightarrow> None | Accept_Handler \<Rightarrow> Some (accept_handler (acceptor w)) | Wakeup_Handler \<Rightarrow> Some (wakeup_handler w))" for p
    using B(1,4) by (simp add: handlers_def split: haddr.splits)
  have g: "h_index (wakeup_handler w) = k_added" "h_index (accept_handler (acceptor w)) = k_added" "h_fd (wakeup_handler w) = wakeup_fd"
    "h_fd (accept_handler (acceptor w)) = listen_fd" "h_events (wakeup_handler w) = kread_event" "h_events (accept_handler (acceptor w)) = kread_event"
    using B(11,12) by (simp_all add: set_read_callback_def init_gp_handler_def)
  have "poll_inv (handlers w) (epoller w)"
  proof (rule poll_invI)
    fix p g assume "handlers w p = Some g"
    then show "h_index g \<in> {k_new, k_added, k_deleted}" unfolding h using g by (auto split: haddr.splits)
  next
    fix p g assume "handlers w p = Some g" "h_index g = k_added"
    then show "ep_interest (epoller w) (h_fd g) = Some (h_events g, p)" unfolding h using g B(13) b(2) by (auto split: haddr.splits)
  next
    fix fd ev p assume "ep_interest (epoller w) fd = Some (ev, p)"
    then show "\<exists>g. handlers w p = Some g \<and> h_fd g = fd \<and> h_index g = k_added" unfolding h using g B(13) by (auto split: if_splits)
  next
    fix p q g g' assume "handlers w p = Some g" "handlers w q = Some g'" "h_fd g = h_fd g'"
    then show "p = q" unfolding h using g b(2) by (auto split: haddr.splits)
  qed
  then have "idle_inv True w" unfolding net_inv_def using B
    by (simp add: waiting_def set_read_callback_def init_gp_handler_def)
  then show ?thesis using B(5,6) by (simp add: loop_idle_def)
qed

lemma run_from_boot:
  assumes b: "boot os wakeup_fd listen_fd address callback w0 = Inr w" "wakeup_fd \<noteq> listen_fd" "n_conns w0 = Map.empty"
    and app: "app_ok app" and ok: "run_ok app tns (w\<lparr>looping := True, quit := False\<rparr>)"
  obtains bound w' where "\<forall>fuel \<ge> bound. gp_loop_run app fuel tns w = Some (Inr w')" "loop_idle w'" "awake w'" "heap_frame w w'"
proof -
  let ?w = "w\<lparr>looping := True, quit := False\<rparr>"
  have "loop_idle ?w" using boot_idle [OF b] by (simp add: loop_idle_def)
  from loop_turns_ok [OF app this ok] obtain bound w' where
    w': "\<forall>fuel \<ge> bound. loop_turns app fuel tns ?w = Some (Inr w')" "loop_idle w'" by blast
  then have l: "loop_turns app bound tns ?w = Some (Inr w')" by simp
  have "awake ?w" using boot_effect(2) [OF b] by (simp add: awake_def)
  then have "awake w'" by (rule awake_loop_turns [OF l])
  moreover have "heap_frame w w'" using heap_loop_turns [OF _ l] boot_effect(1) [OF b] by (simp add: fresh_ok_def)
  ultimately show thesis using that w' by (simp add: gp_loop_run_def)
qed

text \<open>Of a run that returned, with whatever fuel.\<close>

lemma run_result:
  assumes b: "boot os wakeup_fd listen_fd address callback w0 = Inr w" "wakeup_fd \<noteq> listen_fd" "n_conns w0 = Map.empty"
    and app: "app_ok app" and ok: "run_ok app tns (w\<lparr>looping := True, quit := False\<rparr>)"
    and r: "gp_loop_run app fuel tns w = Some r"
  obtains w' where "r = Inr w'" "loop_idle w'" "awake w'" "heap_frame w w'"
proof -
  obtain bound w' where w': "\<forall>fuel \<ge> bound. gp_loop_run app fuel tns w = Some (Inr w')" "loop_idle w'" "awake w'" "heap_frame w w'"
    by (rule run_from_boot [OF b app ok])
  have "gp_loop_run app (max bound fuel) tns w = Some r"
    using loop_turns_mono [of app fuel tns _ r "max bound fuel"] r by (simp add: gp_loop_run_def)
  moreover have "gp_loop_run app (max bound fuel) tns w = Some (Inr w')" using w'(1) by simp
  ultimately have "r = Inr w'" by simp
  then show thesis using that w'(2-) by blast
qed

lemma idle_watched:
  assumes "idle_inv q w" and "n_conns w a = Some c" and "c_state c \<noteq> K_Disconnected"
  shows "connections w (c_fd c) = Some a"
    and "\<exists>ev. ep_interest (epoller w) (c_fd c) = Some (ev, Conn_Handler a) \<and> ev AND kread_event = kread_event"
proof -
  note A = active_phase [OF net_invD(2) [OF assms(1,2)] assms(3)]
  show "connections w (c_fd c) = Some a" using A(2) by (simp add: in_table_def)
  have "h_fd (c_handler c) = c_fd c" using net_invD(2) [OF assms(1,2)] by (simp add: conn_ok_def)
  then show "\<exists>ev. ep_interest (epoller w) (c_fd c) = Some (ev, Conn_Handler a) \<and> ev AND kread_event = kread_event"
    using poll_invD(2) [OF net_invD(6) [OF assms(1)], of "Conn_Handler a" "c_handler c"] A(4,5) assms(2) by simp
qed

text \<open>What holds between the turns of a server.\<close>

definition net_sound :: "net \<Rightarrow> bool" where
  "net_sound w \<longleftrightarrow>
     (\<forall>a c. n_conns w a = Some c \<longrightarrow>
        c_ref c = int (length (tasks_on a (pending_list w)) + (if connections w (c_fd c) = Some a then 1 else 0)) \<and>
        (if c_state c = K_Disconnected then connections w (c_fd c) \<noteq> Some a \<and> destroy_conn_task a \<in> set (pending_list w)
         else connections w (c_fd c) = Some a \<and>
           (\<exists>ev. ep_interest (epoller w) (c_fd c) = Some (ev, Conn_Handler a) \<and> ev AND kread_event = kread_event))) \<and>
     (\<forall>fd a. connections w fd = Some a \<longrightarrow> (\<exists>c. n_conns w a = Some c \<and> c_fd c = fd)) \<and>
     (\<forall>t \<in> set (pending_list w). \<exists>a. pt_conn t = Some a \<and> n_conns w a \<noteq> None) \<and>
     (\<forall>fd ev a. ep_interest (epoller w) fd = Some (ev, Conn_Handler a) \<longrightarrow>
        (\<exists>c. n_conns w a = Some c \<and> c_fd c = fd \<and> c_state c \<noteq> K_Disconnected))"

lemma idle_sound:
  assumes "loop_idle w"
  shows "net_sound w"
proof -
  have i: "idle_inv True w" using assms by (simp add: loop_idle_def)
  have wt: "waiting 0 w = pending_list w" by (simp add: waiting_def)
  show ?thesis
    unfolding net_sound_def
  proof (intro conjI allI impI ballI)
    fix a c assume c: "n_conns w a = Some c"
    note ok = net_invD(2) [OF i c, unfolded wt]
    show "c_ref c = int (length (tasks_on a (pending_list w)) + (if connections w (c_fd c) = Some a then 1 else 0))"
      using ok by (simp add: conn_ok_def in_table_def)
    show "if c_state c = K_Disconnected then connections w (c_fd c) \<noteq> Some a \<and> destroy_conn_task a \<in> set (pending_list w)
      else connections w (c_fd c) = Some a \<and>
        (\<exists>ev. ep_interest (epoller w) (c_fd c) = Some (ev, Conn_Handler a) \<and> ev AND kread_event = kread_event)"
      using closed_has_destroy [OF i c] idle_watched [OF i c] ok by (auto simp: conn_ok_def phase_ok_def in_table_def)
  next
    fix fd a assume "connections w fd = Some a"
    then show "\<exists>c. n_conns w a = Some c \<and> c_fd c = fd" by (rule net_invD(4) [OF i])
  next
    fix t assume "t \<in> set (pending_list w)"
    then show "\<exists>a. pt_conn t = Some a \<and> n_conns w a \<noteq> None" using net_invD(3) [OF i, of t] task_ok_conn wt by metis
  next
    fix fd ev a assume e: "ep_interest (epoller w) fd = Some (ev, Conn_Handler a)"
    have "a \<in> live w" using watched_live [of w a] i e by (auto simp: net_idle_def watched_def)
    then obtain c where c: "n_conns w a = Some c" "c_state c \<noteq> K_Disconnected" by (auto simp: live_def)
    have "h_fd (c_handler c) = fd" using poll_invD(3) [OF net_invD(6) [OF i] e] c(1) by auto
    then show "\<exists>c. n_conns w a = Some c \<and> c_fd c = fd \<and> c_state c \<noteq> K_Disconnected"
      using c net_invD(2) [OF i c(1)] by (auto simp: conn_ok_def)
  qed
qed

lemma wakeup_watched:
  assumes "net_inv k q ph x w"
  shows "\<exists>ev. ep_interest (epoller w) (h_fd (wakeup_handler w)) = Some (ev, Wakeup_Handler) \<and> ev AND kread_event = kread_event"
proof -
  have "h_index (wakeup_handler w) = k_added" "h_events (wakeup_handler w) AND kread_event = kread_event"
    using assms unfolding net_inv_def by (elim conjE exE, simp)+
  then show ?thesis using poll_invD(2) [OF net_invD(6) [OF assms], of Wakeup_Handler "wakeup_handler w"] by (simp add: handlers_def)
qed

text \<open>For runs that are given: a turn that returns decides how the run goes on.\<close>

lemma run_ok_Cons:
  assumes "turn_ok tn w" and "loop_turn app fuel tn w = Some (Inr w1)" and "run_ok app tns w1"
  shows "run_ok app (tn # tns) w"
proof -
  have "w2 = w1" if "loop_turn app f tn w = Some (Inr w2)" for f w2
    using loop_turn_mono [OF that, of "max f fuel"] loop_turn_mono [OF assms(2), of "max f fuel"] by simp
  then show ?thesis using assms(1,3) by auto
qed

section \<open>Properties\<close>

text \<open>
  C1. A server that has been started, with an application whose callbacks name existing connections and an
  environment that plays by the rules of \<open>turn_ok\<close>, runs through any number of turns: with enough fuel for the
  pending tasks the loop returns without an invalid access, and afterwards the reference count of every
  connection is the number of its waiting tasks and of its entry in the server's table, an open connection is in
  the table and watched for input, a closed one is in neither and its destruction is queued, every waiting task
  points to a connection that exists and nothing else is watched.
\<close>

theorem server_run_is_sound:
  assumes "boot os wakeup_fd listen_fd address callback w0 = Inr w" and "wakeup_fd \<noteq> listen_fd" and "n_conns w0 = Map.empty"
    and "app_ok app" and "run_ok app tns (w\<lparr>looping := True, quit := False\<rparr>)"
  shows "\<exists>bound w'. (\<forall>fuel \<ge> bound. gp_loop_run app fuel tns w = Some (Inr w')) \<and> net_sound w'"
proof -
  obtain bound w' where "\<forall>fuel \<ge> bound. gp_loop_run app fuel tns w = Some (Inr w')" "loop_idle w'" "awake w'" "heap_frame w w'"
    by (rule run_from_boot [OF assms])
  then show ?thesis using idle_sound by blast
qed

text \<open>
  C7. A connection that is closed when a turn ends does not survive the next one: that turn returns and the
  connection is no longer in the heap.
\<close>

theorem closed_connection_is_freed:
  assumes "boot os wakeup_fd listen_fd address callback w0 = Inr w" and "wakeup_fd \<noteq> listen_fd" and "n_conns w0 = Map.empty"
    and "app_ok app" and "run_ok app tns (w\<lparr>looping := True, quit := False\<rparr>)"
    and run: "gp_loop_run app fuel tns w = Some (Inr w1)"
    and c: "n_conns w1 a = Some c" "c_state c = K_Disconnected" and "turn_ok tn w1"
  shows "\<exists>bound w'. (\<forall>fuel \<ge> bound. loop_turn app fuel tn w1 = Some (Inr w')) \<and> n_conns w' a = None"
proof -
  obtain w1' where "Inr w1 = (Inr w1' :: net res)" and i: "loop_idle w1'" "awake w1'" "heap_frame w w1'" by (rule run_result [OF assms(1-6)])
  then have idle: "loop_idle w1" by simp
  obtain bound w' where "\<forall>fuel \<ge> bound. loop_turn app fuel tn w1 = Some (Inr w')" "loop_idle w'"
    "\<forall>a. destroy_conn_task a \<in> set (pending_list w1) \<longrightarrow> n_conns w' a = None"
    by (rule loop_turn_ok [OF assms(4) idle assms(9)])
  then show ?thesis using closed_has_destroy [OF _ c] idle unfolding loop_idle_def by blast
qed

text \<open>
  C9. A server frees every connection once and leaks none. Under the conditions of the first property the loop returns, and then of
  every connection that was ever created either it has been freed exactly once, or it was never freed, is still in the
  heap, and is either open, in the server's table and watched, or closed with its destruction queued; nothing else has been freed.
\<close>

theorem connections_freed_once:
  assumes b: "boot os wakeup_fd listen_fd address callback w0 = Inr w" "wakeup_fd \<noteq> listen_fd" "n_conns w0 = Map.empty" and log: "n_log w0 = []"
    and app: "app_ok app" and ok: "run_ok app tns (w\<lparr>looping := True, quit := False\<rparr>)"
  shows "\<exists>bound w'. (\<forall>fuel \<ge> bound. gp_loop_run app fuel tns w = Some (Inr w')) \<and>
    (\<forall>a. count_list (n_log w') (Freed a) = (if n_fresh w0 \<le> a \<and> a < n_fresh w' \<and> n_conns w' a = None then 1 else 0)) \<and>
    (\<forall>a c. n_conns w' a = Some c \<longrightarrow>
      (if c_state c = K_Disconnected then destroy_conn_task a \<in> set (pending_list w')
       else connections w' (c_fd c) = Some a \<and> (\<exists>ev. ep_interest (epoller w') (c_fd c) = Some (ev, Conn_Handler a))))"
proof -
  obtain bound w' where run: "\<forall>fuel \<ge> bound. gp_loop_run app fuel tns w = Some (Inr w')" and i: "loop_idle w'" "awake w'" and h: "heap_frame w w'"
    by (rule run_from_boot [OF b app ok])
  note B = boot_effect [OF b]
  have f: "fresh_ok w" using B(1) by (simp add: fresh_ok_def)
  have "count_list (n_log w') (Freed a) = (if n_fresh w0 \<le> a \<and> a < n_fresh w' \<and> n_conns w' a = None then 1 else 0)" for a
  proof -
    obtain l where "n_log w' = n_log w @ l" "count_list l (Freed a) + allocated w' a = allocated w a + created w w' a"
      using h unfolding heap_frame_def by blast
    moreover have "count_list (n_log w) (Freed a) = 0" using B(9) log by (auto simp: bind_log_def)
    ultimately show ?thesis using B(1,10) fresh_ok_frame [OF f h] by (auto simp: allocated_def created_def fresh_ok_def split: if_splits)
  qed
  moreover have "if c_state c = K_Disconnected then destroy_conn_task a \<in> set (pending_list w')
      else connections w' (c_fd c) = Some a \<and> (\<exists>ev. ep_interest (epoller w') (c_fd c) = Some (ev, Conn_Handler a))"
    if "n_conns w' a = Some c" for a c
    using idle_sound [OF i(1)] that unfolding net_sound_def by (metis (no_types, lifting))
  ultimately show ?thesis using run by blast
qed

text \<open>
  C10. No wakeup is lost. After any run the loop calls its timers and then waits, while other threads make their calls. When it waits,
  the kernel watches the event descriptor for input, and if this descriptor is not readable then no task is pending except
  those that the timers have queued in this turn: a task left from earlier turns, or one that another thread queues, makes
  \<open>epoll_wait\<close> return at once. Tasks of the timers are the exception: they wait until something else happens.
\<close>

theorem no_lost_wakeup:
  assumes "boot os wakeup_fd listen_fd address callback w0 = Inr w" and "wakeup_fd \<noteq> listen_fd" and "n_conns w0 = Map.empty"
    and "app_ok app" and "run_ok app tns (w\<lparr>looping := True, quit := False\<rparr>)"
    and run: "gp_loop_run app fuel tns w = Some (Inr w1)"
    and timers: "\<forall>call \<in> set timers. api_ok True w1 call" and others: "\<forall>call \<in> set others. api_ok False w1 call"
  shows "\<exists>w2 w3 queued. exec_apis os' True timers w1 = Inr w2 \<and> pending_list w2 = pending_list w1 @ queued \<and>
    exec_apis os' False others w2 = Inr w3 \<and>
    (0 < n_eventfd w3 \<or> pending_list w1 = [] \<and> pending_list w3 = queued) \<and>
    (\<exists>ev. ep_interest (epoller w3) (h_fd (wakeup_handler w3)) = Some (ev, Wakeup_Handler) \<and> ev AND kread_event = kread_event)"
proof -
  obtain w1' where "Inr w1 = (Inr w1' :: net res)" and i: "loop_idle w1'" "awake w1'" "heap_frame w w1'" by (rule run_result [OF assms(1-6)])
  then have idle: "idle_inv True w1" "awake w1" by (simp_all add: loop_idle_def)
  obtain w2 where w2: "exec_apis os' True timers w1 = Inr w2" "idle_inv True w2" "api_step w1 w2"
    using exec_apis_ok [OF idle(1) timers] by blast
  have "\<forall>call \<in> set others. api_ok False w2 call" using others api_ok_step [OF w2(3)] by simp
  then obtain w3 where w3: "exec_apis os' False others w2 = Inr w3" "idle_inv True w3" "api_step w2 w3"
    using exec_apis_ok [OF w2(2)] by blast
  obtain queued where q: "pending_list w2 = pending_list w1 @ queued" using w2(3) by (auto simp: api_step_def)
  have "n_eventfd w1 \<le> n_eventfd w2" "n_eventfd w2 \<le> n_eventfd w3"
    using frame_exec_apis [OF w2(1)] frame_exec_apis [OF w3(1)] by (simp_all add: frame_def queue_frame_def)
  then have "0 < n_eventfd w3 \<or> pending_list w1 = [] \<and> pending_list w3 = queued"
    using idle(2) exec_apis_wake [OF w3(1)] q by (auto simp: awake_def)
  then show ?thesis using w2(1) w3(1) q wakeup_watched [OF w3(2)] by blast
qed

definition net0 :: net where
  "net0 = \<lparr>quit = False, looping = False, calling_pending_functors = False, epoller = init_gp_epoller,
     wakeup_handler = init_gp_handler 0, active_handler_list = [], pending_list = [],
     acceptor = \<lparr>accept_handler = init_gp_handler 0, listenning = False\<rparr>, connections = Map.empty,
     s_message_callback = None, s_connection_callback = False, s_write_complete_callback = False,
     n_conns = Map.empty, n_fresh = 0, n_listen_open = False, n_eventfd = 0, n_calls = 0, n_log = []\<rparr>"

definition sample_os :: "bytes \<Rightarrow> os" where
  "sample_os input = \<lparr>os_write = (\<lambda>_ _ msg. Inr (length msg)), os_read = (\<lambda>_ _. Inr input), os_accept = (\<lambda>_. Inr 7),
     os_listen = (\<lambda>_. True), os_bind = (\<lambda>_. True), os_ntop = (\<lambda>_ _. None), os_fill = (\<lambda>_. 0)\<rparr>"

definition sample_app :: app where
  "sample_app = \<lparr>app_connection = (\<lambda>_ _. []),
     app_message = (\<lambda>w a. case n_conns w a of None \<Rightarrow> [] | Some c \<Rightarrow> [Conn_Send a (input_buffer c), Conn_Retrieve a (length (input_buffer c))])\<rparr>"

definition accept_turn :: turn where
  "accept_turn = \<lparr>t_os = sample_os [], t_timers = [], t_others = [], t_events = [(Accept_Handler, POLLIN)]\<rparr>"

definition read_turn :: "bytes \<Rightarrow> turn" where
  "read_turn input = \<lparr>t_os = sample_os input, t_timers = [], t_others = [], t_events = [(Conn_Handler 0, POLLIN)]\<rparr>"

definition close_turn :: turn where
  "close_turn = \<lparr>t_os = sample_os [], t_timers = [], t_others = [Conn_Force_Close 0], t_events = []\<rparr>"

definition idle_turn :: turn where
  "idle_turn = \<lparr>t_os = sample_os [], t_timers = [], t_others = [], t_events = [(Wakeup_Handler, POLLIN)]\<rparr>"

definition sample_address :: gp_sock_address where
  "sample_address = \<lparr>sa_family = AF_UNIX, sa_data = map of_char ''/tmp/s'' @ replicate 104 0\<rparr>"

definition sample_booted :: net where
  "sample_booted = (case boot (sample_os []) 3 4 sample_address App_Message_Callback net0 of Inr w \<Rightarrow> w | Inl e \<Rightarrow> net0)"

definition turn_after :: "turn \<Rightarrow> net \<Rightarrow> net" where
  "turn_after tn w = (case loop_turn sample_app 5 tn w of Some (Inr w1) \<Rightarrow> w1 | _ \<Rightarrow> net0)"

definition returns :: "turn \<Rightarrow> net \<Rightarrow> bool" where
  "returns tn w = (case loop_turn sample_app 5 tn w of Some (Inr w1) \<Rightarrow> \<not> quit w | _ \<Rightarrow> False)"

definition sample_at_start :: net where "sample_at_start = sample_booted\<lparr>looping := True, quit := False\<rparr>"

definition sample_accepted :: net where "sample_accepted = turn_after accept_turn sample_at_start"

definition sample_echoed :: net where "sample_echoed = turn_after (read_turn [104, 105]) sample_accepted"

definition sample_closed :: net where "sample_closed = turn_after close_turn sample_echoed"

lemma returnsD: "returns tn w \<Longrightarrow> loop_turn sample_app 5 tn w = Some (Inr (turn_after tn w)) \<and> \<not> quit w"
  by (auto simp: returns_def turn_after_def split: option.splits sum.splits)

lemma sample_app_ok: "app_ok sample_app"
  by (auto simp: app_ok_def sample_app_def dom_def split: option.splits dest: sym)

lemma sample_boot: "boot (sample_os []) 3 4 sample_address App_Message_Callback net0 = Inr sample_booted"
proof -
  have "case boot (sample_os []) 3 4 sample_address App_Message_Callback net0 of Inr w \<Rightarrow> True | Inl e \<Rightarrow> False" by code_simp
  then show ?thesis by (auto simp: sample_booted_def split: sum.splits)
qed

lemma net0_empty: "n_conns net0 = Map.empty"
  by (simp add: net0_def)

lemma sample_returns:
  "returns accept_turn sample_at_start" "returns (read_turn [104, 105]) sample_accepted" "returns close_turn sample_echoed" "returns idle_turn sample_closed"
  by code_simp+

lemma accept_turn_ok: "turn_ok accept_turn sample_at_start"
proof -
  have "watched sample_at_start Accept_Handler" unfolding watched_def by (rule exI [of _ 4], rule exI [of _ kread_event]) code_simp
  moreover have "revents_ok POLLIN" by code_simp
  moreover have "unused_fd sample_at_start 7"
    using boot_effect(1,11,12) [OF sample_boot _ net0_empty] by (simp add: unused_fd_def sample_at_start_def set_read_callback_def init_gp_handler_def)
  ultimately show ?thesis by (simp add: turn_ok_def accept_turn_def accept_ok_def sample_os_def)
qed

lemma read_turn_ok: "turn_ok (read_turn [104, 105]) sample_accepted"
proof -
  have "watched sample_accepted (Conn_Handler 0)" unfolding watched_def by (rule exI [of _ 7], rule exI [of _ kread_event]) code_simp
  moreover have "revents_ok POLLIN" by code_simp
  ultimately show ?thesis by (simp add: turn_ok_def read_turn_def)
qed

lemma close_turn_ok: "turn_ok close_turn sample_echoed"
proof -
  have "n_conns sample_echoed 0 \<noteq> None" by code_simp
  then show ?thesis by (auto simp: turn_ok_def close_turn_def)
qed

lemma idle_turn_ok: "turn_ok idle_turn sample_closed"
proof -
  have "watched sample_closed Wakeup_Handler" unfolding watched_def by (rule exI [of _ 3], rule exI [of _ kread_event]) code_simp
  moreover have "revents_ok POLLIN" by code_simp
  ultimately show ?thesis by (simp add: turn_ok_def idle_turn_def)
qed

lemmas sample_turns = accept_turn_ok read_turn_ok close_turn_ok idle_turn_ok
lemmas sample_loop_turns = sample_returns [THEN returnsD, THEN conjunct1]

lemma sample_run_ok: "run_ok sample_app [accept_turn, read_turn [104, 105], close_turn] sample_at_start"
  by (rule run_ok_Cons [OF sample_turns(1) sample_loop_turns(1)], fold sample_accepted_def,
      rule run_ok_Cons [OF sample_turns(2) sample_loop_turns(2)], fold sample_echoed_def,
      rule run_ok_Cons [OF sample_turns(3) sample_loop_turns(3)]) simp

lemma sample_run: "gp_loop_run sample_app 5 [accept_turn, read_turn [104, 105], close_turn] sample_booted = Some (Inr sample_closed)"
  using sample_returns [THEN returnsD]
  by (simp add: gp_loop_run_def sample_at_start_def [symmetric] sample_accepted_def [symmetric] sample_echoed_def [symmetric] sample_closed_def [symmetric])

lemma closed_conn: "n_conns sample_closed 0 \<noteq> None" "map_option c_state (n_conns sample_closed 0) = Some K_Disconnected"
  by code_simp+

theorem server_run_is_sound_witness:
  "\<exists>bound w'. (\<forall>fuel \<ge> bound. gp_loop_run sample_app fuel [accept_turn, read_turn [104, 105], close_turn] sample_booted = Some (Inr w')) \<and> net_sound w'"
  by (rule server_run_is_sound [OF sample_boot _ net0_empty sample_app_ok]) (use sample_run_ok in \<open>simp_all add: sample_at_start_def\<close>)

theorem closed_connection_is_freed_witness:
  "\<exists>bound w'. (\<forall>fuel \<ge> bound. loop_turn sample_app fuel idle_turn sample_closed = Some (Inr w')) \<and> n_conns w' 0 = None"
proof -
  obtain c where "n_conns sample_closed 0 = Some c" "c_state c = K_Disconnected" using closed_conn by auto
  from closed_connection_is_freed [OF sample_boot _ net0_empty sample_app_ok _ sample_run this idle_turn_ok] sample_run_ok
  show ?thesis by (simp add: sample_at_start_def)
qed

theorem connections_freed_once_witness:
  "\<exists>bound w'. (\<forall>fuel \<ge> bound. gp_loop_run sample_app fuel [accept_turn, read_turn [104, 105], close_turn] sample_booted = Some (Inr w')) \<and>
    (\<forall>a. count_list (n_log w') (Freed a) = (if n_fresh net0 \<le> a \<and> a < n_fresh w' \<and> n_conns w' a = None then 1 else 0)) \<and>
    (\<forall>a c. n_conns w' a = Some c \<longrightarrow>
      (if c_state c = K_Disconnected then destroy_conn_task a \<in> set (pending_list w')
       else connections w' (c_fd c) = Some a \<and> (\<exists>ev. ep_interest (epoller w') (c_fd c) = Some (ev, Conn_Handler a))))"
  by (rule connections_freed_once [OF sample_boot _ net0_empty _ sample_app_ok])
    (use sample_run_ok in \<open>simp_all add: sample_at_start_def net0_def\<close>)

theorem no_lost_wakeup_witness:
  "\<exists>w2 w3 queued. exec_apis (sample_os []) True [Conn_Force_Close 0] sample_closed = Inr w2 \<and> pending_list w2 = pending_list sample_closed @ queued \<and>
    exec_apis (sample_os []) False [Conn_Force_Close 0] w2 = Inr w3 \<and>
    (0 < n_eventfd w3 \<or> pending_list sample_closed = [] \<and> pending_list w3 = queued) \<and>
    (\<exists>ev. ep_interest (epoller w3) (h_fd (wakeup_handler w3)) = Some (ev, Wakeup_Handler) \<and> ev AND kread_event = kread_event)"
  by (rule no_lost_wakeup [OF sample_boot _ net0_empty sample_app_ok _ sample_run])
    (use sample_run_ok closed_conn(1) in \<open>auto simp: sample_at_start_def\<close>)

section \<open>The output of a connection\<close>

fun written :: "u32 \<Rightarrow> net_event list \<Rightarrow> bytes" where
  "written fd [] = []"
| "written fd (ev # evs) = (case ev of Wrote fd' bs \<Rightarrow> if fd' = fd then bs @ written fd evs else written fd evs | _ \<Rightarrow> written fd evs)"

lemma written_append [simp]: "written fd (l @ m) = written fd l @ written fd m"
  by (induction l) (simp_all split: net_event.splits)

text \<open>The application sends, the poller reports that the descriptor is writable.\<close>

datatype out_op = Send bytes | Writable

fun run_out :: "os \<Rightarrow> nat \<Rightarrow> out_op list \<Rightarrow> net \<Rightarrow> net res" where
  "run_out os a [] w = Inr w"
| "run_out os a (Send m # ops) w = bindE (conn_send os True a m w) (run_out os a ops)"
| "run_out os a (Writable # ops) w = bindE (connection_handler_write os a w) (run_out os a ops)"

fun sent :: "out_op list \<Rightarrow> bytes" where
  "sent [] = []"
| "sent (Send m # ops) = m @ sent ops"
| "sent (Writable # ops) = sent ops"

text \<open>The descriptor is watched for writing exactly while output waits.\<close>

definition out_inv :: "nat \<Rightarrow> u32 \<Rightarrow> gp_connection \<Rightarrow> net \<Rightarrow> bool" where
  "out_inv a fd c w \<longleftrightarrow> n_conns w a = Some c \<and> c_state c = K_Connected \<and> h_fd (c_handler c) = fd \<and>
     (is_writing (c_handler c) \<longleftrightarrow> output_buffer c \<noteq> [])"

lemma update_handler_fields:
  assumes "update p e h = (e2, h2)"
  shows "h_fd h2 = h_fd h" "h_events h2 = h_events h"
  using assms by (auto simp: update_def gp_loop_update_handler_def update_handler_def Let_def split: if_splits)

lemma on_handler_events:
  assumes c: "n_conns w a = Some c" and op: "\<And>e h. op (Conn_Handler a) e h = update (Conn_Handler a) e (h\<lparr>h_events := f (h_events h)\<rparr>)"
  obtains h2 e2 where "on_handler op (Conn_Handler a) w = Inr ((put_conn a (c\<lparr>c_handler := h2\<rparr>) w)\<lparr>epoller := e2\<rparr>)"
    "h_fd h2 = h_fd (c_handler c)" "h_events h2 = f (h_events (c_handler c))"
proof -
  obtain e2 h2 where u: "update (Conn_Handler a) (epoller w) ((c_handler c)\<lparr>h_events := f (h_events (c_handler c))\<rparr>) = (e2, h2)" by force
  then show thesis using that on_handler_conn [OF c, of op e2 h2] op update_handler_fields [OF u] by simp
qed

lemma write_flag: "(ev OR kwrite_event) AND kwrite_event \<noteq> 0" "(ev AND NOT kwrite_event) AND kwrite_event = 0"
proof -
  have "(ev OR kwrite_event) AND kwrite_event = kwrite_event" by (simp add: and.commute)
  then show "(ev OR kwrite_event) AND kwrite_event \<noteq> 0" by (simp add: kwrite_event_def poll_flags)
  show "(ev AND NOT kwrite_event) AND kwrite_event = 0" by (simp add: and.assoc)
qed

lemma conn_send_output:
  assumes i: "out_inv a fd c w" and wr: "os_write os (n_calls w) fd m = Inr k" "k \<le> length m"
  shows "\<exists>w' c'. conn_send os True a m w = Inr w' \<and> out_inv a fd c' w' \<and>
    written fd (n_log w') @ output_buffer c' = written fd (n_log w) @ output_buffer c @ m"
proof -
  have c: "n_conns w a = Some c" "c_state c = K_Connected" "h_fd (c_handler c) = fd" "is_writing (c_handler c) \<longleftrightarrow> output_buffer c \<noteq> []"
    using i by (simp_all add: out_inv_def)
  have e: "conn_send os True a m w = conn_send_in_loop os a m w" using c(1,2) by (simp add: conn_send_def)
  show ?thesis
  proof (cases "output_buffer c = []")
    case False
    let ?c = "c\<lparr>output_buffer := output_buffer c @ m\<rparr>"
    have "conn_send_in_loop os a m w = Inr (if m = [] then w else put_conn a ?c w)"
      using c False by (simp add: conn_send_in_loop_def send_directly_def)
    then show ?thesis using e i False
      by (intro exI [of _ "if m = [] then w else put_conn a ?c w"] exI [of _ "if m = [] then c else ?c"]) (simp add: out_inv_def)
  next
    case True
    define w1 where "w1 = (if k = 0 then w\<lparr>n_calls := n_calls w + 1\<rparr> else emit (Wrote fd (take k m)) (w\<lparr>n_calls := n_calls w + 1\<rparr>))"
    have s: "send_directly os c m w = (k, length m - k, False, w1)"
      using c True wr by (simp add: send_directly_def sys_write_def w1_def Let_def)
    have w1: "n_conns w1 a = Some c" "written fd (n_log w1) = written fd (n_log w) @ take k m" using c(1) by (simp_all add: w1_def)
    show ?thesis
    proof (cases "k = length m")
      case k: True
      then have "conn_send_in_loop os a m w = Inr w1" using c s by (simp add: conn_send_in_loop_def)
      then show ?thesis using e i w1 k True by (intro exI [of _ w1] exI [of _ c]) (simp add: out_inv_def)
    next
      case False
      let ?c = "c\<lparr>output_buffer := drop k m\<rparr>" let ?w2 = "put_conn a ?c w1"
      have c2: "n_conns ?w2 a = Some ?c" by simp
      obtain h2 e2 where o: "on_handler enable_writing (Conn_Handler a) ?w2 = Inr ((put_conn a (?c\<lparr>c_handler := h2\<rparr>) ?w2)\<lparr>epoller := e2\<rparr>)"
        "h_fd h2 = h_fd (c_handler ?c)" "h_events h2 = h_events (c_handler ?c) OR kwrite_event"
        by (rule on_handler_events [OF c2, where op = enable_writing and f = "\<lambda>ev. ev OR kwrite_event"]) (simp add: enable_writing_def)
      let ?w3 = "(put_conn a (?c\<lparr>c_handler := h2\<rparr>) ?w2)\<lparr>epoller := e2\<rparr>"
      have "conn_send_in_loop os a m w = Inr ?w3"
        using c s True False wr(2) o(1) by (simp add: conn_send_in_loop_def)
      moreover have "out_inv a fd (?c\<lparr>c_handler := h2\<rparr>) ?w3" using c o(2,3) wr(2) False write_flag(1) by (simp add: out_inv_def is_writing_def)
      ultimately show ?thesis using e w1(2) True by (intro exI [of _ ?w3] exI [of _ "?c\<lparr>c_handler := h2\<rparr>"]) simp
    qed
  qed
qed

lemma connection_handler_write_output:
  assumes i: "out_inv a fd c w" and wr: "os_write os (n_calls w) fd (output_buffer c) = Inr k"
  shows "\<exists>w' c'. connection_handler_write os a w = Inr w' \<and> out_inv a fd c' w' \<and> output_buffer c' = drop k (output_buffer c) \<and>
    written fd (n_log w') = written fd (n_log w) @ take k (output_buffer c)"
proof -
  have c: "n_conns w a = Some c" "c_state c = K_Connected" "h_fd (c_handler c) = fd" "is_writing (c_handler c) \<longleftrightarrow> output_buffer c \<noteq> []"
    using i by (simp_all add: out_inv_def)
  define w1 where "w1 = (if k = 0 then w\<lparr>n_calls := n_calls w + 1\<rparr> else emit (Wrote fd (take k (output_buffer c))) (w\<lparr>n_calls := n_calls w + 1\<rparr>))"
  have s: "sys_write os fd (output_buffer c) w = (Inr k, w1)" using wr by (simp add: sys_write_def w1_def Let_def)
  have w1: "n_conns w1 a = Some c" "written fd (n_log w1) = written fd (n_log w) @ take k (output_buffer c)" using c(1) by (simp_all add: w1_def)
  let ?c = "c\<lparr>output_buffer := drop k (output_buffer c)\<rparr>" let ?w2 = "put_conn a ?c w1"
  consider "k = 0" | "k \<noteq> 0" "drop k (output_buffer c) \<noteq> []" | "k \<noteq> 0" "drop k (output_buffer c) = []" by blast
  then show ?thesis
  proof cases
    case 1
    then have "connection_handler_write os a w = Inr w1" using c s by (simp add: connection_handler_write_def)
    then show ?thesis using 1 i w1 by (intro exI [of _ w1] exI [of _ c]) (simp add: out_inv_def)
  next
    case 2
    then have "connection_handler_write os a w = Inr ?w2" using c s by (simp add: connection_handler_write_def)
    then show ?thesis using 2 c w1 by (intro exI [of _ ?w2] exI [of _ ?c]) (auto simp: out_inv_def)
  next
    case 3
    have c2: "n_conns ?w2 a = Some ?c" by simp
    obtain h2 e2 where o: "on_handler disable_writing (Conn_Handler a) ?w2 = Inr ((put_conn a (?c\<lparr>c_handler := h2\<rparr>) ?w2)\<lparr>epoller := e2\<rparr>)"
      "h_fd h2 = h_fd (c_handler ?c)" "h_events h2 = h_events (c_handler ?c) AND NOT kwrite_event"
      by (rule on_handler_events [OF c2, where op = disable_writing and f = "\<lambda>ev. ev AND NOT kwrite_event"]) (simp add: disable_writing_def)
    let ?w3 = "(put_conn a (?c\<lparr>c_handler := h2\<rparr>) ?w2)\<lparr>epoller := e2\<rparr>"
    have "connection_handler_write os a w = Inr ?w3" using c s 3 o(1) by (simp add: connection_handler_write_def)
    moreover have "out_inv a fd (?c\<lparr>c_handler := h2\<rparr>) ?w3" using c o(2,3) 3 write_flag(2) by (simp add: out_inv_def is_writing_def)
    ultimately show ?thesis using w1(2) 3 by (intro exI [of _ ?w3] exI [of _ "?c\<lparr>c_handler := h2\<rparr>"]) simp
  qed
qed

text \<open>What \<open>write\<close> may do: take part of the data, and at least a byte of it when there is one.\<close>

definition writes_ok :: "os \<Rightarrow> bool" where
  "writes_ok os \<longleftrightarrow> (\<forall>n fd m. \<exists>k \<le> length m. os_write os n fd m = Inr k)"

definition writes_progress :: "os \<Rightarrow> bool" where
  "writes_progress os \<longleftrightarrow> (\<forall>n fd m. m \<noteq> [] \<longrightarrow> (\<exists>k > 0. os_write os n fd m = Inr k))"

lemma run_out_stream:
  assumes "writes_ok os"
  shows "out_inv a fd c w \<Longrightarrow> \<exists>w' c'. run_out os a ops w = Inr w' \<and> out_inv a fd c' w' \<and>
    written fd (n_log w') @ output_buffer c' = written fd (n_log w) @ output_buffer c @ sent ops"
proof (induction ops arbitrary: w c)
  case Nil
  then show ?case by auto
next
  case (Cons x ops)
  have "\<exists>w1 c1. run_out os a [x] w = Inr w1 \<and> out_inv a fd c1 w1 \<and>
    written fd (n_log w1) @ output_buffer c1 = written fd (n_log w) @ output_buffer c @ sent [x]"
  proof (cases x)
    case (Send m)
    obtain k where "os_write os (n_calls w) fd m = Inr k" "k \<le> length m" using assms unfolding writes_ok_def by blast
    then show ?thesis using conn_send_output [OF Cons.prems] Send by fastforce
  next
    case Writable
    obtain k where "os_write os (n_calls w) fd (output_buffer c) = Inr k" using assms unfolding writes_ok_def by blast
    then show ?thesis using connection_handler_write_output [OF Cons.prems] Writable by fastforce
  qed
  then obtain w1 c1 where w1: "run_out os a [x] w = Inr w1" "out_inv a fd c1 w1"
    "written fd (n_log w1) @ output_buffer c1 = written fd (n_log w) @ output_buffer c @ sent [x]" by blast
  obtain w2 c2 where w2: "run_out os a ops w1 = Inr w2" "out_inv a fd c2 w2"
    "written fd (n_log w2) @ output_buffer c2 = written fd (n_log w1) @ output_buffer c1 @ sent ops" using Cons.IH [OF w1(2)] by blast
  have "run_out os a (x # ops) w = Inr w2" using w1(1) w2(1) by (cases x) (auto simp: bindE_Inr_iff)
  moreover have "written fd (n_log w2) @ output_buffer c2 = written fd (n_log w) @ output_buffer c @ sent (x # ops)"
    using w2(3) w1(3) by (cases x) (simp_all flip: append_assoc)
  ultimately show ?case using w2(2) by blast
qed

lemma run_out_append: "run_out os a (xs @ ys) w = bindE (run_out os a xs w) (run_out os a ys)"
  by (induction os a xs w rule: run_out.induct) (simp_all add: bindE_def split: sum.splits)

lemma run_out_drains:
  assumes ok: "writes_progress os" "writes_ok os"
  shows "out_inv a fd c w \<Longrightarrow> length (output_buffer c) \<le> n \<Longrightarrow>
    \<exists>w' c'. run_out os a (replicate n Writable) w = Inr w' \<and> out_inv a fd c' w' \<and> output_buffer c' = [] \<and>
      written fd (n_log w') = written fd (n_log w) @ output_buffer c"
proof (induction n arbitrary: w c)
  case 0
  then show ?case by auto
next
  case (Suc n)
  obtain k where k: "os_write os (n_calls w) fd (output_buffer c) = Inr k" "output_buffer c \<noteq> [] \<longrightarrow> 0 < k"
    using ok unfolding writes_progress_def writes_ok_def by blast
  obtain w1 c1 where w1: "connection_handler_write os a w = Inr w1" "out_inv a fd c1 w1" "output_buffer c1 = drop k (output_buffer c)"
    "written fd (n_log w1) = written fd (n_log w) @ take k (output_buffer c)"
    using connection_handler_write_output [OF Suc.prems(1) k(1)] by blast
  have "length (output_buffer c1) \<le> n" using w1(3) k(2) Suc.prems(2) by (cases "output_buffer c = []") auto
  from Suc.IH [OF w1(2) this] w1 show ?case by auto
qed

text \<open>
  C8. The output of a connection is a stream: as long as \<open>write\<close> does not fail, whatever part of the data it
  takes each time, the bytes written so far followed by those in the output buffer are the messages sent, in
  order and complete; and with enough writable events, each of which takes at least one byte, everything
  is written.
\<close>

theorem output_stream_in_order:
  assumes "out_inv a fd c w" and "writes_ok os" and "writes_progress os"
  shows "\<exists>w1 c1 w2. run_out os a ops w = Inr w1 \<and> n_conns w1 a = Some c1 \<and>
    written fd (n_log w1) @ output_buffer c1 = written fd (n_log w) @ output_buffer c @ sent ops \<and>
    run_out os a (replicate (length (output_buffer c1)) Writable) w1 = Inr w2 \<and>
    written fd (n_log w2) = written fd (n_log w) @ output_buffer c @ sent ops"
proof -
  obtain w1 c1 where w1: "run_out os a ops w = Inr w1" "out_inv a fd c1 w1"
    "written fd (n_log w1) @ output_buffer c1 = written fd (n_log w) @ output_buffer c @ sent ops"
    using run_out_stream [OF assms(2,1)] by blast
  obtain w2 c2 where w2: "run_out os a (replicate (length (output_buffer c1)) Writable) w1 = Inr w2"
    "written fd (n_log w2) = written fd (n_log w1) @ output_buffer c1"
    using run_out_drains [OF assms(3,2) w1(2) order_refl] by blast
  then show ?thesis using w1 by (auto simp: out_inv_def)
qed

text \<open>An operating system that takes one byte at a time.\<close>

definition slow_os :: os where
  "slow_os = (sample_os [])\<lparr>os_write := (\<lambda>_ _ m. Inr (min 1 (length m)))\<rparr>"

theorem output_stream_in_order_witness:
  "\<exists>w1 c1 w2. run_out slow_os 0 [Send [1, 2], Writable, Send [3]] sample_accepted = Inr w1 \<and> n_conns w1 0 = Some c1 \<and>
    written 7 (n_log w1) @ output_buffer c1 = [1, 2, 3] \<and>
    run_out slow_os 0 (replicate (length (output_buffer c1)) Writable) w1 = Inr w2 \<and> written 7 (n_log w2) = [1, 2, 3]"
proof -
  have "case n_conns sample_accepted 0 of None \<Rightarrow> False | Some c \<Rightarrow> c_state c = K_Connected \<and> h_fd (c_handler c) = 7 \<and>
      (is_writing (c_handler c) \<longleftrightarrow> output_buffer c \<noteq> []) \<and> output_buffer c = [] \<and> written 7 (n_log sample_accepted) = []" by code_simp
  then obtain c where c: "out_inv 0 7 c sample_accepted" "output_buffer c = []" "written 7 (n_log sample_accepted) = []"
    by (auto simp: out_inv_def split: option.splits)
  have "\<exists>k \<le> length m. (Inr (min 1 (length m)) :: errno + nat) = Inr k" for m :: bytes by simp
  moreover have "m \<noteq> [] \<Longrightarrow> \<exists>k > 0. (Inr (min 1 (length m)) :: errno + nat) = Inr k" for m :: bytes by simp
  ultimately have "writes_ok slow_os" "writes_progress slow_os" unfolding writes_ok_def writes_progress_def slow_os_def by (simp_all add: sample_os_def)
  from output_stream_in_order [OF c(1) this, of "[Send [1, 2], Writable, Send [3]]"] c show ?thesis by simp
qed

section \<open>Failures\<close>

text \<open>
  When \<open>write\<close> fails in the write handler, if only because it would block, the waiting output is
  discarded: the result of \<open>write\<close> is kept in an unsigned variable, so that the error passes for a number of
  bytes and the buffer is emptied although nothing was written.
\<close>

lemma write_error_discards_output:
  assumes "n_conns w a = Some c" and "os_write os (n_calls w) (h_fd (c_handler c)) (output_buffer c) = Inl e"
  shows "\<exists>w' c'. connection_handler_write os a w = Inr w' \<and> n_conns w' a = Some c' \<and> output_buffer c' = [] \<and>
    written fd (n_log w') = written fd (n_log w)"
proof -
  let ?w1 = "w\<lparr>n_calls := n_calls w + 1\<rparr>" let ?c = "c\<lparr>output_buffer := []\<rparr>" let ?w2 = "put_conn a ?c ?w1"
  have c2: "n_conns ?w2 a = Some ?c" by simp
  obtain h2 e2 where o: "on_handler disable_writing (Conn_Handler a) ?w2 = Inr ((put_conn a (?c\<lparr>c_handler := h2\<rparr>) ?w2)\<lparr>epoller := e2\<rparr>)"
    "h_fd h2 = h_fd (c_handler ?c)" "h_events h2 = h_events (c_handler ?c) AND NOT kwrite_event"
    by (rule on_handler_events [OF c2, where op = disable_writing and f = "\<lambda>ev. ev AND NOT kwrite_event"]) (simp add: disable_writing_def)
  let ?w3 = "(put_conn a (?c\<lparr>c_handler := h2\<rparr>) ?w2)\<lparr>epoller := e2\<rparr>"
  have "connection_handler_write os a w = Inr (if c_state c = K_Disconnecting then emit (Shutdown_Wr (h_fd (c_handler c))) ?w3 else ?w3)"
    using assms o(1) by (simp add: connection_handler_write_def sys_write_def)
  then show ?thesis by simp
qed

text \<open>
  Starting a server from a thread other than the loop's dereferences NULL: the task that is queued has no
  connection, and \<open>gp_queue_in_loop\<close> takes a reference to it whatever the task's type.
\<close>

lemma start_server_outside_loop: "start_server os False w = Inl NullDeref"
  by (simp add: start_server_def gp_run_in_loop_def gp_queue_in_loop_def conn_ref_inc_def deref_def create_gp_pending_task_def)

text \<open>
  A hangup with priority data but no input runs the close handler twice for the same connection: two
  destructions are queued for one reference, and the second one uses freed memory. \<open>revents_ok\<close> leaves this out.
\<close>

definition hup_turn :: turn where
  "hup_turn = \<lparr>t_os = sample_os [], t_timers = [], t_others = [], t_events = [(Conn_Handler 0, POLLHUP OR POLLPRI)]\<rparr>"

lemma hangup_with_priority_data_uses_freed: "loop_turn sample_app 5 hup_turn sample_accepted = Some (Inl UseAfterFree)"
proof -
  have "case loop_turn sample_app 5 hup_turn sample_accepted of Some (Inl e) \<Rightarrow> e = UseAfterFree | _ \<Rightarrow> False" by code_simp
  then show ?thesis by (auto split: option.splits sum.splits)
qed

text \<open>A task that a timer's callback queues does not wake the loop up, which then waits although the task is pending.\<close>

lemma timer_task_waits:
  "case exec_apis (sample_os []) True [Conn_Force_Close 0] sample_accepted of Inl e \<Rightarrow> False | Inr w \<Rightarrow> pending_list w \<noteq> [] \<and> n_eventfd w = 0"
  by code_simp

end
