(* ===== verification/Gp_Ipc_Server.thy ===== *)
theory Gp_Ipc_Server
  imports Gp_Ipc Gp_Sock Gp_Client Gp_Net_Correct
begin

text \<open>
  The start of the protobuf server (\<open>base/gp_ipc_server.c\<close>) with the name of the process (\<open>base/gp_system.c\<close>): the server listens at a
  path made of that name, and the event loop runs it. The parts are those of the socket addresses, the event loop and the
  server; clients build the path in the same way.
\<close>

section \<open>The name of the process\<close>

text \<open>\<open>strrchr\<close> for a slash: the index of the last one.\<close>

definition last_slash :: "bytes \<Rightarrow> nat option" where
  "last_slash s = (if 47 \<in> set s then Some (length s - Suc (length (takeWhile (\<lambda>x. x \<noteq> 47) (rev s)))) else None)"

text \<open>
  \<open>readlink\<close> gives the path of the executable, cut off at the size of the array and without a NUL. The block for the name has
  the length of what is before the name. \<open>None\<close> is the pointer that has not been set.
\<close>

definition get_process_name :: "(nat \<Rightarrow> u8) \<Rightarrow> (nat \<Rightarrow> bytes option) \<Rightarrow> bytes option res" where
  "get_process_name fill readlink =
     (case readlink 4096 of
        None \<Rightarrow> Inr None
      | Some got \<Rightarrow>
          if got = [] then Inr None
          else
            (let process_dir = take 4096 got @ replicate (4096 - length got) 0 in
             bindE (strlen_in process_dir) (\<lambda>n.
             case last_slash (take n process_dir) of
               None \<Rightarrow> Inr None
             | Some i \<Rightarrow>
                 (let path_end = i + 1; process_name_len = path_end in
                  bindE (mem_write 0 (take (n - path_end) (drop path_end process_dir) @ [0]) (malloc_block fill process_name_len)) (\<lambda>blk.
                    Inr (Some blk))))))"

section \<open>The server\<close>

text \<open>
  The connection callback does nothing. What the message callback does to the connections is a parameter; its own
  work on the buffer is \<open>on_message\<close> of the protobuf messages.
\<close>

definition on_connection :: "net \<Rightarrow> nat \<Rightarrow> api_call list" where
  "on_connection w a = []"

definition ipc_app :: "(net \<Rightarrow> nat \<Rightarrow> api_call list) \<Rightarrow> app" where
  "ipc_app messages = \<lparr>app_connection = on_connection, app_message = messages\<rparr>"

definition init_gp_ipc_server :: "os \<Rightarrow> u32 \<Rightarrow> gp_sock_address \<Rightarrow> net \<Rightarrow> net res" where
  "init_gp_ipc_server os fd address w =
     bindE (init_gp_server os fd address w) (\<lambda>w1. Inr (server_set_connection_callback (server_set_message_callback Ipc_On_Message w1)))"

definition gp_ipc_start_server :: "os \<Rightarrow> bool \<Rightarrow> net \<Rightarrow> net res" where
  "gp_ipc_start_server os inl w = start_server os inl w"

text \<open>\<open>snprintf (path, 40, ...)\<close> into a cleared array: at most 39 bytes and a NUL. A NULL name is not a string.\<close>

definition ipc_path :: "bytes \<Rightarrow> bytes" where
  "ipc_path process_name =
     (let s = take 39 (map of_char ''/tmp/'' @ c_str process_name @ map of_char ''.socket'') in s @ replicate (40 - length s) 0)"

text \<open>The descriptors are those that the operating system gives; the port \<open>-1\<close> is not used for a path.\<close>

definition gp_ipc_start ::
  "(nat \<Rightarrow> u8) \<Rightarrow> (nat \<Rightarrow> bytes option) \<Rightarrow> (u16 \<Rightarrow> bytes \<Rightarrow> bytes option) \<Rightarrow> os \<Rightarrow> u32 \<Rightarrow> u32 \<Rightarrow> app \<Rightarrow> nat \<Rightarrow> turn list \<Rightarrow> net \<Rightarrow>
   net res option" where
  "gp_ipc_start fill readlink inet_pton os wakeup_fd listen_fd app fuel tns w =
     (case bindE (init_gp_loop wakeup_fd w) (\<lambda>w1.
           bindE (get_process_name fill readlink) (\<lambda>process_name.
           case process_name of
             None \<Rightarrow> Inl NullDeref
           | Some name \<Rightarrow>
               bindE (create_gp_sock_address inet_pton (ipc_path name) (- 1) DOMAIN) (\<lambda>address.
               bindE (init_gp_ipc_server os listen_fd address w1) (\<lambda>w2.
                 gp_ipc_start_server os True w2)))) of
        Inl e \<Rightarrow> Some (Inl e)
      | Inr w3 \<Rightarrow> gp_loop_run app fuel tns w3)"

section \<open>Where the server listens\<close>

lemma last_slash_append:
  assumes "47 \<notin> set name"
  shows "last_slash (dir @ 47 # name) = Some (length dir)"
proof -
  have "takeWhile (\<lambda>x. x \<noteq> 47) (rev name) = rev name" using assms by (auto simp: takeWhile_eq_all_conv)
  then have "takeWhile (\<lambda>x. x \<noteq> 47) (rev (dir @ 47 # name)) = rev name" using assms by (simp add: takeWhile_append)
  then show ?thesis unfolding last_slash_def by (simp del: rev_append)
qed

lemma c_str_padded: "0 \<notin> set p \<Longrightarrow> 0 < n \<Longrightarrow> c_str (p @ replicate n 0) = p"
  using c_str_path [of p "replicate (n - 1) 0"] by (cases n) simp_all

text \<open>
  The name of the process is got exactly if it is not longer than the path before it: the block for the name is allocated with the length of the directory. A longer name, such as that of
  a program in a directory with a short name, is copied behind the block.
\<close>

lemma process_name_needs_long_directory:
  assumes "readlink 4096 = Some (dir @ 47 # name)" and "0 \<notin> set (dir @ name)" and "47 \<notin> set name" and "length dir + length name < 4095"
  shows "if length name \<le> length dir then \<exists>blk. get_process_name fill readlink = Inr (Some blk) \<and> c_str blk = name
    else get_process_name fill readlink = Inl OutOfBounds"
proof -
  let ?p = "dir @ 47 # name" let ?k = "4096 - length ?p" let ?d = "?p @ replicate ?k 0"
  have z: "0 \<notin> set ?p" using assms(2) by auto
  have k: "0 < ?k" using assms(4) by simp
  have d: "take 4096 ?p @ replicate ?k 0 = ?d" using assms(4) by simp
  have n: "strlen_in ?d = Inr (length ?p)" using c_str_padded [OF z k] k by (simp add: strlen_in_def)
  have t: "take (length ?p) ?d = ?p" "take (length ?p - (length dir + 1)) (drop (length dir + 1) ?d) = name" by simp_all
  have e: "get_process_name fill readlink =
      bindE (mem_write 0 (name @ [0]) (malloc_block fill (length dir + 1))) (\<lambda>blk. Inr (Some blk))"
    using assms(1) last_slash_append [OF assms(3), of dir] unfolding get_process_name_def
    by (simp only: option.case d n t Let_def bindE_simps) simp
  have "c_str (name @ 0 # rest) = name" for rest using assms(2) by (intro c_str_path) simp
  then show ?thesis unfolding e by (simp add: mem_write_def)
qed

lemma get_process_name_fits:
  assumes "readlink 4096 = Some (dir @ 47 # name)" and "0 \<notin> set (dir @ name)" and "47 \<notin> set name" and "length dir + length name < 4095"
    and "length name \<le> length dir"
  shows "\<exists>blk. get_process_name fill readlink = Inr (Some blk) \<and> c_str blk = name"
  using process_name_needs_long_directory [where readlink = readlink, OF assms(1-4), of fill] assms(5) by simp

text \<open>Characters as bytes.\<close>

lemma unat_of_char: "unat (of_char c :: u8) = of_char c"
proof -
  have "(of_char c :: nat) < 256" using of_char_mod_256 [of c, where 'a = nat] by (metis mod_less_divisor zero_less_numeral)
  then have "unat (of_nat (of_char c) :: u8) = of_char c" by (simp add: unat_of_nat)
  then show ?thesis by (simp only: of_nat_of_char)
qed

lemma of_char_byte_eq: "(of_char c :: u8) = of_char d \<longleftrightarrow> c = d"
  by (metis of_char_eq_iff unat_of_char)

lemma zero_notin_chars: "0 \<notin> set (map of_char s :: bytes) \<longleftrightarrow> CHR 0x00 \<notin> set s"
proof -
  have z: "(0 :: u8) = of_char (CHR 0x00)" by simp
  show ?thesis unfolding z set_map image_iff of_char_byte_eq by blast
qed

lemma slash_notin_chars: "47 \<notin> set (map of_char s :: bytes) \<longleftrightarrow> CHR ''/'' \<notin> set s"
proof -
  have z: "(47 :: u8) = of_char (CHR ''/'')" by simp
  show ?thesis unfolding z set_map image_iff of_char_byte_eq by blast
qed

lemma ipc_path_of_name:
  assumes "c_str blk = map of_char name" and "CHR 0x00 \<notin> set name"
  shows "\<exists>n. ipc_path blk = map of_char (server_path name) @ replicate (Suc n) 0"
proof -
  have "length (server_path name) \<le> 39" by (simp add: server_path_def)
  then have "40 - length (server_path name) = Suc (39 - length (server_path name))" by simp
  moreover have "ipc_path blk = map of_char (server_path name) @ replicate (40 - length (server_path name)) 0"
    unfolding ipc_path_def server_path_def assms(1) Let_def map_append [symmetric] take_map by simp
  ultimately show ?thesis by metis
qed

text \<open>The address made of the path: a path of at most 39 bytes always fits.\<close>

definition path_address :: "bytes \<Rightarrow> gp_sock_address" where
  "path_address p = \<lparr>sa_family = AF_UNIX, sa_data = p @ 0 # replicate (109 - length p) 0\<rparr>"

lemma ipc_address:
  assumes "c_str blk = map of_char name" and "CHR 0x00 \<notin> set name"
  shows "create_gp_sock_address inet_pton (ipc_path blk) port DOMAIN = Inr (path_address (map of_char (server_path name)))"
    and "0 \<notin> set (map of_char (server_path name) :: bytes)" and "length (server_path name) \<le> 39"
proof -
  obtain n where n: "ipc_path blk = map of_char (server_path name) @ replicate (Suc n) 0" using ipc_path_of_name [OF assms] by blast
  let ?p = "map of_char (server_path name) :: bytes"
  have "set (server_path name) \<subseteq> set (''/tmp/'' @ name @ ''.socket'')" unfolding server_path_def by (rule set_take_subset)
  then have "CHR 0x00 \<notin> set (server_path name)" using assms(2) by auto
  then show z: "0 \<notin> set ?p" using zero_notin_chars by blast
  show len: "length (server_path name) \<le> 39" by (simp add: server_path_def)
  have s: "c_str (ipc_path blk) = ?p" unfolding n using c_str_path [OF z] by simp
  have t: "take (length ?p + 1) (ipc_path blk) = ?p @ [0]" unfolding n by simp
  have "create_gp_sock_address inet_pton (ipc_path blk) port DOMAIN = create_gp_sock_address inet_pton (?p @ [0]) port DOMAIN"
  proof -
    have "strlen_in (ipc_path blk) = Inr (length ?p)" "strlen_in (?p @ [0]) = Inr (length ?p)"
      using s c_str_path [OF z, of "[]"] by (simp_all add: strlen_in_def n)
    then show ?thesis using t unfolding create_gp_sock_address_def init_gp_sock_address_def by simp
  qed
  then show "create_gp_sock_address inet_pton (ipc_path blk) port DOMAIN = Inr (path_address ?p)"
    using create_domain [OF z, of inet_pton port] len by (simp add: path_address_def)
qed

text \<open>Binding to a path of at most 39 bytes: the path is unlinked and the descriptor bound to it.\<close>

lemma path_address_facts:
  assumes "0 \<notin> set p" and "length p \<le> 39"
  shows "get_gp_sock_len (path_address p) = Inr (2 + length p)"
    and "get_gp_sock_address ntop (path_address p) (malloc_block fill 40) 40 = Inr (p @ replicate (40 - length p) 0)"
    and "strlen_in (p @ replicate (40 - length p) 0) = Inr (length p)" and "c_str (p @ replicate (40 - length p) 0) = p"
    and "take (length p) (sa_data (path_address p)) = p" and "sa_family (path_address p) = AF_UNIX"
    and "c_str (strncpy_bytes (sun_path (path_address p)) 40) = p"
proof -
  have sp: "sun_path (path_address p) = p @ 0 # replicate (107 - length p) 0"
    using assms(2) by (simp add: sun_path_def path_address_def sizeof_defs take_Cons')
  have s: "strncpy_bytes (sun_path (path_address p)) 40 = p @ replicate (40 - length p) 0"
    using assms(2) c_str_path [OF assms(1)] by (simp add: sp strncpy_bytes_def)
  show c: "c_str (p @ replicate (40 - length p) 0) = p" using assms by (intro c_str_padded) simp_all
  then show "c_str (strncpy_bytes (sun_path (path_address p)) 40) = p" by (simp add: s)
  show "strlen_in (p @ replicate (40 - length p) 0) = Inr (length p)" using c assms(2) by (simp add: strlen_in_def)
  show "get_gp_sock_len (path_address p) = Inr (2 + length p)"
    using c_str_path [OF assms(1)] by (simp add: get_gp_sock_len_def sp strlen_in_def) (simp add: path_address_def AF_UNIX_def AF_INET_def AF_INET6_def)
  show "get_gp_sock_address ntop (path_address p) (malloc_block fill 40) 40 = Inr (p @ replicate (40 - length p) 0)"
    using assms(2) by (simp add: get_gp_sock_address_def s mem_write_def sizeof_path_def)
      (simp add: path_address_def AF_UNIX_def AF_INET_def AF_INET6_def)
  show "take (length p) (sa_data (path_address p)) = p" "sa_family (path_address p) = AF_UNIX" by (simp_all add: path_address_def)
qed

text \<open>Whether a server with such an address starts depends on \<open>bind\<close> and \<open>listen\<close> only.\<close>

lemma boot_at_path:
  assumes "0 \<notin> set p" and "length p \<le> 39"
  shows "if os_bind os (n_calls w0) \<and> os_listen os (n_calls w0 + 1)
    then \<exists>w. boot os wakeup_fd listen_fd (path_address p) callback w0 = Inr w
    else boot os wakeup_fd listen_fd (path_address p) callback w0 = Inl Abort"
proof -
  obtain w1 where w1: "init_gp_loop wakeup_fd w0 = Inr w1" "n_calls w1 = n_calls w0"
    by (cases "enable_reading Wakeup_Handler init_gp_epoller (set_read_callback Wakeup_Handler_Read_Callback (init_gp_handler wakeup_fd))")
      (simp add: init_gp_loop_def on_handler_def)
  note P = path_address_facts [OF assms]
  obtain w2 where w2: "init_gp_server os listen_fd (path_address p) w1 = (if os_bind os (n_calls w0) then Inr w2 else Inl Abort)"
    "n_calls w2 = n_calls w0 + 1"
    by (rule that [of "(emit (Bound listen_fd AF_UNIX p) (emit (Unlinked p)
        (w1\<lparr>connections := (\<lambda>_. None), s_message_callback := None, s_connection_callback := False, s_write_complete_callback := False\<rparr>)))
        \<lparr>acceptor := \<lparr>accept_handler = set_read_callback Acceptor_Read_Callback (init_gp_handler listen_fd), listenning = False\<rparr>,
         n_listen_open := True, n_calls := n_calls w1 + 1\<rparr>"])
      (simp_all add: init_gp_server_def init_gp_acceptor_def P w1 emit_def)
  have "\<exists>w. start_server os True (server_set_connection_callback (server_set_message_callback callback w2)) =
      (if os_listen os (n_calls w0 + 1) then Inr w else Inl Abort)"
    by (simp add: start_server_def gp_run_in_loop_def create_gp_pending_task_def conn_task_def run_in_loop_server_start_def acceptor_listen_def
        server_set_connection_callback_def server_set_message_callback_def w2(2) on_handler_def Let_def split: prod.splits)
  then show ?thesis using w1(1) w2(1) by (auto simp: boot_def)
qed

text \<open>
  C32. A protobuf server listens where its clients connect. When the name of the process is got, \<open>gp_ipc_start\<close> aborts if \<open>bind\<close> or
  \<open>listen\<close> fails; otherwise it enters the event loop, and in the state it does so the listening descriptor is bound to exactly
  the path that the clients connect to for the name of the process (a file left there has been unlinked), the
  descriptor is listened at and watched for input, and the installed callbacks are \<open>on_message\<close> and \<open>on_connection\<close>. Nothing is said here of what
  the loop does then, which depends on the messages received.
\<close>

theorem ipc_server_listens_where_clients_connect:
  assumes "readlink 4096 = Some (map of_char (dir @ CHR ''/'' # name))" and "CHR 0x00 \<notin> set (dir @ name)" and "CHR ''/'' \<notin> set name"
    and "length dir + length name < 4095" and "length name \<le> length dir"
    and "wakeup_fd \<noteq> listen_fd" and "n_conns w0 = Map.empty"
  shows "if os_bind os (n_calls w0) \<and> os_listen os (n_calls w0 + 1) then
      \<exists>w. (\<forall>app fuel tns. gp_ipc_start fill readlink inet_pton os wakeup_fd listen_fd app fuel tns w0 = gp_loop_run app fuel tns w) \<and>
        n_log w = n_log w0 @ [Unlinked (map of_char (server_path name)), Bound listen_fd AF_UNIX (map of_char (server_path name))] \<and>
        listenning (acceptor w) \<and> ep_interest (epoller w) listen_fd = Some (kread_event, Accept_Handler) \<and>
        read_callback (accept_handler (acceptor w)) = Some Acceptor_Read_Callback \<and>
        s_message_callback w = Some Ipc_On_Message \<and> s_connection_callback w
    else \<forall>app fuel tns. gp_ipc_start fill readlink inet_pton os wakeup_fd listen_fd app fuel tns w0 = Some (Inl Abort)"
proof -
  have z: "0 \<notin> set (map of_char name :: bytes)" "0 \<notin> set (map of_char dir :: bytes)" "47 \<notin> set (map of_char name :: bytes)"
    using assms(2,3) zero_notin_chars slash_notin_chars by auto
  obtain blk where blk: "get_process_name fill readlink = Inr (Some blk)" "c_str blk = map of_char name"
    using get_process_name_fits [of readlink "map of_char dir" "map of_char name" fill] assms(1,4,5) z by auto
  let ?p = "map of_char (server_path name) :: bytes"
  have a: "create_gp_sock_address inet_pton (ipc_path blk) (- 1) DOMAIN = Inr (path_address ?p)" "0 \<notin> set ?p" "length ?p \<le> 39"
    using ipc_address [of blk name] blk(2) assms(2) by auto
  have start: "gp_ipc_start fill readlink inet_pton os wakeup_fd listen_fd app fuel tns w0 =
      (case boot os wakeup_fd listen_fd (path_address ?p) Ipc_On_Message w0 of Inl e \<Rightarrow> Some (Inl e) | Inr w \<Rightarrow> gp_loop_run app fuel tns w)" for app fuel tns
    using blk(1) a(1) by (auto simp: gp_ipc_start_def boot_def init_gp_ipc_server_def gp_ipc_start_server_def bindE_def split: sum.splits)
  show ?thesis
  proof (cases "os_bind os (n_calls w0) \<and> os_listen os (n_calls w0 + 1)")
    case True
    then obtain w where w: "boot os wakeup_fd listen_fd (path_address ?p) Ipc_On_Message w0 = Inr w"
      using boot_at_path [OF a(2,3), of os w0 wakeup_fd listen_fd Ipc_On_Message] by auto
    note B = boot_effect [OF w assms(6,7)]
    have "n_log w = n_log w0 @ [Unlinked ?p, Bound listen_fd AF_UNIX ?p]"
      using B(9) path_address_facts [OF a(2,3)] by (auto simp: bind_log_def)
    then show ?thesis using True start w B(7,8,12,13,14) by (intro if_P [THEN iffD2] exI [of _ w]) (simp_all add: set_read_callback_def)
  next
    case False
    then show ?thesis using boot_at_path [OF a(2,3), of os w0 wakeup_fd listen_fd Ipc_On_Message] start by auto
  qed
qed

theorem ipc_server_listens_where_clients_connect_witness:
  "\<exists>w. (\<forall>app fuel tns. gp_ipc_start (\<lambda>_. 0) (\<lambda>_. Some (map of_char ''/usr/gpd'')) (\<lambda>_ _. None) (sample_os []) 3 4 app fuel tns net0 = gp_loop_run app fuel tns w) \<and>
    n_log w = [Unlinked (map of_char ''/tmp/gpd.socket''), Bound 4 AF_UNIX (map of_char ''/tmp/gpd.socket'')] \<and> s_message_callback w = Some Ipc_On_Message"
proof -
  have l: "(\<lambda>_. Some (map of_char ''/usr/gpd'')) (4096 :: nat) = Some (map of_char (''/usr'' @ CHR ''/'' # ''gpd'') :: bytes)" by simp
  have p: "server_path ''gpd'' = ''/tmp/gpd.socket''" by (simp add: server_path_def)
  have "os_bind (sample_os []) k \<and> os_listen (sample_os []) k" "n_log net0 = []" for k by (simp_all add: sample_os_def net0_def)
  then show ?thesis
    using ipc_server_listens_where_clients_connect [where name = "''gpd''" and fill = "\<lambda>_. 0" and inet_pton = "\<lambda>_ _. None"
      and wakeup_fd = 3 and listen_fd = 4 and os = "sample_os []", OF l _ _ _ _ _ net0_empty]
    unfolding p by auto
qed

end
