(* ===== verification/Gp_Ssl.thy ===== *)
theory Gp_Ssl
  imports Gp_Ipc Gp_Net
begin

text \<open>
  The TLS server (\<open>base/gp_ssl_server.c\<close>): a server whose connections get a session of the OpenSSL library when
  they are established. The session's handshake, its reads and its release are callbacks of the connection's
  handler; connections, handlers, reference counts, pending tasks and the poller are those of the
  plain server. OpenSSL is a parameter: its answers depend on the number of the call.
\<close>

section \<open>Data\<close>

text \<open>
  What \<open>conn_pri\<close> points to: nothing, a session, or a session that has been freed (the pointer is not reset).
\<close>

datatype ssl_ptr = Ssl_Null | Ssl_Live | Ssl_Freed

datatype ssl_error = SSL_ERROR_WANT_READ | SSL_ERROR_WANT_WRITE | SSL_ERROR_OTHER

text \<open>
  The answers of OpenSSL: whether an object is created or a file accepted, the result of the handshake and the
  error that goes with a result, a result \<open>\<le> 0\<close> or the decrypted bytes of a read, the number of
  bytes taken by a write; and \<open>errno\<close> after a read.
\<close>

record openssl =
  SSL_CTX_new :: "nat \<Rightarrow> bool"
  SSL_CTX_use_PrivateKey_file :: "nat \<Rightarrow> int"
  SSL_CTX_use_certificate_file :: "nat \<Rightarrow> int"
  SSL_CTX_check_private_key :: "nat \<Rightarrow> int"
  SSL_new :: "nat \<Rightarrow> bool"
  SSL_do_handshake :: "nat \<Rightarrow> int"
  SSL_get_error :: "nat \<Rightarrow> int \<Rightarrow> ssl_error"
  SSL_read :: "nat \<Rightarrow> int + bytes"
  SSL_write :: "nat \<Rightarrow> bytes \<Rightarrow> int"
  ssl_errno :: "nat \<Rightarrow> errno"

text \<open>
  The server with its connections, the context \<open>ctx\<close> (NULL or not), the session pointer of each connection, the number
  of calls of OpenSSL made, and what \<open>SSL_write\<close> has taken.
\<close>

record ssl_net =
  sn_net :: net
  sn_ctx :: bool
  conn_pri :: "nat \<Rightarrow> ssl_ptr"
  sn_calls :: nat
  sn_sent :: "(nat \<times> bytes) list"

definition on_net :: "(net \<Rightarrow> net res) \<Rightarrow> ssl_net \<Rightarrow> ssl_net res" where
  "on_net f w = bindE (f (sn_net w)) (\<lambda>n. Inr (w\<lparr>sn_net := n\<rparr>))"

text \<open>OpenSSL dereferences the session it is given.\<close>

definition ssl_session :: "ssl_net \<Rightarrow> nat \<Rightarrow> unit res" where
  "ssl_session w a =
     (case conn_pri w a of Ssl_Null \<Rightarrow> Inl NullDeref | Ssl_Freed \<Rightarrow> Inl UseAfterFree | Ssl_Live \<Rightarrow> Inr ())"

section \<open>Creation\<close>

definition gp_set_ssl_cert_key :: "openssl \<Rightarrow> ssl_net \<Rightarrow> ssl_net res" where
  "gp_set_ssl_cert_key lib w =
     (if SSL_CTX_use_PrivateKey_file lib (sn_calls w) \<le> 0 then Inl Abort
      else if SSL_CTX_use_certificate_file lib (sn_calls w + 1) \<le> 0 then Inl Abort
      else if SSL_CTX_check_private_key lib (sn_calls w + 2) = 0 then Inl Abort
      else Inr (w\<lparr>sn_calls := sn_calls w + 3\<rparr>))"

definition init_gp_ssl_server :: "openssl \<Rightarrow> os \<Rightarrow> u32 \<Rightarrow> gp_sock_address \<Rightarrow> ssl_net \<Rightarrow> ssl_net res" where
  "init_gp_ssl_server lib os fd address w =
     bindE (on_net (init_gp_server os fd address) w) (\<lambda>w1.
       let w2 = w1\<lparr>sn_ctx := SSL_CTX_new lib (sn_calls w1), sn_calls := sn_calls w1 + 1\<rparr> in
       if \<not> sn_ctx w2 then Inl Abort
       else Inr (w2\<lparr>sn_net := server_set_connection_callback (sn_net w2)\<rparr>))"

definition gp_ssl_start_server :: "os \<Rightarrow> bool \<Rightarrow> ssl_net \<Rightarrow> ssl_net res" where
  "gp_ssl_start_server os inl w = on_net (start_server os inl) w"

section \<open>Handlers of a connection\<close>

text \<open>
  The connection callback of the server, called when a connection is established and when it is closed.
  \<open>SSL_set_fd\<close> dereferences the new session.
\<close>

definition ssl_connection_init :: "openssl \<Rightarrow> nat \<Rightarrow> ssl_net \<Rightarrow> ssl_net res" where
  "ssl_connection_init lib a w =
     bindE (get_conn (sn_net w) a) (\<lambda>c.
     if c_state c = K_Connected then
       (let w1 = w\<lparr>conn_pri := (conn_pri w)(a := if SSL_new lib (sn_calls w) then Ssl_Live else Ssl_Null),
                   sn_calls := sn_calls w + 1\<rparr>
        in bindE (ssl_session w1 a) (\<lambda>_.
             let h = set_write_callback Ssl_Handler_Handshake (set_read_callback Ssl_Handler_Handshake
                       (set_close_callback Ssl_Handler_Close (c_handler c)))
             in Inr (w1\<lparr>sn_net := put_conn a (c\<lparr>c_handler := h\<rparr>) (sn_net w1)\<rparr>)))
     else Inr w)"

text \<open>\<open>connection_established\<close> with the connection callback of the TLS server.\<close>

definition ssl_connection_established :: "openssl \<Rightarrow> nat \<Rightarrow> ssl_net \<Rightarrow> ssl_net res" where
  "ssl_connection_established lib a w =
     bindE (get_conn (sn_net w) a) (\<lambda>c.
     bindE (on_net (\<lambda>n. on_handler enable_reading (Conn_Handler a) (put_conn a (c\<lparr>c_state := K_Connected\<rparr>) n)) w) (\<lambda>w1.
     bindE (get_conn (sn_net w1) a) (\<lambda>c1.
     if c_connection_callback c1 then
       ssl_connection_init lib a (w1\<lparr>sn_net := emit (On_Connection a (c_state c1)) (sn_net w1)\<rparr>)
     else Inl NullDeref)))"

text \<open>
  When the handshake is complete the read callback is replaced, and the message callback is set on the connection and the server.
  The write callback stays the handshake.
\<close>

definition ssl_handler_handshake :: "openssl \<Rightarrow> nat \<Rightarrow> ssl_net \<Rightarrow> ssl_net res" where
  "ssl_handler_handshake lib a w =
     bindE (get_conn (sn_net w) a) (\<lambda>c.
     bindE (ssl_session w a) (\<lambda>_.
       let r = SSL_do_handshake lib (sn_calls w); w1 = w\<lparr>sn_calls := sn_calls w + 1\<rparr> in
       if r = 1 then
         Inr (w1\<lparr>sn_net := put_conn a (c\<lparr>c_handler := set_read_callback Ssl_Handler_Read (c_handler c), c_message_callback := Some Handle_Ssl_Msg\<rparr>)
                             (server_set_message_callback Handle_Ssl_Msg (sn_net w1))\<rparr>)
       else
         (case SSL_get_error lib (sn_calls w) r of
            SSL_ERROR_WANT_WRITE \<Rightarrow>
              bindE (on_net (on_handler enable_writing (Conn_Handler a)) w1) (on_net (on_handler disable_reading (Conn_Handler a)))
          | SSL_ERROR_WANT_READ \<Rightarrow>
              bindE (on_net (on_handler enable_reading (Conn_Handler a)) w1) (on_net (on_handler disable_writing (Conn_Handler a)))
          | SSL_ERROR_OTHER \<Rightarrow> Inr w1)))"

text \<open>
  \<open>size_t n = SSL_write (...)\<close>: a negative result is a large \<open>n\<close>, and everything is retrieved. No callback of any handler is
  set to this function.
\<close>

definition ssl_handler_write :: "openssl \<Rightarrow> nat \<Rightarrow> ssl_net \<Rightarrow> ssl_net res" where
  "ssl_handler_write lib a w =
     bindE (get_conn (sn_net w) a) (\<lambda>c.
     bindE (ssl_session w a) (\<lambda>_.
       let r = SSL_write lib (sn_calls w) (output_buffer c); n = word_of_int r :: u64;
           left = drop (unat n) (output_buffer c);
           w1 = w\<lparr>sn_calls := sn_calls w + 1, sn_sent := sn_sent w @ [(a, take (nat r) (output_buffer c))]\<rparr>
       in if n = 0 then Inr w1
          else
            (let w2 = w1\<lparr>sn_net := put_conn a (c\<lparr>output_buffer := left\<rparr>) (sn_net w1)\<rparr> in
             if left = [] then
               bindE (on_net (on_handler disable_writing (Conn_Handler a)) w2) (\<lambda>w3.
                 Inr (if c_state c = K_Disconnecting then w3\<lparr>sn_net := emit (Shutdown_Wr (h_fd (c_handler c))) (sn_net w3)\<rparr> else w3))
             else Inr w2)))"

text \<open>\<open>SSL_free\<close> of NULL does nothing; freeing a session twice is an access to freed memory.\<close>

definition ssl_handler_close :: "nat \<Rightarrow> ssl_net \<Rightarrow> ssl_net res" where
  "ssl_handler_close a w =
     bindE (on_net (conn_ref_inc (Some a)) w) (\<lambda>w1.
     bindE (get_conn (sn_net w1) a) (\<lambda>c1.
     bindE (if c_close_callback c1 then on_net (remove_conn a) w1 else Inl NullDeref) (\<lambda>w2.
     bindE (get_conn (sn_net w2) a) (\<lambda>_.
     bindE (case conn_pri w2 a of
              Ssl_Null \<Rightarrow> Inr w2
            | Ssl_Live \<Rightarrow> Inr (w2\<lparr>conn_pri := (conn_pri w2)(a := Ssl_Freed)\<rparr>)
            | Ssl_Freed \<Rightarrow> Inl UseAfterFree) (\<lambda>w3.
     bindE (conn_ref_dec (Some a) (sn_net w3)) (\<lambda>(p, n). Inr (w3\<lparr>sn_net := n\<rparr>)))))))"

text \<open>
  What is read goes to the end of the input buffer; the indices of the buffer are those of \<open>ssl_buffer_read\<close> below. A
  result of 0 and an error other than a reset are printed.
\<close>

definition ssl_handler_read :: "openssl \<Rightarrow> os \<Rightarrow> app \<Rightarrow> nat \<Rightarrow> ssl_net \<Rightarrow> ssl_net res" where
  "ssl_handler_read lib os app a w =
     bindE (get_conn (sn_net w) a) (\<lambda>c.
     bindE (ssl_session w a) (\<lambda>_.
       let r = SSL_read lib (sn_calls w); w1 = w\<lparr>sn_calls := sn_calls w + 1\<rparr> in
       case r of
         Inl n \<Rightarrow> if n < 0 \<and> ssl_errno lib (sn_calls w) = ECONNRESET then ssl_handler_close a w1 else Inr w1
       | Inr got \<Rightarrow>
           if got = [] then Inr w1
           else
             bindE (on_net (\<lambda>n. conn_ref_inc (Some a) (put_conn a (c\<lparr>input_buffer := input_buffer c @ got\<rparr>) n)) w1) (\<lambda>w2.
             bindE (on_net (call_message_callback os app a) w2) (\<lambda>w3.
             bindE (conn_ref_dec (Some a) (sn_net w3)) (\<lambda>(p, n). Inr (w3\<lparr>sn_net := n\<rparr>))))))"

text \<open>
  The input buffer in a call of \<open>ssl_handler_read\<close>. \<open>rd\<close> is \<open>SSL_read\<close> as a function of the space it is given, which is an
  \<open>int\<close>. A read that fills the block makes room for half its length, computed as a \<open>double\<close> and
  converted to \<open>int\<close>, which is undefined beyond that type. The result is the space, the bytes read and the buffer.
\<close>

definition ssl_buffer_read ::
  "(nat \<Rightarrow> u8) \<Rightarrow> (int \<Rightarrow> int + bytes) \<Rightarrow> gp_buffer \<Rightarrow> (int \<times> bytes \<times> gp_buffer) res" where
  "ssl_buffer_read fill rd b =
     (let writable = sint (ucast (writable_bytes b) :: u32) in
      case rd writable of
        Inl n \<Rightarrow> Inr (writable, [], b)
      | Inr got \<Rightarrow>
          bindE (mem_write (unat (writer_index b)) got (buf_bytes b)) (\<lambda>blk.
            let b1 = b\<lparr>buf_bytes := blk\<rparr>; n = int (length got) in
            if n < writable then Inr (writable, got, b1\<lparr>writer_index := writer_index b1 + word_of_int n\<rparr>)
            else
              (let half = unat (buf_len b1) div 2 in
               if 2147483648 \<le> half then Inl SignedOverflow
               else bindE (ensure_writable_bytes fill (b1\<lparr>writer_index := buf_len b1\<rparr>) (of_nat half)) (\<lambda>b2.
                      Inr (writable, got, b2)))))"

text \<open>The message callback after the handshake.\<close>

definition handle_ssl_msg ::
  "bytes \<Rightarrow> ('d \<Rightarrow> bytes \<Rightarrow> 'm option) \<Rightarrow> ('m \<Rightarrow> bytes) \<Rightarrow> ('d, 'cb) ipc_state \<Rightarrow>
   (('cb, 'm) msg_event option \<times> ('d, 'cb) ipc_state) res" where
  "handle_ssl_msg seed unpack name_of st =
     (if 8 \<le> readable_bytes (ipc_buffer st) then
        bindE (decode seed unpack (ipc_pb_map st) (ipc_buffer st)) (\<lambda>(msg, pm, b).
        case msg of
          None \<Rightarrow> Inr (None, st\<lparr>ipc_pb_map := pm, ipc_buffer := b\<rparr>)
        | Some m \<Rightarrow>
            bindE (get_msg_callback seed (name_of m) (ipc_callback_map st)) (\<lambda>(cb, cm).
              Inr (Some (case cb of Some f \<Rightarrow> RunCallback f m | None \<Rightarrow> RunDefault m),
                   st\<lparr>ipc_pb_map := pm, ipc_buffer := b, ipc_callback_map := cm\<rparr>)))
      else Inr (None, st))"

lemma handle_ssl_msg_is_on_message: "handle_ssl_msg = on_message"
  by (simp add: handle_ssl_msg_def on_message_def fun_eq_iff Let_def bindE_def split: sum.splits prod.splits option.splits)

section \<open>Events\<close>

text \<open>The callbacks of the TLS server are called with the handler of a connection; all others are those of the plain server.\<close>

fun ssl_handler_callback :: "openssl \<Rightarrow> os \<Rightarrow> app \<Rightarrow> handler_cb \<Rightarrow> haddr \<Rightarrow> ssl_net \<Rightarrow> ssl_net res" where
  "ssl_handler_callback lib os app Ssl_Handler_Handshake (Conn_Handler a) w = ssl_handler_handshake lib a w"
| "ssl_handler_callback lib os app Ssl_Handler_Read (Conn_Handler a) w = ssl_handler_read lib os app a w"
| "ssl_handler_callback lib os app Ssl_Handler_Close (Conn_Handler a) w = ssl_handler_close a w"
| "ssl_handler_callback lib os app cb p w = on_net (handler_callback os app cb p) w"

definition ssl_event_case ::
  "openssl \<Rightarrow> os \<Rightarrow> app \<Rightarrow> (u32 \<Rightarrow> bool) \<Rightarrow> (handler_cb gp_handler \<Rightarrow> handler_cb option) \<Rightarrow> haddr \<Rightarrow> ssl_net \<Rightarrow> ssl_net res" where
  "ssl_event_case lib os app test cb p w =
     bindE (get_handler (sn_net w) p) (\<lambda>h.
       if test (h_revents h) then (case cb h of None \<Rightarrow> Inr w | Some f \<Rightarrow> ssl_handler_callback lib os app f p w) else Inr w)"

definition ssl_handle_event :: "openssl \<Rightarrow> os \<Rightarrow> app \<Rightarrow> haddr \<Rightarrow> ssl_net \<Rightarrow> ssl_net res" where
  "ssl_handle_event lib os app p w =
     bindE (on_net (set_event_handling True p) w) (\<lambda>w1.
     bindE (ssl_event_case lib os app (\<lambda>r. r AND POLLHUP \<noteq> 0 \<and> r AND POLLIN = 0) close_callback p w1) (\<lambda>w2.
     bindE (ssl_event_case lib os app (\<lambda>r. r AND (POLLERR OR POLLNVAL) \<noteq> 0) error_callback p w2) (\<lambda>w3.
     bindE (ssl_event_case lib os app (\<lambda>r. r AND (POLLIN OR POLLPRI OR POLLRDHUP) \<noteq> 0) read_callback p w3) (\<lambda>w4.
     bindE (ssl_event_case lib os app (\<lambda>r. r AND POLLOUT \<noteq> 0) write_callback p w4) (\<lambda>w5.
       on_net (set_event_handling False p) w5)))))"

end
