(* ===== verification/Gp_Ssl_Correct.thy ===== *)
theory Gp_Ssl_Correct
  imports Gp_Ssl Gp_Net_Tasks
begin

text \<open>
  What the TLS server (\<open>base/gp_ssl_server.c\<close>) does with its connections: the input buffer holds the decrypted stream, the handshake
  asks the poller for what OpenSSL wants, closing frees the session and the connection. And what it does not:
  a handshake that ends while it waits to write leaves the connection deaf, a hang-up with further events
  uses the freed session, and the end of the stream is ignored.
\<close>

section \<open>The input of a connection is the decrypted stream\<close>

text \<open>
  Bounds: a TLS record holds at most 16384 bytes. While at most \<open>2 ^ 29\<close> bytes wait in the buffer, the block is at most three halves of
  twice that, so its length and the space left fit an \<open>int\<close>.
\<close>

definition tls_len_max :: nat where "tls_len_max = 1610612760"

definition backlog_max :: nat where "backlog_max = 536870912"

definition tls_record_max :: nat where "tls_record_max = 16384"

text \<open>There is always room for at least one byte: \<open>SSL_read\<close> is never called with an empty buffer.\<close>

definition tls_buffer_ok :: "gp_buffer \<Rightarrow> bool" where
  "tls_buffer_ok b \<longleftrightarrow> buffer_ok b \<and> 0 < unat (writable_bytes b) \<and> unat (buf_len b) \<le> tls_len_max"

text \<open>What OpenSSL documents of \<open>SSL_read\<close>: a success delivers at least one byte, at most as many as fit and at most one record.\<close>

definition ssl_read_honest :: "(int \<Rightarrow> int + bytes) \<Rightarrow> bool" where
  "ssl_read_honest rd \<longleftrightarrow>
     (\<forall>n got. 0 < n \<longrightarrow> rd n = Inr got \<longrightarrow> got \<noteq> [] \<and> int (length got) \<le> n \<and> length got \<le> tls_record_max)"

definition delivered :: "int + bytes \<Rightarrow> bytes" where
  "delivered r = (case r of Inl n \<Rightarrow> [] | Inr got \<Rightarrow> got)"

lemma delivered_simps [simp]: "delivered (Inl n) = []" "delivered (Inr got) = got"
  by (simp_all add: delivered_def)

lemma buf_len_ensure:
  assumes "ensure_writable_bytes fill b n = Inr b'" and "writable_bytes b = 0"
  shows "buf_len b' = buf_len b \<or> (prependable_bytes b < n + k_cheap_prepend \<and> buf_len b' = n + writer_index b)"
  using assms by (auto simp: ensure_writable_bytes_def make_space_def Let_def bindE_Inr_iff split: if_splits)

lemma writable_int:
  assumes "tls_buffer_ok b"
  shows "sint (ucast (writable_bytes b) :: u32) = int (unat (writable_bytes b))"
proof -
  have "unat (writable_bytes b) < 2147483648"
    using assms unat_writable_bytes [of b] unfolding tls_buffer_ok_def tls_len_max_def by linarith
  then have "unat (ucast (writable_bytes b) :: u32) = unat (writable_bytes b)"
    by (simp add: unsigned_ucast_eq unsigned_take_bit_eq take_bit_nat_eq_self)
  then show ?thesis using \<open>unat (writable_bytes b) < 2147483648\<close> sint32_nonneg [of "ucast (writable_bytes b) :: u32"] by (metis uint_nat)
qed

lemma ssl_buffer_read_full:
  assumes b: "buffer_ok b" "writer_index b = buf_len b" "unat (buf_len b) \<le> tls_len_max" "8 < unat (buf_len b)"
    and c: "length (contents b) \<le> backlog_max"
  shows "\<exists>b'. ensure_writable_bytes fill b (of_nat (unat (buf_len b) div 2)) = Inr b' \<and> tls_buffer_ok b' \<and> contents b' = contents b"
proof -
  let ?half = "unat (buf_len b) div 2"
  have n: "unat (of_nat ?half :: u64) = ?half" using b(3) by (simp add: unat_of_nat64 tls_len_max_def)
  have "unat (of_nat ?half :: u64) \<le> buf_room b" using b(2,3) n by (simp add: buf_room_def tls_len_max_def)
  then obtain b' where b': "ensure_writable_bytes fill b (of_nat ?half) = Inr b'" "buffer_ok b'" "contents b' = contents b"
    "?half \<le> unat (writable_bytes b')"
    using ensure_writable_bytes_correct [OF b(1), of "of_nat ?half" fill] n by auto
  have "writable_bytes b = 0" using b(2) by (simp add: writable_bytes_def)
  note L = buf_len_ensure [OF b'(1) this]
  have h8: "unat (of_nat ?half + k_cheap_prepend) = ?half + 8"
    using n b(3) by (subst unat_add64) (simp_all add: k_cheap_prepend_def tls_len_max_def)
  have nl: "unat (of_nat ?half + writer_index b) = ?half + unat (buf_len b)"
    using n b(2,3) by (subst unat_add64) (simp_all add: tls_len_max_def)
  have "unat (buf_len b') \<le> tls_len_max"
  proof (cases "buf_len b' = buf_len b")
    case False
    then have p: "unat (reader_index b) < ?half + 8" and l: "buf_len b' = of_nat ?half + writer_index b"
      using L h8 by (auto simp: word_less_nat_alt prependable_bytes_def)
    have "unat (buf_len b) - unat (reader_index b) \<le> backlog_max" using c b(1,2) by simp
    then show ?thesis using p l nl by (simp add: tls_len_max_def backlog_max_def)
  qed (use b(3) in simp)
  then show ?thesis using b' b(4) by (auto simp: tls_buffer_ok_def)
qed

lemma ssl_buffer_read_ok:
  assumes b: "tls_buffer_ok b" and rd: "ssl_read_honest rd" and c: "length (contents b) + tls_record_max \<le> backlog_max"
  shows "\<exists>n got b'. ssl_buffer_read fill rd b = Inr (n, got, b') \<and> 0 < n \<and> int (length got) \<le> n \<and> length got \<le> tls_record_max \<and>
    got = delivered (rd n) \<and> tls_buffer_ok b' \<and> contents b' = contents b @ got"
proof -
  define m where "m = unat (writable_bytes b)"
  let ?n = "int m"
  have wi: "sint (ucast (writable_bytes b) :: u32) = ?n" using writable_int [OF b] m_def by simp
  have ok: "buffer_ok b" and "0 < m" and len: "unat (buf_len b) \<le> tls_len_max" using b by (auto simp: tls_buffer_ok_def m_def)
  then have pos: "0 < ?n" by linarith
  show ?thesis
  proof (cases "rd ?n")
    case (Inl e)
    then show ?thesis using b pos by (simp add: ssl_buffer_read_def wi)
  next
    case (Inr got)
    then have "got \<noteq> [] \<and> int (length got) \<le> ?n \<and> length got \<le> tls_record_max"
      using rd pos unfolding ssl_read_honest_def by blast
    then have got: "got \<noteq> []" "length got \<le> m" "length got \<le> tls_record_max" by linarith+
    obtain blk where blk: "mem_write (unat (writer_index b)) got (buf_bytes b) = Inr blk"
      and ok1: "buffer_ok (has_written (b\<lparr>buf_bytes := blk\<rparr>) (of_nat (length got)))"
      and c1: "contents (has_written (b\<lparr>buf_bytes := blk\<rparr>) (of_nat (length got))) = contents b @ got"
      and w1: "unat (writer_index b + of_nat (length got)) = unat (writer_index b) + length got"
      using write_at_writer [OF ok, of got] got(2) m_def by auto
    let ?b1 = "has_written (b\<lparr>buf_bytes := blk\<rparr>) (of_nat (length got))"
    show ?thesis
    proof (cases "length got < m")
      case True
      then have "tls_buffer_ok ?b1"
        using ok1 w1 len got(2) unat_writable_bytes [OF ok, folded m_def] unat_writable_bytes [OF ok1] by (simp add: tls_buffer_ok_def has_written_def)
      then show ?thesis using True Inr blk c1 got pos by (simp add: ssl_buffer_read_def wi has_written_def Let_def)
    next
      case False
      then have e: "length got = m" using got(2) by simp
      have b1: "?b1 = b\<lparr>buf_bytes := blk, writer_index := buf_len b\<rparr>"
        by (simp add: has_written_def e m_def writer_plus_writable)
      have "8 < unat (buf_len b)" using buffer_okD [OF ok] pos unat_writable_bytes [OF ok, folded m_def] by linarith
      moreover have "length (contents b @ got) \<le> backlog_max" using c got(3) by simp
      ultimately obtain b2 where "ensure_writable_bytes fill ?b1 (of_nat (unat (buf_len b) div 2)) = Inr b2" "tls_buffer_ok b2"
        "contents b2 = contents b @ got"
        using ssl_buffer_read_full [of ?b1 fill] ok1 c1 len unfolding b1 by auto
      then show ?thesis using False Inr blk got pos len e unfolding b1
        by (simp add: ssl_buffer_read_def wi Let_def tls_len_max_def)
    qed
  qed
qed

text \<open>
  The life of the input buffer: in each turn \<open>ssl_handler_read\<close> reads into it, and the message callback takes some bytes off it.
  The result also says how much space was offered and what was read.
\<close>

fun tls_turns :: "(nat \<Rightarrow> u8) \<Rightarrow> ((int \<Rightarrow> int + bytes) \<times> u64) list \<Rightarrow> gp_buffer \<Rightarrow> ((int \<times> bytes) list \<times> gp_buffer) res" where
  "tls_turns fill [] b = Inr ([], b)"
| "tls_turns fill ((rd, used) # ts) b =
     bindE (ssl_buffer_read fill rd b) (\<lambda>(n, got, b1).
     bindE (tls_turns fill ts (retrieve b1 used)) (\<lambda>(tr, b2). Inr ((n, got) # tr, b2)))"

text \<open>The same on a queue of bytes, and that the queue stays below the bound even if every turn delivers a full record.\<close>

fun stream_after :: "(bytes \<times> u64) list \<Rightarrow> bytes \<Rightarrow> bytes" where
  "stream_after [] q = q"
| "stream_after ((got, used) # xs) q = stream_after xs (drop (unat used) (q @ got))"

fun backlog_bounded :: "nat \<Rightarrow> u64 list \<Rightarrow> bool" where
  "backlog_bounded m [] = True"
| "backlog_bounded m (used # us) \<longleftrightarrow>
     m + tls_record_max \<le> backlog_max \<and> backlog_bounded (m + tls_record_max - unat used) us"

lemma backlog_bounded_mono: "backlog_bounded m us \<Longrightarrow> k \<le> m \<Longrightarrow> backlog_bounded k us"
proof (induction us arbitrary: m k)
  case (Cons u us)
  then show ?case using Cons.IH [of "m + tls_record_max - unat u" "k + tls_record_max - unat u"] by simp
qed simp

lemma tls_buffer_ok_retrieve:
  assumes "tls_buffer_ok b"
  shows "tls_buffer_ok (retrieve b n)"
proof -
  have ok: "buffer_ok b" using assms by (simp add: tls_buffer_ok_def)
  have "buf_len (retrieve b n) = buf_len b" by (simp add: retrieve_def retrieve_all_def)
  then show ?thesis
    using assms retrieve_ok [OF ok, of n] writer_index_retrieve [OF ok, of n] unat_writable_bytes [OF ok]
      unat_writable_bytes [OF retrieve_ok [OF ok], of n] by (auto simp: tls_buffer_ok_def)
qed

text \<open>How a turn of the trace answers a turn of the program: a positive space was offered, and what was delivered is recorded.\<close>

definition asked :: "(int \<Rightarrow> int + bytes) \<times> u64 \<Rightarrow> int \<times> bytes \<Rightarrow> bool" where
  "asked t e \<longleftrightarrow> 0 < fst e \<and> snd e = delivered (fst t (fst e))"

lemma tls_turns_stream:
  assumes "tls_buffer_ok b" and "\<And>rd used. (rd, used) \<in> set ts \<Longrightarrow> ssl_read_honest rd"
    and "backlog_bounded (length (contents b)) (map snd ts)"
  shows "\<exists>tr b'. tls_turns fill ts b = Inr (tr, b') \<and> list_all2 asked ts tr \<and> tls_buffer_ok b' \<and>
    contents b' = stream_after (zip (map snd tr) (map snd ts)) (contents b)"
  using assms
proof (induction ts arbitrary: b)
  case (Cons t ts)
  obtain rd used where t: "t = (rd, used)" by force
  have "ssl_read_honest rd" using Cons.prems(2) t by auto
  then obtain n got b1 where r: "ssl_buffer_read fill rd b = Inr (n, got, b1)" "0 < n" "got = delivered (rd n)" "length got \<le> tls_record_max" "tls_buffer_ok b1"
    "contents b1 = contents b @ got"
    using ssl_buffer_read_ok [OF Cons.prems(1), of rd fill] Cons.prems(3) t by auto
  have ok1: "buffer_ok b1" using r(5) by (simp add: tls_buffer_ok_def)
  have c: "contents (retrieve b1 used) = drop (unat used) (contents b @ got)" using contents_retrieve [OF ok1] r(6) by simp
  have "length (contents (retrieve b1 used)) \<le> length (contents b) + tls_record_max - unat used" unfolding c using r(4) by simp
  then have "backlog_bounded (length (contents (retrieve b1 used))) (map snd ts)"
    using Cons.prems(3) t backlog_bounded_mono by auto
  from Cons.IH [OF tls_buffer_ok_retrieve [OF r(5)] _ this] Cons.prems(2)
  obtain tr b2 where "tls_turns fill ts (retrieve b1 used) = Inr (tr, b2)" "list_all2 asked ts tr" "tls_buffer_ok b2"
    "contents b2 = stream_after (zip (map snd tr) (map snd ts)) (contents (retrieve b1 used))" by auto
  moreover have "asked t (n, got)" using r(2,3) t by (simp add: asked_def)
  ultimately show ?case using r(1) c t by simp
qed simp

text \<open>
  C29. The input buffer of a TLS connection is the decrypted stream. Let OpenSSL answer the reads as documented and let the message callback take any number of
  bytes after each, as long as the bytes left over stay below \<open>2 ^ 29\<close> even if every read delivers a full record. Then no read is
  out of bounds, none is made into an empty space, no conversion overflows, and the contents are those of a
  queue to which the delivered bytes are appended and from which the callback's are taken.
\<close>

theorem tls_input_is_decrypted_stream:
  assumes "\<And>rd used. (rd, used) \<in> set ts \<Longrightarrow> ssl_read_honest rd" and "backlog_bounded 0 (map snd ts)"
  shows "\<exists>tr b'. tls_turns fill ts (init_gp_buffer fill) = Inr (tr, b') \<and> list_all2 asked ts tr \<and> tls_buffer_ok b' \<and>
    contents b' = stream_after (zip (map snd tr) (map snd ts)) []"
proof -
  have w: "unat (writable_bytes (init_gp_buffer fill)) = 8192" "unat (buf_len (init_gp_buffer fill)) = 8200"
    by (simp_all add: init_gp_buffer_def buffer_defs)
  then have "tls_buffer_ok (init_gp_buffer fill)" using init_gp_buffer_ok [of fill] by (simp add: tls_buffer_ok_def tls_len_max_def)
  then show ?thesis using tls_turns_stream [of "init_gp_buffer fill" ts fill] assms by (simp add: init_gp_buffer_contents)
qed

theorem tls_input_is_decrypted_stream_witness:
  "\<exists>tr b'. tls_turns (\<lambda>_. 0) [(\<lambda>_. Inr [7], 0), (\<lambda>_. Inl 0, 0), (\<lambda>_. Inr [8], 1)] (init_gp_buffer (\<lambda>_. 0)) = Inr (tr, b') \<and> contents b' = [8]"
proof -
  let ?ts = "[(\<lambda>_. Inr [7], 0), (\<lambda>_. Inl 0, 0), (\<lambda>_. Inr [8], 1)] :: ((int \<Rightarrow> int + bytes) \<times> u64) list"
  have "ssl_read_honest rd" if "(rd, used) \<in> set ?ts" for rd used using that by (auto simp: ssl_read_honest_def tls_record_max_def)
  moreover have "backlog_bounded 0 (map snd ?ts)" by (simp add: backlog_max_def tls_record_max_def)
  ultimately obtain tr b' where t: "tls_turns (\<lambda>_. 0) ?ts (init_gp_buffer (\<lambda>_. 0)) = Inr (tr, b')" "list_all2 asked ?ts tr"
    "contents b' = stream_after (zip (map snd tr) (map snd ?ts)) []"
    using tls_input_is_decrypted_stream [of ?ts "\<lambda>_. 0"] by blast
  then show ?thesis by (auto simp: list_all2_Cons1 asked_def)
qed

section \<open>The handshake\<close>

text \<open>A live connection with a session, whose handler is watched; and what no change of a handler changes.\<close>

definition tls_inv :: "nat \<Rightarrow> gp_connection \<Rightarrow> ssl_net \<Rightarrow> bool" where
  "tls_inv a c w \<longleftrightarrow> n_conns (sn_net w) a = Some c \<and> conn_pri w a = Ssl_Live \<and>
     poll_inv (handlers (sn_net w)) (epoller (sn_net w)) \<and> h_index (c_handler c) = k_added"

definition tls_same :: "ssl_net \<Rightarrow> ssl_net \<Rightarrow> bool" where
  "tls_same w w' \<longleftrightarrow> conn_pri w' = conn_pri w \<and> sn_calls w' = sn_calls w \<and> sn_sent w' = sn_sent w \<and>
     n_log (sn_net w') = n_log (sn_net w) \<and> pending_list (sn_net w') = pending_list (sn_net w)"

lemma tls_same_trans [trans]: "tls_same w w' \<Longrightarrow> tls_same w' w'' \<Longrightarrow> tls_same w w''"
  by (simp add: tls_same_def)

lemma tls_invD:
  assumes "tls_inv a c w"
  shows "n_conns (sn_net w) a = Some c" "get_conn (sn_net w) a = Inr c" "ssl_session w a = Inr ()"
    "get_handler (sn_net w) (Conn_Handler a) = Inr (c_handler c)"
  using assms by (simp_all add: tls_inv_def ssl_session_def get_conn_def)

lemma tls_watched:
  assumes "tls_inv a c w"
  shows "ep_interest (epoller (sn_net w)) (h_fd (c_handler c)) = Some (h_events (c_handler c), Conn_Handler a)"
  using assms poll_invD(2) [of "handlers (sn_net w)" "epoller (sn_net w)" "Conn_Handler a" "c_handler c"] by (simp add: tls_inv_def)

lemma tls_inv_put:
  assumes i: "tls_inv a c w" and h: "h_fd (c_handler c2) = h_fd (c_handler c)" "h_index (c_handler c2) = h_index (c_handler c)"
      "h_events (c_handler c2) = h_events (c_handler c)"
    and n: "n_conns n a = Some c2" "handlers n = (handlers (sn_net w))(Conn_Handler a \<mapsto> c_handler c2)" "epoller n = epoller (sn_net w)"
  shows "tls_inv a c2 (w\<lparr>sn_net := n\<rparr>)"
proof -
  have p: "poll_inv (handlers (sn_net w)) (epoller (sn_net w))" and c: "n_conns (sn_net w) a = Some c" and ix: "h_index (c_handler c) = k_added"
    using i by (simp_all add: tls_inv_def)
  have ch: "handlers (sn_net w) (Conn_Handler a) = Some (c_handler c)" using c by simp
  have "poll_inv ((handlers (sn_net w))(Conn_Handler a \<mapsto> c_handler c2)) (epoller (sn_net w))"
    using poll_inv_upd [OF p ch, of "c_handler c2" "epoller (sn_net w)"] h ix tls_watched [OF i] by (simp add: fun_upd_idem)
  then show ?thesis using i h n ix by (simp add: tls_inv_def)
qed

lemma handlers_put_conn: "handlers (put_conn a c n) = (handlers n)(Conn_Handler a \<mapsto> c_handler c)"
  by (rule handlers_conn) simp_all

lemma server_set_message_callback_simps [simp]:
  "handlers (server_set_message_callback cb n) = handlers n" "epoller (server_set_message_callback cb n) = epoller n"
  "n_log (server_set_message_callback cb n) = n_log n" "n_conns (server_set_message_callback cb n) = n_conns n"
  by (auto simp: handlers_def server_set_message_callback_def fun_eq_iff split: haddr.splits)

lemma tls_update:
  assumes i: "tls_inv a c w"
    and op: "\<And>e h. op (Conn_Handler a) e h = update (Conn_Handler a) e (f h)"
    and f: "h_fd (f (c_handler c)) = h_fd (c_handler c)" "h_index (f (c_handler c)) = h_index (c_handler c)"
      "h_events (f (c_handler c)) \<noteq> knone_event"
  obtains w' where "on_net (on_handler op (Conn_Handler a)) w = Inr w'" "tls_same w w'"
    "tls_inv a (c\<lparr>c_handler := (f (c_handler c))\<lparr>add_to_loop := True\<rparr>\<rparr>) w'"
proof -
  have p: "poll_inv (handlers (sn_net w)) (epoller (sn_net w))" and c: "n_conns (sn_net w) a = Some c" and ix: "h_index (c_handler c) = k_added"
    and l: "conn_pri w a = Ssl_Live" using i by (simp_all add: tls_inv_def)
  obtain e2 h2 where o: "on_handler op (Conn_Handler a) (sn_net w) = Inr ((put_conn a (c\<lparr>c_handler := h2\<rparr>) (sn_net w))\<lparr>epoller := e2\<rparr>)"
    "h2 = (f (c_handler c))\<lparr>add_to_loop := True, h_index := next_index (h_index (c_handler c)) (h_events (f (c_handler c)))\<rparr>"
    "poll_inv (handlers ((put_conn a (c\<lparr>c_handler := h2\<rparr>) (sn_net w))\<lparr>epoller := e2\<rparr>)) e2"
    using on_handler_update [where op = op and hn = "f (c_handler c)", OF p c op f(1,2)] by blast
  have h2: "h2 = (f (c_handler c))\<lparr>add_to_loop := True\<rparr>" using o(2) f(2,3) ix by (simp add: next_index_def)
  show thesis
    by (rule that [of "w\<lparr>sn_net := (put_conn a (c\<lparr>c_handler := h2\<rparr>) (sn_net w))\<lparr>epoller := e2\<rparr>\<rparr>"])
       (use o l ix f(2) h2 in \<open>simp_all add: on_net_def tls_same_def tls_inv_def\<close>)
qed

text \<open>The events that a call of the handshake leaves the handler with.\<close>

definition wants :: "openssl \<Rightarrow> nat \<Rightarrow> u32 \<Rightarrow> u32" where
  "wants lib k ev =
     (if SSL_do_handshake lib k = 1 then ev
      else case SSL_get_error lib k (SSL_do_handshake lib k) of
        SSL_ERROR_WANT_WRITE \<Rightarrow> (ev OR kwrite_event) AND NOT kread_event
      | SSL_ERROR_WANT_READ \<Rightarrow> (ev OR kread_event) AND NOT kwrite_event
      | SSL_ERROR_OTHER \<Rightarrow> ev)"

lemma switch_flags:
  "ev OR kwrite_event \<noteq> knone_event" "ev OR kread_event \<noteq> knone_event"
  "(ev OR kwrite_event) AND NOT kread_event \<noteq> knone_event" "(ev OR kread_event) AND NOT kwrite_event \<noteq> knone_event"
proof -
  have nz: "bit x n \<Longrightarrow> x \<noteq> 0" for x :: u32 and n by auto
  have "bit kwrite_event 2" "bit kread_event 0" "\<not> bit kread_event 2" "\<not> bit kwrite_event 0"
    by (simp_all add: kwrite_event_def kread_event_def poll_flags bit_simps)
  then have "bit (ev OR kwrite_event) 2" "bit (ev OR kread_event) 0" "bit ((ev OR kwrite_event) AND NOT kread_event) 2"
    "bit ((ev OR kread_event) AND NOT kwrite_event) 0" by (simp_all add: bit_simps)
  then show "ev OR kwrite_event \<noteq> knone_event" "ev OR kread_event \<noteq> knone_event"
    "(ev OR kwrite_event) AND NOT kread_event \<noteq> knone_event" "(ev OR kread_event) AND NOT kwrite_event \<noteq> knone_event"
    unfolding knone_event_def by - (rule nz, assumption)+
qed

text \<open>What a connection keeps while only the handshake runs.\<close>

definition kept_by_handshake :: "gp_connection \<Rightarrow> gp_connection \<Rightarrow> bool" where
  "kept_by_handshake c c' \<longleftrightarrow>
     c_ref c' = c_ref c \<and> c_fd c' = c_fd c \<and> c_state c' = c_state c \<and> input_buffer c' = input_buffer c \<and> output_buffer c' = output_buffer c \<and>
     h_fd (c_handler c') = h_fd (c_handler c) \<and> h_revents (c_handler c') = h_revents (c_handler c) \<and>
     write_callback (c_handler c') = write_callback (c_handler c) \<and> close_callback (c_handler c') = close_callback (c_handler c)"

lemma kept_trans: "kept_by_handshake c c' \<Longrightarrow> kept_by_handshake c' c'' \<Longrightarrow> kept_by_handshake c c''"
  by (simp add: kept_by_handshake_def)

lemma handshake_step:
  assumes i: "tls_inv a c w"
  obtains w' c' where "ssl_handler_handshake lib a w = Inr w'" "tls_inv a c' w'" "kept_by_handshake c c'" "sn_calls w' = Suc (sn_calls w)"
    "n_log (sn_net w') = n_log (sn_net w)" "h_events (c_handler c') = wants lib (sn_calls w) (h_events (c_handler c))"
    "read_callback (c_handler c') = (if SSL_do_handshake lib (sn_calls w) = 1 then Some Ssl_Handler_Read else read_callback (c_handler c))"
    "c_message_callback c' = (if SSL_do_handshake lib (sn_calls w) = 1 then Some Handle_Ssl_Msg else c_message_callback c)"
proof -
  let ?r = "SSL_do_handshake lib (sn_calls w)" let ?w1 = "w\<lparr>sn_calls := sn_calls w + 1\<rparr>"
  have i1: "tls_inv a c ?w1" using i by (simp add: tls_inv_def)
  note D = tls_invD [OF i]
  consider "?r = 1" | "?r \<noteq> 1" "SSL_get_error lib (sn_calls w) ?r = SSL_ERROR_WANT_WRITE"
    | "?r \<noteq> 1" "SSL_get_error lib (sn_calls w) ?r = SSL_ERROR_WANT_READ" | "?r \<noteq> 1" "SSL_get_error lib (sn_calls w) ?r = SSL_ERROR_OTHER"
    using ssl_error.exhaust by blast
  then show thesis
  proof cases
    case 1
    let ?c = "c\<lparr>c_handler := set_read_callback Ssl_Handler_Read (c_handler c), c_message_callback := Some Handle_Ssl_Msg\<rparr>"
    let ?w = "?w1\<lparr>sn_net := put_conn a ?c (server_set_message_callback Handle_Ssl_Msg (sn_net w))\<rparr>"
    have "tls_inv a ?c ?w" by (rule tls_inv_put [OF i1]) (simp_all add: handlers_put_conn set_read_callback_def)
    then show thesis using that [of ?w ?c] 1 D
      by (simp add: ssl_handler_handshake_def wants_def kept_by_handshake_def set_read_callback_def)
  next
    case 2
    obtain w2 where w2: "on_net (on_handler enable_writing (Conn_Handler a)) ?w1 = Inr w2" "tls_same ?w1 w2"
      "tls_inv a (c\<lparr>c_handler := (c_handler c)\<lparr>h_events := h_events (c_handler c) OR kwrite_event, add_to_loop := True\<rparr>\<rparr>) w2"
      by (rule tls_update [OF i1, where f = "\<lambda>h. h\<lparr>h_events := h_events h OR kwrite_event\<rparr>" and op = enable_writing])
         (simp_all add: enable_writing_def switch_flags)
    obtain w3 where w3: "on_net (on_handler disable_reading (Conn_Handler a)) w2 = Inr w3" "tls_same w2 w3"
      "tls_inv a (c\<lparr>c_handler := (c_handler c)\<lparr>h_events := (h_events (c_handler c) OR kwrite_event) AND NOT kread_event, add_to_loop := True\<rparr>\<rparr>) w3"
      by (rule tls_update [OF w2(3), where f = "\<lambda>h. h\<lparr>h_events := h_events h AND NOT kread_event\<rparr>" and op = disable_reading])
         (simp_all add: disable_reading_def switch_flags)
    show thesis using that [OF _ w3(3)] 2 D w2(1) w3(1) tls_same_trans [OF w2(2) w3(2)]
      by (simp add: ssl_handler_handshake_def wants_def kept_by_handshake_def tls_same_def)
  next
    case 3
    obtain w2 where w2: "on_net (on_handler enable_reading (Conn_Handler a)) ?w1 = Inr w2" "tls_same ?w1 w2"
      "tls_inv a (c\<lparr>c_handler := (c_handler c)\<lparr>h_events := h_events (c_handler c) OR kread_event, add_to_loop := True\<rparr>\<rparr>) w2"
      by (rule tls_update [OF i1, where f = "\<lambda>h. h\<lparr>h_events := h_events h OR kread_event\<rparr>" and op = enable_reading])
         (simp_all add: enable_reading_def switch_flags)
    obtain w3 where w3: "on_net (on_handler disable_writing (Conn_Handler a)) w2 = Inr w3" "tls_same w2 w3"
      "tls_inv a (c\<lparr>c_handler := (c_handler c)\<lparr>h_events := (h_events (c_handler c) OR kread_event) AND NOT kwrite_event, add_to_loop := True\<rparr>\<rparr>) w3"
      by (rule tls_update [OF w2(3), where f = "\<lambda>h. h\<lparr>h_events := h_events h AND NOT kwrite_event\<rparr>" and op = disable_writing])
         (simp_all add: disable_writing_def switch_flags)
    show thesis using that [OF _ w3(3)] 3 D w2(1) w3(1) tls_same_trans [OF w2(2) w3(2)]
      by (simp add: ssl_handler_handshake_def wants_def kept_by_handshake_def tls_same_def)
  next
    case 4
    then show thesis using that [OF _ i1] D by (simp add: ssl_handler_handshake_def wants_def kept_by_handshake_def)
  qed
qed

text \<open>Several calls of the handshake callback.\<close>

fun handshakes :: "openssl \<Rightarrow> nat \<Rightarrow> nat \<Rightarrow> ssl_net \<Rightarrow> ssl_net res" where
  "handshakes lib a 0 w = Inr w"
| "handshakes lib a (Suc n) w = bindE (ssl_handler_handshake lib a w) (handshakes lib a n)"

lemma handshakes_ok:
  assumes "tls_inv a c w"
  shows "\<exists>w' c'. handshakes lib a n w = Inr w' \<and> tls_inv a c' w' \<and> kept_by_handshake c c' \<and> n_log (sn_net w') = n_log (sn_net w) \<and>
    h_events (c_handler c') = fold (wants lib) [sn_calls w ..< sn_calls w + n] (h_events (c_handler c)) \<and>
    read_callback (c_handler c') =
      (if \<exists>k. sn_calls w \<le> k \<and> k < sn_calls w + n \<and> SSL_do_handshake lib k = 1 then Some Ssl_Handler_Read
       else read_callback (c_handler c))"
  using assms
proof (induction n arbitrary: w c)
  case 0
  then show ?case by (intro exI [of _ w] exI [of _ c]) (auto simp: kept_by_handshake_def)
next
  case (Suc n)
  obtain w1 c1 where 1: "ssl_handler_handshake lib a w = Inr w1" "tls_inv a c1 w1" "kept_by_handshake c c1" "sn_calls w1 = Suc (sn_calls w)"
    "n_log (sn_net w1) = n_log (sn_net w)" "h_events (c_handler c1) = wants lib (sn_calls w) (h_events (c_handler c))"
    "read_callback (c_handler c1) = (if SSL_do_handshake lib (sn_calls w) = 1 then Some Ssl_Handler_Read else read_callback (c_handler c))"
    by (rule handshake_step [OF Suc.prems])
  obtain w' c' where 2: "handshakes lib a n w1 = Inr w'" "tls_inv a c' w'" "kept_by_handshake c1 c'" "n_log (sn_net w') = n_log (sn_net w1)"
    "h_events (c_handler c') = fold (wants lib) [sn_calls w1 ..< sn_calls w1 + n] (h_events (c_handler c1))"
    "read_callback (c_handler c') =
      (if \<exists>k. sn_calls w1 \<le> k \<and> k < sn_calls w1 + n \<and> SSL_do_handshake lib k = 1 then Some Ssl_Handler_Read
       else read_callback (c_handler c1))"
    using Suc.IH [OF 1(2)] by blast
  have u: "[sn_calls w ..< sn_calls w + Suc n] = sn_calls w # [sn_calls w1 ..< sn_calls w1 + n]"
    using 1(4) by (simp add: upt_conv_Cons)
  have r: "(\<exists>k. sn_calls w \<le> k \<and> k < sn_calls w + Suc n \<and> SSL_do_handshake lib k = 1) \<longleftrightarrow>
      SSL_do_handshake lib (sn_calls w) = 1 \<or> (\<exists>k. sn_calls w1 \<le> k \<and> k < sn_calls w1 + n \<and> SSL_do_handshake lib k = 1)"
    using 1(4) by (metis Suc_leD Suc_leI add_Suc add_Suc_right le_eq_less_or_eq less_add_Suc1)
  have "h_events (c_handler c') = fold (wants lib) [sn_calls w ..< sn_calls w + Suc n] (h_events (c_handler c))"
    unfolding u 2(5) 1(6) by simp
  moreover have "read_callback (c_handler c') =
      (if \<exists>k. sn_calls w \<le> k \<and> k < sn_calls w + Suc n \<and> SSL_do_handshake lib k = 1 then Some Ssl_Handler_Read
       else read_callback (c_handler c))" unfolding r 2(6) 1(7) by auto
  moreover have "handshakes lib a (Suc n) w = Inr w'" using 1(1) 2(1) by simp
  moreover have "n_log (sn_net w') = n_log (sn_net w)" using 1(5) 2(4) by simp
  ultimately show ?case using 2(2) kept_trans [OF 1(3) 2(3)] by blast
qed

text \<open>A connection that has been accepted and not yet established; establishing it gives it a session and the callbacks of the handshake.\<close>

lemma ssl_connection_established_ok:
  assumes c: "n_conns (sn_net w) a = Some c" "c_connection_callback c" "h_index (c_handler c) = k_new" and s: "SSL_new lib (sn_calls w)"
    and p: "poll_inv (handlers (sn_net w)) (epoller (sn_net w))"
  obtains w' c' where "ssl_connection_established lib a w = Inr w'" "tls_inv a c' w'" "sn_calls w' = Suc (sn_calls w)" "c_state c' = K_Connected"
    "input_buffer c' = input_buffer c" "output_buffer c' = output_buffer c" "h_fd (c_handler c') = h_fd (c_handler c)"
    "h_events (c_handler c') = h_events (c_handler c) OR kread_event" "read_callback (c_handler c') = Some Ssl_Handler_Handshake"
    "write_callback (c_handler c') = Some Ssl_Handler_Handshake" "close_callback (c_handler c') = Some Ssl_Handler_Close"
    "c_ref c' = c_ref c" "c_close_callback c' = c_close_callback c" "c_connection_callback c'" "pending_list (sn_net w') = pending_list (sn_net w)"
    "n_log (sn_net w') = n_log (sn_net w) @ [On_Connection a K_Connected]"
proof -
  let ?c1 = "c\<lparr>c_state := K_Connected\<rparr>" let ?n1 = "put_conn a ?c1 (sn_net w)"
  let ?h1 = "(c_handler c)\<lparr>h_events := h_events (c_handler c) OR kread_event\<rparr>"
  have "handlers ?n1 = handlers (sn_net w)" by (rule handlers_same_conn [of _ _ a ?c1 c]) (simp_all add: c(1))
  then have p1: "poll_inv (handlers ?n1) (epoller ?n1)" using p by simp
  have c1: "n_conns ?n1 a = Some ?c1" by simp
  have o1: "enable_reading (Conn_Handler a) (epoller ?n1) (c_handler ?c1) = update (Conn_Handler a) (epoller ?n1) ?h1" by (simp add: enable_reading_def)
  obtain e2 h2 where o: "on_handler enable_reading (Conn_Handler a) ?n1 = Inr ((put_conn a (?c1\<lparr>c_handler := h2\<rparr>) ?n1)\<lparr>epoller := e2\<rparr>)"
    "h2 = ?h1\<lparr>add_to_loop := True, h_index := next_index (h_index (c_handler ?c1)) (h_events ?h1)\<rparr>"
    "poll_inv (handlers ((put_conn a (?c1\<lparr>c_handler := h2\<rparr>) ?n1)\<lparr>epoller := e2\<rparr>)) e2"
  proof (rule on_handler_update [where op = enable_reading and hn = ?h1, OF p1 c1 o1])
    show "h_fd ?h1 = h_fd (c_handler ?c1)" "h_index ?h1 = h_index (c_handler ?c1)" by simp_all
  qed blast
  have h2: "h2 = ?h1\<lparr>add_to_loop := True, h_index := k_added\<rparr>" using o(2) c(3) by (simp add: next_index_def)
  let ?c2 = "?c1\<lparr>c_handler := h2\<rparr>"
  let ?n2 = "emit (On_Connection a K_Connected) ((put_conn a ?c2 ?n1)\<lparr>epoller := e2\<rparr>)"
  let ?h3 = "set_write_callback Ssl_Handler_Handshake (set_read_callback Ssl_Handler_Handshake (set_close_callback Ssl_Handler_Close h2))"
  let ?c3 = "?c2\<lparr>c_handler := ?h3\<rparr>"
  let ?w2 = "w\<lparr>sn_net := ?n2, conn_pri := (conn_pri w)(a := Ssl_Live), sn_calls := sn_calls w + 1\<rparr>"
  have i2: "tls_inv a ?c2 ?w2" using o(3) h2 by (simp add: tls_inv_def)
  have e: "ssl_connection_established lib a w = Inr (?w2\<lparr>sn_net := put_conn a ?c3 ?n2\<rparr>)"
    using c s o(1) by (simp add: ssl_connection_established_def on_net_def ssl_connection_init_def ssl_session_def get_conn_def Let_def)
  have "tls_inv a ?c3 (?w2\<lparr>sn_net := put_conn a ?c3 ?n2\<rparr>)"
    by (rule tls_inv_put [OF i2]) (simp_all add: handlers_put_conn set_write_callback_def set_read_callback_def set_close_callback_def)
  then show thesis
    by (rule that [OF e]) (use h2 c(2) in \<open>simp_all add: set_write_callback_def set_read_callback_def set_close_callback_def\<close>)
qed

text \<open>
  C30. The handshake of a connection. An accepted connection is established and then its handshake callback is called any number of
  times, whatever OpenSSL answers. No call fails; the connection keeps its buffers, its write callback stays the
  handshake, the read callback is the decrypting one exactly if some call has completed the handshake. The kernel watches the
  connection for exactly the events that the answers amount to: reading at first, then what the last answer
  that wanted something asked for.
\<close>

theorem handshake_follows_openssl:
  assumes "n_conns (sn_net w) a = Some c" and "c_connection_callback c" and "h_index (c_handler c) = k_new"
    and "SSL_new lib (sn_calls w)" and "poll_inv (handlers (sn_net w)) (epoller (sn_net w))"
  shows "\<exists>w' c'. bindE (ssl_connection_established lib a w) (handshakes lib a n) = Inr w' \<and> n_conns (sn_net w') a = Some c' \<and>
    input_buffer c' = input_buffer c \<and> output_buffer c' = output_buffer c \<and> c_state c' = K_Connected \<and>
    h_events (c_handler c') = fold (wants lib) [Suc (sn_calls w) ..< Suc (sn_calls w) + n] (h_events (c_handler c) OR kread_event) \<and>
    ep_interest (epoller (sn_net w')) (h_fd (c_handler c)) = Some (h_events (c_handler c'), Conn_Handler a) \<and>
    write_callback (c_handler c') = Some Ssl_Handler_Handshake \<and>
    read_callback (c_handler c') =
      (if \<exists>k. Suc (sn_calls w) \<le> k \<and> k < Suc (sn_calls w) + n \<and> SSL_do_handshake lib k = 1 then Some Ssl_Handler_Read
       else Some Ssl_Handler_Handshake)"
proof -
  obtain w1 c1 where e: "ssl_connection_established lib a w = Inr w1" "tls_inv a c1 w1" "sn_calls w1 = Suc (sn_calls w)" "c_state c1 = K_Connected"
    "input_buffer c1 = input_buffer c" "output_buffer c1 = output_buffer c" "h_fd (c_handler c1) = h_fd (c_handler c)"
    "h_events (c_handler c1) = h_events (c_handler c) OR kread_event" "read_callback (c_handler c1) = Some Ssl_Handler_Handshake"
    "write_callback (c_handler c1) = Some Ssl_Handler_Handshake"
    by (rule ssl_connection_established_ok [OF assms])
  obtain w' c' where H: "handshakes lib a n w1 = Inr w'" "tls_inv a c' w'" "kept_by_handshake c1 c'"
    "h_events (c_handler c') = fold (wants lib) [sn_calls w1 ..< sn_calls w1 + n] (h_events (c_handler c1))"
    "read_callback (c_handler c') =
      (if \<exists>k. sn_calls w1 \<le> k \<and> k < sn_calls w1 + n \<and> SSL_do_handshake lib k = 1 then Some Ssl_Handler_Read
       else read_callback (c_handler c1))"
    using handshakes_ok [OF e(2), of lib n] by blast
  have "ep_interest (epoller (sn_net w')) (h_fd (c_handler c')) = Some (h_events (c_handler c'), Conn_Handler a)" by (rule tls_watched [OF H(2)])
  then have "ep_interest (epoller (sn_net w')) (h_fd (c_handler c)) = Some (h_events (c_handler c'), Conn_Handler a)"
    using H(3) e(7) by (simp add: kept_by_handshake_def)
  moreover have "write_callback (c_handler c') = Some Ssl_Handler_Handshake" "input_buffer c' = input_buffer c" "output_buffer c' = output_buffer c"
    "c_state c' = K_Connected" using H(3) e(4,5,6,10) by (simp_all add: kept_by_handshake_def)
  moreover have "bindE (ssl_connection_established lib a w) (handshakes lib a n) = Inr w'" using e(1) H(1) by simp
  ultimately show ?thesis using H(4) [unfolded e(3,8)] H(5) [unfolded e(3,9)] tls_invD(1) [OF H(2)] by blast
qed

section \<open>Events of a connection\<close>

lemma set_event_handling_tls:
  assumes i: "tls_inv a c w"
  obtains w' where "on_net (set_event_handling b (Conn_Handler a)) w = Inr w'" "tls_same w w'"
    "tls_inv a (c\<lparr>c_handler := (c_handler c)\<lparr>event_handling := b\<rparr>\<rparr>) w'"
proof -
  let ?c = "c\<lparr>c_handler := (c_handler c)\<lparr>event_handling := b\<rparr>\<rparr>"
  let ?n = "put_conn a ?c (sn_net w)"
  have "put_handler (Conn_Handler a) ((c_handler c)\<lparr>event_handling := b\<rparr>) (sn_net w) = ?n"
    using tls_invD(1) [OF i] by (simp add: put_conn_def)
  then have e: "on_net (set_event_handling b (Conn_Handler a)) w = Inr (w\<lparr>sn_net := ?n\<rparr>)"
    using tls_invD [OF i] by (simp add: set_event_handling_def on_net_def)
  have "tls_inv a ?c (w\<lparr>sn_net := ?n\<rparr>)" by (rule tls_inv_put [OF i]) (simp_all add: handlers_put_conn)
  then show thesis using that [OF e] by (simp add: tls_same_def)
qed

text \<open>The loop gets one event after the other for the connection.\<close>

fun tls_events :: "openssl \<Rightarrow> os \<Rightarrow> app \<Rightarrow> nat \<Rightarrow> u32 list \<Rightarrow> ssl_net \<Rightarrow> ssl_net res" where
  "tls_events lib os app a [] w = Inr w"
| "tls_events lib os app a (r # rs) w =
     bindE (on_net (on_handler (set_revents r) (Conn_Handler a)) w) (\<lambda>w1.
     bindE (ssl_handle_event lib os app (Conn_Handler a) w1) (tls_events lib os app a rs))"

lemma pollout_only:
  "POLLOUT AND POLLHUP = 0" "POLLOUT AND (POLLERR OR POLLNVAL) = 0" "POLLOUT AND (POLLIN OR POLLPRI OR POLLRDHUP) = 0" "POLLOUT AND POLLOUT \<noteq> 0"
  by (simp_all add: poll_flags)

lemma pollout_event:
  assumes i: "tls_inv a c w" and ev: "h_events (c_handler c) \<noteq> knone_event" and wc: "write_callback (c_handler c) = Some Ssl_Handler_Handshake"
  obtains w' c' where "tls_events lib os app a [POLLOUT] w = Inr w'" "tls_inv a c' w'" "sn_calls w' = Suc (sn_calls w)"
    "n_log (sn_net w') = n_log (sn_net w)" "h_events (c_handler c') = wants lib (sn_calls w) (h_events (c_handler c))"
    "write_callback (c_handler c') = Some Ssl_Handler_Handshake" "input_buffer c' = input_buffer c" "output_buffer c' = output_buffer c"
proof -
  let ?c1 = "c\<lparr>c_handler := (c_handler c)\<lparr>h_revents := POLLOUT, add_to_loop := True\<rparr>\<rparr>"
  obtain w1 where w1: "on_net (on_handler (set_revents POLLOUT) (Conn_Handler a)) w = Inr w1" "tls_same w w1" "tls_inv a ?c1 w1"
    by (rule tls_update [OF i, where f = "\<lambda>h. h\<lparr>h_revents := POLLOUT\<rparr>" and op = "set_revents POLLOUT"])
       (simp_all add: set_revents_def ev)
  let ?c2 = "?c1\<lparr>c_handler := (c_handler ?c1)\<lparr>event_handling := True\<rparr>\<rparr>"
  obtain w2 where w2: "on_net (set_event_handling True (Conn_Handler a)) w1 = Inr w2" "tls_same w1 w2" "tls_inv a ?c2 w2"
    by (rule set_event_handling_tls [OF w1(3)])
  have s: "tls_same w w2" by (rule tls_same_trans [OF w1(2) w2(2)])
  obtain w3 c3 where w3: "ssl_handler_handshake lib a w2 = Inr w3" "tls_inv a c3 w3" "kept_by_handshake ?c2 c3" "sn_calls w3 = Suc (sn_calls w2)"
    "n_log (sn_net w3) = n_log (sn_net w2)" "h_events (c_handler c3) = wants lib (sn_calls w2) (h_events (c_handler ?c2))"
    by (rule handshake_step [OF w2(3)])
  let ?c4 = "c3\<lparr>c_handler := (c_handler c3)\<lparr>event_handling := False\<rparr>\<rparr>"
  obtain w4 where w4: "on_net (set_event_handling False (Conn_Handler a)) w3 = Inr w4" "tls_same w3 w4" "tls_inv a ?c4 w4"
    by (rule set_event_handling_tls [OF w3(2)])
  have "ssl_handle_event lib os app (Conn_Handler a) w1 = Inr w4"
    using w2(1) w3(1) w4(1) tls_invD [OF w2(3)] pollout_only wc
    by (simp add: ssl_handle_event_def ssl_event_case_def del: get_handler.simps)
  then have "tls_events lib os app a [POLLOUT] w = Inr w4" using w1(1) by simp
  then show thesis
    by (rule that [OF _ w4(3)]) (use w3 w4(2) s wc in \<open>simp_all add: tls_same_def kept_by_handshake_def\<close>)
qed

lemma tls_events_Cons: "tls_events lib os app a (r # rs) w = bindE (tls_events lib os app a [r] w) (tls_events lib os app a rs)"
  by (simp add: bindE_def split: sum.splits)

definition write_only :: "u32 \<Rightarrow> bool" where
  "write_only ev \<longleftrightarrow> ev AND kread_event = 0 \<and> ev AND kwrite_event \<noteq> 0"

text \<open>
  C39. A handshake that waits to write never gets to read. Take a connection whose last unfinished call of the handshake wanted to write, and let every
  later call succeed, as a completed handshake does. After any number of writable events the connection still
  asks the kernel for writability only, has read nothing, written nothing of its output buffer, and nothing
  has been observed: completing the handshake does not enable reading again.
\<close>

theorem handshake_waiting_to_write_never_reads:
  assumes "n_conns (sn_net w) a = Some c" and "conn_pri w a = Ssl_Live"
    and "poll_inv (handlers (sn_net w)) (epoller (sn_net w))" and "h_index (c_handler c) = k_added"
    and "write_only (h_events (c_handler c))" and "write_callback (c_handler c) = Some Ssl_Handler_Handshake"
    and "\<forall>k \<ge> sn_calls w. SSL_do_handshake lib k = 1"
  shows "\<exists>w' c'. tls_events lib os app a (replicate n POLLOUT) w = Inr w' \<and> n_conns (sn_net w') a = Some c' \<and>
    h_events (c_handler c') = h_events (c_handler c) \<and>
    ep_interest (epoller (sn_net w')) (h_fd (c_handler c')) = Some (h_events (c_handler c), Conn_Handler a) \<and>
    input_buffer c' = input_buffer c \<and> output_buffer c' = output_buffer c \<and> n_log (sn_net w') = n_log (sn_net w)"
proof -
  have "\<exists>w' c'. tls_events lib os app a (replicate n POLLOUT) w = Inr w' \<and> tls_inv a c' w' \<and>
    h_events (c_handler c') = h_events (c_handler c) \<and> input_buffer c' = input_buffer c \<and> output_buffer c' = output_buffer c \<and>
    n_log (sn_net w') = n_log (sn_net w)"
    if "tls_inv a c w" "write_only (h_events (c_handler c))" "write_callback (c_handler c) = Some Ssl_Handler_Handshake"
      "\<forall>k \<ge> sn_calls w. SSL_do_handshake lib k = 1" for w c
    using that
  proof (induction n arbitrary: w c)
    case 0
    then show ?case by auto
  next
    case (Suc n)
    have "h_events (c_handler c) \<noteq> knone_event" using Suc.prems(2) by (auto simp: write_only_def knone_event_def)
    from pollout_event [OF Suc.prems(1) this Suc.prems(3), of lib os app]
    obtain w1 c1 where 1: "tls_events lib os app a [POLLOUT] w = Inr w1" "tls_inv a c1 w1" "sn_calls w1 = Suc (sn_calls w)"
      "n_log (sn_net w1) = n_log (sn_net w)" "h_events (c_handler c1) = wants lib (sn_calls w) (h_events (c_handler c))"
      "write_callback (c_handler c1) = Some Ssl_Handler_Handshake" "input_buffer c1 = input_buffer c" "output_buffer c1 = output_buffer c" by blast
    have e: "h_events (c_handler c1) = h_events (c_handler c)" using 1(5) Suc.prems(4) by (simp add: wants_def)
    from Suc.IH [OF 1(2) _ 1(6)] Suc.prems(2,4) 1(3) e
    obtain w' c' where "tls_events lib os app a (replicate n POLLOUT) w1 = Inr w'" "tls_inv a c' w'"
      "h_events (c_handler c') = h_events (c_handler c)" "input_buffer c' = input_buffer c1" "output_buffer c' = output_buffer c1"
      "n_log (sn_net w') = n_log (sn_net w1)" by auto
    then show ?case using 1 tls_events_Cons [of lib os app a POLLOUT "replicate n POLLOUT" w] by auto
  qed
  from this [of c w] assms obtain w' c' where H: "tls_events lib os app a (replicate n POLLOUT) w = Inr w'" "tls_inv a c' w'"
    "h_events (c_handler c') = h_events (c_handler c)" "input_buffer c' = input_buffer c" "output_buffer c' = output_buffer c"
    "n_log (sn_net w') = n_log (sn_net w)" by (auto simp: tls_inv_def)
  then show ?thesis using tls_invD(1) [OF H(2)] tls_watched [OF H(2)] by auto
qed

section \<open>Closing\<close>

text \<open>What the close callback leaves of the server: the table entry gone, the destruction queued, the reference count as before.\<close>

definition closed_net :: "nat \<Rightarrow> gp_connection \<Rightarrow> net \<Rightarrow> net" where
  "closed_net a c n =
     (let m = n\<lparr>connections := (connections n)(h_fd (c_handler c) := None), pending_list := pending_list n @ [destroy_conn_task a]\<rparr>
      in if calling_pending_functors n then wakeup m else m)"

lemma remove_conn_effect:
  assumes c: "n_conns n a = Some c" and r: "1 < c_ref c"
  shows "remove_conn a n = Inr (closed_net a c n)"
proof -
  have i: "(n_conns n)(a \<mapsto> c) = n_conns n" using c by (simp add: fun_upd_idem)
  show ?thesis using c r
    by (simp add: remove_conn_def conn_ref_dec_def conn_ref_inc_def gp_run_in_loop_def conn_task_def create_gp_pending_task_def
      run_in_loop_remove_conn_def gp_queue_in_loop_def closed_net_def destroy_conn_task_def put_conn_def wakeup_def deref_def get_conn_def Let_def i)
qed

lemma ssl_handler_close_effect:
  assumes c: "n_conns (sn_net w) a = Some c" "1 \<le> c_ref c" "c_close_callback c" and l: "conn_pri w a = Ssl_Live"
  shows "ssl_handler_close a w = Inr (w\<lparr>sn_net := closed_net a c (sn_net w), conn_pri := (conn_pri w)(a := Ssl_Freed)\<rparr>)"
proof -
  let ?c1 = "c\<lparr>c_ref := c_ref c + 1\<rparr>" let ?n1 = "put_conn a ?c1 (sn_net w)"
  have i: "put_conn a c (closed_net a ?c1 ?n1) = closed_net a c (sn_net w)"
    using c(1) by (simp add: closed_net_def put_conn_def wakeup_def Let_def fun_upd_idem)
  have "remove_conn a ?n1 = Inr (closed_net a ?c1 ?n1)" using c(2) by (intro remove_conn_effect) simp_all
  moreover have "n_conns (closed_net a ?c1 ?n1) a = Some ?c1" by (simp add: closed_net_def Let_def)
  ultimately show ?thesis using c l i
    by (simp add: ssl_handler_close_def on_net_def conn_ref_inc_def conn_ref_dec_def deref_def)
qed

text \<open>The connection callback of the TLS server does nothing with a closed connection.\<close>

definition tls_app :: "app \<Rightarrow> app" where
  "tls_app app = app\<lparr>app_connection := (\<lambda>_ _. [])\<rparr>"

lemma connection_destroyed_tls:
  assumes c: "n_conns n a = Some c" "c_connection_callback c" "c_state c = K_Connected" and p: "poll_inv (handlers n) (epoller n)"
  obtains n1 c1 where "connection_destroyed os (tls_app app) a n = Inr n1" "n_conns n1 = (n_conns n)(a \<mapsto> c1)" "c_ref c1 = c_ref c"
    "h_fd (c_handler c1) = h_fd (c_handler c)" "poll_inv (handlers n1) (epoller n1)" "connections n1 = connections n"
    "pending_list n1 = pending_list n" "n_log n1 = n_log n @ [On_Connection a K_Disconnected]"
proof -
  let ?d = "c\<lparr>c_state := K_Disconnected\<rparr>" let ?v = "put_conn a ?d n" let ?h = "(c_handler c)\<lparr>h_events := knone_event\<rparr>"
  have "handlers ?v = handlers n" by (rule handlers_same_conn [of _ _ a ?d c]) (simp_all add: c(1))
  then have pv: "poll_inv (handlers ?v) (epoller ?v)" using p by simp
  have cd: "n_conns ?v a = Some ?d" by simp
  have od: "disable_all (Conn_Handler a) (epoller ?v) (c_handler ?d) = update (Conn_Handler a) (epoller ?v) ?h" by (simp add: disable_all_def)
  obtain e2 h2 where o: "on_handler disable_all (Conn_Handler a) ?v = Inr ((put_conn a (?d\<lparr>c_handler := h2\<rparr>) ?v)\<lparr>epoller := e2\<rparr>)"
    "h2 = ?h\<lparr>add_to_loop := True, h_index := next_index (h_index (c_handler ?d)) (h_events ?h)\<rparr>"
    "poll_inv (handlers ((put_conn a (?d\<lparr>c_handler := h2\<rparr>) ?v)\<lparr>epoller := e2\<rparr>)) e2"
  proof (rule on_handler_update [where op = disable_all and hn = ?h, OF pv cd od])
    show "h_fd ?h = h_fd (c_handler ?d)" "h_index ?h = h_index (c_handler ?d)" by simp_all
  qed blast
  have fd: "h_fd h2 = h_fd (c_handler c)" unfolding o(2) by simp
  let ?d2 = "?d\<lparr>c_handler := h2\<rparr>" let ?v1 = "(put_conn a ?d2 ?v)\<lparr>epoller := e2\<rparr>" let ?v2 = "emit (On_Connection a K_Disconnected) ?v1"
  have cb: "call_connection_callback os (tls_app app) a ?v1 = Inr ?v2" using c(2) by (simp add: call_connection_callback_def tls_app_def)
  have p2: "poll_inv (handlers ?v2) (epoller ?v2)" and c2: "n_conns ?v2 a = Some ?d2" using o(3) by simp_all
  obtain e3 h3 where r: "on_handler handler_remove (Conn_Handler a) ?v2 = Inr ((put_conn a (?d2\<lparr>c_handler := h3\<rparr>) ?v2)\<lparr>epoller := e3\<rparr>)"
    "h_fd h3 = h_fd (c_handler ?d2)" "poll_inv (handlers ((put_conn a (?d2\<lparr>c_handler := h3\<rparr>) ?v2)\<lparr>epoller := e3\<rparr>)) e3"
    by (rule on_handler_remove [OF p2 c2])
  have "connection_destroyed os (tls_app app) a n = Inr ((put_conn a (?d2\<lparr>c_handler := h3\<rparr>) ?v2)\<lparr>epoller := e3\<rparr>)"
    using c o(1) cb r(1) by (simp add: connection_destroyed_def)
  then show thesis by (rule that [of _ "?d2\<lparr>c_handler := h3\<rparr>"]) (use fd r(2,3) in simp_all)
qed

lemma destroy_task_frees:
  assumes c: "n_conns n a = Some c" "c_connection_callback c" "c_state c = K_Connected" "c_ref c = 1" and p: "poll_inv (handlers n) (epoller n)"
    and pl: "pending_list n = [destroy_conn_task a]"
  obtains n2 where "run_pending os (tls_app app) (destroy_conn_task a) n = Inr n2" "n_conns n2 = (n_conns n)(a := None)"
    "connections n2 = connections n" "pending_list n2 = []"
    "n_log n2 = n_log n @ [On_Connection a K_Disconnected, Closed (h_fd (c_handler c)), Freed a]"
proof -
  obtain n1 c1 where d: "connection_destroyed os (tls_app app) a n = Inr n1" "n_conns n1 = (n_conns n)(a \<mapsto> c1)" "c_ref c1 = c_ref c"
    "h_fd (c_handler c1) = h_fd (c_handler c)" "poll_inv (handlers n1) (epoller n1)" "connections n1 = connections n"
    "pending_list n1 = pending_list n" "n_log n1 = n_log n @ [On_Connection a K_Disconnected]"
    by (rule connection_destroyed_tls [OF c(1-3) p])
  let ?d = "c1\<lparr>c_ref := c_ref c1 - 1\<rparr>" let ?v = "put_conn a ?d n1"
  have "handlers ?v = handlers n1" by (rule handlers_same_conn [of _ _ a ?d c1]) (simp_all add: d(2))
  then have pv: "poll_inv (handlers ?v) (epoller ?v)" using d(5) by simp
  have cv: "n_conns ?v a = Some ?d" by simp
  obtain v5 where v: "destruct_gp_connection a ?v = Inr v5" "n_conns v5 = (n_conns ?v)(a := None)" "rest_of v5 = rest_of ?v"
    "connections v5 = connections ?v" "pending_list v5 = pending_list ?v" "poll_inv (handlers v5) (epoller v5)"
    "active_handler_list v5 = remove1 (Conn_Handler a) (active_handler_list ?v)"
    "n_log v5 = n_log ?v @ [Closed (h_fd (c_handler ?d)), Freed a]"
    by (rule destruct_ok [OF pv cv])
  have "conn_ref_dec (Some a) n1 = Inr (None, v5)" using v(1) d(2,3) c(4) by (simp add: conn_ref_dec_def deref_def get_conn_def)
  then have "run_pending os (tls_app app) (destroy_conn_task a) n = Inr (v5\<lparr>pending_list := remove1 (destroy_conn_task a) (pending_list v5)\<rparr>)"
    using d(1) c(1)
    by (simp add: run_pending_def conn_task_def destroy_conn_task_def create_gp_pending_task_def queue_in_loop_destroy_conn_def deref_def)
  then show thesis by (rule that) (use v d pl in simp_all)
qed

text \<open>
  C31. Closing a TLS connection frees its session and the connection. When the close callback runs for a connected connection that only the server's table refers to, with no task pending,
  the session is freed and the connection, still intact, has left the table; the pending tasks run next then tell the
  application, close the descriptor and free the connection, each once.
\<close>

theorem tls_close_frees_session_and_connection:
  assumes "n_conns (sn_net w) a = Some c" and "c_ref c = 1" and "c_close_callback c" and "c_connection_callback c" and "c_state c = K_Connected"
    and "conn_pri w a = Ssl_Live" and "poll_inv (handlers (sn_net w)) (epoller (sn_net w))" and "pending_list (sn_net w) = []"
  shows "\<exists>w1 n2. ssl_handler_close a w = Inr w1 \<and> conn_pri w1 = (conn_pri w)(a := Ssl_Freed) \<and> n_conns (sn_net w1) a = Some c \<and>
    do_pending_functors os (tls_app app) (Suc fuel) (sn_net w1) = Some (Inr n2) \<and> n_conns n2 = (n_conns (sn_net w))(a := None) \<and>
    connections n2 = (connections (sn_net w))(h_fd (c_handler c) := None) \<and> pending_list n2 = [] \<and>
    n_log n2 = n_log (sn_net w) @ [On_Connection a K_Disconnected, Closed (h_fd (c_handler c)), Freed a]"
proof -
  let ?m = "closed_net a c (sn_net w)" let ?n = "?m\<lparr>calling_pending_functors := True\<rparr>"
  have n: "n_conns ?m = n_conns (sn_net w)" "pending_list ?n = [destroy_conn_task a]" "n_log ?n = n_log (sn_net w)"
    "connections ?n = (connections (sn_net w))(h_fd (c_handler c) := None)" "handlers ?n = handlers (sn_net w)" "epoller ?n = epoller (sn_net w)"
    using assms(8) by (simp_all add: closed_net_def Let_def)
  obtain n2 where r: "run_pending os (tls_app app) (destroy_conn_task a) ?n = Inr n2" "n_conns n2 = (n_conns ?n)(a := None)"
    "connections n2 = connections ?n" "pending_list n2 = []"
    "n_log n2 = n_log ?n @ [On_Connection a K_Disconnected, Closed (h_fd (c_handler c)), Freed a]"
    by (rule destroy_task_frees [of ?n a c os app]) (use assms n in simp_all)
  have d: "do_pending_functors os (tls_app app) (Suc fuel) ?m = Some (Inr (n2\<lparr>calling_pending_functors := False\<rparr>))"
    using n(2) r(1) by (simp add: do_pending_functors_def)
  have "ssl_handler_close a w = Inr (w\<lparr>sn_net := ?m, conn_pri := (conn_pri w)(a := Ssl_Freed)\<rparr>)"
    by (rule ssl_handler_close_effect) (use assms in simp_all)
  then show ?thesis using d n r assms(1)
    by (intro exI [of _ "w\<lparr>sn_net := ?m, conn_pri := (conn_pri w)(a := Ssl_Freed)\<rparr>"] exI [of _ "n2\<lparr>calling_pending_functors := False\<rparr>"]) simp
qed

text \<open>The events of a hang-up with anything else to do but input.\<close>

lemma hangup_uses_freed_session:
  assumes c: "n_conns (sn_net w) a = Some c" "1 \<le> c_ref c" "c_close_callback c" and l: "conn_pri w a = Ssl_Live"
    and h: "close_callback (c_handler c) = Some Ssl_Handler_Close" "error_callback (c_handler c) = Some Connection_Handler_Error"
      "read_callback (c_handler c) \<in> {Some Ssl_Handler_Handshake, Some Ssl_Handler_Read}" "write_callback (c_handler c) = Some Ssl_Handler_Handshake"
    and r: "h_revents (c_handler c) AND POLLHUP \<noteq> 0" "h_revents (c_handler c) AND POLLIN = 0"
      "h_revents (c_handler c) AND (POLLIN OR POLLPRI OR POLLRDHUP) \<noteq> 0 \<or> h_revents (c_handler c) AND POLLOUT \<noteq> 0"
  shows "ssl_handle_event lib os app (Conn_Handler a) w = Inl UseAfterFree"
proof -
  let ?h = "(c_handler c)\<lparr>event_handling := True\<rparr>" let ?c = "c\<lparr>c_handler := ?h\<rparr>"
  let ?w1 = "w\<lparr>sn_net := put_conn a ?c (sn_net w)\<rparr>"
  let ?w2 = "?w1\<lparr>sn_net := closed_net a ?c (sn_net ?w1), conn_pri := (conn_pri w)(a := Ssl_Freed)\<rparr>"
  have 1: "on_net (set_event_handling True (Conn_Handler a)) w = Inr ?w1"
    using c(1) by (simp add: on_net_def set_event_handling_def put_conn_def)
  have 2: "ssl_handler_close a ?w1 = Inr ?w2" using ssl_handler_close_effect [of ?w1 a ?c] c l by simp
  have g: "n_conns (sn_net ?w1) a = Some ?c" "n_conns (sn_net ?w2) a = Some ?c" by (simp_all add: closed_net_def Let_def)
  have s: "ssl_session ?w2 a = Inl UseAfterFree" by (simp add: ssl_session_def)
  have f: "ssl_handler_handshake lib a ?w2 = Inl UseAfterFree" "ssl_handler_read lib os app a ?w2 = Inl UseAfterFree"
    using s get_conn_Some [OF g(2)] by (simp_all only: ssl_handler_handshake_def ssl_handler_read_def bindE_simps)
  have G: "get_handler (sn_net ?w1) (Conn_Handler a) = Inr ?h" "get_handler (sn_net ?w2) (Conn_Handler a) = Inr ?h"
    using get_conn_Some [OF g(1)] get_conn_Some [OF g(2)] by simp_all
  have cl: "ssl_event_case lib os app (\<lambda>r. r AND POLLHUP \<noteq> 0 \<and> r AND POLLIN = 0) close_callback (Conn_Handler a) ?w1 = Inr ?w2"
    unfolding ssl_event_case_def G(1) using 2 h(1) r(1,2) by simp
  have er: "ssl_event_case lib os app (\<lambda>r. r AND (POLLERR OR POLLNVAL) \<noteq> 0) error_callback (Conn_Handler a) ?w2 = Inr ?w2"
    unfolding ssl_event_case_def G(2) using h(2) by (simp add: on_net_def)
  have rd: "ssl_event_case lib os app (\<lambda>r. r AND (POLLIN OR POLLPRI OR POLLRDHUP) \<noteq> 0) read_callback (Conn_Handler a) ?w2 =
      (if h_revents (c_handler c) AND (POLLIN OR POLLPRI OR POLLRDHUP) \<noteq> 0 then Inl UseAfterFree else Inr ?w2)"
    unfolding ssl_event_case_def G(2) using h(3) f by auto
  have wr: "ssl_event_case lib os app (\<lambda>r. r AND POLLOUT \<noteq> 0) write_callback (Conn_Handler a) ?w2 =
      (if h_revents (c_handler c) AND POLLOUT \<noteq> 0 then Inl UseAfterFree else Inr ?w2)"
    unfolding ssl_event_case_def G(2) using h(4) f(1) by simp
  show ?thesis unfolding ssl_handle_event_def 1 bindE_simps cl er rd using wr r(3) by simp
qed

text \<open>The end of the stream, and every error but a reset, leaves the connection as it is.\<close>

lemma tls_end_of_stream_ignored:
  assumes "tls_inv a c w" and "SSL_read lib (sn_calls w) = Inl n" and "n = 0 \<or> ssl_errno lib (sn_calls w) \<noteq> ECONNRESET"
  shows "ssl_handler_read lib os app a w = Inr (w\<lparr>sn_calls := sn_calls w + 1\<rparr>)"
  using assms tls_invD [OF assms(1)] by (auto simp: ssl_handler_read_def)

text \<open>Closing from the application (\<open>conn_force_close\<close>) runs the plain close handler, which does not know of the session: it is never freed.\<close>

lemma force_close_keeps_session:
  "on_net (connection_handler_close os app a) w = Inr w' \<Longrightarrow> conn_pri w' = conn_pri w"
  by (auto simp: on_net_def bindE_Inr_iff)

section \<open>A sample connection\<close>

definition sample_lib :: "int \<Rightarrow> ssl_error \<Rightarrow> openssl" where
  "sample_lib first err = \<lparr>SSL_CTX_new = (\<lambda>_. True), SSL_CTX_use_PrivateKey_file = (\<lambda>_. 1), SSL_CTX_use_certificate_file = (\<lambda>_. 1),
     SSL_CTX_check_private_key = (\<lambda>_. 1), SSL_new = (\<lambda>_. True), SSL_do_handshake = (\<lambda>k. if k \<le> 1 then first else 1),
     SSL_get_error = (\<lambda>_ _. err), SSL_read = (\<lambda>_. Inl 0), SSL_write = (\<lambda>_ _. 0), ssl_errno = (\<lambda>_. EOther)\<rparr>"

definition accepted_conn :: gp_connection where
  "accepted_conn = (init_gp_connection 7)\<lparr>c_connection_callback := True, c_close_callback := True\<rparr>"

definition accepted_net :: net where
  "accepted_net = \<lparr>quit = False, looping = True, calling_pending_functors = False, epoller = init_gp_epoller,
     wakeup_handler = init_gp_handler 3, active_handler_list = [], pending_list = [],
     acceptor = \<lparr>accept_handler = init_gp_handler 4, listenning = True\<rparr>, connections = [7 \<mapsto> 0],
     s_message_callback = None, s_connection_callback = True, s_write_complete_callback = False,
     n_conns = [0 \<mapsto> accepted_conn], n_fresh = 1, n_listen_open = True, n_eventfd = 0, n_calls = 0, n_log = []\<rparr>"

definition tls_os :: os where
  "tls_os = \<lparr>os_write = (\<lambda>_ _ msg. Inr (length msg)), os_read = (\<lambda>_ _. Inl EWOULDBLOCK), os_accept = (\<lambda>_. Inl EWOULDBLOCK),
     os_listen = (\<lambda>_. True), os_bind = (\<lambda>_. True), os_ntop = (\<lambda>_ _. None), os_fill = (\<lambda>_. 0)\<rparr>"

definition silent_app :: app where
  "silent_app = \<lparr>app_connection = (\<lambda>_ _. []), app_message = (\<lambda>_ _. [])\<rparr>"

definition accepted_tls :: ssl_net where
  "accepted_tls = \<lparr>sn_net = accepted_net, sn_ctx = True, conn_pri = (\<lambda>_. Ssl_Null), sn_calls = 0, sn_sent = []\<rparr>"

lemma accepted_tls_ok:
  "n_conns (sn_net accepted_tls) 0 = Some accepted_conn" "c_connection_callback accepted_conn" "h_index (c_handler accepted_conn) = k_new"
  "SSL_new (sample_lib r e) (sn_calls accepted_tls)" "poll_inv (handlers (sn_net accepted_tls)) (epoller (sn_net accepted_tls))"
proof -
  note D = accepted_tls_def accepted_net_def accepted_conn_def init_gp_connection_def init_gp_handler_def set_error_callback_def set_close_callback_def
    set_write_callback_def set_read_callback_def k_new_def
  show "n_conns (sn_net accepted_tls) 0 = Some accepted_conn" by (simp add: accepted_tls_def accepted_net_def)
  show "c_connection_callback accepted_conn" by (simp add: accepted_conn_def)
  show "h_index (c_handler accepted_conn) = k_new" by (simp add: D)
  show "SSL_new (sample_lib r e) (sn_calls accepted_tls)" by (simp add: sample_lib_def)
  have e: "ep_interest (epoller (sn_net accepted_tls)) fd = None" for fd by (simp add: accepted_tls_def accepted_net_def init_gp_epoller_def)
  have H: "h_index h = k_new" "h_fd h = (case p of Conn_Handler _ \<Rightarrow> 7 | Accept_Handler \<Rightarrow> 4 | Wakeup_Handler \<Rightarrow> 3)" "p = Conn_Handler b \<Longrightarrow> b = 0"
    if "handlers (sn_net accepted_tls) p = Some h" for p h b
    using that by (cases p; auto simp: handlers_def D split: if_splits)+
  show "poll_inv (handlers (sn_net accepted_tls)) (epoller (sn_net accepted_tls))"
  proof (rule poll_invI)
    fix p q h g assume a: "handlers (sn_net accepted_tls) p = Some h" "handlers (sn_net accepted_tls) q = Some g" "h_fd h = h_fd g"
    then show "p = q" using H(2,3) [OF a(1)] H(2,3) [OF a(2)] by (cases p; cases q) auto
  qed (use H(1) e in \<open>auto\<close>)
qed

theorem handshake_follows_openssl_witness:
  "\<exists>w' c'. bindE (ssl_connection_established (sample_lib (- 1) SSL_ERROR_WANT_READ) 0 accepted_tls)
      (handshakes (sample_lib (- 1) SSL_ERROR_WANT_READ) 0 2) = Inr w' \<and> n_conns (sn_net w') 0 = Some c' \<and>
    ep_interest (epoller (sn_net w')) 7 = Some (3, Conn_Handler 0) \<and> read_callback (c_handler c') = Some Ssl_Handler_Read"
proof -
  have f: "h_fd (c_handler accepted_conn) = 7" "h_events (c_handler accepted_conn) = 0"
    by (simp_all add: accepted_conn_def init_gp_connection_def init_gp_handler_def set_error_callback_def set_close_callback_def
      set_write_callback_def set_read_callback_def)
  have u: "[Suc 0 ..< Suc 0 + 2] = [1, 2]" by (simp add: numeral_2_eq_2)
  have k: "\<exists>k. Suc 0 \<le> k \<and> k < Suc 0 + 2 \<and> SSL_do_handshake (sample_lib (- 1) SSL_ERROR_WANT_READ) k = 1"
    by (rule exI [of _ 2]) (simp add: sample_lib_def)
  let ?lib = "sample_lib (- 1) SSL_ERROR_WANT_READ"
  have c: "sn_calls accepted_tls = 0" by (simp add: accepted_tls_def)
  obtain w' c' where w: "bindE (ssl_connection_established ?lib 0 accepted_tls) (handshakes ?lib 0 2) = Inr w'" "n_conns (sn_net w') 0 = Some c'"
    "h_events (c_handler c') = fold (wants ?lib) [1, 2] (0 OR kread_event)"
    "ep_interest (epoller (sn_net w')) 7 = Some (h_events (c_handler c'), Conn_Handler 0)" "read_callback (c_handler c') = Some Ssl_Handler_Read"
    using handshake_follows_openssl [OF accepted_tls_ok, of "- 1" SSL_ERROR_WANT_READ 2, unfolded c f u if_P [OF k]] by blast
  have "fold (wants ?lib) [1, 2] (0 OR kread_event) = 3" by (simp add: wants_def sample_lib_def kread_event_def kwrite_event_def poll_flags)
  then show ?thesis using w by auto
qed

text \<open>The sample connection after a first call of the handshake that wants to write.\<close>

lemma sample_waits_to_write:
  obtains w c where "tls_inv 0 c w" "h_events (c_handler c) = kwrite_event" "write_callback (c_handler c) = Some Ssl_Handler_Handshake" "sn_calls w = 2"
    "output_buffer c = []"
proof -
  let ?lib = "sample_lib (- 1) SSL_ERROR_WANT_WRITE"
  obtain w1 c1 where e: "tls_inv 0 c1 w1" "sn_calls w1 = Suc (sn_calls accepted_tls)" "output_buffer c1 = output_buffer accepted_conn"
    "h_events (c_handler c1) = h_events (c_handler accepted_conn) OR kread_event" "write_callback (c_handler c1) = Some Ssl_Handler_Handshake"
    by (rule ssl_connection_established_ok [OF accepted_tls_ok, of "- 1" SSL_ERROR_WANT_WRITE])
  obtain w2 c2 where h: "ssl_handler_handshake ?lib 0 w1 = Inr w2" "tls_inv 0 c2 w2" "kept_by_handshake c1 c2" "sn_calls w2 = Suc (sn_calls w1)"
    "h_events (c_handler c2) = wants ?lib (sn_calls w1) (h_events (c_handler c1))"
    by (rule handshake_step [OF e(1), of ?lib])
  have "h_events (c_handler c1) = kread_event" "output_buffer c1 = []" using e(3,4)
    by (simp_all add: accepted_conn_def init_gp_connection_def init_gp_handler_def set_error_callback_def set_close_callback_def
      set_write_callback_def set_read_callback_def)
  then show thesis using that [OF h(2)] e(2,5) h(3,4,5)
    by (simp add: accepted_tls_def wants_def sample_lib_def kept_by_handshake_def kread_event_def kwrite_event_def poll_flags)
qed

theorem handshake_waiting_to_write_never_reads_witness:
  "\<exists>w w' c'. tls_events (sample_lib (- 1) SSL_ERROR_WANT_WRITE) tls_os silent_app 0 (replicate 3 POLLOUT) w = Inr w' \<and> n_conns (sn_net w') 0 = Some c' \<and>
    h_events (c_handler c') = kwrite_event \<and> n_log (sn_net w') = n_log (sn_net w)"
proof -
  obtain w c where s: "tls_inv 0 c w" "h_events (c_handler c) = kwrite_event" "write_callback (c_handler c) = Some Ssl_Handler_Handshake" "sn_calls w = 2"
    by (rule sample_waits_to_write)
  have "write_only (h_events (c_handler c))" using s(2) by (simp add: write_only_def kread_event_def kwrite_event_def poll_flags)
  moreover have "\<forall>k \<ge> sn_calls w. SSL_do_handshake (sample_lib (- 1) SSL_ERROR_WANT_WRITE) k = 1" using s(4) by (simp add: sample_lib_def)
  ultimately show ?thesis
    using handshake_waiting_to_write_never_reads [of w 0 c "sample_lib (- 1) SSL_ERROR_WANT_WRITE" tls_os silent_app 3] s(1,2,3) unfolding tls_inv_def by fastforce
qed

lemma sample_established:
  obtains w :: ssl_net and c where "n_conns (sn_net w) 0 = Some c" "c_ref c = 1" "c_close_callback c" "c_connection_callback c" "c_state c = K_Connected"
    "conn_pri w 0 = Ssl_Live" "poll_inv (handlers (sn_net w)) (epoller (sn_net w))" "pending_list (sn_net w) = []" "h_fd (c_handler c) = 7"
proof -
  have f: "h_fd (c_handler accepted_conn) = 7" "c_ref accepted_conn = 1" "c_close_callback accepted_conn" "pending_list (sn_net accepted_tls) = []"
    by (simp_all add: accepted_tls_def accepted_net_def accepted_conn_def init_gp_connection_def init_gp_handler_def set_error_callback_def
      set_close_callback_def set_write_callback_def set_read_callback_def)
  obtain w1 c1 where "tls_inv 0 c1 w1" "c_state c1 = K_Connected" "h_fd (c_handler c1) = h_fd (c_handler accepted_conn)"
    "c_ref c1 = c_ref accepted_conn" "c_close_callback c1 = c_close_callback accepted_conn" "c_connection_callback c1"
    "pending_list (sn_net w1) = pending_list (sn_net accepted_tls)"
    by (rule ssl_connection_established_ok [OF accepted_tls_ok, of "- 1" SSL_ERROR_WANT_WRITE])
  then show thesis using that [of w1 c1] f by (simp add: tls_inv_def)
qed

theorem tls_close_frees_session_and_connection_witness:
  "\<exists>w w1 n2. ssl_handler_close 0 w = Inr w1 \<and> conn_pri w1 0 = Ssl_Freed \<and>
    do_pending_functors tls_os (tls_app silent_app) 1 (sn_net w1) = Some (Inr n2) \<and> n_conns n2 0 = None \<and>
    n_log n2 = n_log (sn_net w) @ [On_Connection 0 K_Disconnected, Closed 7, Freed 0]"
proof -
  obtain w :: ssl_net and c where s: "n_conns (sn_net w) 0 = Some c" "c_ref c = 1" "c_close_callback c" "c_connection_callback c" "c_state c = K_Connected"
    "conn_pri w 0 = Ssl_Live" "poll_inv (handlers (sn_net w)) (epoller (sn_net w))" "pending_list (sn_net w) = []" "h_fd (c_handler c) = 7"
    by (rule sample_established)
  show ?thesis using tls_close_frees_session_and_connection [OF s(1-8), of tls_os silent_app 0] s(9) by (metis One_nat_def fun_upd_same)
qed

end
