(* ===== verification/Gp_Pool.thy ===== *)
theory Gp_Pool
  imports Prelude
begin

text \<open>
  The thread pool (\<open>base/gp_threadpool.c\<close>) and its thread managers (\<open>base/gp_thread.c\<close>) as an interleaving of
  threads. A critical section that does not wait is one step; a section that takes a further lock or waits on a
  condition variable is cut there. Threads below \<open>tp_nthreads\<close> are the workers, the others are clients that
  call the functions of the pool.
\<close>

section \<open>Data\<close>

text \<open>The owner of a mutex is the thread that holds it across a step.\<close>

record gp_task =
  task_busy :: u32
  task_tmr :: "nat option"
  task_mtx :: "nat option"
  task_cb :: bool

record gp_thread_manager =
  tm_start :: bool
  tm_stop :: bool
  tm_done :: bool
  tm_init :: bool

record gp_task_processor =
  tp_tasks :: "nat list"
  tp_mtx :: "nat option"
  tp_run :: bool
  tp_nthreads :: nat
  tp_threads :: "nat \<Rightarrow> gp_thread_manager"

text \<open>
  Where a thread stands. Workers: before and in the wait for the start, about to lock the pool, in the loop with
  the pool locked, asleep on \<open>tp_sched_cv\<close>, about to call the callback of a task, about to report it done, left the
  loop, ended. Clients: idle; in \<open>run_task\<close> before the busy counter and before the queue; in \<open>wait_task\<close> before the
  lock, asleep, before the second lock; in \<open>destroy_task\<close> before the lock, asleep, before the release; in
  \<open>destroy_task_processor\<close> before the stop, at the manager of a worker, asleep there, before the release.
\<close>

datatype pc =
    W_Wrap | W_Wrap_Sleep | W_Enter | W_Head | W_Sleep | W_Call nat | W_Done nat | W_Exit | W_End
  | C_Idle | R_Busy nat | R_Append nat | T_Lock nat | T_Sleep nat | T_Relock nat
  | D_Lock nat | D_Sleep nat | D_Free nat | X_Stop | X_Finish nat | X_Sleep nat | X_Free

text \<open>The heap of tasks, the positions of the threads, whether the processor has been freed, submitted and executed tasks.\<close>

record pool = gp_task_processor +
  pl_tasks :: "nat \<rightharpoonup> gp_task"
  pl_pcs :: "nat \<Rightarrow> pc"
  pl_freed :: bool
  pl_subs :: "nat list"
  pl_runs :: "nat list"

definition goto :: "nat \<Rightarrow> pc \<Rightarrow> pool \<Rightarrow> pool" where
  "goto i p s = s\<lparr>pl_pcs := (pl_pcs s)(i := p)\<rparr>"

definition put_task :: "nat \<Rightarrow> gp_task \<Rightarrow> pool \<Rightarrow> pool" where
  "put_task t k s = s\<lparr>pl_tasks := (pl_tasks s)(t \<mapsto> k)\<rparr>"

text \<open>\<open>gp_cv_wake\<close>: every thread asleep at \<open>p\<close> goes on at \<open>q\<close>.\<close>

definition gp_cv_wake :: "pc \<Rightarrow> pc \<Rightarrow> pool \<Rightarrow> pool" where
  "gp_cv_wake p q s = s\<lparr>pl_pcs := (\<lambda>i. if pl_pcs s i = p then q else pl_pcs s i)\<rparr>"

text \<open>\<open>gp_cv_signal (&tp_sched_cv)\<close>: \<open>w\<close> is the thread that is woken, when it sleeps.\<close>

definition gp_cv_signal :: "nat \<Rightarrow> pool \<Rightarrow> pool" where
  "gp_cv_signal w s = (if pl_pcs s w = W_Sleep then goto w W_Enter s else s)"

text \<open>A section under the mutex of a task: blocked while another section holds it.\<close>

definition with_task :: "nat \<Rightarrow> pool \<Rightarrow> (gp_task \<Rightarrow> pool) \<Rightarrow> pool res option" where
  "with_task t s f =
     (case pl_tasks s t of
        None \<Rightarrow> Some (Inl UseAfterFree)
      | Some k \<Rightarrow> if task_mtx k = None then Some (Inr (f k)) else None)"

definition with_pool :: "pool \<Rightarrow> pool \<Rightarrow> pool res option" where
  "with_pool s s' = (if pl_freed s then Some (Inl UseAfterFree) else if tp_mtx s = None then Some (Inr s') else None)"

section \<open>Thread managers\<close>

definition put_manager :: "nat \<Rightarrow> gp_thread_manager \<Rightarrow> pool \<Rightarrow> pool" where
  "put_manager i m s = s\<lparr>tp_threads := (tp_threads s)(i := m)\<rparr>"

definition init_gp_thr_manager :: gp_thread_manager where
  "init_gp_thr_manager = \<lparr>tm_start = False, tm_stop = False, tm_done = False, tm_init = True\<rparr>"

definition gp_thr_manager_run :: "nat \<Rightarrow> pool \<Rightarrow> pool" where
  "gp_thr_manager_run i s =
     (let s1 = put_manager i ((tp_threads s i)\<lparr>tm_start := True\<rparr>) s
      in if pl_pcs s1 i = W_Wrap_Sleep then goto i W_Wrap s1 else s1)"

text \<open>The wrapper around the function of a thread: the wait for the start, and the end.\<close>

definition gp_tmr_wrap :: "nat \<Rightarrow> pool \<Rightarrow> pool res option" where
  "gp_tmr_wrap i s =
     (if pl_freed s then Some (Inl UseAfterFree)
      else if pl_pcs s i = W_Wrap then
        Some (Inr (goto i (if tm_start (tp_threads s i) then W_Enter else if tm_stop (tp_threads s i) then W_Exit else W_Wrap_Sleep) s))
      else
        Some (Inr (gp_cv_wake (X_Sleep i) (X_Finish i) (goto i W_End (put_manager i ((tp_threads s i)\<lparr>tm_done := True\<rparr>) s)))))"

text \<open>\<open>c\<close> is the client that waits for the end of worker \<open>j\<close>.\<close>

definition gp_thr_manager_finish :: "nat \<Rightarrow> nat \<Rightarrow> pool \<Rightarrow> pool" where
  "gp_thr_manager_finish c j s =
     (if \<not> tm_init (tp_threads s j) then goto c (X_Finish (j + 1)) s
      else
        let s1 = put_manager j ((tp_threads s j)\<lparr>tm_stop := True\<rparr>) s;
            s2 = (if pl_pcs s1 j = W_Wrap_Sleep then goto j W_Wrap s1 else s1)
        in if tm_done (tp_threads s2 j) then goto c (X_Finish (j + 1)) (put_manager j ((tp_threads s2 j)\<lparr>tm_init := False\<rparr>) s2)
           else goto c (X_Sleep j) s2)"

section \<open>Workers\<close>

definition gp_task_thread :: "nat \<Rightarrow> pool \<Rightarrow> pool res option" where
  "gp_task_thread i s =
     (case pl_pcs s i of
        W_Enter \<Rightarrow> with_pool s (goto i W_Head (s\<lparr>tp_mtx := Some i\<rparr>))
      | W_Head \<Rightarrow>
          (case tp_tasks s of
             task # tasks \<Rightarrow>
               with_task task s (\<lambda>k. goto i (W_Call task) (put_task task (k\<lparr>task_tmr := Some i\<rparr>) (s\<lparr>tp_tasks := tasks, tp_mtx := None\<rparr>)))
           | [] \<Rightarrow> Some (Inr (goto i (if \<not> tp_run s then W_Exit else W_Sleep) (s\<lparr>tp_mtx := None\<rparr>))))
      | W_Call task \<Rightarrow> Some (Inr (goto i (W_Done task) (s\<lparr>pl_runs := pl_runs s @ [task]\<rparr>)))
      | W_Done task \<Rightarrow>
          with_task task s (\<lambda>k.
            let busy = task_busy k - 1;
                s1 = put_task task (k\<lparr>task_busy := busy, task_tmr := None\<rparr>) s;
                s2 = (if busy = 0 then gp_cv_wake (T_Sleep task) (T_Lock task) (gp_cv_wake (D_Sleep task) (D_Lock task) s1) else s1)
            in goto i W_Enter s2)
      | _ \<Rightarrow> None)"

section \<open>Clients\<close>

definition init_task :: "bool \<Rightarrow> gp_task" where
  "init_task cb = \<lparr>task_busy = 0, task_tmr = None, task_mtx = None, task_cb = cb\<rparr>"

definition run_task :: "nat \<Rightarrow> nat \<Rightarrow> pool \<Rightarrow> pool res option" where
  "run_task w i s =
     (case pl_pcs s i of
        R_Busy task \<Rightarrow>
          if map_option task_cb (pl_tasks s task) = Some False then Some (Inr (goto i C_Idle s))
          else with_task task s (\<lambda>k. goto i (R_Append task) (put_task task (k\<lparr>task_busy := task_busy k + 1\<rparr>) s))
      | R_Append task \<Rightarrow>
          if pl_tasks s task = None then Some (Inl UseAfterFree)
          else if task \<in> set (tp_tasks s) then Some (Inl BrokenList)
          else with_pool s (gp_cv_signal w (goto i C_Idle (s\<lparr>tp_tasks := tp_tasks s @ [task], pl_subs := pl_subs s @ [task]\<rparr>)))
      | _ \<Rightarrow> None)"

text \<open>The mutex is taken again at the end, by the thread that holds it.\<close>

definition wait_task :: "nat \<Rightarrow> pool \<Rightarrow> pool res option" where
  "wait_task i s =
     (case pl_pcs s i of
        T_Lock task \<Rightarrow>
          with_task task s (\<lambda>k. if task_busy k \<noteq> 0 then goto i (T_Sleep task) s else goto i (T_Relock task) (put_task task (k\<lparr>task_mtx := Some i\<rparr>) s))
      | T_Relock task \<Rightarrow> with_task task s (\<lambda>k. goto i C_Idle (put_task task (k\<lparr>task_mtx := Some i\<rparr>) s))
      | _ \<Rightarrow> None)"

definition destroy_task :: "nat \<Rightarrow> pool \<Rightarrow> pool res option" where
  "destroy_task i s =
     (case pl_pcs s i of
        D_Lock task \<Rightarrow> with_task task s (\<lambda>k. if task_busy k \<noteq> 0 then goto i (D_Sleep task) s else goto i (D_Free task) s)
      | D_Free task \<Rightarrow> Some (Inr (goto i C_Idle (s\<lparr>pl_tasks := (pl_tasks s)(task := None)\<rparr>)))
      | _ \<Rightarrow> None)"

definition destroy_task_processor :: "nat \<Rightarrow> pool \<Rightarrow> pool res option" where
  "destroy_task_processor i s =
     (case pl_pcs s i of
        X_Stop \<Rightarrow> with_pool s (goto i (X_Finish 0) (gp_cv_wake W_Sleep W_Enter (s\<lparr>tp_run := False\<rparr>)))
      | X_Finish j \<Rightarrow> Some (Inr (if j < tp_nthreads s then gp_thr_manager_finish i j s else goto i X_Free s))
      | X_Free \<Rightarrow> Some (Inr (goto i C_Idle (s\<lparr>pl_freed := True\<rparr>)))
      | _ \<Rightarrow> None)"

definition init_task_processor :: "nat \<Rightarrow> pool" where
  "init_task_processor num =
     fold gp_thr_manager_run [0..<num]
       \<lparr>tp_tasks = [], tp_mtx = None, tp_run = True, tp_nthreads = num, tp_threads = (\<lambda>_. init_gp_thr_manager),
        pl_tasks = Map.empty, pl_pcs = (\<lambda>i. if i < num then W_Wrap else C_Idle), pl_freed = False, pl_subs = [], pl_runs = []\<rparr>"

section \<open>Interleavings\<close>

text \<open>The next step of thread \<open>i\<close>: \<open>None\<close> while it is blocked, asleep or idle.\<close>

definition thread_step :: "nat \<Rightarrow> nat \<Rightarrow> pool \<Rightarrow> pool res option" where
  "thread_step w i s =
     (case pl_pcs s i of
        W_Wrap \<Rightarrow> gp_tmr_wrap i s | W_Exit \<Rightarrow> gp_tmr_wrap i s
      | W_Enter \<Rightarrow> gp_task_thread i s | W_Head \<Rightarrow> gp_task_thread i s | W_Call task \<Rightarrow> gp_task_thread i s | W_Done task \<Rightarrow> gp_task_thread i s
      | R_Busy task \<Rightarrow> run_task w i s | R_Append task \<Rightarrow> run_task w i s
      | T_Lock task \<Rightarrow> wait_task i s | T_Relock task \<Rightarrow> wait_task i s
      | D_Lock task \<Rightarrow> destroy_task i s | D_Free task \<Rightarrow> destroy_task i s
      | X_Stop \<Rightarrow> destroy_task_processor i s | X_Finish j \<Rightarrow> destroy_task_processor i s | X_Free \<Rightarrow> destroy_task_processor i s
      | _ \<Rightarrow> None)"

text \<open>The calls of a client, and when it may make them: a task belongs to one client, is not submitted while it
  waits in the queue nor after the pool is stopped, and the pool is destroyed once, by a client that no other
  client's submission overlaps.\<close>

datatype call = Create_Task nat bool | Run_Task nat | Wait_Task nat | Destroy_Task nat | Destroy_Task_Processor

fun submits :: "pc \<Rightarrow> bool" where
  "submits (R_Busy t) = True" | "submits (R_Append t) = True" | "submits X_Stop = True" | "submits _ = False"

fun may_call :: "(nat \<Rightarrow> nat) \<Rightarrow> nat \<Rightarrow> pool \<Rightarrow> nat \<Rightarrow> call \<Rightarrow> bool" where
  "may_call owner n s i (Create_Task t cb) \<longleftrightarrow> owner t = i \<and> pl_tasks s t = None"
| "may_call owner n s i (Run_Task t) \<longleftrightarrow> owner t = i \<and> pl_tasks s t \<noteq> None \<and> t \<notin> set (tp_tasks s) \<and> tp_run s \<and> (\<forall>j < n. pl_pcs s j \<noteq> X_Stop)"
| "may_call owner n s i (Wait_Task t) \<longleftrightarrow> owner t = i \<and> pl_tasks s t \<noteq> None"
| "may_call owner n s i (Destroy_Task t) \<longleftrightarrow> owner t = i \<and> pl_tasks s t \<noteq> None"
| "may_call owner n s i Destroy_Task_Processor \<longleftrightarrow> tp_run s \<and> (\<forall>j < n. \<not> submits (pl_pcs s j))"

fun begin_call :: "nat \<Rightarrow> call \<Rightarrow> pool \<Rightarrow> pool" where
  "begin_call i (Create_Task t cb) s = put_task t (init_task cb) s"
| "begin_call i (Run_Task t) s = goto i (R_Busy t) s"
| "begin_call i (Wait_Task t) s = goto i (T_Lock t) s"
| "begin_call i (Destroy_Task t) s = goto i (D_Lock t) s"
| "begin_call i Destroy_Task_Processor s = goto i X_Stop s"

text \<open>A thread asleep on a condition variable may also wake up for no reason.\<close>

fun wakes :: "pc \<Rightarrow> pc option" where
  "wakes W_Wrap_Sleep = Some W_Wrap" | "wakes W_Sleep = Some W_Enter" | "wakes (T_Sleep t) = Some (T_Lock t)"
| "wakes (D_Sleep t) = Some (D_Lock t)" | "wakes (X_Sleep j) = Some (X_Finish j)" | "wakes _ = None"

text \<open>\<open>n\<close> is the number of threads. A signal wakes a worker when one sleeps.\<close>

inductive pool_step :: "(nat \<Rightarrow> nat) \<Rightarrow> nat \<Rightarrow> pool \<Rightarrow> pool \<Rightarrow> bool" for owner n where
  step: "i < n \<Longrightarrow> w < n \<Longrightarrow> (pl_pcs s w = W_Sleep \<or> (\<forall>j < n. pl_pcs s j \<noteq> W_Sleep)) \<Longrightarrow> thread_step w i s = Some (Inr s') \<Longrightarrow> pool_step owner n s s'"
| call: "i < n \<Longrightarrow> pl_pcs s i = C_Idle \<Longrightarrow> \<not> pl_freed s \<Longrightarrow> may_call owner n s i c \<Longrightarrow> pool_step owner n s (begin_call i c s)"
| spurious: "i < n \<Longrightarrow> wakes (pl_pcs s i) = Some p \<Longrightarrow> pool_step owner n s (goto i p s)"

inductive reachable :: "(nat \<Rightarrow> nat) \<Rightarrow> nat \<Rightarrow> nat \<Rightarrow> pool \<Rightarrow> bool" for owner num n where
  init: "reachable owner num n (init_task_processor num)"
| next_state: "reachable owner num n s \<Longrightarrow> pool_step owner n s s' \<Longrightarrow> reachable owner num n s'"

end
