(* ===== verification/Gp_Pool_Correct.thy ===== *)
theory Gp_Pool_Correct
  imports Gp_Pool
begin

text \<open>
  The correctness of the thread pool under every interleaving: an invariant of all reachable states (locks, busy
  counters, ownership of tasks, the stopping of the pool, sleeping workers), by rule induction over the steps; from it,
  that no access goes wrong, that the pool drains, and that \<open>wait_task\<close> never returns.
\<close>

section \<open>The invariant\<close>

fun worker_pc :: "pc \<Rightarrow> bool" where
  "worker_pc W_Wrap = True" | "worker_pc W_Wrap_Sleep = True" | "worker_pc W_Enter = True" | "worker_pc W_Head = True"
| "worker_pc W_Sleep = True" | "worker_pc (W_Call t) = True" | "worker_pc (W_Done t) = True" | "worker_pc W_Exit = True"
| "worker_pc W_End = True" | "worker_pc _ = False"

text \<open>The task of a client, what counts as busy with a task, as calling it, as a worker that will look at the queue.\<close>

fun client_task :: "pc \<Rightarrow> nat option" where
  "client_task (R_Busy t) = Some t" | "client_task (R_Append t) = Some t" | "client_task (T_Lock t) = Some t"
| "client_task (T_Sleep t) = Some t" | "client_task (T_Relock t) = Some t" | "client_task (D_Lock t) = Some t"
| "client_task (D_Sleep t) = Some t" | "client_task (D_Free t) = Some t" | "client_task _ = None"

fun uses :: "nat \<Rightarrow> pc \<Rightarrow> nat" where
  "uses t (W_Call u) = of_bool (u = t)" | "uses t (W_Done u) = of_bool (u = t)" | "uses t (R_Append u) = of_bool (u = t)" | "uses t _ = 0"

fun calls :: "nat \<Rightarrow> pc \<Rightarrow> nat" where
  "calls t (W_Call u) = of_bool (u = t)" | "calls t _ = 0"

fun heading :: "pc \<Rightarrow> nat" where
  "heading W_Wrap = 1" | "heading W_Enter = 1" | "heading W_Head = 1" | "heading (W_Call t) = 1" | "heading (W_Done t) = 1" | "heading _ = 0"

definition tally :: "(pc \<Rightarrow> nat) \<Rightarrow> nat \<Rightarrow> pool \<Rightarrow> nat" where
  "tally f n s = (\<Sum>i<n. f (pl_pcs s i))"

definition in_flight :: "nat \<Rightarrow> pool \<Rightarrow> nat \<Rightarrow> nat" where
  "in_flight n s t = count_list (tp_tasks s) t + tally (uses t) n s"

definition lock_inv :: "nat \<Rightarrow> nat \<Rightarrow> pool \<Rightarrow> bool" where
  "lock_inv num n s \<longleftrightarrow>
     tp_nthreads s = num \<and> (\<forall>i < num. worker_pc (pl_pcs s i)) \<and> (\<forall>i \<ge> num. \<not> worker_pc (pl_pcs s i)) \<and>
     (\<forall>i \<ge> n. pl_pcs s i = C_Idle) \<and> (\<forall>i. tp_mtx s = Some i \<longleftrightarrow> pl_pcs s i = W_Head) \<and>
     (\<forall>i t k. pl_tasks s t = Some k \<longrightarrow> (task_mtx k = Some i \<longleftrightarrow> pl_pcs s i = T_Relock t))"

definition task_inv :: "(nat \<Rightarrow> nat) \<Rightarrow> nat \<Rightarrow> pool \<Rightarrow> bool" where
  "task_inv owner n s \<longleftrightarrow>
     distinct (tp_tasks s) \<and>
     (\<forall>t k. pl_tasks s t = Some k \<longrightarrow> task_busy k = of_nat (in_flight n s t)) \<and>
     (\<forall>t. pl_tasks s t = None \<longrightarrow> in_flight n s t = 0) \<and>
     (\<forall>i t. client_task (pl_pcs s i) = Some t \<longrightarrow> owner t = i \<and> pl_tasks s t \<noteq> None) \<and>
     (\<forall>i t. pl_pcs s i = R_Busy t \<or> pl_pcs s i = R_Append t \<longrightarrow> t \<notin> set (tp_tasks s)) \<and>
     (\<forall>i t. pl_pcs s i = D_Free t \<longrightarrow> in_flight n s t = 0) \<and>
     (\<forall>i t. pl_pcs s i = T_Sleep t \<or> pl_pcs s i = D_Sleep t \<longrightarrow> in_flight n s t \<noteq> 0)"

definition ended :: "nat \<Rightarrow> pool \<Rightarrow> bool" where
  "ended x s \<longleftrightarrow> (\<forall>l < x. pl_pcs s l = W_End)"

text \<open>What holds of a pool that is being stopped, by the position of thread \<open>i\<close>.\<close>

fun pc_ok :: "nat \<Rightarrow> pool \<Rightarrow> nat \<Rightarrow> pc \<Rightarrow> bool" where
  "pc_ok num s i W_Exit \<longleftrightarrow> \<not> tp_run s \<and> tp_tasks s = []"
| "pc_ok num s i W_End \<longleftrightarrow> \<not> tp_run s \<and> tp_tasks s = []"
| "pc_ok num s i W_Sleep \<longleftrightarrow> tp_run s"
| "pc_ok num s i W_Wrap_Sleep \<longleftrightarrow> False"
| "pc_ok num s i (R_Busy t) \<longleftrightarrow> tp_run s"
| "pc_ok num s i (R_Append t) \<longleftrightarrow> tp_run s"
| "pc_ok num s i X_Stop \<longleftrightarrow> tp_run s \<and> (\<forall>j. submits (pl_pcs s j) \<longrightarrow> j = i)"
| "pc_ok num s i (X_Finish x) \<longleftrightarrow> \<not> tp_run s \<and> x \<le> num \<and> ended x s"
| "pc_ok num s i (X_Sleep x) \<longleftrightarrow> \<not> tp_run s \<and> x < num \<and> ended x s \<and> pl_pcs s x \<noteq> W_End"
| "pc_ok num s i X_Free \<longleftrightarrow> \<not> tp_run s \<and> ended num s"
| "pc_ok num s i _ \<longleftrightarrow> True"

definition manager_ok :: "pool \<Rightarrow> nat \<Rightarrow> bool" where
  "manager_ok s i \<longleftrightarrow> tm_start (tp_threads s i) \<and> (tm_done (tp_threads s i) \<longleftrightarrow> pl_pcs s i = W_End) \<and>
     (\<not> tm_init (tp_threads s i) \<longrightarrow> pl_pcs s i = W_End)"

definition stop_inv :: "nat \<Rightarrow> pool \<Rightarrow> bool" where
  "stop_inv num s \<longleftrightarrow> (\<forall>i. pc_ok num s i (pl_pcs s i)) \<and> (\<forall>i < num. manager_ok s i) \<and> (pl_freed s \<longrightarrow> \<not> tp_run s \<and> ended num s)"

definition heading_inv :: "nat \<Rightarrow> pool \<Rightarrow> bool" where
  "heading_inv n s \<longleftrightarrow> ((\<exists>i < n. pl_pcs s i = W_Sleep) \<longrightarrow> length (tp_tasks s) \<le> tally heading n s)"

definition log_inv :: "nat \<Rightarrow> pool \<Rightarrow> bool" where
  "log_inv n s \<longleftrightarrow> (\<forall>t. count_list (pl_subs s) t = count_list (pl_runs s) t + count_list (tp_tasks s) t + tally (calls t) n s)"

section \<open>Counting threads\<close>

lemma tally_goto:
  assumes "i < n"
  shows "tally f n (goto i p s) + f (pl_pcs s i) = tally f n s + f p"
proof -
  have "(\<Sum>j<n. f (((pl_pcs s)(i := p)) j)) = f p + (\<Sum>j\<in>{..<n} - {i}. f (pl_pcs s j))"
    using assms by (subst sum.remove [of _ i]) (auto intro: sum.cong)
  moreover have "(\<Sum>j<n. f (pl_pcs s j)) = f (pl_pcs s i) + (\<Sum>j\<in>{..<n} - {i}. f (pl_pcs s j))"
    using assms by (subst sum.remove [of _ i]) auto
  ultimately show ?thesis by (simp add: tally_def goto_def)
qed

lemma tally_goto_eq: "i < n \<Longrightarrow> f p = f (pl_pcs s i) \<Longrightarrow> tally f n (goto i p s) = tally f n s"
  using tally_goto [of i n f p s] by simp

lemma tally_wake: "f p = f q \<Longrightarrow> tally f n (gp_cv_wake p q s) = tally f n s"
  by (auto simp: tally_def gp_cv_wake_def intro!: sum.cong)

lemma tally_ge: "i < n \<Longrightarrow> f (pl_pcs s i) \<le> tally f n s"
  unfolding tally_def by (rule member_le_sum) auto

lemma tally_zero: "tally f n s = 0 \<Longrightarrow> i < n \<Longrightarrow> f (pl_pcs s i) = 0"
  by (simp add: tally_def)

lemma tally_cong: "(\<And>i. i < n \<Longrightarrow> pl_pcs s' i = pl_pcs s i) \<Longrightarrow> tally f n s' = tally f n s"
  by (simp add: tally_def)

lemma goto_simps [simp]:
  "tp_tasks (goto i p s) = tp_tasks s" "tp_mtx (goto i p s) = tp_mtx s" "tp_run (goto i p s) = tp_run s" "tp_nthreads (goto i p s) = tp_nthreads s"
  "tp_threads (goto i p s) = tp_threads s" "pl_tasks (goto i p s) = pl_tasks s" "pl_freed (goto i p s) = pl_freed s" "pl_subs (goto i p s) = pl_subs s"
  "pl_runs (goto i p s) = pl_runs s" "pl_pcs (goto i p s) = (pl_pcs s)(i := p)"
  by (simp_all add: goto_def)

lemma put_task_simps [simp]:
  "tp_tasks (put_task t k s) = tp_tasks s" "tp_mtx (put_task t k s) = tp_mtx s" "tp_run (put_task t k s) = tp_run s" "tp_nthreads (put_task t k s) = tp_nthreads s"
  "tp_threads (put_task t k s) = tp_threads s" "pl_tasks (put_task t k s) = (pl_tasks s)(t \<mapsto> k)" "pl_freed (put_task t k s) = pl_freed s"
  "pl_subs (put_task t k s) = pl_subs s" "pl_runs (put_task t k s) = pl_runs s" "pl_pcs (put_task t k s) = pl_pcs s"
  by (simp_all add: put_task_def)

lemma put_manager_simps [simp]:
  "tp_tasks (put_manager i m s) = tp_tasks s" "tp_mtx (put_manager i m s) = tp_mtx s" "tp_run (put_manager i m s) = tp_run s" "tp_nthreads (put_manager i m s) = tp_nthreads s"
  "tp_threads (put_manager i m s) = (tp_threads s)(i := m)" "pl_tasks (put_manager i m s) = pl_tasks s" "pl_freed (put_manager i m s) = pl_freed s"
  "pl_subs (put_manager i m s) = pl_subs s" "pl_runs (put_manager i m s) = pl_runs s" "pl_pcs (put_manager i m s) = pl_pcs s"
  by (simp_all add: put_manager_def)

lemma wake_simps [simp]:
  "tp_tasks (gp_cv_wake p q s) = tp_tasks s" "tp_mtx (gp_cv_wake p q s) = tp_mtx s" "tp_run (gp_cv_wake p q s) = tp_run s" "tp_nthreads (gp_cv_wake p q s) = tp_nthreads s"
  "tp_threads (gp_cv_wake p q s) = tp_threads s" "pl_tasks (gp_cv_wake p q s) = pl_tasks s" "pl_freed (gp_cv_wake p q s) = pl_freed s"
  "pl_subs (gp_cv_wake p q s) = pl_subs s" "pl_runs (gp_cv_wake p q s) = pl_runs s" "pl_pcs (gp_cv_wake p q s) = (\<lambda>i. if pl_pcs s i = p then q else pl_pcs s i)"
  by (simp_all add: gp_cv_wake_def)

section \<open>Every step of a thread\<close>

text \<open>The steps of the threads, with the state they lead to.\<close>

inductive moves :: "nat \<Rightarrow> nat \<Rightarrow> pool \<Rightarrow> pool \<Rightarrow> bool" for w i s where
  wrap: "pl_pcs s i = W_Wrap \<Longrightarrow> tm_start (tp_threads s i) \<Longrightarrow> moves w i s (goto i W_Enter s)"
| ended: "pl_pcs s i = W_Exit \<Longrightarrow>
    moves w i s (gp_cv_wake (X_Sleep i) (X_Finish i) (goto i W_End (put_manager i ((tp_threads s i)\<lparr>tm_done := True\<rparr>) s)))"
| enter: "pl_pcs s i = W_Enter \<Longrightarrow> tp_mtx s = None \<Longrightarrow> moves w i s (goto i W_Head (s\<lparr>tp_mtx := Some i\<rparr>))"
| take: "pl_pcs s i = W_Head \<Longrightarrow> tp_tasks s = t # ts \<Longrightarrow> pl_tasks s t = Some k \<Longrightarrow>
    moves w i s (goto i (W_Call t) (put_task t (k\<lparr>task_tmr := Some i\<rparr>) (s\<lparr>tp_tasks := ts, tp_mtx := None\<rparr>)))"
| leave: "pl_pcs s i = W_Head \<Longrightarrow> tp_tasks s = [] \<Longrightarrow> \<not> tp_run s \<Longrightarrow> moves w i s (goto i W_Exit (s\<lparr>tp_mtx := None\<rparr>))"
| sleep: "pl_pcs s i = W_Head \<Longrightarrow> tp_tasks s = [] \<Longrightarrow> tp_run s \<Longrightarrow> moves w i s (goto i W_Sleep (s\<lparr>tp_mtx := None\<rparr>))"
| called: "pl_pcs s i = W_Call t \<Longrightarrow> moves w i s (goto i (W_Done t) (s\<lparr>pl_runs := pl_runs s @ [t]\<rparr>))"
| report: "pl_pcs s i = W_Done t \<Longrightarrow> pl_tasks s t = Some k \<Longrightarrow> task_mtx k = None \<Longrightarrow> task_busy k - 1 \<noteq> 0 \<Longrightarrow>
    moves w i s (goto i W_Enter (put_task t (k\<lparr>task_busy := task_busy k - 1, task_tmr := None\<rparr>) s))"
| report_last: "pl_pcs s i = W_Done t \<Longrightarrow> pl_tasks s t = Some k \<Longrightarrow> task_mtx k = None \<Longrightarrow> task_busy k - 1 = 0 \<Longrightarrow>
    moves w i s (goto i W_Enter (gp_cv_wake (T_Sleep t) (T_Lock t) (gp_cv_wake (D_Sleep t) (D_Lock t)
      (put_task t (k\<lparr>task_busy := 0, task_tmr := None\<rparr>) s))))"
| no_callback: "pl_pcs s i = R_Busy t \<Longrightarrow> moves w i s (goto i C_Idle s)"
| count_busy: "pl_pcs s i = R_Busy t \<Longrightarrow> pl_tasks s t = Some k \<Longrightarrow>
    moves w i s (goto i (R_Append t) (put_task t (k\<lparr>task_busy := task_busy k + 1\<rparr>) s))"
| append: "pl_pcs s i = R_Append t \<Longrightarrow> t \<notin> set (tp_tasks s) \<Longrightarrow>
    moves w i s (gp_cv_signal w (goto i C_Idle (s\<lparr>tp_tasks := tp_tasks s @ [t], pl_subs := pl_subs s @ [t]\<rparr>)))"
| wait_sleep: "pl_pcs s i = T_Lock t \<Longrightarrow> pl_tasks s t = Some k \<Longrightarrow> task_busy k \<noteq> 0 \<Longrightarrow> moves w i s (goto i (T_Sleep t) s)"
| wait_hold: "pl_pcs s i = T_Lock t \<Longrightarrow> pl_tasks s t = Some k \<Longrightarrow> task_mtx k = None \<Longrightarrow> task_busy k = 0 \<Longrightarrow>
    moves w i s (goto i (T_Relock t) (put_task t (k\<lparr>task_mtx := Some i\<rparr>) s))"
| wait_return: "pl_pcs s i = T_Relock t \<Longrightarrow> pl_tasks s t = Some k \<Longrightarrow> task_mtx k = None \<Longrightarrow>
    moves w i s (goto i C_Idle (put_task t (k\<lparr>task_mtx := Some i\<rparr>) s))"
| destroy_sleep: "pl_pcs s i = D_Lock t \<Longrightarrow> pl_tasks s t = Some k \<Longrightarrow> task_busy k \<noteq> 0 \<Longrightarrow> moves w i s (goto i (D_Sleep t) s)"
| destroy_ready: "pl_pcs s i = D_Lock t \<Longrightarrow> pl_tasks s t = Some k \<Longrightarrow> task_mtx k = None \<Longrightarrow> task_busy k = 0 \<Longrightarrow> moves w i s (goto i (D_Free t) s)"
| release: "pl_pcs s i = D_Free t \<Longrightarrow> moves w i s (goto i C_Idle (s\<lparr>pl_tasks := (pl_tasks s)(t := None)\<rparr>))"
| stop: "pl_pcs s i = X_Stop \<Longrightarrow> moves w i s (goto i (X_Finish 0) (gp_cv_wake W_Sleep W_Enter (s\<lparr>tp_run := False\<rparr>)))"
| finish: "pl_pcs s i = X_Finish j \<Longrightarrow> j < tp_nthreads s \<Longrightarrow> moves w i s (gp_thr_manager_finish i j s)"
| finished: "pl_pcs s i = X_Finish j \<Longrightarrow> tp_nthreads s \<le> j \<Longrightarrow> moves w i s (goto i X_Free s)"
| free: "pl_pcs s i = X_Free \<Longrightarrow> moves w i s (goto i C_Idle (s\<lparr>pl_freed := True\<rparr>))"

lemma with_task_Inr: "with_task t s f = Some (Inr s') \<longleftrightarrow> (\<exists>k. pl_tasks s t = Some k \<and> task_mtx k = None \<and> s' = f k)"
  by (auto simp: with_task_def split: option.splits)

lemma with_pool_Inr: "with_pool s r = Some (Inr s') \<longleftrightarrow> \<not> pl_freed s \<and> tp_mtx s = None \<and> s' = r"
  by (auto simp: with_pool_def)

lemma thread_step_moves:
  assumes "thread_step w i s = Some (Inr s')" and "pl_pcs s i = W_Wrap \<Longrightarrow> tm_start (tp_threads s i)"
  shows "moves w i s s'"
proof (cases "pl_pcs s i")
  case W_Head
  then show ?thesis using assms moves.take moves.leave moves.sleep
    by (cases "tp_tasks s") (auto simp: thread_step_def gp_task_thread_def with_task_Inr split: if_splits)
next
  case (W_Done t)
  then obtain k where k: "pl_tasks s t = Some k" "task_mtx k = None"
    "s' = (let busy = task_busy k - 1; s1 = put_task t (k\<lparr>task_busy := busy, task_tmr := None\<rparr>) s;
      s2 = (if busy = 0 then gp_cv_wake (T_Sleep t) (T_Lock t) (gp_cv_wake (D_Sleep t) (D_Lock t) s1) else s1) in goto i W_Enter s2)"
    using assms by (auto simp: thread_step_def gp_task_thread_def with_task_Inr)
  then show ?thesis using moves.report [OF W_Done k(1,2)] moves.report_last [OF W_Done k(1,2)]
    by (cases "task_busy k - 1 = 0") (simp_all add: Let_def)
next
  case (T_Lock t)
  then obtain k where k: "pl_tasks s t = Some k" "task_mtx k = None"
    "s' = (if task_busy k \<noteq> 0 then goto i (T_Sleep t) s else goto i (T_Relock t) (put_task t (k\<lparr>task_mtx := Some i\<rparr>) s))"
    using assms by (auto simp: thread_step_def wait_task_def with_task_Inr)
  then show ?thesis using moves.wait_sleep [OF T_Lock k(1)] moves.wait_hold [OF T_Lock k(1,2)] by simp
next
  case (D_Lock t)
  then obtain k where k: "pl_tasks s t = Some k" "task_mtx k = None"
    "s' = (if task_busy k \<noteq> 0 then goto i (D_Sleep t) s else goto i (D_Free t) s)"
    using assms by (auto simp: thread_step_def destroy_task_def with_task_Inr)
  then show ?thesis using moves.destroy_sleep [OF D_Lock k(1)] moves.destroy_ready [OF D_Lock k(1,2)] by simp
qed (use assms moves.intros in \<open>auto simp: thread_step_def gp_tmr_wrap_def gp_task_thread_def run_task_def wait_task_def destroy_task_def
    destroy_task_processor_def with_task_Inr with_pool_Inr split: if_splits\<close>)

lemmas finish_defs = gp_thr_manager_finish_def gp_cv_signal_def Let_def

lemma lock_inv_moves:
  assumes m: "moves w i s s'" and l: "lock_inv num n s" and i: "i < n"
  shows "lock_inv num n s'"
proof -
  have idle: "pl_pcs s j = C_Idle" if "n \<le> j" for j using l that by (simp add: lock_inv_def)
  have wk: "j < num \<longleftrightarrow> worker_pc (pl_pcs s j)" for j using l unfolding lock_inv_def by (meson not_le)
  have tp: "tp_mtx s = Some j \<longleftrightarrow> pl_pcs s j = W_Head" for j using l by (simp add: lock_inv_def)
  have tm: "pl_tasks s t = Some k \<Longrightarrow> task_mtx k = Some j \<Longrightarrow> pl_pcs s j = T_Relock t"
    "pl_pcs s j = T_Relock t \<Longrightarrow> pl_tasks s t = Some k \<Longrightarrow> task_mtx k = Some j" for t k j using l by (simp_all add: lock_inv_def)
  have nn: "tp_nthreads s = num" using l by (simp add: lock_inv_def)
  show ?thesis
    unfolding lock_inv_def
  proof (intro conjI allI impI)
    show "tp_nthreads s' = num" using m nn by cases (auto simp: finish_defs)
    show "worker_pc (pl_pcs s' j)" if "j < num" for j 
    proof -
      have "worker_pc (pl_pcs s j)" using that wk [of j] by simp
      with m show ?thesis by cases (auto simp: finish_defs)
    qed
    show "\<not> worker_pc (pl_pcs s' j)" if "num \<le> j" for j
    proof -
      have "\<not> worker_pc (pl_pcs s j)" using that wk [of j] by simp
      with m show ?thesis by cases (auto simp: finish_defs)
    qed
    show "pl_pcs s' j = C_Idle" if "n \<le> j" for j using m that idle i by cases (auto simp: finish_defs)
    show "tp_mtx s' = Some j \<longleftrightarrow> pl_pcs s' j = W_Head" for j using m tp [of i] tp [of j] by cases (auto simp: finish_defs)
    show "task_mtx k = Some j \<longleftrightarrow> pl_pcs s' j = T_Relock t" if "pl_tasks s' t = Some k" for j t k
      using m that by cases (auto simp: finish_defs split: if_splits dest: tm)
  qed
qed

lemma stop_invD:
  assumes "stop_inv num s"
  shows "pc_ok num s i (pl_pcs s i)" "i < num \<Longrightarrow> manager_ok s i" "pl_freed s \<Longrightarrow> \<not> tp_run s" "pl_freed s \<Longrightarrow> ended num s"
  using assms unfolding stop_inv_def by blast+

lemma lock_inv_worker: "lock_inv num n s \<Longrightarrow> worker_pc (pl_pcs s i) \<longleftrightarrow> i < num"
  unfolding lock_inv_def by (meson not_le)

lemma W_End_stays: "moves w i s s' \<Longrightarrow> pl_pcs s j = W_End \<Longrightarrow> pl_pcs s' j = W_End"
  by (erule moves.cases) (auto simp: finish_defs)

lemma ended_stays: "moves w i s s' \<Longrightarrow> ended x s \<Longrightarrow> ended x s'"
  using W_End_stays unfolding ended_def by blast

lemma manager_moves:
  assumes m: "moves w i s s'" and l: "lock_inv num n s" and st: "stop_inv num s" and j: "j < num"
  shows "manager_ok s' j"
proof -
  have wi: "worker_pc (pl_pcs s i) \<longleftrightarrow> i < num" "worker_pc (pl_pcs s j)" using lock_inv_worker [OF l] j by blast+
  have "manager_ok s j" "pl_pcs s j \<noteq> W_Wrap_Sleep" using stop_invD(1,2) [OF st, of j] j by auto
  with m show ?thesis using wi j by cases (auto simp: manager_ok_def finish_defs)
qed

lemma submits_moves:
  assumes m: "moves w i s s'" and "submits (pl_pcs s' j)"
  shows "submits (pl_pcs s j)"
  using assms by cases (auto simp: finish_defs split: if_splits)

lemma run_moves:
  assumes m: "moves w i s s'" and st: "stop_inv num s"
  shows "tp_run s' \<longleftrightarrow> tp_run s \<and> pl_pcs s i \<noteq> X_Stop" "\<not> tp_run s \<Longrightarrow> tp_tasks s = [] \<Longrightarrow> tp_tasks s' = []"
proof -
  show "tp_run s' \<longleftrightarrow> tp_run s \<and> pl_pcs s i \<noteq> X_Stop" using m by cases (auto simp: finish_defs)
  show "tp_tasks s' = []" if "\<not> tp_run s" "tp_tasks s = []" using m that stop_invD(1) [OF st, of i] by cases (auto simp: finish_defs)
qed

lemma pc_ok_other:
  assumes m: "moves w i s s'" and l: "lock_inv num n s" and st: "stop_inv num s" and j: "j \<noteq> i" "pl_pcs s' j = pl_pcs s j"
  shows "pc_ok num s' j (pl_pcs s' j)"
proof -
  have ok: "pc_ok num s j (pl_pcs s j)" by (rule stop_invD(1) [OF st])
  show ?thesis
  proof (cases "pl_pcs s j")
    case (X_Sleep x)
    have "pl_pcs s' x \<noteq> W_End"
    proof
      assume e: "pl_pcs s' x = W_End"
      have "pl_pcs s x \<noteq> W_End" using ok X_Sleep by simp
      with m e have "pl_pcs s x = W_Exit \<and> x = i" by cases (auto simp: finish_defs split: if_splits)
      with m have "pl_pcs s' j \<noteq> X_Sleep x" using X_Sleep j(1) e by cases (auto simp: finish_defs)
      then show False using j(2) X_Sleep by simp
    qed
    then show ?thesis using ok X_Sleep j(2) run_moves(1) [OF m st] ended_stays [OF m] by simp
  next
    case X_Stop
    have "\<not> submits (pl_pcs s i)" using ok X_Stop j(1) by auto
    then have "pl_pcs s i \<noteq> X_Stop" by auto
    then show ?thesis using ok X_Stop j(2) run_moves(1) [OF m st] submits_moves [OF m] by auto
  next
    case W_Sleep
    have "pl_pcs s i \<noteq> X_Stop" using m j W_Sleep by cases (auto simp: finish_defs)
    then show ?thesis using ok W_Sleep j(2) run_moves(1) [OF m st] by simp
  next
    case (R_Busy t)
    have "pl_pcs s i \<noteq> X_Stop" using stop_invD(1) [OF st, of i] j R_Busy by auto
    then show ?thesis using ok R_Busy j(2) run_moves(1) [OF m st] by simp
  next
    case (R_Append t)
    have "pl_pcs s i \<noteq> X_Stop" using stop_invD(1) [OF st, of i] j R_Append by auto
    then show ?thesis using ok R_Append j(2) run_moves(1) [OF m st] by simp
  qed (use ok j(2) run_moves [OF m st] ended_stays [OF m] in simp_all)
qed

lemma pc_ok_woken:
  assumes m: "moves w i s s'" and l: "lock_inv num n s" and st: "stop_inv num s" and j: "j \<noteq> i" "pl_pcs s' j \<noteq> pl_pcs s j"
  shows "pc_ok num s' j (pl_pcs s' j)"
  using m j stop_invD(1) [OF st, of j] ended_stays [OF m] by cases (auto simp: finish_defs ended_def split: if_splits)

lemma pc_ok_self:
  assumes m: "moves w i s s'" and l: "lock_inv num n s" and st: "stop_inv num s"
  shows "pc_ok num s' i (pl_pcs s' i)"
proof -
  have "tp_nthreads s = num" "worker_pc (pl_pcs s i) \<longleftrightarrow> i < num" using l lock_inv_worker [OF l] by (simp_all add: lock_inv_def)
  with m show ?thesis using stop_invD(1) [OF st, of i] ended_stays [OF m] stop_invD(2) [OF st]
    by cases (auto simp: finish_defs ended_def manager_ok_def less_Suc_eq split: if_splits)
qed

lemma stop_inv_moves:
  assumes m: "moves w i s s'" and l: "lock_inv num n s" and st: "stop_inv num s"
  shows "stop_inv num s'"
proof -
  have "pc_ok num s' j (pl_pcs s' j)" for j
    using pc_ok_self [OF m l st] pc_ok_other [OF m l st] pc_ok_woken [OF m l st] by (cases "j = i"; cases "pl_pcs s' j = pl_pcs s j") simp_all
  moreover have "pl_freed s' \<longrightarrow> \<not> tp_run s' \<and> ended num s'"
  proof
    assume f: "pl_freed s'"
    have "pl_freed s \<or> pl_pcs s i = X_Free" using m f by cases (auto simp: finish_defs split: if_splits)
    then have "\<not> tp_run s" "ended num s" using stop_invD(3,4) [OF st] stop_invD(1) [OF st, of i] by auto
    then show "\<not> tp_run s' \<and> ended num s'" using run_moves(1) [OF m st] ended_stays [OF m] by simp
  qed
  ultimately show ?thesis using manager_moves [OF m l st] by (simp add: stop_inv_def)
qed

lemma tally_goto_simp: "i < n \<Longrightarrow> tally f n (goto i p s) = tally f n s + f p - f (pl_pcs s i)"
  using tally_goto [of i n f p s] by simp

lemma tally_irrelevant [simp]:
  "tally f n (s\<lparr>tp_tasks := z1\<rparr>) = tally f n s" "tally f n (s\<lparr>tp_mtx := z2\<rparr>) = tally f n s" "tally f n (s\<lparr>tp_run := z3\<rparr>) = tally f n s"
  "tally f n (s\<lparr>tp_threads := z4\<rparr>) = tally f n s" "tally f n (s\<lparr>pl_tasks := z5\<rparr>) = tally f n s" "tally f n (s\<lparr>pl_freed := z6\<rparr>) = tally f n s"
  "tally f n (s\<lparr>pl_subs := z7\<rparr>) = tally f n s" "tally f n (s\<lparr>pl_runs := z8\<rparr>) = tally f n s"
  "tally f n (put_task t k s) = tally f n s" "tally f n (put_manager i m s) = tally f n s"
  by (simp_all add: tally_def)

text \<open>How many users of a task a step adds or takes away.\<close>

lemma in_flight_moves:
  assumes m: "moves w i s s'" and i: "i < n" "num \<le> n" and l: "lock_inv num n s" and st: "stop_inv num s"
  shows "in_flight n s' u = (if pl_pcs s i = W_Done u then in_flight n s u - 1
    else if pl_pcs s i = R_Busy u \<and> pl_pcs s' i = R_Append u then in_flight n s u + 1 else in_flight n s u)"
proof -
  have g: "uses u (pl_pcs s i) \<le> tally (uses u) n s" by (rule tally_ge [OF i(1)])
  have nt: "tp_nthreads s \<le> n" using l i(2) by (simp add: lock_inv_def)
  have ne: "pl_pcs s j \<noteq> W_Wrap_Sleep" for j using stop_invD(1) [OF st, of j] by auto
  from m show ?thesis
  proof cases
    case (append t)
    show ?thesis
    proof (cases "pl_pcs s w = W_Sleep")
      case True
      have "w < n" using lock_inv_worker [OF l, of w] True i(2) by simp
      then show ?thesis using append i(1) g True by (auto simp: in_flight_def finish_defs tally_goto_simp)
    qed (use append i(1) g in \<open>auto simp: in_flight_def finish_defs tally_goto_simp\<close>)
  qed (use i(1) g nt ne in \<open>auto simp: in_flight_def finish_defs tally_goto_simp tally_wake\<close>)
qed

lemma count_list_distinct: "distinct xs \<Longrightarrow> count_list xs x \<le> 1"
  by (induction xs) (auto simp: count_notin)

lemma in_flight_bound:
  assumes "distinct (tp_tasks s)"
  shows "in_flight n s t \<le> Suc n"
proof -
  have "uses t p \<le> 1" for p by (cases p) simp_all
  then have "tally (uses t) n s \<le> (\<Sum>i<n. 1)" unfolding tally_def by (intro sum_mono) blast
  moreover have "count_list (tp_tasks s) t \<le> 1" by (rule count_list_distinct [OF assms])
  ultimately show ?thesis by (simp add: in_flight_def)
qed

text \<open>The counter says whether a task is in use; it does not wrap around with fewer than \<open>2 ^ 32 - 1\<close> threads.\<close>

lemma busy_iff:
  assumes "task_inv owner n s" and "pl_tasks s t = Some k" and "Suc n < 2 ^ 32"
  shows "task_busy k = 0 \<longleftrightarrow> in_flight n s t = 0"
proof -
  have "in_flight n s t < 2 ^ 32" "task_busy k = of_nat (in_flight n s t)"
    using assms in_flight_bound [of s n t] by (auto simp: task_inv_def)
  moreover have "(of_nat (in_flight n s t) :: u32) = 0 \<longleftrightarrow> 2 ^ 32 dvd in_flight n s t" by (simp add: word_of_nat_eq_0_iff)
  ultimately show ?thesis using nat_dvd_not_less [of "in_flight n s t" "2 ^ 32"] by auto
qed

lemma task_invD:
  assumes "task_inv owner n s"
  shows "distinct (tp_tasks s)" "pl_tasks s t = Some k \<Longrightarrow> task_busy k = of_nat (in_flight n s t)"
    "pl_tasks s t = None \<Longrightarrow> in_flight n s t = 0" "client_task (pl_pcs s i) = Some t \<Longrightarrow> owner t = i"
    "client_task (pl_pcs s i) = Some t \<Longrightarrow> pl_tasks s t \<noteq> None"
    "pl_pcs s i = R_Busy t \<or> pl_pcs s i = R_Append t \<Longrightarrow> t \<notin> set (tp_tasks s)"
    "pl_pcs s i = D_Free t \<Longrightarrow> in_flight n s t = 0" "pl_pcs s i = T_Sleep t \<or> pl_pcs s i = D_Sleep t \<Longrightarrow> in_flight n s t \<noteq> 0"
  using assms unfolding task_inv_def by blast+

lemma in_flight_uses: "i < n \<Longrightarrow> uses t (pl_pcs s i) = 1 \<Longrightarrow> 0 < in_flight n s t"
  using tally_ge [of i n "uses t" s] by (simp add: in_flight_def)

lemma in_flight_queue: "t \<in> set (tp_tasks s) \<Longrightarrow> 0 < in_flight n s t"
  by (simp add: in_flight_def count_list_0_iff neq0_conv [symmetric])

text \<open>Two clients never share a task.\<close>

lemma client_unique: "task_inv owner n s \<Longrightarrow> client_task (pl_pcs s i) = Some t \<Longrightarrow> client_task (pl_pcs s j) = Some t \<Longrightarrow> j = i"
  using task_invD(4) by metis

lemma tasks_moves:
  assumes m: "moves w i s s'" and ti: "task_inv owner n s" and i: "i < n"
  shows "pl_tasks s' t = None \<longleftrightarrow> pl_tasks s t = None \<or> pl_pcs s i = D_Free t"
proof -
  have "pl_pcs s i = D_Free u \<Longrightarrow> pl_tasks s' = (pl_tasks s)(u := None)" for u using m by cases (auto simp: finish_defs)
  moreover have "pl_tasks s' t = None \<longleftrightarrow> pl_tasks s t = None" if "\<forall>u. pl_pcs s i \<noteq> D_Free u" using m that by cases (auto simp: finish_defs)
  ultimately show ?thesis by (cases "\<exists>u. pl_pcs s i = D_Free u") auto
qed

lemma busy_moves:
  assumes m: "moves w i s s'" and k: "pl_tasks s' t = Some k'"
  obtains k where "pl_tasks s t = Some k"
    "task_busy k' = (if pl_pcs s i = W_Done t then task_busy k - 1
      else if pl_pcs s i = R_Busy t \<and> pl_pcs s' i = R_Append t then task_busy k + 1 else task_busy k)"
  using m k by cases (auto simp: finish_defs split: if_splits)

lemma client_moves:
  assumes "moves w i s s'" and "client_task (pl_pcs s' j) = Some t"
  shows "client_task (pl_pcs s j) = Some t"
  using assms by cases (auto simp: finish_defs split: if_splits)

lemma queue_moves:
  assumes "moves w i s s'" and "t \<in> set (tp_tasks s')"
  shows "t \<in> set (tp_tasks s) \<or> pl_pcs s i = R_Append t \<and> pl_pcs s' i = C_Idle"
  using assms by cases (auto simp: finish_defs split: if_splits)

lemma task_inv_moves:
  assumes m: "moves w i s s'" and l: "lock_inv num n s" and st: "stop_inv num s" and ti: "task_inv owner n s"
    and i: "i < n" "num \<le> n" and n: "Suc n < 2 ^ 32"
  shows "task_inv owner n s'"
proof -
  note F = in_flight_moves [OF m i l st] and D = task_invD [OF ti] and B = busy_iff [OF ti _ n]
  have done_pos: "0 < in_flight n s t" if "pl_pcs s i = W_Done t" for t using in_flight_uses [OF i(1)] that by simp
  have cl: "owner t = j \<and> pl_tasks s' t \<noteq> None" if c: "client_task (pl_pcs s' j) = Some t" for j t
  proof -
    note c0 = client_moves [OF m c]
    have "pl_pcs s i \<noteq> D_Free t"
    proof
      assume e: "pl_pcs s i = D_Free t"
      then have "j = i" using client_unique [OF ti c0, of i] by simp
      moreover have "pl_pcs s' i = C_Idle" using m e by cases simp_all
      ultimately show False using c by simp
    qed
    then show ?thesis using D(4,5) [OF c0] tasks_moves [OF m ti i(1), of t] by auto
  qed
  show ?thesis
    unfolding task_inv_def
  proof (intro conjI allI impI)
    show "distinct (tp_tasks s')" using m D(1) by cases (auto simp: finish_defs)
    show "task_busy k' = of_nat (in_flight n s' t)" if k': "pl_tasks s' t = Some k'" for t k'
    proof -
      obtain k where k: "pl_tasks s t = Some k" "task_busy k' = (if pl_pcs s i = W_Done t then task_busy k - 1
        else if pl_pcs s i = R_Busy t \<and> pl_pcs s' i = R_Append t then task_busy k + 1 else task_busy k)" by (rule busy_moves [OF m k'])
      then show ?thesis using F [of t] D(2) [OF k(1)] done_pos [of t] by (cases "in_flight n s t") auto
    qed
    show "in_flight n s' t = 0" if t: "pl_tasks s' t = None" for t
    proof -
      have z: "in_flight n s t = 0" using tasks_moves [OF m ti i(1), of t] t D(3,7) by auto
      moreover have "pl_pcs s i \<noteq> W_Done t" using done_pos z by auto
      moreover have "\<not> (pl_pcs s i = R_Busy t \<and> pl_pcs s' i = R_Append t)" using cl [of i t] t by auto
      ultimately show ?thesis using F by simp
    qed
    show "owner t = j" "pl_tasks s' t \<noteq> None" if "client_task (pl_pcs s' j) = Some t" for j t using cl [OF that] by simp_all
    show "t \<notin> set (tp_tasks s')" if p: "pl_pcs s' j = R_Busy t \<or> pl_pcs s' j = R_Append t" for j t
    proof
      assume q: "t \<in> set (tp_tasks s')"
      have c: "client_task (pl_pcs s j) = Some t" using client_moves [OF m, of j t] p by auto
      have "pl_pcs s j = R_Busy t \<or> pl_pcs s j = R_Append t" using m p by cases (auto simp: finish_defs split: if_splits)
      then have "pl_pcs s i = R_Append t" "pl_pcs s' i = C_Idle" using queue_moves [OF m q] D(6) by blast+
      then show False using client_unique [OF ti c, of i] p by auto
    qed
    show "in_flight n s' t = 0" if p: "pl_pcs s' j = D_Free t" for j t
    proof -
      have c: "client_task (pl_pcs s j) = Some t" using client_moves [OF m, of j t] p by simp
      have "pl_pcs s j = D_Free t \<or> (\<exists>k. pl_tasks s t = Some k \<and> task_busy k = 0)" using m p by cases (auto simp: finish_defs split: if_splits)
      then have z: "in_flight n s t = 0" using D(7) B by blast
      moreover have "pl_pcs s i \<noteq> W_Done t" using done_pos z by auto
      moreover have "\<not> (pl_pcs s i = R_Busy t \<and> pl_pcs s' i = R_Append t)" using client_unique [OF ti c, of i] p by auto
      ultimately show ?thesis using F by simp
    qed
    show "in_flight n s' t \<noteq> 0" if p: "pl_pcs s' j = T_Sleep t \<or> pl_pcs s' j = D_Sleep t" for j t
    proof -
      have "pl_pcs s j = T_Sleep t \<or> pl_pcs s j = D_Sleep t \<or> (\<exists>k. pl_tasks s t = Some k \<and> task_busy k \<noteq> 0)"
        using m p by cases (auto simp: finish_defs split: if_splits)
      then have z: "in_flight n s t \<noteq> 0" using D(8) B by blast
      show ?thesis
      proof (cases "pl_pcs s i = W_Done t")
        case True
        from m True p obtain k where k: "pl_tasks s t = Some k" "task_busy k - 1 \<noteq> 0" by cases (simp_all split: if_splits)
        obtain x where x: "in_flight n s t = Suc x" using z by (cases "in_flight n s t") simp_all
        have "task_busy k - 1 = of_nat x" using D(2) [OF k(1)] x by simp
        then have "in_flight n s t - 1 \<noteq> 0" using k(2) x by (cases x) simp_all
        then show ?thesis using F [of t] True by simp
      next
        case False
        then show ?thesis using F [of t] z by auto
      qed
    qed
  qed
qed

lemma log_inv_moves:
  assumes m: "moves w i s s'" and l: "lock_inv num n s" and st: "stop_inv num s" and lg: "log_inv n s" and i: "i < n" "num \<le> n"
  shows "log_inv n s'"
  unfolding log_inv_def
proof
  fix t
  have L: "count_list (pl_subs s) t = count_list (pl_runs s) t + count_list (tp_tasks s) t + tally (calls t) n s" using lg by (simp add: log_inv_def)
  have g: "calls t (pl_pcs s i) \<le> tally (calls t) n s" by (rule tally_ge [OF i(1)])
  have nt: "tp_nthreads s \<le> n" using l i(2) by (simp add: lock_inv_def)
  have ne: "pl_pcs s j \<noteq> W_Wrap_Sleep" for j using stop_invD(1) [OF st, of j] by auto
  have ww: "pl_pcs s w = W_Sleep \<Longrightarrow> w < n" using lock_inv_worker [OF l, of w] i(2) by simp
  from m L show "count_list (pl_subs s') t = count_list (pl_runs s') t + count_list (tp_tasks s') t + tally (calls t) n s'"
    using g nt ne ww i(1) by cases (auto simp: finish_defs tally_goto_simp tally_wake)
qed

lemma heading_inv_moves:
  assumes m: "moves w i s s'" and l: "lock_inv num n s" and st: "stop_inv num s" and aw: "heading_inv n s" and i: "i < n" "num \<le> n"
    and sig: "pl_pcs s w = W_Sleep \<or> (\<forall>j < n. pl_pcs s j \<noteq> W_Sleep)"
  shows "heading_inv n s'"
proof -
  have g: "heading (pl_pcs s i) \<le> tally heading n s" by (rule tally_ge [OF i(1)])
  have nt: "tp_nthreads s \<le> n" using l i(2) by (simp add: lock_inv_def)
  have ne: "pl_pcs s j \<noteq> W_Wrap_Sleep" for j using stop_invD(1) [OF st, of j] by auto
  have ww: "pl_pcs s w = W_Sleep \<Longrightarrow> w < n" using lock_inv_worker [OF l, of w] i(2) by simp
  have nr: "\<not> tp_run s \<Longrightarrow> pl_pcs s j \<noteq> W_Sleep" for j using stop_invD(1) [OF st, of j] by auto
  have A: "j < n \<Longrightarrow> pl_pcs s j = W_Sleep \<Longrightarrow> length (tp_tasks s) \<le> tally heading n s" for j using aw by (auto simp: heading_inv_def)
  show ?thesis
    unfolding heading_inv_def
  proof (intro impI, elim exE conjE)
    fix j assume j: "j < n" "pl_pcs s' j = W_Sleep"
    from m j show "length (tp_tasks s') \<le> tally heading n s'"
      using g nt ne ww i(1) nr A [of j] sig by cases (auto simp: finish_defs tally_goto_simp tally_wake split: if_splits)
  qed
qed

section \<open>Reachable states\<close>

definition pool_inv :: "(nat \<Rightarrow> nat) \<Rightarrow> nat \<Rightarrow> nat \<Rightarrow> pool \<Rightarrow> bool" where
  "pool_inv owner num n s \<longleftrightarrow> lock_inv num n s \<and> stop_inv num s \<and> task_inv owner n s \<and> log_inv n s \<and> heading_inv n s"

lemma pool_inv_thread:
  assumes inv: "pool_inv owner num n s" and r: "thread_step w i s = Some (Inr s')" and i: "i < n" "num \<le> n" and n: "Suc n < 2 ^ 32"
    and sig: "pl_pcs s w = W_Sleep \<or> (\<forall>j < n. pl_pcs s j \<noteq> W_Sleep)"
  shows "pool_inv owner num n s'"
proof -
  note I = inv [unfolded pool_inv_def]
  have l: "lock_inv num n s" and st: "stop_inv num s" using I by blast+
  have "tm_start (tp_threads s i)" if "pl_pcs s i = W_Wrap"
    using stop_invD(2) [OF st, of i] lock_inv_worker [OF l, of i] that by (simp add: manager_ok_def)
  then have m: "moves w i s s'" by (rule thread_step_moves [OF r])
  show ?thesis unfolding pool_inv_def
    using I lock_inv_moves [OF m l i(1)] stop_inv_moves [OF m l st] task_inv_moves [OF m l st _ i n] log_inv_moves [OF m l st _ i]
      heading_inv_moves [OF m l st _ i sig] by blast
qed

text \<open>A client begins a call, or a thread wakes up: the position of one thread changes.\<close>

lemma tally_goto_same: "i < n \<Longrightarrow> f p = f (pl_pcs s i) \<Longrightarrow> tally f n (goto i p s) = tally f n s"
  by (simp add: tally_goto_simp)

lemma pool_inv_goto:
  assumes inv: "pool_inv owner num n s" and i: "i < n"
    and p: "worker_pc p = worker_pc (pl_pcs s i)" "p \<noteq> W_Head" "pl_pcs s i \<noteq> W_Head" "\<And>t. p \<noteq> T_Relock t" "\<And>t. pl_pcs s i \<noteq> T_Relock t"
      "\<And>t. uses t p = uses t (pl_pcs s i)" "\<And>t. calls t p = calls t (pl_pcs s i)" "heading (pl_pcs s i) \<le> heading p"
      "\<And>t. client_task p = Some t \<Longrightarrow> owner t = i \<and> pl_tasks s t \<noteq> None"
      "\<And>t. p = R_Busy t \<or> p = R_Append t \<Longrightarrow> t \<notin> set (tp_tasks s)" "\<And>t. p \<noteq> D_Free t" "\<And>t. p \<noteq> T_Sleep t \<and> p \<noteq> D_Sleep t"
      "pc_ok num s i p" "p \<noteq> W_Sleep" "p \<noteq> W_End" "pl_pcs s i \<noteq> W_End"
      "submits p \<Longrightarrow> \<forall>j < n. pl_pcs s j \<noteq> X_Stop"
  shows "pool_inv owner num n (goto i p s)"
proof -
  note I = inv [unfolded pool_inv_def]
  have l: "lock_inv num n s" and st: "stop_inv num s" and ti: "task_inv owner n s" and lg: "log_inv n s" and aw: "heading_inv n s" using I by blast+
  have fl: "in_flight n (goto i p s) t = in_flight n s t" for t using i p(6) by (simp add: in_flight_def tally_goto_same)
  have "lock_inv num n (goto i p s)" using l i p(1-5) unfolding lock_inv_def by auto
  moreover have "stop_inv num (goto i p s)"
  proof -
    have "pc_ok num (goto i p s) j (pl_pcs (goto i p s) j)" for j
    proof (cases "j = i")
      case True
      show ?thesis using p(13,15,16) i unfolding True by (cases p) (auto simp: ended_def)
    next
      case False
      have idle: "pl_pcs s j = C_Idle" if "\<not> j < n" using l that unfolding lock_inv_def by auto
      have "submits p \<Longrightarrow> pl_pcs s j \<noteq> X_Stop" using p(17) idle by (cases "j < n") auto
      then show ?thesis using stop_invD(1) [OF st, of j] False p(15,16) by (cases "pl_pcs s j") (auto simp: ended_def)
    qed
    moreover have "manager_ok (goto i p s) j" if "j < num" for j using stop_invD(2) [OF st that] p(15,16) by (auto simp: manager_ok_def)
    moreover have "ended num (goto i p s)" if "ended num s" using that p(16) by (auto simp: ended_def)
    ultimately show ?thesis using stop_invD(3,4) [OF st] by (simp add: stop_inv_def)
  qed
  moreover have "task_inv owner n (goto i p s)" using ti p(9-12) unfolding task_inv_def fl by auto
  moreover have "log_inv n (goto i p s)" using lg p(7) i by (simp add: log_inv_def tally_goto_same)
  moreover have "heading_inv n (goto i p s)" using aw p(8,14) i tally_goto [of i n heading p s] by (auto simp: heading_inv_def)
  ultimately show ?thesis by (simp add: pool_inv_def)
qed

lemma init_effect:
  "fold gp_thr_manager_run [0..<m] s = s\<lparr>tp_threads := (\<lambda>i. if i < m then (tp_threads s i)\<lparr>tm_start := True\<rparr> else tp_threads s i)\<rparr>"
  if "\<And>i. pl_pcs s i \<noteq> W_Wrap_Sleep"
proof (induction m)
  case (Suc m)
  then show ?case using that by (auto simp: gp_thr_manager_run_def put_manager_def Let_def fun_eq_iff)
qed simp

lemma pool_inv_init:
  assumes "num \<le> n"
  shows "pool_inv owner num n (init_task_processor num)"
proof -
  let ?s = "init_task_processor num"
  have s: "?s = \<lparr>tp_tasks = [], tp_mtx = None, tp_run = True, tp_nthreads = num,
      tp_threads = (\<lambda>i. if i < num then init_gp_thr_manager\<lparr>tm_start := True\<rparr> else init_gp_thr_manager),
      pl_tasks = Map.empty, pl_pcs = (\<lambda>i. if i < num then W_Wrap else C_Idle), pl_freed = False, pl_subs = [], pl_runs = []\<rparr>"
    unfolding init_task_processor_def by (subst init_effect) (auto simp: fun_eq_iff)
  have z: "f W_Wrap = 0 \<Longrightarrow> f C_Idle = 0 \<Longrightarrow> tally f n ?s = 0" for f by (simp add: s tally_def)
  have "lock_inv num n ?s" using assms by (simp add: s lock_inv_def)
  moreover have "stop_inv num ?s" by (simp add: s stop_inv_def manager_ok_def init_gp_thr_manager_def)
  moreover have "task_inv owner n ?s" using z [of "uses t" for t] by (simp add: task_inv_def in_flight_def) (simp add: s)
  moreover have "log_inv n ?s" using z [of "calls t" for t] by (simp add: log_inv_def) (simp add: s)
  moreover have "heading_inv n ?s" by (simp add: heading_inv_def s)
  ultimately show ?thesis by (simp add: pool_inv_def)
qed

lemma in_flight_put_task [simp]: "in_flight n (put_task t k s) u = in_flight n s u"
  by (simp add: in_flight_def)

lemma pool_inv_create:
  assumes inv: "pool_inv owner num n s" and t: "pl_tasks s t = None"
  shows "pool_inv owner num n (put_task t (init_task cb) s)"
proof -
  note I = inv [unfolded pool_inv_def]
  have l: "lock_inv num n s" and st: "stop_inv num s" and ti: "task_inv owner n s" using I by blast+
  have "pl_pcs s i \<noteq> T_Relock t" for i using task_invD(5) [OF ti, of i t] t by auto
  then have "lock_inv num n (put_task t (init_task cb) s)" using l by (auto simp: lock_inv_def init_task_def)
  moreover have "stop_inv num (put_task t (init_task cb) s)"
  proof -
    have "pc_ok num (put_task t (init_task cb) s) i p = pc_ok num s i p" for i p by (cases p) (simp_all add: ended_def)
    then show ?thesis using st by (simp add: stop_inv_def manager_ok_def ended_def)
  qed
  moreover have "task_inv owner n (put_task t (init_task cb) s)"
    using ti task_invD(3) [OF ti t] by (auto simp: task_inv_def init_task_def)
  ultimately show ?thesis using I by (simp add: pool_inv_def log_inv_def heading_inv_def)
qed

lemma pool_inv_step:
  assumes "pool_step owner n s s'" and inv: "pool_inv owner num n s" and n: "num \<le> n" "Suc n < 2 ^ 32"
  shows "pool_inv owner num n s'"
  using assms(1)
proof cases
  case (step i w)
  then show ?thesis using pool_inv_thread [OF inv _ _ n(1,2)] by blast
next
  case (spurious i p)
  have "pc_ok num s i (pl_pcs s i)" using inv by (simp add: pool_inv_def stop_inv_def)
  moreover have "client_task (pl_pcs s i) = Some t \<Longrightarrow> owner t = i \<and> pl_tasks s t \<noteq> None" for t using inv unfolding pool_inv_def task_inv_def by blast
  ultimately show ?thesis unfolding spurious(1) by (intro pool_inv_goto [OF inv spurious(2)]) (use spurious(3) in \<open>cases "pl_pcs s i"; auto\<close>)+
next
  case (call i c)
  have t: "pl_tasks s t = None \<Longrightarrow> in_flight n s t = 0" for t using inv by (simp add: pool_inv_def task_inv_def)
  show ?thesis
  proof (cases c)
    case (Create_Task t cb)
    then show ?thesis using call pool_inv_create [OF inv] by simp
  next
    case (Run_Task t)
    have "pool_inv owner num n (goto i (R_Busy t) s)" by (rule pool_inv_goto [OF inv call(2)]) (use call(3,5) Run_Task in auto)
    then show ?thesis using call(1) Run_Task by simp
  next
    case (Wait_Task t)
    have "pool_inv owner num n (goto i (T_Lock t) s)" by (rule pool_inv_goto [OF inv call(2)]) (use call(3,5) Wait_Task in auto)
    then show ?thesis using call(1) Wait_Task by simp
  next
    case (Destroy_Task t)
    have "pool_inv owner num n (goto i (D_Lock t) s)" by (rule pool_inv_goto [OF inv call(2)]) (use call(3,5) Destroy_Task in auto)
    then show ?thesis using call(1) Destroy_Task by simp
  next
    case Destroy_Task_Processor
    have idle: "pl_pcs s j = C_Idle" if "\<not> j < n" for j using inv that by (auto simp: pool_inv_def lock_inv_def)
    have "\<not> submits (pl_pcs s j)" for j using call(5) Destroy_Task_Processor idle [of j] by (cases "j < n") auto
    moreover have "\<forall>j < n. pl_pcs s j \<noteq> X_Stop" using call(5) Destroy_Task_Processor by auto
    ultimately have "pool_inv owner num n (goto i X_Stop s)" by (intro pool_inv_goto [OF inv call(2)]) (use call(3,5) Destroy_Task_Processor in auto)
    then show ?thesis using call(1) Destroy_Task_Processor by simp
  qed
qed

lemma reachable_inv:
  assumes "reachable owner num n s" and "num \<le> n" "Suc n < 2 ^ 32"
  shows "pool_inv owner num n s"
  using assms(1)
proof induction
  case init
  show ?case by (rule pool_inv_init [OF assms(2)])
next
  case (next_state s s')
  then show ?case using pool_inv_step assms(2,3) by blast
qed

section \<open>Termination\<close>

text \<open>The work that is left: every step of a thread does some of it.\<close>

fun weight :: "nat \<Rightarrow> nat \<Rightarrow> pc \<Rightarrow> nat" where
  "weight num n W_Wrap = n + 4" | "weight num n W_Wrap_Sleep = 0" | "weight num n W_Enter = n + 3" | "weight num n W_Head = n + 2"
| "weight num n W_Sleep = 0" | "weight num n (W_Call t) = n + 9" | "weight num n (W_Done t) = n + 8" | "weight num n W_Exit = n + 1"
| "weight num n W_End = 0" | "weight num n C_Idle = 0" | "weight num n (R_Busy t) = n + 13" | "weight num n (R_Append t) = n + 12"
| "weight num n (T_Lock t) = 2" | "weight num n (T_Sleep t) = 0" | "weight num n (T_Relock t) = 1"
| "weight num n (D_Lock t) = 2" | "weight num n (D_Sleep t) = 0" | "weight num n (D_Free t) = 1"
| "weight num n X_Stop = n * (n + 3) + 2 * num + 3" | "weight num n (X_Finish j) = 2 * (num - j) + 2"
| "weight num n (X_Sleep j) = 2 * (num - j) + 1" | "weight num n X_Free = 1"

definition work :: "nat \<Rightarrow> nat \<Rightarrow> pool \<Rightarrow> nat" where
  "work num n s = 8 * length (tp_tasks s) + tally (weight num n) n s"

text \<open>Waking threads adds at most as much work as there are threads to wake.\<close>

lemma tally_wake_le:
  assumes "f q \<le> f p + d"
  shows "tally f n (gp_cv_wake p q s) \<le> tally f n s + n * d"
proof -
  have "f (pl_pcs (gp_cv_wake p q s) i) \<le> f (pl_pcs s i) + d" for i using assms by simp
  then have "tally f n (gp_cv_wake p q s) \<le> (\<Sum>i<n. f (pl_pcs s i) + d)" unfolding tally_def by (intro sum_mono)
  then show ?thesis by (simp add: tally_def sum.distrib)
qed

lemma tally_wake_one:
  assumes "f q \<le> f p + d" and "\<And>i j. i < n \<Longrightarrow> j < n \<Longrightarrow> pl_pcs s i = p \<Longrightarrow> pl_pcs s j = p \<Longrightarrow> i = j"
  shows "tally f n (gp_cv_wake p q s) \<le> tally f n s + d"
proof (cases "\<exists>i < n. pl_pcs s i = p")
  case True
  then obtain i where i: "i < n" "pl_pcs s i = p" by blast
  have "tally f n (gp_cv_wake p q s) = tally f n (goto i q s)"
    by (rule tally_cong) (use assms(2) i in auto)
  then show ?thesis using tally_goto [OF i(1), of f q s] assms(1) i(2) by simp
next
  case False
  then have "tally f n (gp_cv_wake p q s) = tally f n s" by (intro tally_cong) auto
  then show ?thesis by simp
qed

lemma work_decreases:
  assumes m: "moves w i s s'" and inv: "pool_inv owner num n s" and i: "i < n" "num \<le> n"
  shows "work num n s' < work num n s"
proof -
  note I = inv [unfolded pool_inv_def]
  have l: "lock_inv num n s" and st: "stop_inv num s" and ti: "task_inv owner n s" using I by blast+
  let ?f = "weight num n"
  have g: "?f (pl_pcs s i) \<le> tally ?f n s" by (rule tally_ge [OF i(1)])
  have nt: "tp_nthreads s = num" using l by (simp add: lock_inv_def)
  have ne: "pl_pcs s j \<noteq> W_Wrap_Sleep" for j using stop_invD(1) [OF st, of j] by auto
  have ww: "pl_pcs s w = W_Sleep \<Longrightarrow> w < n" using lock_inv_worker [OF l, of w] i(2) by simp
  from m show ?thesis
  proof cases
    case ended
    let ?s = "goto i W_End (put_manager i ((tp_threads s i)\<lparr>tm_done := True\<rparr>) s)"
    have "tally ?f n (gp_cv_wake (X_Sleep i) (X_Finish i) ?s) \<le> tally ?f n ?s + n * 1" by (rule tally_wake_le) simp
    then show ?thesis using ended g i by (simp add: work_def tally_goto_simp)
  next
    case (report_last t k)
    let ?s = "put_task t (k\<lparr>task_busy := 0, task_tmr := None\<rparr>) s"
    let ?s1 = "gp_cv_wake (D_Sleep t) (D_Lock t) ?s" let ?s2 = "gp_cv_wake (T_Sleep t) (T_Lock t) ?s1"
    have "tally ?f n ?s1 \<le> tally ?f n ?s + 2" using client_unique [OF ti, of _ t] by (intro tally_wake_one) auto
    moreover have "tally ?f n ?s2 \<le> tally ?f n ?s1 + 2" using client_unique [OF ti, of _ t] by (intro tally_wake_one) (auto split: if_splits)
    moreover have "pl_pcs ?s2 i = W_Done t" using report_last by simp
    ultimately show ?thesis using report_last g i tally_goto [OF i(1), of ?f W_Enter ?s2] by (simp add: work_def)
  next
    case (append t)
    then show ?thesis using g i ww by (auto simp: work_def finish_defs tally_goto_simp)
  next
    case stop
    let ?s = "s\<lparr>tp_run := False\<rparr>"
    have "tally ?f n (gp_cv_wake W_Sleep W_Enter ?s) \<le> tally ?f n ?s + n * (n + 3)" by (rule tally_wake_le) simp
    moreover have "pl_pcs (gp_cv_wake W_Sleep W_Enter ?s) i = X_Stop" using stop by simp
    ultimately show ?thesis using stop g i tally_goto [OF i(1), of ?f "X_Finish 0" "gp_cv_wake W_Sleep W_Enter ?s"] by (simp add: work_def)
  next
    case (finish j)
    then show ?thesis using g i nt ne by (auto simp: work_def finish_defs tally_goto_simp)
  qed (use g i nt in \<open>auto simp: work_def tally_goto_simp\<close>)
qed

section \<open>Progress\<close>

fun waits :: "nat \<Rightarrow> pc \<Rightarrow> bool" where
  "waits t (T_Lock u) \<longleftrightarrow> u = t" | "waits t (T_Sleep u) \<longleftrightarrow> u = t" | "waits t (T_Relock u) \<longleftrightarrow> u = t" | "waits t _ \<longleftrightarrow> False"

text \<open>No access to freed memory, no task put into the queue twice.\<close>

lemma step_safe:
  assumes inv: "pool_inv owner num n s" and i: "i < n"
  shows "thread_step w i s \<noteq> Some (Inl e)"
proof -
  note I = inv [unfolded pool_inv_def]
  have l: "lock_inv num n s" and st: "stop_inv num s" and ti: "task_inv owner n s" using I by blast+
  have ex: "pl_tasks s t \<noteq> None" if "0 < in_flight n s t" for t using task_invD(3) [OF ti, of t] that by auto
  have q: "\<exists>k. pl_tasks s t = Some k" if "tp_tasks s = t # ts" for t ts using ex [of t] in_flight_queue [of t s n] that by auto
  have u: "\<exists>k. pl_tasks s t = Some k" if "pl_pcs s i = W_Done t" for t using ex [of t] in_flight_uses [OF i, of t s] that by auto
  have cl: "\<exists>k. pl_tasks s t = Some k" if "client_task (pl_pcs s i) = Some t" for t using task_invD(5) [OF ti that] by blast
  have fr: "\<not> pl_freed s" if "worker_pc (pl_pcs s i)" "pl_pcs s i \<noteq> W_End"
    using stop_invD(4) [OF st] lock_inv_worker [OF l, of i] that by (auto simp: ended_def)
  have nr: "\<not> pl_freed s" if "submits (pl_pcs s i)" using stop_invD(1,3) [OF st] that by (cases "pl_pcs s i") (metis pc_ok.simps submits.simps)+
  have ap: "t \<notin> set (tp_tasks s)" if "pl_pcs s i = R_Append t" for t using task_invD(6) [OF ti] that by blast
  show ?thesis
    using q u cl fr nr ap by (cases "pl_pcs s i") (auto simp: thread_step_def gp_tmr_wrap_def gp_task_thread_def run_task_def wait_task_def destroy_task_def
      destroy_task_processor_def with_task_def with_pool_def split: list.splits option.splits if_splits)
qed

lemma free_task:
  assumes l: "lock_inv num n s" and nw: "\<And>i t. \<not> waits t (pl_pcs s i)" and t: "pl_tasks s t \<noteq> None"
  shows "\<exists>k. pl_tasks s t = Some k \<and> task_mtx k = None"
proof -
  obtain k where k: "pl_tasks s t = Some k" using t by blast
  have "pl_pcs s j \<noteq> T_Relock t" for j using nw [of t j] by auto
  then have "task_mtx k \<noteq> Some j" for j using l k unfolding lock_inv_def by blast
  then show ?thesis using k by (cases "task_mtx k") auto
qed

lemma head_enabled:
  assumes inv: "pool_inv owner num n s" and nw: "\<And>i t. \<not> waits t (pl_pcs s i)" and h: "pl_pcs s j = W_Head"
  shows "thread_step w j s \<noteq> None"
proof (cases "tp_tasks s")
  case (Cons t ts)
  have l: "lock_inv num n s" and ti: "task_inv owner n s" using inv by (simp_all add: pool_inv_def)
  have "pl_tasks s t \<noteq> None" using task_invD(3) [OF ti, of t] in_flight_queue [of t s n] Cons by auto
  from free_task [OF l nw this] show ?thesis using h Cons by (auto simp: thread_step_def gp_task_thread_def with_task_def)
qed (use h in \<open>simp add: thread_step_def gp_task_thread_def\<close>)

lemma worker_enabled:
  assumes inv: "pool_inv owner num n s" and nw: "\<And>i t. \<not> waits t (pl_pcs s i)" and mtx: "tp_mtx s = None"
    and j: "worker_pc (pl_pcs s j)" "pl_pcs s j \<noteq> W_Sleep" "pl_pcs s j \<noteq> W_End" "j < n"
  shows "thread_step w j s \<noteq> None"
proof -
  have l: "lock_inv num n s" and st: "stop_inv num s" and ti: "task_inv owner n s" using inv by (simp_all add: pool_inv_def)
  show ?thesis
  proof (cases "pl_pcs s j")
    case (W_Done t)
    have "pl_tasks s t \<noteq> None" using task_invD(3) [OF ti, of t] in_flight_uses [OF j(4), of t s] W_Done by auto
    from free_task [OF l nw this] show ?thesis using W_Done by (auto simp: thread_step_def gp_task_thread_def with_task_def)
  next
    case W_Wrap_Sleep
    then show ?thesis using stop_invD(1) [OF st, of j] by simp
  next
    case W_Head
    then show ?thesis by (rule head_enabled [OF inv nw])
  qed (use j mtx in \<open>auto simp: thread_step_def gp_tmr_wrap_def gp_task_thread_def with_pool_def\<close>)
qed

lemma client_enabled:
  assumes inv: "pool_inv owner num n s" and nw: "\<And>i t. \<not> waits t (pl_pcs s i)" and mtx: "tp_mtx s = None"
    and j: "\<not> worker_pc (pl_pcs s j)" "pl_pcs s j \<noteq> C_Idle" "\<And>t. pl_pcs s j \<noteq> D_Sleep t" "\<And>x. pl_pcs s j \<noteq> X_Sleep x"
  shows "thread_step w j s \<noteq> None"
proof -
  have l: "lock_inv num n s" and st: "stop_inv num s" and ti: "task_inv owner n s" using inv by (simp_all add: pool_inv_def)
  have k: "\<exists>k. pl_tasks s t = Some k \<and> task_mtx k = None" if "client_task (pl_pcs s j) = Some t" for t
    using free_task [OF l nw task_invD(5) [OF ti that]] .
  show ?thesis
  proof (cases "pl_pcs s j")
    case (R_Busy t)
    then show ?thesis using k [of t] by (auto simp: thread_step_def run_task_def with_task_def)
  next
    case (R_Append t)
    then show ?thesis using mtx by (simp add: thread_step_def run_task_def with_pool_def)
  next
    case (D_Lock t)
    then show ?thesis using k [of t] by (auto simp: thread_step_def destroy_task_def with_task_def)
  qed (use j nw [of _ j] mtx in \<open>auto simp: thread_step_def destroy_task_def destroy_task_processor_def with_pool_def\<close>)
qed

lemma quiet_done:
  assumes inv: "pool_inv owner num n s" and n: "num \<le> n" "0 < num" and nw: "\<And>i t. \<not> waits t (pl_pcs s i)"
    and stuck: "\<And>i w. i < n \<Longrightarrow> thread_step w i s = None"
  shows "tp_tasks s = []" and "\<And>i. num \<le> i \<Longrightarrow> pl_pcs s i = C_Idle" and "count_list (pl_subs s) t = count_list (pl_runs s) t"
proof -
  have l: "lock_inv num n s" and st: "stop_inv num s" and ti: "task_inv owner n s" and lg: "log_inv n s" and aw: "heading_inv n s"
    using inv by (simp_all add: pool_inv_def)
  have wk: "worker_pc (pl_pcs s j) \<longleftrightarrow> j < num" for j by (rule lock_inv_worker [OF l])
  have "pl_pcs s j \<noteq> W_Head" for j using head_enabled [OF inv nw, of j] stuck [of j] wk [of j] n(1) by auto
  then have mtx: "tp_mtx s = None" using l unfolding lock_inv_def by (cases "tp_mtx s") auto
  have worker: "pl_pcs s j = W_Sleep \<or> pl_pcs s j = W_End" if j: "j < num" for j
    using worker_enabled [OF inv nw mtx, of j] stuck [of j] wk [of j] j n(1) by auto
  have client: "pl_pcs s j = C_Idle \<or> (\<exists>t. pl_pcs s j = D_Sleep t) \<or> (\<exists>x. pl_pcs s j = X_Sleep x)" if j: "\<not> j < num" for j
  proof (cases "j < n")
    case True
    then show ?thesis using client_enabled [OF inv nw mtx, of j] stuck [OF True] wk [of j] j by blast
  qed (use l in \<open>simp add: lock_inv_def\<close>)
  have z: "heading (pl_pcs s j) = 0" "uses t (pl_pcs s j) = 0" "calls t (pl_pcs s j) = 0" for j t
    using worker [of j] client [of j] by (cases "j < num"; auto)+
  show tasks: "tp_tasks s = []"
  proof (cases "\<exists>j < num. pl_pcs s j = W_Sleep")
    case True
    then have "length (tp_tasks s) \<le> tally heading n s" using aw n(1) unfolding heading_inv_def by (meson less_le_trans)
    then show ?thesis using z(1) by (simp add: tally_def)
  next
    case False
    then have "pl_pcs s 0 = W_End" using worker n(2) by blast
    then show ?thesis using stop_invD(1) [OF st, of 0] by simp
  qed
  have fl: "in_flight n s u = 0" for u using tasks z(2) by (simp add: in_flight_def tally_def)
  show "pl_pcs s j = C_Idle" if j: "num \<le> j" for j
  proof -
    have "pl_pcs s j \<noteq> D_Sleep u" for u using fl [of u] task_invD(8) [OF ti, of j u] by auto
    moreover have "pl_pcs s j \<noteq> X_Sleep x" for x
      using stop_invD(1) [OF st, of j] worker [of x] stop_invD(1) [OF st, of x] by auto
    ultimately show ?thesis using client [of j] j by auto
  qed
  show "count_list (pl_subs s) t = count_list (pl_runs s) t" using lg z(3) tasks by (simp add: log_inv_def tally_def)
qed

section \<open>Properties\<close>

text \<open>A step of a thread, without new calls or spurious wakeups.\<close>

definition internal :: "nat \<Rightarrow> pool \<Rightarrow> pool \<Rightarrow> bool" where
  "internal n s s' \<longleftrightarrow>
     (\<exists>i < n. \<exists>w < n. (pl_pcs s w = W_Sleep \<or> (\<forall>j < n. pl_pcs s j \<noteq> W_Sleep)) \<and> thread_step w i s = Some (Inr s'))"

lemma thread_step_blocked: "thread_step w i s = None \<Longrightarrow> thread_step v i s = None"
  by (cases "pl_pcs s i") (auto simp: thread_step_def run_task_def with_task_def with_pool_def split: if_splits option.splits)

lemma not_internal:
  assumes inv: "pool_inv owner num n s" and no: "\<nexists>s'. internal n s s'" and i: "i < n"
  shows "thread_step v i s = None"
proof (rule ccontr)
  assume "thread_step v i s \<noteq> None"
  moreover obtain w where w: "w < n" "pl_pcs s w = W_Sleep \<or> (\<forall>j < n. pl_pcs s j \<noteq> W_Sleep)" using i by blast
  ultimately obtain r where r: "thread_step w i s = Some r" using thread_step_blocked [of w i s v] by (cases "thread_step w i s") auto
  obtain s' where "r = Inr s'" using step_safe [OF inv i, of w] r by (cases r) auto
  then show False using no r w i unfolding internal_def by blast
qed

lemma waits_moves:
  assumes m: "moves w i s s'" and l: "lock_inv num n s"
  shows "waits t (pl_pcs s' j) \<longleftrightarrow> waits t (pl_pcs s j)"
proof -
  have "pl_tasks s u = Some k \<Longrightarrow> pl_pcs s i = T_Relock u \<Longrightarrow> task_mtx k = Some i" for u k using l by (simp add: lock_inv_def)
  with m show ?thesis by cases (auto simp: finish_defs)
qed

lemma internal_moves:
  assumes "pool_inv owner num n s" and "internal n s s'"
  obtains w i where "moves w i s s'" "i < n" "pl_pcs s w = W_Sleep \<or> (\<forall>j < n. pl_pcs s j \<noteq> W_Sleep)" "thread_step w i s = Some (Inr s')"
proof -
  obtain i w where r: "i < n" "pl_pcs s w = W_Sleep \<or> (\<forall>j < n. pl_pcs s j \<noteq> W_Sleep)" "thread_step w i s = Some (Inr s')"
    using assms(2) unfolding internal_def by blast
  have "tm_start (tp_threads s i)" if "pl_pcs s i = W_Wrap"
    using assms(1) stop_invD(2) [of num s i] lock_inv_worker [of num n s i] that by (simp add: pool_inv_def manager_ok_def)
  then show thesis using that r thread_step_moves [OF r(3)] by blast
qed

lemma internal_steps:
  assumes "pool_inv owner num n s" and "num \<le> n" "Suc n < 2 ^ 32" and "\<And>i t. \<not> waits t (pl_pcs s i)" and "(internal n ^^ k) s s'"
  shows "pool_inv owner num n s' \<and> (\<forall>i t. \<not> waits t (pl_pcs s' i)) \<and> k + work num n s' \<le> work num n s"
  using assms(5)
proof (induction k arbitrary: s')
  case (Suc k)
  then obtain s1 where s1: "(internal n ^^ k) s s1" "internal n s1 s'" by auto
  have I: "pool_inv owner num n s1" "\<And>i t. \<not> waits t (pl_pcs s1 i)" "k + work num n s1 \<le> work num n s" using Suc.IH [OF s1(1)] by blast+
  obtain w i where m: "moves w i s1 s'" "i < n" "pl_pcs s1 w = W_Sleep \<or> (\<forall>j < n. pl_pcs s1 j \<noteq> W_Sleep)" "thread_step w i s1 = Some (Inr s')"
    by (rule internal_moves [OF I(1) s1(2)])
  have l: "lock_inv num n s1" using I(1) by (simp add: pool_inv_def)
  show ?case using pool_inv_thread [OF I(1) m(4,2) assms(2,3) m(3)] waits_moves [OF m(1) l] I(2,3) work_decreases [OF m(1) I(1) m(2) assms(2)] by auto
qed (use assms in auto)

text \<open>
  C12. In every reachable state, however the threads are interleaved, no step of a worker or client uses a task or
  a pool that has been freed, and no task is put into the queue while it is in it, as long as a task belongs to one
  client and is not submitted again while it waits. The 32 bit busy counter does not wrap around with fewer than
  \<open>2 ^ 32 - 1\<close> threads.
\<close>

theorem pool_accesses_are_safe:
  assumes "reachable owner num n s" and "num \<le> n" and "Suc n < 2 ^ 32" and "i < n"
  shows "thread_step w i s \<noteq> Some (Inl e)"
  by (rule step_safe [OF reachable_inv [OF assms(1-3)] assms(4)])

text \<open>
  C11. The pool drains: without new calls the threads can take at most \<open>work num n s\<close> steps from a reachable
  state, and where they can take no further one the queue is empty, every call of \<open>run_task\<close>, \<open>destroy_task\<close> and
  \<open>destroy_task_processor\<close> has returned, and every task has been executed as often as it was submitted. In
  particular no signal is lost. Clients inside \<open>wait_task\<close> are excluded.
\<close>

theorem pool_drains:
  assumes "reachable owner num n s" and "0 < num" and "num \<le> n" and "Suc n < 2 ^ 32"
    and "\<And>i t. \<not> waits t (pl_pcs s i)" and "(internal n ^^ k) s s'"
  shows "k \<le> work num n s \<and> ((\<nexists>s''. internal n s' s'') \<longrightarrow>
    tp_tasks s' = [] \<and> (\<forall>i \<ge> num. pl_pcs s' i = C_Idle) \<and> (\<forall>t. count_list (pl_runs s') t = count_list (pl_subs s') t))"
proof -
  have I: "pool_inv owner num n s'" "\<And>i t. \<not> waits t (pl_pcs s' i)" "k + work num n s' \<le> work num n s"
    using internal_steps [OF reachable_inv [OF assms(1,3,4)] assms(3-6)] by blast+
  have "tp_tasks s' = [] \<and> (\<forall>i \<ge> num. pl_pcs s' i = C_Idle) \<and> (\<forall>t. count_list (pl_runs s') t = count_list (pl_subs s') t)"
    if "\<nexists>s''. internal n s' s''"
    using quiet_done [OF I(1) assms(3,2) I(2) not_internal [OF I(1) that]] by simp
  then show ?thesis using I(3) by simp
qed

text \<open>
  C36. A client that has called \<open>wait_task\<close> is inside it in every later state: once the task is no longer busy the
  function locks the mutex that it holds already, where it means to unlock it.
\<close>

theorem wait_task_never_returns:
  assumes "reachable owner num n s" and "num \<le> n" and "Suc n < 2 ^ 32" and "waits t (pl_pcs s i)" and "(pool_step owner n)\<^sup>*\<^sup>* s s'"
  shows "waits t (pl_pcs s' i)"
proof -
  have "reachable owner num n s' \<and> waits t (pl_pcs s' i)"
    using assms(5)
  proof induction
    case (step s' s'')
    then have r: "reachable owner num n s'" and w: "waits t (pl_pcs s' i)" by blast+
    note inv = reachable_inv [OF r assms(2,3)]
    have l: "lock_inv num n s'" using inv by (simp add: pool_inv_def)
    from step(2) have "waits t (pl_pcs s'' i)"
    proof cases
      case (step j v)
      then have "internal n s' s''" unfolding internal_def by blast
      then obtain v' j' where "moves v' j' s' s''" by (rule internal_moves [OF inv])
      then show ?thesis using waits_moves [OF _ l] w by blast
    next
      case (call j c)
      then have "j \<noteq> i" using w by auto
      then show ?thesis using w call(1) by (cases c) auto
    next
      case (spurious j p)
      then show ?thesis using w by (cases "j = i"; cases "pl_pcs s' i") auto
    qed
    then show ?case using r step(2) reachable.next_state by blast
  qed (use assms(1,4) in simp)
  then show ?thesis by blast
qed

text \<open>One worker, one client, one task that has been submitted.\<close>

definition sample_pool :: pool where
  "sample_pool = init_task_processor 1"

definition sample_created :: pool where
  "sample_created = begin_call 1 (Create_Task 0 True) sample_pool"

definition sample_submitted :: pool where
  "sample_submitted = begin_call 1 (Run_Task 0) sample_created"

text \<open>The threads in \<open>is\<close> take their steps in this order; a signal wakes worker \<open>0\<close>.\<close>

fun run_threads :: "nat list \<Rightarrow> pool \<Rightarrow> pool option" where
  "run_threads [] s = Some s"
| "run_threads (i # is) s =
     (case thread_step 0 i s of
        Some (Inr s') \<Rightarrow> if i < 2 \<and> (pl_pcs s 0 = W_Sleep \<or> pl_pcs s 1 \<noteq> W_Sleep) then run_threads is s' else None
      | _ \<Rightarrow> None)"

definition sample_drained :: pool where
  "sample_drained = the (run_threads [1, 1, 0, 0, 0, 0, 0, 0, 0] sample_submitted)"

lemma sample_created_eq: "sample_created = put_task 0 (init_task True) sample_pool"
  by (simp add: sample_created_def)

lemma sample_init: "pl_pcs sample_pool = (\<lambda>i. if i = 0 then W_Wrap else C_Idle)" "pl_tasks sample_pool = Map.empty"
  "tp_tasks sample_pool = []" "tp_run sample_pool" "\<not> pl_freed sample_pool"
  by (simp_all add: sample_pool_def init_task_processor_def gp_thr_manager_run_def put_manager_def Let_def fun_eq_iff)

lemma sample_reachable: "reachable (\<lambda>_. 1) 1 2 sample_created" "reachable (\<lambda>_. 1) 1 2 sample_submitted"
proof -
  have "pool_step (\<lambda>_. 1) 2 sample_pool sample_created" unfolding sample_created_def
    by (rule pool_step.call) (simp_all add: sample_init)
  then show c: "reachable (\<lambda>_. 1) 1 2 sample_created" using reachable.next_state [OF reachable.init] unfolding sample_pool_def by blast
  have "pool_step (\<lambda>_. 1) 2 sample_created sample_submitted" unfolding sample_submitted_def
    by (rule pool_step.call) (auto simp: sample_created_eq sample_init)
  then show "reachable (\<lambda>_. 1) 1 2 sample_submitted" by (rule reachable.next_state [OF c])
qed

lemma run_threads_internal: "run_threads is s = Some s' \<Longrightarrow> (internal 2 ^^ length is) s s'"
proof (induction "is" s rule: run_threads.induct)
  case (2 i "is" s)
  then obtain s1 where s1: "thread_step 0 i s = Some (Inr s1)" "i < 2" "pl_pcs s 0 = W_Sleep \<or> pl_pcs s 1 \<noteq> W_Sleep" "run_threads is s1 = Some s'"
    by (auto split: option.splits sum.splits if_splits)
  have "internal 2 s s1" unfolding internal_def using s1(1-3) less_2_cases
    by (intro exI [of _ i] exI [of _ 0] conjI) (auto dest!: less_2_cases)
  moreover have "(internal 2 ^^ length is) s1 s'" using 2 s1 by simp
  ultimately show ?case using relpowp_Suc_I2 [of "internal 2"] by simp
qed simp

lemma drained_run: "run_threads [1, 1, 0, 0, 0, 0, 0, 0, 0] sample_submitted = Some sample_drained"
  "pl_pcs sample_drained 0 = W_Sleep" "pl_pcs sample_drained (Suc 0) = C_Idle" "pl_runs sample_drained = [0]"
  by (simp_all add: sample_drained_def sample_submitted_def sample_created_def sample_pool_def init_task_processor_def gp_thr_manager_run_def
    put_manager_def init_gp_thr_manager_def put_task_def init_task_def goto_def thread_step_def gp_tmr_wrap_def gp_task_thread_def run_task_def with_task_def with_pool_def
    gp_cv_signal_def gp_cv_wake_def Let_def)

lemma sample_drained_stuck: "\<nexists>s. internal 2 sample_drained s"
  unfolding internal_def by (auto dest!: less_2_cases simp: thread_step_def drained_run(2,3))
theorem pool_accesses_are_safe_witness: "thread_step 0 1 sample_submitted \<noteq> Some (Inl UseAfterFree)"
  by (rule pool_accesses_are_safe [OF sample_reachable(2)]) simp_all

theorem pool_drains_witness:
  "9 \<le> work 1 2 sample_submitted \<and> tp_tasks sample_drained = [] \<and> pl_pcs sample_drained 1 = C_Idle \<and>
    count_list (pl_runs sample_drained) 0 = count_list (pl_subs sample_drained) 0"
proof -
  have "\<not> waits t (pl_pcs sample_submitted i)" for i t by (simp add: sample_submitted_def sample_created_eq sample_init)
  from pool_drains [OF sample_reachable(2) _ _ _ this run_threads_internal [OF drained_run(1)]] sample_drained_stuck
  show ?thesis by simp
qed

theorem wait_task_never_returns_witness: "waits 0 (pl_pcs (begin_call 1 (Wait_Task 0) sample_created) 1)"
proof -
  have s: "pool_step (\<lambda>_. 1) 2 sample_created (begin_call 1 (Wait_Task 0) sample_created)"
    by (rule pool_step.call) (simp_all add: sample_created_eq sample_init)
  show ?thesis by (rule wait_task_never_returns [OF reachable.next_state [OF sample_reachable(1) s] _ _ _ rtranclp.rtrancl_refl]) simp_all
qed

end
