(* ===== verification/Spec2Isabelle.thy ===== *)
theory Spec2Isabelle
  imports Gp_Buffer Gp_Hash Gp_Dict_Iter_Correct Gp_Codec Gp_Ipc Gp_Ring Gp_List Gp_Timer Gp_Conf_Correct Gp_Yaml_Correct Gp_Client_Correct Gp_Sock Gp_Module Gp_Atomic Gp_Net_Correct Gp_Ipc_Server Gp_Ssl_Correct Gp_Pool_Correct
begin

text \<open>
  A verification library for the C network components under \<open>src/base\<close> (declarations in \<open>src/include/gp.h\<close>).

  \<^bold>\<open>The program.\<close> A server (\<open>gp_server.c\<close>) listens through an acceptor (\<open>gp_acceptor.c\<close>) and keeps its
  connections (\<open>gp_conn.c\<close>) in a hash table (\<open>gp_dict.c\<close>, hashing with \<open>gp_hash.c\<close>). An event loop
  (\<open>gp_loop.c\<close>) waits with epoll (\<open>gp_epoller.c\<close>) for events of handlers (\<open>gp_handler.c\<close>), calls their
  callbacks, runs timers (\<open>gp_timer.c\<close>) and the tasks that callbacks and other threads have queued
  (\<open>gp_pending_task.c\<close>). Connections read into and write from byte buffers (\<open>gp_buffer.c\<close>); an IPC server
  (\<open>gp_ipc_server.c\<close>) frames protobuf messages (\<open>gp_codec.c\<close>) and dispatches them by name
  (\<open>gp_msg_dispatcher.c\<close>). Intrusive lists (\<open>gp_list.c\<close>) carry the queues. Beside this stand a configuration
  tree (\<open>gp_conf.c\<close>) with its YAML loader (\<open>gp_conf_yaml_loader.c\<close>), a ring buffer (\<open>gp_ringbuffer.c\<close>),
  threads and a thread pool (\<open>gp_thread.c\<close>, \<open>gp_threadpool.c\<close>), a blocking client, a TLS server and modules.

  \<^bold>\<open>Conventions.\<close> A definition carries the name of the C function it translates; a leading underscore is
  dropped. Structures are records, enumerations are datatypes, fixed-width integers are words. An access outside
  a block, through NULL or to freed memory, \<open>abort\<close> and an arithmetic overflow of a signed integer are errors:
  an operation that can fail returns \<open>'a res\<close>, the sum of \<open>cerror\<close> and the result. A loop that is not
  structural takes fuel or is a \<open>function\<close> with a termination proof; where fuel is taken, theorems say how much
  suffices. Code that is not part of the repository is a parameter: \<open>pack\<close> and \<open>unpack\<close> of protobuf-c,
  \<open>random\<close>, the events of libyaml, the answers of the operating system, the callbacks of the application.

  \<^bold>\<open>Theories.\<close>
  \<^item> \<open>Prelude\<close>: errors, integer conversions, byte order, lemmas on lists, maps and words.
  \<^item> \<open>Gp_Buffer\<close> (\<open>gp_buffer.c\<close>): the buffer as a block with two indices. Any sequence of operations behaves as
    a byte string and stays inside the block; integers are read back; \<open>buffer_read_fd\<close> appends what \<open>readv\<close>
    delivers.
  \<^item> \<open>Gp_Hash\<close> (\<open>gp_hash.c\<close>): SipHash and its case-insensitive variant.
  \<^item> \<open>Gp_Dict\<close>, \<open>Gp_Dict_Correct\<close> (\<open>gp_dict.c\<close>): the chained hash table with two tables and incremental
    rehashing refines a finite map under any sequence of operations, through a locale of dictionary types that is
    interpreted on all six of them. \<open>Gp_Dict_Iter\<close>, \<open>Gp_Dict_Iter_Correct\<close>: iterators, samples and
    \<open>dictScan\<close>, which passes every key that stays in the table to its callback however the table is resized
    between the calls.
  \<^item> \<open>Gp_Codec\<close> (\<open>gp_codec.c\<close>), \<open>Gp_Ipc\<close> (\<open>gp_ipc_server.c\<close>, \<open>gp_msg_dispatcher.c\<close>): frames are decoded
    to what was encoded, incomplete ones wait, malformed ones are answered by \<open>abort\<close>.
  \<^item> \<open>Gp_Ring\<close> (\<open>gp_ringbuffer.c\<close>): a bounded queue when the size is a power of two, which the size
    computation makes of it only for a capacity of at most one.
  \<^item> \<open>Gp_List\<close> (\<open>gp_list.c\<close>): the pointer structure refines a sequence.
  \<^item> \<open>Gp_Timer\<close> (\<open>gp_timer.c\<close>, the timers of \<open>gp_loop.c\<close>): the hierarchical wheel fires each timer at its tick,
    when the timers have their loop, as the loop's own function sets it; the specification is a list of timers
    with their expiries.
  \<^item> \<open>Gp_Conf\<close>, \<open>Gp_Conf_Correct\<close> (\<open>gp_conf.c\<close>): the tree refines a map from key paths to values and final
    flags; pruning, dumping, conversions and include paths.
  \<^item> \<open>Gp_Poll\<close> (\<open>gp_handler.c\<close>, \<open>gp_epoller.c\<close>): the registration state of handlers and the interest list of
    the kernel agree after any sequence of operations.
  \<^item> \<open>Gp_Net\<close> (\<open>gp_conn.c\<close>, \<open>gp_pending_task.c\<close>, \<open>gp_loop.c\<close>, \<open>gp_server.c\<close>, \<open>gp_acceptor.c\<close>): one loop
    with one server over an explicit heap of connections. Buffers, lists and the table are byte strings,
    sequences and maps, as the theorems above justify. \<open>Gp_Net_Inv\<close>, \<open>Gp_Net_Events\<close>, \<open>Gp_Net_Tasks\<close> prove the
    invariant for calls of the application, events and tasks; \<open>Gp_Net_Frame\<close> follows the log and the
    queue; \<open>Gp_Net_Correct\<close> has the properties of whole runs: no invalid access, exact reference counts, closed
    connections are freed once, no lost wakeup, output in order.
  \<^item> \<open>Gp_Yaml\<close>, \<open>Gp_Yaml_Inv\<close>, \<open>Gp_Yaml_Ends\<close>, \<open>Gp_Yaml_Correct\<close> (\<open>gp_conf_yaml_loader.c\<close>): the loader as a recursion over the
    events of a YAML parser, which is a parameter. It keeps final values, builds the tree of a document, and its values are
    read back. The fuel is the number of events of the stream, which is enough for a document without inclusions; with
    them there is a bound whenever the files are finite and include each other without a cycle.
  \<^item> \<open>Gp_Pool\<close>, \<open>Gp_Pool_Correct\<close> (\<open>gp_threadpool.c\<close>, \<open>gp_thread.c\<close>): workers and clients as interleaved threads,
    an inductive step relation and its reachable states. No access goes wrong, the pool drains, \<open>wait_task\<close> never
    returns.
  \<^item> \<open>Gp_Client\<close>, \<open>Gp_Client_Correct\<close> (\<open>gp_sync_client.c\<close>, \<open>gp_socketop.c\<close>): the blocking client over a socket that
    transfers what it likes; it returns the message the server encoded. A loop takes one answer of the socket per
    round and has not ended when the answers are used up.
  \<^item> \<open>Gp_Ssl\<close>, \<open>Gp_Ssl_Correct\<close> (\<open>gp_ssl_server.c\<close>): sessions over the connections of \<open>Gp_Net\<close>, with OpenSSL as a parameter. The input
    buffer is the decrypted stream, the handshake asks the poller for what OpenSSL wants, closing frees session and
    connection; a handshake that waited to write never reads, a hang-up with further events uses the freed session.
  \<^item> \<open>Gp_Ipc_Server\<close> (\<open>gp_ipc_server.c\<close>, \<open>gp_system.c\<close>): the start of the protobuf server, composed of the event loop, the server and
    the socket addresses; it is bound to the path that \<open>Gp_Client\<close> connects to.
  \<^item> \<open>Gp_Sock\<close> (\<open>gp_sock_address.c\<close>): addresses as bytes; a path is stored and given back.
  \<^item> \<open>Gp_Module\<close> (\<open>gp_module.c\<close>): registration and initialisation over the intrusive list of \<open>Gp_List\<close>.
  \<^item> \<open>Gp_Atomic\<close> (\<open>gp.h\<close>): the atomic counter under interleaving; the testing functions consist of two steps.

  \<^bold>\<open>Bounds and fuel.\<close> The walk over pending tasks takes fuel because a task may queue further ones;
  \<open>Gp_Net_Tasks\<close> proves that a bound exists for every state, since a task that queues another one has closed a
  connection. The scan of a table with \<open>2 ^ K\<close> slots ends within as many calls. Fuel of the other loops is computed
  in the definitions from the data they walk over.

  \<^bold>\<open>Abstractions.\<close> Calls of other threads on a loop are atomic and happen while the loop waits: the code takes no
  lock there, so that nothing can be said of other interleavings. Reference counts are unbounded integers. Memory
  allocation does not fail. The ring buffer is modelled for calls that do not overlap.

  \<^bold>\<open>Not modelled.\<close> The functions that read the addresses of a socket, which are one call of the C library
  each; the wrappers of
  POSIX threads; the clock; the addresses of accepted connections, which are only printed; the
  statistics of the hash table and the conversions of the configuration to floating point.
\<close>

end
